(* ===== verification/Prelude.thy ===== *)
theory Prelude
  imports Main "HOL-Library.Word"
begin

text \<open>
  The shared layer of the development: the names of the machine types, the
  collections of rewrite rules the component theories extend, and the facts on
  lists (positional insertion, strictly increasing keys, prefix sums) that
  several components need.
\<close>

section \<open>Machine types\<close>

type_synonym u8 = "8 word"
type_synonym u16 = "16 word"
type_synonym u32 = "32 word"
type_synonym u64 = "64 word"

section \<open>Collections of facts\<close>

named_theorems list_edit_simps "rewrite rules for positional insertion into lists"
named_theorems scan_bounds "every scanner stays between its start and the end of the buffer"

section \<open>Positional insertion\<close>

text \<open>
  \<open>insert_at i x xs\<close> is what the C++ code does with a \<open>memmove\<close> of the
  elements from position \<open>i\<close> on by one slot, followed by a store to slot \<open>i\<close>.
\<close>

definition insert_at :: "nat \<Rightarrow> 'a \<Rightarrow> 'a list \<Rightarrow> 'a list" where
  "insert_at i x xs = take i xs @ x # drop i xs"

lemma insert_at_append [list_edit_simps]:
  "length ls = i \<Longrightarrow> insert_at i x (ls @ rs) = ls @ x # rs"
  by (simp add: insert_at_def)

lemma insert_at_append_Suc [list_edit_simps]:
  "length ls = i \<Longrightarrow> insert_at (Suc i) x (ls @ y # rs) = ls @ y # x # rs"
  by (simp add: insert_at_def)

lemma length_insert_at [simp]: "length (insert_at i x xs) = Suc (length xs)"
  by (simp add: insert_at_def)

lemma set_insert_at [simp]: "set (insert_at i x xs) = insert x (set xs)"
proof -
  have "set xs = set (take i xs) \<union> set (drop i xs)"
    by (metis append_take_drop_id set_append)
  then show ?thesis by (auto simp: insert_at_def)
qed

lemma sum_list_insert_at:
  fixes f :: "'a \<Rightarrow> 'b::comm_monoid_add"
  shows "sum_list (map f (insert_at i x xs)) = f x + sum_list (map f xs)"
proof -
  have "sum_list (map f xs) = sum_list (map f (take i xs)) + sum_list (map f (drop i xs))"
    by (metis append_take_drop_id map_append sum_list_append)
  then show ?thesis by (simp add: insert_at_def ac_simps)
qed

lemma split_at_length:
  assumes "i \<le> length xs"
  obtains ls rs where "xs = ls @ rs" "length ls = i"
  using assms that [of "take i xs" "drop i xs"] by simp

lemma split_at_nth:
  assumes "i < length xs"
  obtains ls rs where "xs = ls @ xs ! i # rs" "length ls = i"
  using assms that [of "take i xs" "drop (Suc i) xs"] by (simp add: id_take_nth_drop [symmetric])

section \<open>Options\<close>

lemma bind_Some_iff:
  "Option.bind x f = Some y \<longleftrightarrow> (\<exists>z. x = Some z \<and> f z = Some y)"
  by (cases x) auto

end
