(* ===== verification/RewriteInterfaces.thy ===== *)
theory RewriteInterfaces
  imports Prelude
begin

text \<open>
  The two interfaces \<open>RewriteBuffer\<close> (\<open>include/latino/Rewrite/Core/RewriteBuffer.h\<close>)
  is written against: a map from file offsets to accumulated deltas (\<open>DeltaTree\<close>) and
  an editable text (\<open>RewriteRope\<close>).  Each locale fixes the operations the buffer calls
  and assumes what it relies on; the providing theories interpret them.
\<close>

section \<open>Accumulated deltas\<close>

locale delta_map =
  fixes empty_deltas :: 'd
    and add_delta :: "u32 \<Rightarrow> int \<Rightarrow> 'd \<Rightarrow> 'd option"
    and delta_at :: "u32 \<Rightarrow> 'd \<Rightarrow> int option"
    and deltas_inv :: "'d \<Rightarrow> bool"
  assumes inv_empty: "deltas_inv empty_deltas"
    and at_empty: "delta_at k empty_deltas = Some 0"
    and at_defined: "deltas_inv m \<Longrightarrow> \<exists>x. delta_at k m = Some x"
    and add_defined: "deltas_inv m \<Longrightarrow> d \<noteq> 0 \<Longrightarrow> \<exists>m'. add_delta i d m = Some m'"
    and add_inv: "deltas_inv m \<Longrightarrow> add_delta i d m = Some m' \<Longrightarrow> deltas_inv m'"
    and add_at: "deltas_inv m \<Longrightarrow> add_delta i d m = Some m' \<Longrightarrow> delta_at k m = Some x \<Longrightarrow>
      delta_at k m' = Some (x + (if i < k then d else 0))"
begin

definition delta_val :: "u32 \<Rightarrow> 'd \<Rightarrow> int" where
  "delta_val k m = (case delta_at k m of Some x \<Rightarrow> x | None \<Rightarrow> 0)"

lemma delta_at_val:
  assumes "deltas_inv m"
  shows "delta_at k m = Some (delta_val k m)"
proof -
  obtain x where "delta_at k m = Some x" using at_defined [OF assms] by blast
  then show ?thesis by (simp add: delta_val_def)
qed

lemma delta_val_empty: "delta_val k empty_deltas = 0"
  by (simp add: delta_val_def at_empty)

lemma delta_val_add:
  assumes "deltas_inv m" "add_delta i d m = Some m'"
  shows "delta_val k m' = delta_val k m + (if i < k then d else 0)"
  using add_at [OF assms delta_at_val [OF assms(1)]] by (simp add: delta_val_def)

text \<open>Two edits commute for every later query.\<close>

lemma add_commute:
  assumes "deltas_inv m" "add_delta i d m = Some m1" "add_delta j e m1 = Some m2"
    and "add_delta j e m = Some m3" "add_delta i d m3 = Some m4"
  shows "delta_val k m2 = delta_val k m4"
  using delta_val_add [OF add_inv [OF assms(1,2)] assms(3)] delta_val_add [OF assms(1,2)]
    delta_val_add [OF add_inv [OF assms(1,4)] assms(5)] delta_val_add [OF assms(1,4)]
  by simp

end

section \<open>Editable text\<close>

locale text_buffer =
  fixes buf_insert :: "nat \<Rightarrow> string \<Rightarrow> 'b \<Rightarrow> 'b option"
    and buf_erase :: "nat \<Rightarrow> nat \<Rightarrow> 'b \<Rightarrow> 'b option"
    and buf_text :: "'b \<Rightarrow> string"
    and buf_inv :: "'b \<Rightarrow> bool"
  assumes insert_defined: "buf_inv b \<Longrightarrow> off \<le> length (buf_text b) \<Longrightarrow> \<exists>b'. buf_insert off s b = Some b'"
    and insert_inv: "buf_inv b \<Longrightarrow> off \<le> length (buf_text b) \<Longrightarrow> buf_insert off s b = Some b' \<Longrightarrow> buf_inv b'"
    and insert_text: "buf_inv b \<Longrightarrow> off \<le> length (buf_text b) \<Longrightarrow> buf_insert off s b = Some b' \<Longrightarrow>
      buf_text b' = take off (buf_text b) @ s @ drop off (buf_text b)"
    and erase_defined: "buf_inv b \<Longrightarrow> off + n \<le> length (buf_text b) \<Longrightarrow> \<exists>b'. buf_erase off n b = Some b'"
    and erase_inv: "buf_inv b \<Longrightarrow> off + n \<le> length (buf_text b) \<Longrightarrow> n < length (buf_text b) \<Longrightarrow>
      buf_erase off n b = Some b' \<Longrightarrow> buf_inv b'"
    and erase_text: "buf_inv b \<Longrightarrow> off + n \<le> length (buf_text b) \<Longrightarrow> buf_erase off n b = Some b' \<Longrightarrow>
      buf_text b' = take off (buf_text b) @ drop (off + n) (buf_text b)"
begin

text \<open>Erasing what was just inserted gives the text back.\<close>

lemma insert_erase:
  assumes "buf_inv b" "off \<le> length (buf_text b)" "buf_insert off s b = Some b'"
    and "buf_erase off (length s) b' = Some b''"
  shows "buf_text b'' = buf_text b"
proof -
  have t: "buf_text b' = take off (buf_text b) @ s @ drop off (buf_text b)"
    by (rule insert_text [OF assms(1-3)])
  have "buf_text b'' = take off (buf_text b') @ drop (off + length s) (buf_text b')"
    using erase_text [OF insert_inv [OF assms(1-3)] _ assms(4)] t assms(2) by simp
  with t assms(2) show ?thesis by (simp add: min_def)
qed

end

end
