(* ===== verification/DeltaTree.thy ===== *)
theory DeltaTree
  imports RewriteInterfaces
begin

text \<open>
  The B-tree of \<open>lib/Rewrite/DeltaTree.cpp\<close>, which maps an offset of the original
  file to the accumulated size change of all edits before it.  A node is a
  value of \<open>delta_node\<close>; the C++ arrays \<open>Values[0..NumValuesUsed)\<close> and
  \<open>Children[0..NumValuesUsed]\<close> are lists, so \<open>NumValuesUsed\<close> is the length of the
  first.  An operation that mutates \<open>this\<close> returns the new node; a violated
  assertion is \<open>None\<close>.
\<close>

section \<open>Data\<close>

record source_delta =
  FileLoc :: u32
  Delta :: int

datatype delta_node =
    DLeaf (Values: "source_delta list") (FullDelta: int)
  | DInterior (Values: "source_delta list") (Children: "delta_node list") (FullDelta: int)

definition WidthFactor :: nat where
  "WidthFactor = 8"

definition SourceDelta_get :: "u32 \<Rightarrow> int \<Rightarrow> source_delta" where
  "SourceDelta_get Loc D = \<lparr>FileLoc = Loc, Delta = D\<rparr>"

definition isFull :: "delta_node \<Rightarrow> bool" where
  "isFull n \<longleftrightarrow> length (Values n) = 2 * WidthFactor - 1"

text \<open>
  What \<open>DoInsertion\<close> leaves behind: either \<open>this\<close> updated (it returned false), or the
  \<open>InsertResult\<close> with the left half, the pivot and the right half (it returned true).
\<close>

datatype insert_result =
    Inserted delta_node
  | SplitInto delta_node source_delta delta_node

section \<open>Operations\<close>

fun RecomputeFullDeltaLocally :: "delta_node \<Rightarrow> delta_node" where
  "RecomputeFullDeltaLocally (DLeaf vs fd) = DLeaf vs (sum_list (map Delta vs))"
| "RecomputeFullDeltaLocally (DInterior vs cs fd) =
     DInterior vs cs (sum_list (map Delta vs) + sum_list (map FullDelta cs))"

fun DoSplit :: "delta_node \<Rightarrow> delta_node \<times> source_delta \<times> delta_node" where
  "DoSplit (DLeaf vs fd) =
     (RecomputeFullDeltaLocally (DLeaf (take (WidthFactor - 1) vs) fd),
      vs ! (WidthFactor - 1),
      RecomputeFullDeltaLocally (DLeaf (take (WidthFactor - 1) (drop WidthFactor vs)) 0))"
| "DoSplit (DInterior vs cs fd) =
     (RecomputeFullDeltaLocally
        (DInterior (take (WidthFactor - 1) vs) (take WidthFactor cs) fd),
      vs ! (WidthFactor - 1),
      RecomputeFullDeltaLocally
        (DInterior (take (WidthFactor - 1) (drop WidthFactor vs))
           (take WidthFactor (drop WidthFactor cs)) 0))"

text \<open>The loop \<open>while (i != e && FileIndex > getValue(i).FileLoc) ++i\<close>.\<close>

fun insertion_point :: "u32 \<Rightarrow> source_delta list \<Rightarrow> nat" where
  "insertion_point FileIndex [] = 0"
| "insertion_point FileIndex (v # vs) =
     (if FileIndex > FileLoc v then Suc (insertion_point FileIndex vs) else 0)"

text \<open>
  The tail of \<open>DoInsertion\<close>: put a percolated pivot and its right subtree into the
  half of a split interior node that can hold them.
\<close>

fun insert_sub :: "source_delta \<Rightarrow> delta_node \<Rightarrow> delta_node \<Rightarrow> delta_node" where
  "insert_sub SubSplit SubRHS (DInterior vs cs fd) =
     (let i = insertion_point (FileLoc SubSplit) vs
      in DInterior (insert_at i SubSplit vs) (insert_at (i + 1) SubRHS cs)
           (fd + Delta SubSplit + FullDelta SubRHS))"
| "insert_sub SubSplit SubRHS (DLeaf vs fd) = DLeaf vs fd"

fun node_count :: "delta_node \<Rightarrow> nat" where
  "node_count (DLeaf vs fd) = Suc (length vs)"
| "node_count (DInterior vs cs fd) = Suc (sum_list (map node_count cs))"

lemma node_count_child:
  "i < length cs \<Longrightarrow> node_count (cs ! i) < node_count (DInterior vs cs fd)"
  by (simp add: less_Suc_eq_le member_le_sum_list)

text \<open>
  \<open>hasRes\<close> says whether the caller passed a non-null \<open>InsertRes\<close>.
\<close>

function (sequential) DoInsertion ::
  "u32 \<Rightarrow> int \<Rightarrow> bool \<Rightarrow> delta_node \<Rightarrow> insert_result option" where
  "DoInsertion FileIndex D hasRes (DLeaf vs fd) =
     (let fd' = fd + D; i = insertion_point FileIndex vs; e = length vs
      in if i \<noteq> e \<and> FileLoc (vs ! i) = FileIndex
         then Some (Inserted (DLeaf (vs[i := (vs ! i)\<lparr>Delta := Delta (vs ! i) + D\<rparr>]) fd'))
         else if \<not> isFull (DLeaf vs fd')
         then Some (Inserted (DLeaf (insert_at i (SourceDelta_get FileIndex D) vs) fd'))
         else if \<not> hasRes then None
         else case DoSplit (DLeaf vs fd') of (L, S, R) \<Rightarrow>
           (if FileLoc S > FileIndex
            then (case DoInsertion FileIndex D False L of
                    Some (Inserted L') \<Rightarrow> Some (SplitInto L' S R)
                  | _ \<Rightarrow> None)
            else (case DoInsertion FileIndex D False R of
                    Some (Inserted R') \<Rightarrow> Some (SplitInto L S R')
                  | _ \<Rightarrow> None)))"
| "DoInsertion FileIndex D hasRes (DInterior vs cs fd) =
     (let fd' = fd + D; i = insertion_point FileIndex vs; e = length vs
      in if i \<noteq> e \<and> FileLoc (vs ! i) = FileIndex
         then Some (Inserted (DInterior (vs[i := (vs ! i)\<lparr>Delta := Delta (vs ! i) + D\<rparr>]) cs fd'))
         else if i < length cs
         then (case DoInsertion FileIndex D hasRes (cs ! i) of
                 None \<Rightarrow> None
               | Some (Inserted c) \<Rightarrow> Some (Inserted (DInterior vs (cs[i := c]) fd'))
               | Some (SplitInto L S R) \<Rightarrow>
                   if \<not> isFull (DInterior vs cs fd')
                   then Some (Inserted (DInterior (insert_at i S vs)
                                (insert_at (i + 1) R (cs[i := L])) fd'))
                   else (case DoSplit (DInterior vs (cs[i := L]) fd') of (LHS, Split, RHS) \<Rightarrow>
                     if FileLoc S < FileLoc Split
                     then Some (SplitInto (insert_sub S R LHS) Split RHS)
                     else Some (SplitInto LHS Split (insert_sub S R RHS))))
         else None)"
  by pat_completeness auto
termination
  by (relation "measure (\<lambda>(_, _, _, t). node_count t)")
    (auto simp: node_count_child isFull_def WidthFactor_def simp del: node_count.simps(2))

declare DoInsertion.simps [simp del]

definition DeltaTree_init :: delta_node where
  "DeltaTree_init = DLeaf [] 0"

text \<open>\<open>AddDelta\<close>: insert at the root; a split of the root grows the tree by a level.\<close>

definition AddDelta :: "u32 \<Rightarrow> int \<Rightarrow> delta_node \<Rightarrow> delta_node option" where
  "AddDelta FileIndex D Root =
     (if D = 0 then None
      else case DoInsertion FileIndex D True Root of
        None \<Rightarrow> None
      | Some (Inserted Root') \<Rightarrow> Some Root'
      | Some (SplitInto LHS Split RHS) \<Rightarrow>
          Some (DInterior [Split] [LHS, RHS] (FullDelta LHS + FullDelta RHS + Delta Split)))"

text \<open>The first loop of \<open>getDeltaAt\<close>: local values before the index, and their sum.\<close>

fun local_deltas :: "u32 \<Rightarrow> source_delta list \<Rightarrow> nat \<times> int" where
  "local_deltas FileIndex [] = (0, 0)"
| "local_deltas FileIndex (v # vs) =
     (if FileLoc v \<ge> FileIndex then (0, 0)
      else case local_deltas FileIndex vs of (n, r) \<Rightarrow> (Suc n, Delta v + r))"

function (sequential) getDeltaAt_from :: "u32 \<Rightarrow> int \<Rightarrow> delta_node \<Rightarrow> int option" where
  "getDeltaAt_from FileIndex Result (DLeaf vs fd) =
     Some (Result + snd (local_deltas FileIndex vs))"
| "getDeltaAt_from FileIndex Result (DInterior vs cs fd) =
     (case local_deltas FileIndex vs of (NumValsGreater, r) \<Rightarrow>
        let Result' = Result + r + sum_list (map FullDelta (take NumValsGreater cs))
        in if NumValsGreater < length cs
           then (if NumValsGreater \<noteq> length vs \<and> FileLoc (vs ! NumValsGreater) = FileIndex
                 then Some (Result' + FullDelta (cs ! NumValsGreater))
                 else getDeltaAt_from FileIndex Result' (cs ! NumValsGreater))
           else None)"
  by pat_completeness auto
termination
  by (relation "measure (\<lambda>(_, _, t). node_count t)")
    (auto simp: node_count_child simp del: node_count.simps(2))

declare getDeltaAt_from.simps [simp del]

definition getDeltaAt :: "u32 \<Rightarrow> delta_node \<Rightarrow> int option" where
  "getDeltaAt FileIndex Root = getDeltaAt_from FileIndex 0 Root"

section \<open>Abstract view: the entries in order\<close>

fun interleave :: "'a list list \<Rightarrow> 'a list \<Rightarrow> 'a list" where
  "interleave (c # cs) (v # vs) = c @ v # interleave cs vs"
| "interleave cs [] = concat cs"
| "interleave [] vs = vs"

fun entries :: "delta_node \<Rightarrow> source_delta list" where
  "entries (DLeaf vs fd) = vs"
| "entries (DInterior vs cs fd) = interleave (map entries cs) vs"

fun add_at :: "u32 \<Rightarrow> int \<Rightarrow> source_delta list \<Rightarrow> source_delta list" where
  "add_at k d [] = [SourceDelta_get k d]"
| "add_at k d (v # vs) =
     (if FileLoc v < k then v # add_at k d vs
      else if FileLoc v = k then v\<lparr>Delta := Delta v + d\<rparr> # vs
      else SourceDelta_get k d # v # vs)"

definition delta_before :: "u32 \<Rightarrow> source_delta list \<Rightarrow> int" where
  "delta_before k vs = (\<Sum>v \<leftarrow> vs. if FileLoc v < k then Delta v else 0)"

abbreviation keys :: "source_delta list \<Rightarrow> u32 list" where
  "keys vs \<equiv> map FileLoc vs"

definition sorted_keys :: "source_delta list \<Rightarrow> bool" where
  "sorted_keys vs \<longleftrightarrow> sorted_wrt (<) (keys vs)"

lemma sorted_keys_append [simp]:
  "sorted_keys (xs @ ys) \<longleftrightarrow>
     sorted_keys xs \<and> sorted_keys ys \<and> (\<forall>x \<in> set xs. \<forall>y \<in> set ys. FileLoc x < FileLoc y)"
  by (auto simp: sorted_keys_def sorted_wrt_append)

lemma sorted_keys_Cons [simp]:
  "sorted_keys (x # xs) \<longleftrightarrow> sorted_keys xs \<and> (\<forall>y \<in> set xs. FileLoc x < FileLoc y)"
  by (auto simp: sorted_keys_def)

lemma sorted_keys_Nil [simp]: "sorted_keys []"
  by (simp add: sorted_keys_def)

subsection \<open>The sorted association list\<close>

lemma SourceDelta_get_sel [simp]:
  "FileLoc (SourceDelta_get k d) = k" "Delta (SourceDelta_get k d) = d"
  by (simp_all add: SourceDelta_get_def)

lemma keys_add_at: "set (keys (add_at k d vs)) = insert k (set (keys vs))"
  by (induction vs) auto

lemma sorted_add_at: "sorted_keys vs \<Longrightarrow> sorted_keys (add_at k d vs)"
proof (induction vs)
  case Nil
  then show ?case by simp
next
  case (Cons v vs)
  have "FileLoc y \<in> insert k (set (keys vs))" if "y \<in> set (add_at k d vs)" for y
    using that keys_add_at [of k d vs] by (metis image_eqI list.set_map)
  with Cons show ?case by fastforce
qed

lemma add_at_left:
  "\<forall>x \<in> set xs. FileLoc x < k \<Longrightarrow> add_at k d (xs @ ys) = xs @ add_at k d ys"
  by (induction xs) auto

lemma add_at_right:
  "k < FileLoc y \<Longrightarrow> add_at k d (xs @ y # ys) = add_at k d xs @ y # ys"
  by (induction xs) auto

lemma delta_before_simps [simp]:
  "delta_before k [] = 0"
  "delta_before k (v # vs) = (if FileLoc v < k then Delta v else 0) + delta_before k vs"
  "delta_before k (xs @ ys) = delta_before k xs + delta_before k ys"
  by (simp_all add: delta_before_def)

lemma delta_before_add_at:
  "delta_before k (add_at i d vs) = delta_before k vs + (if i < k then d else 0)"
  by (induction vs) auto

lemma delta_before_all:
  "\<forall>v \<in> set vs. FileLoc v < k \<Longrightarrow> delta_before k vs = sum_list (map Delta vs)"
  by (induction vs) auto

lemma delta_before_none:
  "\<forall>v \<in> set vs. k \<le> FileLoc v \<Longrightarrow> delta_before k vs = 0"
  by (induction vs) (auto simp: not_less)

lemma sum_add_at: "sum_list (map Delta (add_at k d vs)) = sum_list (map Delta vs) + d"
  by (induction vs) auto

subsection \<open>Interleaving children and values\<close>

lemma interleave_Nil [simp]: "interleave [] vs = vs" "interleave cs [] = concat cs"
  by (cases vs; simp) (cases cs; simp)

lemma interleave_split:
  "length cs1 = Suc (length vs1) \<Longrightarrow>
   interleave (cs1 @ cs2) (vs1 @ v # vs2) = interleave cs1 vs1 @ v # interleave cs2 vs2"
proof (induction vs1 arbitrary: cs1)
  case Nil
  then obtain c where "cs1 = [c]" by (auto simp: length_Suc_conv)
  then show ?case by simp
next
  case (Cons v vs1)
  then show ?case by (cases cs1) auto
qed

lemma interleave_mid:
  "length cl = length ls \<Longrightarrow>
   interleave (cl @ c # cr) (ls @ rs) = interleave cl ls @ interleave (c # cr) rs"
proof (induction ls arbitrary: cl)
  case Nil
  then show ?case by simp
next
  case (Cons v ls)
  then show ?case by (cases cl) auto
qed

lemma interleave_head:
  "interleave (c # cr) rs = c @ interleave ([] # cr) rs"
  by (cases rs) auto

lemma interleave_at:
  "length cl = length ls \<Longrightarrow>
   interleave (cl @ c # cr) (ls @ rs) = interleave cl ls @ c @ interleave ([] # cr) rs"
  by (metis interleave_mid interleave_head)

lemma set_interleave: "set (interleave cs vs) = \<Union> (set ` set cs) \<union> set vs"
  by (induction cs vs rule: interleave.induct) auto

lemma sum_list_concat: "sum_list (concat xss) = sum_list (map sum_list xss)"
  for xss :: "int list list"
  by (induction xss) auto

lemma sum_interleave:
  "sum_list (map f (interleave cs vs)) =
     sum_list (map f vs) + sum_list (map (\<lambda>c. sum_list (map f c)) cs)"
  for f :: "'a \<Rightarrow> int"
  by (induction cs vs rule: interleave.induct)
    (auto simp: sum_list_concat map_concat o_def)

section \<open>The invariant\<close>

text \<open>
  \<open>delta_ok lo h t\<close>: \<open>t\<close> has all its leaves at depth \<open>h\<close>, at least \<open>lo\<close> values in this
  node and at least \<open>WidthFactor - 1\<close> in every node below it, no node over its
  capacity, one child more than values, and every \<open>FullDelta\<close> is the sum the
  comment of the class promises.
\<close>

fun delta_ok :: "nat \<Rightarrow> nat \<Rightarrow> delta_node \<Rightarrow> bool" where
  "delta_ok lo 0 (DLeaf vs fd) \<longleftrightarrow>
     lo \<le> length vs \<and> length vs \<le> 15 \<and> fd = sum_list (map Delta vs)"
| "delta_ok lo (Suc h) (DInterior vs cs fd) \<longleftrightarrow>
     lo \<le> length vs \<and> 1 \<le> length vs \<and> length vs \<le> 15 \<and> length cs = Suc (length vs) \<and>
     fd = sum_list (map Delta vs) + sum_list (map FullDelta cs) \<and>
     (\<forall>c \<in> set cs. delta_ok 7 h c)"
| "delta_ok lo h t \<longleftrightarrow> False"

lemma delta_ok_mono: "delta_ok lo h t \<Longrightarrow> lo' \<le> lo \<Longrightarrow> delta_ok lo' h t"
  by (cases "(lo, h, t)" rule: delta_ok.cases) auto

lemma FullDelta_entries:
  "delta_ok lo h t \<Longrightarrow> FullDelta t = sum_list (map Delta (entries t))"
proof (induction lo h t rule: delta_ok.induct)
  case (2 lo h vs cs fd)
  then have "map FullDelta cs = map (\<lambda>c. sum_list (map Delta (entries c))) cs" by auto
  with 2 show ?case by (simp add: sum_interleave o_def)
qed auto

subsection \<open>Where the insertion loop stops\<close>

lemma insertion_point_le: "insertion_point k vs \<le> length vs"
  by (induction vs) auto

lemma insertion_point_split:
  "\<forall>v \<in> set ls. FileLoc v < k \<Longrightarrow> (rs = [] \<or> k \<le> FileLoc (hd rs)) \<Longrightarrow>
   insertion_point k (ls @ rs) = length ls"
  by (induction ls) (cases rs; auto)+

lemma insertion_point_obtain:
  obtains ls rs where "vs = ls @ rs" "insertion_point k vs = length ls"
    "\<forall>v \<in> set ls. FileLoc v < k" "rs = [] \<or> k \<le> FileLoc (hd rs)"
proof (induction vs arbitrary: thesis)
  case Nil
  then show ?case by simp
next
  case (Cons v vs)
  show ?case
  proof (cases "FileLoc v < k")
    case True
    obtain ls rs where "vs = ls @ rs" "insertion_point k vs = length ls"
      "\<forall>v \<in> set ls. FileLoc v < k" "rs = [] \<or> k \<le> FileLoc (hd rs)"
      using Cons.IH by metis
    with True show ?thesis by (intro Cons.prems [of "v # ls" rs]) auto
  next
    case False
    then show ?thesis by (intro Cons.prems [of "[]" "v # vs"]) auto
  qed
qed

subsection \<open>Splitting a node\<close>

definition outcome_ok :: "nat \<Rightarrow> nat \<Rightarrow> source_delta list \<Rightarrow> insert_result option \<Rightarrow> bool" where
  "outcome_ok lo h es r \<longleftrightarrow> (case r of
     None \<Rightarrow> False
   | Some (Inserted t) \<Rightarrow> delta_ok lo h t \<and> entries t = es
   | Some (SplitInto L S R) \<Rightarrow>
       delta_ok 7 h L \<and> delta_ok 7 h R \<and> entries L @ S # entries R = es)"

lemma sum_list_update_delta:
  "i < length vs \<Longrightarrow>
   sum_list (map Delta (vs[i := (vs ! i)\<lparr>Delta := Delta (vs ! i) + d\<rparr>])) = sum_list (map Delta vs) + d"
  by (induction vs arbitrary: i) (auto split: nat.splits)

text \<open>An entry at exactly this index only gets its delta changed.\<close>

lemma update_existing:
  assumes "\<forall>v \<in> set ls. FileLoc v < k" "FileLoc r = k" "vs = ls @ r # rs"
  shows "vs[length ls := (vs ! length ls)\<lparr>Delta := Delta (vs ! length ls) + d\<rparr>] = add_at k d vs"
  using assms by (simp add: add_at_left)

lemma leaf_insertion_ok:
  assumes "length vs \<le> 14 \<or> k \<in> set (keys vs)" "lo \<le> length vs" "length vs \<le> 15" "sorted_keys vs"
    "fd = sum_list (map Delta vs)"
  shows "outcome_ok lo 0 (add_at k d vs) (DoInsertion k d b (DLeaf vs fd)) \<and>
         (\<exists>t. DoInsertion k d b (DLeaf vs fd) = Some (Inserted t))"
proof -
  obtain ls rs where vs: "vs = ls @ rs" "insertion_point k vs = length ls"
    "\<forall>v \<in> set ls. FileLoc v < k" "rs = [] \<or> k \<le> FileLoc (hd rs)"
    by (rule insertion_point_obtain)
  show ?thesis
  proof (cases "rs \<noteq> [] \<and> FileLoc (hd rs) = k")
    case True
    then obtain r rs' where rs: "rs = r # rs'" "FileLoc r = k" by (cases rs) auto
    then have "DoInsertion k d b (DLeaf vs fd) = Some (Inserted (DLeaf (add_at k d vs) (fd + d)))"
      using vs update_existing [OF vs(3) rs(2), of vs rs' d] by (simp add: DoInsertion.simps)
    moreover have "length (add_at k d vs) = length vs"
      using vs rs by (simp add: add_at_left)
    ultimately show ?thesis using assms
      by (simp add: outcome_ok_def sum_add_at)
  next
    case False
    then have add: "add_at k d rs = SourceDelta_get k d # rs"
      using vs(4) by (cases rs) auto
    have "k \<notin> set (keys vs)" using False vs assms(4) by (cases rs) force+
    then have nf: "\<not> isFull (DLeaf vs fd')" for fd'
      using assms(1) by (simp add: isFull_def WidthFactor_def)
    have ne: "\<not> (length ls \<noteq> length vs \<and> FileLoc (vs ! length ls) = k)"
      using False vs(1) by (cases rs) auto
    then have "DoInsertion k d b (DLeaf vs fd) =
        Some (Inserted (DLeaf (insert_at (length ls) (SourceDelta_get k d) vs) (fd + d)))"
      using vs(2) nf by (simp add: DoInsertion.simps Let_def del: de_Morgan_conj)
    then show ?thesis using assms vs add \<open>k \<notin> set (keys vs)\<close>
      by (auto simp: outcome_ok_def add_at_left insert_at_append)
  qed
qed

lemma insertion_point_hit:
  assumes "insertion_point k vs \<noteq> length vs" "FileLoc (vs ! insertion_point k vs) = k"
  shows "k \<in> set (keys vs)"
  using assms insertion_point_le [of k vs] by (metis image_eqI le_neq_implies_less list.set_map nth_mem)

lemma leaf_ok_obtain:
  assumes "outcome_ok lo 0 es r \<and> (\<exists>t. r = Some (Inserted t))"
  obtains t where "r = Some (Inserted t)" "delta_ok lo 0 t" "entries t = es"
  using assms by (auto simp: outcome_ok_def)

lemma half_leaf_insert:
  assumes "length L = 7" "sorted_keys L"
  obtains L' where "DoInsertion k d False (DLeaf L (sum_list (map Delta L))) = Some (Inserted L')"
    "delta_ok 7 0 L'" "entries L' = add_at k d L"
proof -
  have "outcome_ok 7 0 (add_at k d L) (DoInsertion k d False (DLeaf L (sum_list (map Delta L)))) \<and>
      (\<exists>t. DoInsertion k d False (DLeaf L (sum_list (map Delta L))) = Some (Inserted t))"
    using assms by (intro leaf_insertion_ok) auto
  then show ?thesis by (rule leaf_ok_obtain) (rule that)
qed

lemma full_leaf_insert_ok:
  assumes len: "length vs = 15" and new: "k \<notin> set (keys vs)" and srt: "sorted_keys vs"
    and fd: "fd = sum_list (map Delta vs)"
  shows "outcome_ok lo 0 (add_at k d vs) (DoInsertion k d True (DLeaf vs fd))"
proof -
  define L S R where "L = take 7 vs" and "S = vs ! 7" and "R = drop 8 vs"
  have vs: "vs = L @ S # R" unfolding L_def S_def R_def
    using len id_take_nth_drop [of 7 vs] by simp
  have lens: "length L = 7" "length R = 7" using len by (simp_all add: L_def R_def)
  have split: "DoSplit (DLeaf vs fd') =
      (DLeaf L (sum_list (map Delta L)), S, DLeaf R (sum_list (map Delta R)))" for fd'
    using len by (simp add: WidthFactor_def L_def S_def R_def)
  have step: "DoInsertion k d True (DLeaf vs fd) =
     (if FileLoc S > k
      then (case DoInsertion k d False (DLeaf L (sum_list (map Delta L))) of
              Some (Inserted L') \<Rightarrow> Some (SplitInto L' S (DLeaf R (sum_list (map Delta R))))
            | _ \<Rightarrow> None)
      else (case DoInsertion k d False (DLeaf R (sum_list (map Delta R))) of
              Some (Inserted R') \<Rightarrow> Some (SplitInto (DLeaf L (sum_list (map Delta L))) S R')
            | _ \<Rightarrow> None))"
  proof -
    have ne: "(insertion_point k vs \<noteq> length vs \<and> FileLoc (vs ! insertion_point k vs) = k) = False"
      using insertion_point_hit [of k vs] new by blast
    have full: "isFull (DLeaf vs fd') = True" for fd'
      using len by (simp add: isFull_def WidthFactor_def)
    show ?thesis
      by (simp only: DoInsertion.simps(1) [of k d True vs fd] Let_def ne full split prod.case
          if_False if_True simp_thms)
  qed
  have srts: "sorted_keys L" "sorted_keys R" using srt vs by auto
  show ?thesis
  proof (cases "FileLoc S > k")
    case True
    obtain L' where "DoInsertion k d False (DLeaf L (sum_list (map Delta L))) = Some (Inserted L')"
      "delta_ok 7 0 L'" "entries L' = add_at k d L"
      using half_leaf_insert lens(1) srts(1) by blast
    then show ?thesis using True step lens vs
      by (simp add: outcome_ok_def add_at_right)
  next
    case False
    with new vs have "FileLoc S < k" by (auto simp: not_less order_le_less)
    then have "\<forall>x \<in> set (L @ [S]). FileLoc x < k" using srt vs by force
    then have add: "add_at k d vs = L @ S # add_at k d R"
      using vs add_at_left [of "L @ [S]" k d R] by simp
    obtain R' where "DoInsertion k d False (DLeaf R (sum_list (map Delta R))) = Some (Inserted R')"
      "delta_ok 7 0 R'" "entries R' = add_at k d R"
      using half_leaf_insert lens(2) srts(2) by blast
    then show ?thesis using False step lens add
      by (simp add: outcome_ok_def)
  qed
qed


subsection \<open>Insertion into an interior node\<close>

lemma interior_left:
  assumes "sorted_keys (interleave (map entries cl) ls)" "length cl = length ls"
    "\<forall>v \<in> set ls. FileLoc v < k"
  shows "\<forall>x \<in> set (interleave (map entries cl) ls). FileLoc x < k"
proof (cases ls rule: rev_cases)
  case Nil
  with assms show ?thesis by simp
next
  case (snoc ls' l)
  then have "interleave (map entries cl) ls = interleave (map entries cl) ls' @ [l]"
    using interleave_split [of "map entries cl" ls' "[]" l "[]"] assms(2) by simp
  with assms snoc show ?thesis by force
qed

text \<open>
  The entries of an interior node around child \<open>i\<close>, where \<open>i\<close> is the insertion point:
  everything to the left is below the index, the next value to the right above it.
\<close>

lemma interior_context:
  assumes srt: "sorted_keys (interleave (map entries (cl @ c # cr)) (ls @ rs))"
    and len: "length cl = length ls" "length cr = length rs"
    and lt: "\<forall>v \<in> set ls. FileLoc v < k" and gt: "rs = [] \<or> k < FileLoc (hd rs)"
  shows "add_at k d (interleave (map entries (cl @ c # cr)) (ls @ rs)) =
         interleave (map entries cl) ls @ add_at k d (entries c) @ interleave ([] # map entries cr) rs"
    (is "?A = ?B")
    and "sorted_keys (entries c)"
proof -
  let ?L = "interleave (map entries cl) ls" and ?R = "interleave ([] # map entries cr) rs"
  have eq: "interleave (map entries (cl @ c # cr)) (ls @ rs) = ?L @ entries c @ ?R"
    using len by (simp add: interleave_at)
  have srtL: "sorted_keys ?L" and srtc: "sorted_keys (entries c)"
    using srt unfolding eq by auto
  show "sorted_keys (entries c)" by (fact srtc)
  have L: "\<forall>x \<in> set ?L. FileLoc x < k"
    using interior_left [OF srtL len(1) lt] .
  have "add_at k d (entries c @ ?R) = add_at k d (entries c) @ ?R"
  proof (cases rs)
    case Nil
    with len show ?thesis by simp
  next
    case (Cons r rs')
    with gt have "k < FileLoc r" by simp
    with Cons show ?thesis by (simp add: add_at_right)
  qed
  with L eq show "?A = ?B" by (simp add: add_at_left)
qed

lemma interior_hit:
  assumes srt: "sorted_keys (interleave (map entries cs) (ls @ r # rs))"
    and len: "length cs = Suc (length (ls @ r # rs))" and k: "FileLoc r = k"
  shows "interleave (map entries cs) (ls @ r\<lparr>Delta := Delta r + d\<rparr> # rs) =
         add_at k d (interleave (map entries cs) (ls @ r # rs))"
proof -
  obtain c1 c2 where cs: "cs = c1 @ c2" "length c1 = Suc (length ls)"
    using len split_at_length [of "Suc (length ls)" cs] by auto
  have "\<forall>x \<in> set (interleave (map entries c1) ls). FileLoc x < k"
    using srt cs k by (simp add: interleave_split)
  with cs k show ?thesis by (simp add: interleave_split add_at_left)
qed

lemma delta_ok_children:
  "delta_ok lo (Suc h) (DInterior vs cs fd) \<Longrightarrow> c \<in> set cs \<Longrightarrow> delta_ok 7 h c"
  by simp

lemma DoSplit_interior:
  assumes "length v1 = 7" "length v2 = 7" "length c1 = 8" "length c2 = 8"
  shows "DoSplit (DInterior (v1 @ p # v2) (c1 @ c2) fd) =
    (DInterior v1 c1 (sum_list (map Delta v1) + sum_list (map FullDelta c1)), p,
     DInterior v2 c2 (sum_list (map Delta v2) + sum_list (map FullDelta c2)))"
  using assms by (simp add: WidthFactor_def nth_append)

lemma insert_sub_at:
  assumes "\<forall>v \<in> set a. FileLoc v < FileLoc S" "\<forall>v \<in> set b. FileLoc S < FileLoc v"
    and "length ca = length a"
  shows "insert_sub S R (DInterior (a @ b) (ca @ L # cb) fd) =
    DInterior (a @ S # b) (ca @ L # R # cb) (fd + Delta S + FullDelta R)"
proof -
  have "insertion_point (FileLoc S) (a @ b) = length a"
    using assms by (intro insertion_point_split) (cases b; force)+
  with assms(3) show ?thesis by (simp add: insert_at_append insert_at_append_Suc)
qed

text \<open>
  A full node, one of whose children was split into \<open>L\<close>, \<open>S\<close>, \<open>R\<close>: the node splits
  around its median, and \<open>S\<close> goes to the half that holds its place.
\<close>

lemma split_insert_left:
  assumes vs: "length (ls @ rs) = 15" and cs: "length cl = length ls" "length cr = length rs"
    and i: "length ls \<le> 7"
  obtains r1 p r2 k1 k2 where "rs = r1 @ p # r2" "cr = k1 @ k2" "length (ls @ r1) = 7"
     "length r2 = 7" "length (cl @ L # k1) = 8" "length k2 = 8"
     "DoSplit (DInterior (ls @ rs) (cl @ L # cr) fd) =
       (DInterior (ls @ r1) (cl @ L # k1)
          (sum_list (map Delta (ls @ r1)) + sum_list (map FullDelta (cl @ L # k1))), p,
        DInterior r2 k2 (sum_list (map Delta r2) + sum_list (map FullDelta k2)))"
proof -
  have "7 - length ls < length rs" using vs i by simp
  then obtain r1 p r2 where rs: "rs = r1 @ p # r2" "length r1 = 7 - length ls"
    by (metis split_at_nth)
  have "7 - length ls \<le> length cr" using vs i cs by simp
  then obtain k1 k2 where cr: "cr = k1 @ k2" "length k1 = 7 - length ls"
    by (rule split_at_length)
  have l: "length (ls @ r1) = 7" "length (cl @ L # k1) = 8" using rs cr cs i by simp_all
  moreover have "length rs = Suc (length r1 + length r2)" "length cr = length k1 + length k2"
    by (subst rs(1), simp) (subst cr(1), simp)
  ultimately have l': "length r2 = 7" "length k2 = 8" using vs cs rs(2) cr(2) i by simp_all
  show ?thesis
    using that [OF rs(1) cr(1) l(1) l'(1) l(2) l'(2)]
      DoSplit_interior [OF l(1) l'(1) l(2) l'(2), of p fd] rs(1) cr(1)
    by (simp del: DoSplit.simps)
qed

lemma split_insert_right:
  assumes vs: "length (ls @ rs) = 15" and cs: "length cl = length ls" "length cr = length rs"
    and i: "7 < length ls"
  obtains l1 p l2 k1 k2 where "ls = l1 @ p # l2" "cl = k1 @ k2" "length l1 = 7" "length k1 = 8"
     "length (l2 @ rs) = 7" "length (k2 @ L # cr) = 8" "length k2 = length l2"
     "DoSplit (DInterior (ls @ rs) (cl @ L # cr) fd) =
       (DInterior l1 k1 (sum_list (map Delta l1) + sum_list (map FullDelta k1)), p,
        DInterior (l2 @ rs) (k2 @ L # cr)
          (sum_list (map Delta (l2 @ rs)) + sum_list (map FullDelta (k2 @ L # cr))))"
proof -
  obtain l1 p l2 where ls: "ls = l1 @ p # l2" "length l1 = 7"
    using split_at_nth [OF i] by metis
  have "8 \<le> length cl" using i cs by simp
  then obtain k1 k2 where cl: "cl = k1 @ k2" "length k1 = 8" by (rule split_at_length)
  have "length ls = Suc (length l1 + length l2)" "length cl = length k1 + length k2"
    by (subst ls(1), simp) (subst cl(1), simp)
  then have l: "length (l2 @ rs) = 7" "length (k2 @ L # cr) = 8" "length k2 = length l2"
    using vs cs ls(2) cl(2) by simp_all
  show ?thesis
    using that [OF ls(1) cl(1) ls(2) cl(2) l]
      DoSplit_interior [OF ls(2) l(1) cl(2) l(2), of p fd] ls(1) cl(1)
    by (simp del: DoSplit.simps)
qed

lemma insertion_obtain_new:
  assumes "sorted_keys (interleave (map entries cs) vs)" "length cs = Suc (length vs)"
  obtains
    (hit) ls r rs where "vs = ls @ r # rs" "insertion_point k vs = length ls" "FileLoc r = k"
      "\<forall>v \<in> set ls. FileLoc v < k"
  | (miss) ls rs cl c cr where "vs = ls @ rs" "cs = cl @ c # cr" "insertion_point k vs = length ls"
      "length cl = length ls" "length cr = length rs"
      "\<forall>v \<in> set ls. FileLoc v < k" "rs = [] \<or> k < FileLoc (hd rs)"
      "\<not> (length ls \<noteq> length vs \<and> FileLoc (vs ! length ls) = k)"
proof -
  obtain ls rs where vs: "vs = ls @ rs" "insertion_point k vs = length ls"
    "\<forall>v \<in> set ls. FileLoc v < k" "rs = [] \<or> k \<le> FileLoc (hd rs)"
    by (rule insertion_point_obtain)
  show ?thesis
  proof (cases "rs \<noteq> [] \<and> FileLoc (hd rs) = k")
    case True
    then obtain r rs' where "rs = r # rs'" "FileLoc r = k" by (cases rs) auto
    with vs show ?thesis by (intro hit [of ls r rs']) auto
  next
    case False
    have "length ls < length cs" using assms(2) vs(1) by simp
    then obtain cl cr where cs: "cs = cl @ cs ! length ls # cr" "length cl = length ls"
      by (rule split_at_nth)
    moreover have "length cs = Suc (length cl + length cr)" by (subst cs(1)) simp
    with cs assms(2) vs(1) have "length cr = length rs" by simp
    moreover have "rs = [] \<or> k < FileLoc (hd rs)" using False vs(4) by auto
    moreover have "\<not> (length ls \<noteq> length vs \<and> FileLoc (vs ! length ls) = k)"
      using False vs(1) by (cases rs) auto
    ultimately show ?thesis using vs by (intro miss)
  qed
qed

lemma sum_FullDelta_children:
  "\<forall>c \<in> set cs. delta_ok 7 h c \<Longrightarrow>
   sum_list (map FullDelta cs) = sum_list (map (\<lambda>c. sum_list (map Delta (entries c))) cs)"
  by (induction cs) (auto simp: FullDelta_entries)

lemma interior_insert_ok:
  assumes ok: "delta_ok lo (Suc h) (DInterior vs cs fd)"
    and srt: "sorted_keys (entries (DInterior vs cs fd))"
    and IH: "\<And>c. c \<in> set cs \<Longrightarrow> sorted_keys (entries c) \<Longrightarrow>
      outcome_ok 7 h (add_at k d (entries c)) (DoInsertion k d True c)"
  shows "outcome_ok lo (Suc h) (add_at k d (entries (DInterior vs cs fd)))
           (DoInsertion k d True (DInterior vs cs fd))"
proof -
  have srt': "sorted_keys (interleave (map entries cs) vs)" and len: "length cs = Suc (length vs)"
    using ok srt by auto
  from srt' len show ?thesis
  proof (cases rule: insertion_obtain_new [where k = k])
    case (hit ls r rs)
    then have "DoInsertion k d True (DInterior vs cs fd) =
        Some (Inserted (DInterior (ls @ r\<lparr>Delta := Delta r + d\<rparr> # rs) cs (fd + d)))"
      by (simp add: DoInsertion.simps)
    moreover have "interleave (map entries cs) (ls @ r\<lparr>Delta := Delta r + d\<rparr> # rs) =
        add_at k d (interleave (map entries cs) vs)"
      using interior_hit srt' len hit by simp
    ultimately show ?thesis using ok hit by (simp add: outcome_ok_def)
  next
    case (miss ls rs cl c cr)
    let ?L = "interleave (map entries cl) ls" and ?R = "interleave ([] # map entries cr) rs"
    have add: "add_at k d (entries (DInterior vs cs fd)) = ?L @ add_at k d (entries c) @ ?R"
      and srtc: "sorted_keys (entries c)"
    proof -
      have ctx: "sorted_keys (interleave (map entries (cl @ c # cr)) (ls @ rs))"
        using srt' miss by simp
      show "add_at k d (entries (DInterior vs cs fd)) = ?L @ add_at k d (entries c) @ ?R"
        using interior_context(1) [OF ctx miss(4-7), of d] miss by simp
      show "sorted_keys (entries c)"
        by (rule interior_context(2) [OF ctx miss(4-7)])
    qed
    have c: "delta_ok 7 h c" "c \<in> set cs" using ok miss by auto
    have nth: "cs ! length ls = c" "length ls < length cs"
      using miss by (simp_all add: nth_append)
    have upd: "cs[length ls := x] = cl @ x # cr" for x
      using miss by (simp add: list_update_append)
    have step: "DoInsertion k d True (DInterior vs cs fd) =
      (case DoInsertion k d True c of
         None \<Rightarrow> None
       | Some (Inserted c') \<Rightarrow> Some (Inserted (DInterior vs (cl @ c' # cr) (fd + d)))
       | Some (SplitInto L S R) \<Rightarrow>
           if \<not> isFull (DInterior vs cs (fd + d))
           then Some (Inserted (DInterior (ls @ S # rs) (cl @ L # R # cr) (fd + d)))
           else (case DoSplit (DInterior vs (cl @ L # cr) (fd + d)) of (LHS, Split, RHS) \<Rightarrow>
             if FileLoc S < FileLoc Split
             then Some (SplitInto (insert_sub S R LHS) Split RHS)
             else Some (SplitInto LHS Split (insert_sub S R RHS))))"
    proof -
      have ne: "(length ls \<noteq> length vs \<and> FileLoc (vs ! length ls) = k) = False"
        using miss(8) by blast
      have ins: "insert_at (length ls) S vs = ls @ S # rs"
        "insert_at (length ls + 1) R (cl @ L # cr) = cl @ L # R # cr" for S R L
        using miss by (simp_all add: insert_at_append insert_at_append_Suc)
      show ?thesis
        by (simp only: DoInsertion.simps(2) [of k d True vs cs fd] Let_def miss(3) ne nth upd ins
          if_False if_True simp_thms)
    qed
    have IHc: "outcome_ok 7 h (add_at k d (entries c)) (DoInsertion k d True c)"
      using IH c srtc by blast
    then obtain r where r: "DoInsertion k d True c = Some r"
      by (cases "DoInsertion k d True c") (auto simp: outcome_ok_def)
    show ?thesis
    proof (cases r)
      case (Inserted c')
      with IHc r have c': "delta_ok 7 h c'" "entries c' = add_at k d (entries c)"
        by (simp_all add: outcome_ok_def)
      have "FullDelta c' = FullDelta c + d"
        using c' c by (simp add: FullDelta_entries sum_add_at)
      with c' show ?thesis using ok miss step r Inserted add
        by (auto simp: outcome_ok_def interleave_at)
    next
      case (SplitInto L S R)
      with IHc r have s: "delta_ok 7 h L" "delta_ok 7 h R"
        "entries L @ S # entries R = add_at k d (entries c)"
        by (simp_all add: outcome_ok_def)
      have full: "FullDelta L + Delta S + FullDelta R = FullDelta c + d"
        using s c sum_add_at [of k d "entries c"]
        by (simp add: FullDelta_entries flip: s(3))
      have srtS: "sorted_keys (?L @ (entries L @ S # entries R) @ ?R)"
        using sorted_add_at [OF srt, of k d] add s(3) by simp
      show ?thesis
      proof (cases "isFull (DInterior vs cs (fd + d))")
        case False
        then have "length vs \<le> 14" using ok by (simp add: isFull_def WidthFactor_def)
        moreover have "interleave (map entries (cl @ L # R # cr)) (ls @ S # rs) =
            ?L @ (entries L @ S # entries R) @ ?R"
          using miss by (simp add: interleave_at interleave_head [of "entries R"])
        ultimately show ?thesis using ok miss step r SplitInto False add s full
          by (auto simp: outcome_ok_def)
      next
        case True
        then have l15: "length (ls @ rs) = 15" using miss by (simp add: isFull_def WidthFactor_def)
        have lt: "\<forall>v \<in> set ls. FileLoc v < FileLoc S" and gt: "\<forall>v \<in> set rs. FileLoc S < FileLoc v"
          using srtS by (auto simp: set_interleave)
        have whole: "interleave (map entries (cl @ L # R # cr)) (ls @ S # rs) =
            add_at k d (entries (DInterior vs cs fd))"
          using miss add s(3) by (simp add: interleave_at interleave_head [of "entries R"])
        have chs: "\<forall>x \<in> set (cl @ L # R # cr). delta_ok 7 h x" using ok s miss by auto
        show ?thesis
        proof (cases "length ls \<le> 7")
          case le: True
          obtain r1 p r2 k1 k2 where q: "rs = r1 @ p # r2" "cr = k1 @ k2" "length (ls @ r1) = 7"
            "length r2 = 7" "length (cl @ L # k1) = 8" "length k2 = 8"
            "DoSplit (DInterior (ls @ rs) (cl @ L # cr) (fd + d)) =
              (DInterior (ls @ r1) (cl @ L # k1)
                (sum_list (map Delta (ls @ r1)) + sum_list (map FullDelta (cl @ L # k1))), p,
               DInterior r2 k2 (sum_list (map Delta r2) + sum_list (map FullDelta k2)))"
            using split_insert_left [OF l15 miss(4,5) le] by metis
          have sub: "insert_sub S R (DInterior (ls @ r1) (cl @ L # k1) x) =
              DInterior (ls @ S # r1) (cl @ L # R # k1) (x + Delta S + FullDelta R)" for x
            using insert_sub_at lt gt q(1) miss(4) by simp
          have "FileLoc S < FileLoc p" using gt q(1) by simp
          then have res: "DoInsertion k d True (DInterior vs cs fd) =
              Some (SplitInto
                (DInterior (ls @ S # r1) (cl @ L # R # k1)
                  (sum_list (map Delta (ls @ r1)) + sum_list (map FullDelta (cl @ L # k1)) +
                   Delta S + FullDelta R)) p
                (DInterior r2 k2 (sum_list (map Delta r2) + sum_list (map FullDelta k2))))"
            using step r SplitInto True q(7) miss(1) sub by simp
          have "interleave (map entries (cl @ L # R # cr)) (ls @ S # rs) =
              interleave (map entries (cl @ L # R # k1)) (ls @ S # r1) @ p #
              interleave (map entries k2) r2"
            using interleave_split [of "map entries (cl @ L # R # k1)" "ls @ S # r1" "map entries k2" p r2] q
            by simp
          with q(1-6) chs whole show ?thesis
            unfolding res by (auto simp: outcome_ok_def)
        next
          case gt7: False
          then have "7 < length ls" by simp
          obtain l1 p l2 k1 k2 where q: "ls = l1 @ p # l2" "cl = k1 @ k2" "length l1 = 7"
            "length k1 = 8" "length (l2 @ rs) = 7" "length (k2 @ L # cr) = 8" "length k2 = length l2"
            "DoSplit (DInterior (ls @ rs) (cl @ L # cr) (fd + d)) =
              (DInterior l1 k1 (sum_list (map Delta l1) + sum_list (map FullDelta k1)), p,
               DInterior (l2 @ rs) (k2 @ L # cr)
                (sum_list (map Delta (l2 @ rs)) + sum_list (map FullDelta (k2 @ L # cr))))"
            using split_insert_right [OF l15 miss(4,5) \<open>7 < length ls\<close>] by metis
          have sub: "insert_sub S R (DInterior (l2 @ rs) (k2 @ L # cr) x) =
              DInterior (l2 @ S # rs) (k2 @ L # R # cr) (x + Delta S + FullDelta R)" for x
            using insert_sub_at lt gt q(1,7) by simp
          have "\<not> FileLoc S < FileLoc p" using lt q(1) by fastforce
          then have res: "DoInsertion k d True (DInterior vs cs fd) =
              Some (SplitInto
                (DInterior l1 k1 (sum_list (map Delta l1) + sum_list (map FullDelta k1))) p
                (DInterior (l2 @ S # rs) (k2 @ L # R # cr)
                  (sum_list (map Delta (l2 @ rs)) + sum_list (map FullDelta (k2 @ L # cr)) +
                   Delta S + FullDelta R)))"
            using step r SplitInto True q(8) miss(1) sub by simp
          have "interleave (map entries (cl @ L # R # cr)) (ls @ S # rs) =
              interleave (map entries k1) l1 @ p #
              interleave (map entries (k2 @ L # R # cr)) (l2 @ S # rs)"
            using interleave_split [of "map entries k1" l1 "map entries (k2 @ L # R # cr)" p "l2 @ S # rs"] q
            by simp
          with q(1-6) chs whole show ?thesis
            unfolding res by (auto simp: outcome_ok_def)
        qed
      qed
    qed
  qed
qed

theorem DoInsertion_ok:
  "delta_ok lo h t \<Longrightarrow> sorted_keys (entries t) \<Longrightarrow>
   outcome_ok lo h (add_at k d (entries t)) (DoInsertion k d True t)"
proof (induction h arbitrary: lo t)
  case 0
  then obtain vs fd where t: "t = DLeaf vs fd" by (cases t) auto
  show ?case
  proof (cases "length vs \<le> 14 \<or> k \<in> set (keys vs)")
    case True
    with 0 t show ?thesis using leaf_insertion_ok [of vs k lo fd d True] by simp
  next
    case False
    with 0 t show ?thesis using full_leaf_insert_ok [of vs k fd lo d] by simp
  qed
next
  case (Suc h)
  then obtain vs cs fd where t: "t = DInterior vs cs fd" by (cases t) auto
  with Suc show ?case
    by (auto intro!: interior_insert_ok simp del: entries.simps)
qed


section \<open>Accumulated deltas\<close>

lemma local_deltas_split:
  "\<forall>v \<in> set ls. FileLoc v < k \<Longrightarrow> rs = [] \<or> k \<le> FileLoc (hd rs) \<Longrightarrow>
   local_deltas k (ls @ rs) = (length ls, sum_list (map Delta ls))"
  by (induction ls) (cases rs; auto)+

lemma getDeltaAt_from_ok:
  "delta_ok lo h t \<Longrightarrow> sorted_keys (entries t) \<Longrightarrow>
   getDeltaAt_from k acc t = Some (acc + delta_before k (entries t))"
proof (induction h arbitrary: lo t acc)
  case 0
  then obtain vs fd where t: "t = DLeaf vs fd" by (cases t) auto
  obtain ls rs where vs: "vs = ls @ rs" "insertion_point k vs = length ls"
    "\<forall>v \<in> set ls. FileLoc v < k" "rs = [] \<or> k \<le> FileLoc (hd rs)"
    by (rule insertion_point_obtain)
  have "\<forall>v \<in> set rs. k \<le> FileLoc v" using 0 t vs by (cases rs) force+
  then show ?case using t vs
    by (simp add: getDeltaAt_from.simps local_deltas_split delta_before_all delta_before_none)
next
  case (Suc h)
  then obtain vs cs fd where t: "t = DInterior vs cs fd" by (cases t) auto
  have srt: "sorted_keys (interleave (map entries cs) vs)" and len: "length cs = Suc (length vs)"
    and chs: "\<forall>c \<in> set cs. delta_ok 7 h c"
    using Suc.prems t by auto
  have left: "delta_before k (interleave (map entries cl) ls) =
      sum_list (map Delta ls) + sum_list (map FullDelta cl)"
    if "sorted_keys (interleave (map entries cl) ls)" "length cl = length ls"
      "\<forall>v \<in> set ls. FileLoc v < k" "\<forall>c \<in> set cl. delta_ok 7 h c" for cl ls
  proof -
    have "sum_list (map FullDelta cl) = sum_list (map (\<lambda>c. sum_list (map Delta (entries c))) cl)"
      using that by (intro sum_FullDelta_children) auto
    then show ?thesis
      using interior_left [OF that(1-3)] by (simp add: delta_before_all sum_interleave o_def)
  qed
  from srt len show ?case
  proof (cases rule: insertion_obtain_new [where k = k])
    case (hit ls r rs)
    have "length ls < length cs" using hit len by simp
    then obtain cl c cr where cs: "cs = cl @ c # cr" "length cl = length ls"
      by (metis split_at_nth)
    have eq: "interleave (map entries cs) vs =
        interleave (map entries cl) ls @ entries c @ r # interleave (map entries cr) rs"
      using cs hit by (simp add: interleave_at)
    have below: "\<forall>x \<in> set (entries c). FileLoc x < k"
      and above: "\<forall>x \<in> set (interleave (map entries cr) rs). k \<le> FileLoc x"
      and srtL: "sorted_keys (interleave (map entries cl) ls)"
      using srt hit unfolding eq by (auto intro: less_imp_le)
    have "delta_before k (entries t) =
        sum_list (map Delta ls) + sum_list (map FullDelta cl) + FullDelta c"
      using left [OF srtL] cs hit t eq below above chs
      by (auto simp: delta_before_none delta_before_all FullDelta_entries)
    moreover have "local_deltas k vs = (length ls, sum_list (map Delta ls))"
      using hit local_deltas_split [of ls k "r # rs"] by simp
    ultimately show ?thesis using t cs hit
      by (simp add: getDeltaAt_from.simps nth_append)
  next
    case (miss ls rs cl c cr)
    have eq: "interleave (map entries cs) vs =
        interleave (map entries cl) ls @ entries c @ interleave ([] # map entries cr) rs"
      using miss by (simp add: interleave_at)
    have srtL: "sorted_keys (interleave (map entries cl) ls)" and srtc: "sorted_keys (entries c)"
      using srt unfolding eq by auto
    have above: "\<forall>x \<in> set (interleave ([] # map entries cr) rs). k \<le> FileLoc x"
    proof (cases rs)
      case Nil
      with miss show ?thesis by simp
    next
      case (Cons r rs')
      with miss srt show ?thesis unfolding eq by (force intro: less_imp_le)
    qed
    have "delta_before k (entries t) =
        sum_list (map Delta ls) + sum_list (map FullDelta cl) + delta_before k (entries c)"
      using left [OF srtL] miss t eq above chs by (auto simp: delta_before_none)
    moreover have "local_deltas k vs = (length ls, sum_list (map Delta ls))"
    proof -
      have "rs = [] \<or> k \<le> FileLoc (hd rs)" using miss(7) by (auto intro: less_imp_le)
      then show ?thesis using miss local_deltas_split [of ls k rs] by simp
    qed
    moreover have "getDeltaAt_from k a c = Some (a + delta_before k (entries c))" for a
      using Suc.IH chs miss srtc by auto
    ultimately show ?thesis using t miss
      by (auto simp: getDeltaAt_from.simps nth_append)
  qed
qed

section \<open>The tree as a whole\<close>

definition delta_inv :: "delta_node \<Rightarrow> bool" where
  "delta_inv t \<longleftrightarrow> (\<exists>h. delta_ok 0 h t) \<and> sorted_keys (entries t)"

lemma delta_inv_init: "delta_inv DeltaTree_init"
  by (auto simp: delta_inv_def DeltaTree_init_def intro: exI [of _ 0])

lemma AddDelta_ok:
  assumes "delta_inv t" "d \<noteq> 0"
  obtains t' where "AddDelta k d t = Some t'" "delta_inv t'" "entries t' = add_at k d (entries t)"
proof -
  from assms obtain h where ok: "delta_ok 0 h t" and srt: "sorted_keys (entries t)"
    by (auto simp: delta_inv_def)
  note res = DoInsertion_ok [OF ok srt, of k d]
  have srt': "sorted_keys (add_at k d (entries t))" by (rule sorted_add_at [OF srt])
  from res obtain r where r: "DoInsertion k d True t = Some r"
    by (cases "DoInsertion k d True t") (auto simp: outcome_ok_def)
  show ?thesis
  proof (cases r)
    case (Inserted t')
    then show ?thesis using that [of t'] res r srt' assms(2)
      by (auto simp: AddDelta_def outcome_ok_def delta_inv_def)
  next
    case (SplitInto L S R)
    let ?t = "DInterior [S] [L, R] (FullDelta L + FullDelta R + Delta S)"
    have "delta_ok 0 (Suc h) ?t" "entries ?t = add_at k d (entries t)"
      using res r SplitInto by (auto simp: outcome_ok_def)
    moreover have "AddDelta k d t = Some ?t"
      using r SplitInto assms(2) by (simp add: AddDelta_def)
    ultimately show ?thesis using that [of ?t] srt'
      unfolding delta_inv_def by metis
  qed
qed

lemma getDeltaAt_ok:
  "delta_inv t \<Longrightarrow> getDeltaAt k t = Some (delta_before k (entries t))"
  by (auto simp: delta_inv_def getDeltaAt_def getDeltaAt_from_ok)

text \<open>The tree provides the interface the rewrite buffer needs.\<close>

interpretation deltas: delta_map DeltaTree_init AddDelta getDeltaAt delta_inv
proof unfold_locales
  fix m m' :: delta_node and i k :: u32 and d x :: int
  show "delta_inv DeltaTree_init" by (rule delta_inv_init)
  show "getDeltaAt k DeltaTree_init = Some 0"
    using getDeltaAt_ok [OF delta_inv_init, of k]
    by (simp add: DeltaTree_init_def delta_before_def)
  assume inv: "delta_inv m"
  then show "\<exists>x. getDeltaAt k m = Some x" by (simp add: getDeltaAt_ok)
  {
    assume "d \<noteq> 0"
    from AddDelta_ok [OF inv this, of i] show "\<exists>m'. AddDelta i d m = Some m'" by blast
  next
    assume a: "AddDelta i d m = Some m'"
    then have d: "d \<noteq> 0" by (auto simp: AddDelta_def)
    from AddDelta_ok [OF inv d, of i] a have m': "delta_inv m'" "entries m' = add_at i d (entries m)"
      by auto
    show "delta_inv m'" by fact
    assume "getDeltaAt k m = Some x"
    with inv m' show "getDeltaAt k m' = Some (x + (if i < k then d else 0))"
      by (simp add: getDeltaAt_ok delta_before_add_at)
  }
qed

section \<open>Properties\<close>

text \<open>A history of edits, and what it adds up to before an index.\<close>

fun apply_deltas :: "(u32 \<times> int) list \<Rightarrow> delta_node \<Rightarrow> delta_node option" where
  "apply_deltas [] t = Some t"
| "apply_deltas ((i, d) # es) t = Option.bind (AddDelta i d t) (apply_deltas es)"

definition history_delta :: "(u32 \<times> int) list \<Rightarrow> u32 \<Rightarrow> int" where
  "history_delta es k = sum_list (map snd (filter (\<lambda>(i, d). i < k) es))"

lemma apply_deltas_ok:
  "delta_inv t \<Longrightarrow> \<forall>(i, d) \<in> set es. d \<noteq> 0 \<Longrightarrow>
    \<exists>t'. apply_deltas es t = Some t' \<and> delta_inv t' \<and>
      (\<forall>k. deltas.delta_val k t' = deltas.delta_val k t + history_delta es k)"
proof (induction es arbitrary: t)
  case Nil
  then show ?case by (simp add: history_delta_def)
next
  case (Cons e es)
  obtain i d where e: "e = (i, d)" by (cases e)
  with Cons.prems obtain t1 where t1: "AddDelta i d t = Some t1"
    using deltas.add_defined [of t d i] by auto
  from Cons.IH [OF deltas.add_inv [OF Cons.prems(1) t1]] Cons.prems(2) obtain t' where
    "apply_deltas es t1 = Some t'" "delta_inv t'"
    "\<forall>k. deltas.delta_val k t' = deltas.delta_val k t1 + history_delta es k" by auto
  with e t1 deltas.delta_val_add [OF Cons.prems(1) t1] show ?case
    by (auto simp: history_delta_def)
qed

text \<open>
  C1. Inserting a delta into a well-formed tree succeeds, keeps the tree well formed
  (sorted keys, equal depth, node sizes between \<open>WidthFactor - 1\<close> and
  \<open>2 * WidthFactor - 1\<close>, exact subtree totals) and adds the delta at its index, to the
  entry that is there or as a new one.
\<close>

theorem AddDelta_refines:
  assumes "delta_inv t" "d \<noteq> 0"
  shows "\<exists>t'. AddDelta i d t = Some t' \<and> delta_inv t' \<and> entries t' = add_at i d (entries t)"
  using AddDelta_ok [OF assms, of i] by blast

theorem AddDelta_refines_witness:
  "\<exists>t'. AddDelta 9 4 DeltaTree_init = Some t' \<and> entries t' = [\<lparr>FileLoc = 9, Delta = 4\<rparr>]"
  using AddDelta_refines [OF delta_inv_init, of 4 9]
  by (auto simp: DeltaTree_init_def SourceDelta_get_def)

text \<open>
  C2. After any sequence of non-zero edits, of any length and in any order of indices,
  the tree answers every query with the sum of the deltas recorded at smaller indices.
\<close>

theorem getDeltaAt_history:
  assumes "\<forall>(i, d) \<in> set es. d \<noteq> 0"
  shows "\<exists>t. apply_deltas es DeltaTree_init = Some t \<and> (\<forall>k. getDeltaAt k t = Some (history_delta es k))"
proof -
  from apply_deltas_ok [OF delta_inv_init assms] obtain t where
    "apply_deltas es DeltaTree_init = Some t" "delta_inv t"
    "\<forall>k. deltas.delta_val k t = deltas.delta_val k DeltaTree_init + history_delta es k" by blast
  then show ?thesis using deltas.delta_at_val deltas.delta_val_empty by auto
qed

theorem getDeltaAt_history_witness:
  "\<exists>t. apply_deltas [(8, 3), (2, 5), (8, - 1)] DeltaTree_init = Some t \<and>
     getDeltaAt 8 t = Some 5 \<and> getDeltaAt 9 t = Some 7"
  using getDeltaAt_history [of "[(8, 3), (2, 5), (8, - 1)]"] by (auto simp: history_delta_def)

end
