(* ===== verification/RewriteRope.thy ===== *)
theory RewriteRope
  imports RewriteInterfaces
begin

text \<open>
  The rope of \<open>lib/Rewrite/RewriteRope.cpp\<close> and \<open>include/latino/Rewrite/Core/RewriteRope.h\<close>:
  a B+ tree whose leaves hold views (\<open>rope_piece\<close>) into shared character buffers.
  Nodes are values; an operation that mutates \<open>this\<close> returns the new node and the
  right half it had to split off, if any.  The used prefixes of the arrays \<open>Pieces\<close>
  and \<open>Children\<close> are lists.  \<open>None\<close> is a violated assertion or a read past the used
  prefix.  Sizes are natural numbers: the rope is assumed to stay below 4 GiB, which
  the \<open>unsigned\<close> fields of the code assume too.  The list that threads the leaves
  (\<open>NextLeaf\<close>) is the left-to-right order of the leaves.
\<close>

section \<open>Pieces and nodes\<close>

record rope_piece =
  StrData :: nat
  StartOffs :: nat
  EndOffs :: nat

definition piece_size :: "rope_piece \<Rightarrow> nat" where
  "piece_size p = EndOffs p - StartOffs p"

datatype rope_node =
    RLeaf nat "rope_piece list"
  | RInterior nat "rope_node list"

definition RopeWidthFactor :: nat where
  "RopeWidthFactor = 8"

fun node_size :: "rope_node \<Rightarrow> nat" where
  "node_size (RLeaf s ps) = s"
| "node_size (RInterior s cs) = s"

definition pieces_size :: "rope_piece list \<Rightarrow> nat" where
  "pieces_size ps = sum_list (map piece_size ps)"

definition children_size :: "rope_node list \<Rightarrow> nat" where
  "children_size cs = sum_list (map node_size cs)"

section \<open>Leaves\<close>

text \<open>\<open>for (; Offset > SlotOffs; ++i) SlotOffs += getPiece(i).size()\<close>: the index and offset where it stops.\<close>

fun slot_scan :: "nat \<Rightarrow> nat \<Rightarrow> rope_piece list \<Rightarrow> (nat \<times> nat) option" where
  "slot_scan Offset SlotOffs [] = (if Offset > SlotOffs then None else Some (0, SlotOffs))"
| "slot_scan Offset SlotOffs (p # ps) =
     (if Offset > SlotOffs
      then map_option (\<lambda>(i, s). (Suc i, s)) (slot_scan Offset (SlotOffs + piece_size p) ps)
      else Some (0, SlotOffs))"

text \<open>
  The loops that look for the element an offset lands in, over the sizes of the
  elements.  \<open>scan_ge\<close> is \<open>while (Offset >= Offs+size(i)) { Offs += size(i); ++i; }\<close>,
  \<open>scan_gt\<close> the same with \<open>>\<close>; both return the index and the offset where they stop.
\<close>

fun scan_ge :: "nat \<Rightarrow> nat \<Rightarrow> nat list \<Rightarrow> (nat \<times> nat) option" where
  "scan_ge Offset Offs [] = None"
| "scan_ge Offset Offs (n # ns) =
     (if Offset \<ge> Offs + n
      then map_option (\<lambda>(i, s). (Suc i, s)) (scan_ge Offset (Offs + n) ns)
      else Some (0, Offs))"

fun scan_gt :: "nat \<Rightarrow> nat \<Rightarrow> nat list \<Rightarrow> (nat \<times> nat) option" where
  "scan_gt Offset Offs [] = None"
| "scan_gt Offset Offs (n # ns) =
     (if Offset > Offs + n
      then map_option (\<lambda>(i, s). (Suc i, s)) (scan_gt Offset (Offs + n) ns)
      else Some (0, Offs))"

function leaf_insert ::
  "nat \<Rightarrow> rope_piece \<Rightarrow> nat \<Rightarrow> rope_piece list \<Rightarrow> (rope_node \<times> rope_node option) option" where
  "leaf_insert Offset R Size Pieces =
     (if length Pieces \<noteq> 2 * RopeWidthFactor
      then (case (if Offset = Size then Some (length Pieces, Offset) else slot_scan Offset 0 Pieces) of
              None \<Rightarrow> None
            | Some (i, SlotOffs) \<Rightarrow>
                if SlotOffs \<noteq> Offset then None
                else Some (RLeaf (Size + piece_size R) (insert_at i R Pieces), None))
      else (let Left = take RopeWidthFactor Pieces;
                Right = drop RopeWidthFactor Pieces;
                LeftSize = pieces_size Left;
                RightSize = pieces_size Right
            in if LeftSize \<ge> Offset
               then (case leaf_insert Offset R LeftSize Left of
                       Some (Left', None) \<Rightarrow> Some (Left', Some (RLeaf RightSize Right))
                     | _ \<Rightarrow> None)
               else (case leaf_insert (Offset - LeftSize) R RightSize Right of
                       Some (Right', None) \<Rightarrow> Some (RLeaf LeftSize Left, Some Right')
                     | _ \<Rightarrow> None)))"
  by pat_completeness auto
termination
  by (relation "measure (\<lambda>(_, _, _, ps). length ps)") (auto simp: RopeWidthFactor_def)

declare leaf_insert.simps [simp del]

definition leaf_split ::
  "nat \<Rightarrow> nat \<Rightarrow> rope_piece list \<Rightarrow> (rope_node \<times> rope_node option) option" where
  "leaf_split Offset Size Pieces =
     (if Offset = 0 \<or> Offset = Size then Some (RLeaf Size Pieces, None)
      else case scan_ge Offset 0 (map piece_size Pieces) of
        None \<Rightarrow> None
      | Some (i, PieceOffs) \<Rightarrow>
          if PieceOffs = Offset then Some (RLeaf Size Pieces, None)
          else (let IntraPieceOffset = Offset - PieceOffs;
                    p = Pieces ! i;
                    Tail = p\<lparr>StartOffs := StartOffs p + IntraPieceOffset\<rparr>;
                    Head = p\<lparr>EndOffs := StartOffs p + IntraPieceOffset\<rparr>
                in leaf_insert Offset Tail (Size - piece_size p + piece_size Head) (Pieces[i := Head])))"

definition leaf_erase :: "nat \<Rightarrow> nat \<Rightarrow> nat \<Rightarrow> rope_piece list \<Rightarrow> rope_node option" where
  "leaf_erase Offset NumBytes Size Pieces =
     (case slot_scan Offset 0 Pieces of
        None \<Rightarrow> None
      | Some (StartPiece, PieceOffs) \<Rightarrow>
          if PieceOffs \<noteq> Offset then None
          else (case scan_gt (Offset + NumBytes) PieceOffs (map piece_size (drop StartPiece Pieces)) of
            None \<Rightarrow> None
          | Some (n, PieceOffs1) \<Rightarrow>
              let i1 = StartPiece + n;
                  whole = (Offset + NumBytes = PieceOffs1 + piece_size (Pieces ! i1));
                  PieceOffs2 = (if whole then PieceOffs1 + piece_size (Pieces ! i1) else PieceOffs1);
                  i = (if whole then i1 + 1 else i1);
                  CoverBytes = PieceOffs2 - Offset;
                  (Pieces', NumBytes', Size') =
                    (if i \<noteq> StartPiece
                     then (take StartPiece Pieces @ drop i Pieces, NumBytes - CoverBytes, Size - CoverBytes)
                     else (Pieces, NumBytes, Size))
              in if NumBytes' = 0 then Some (RLeaf Size' Pieces')
                 else if StartPiece < length Pieces' \<and> piece_size (Pieces' ! StartPiece) > NumBytes'
                 then Some (RLeaf (Size' - NumBytes')
                        (Pieces'[StartPiece := (Pieces' ! StartPiece)
                           \<lparr>StartOffs := StartOffs (Pieces' ! StartPiece) + NumBytes'\<rparr>]))
                 else None))"

section \<open>Interior nodes\<close>

function HandleChildPiece ::
  "nat \<Rightarrow> rope_node \<Rightarrow> nat \<Rightarrow> rope_node list \<Rightarrow> rope_node \<times> rope_node option" where
  "HandleChildPiece i RHS Size Children =
     (if length Children \<noteq> 2 * RopeWidthFactor
      then (RInterior Size (insert_at (i + 1) RHS Children), None)
      else (let Left = take RopeWidthFactor Children;
                Right = drop RopeWidthFactor Children;
                (Left', Right') =
                  (if i < RopeWidthFactor
                   then (fst (HandleChildPiece i RHS Size Left), RInterior 0 Right)
                   else (RInterior Size Left, fst (HandleChildPiece (i - RopeWidthFactor) RHS 0 Right)));
                recompute = (\<lambda>n. case n of RInterior s cs \<Rightarrow> RInterior (children_size cs) cs
                                         | RLeaf s ps \<Rightarrow> RLeaf s ps)
            in (recompute Left', Some (recompute Right'))))"
  by pat_completeness auto
termination
  by (relation "measure (\<lambda>(_, _, _, cs). length cs)") (auto simp: RopeWidthFactor_def)

declare HandleChildPiece.simps [simp del]

fun rope_count :: "rope_node \<Rightarrow> nat" where
  "rope_count (RLeaf s ps) = 1"
| "rope_count (RInterior s cs) = Suc (sum_list (map rope_count cs))"

lemma rope_count_child:
  "i < length cs \<Longrightarrow> rope_count (cs ! i) < rope_count (RInterior s cs)"
  by (simp add: less_Suc_eq_le member_le_sum_list)

lemma rope_count_pos [simp]: "0 < rope_count t"
  by (cases t) auto

text \<open>
  \<open>node_split\<close>, \<open>node_insert\<close> and \<open>node_erase\<close> are the dispatching methods of
  \<open>RopePieceBTreeNode\<close>, with their assertions, and the methods of the interior node.
\<close>

function (sequential) node_split :: "nat \<Rightarrow> rope_node \<Rightarrow> (rope_node \<times> rope_node option) option" where
  "node_split Offset (RLeaf Size Pieces) =
     (if Offset \<le> Size then leaf_split Offset Size Pieces else None)"
| "node_split Offset (RInterior Size Children) =
     (if \<not> Offset \<le> Size then None
      else if Offset = 0 \<or> Offset = Size then Some (RInterior Size Children, None)
      else case scan_ge Offset 0 (map node_size Children) of
        None \<Rightarrow> None
      | Some (i, ChildOffset) \<Rightarrow>
          if ChildOffset = Offset then Some (RInterior Size Children, None)
          else if i < length Children
          then (case node_split (Offset - ChildOffset) (Children ! i) of
                  None \<Rightarrow> None
                | Some (c, None) \<Rightarrow> Some (RInterior Size (Children[i := c]), None)
                | Some (c, Some RHS) \<Rightarrow> Some (HandleChildPiece i RHS Size (Children[i := c])))
          else None)"
  by pat_completeness auto
termination
  by (relation "measure (\<lambda>(_, t). rope_count t)")
    (auto simp: rope_count_child simp del: rope_count.simps)

declare node_split.simps [simp del]

function (sequential) node_insert ::
  "nat \<Rightarrow> rope_piece \<Rightarrow> rope_node \<Rightarrow> (rope_node \<times> rope_node option) option" where
  "node_insert Offset R (RLeaf Size Pieces) =
     (if Offset \<le> Size then leaf_insert Offset R Size Pieces else None)"
| "node_insert Offset R (RInterior Size Children) =
     (if \<not> Offset \<le> Size then None
      else case (if Offset = Size
                 then (if Children = [] then None
                       else Some (length Children - 1, Size - node_size (last Children)))
                 else scan_gt Offset 0 (map node_size Children)) of
        None \<Rightarrow> None
      | Some (i, ChildOffs) \<Rightarrow>
          if i < length Children
          then (case node_insert (Offset - ChildOffs) R (Children ! i) of
                  None \<Rightarrow> None
                | Some (c, None) \<Rightarrow> Some (RInterior (Size + piece_size R) (Children[i := c]), None)
                | Some (c, Some RHS) \<Rightarrow>
                    Some (HandleChildPiece i RHS (Size + piece_size R) (Children[i := c])))
          else None)"
  by pat_completeness auto
termination
  by (relation "measure (\<lambda>(_, _, t). rope_count t)")
    (auto simp: rope_count_child simp del: rope_count.simps)

declare node_insert.simps [simp del]

text \<open>
  The interior \<open>erase\<close>: \<open>erase_find\<close> is its first loop, \<open>erase_loop\<close> its second, both
  over the children from index \<open>i\<close> on; a fully covered child is dropped.
\<close>

function (sequential) node_erase :: "nat \<Rightarrow> nat \<Rightarrow> rope_node \<Rightarrow> rope_node option"
  and erase_find :: "nat \<Rightarrow> nat \<Rightarrow> rope_node list \<Rightarrow> rope_node list option"
  and erase_loop :: "nat \<Rightarrow> nat \<Rightarrow> rope_node list \<Rightarrow> rope_node list option" where
  "node_erase Offset NumBytes (RLeaf Size Pieces) =
     (if Offset + NumBytes \<le> Size then leaf_erase Offset NumBytes Size Pieces else None)"
| "node_erase Offset NumBytes (RInterior Size Children) =
     (if Offset + NumBytes \<le> Size
      then map_option (RInterior (Size - NumBytes)) (erase_find Offset NumBytes Children)
      else None)"
| "erase_find Offset NumBytes [] = None"
| "erase_find Offset NumBytes (c # cs) =
     (if Offset \<ge> node_size c
      then map_option ((#) c) (erase_find (Offset - node_size c) NumBytes cs)
      else erase_loop Offset NumBytes (c # cs))"
| "erase_loop Offset NumBytes cs =
     (if NumBytes = 0 then Some cs
      else case cs of
        [] \<Rightarrow> None
      | c # cs' \<Rightarrow>
          if Offset + NumBytes < node_size c
          then map_option (\<lambda>c'. c' # cs') (node_erase Offset NumBytes c)
          else if Offset \<noteq> 0
          then (let BytesFromChild = node_size c - Offset
                in case node_erase Offset BytesFromChild c of
                     None \<Rightarrow> None
                   | Some c' \<Rightarrow> map_option ((#) c') (erase_loop 0 (NumBytes - BytesFromChild) cs'))
          else erase_loop 0 (NumBytes - node_size c) cs')"
  by pat_completeness auto
termination
  by (relation "measure (\<lambda>x. case x of
        Inl (_, _, t) \<Rightarrow> 3 * rope_count t
      | Inr (Inl (_, _, cs)) \<Rightarrow> 3 * sum_list (map rope_count cs) + 2
      | Inr (Inr (_, _, cs)) \<Rightarrow> 3 * sum_list (map rope_count cs) + 1)") auto


declare node_erase.simps [simp del] erase_find.simps [simp del] erase_loop.simps [simp del]

section \<open>Abstract view: the sequence of bytes\<close>

fun pieces :: "rope_node \<Rightarrow> rope_piece list" where
  "pieces (RLeaf s ps) = ps"
| "pieces (RInterior s cs) = concat (map pieces cs)"

definition piece_bytes :: "rope_piece \<Rightarrow> (nat \<times> nat) list" where
  "piece_bytes p = map (Pair (StrData p)) [StartOffs p ..< EndOffs p]"

definition pieces_bytes :: "rope_piece list \<Rightarrow> (nat \<times> nat) list" where
  "pieces_bytes ps = concat (map piece_bytes ps)"

definition bytes :: "rope_node \<Rightarrow> (nat \<times> nat) list" where
  "bytes t = pieces_bytes (pieces t)"

lemma length_piece_bytes [simp]: "length (piece_bytes p) = piece_size p"
  by (simp add: piece_bytes_def piece_size_def)

lemma pieces_bytes_simps [simp]:
  "pieces_bytes [] = []" "pieces_bytes (p # ps) = piece_bytes p @ pieces_bytes ps"
  "pieces_bytes (xs @ ys) = pieces_bytes xs @ pieces_bytes ys"
  by (simp_all add: pieces_bytes_def)

lemma pieces_size_simps [simp]:
  "pieces_size [] = 0" "pieces_size (p # ps) = piece_size p + pieces_size ps"
  "pieces_size (xs @ ys) = pieces_size xs + pieces_size ys"
  by (simp_all add: pieces_size_def)

lemma children_size_simps [simp]:
  "children_size [] = 0" "children_size (c # cs) = node_size c + children_size cs"
  "children_size (xs @ ys) = children_size xs + children_size ys"
  by (simp_all add: children_size_def)

lemma length_pieces_bytes [simp]: "length (pieces_bytes ps) = pieces_size ps"
  by (induction ps) auto

text \<open>
  The invariant: sizes are exact, no node is over its capacity, all leaves are at
  depth \<open>h\<close>, no piece is empty and no node below the root is empty.
\<close>

fun rope_ok :: "nat \<Rightarrow> rope_node \<Rightarrow> bool" where
  "rope_ok 0 (RLeaf s ps) \<longleftrightarrow>
     s = pieces_size ps \<and> length ps \<le> 16 \<and> (\<forall>p \<in> set ps. 0 < piece_size p)"
| "rope_ok (Suc h) (RInterior s cs) \<longleftrightarrow>
     s = children_size cs \<and> length cs \<le> 16 \<and> (\<forall>c \<in> set cs. rope_ok h c \<and> 0 < node_size c)"
| "rope_ok h t \<longleftrightarrow> False"

lemma node_size_pieces: "rope_ok h t \<Longrightarrow> node_size t = pieces_size (pieces t)"
proof (induction h t rule: rope_ok.induct)
  case (2 h s cs)
  have "(\<forall>c \<in> set cs. node_size c = pieces_size (pieces c)) \<Longrightarrow>
      children_size cs = pieces_size (concat (map pieces cs))" for cs
    by (induction cs) auto
  with 2 show ?case by auto
qed auto

lemma children_size_pieces:
  "\<forall>c \<in> set cs. rope_ok h c \<Longrightarrow> children_size cs = pieces_size (concat (map pieces cs))"
  by (induction cs) (auto simp: node_size_pieces)

lemma length_bytes: "rope_ok h t \<Longrightarrow> length (bytes t) = node_size t"
  by (simp add: bytes_def node_size_pieces)

subsection \<open>Split points\<close>

text \<open>A list of pieces has a split at \<open>off\<close> when some prefix of it covers exactly \<open>off\<close> bytes.\<close>

definition has_split :: "nat \<Rightarrow> rope_piece list \<Rightarrow> bool" where
  "has_split off ps \<longleftrightarrow> (\<exists>ls rs. ps = ls @ rs \<and> pieces_size ls = off)"

lemma has_splitI: "pieces_size ls = off \<Longrightarrow> has_split off (ls @ rs)"
  by (auto simp: has_split_def)

lemma has_split_ends [simp]: "has_split 0 ps" "has_split (pieces_size ps) ps"
  using has_splitI [of "[]" 0 ps] has_splitI [of ps _ "[]"] by auto

lemma has_split_mid:
  assumes "has_split off (xs @ ys @ zs)" "pieces_size xs \<le> off" "off \<le> pieces_size xs + pieces_size ys"
  shows "has_split (off - pieces_size xs) ys"
proof -
  from assms(1) obtain ls rs where eq: "xs @ ys @ zs = ls @ rs" and off: "pieces_size ls = off"
    by (auto simp: has_split_def)
  from eq consider us where "xs = ls @ us" | us where "ls = xs @ us" "us @ rs = ys @ zs"
    by (auto simp: append_eq_append_conv2)
  then show ?thesis
  proof cases
    case 1
    with off assms(2) show ?thesis by simp
  next
    case (2 us)
    from 2(2) consider vs where "ys = us @ vs" | vs where "us = ys @ vs"
      by (auto simp: append_eq_append_conv2)
    then show ?thesis
    proof cases
      case 1
      with 2 off show ?thesis by (auto intro: has_splitI)
    next
      case u: 2
      then have "off - pieces_size xs = pieces_size ys" using 2 off assms(3) by simp
      then show ?thesis by simp
    qed
  qed
qed

lemma slot_scan_split:
  "pieces_size ls = off \<Longrightarrow> \<forall>p \<in> set ls. 0 < piece_size p \<Longrightarrow>
   slot_scan (a + off) a (ls @ rs) = Some (length ls, a + off)"
proof (induction ls arbitrary: a off)
  case Nil
  then show ?case by (cases rs) auto
next
  case (Cons p ls)
  then have "slot_scan (a + piece_size p + pieces_size ls) (a + piece_size p) (ls @ rs) =
      Some (length ls, a + piece_size p + pieces_size ls)" by auto
  with Cons.prems show ?case by (auto simp: add.assoc)
qed

lemma scan_ge_obtain:
  assumes "off < sum_list (map f xs)"
  obtains ls x rs where "xs = ls @ x # rs"
    "scan_ge (a + off) a (map f xs) = Some (length ls, a + sum_list (map f ls))"
    "sum_list (map f ls) \<le> off" "off < sum_list (map f ls) + f x"
  using assms
proof (induction xs arbitrary: a off thesis)
  case Nil
  then show ?case by simp
next
  case (Cons q xs)
  show ?case
  proof (cases "off < f q")
    case True
    then show ?thesis by (intro Cons.prems(1) [of "[]" q xs]) auto
  next
    case False
    with Cons.prems(2) have "off - f q < sum_list (map f xs)" by simp
    from Cons.IH [OF _ this, of "a + f q"] False
    obtain ls x rs where "xs = ls @ x # rs"
      "scan_ge (a + off) (a + f q) (map f xs) = Some (length ls, a + f q + sum_list (map f ls))"
      "sum_list (map f ls) \<le> off - f q" "off - f q < sum_list (map f ls) + f x"
      by auto
    with False show ?thesis by (intro Cons.prems(1) [of "q # ls" x rs]) auto
  qed
qed

lemma scan_gt_obtain:
  assumes "n \<le> sum_list (map f xs)" "xs \<noteq> []"
  obtains ls x rs where "xs = ls @ x # rs"
    "scan_gt (a + n) a (map f xs) = Some (length ls, a + sum_list (map f ls))"
    "sum_list (map f ls) < n \<or> ls = []" "n \<le> sum_list (map f ls) + f x"
  using assms
proof (induction xs arbitrary: a n thesis)
  case Nil
  then show ?case by simp
next
  case (Cons q xs)
  show ?case
  proof (cases "n \<le> f q")
    case True
    then show ?thesis by (intro Cons.prems(1) [of "[]" q xs]) auto
  next
    case False
    with Cons.prems(2) have "n - f q \<le> sum_list (map f xs)" "xs \<noteq> []" by auto
    from Cons.IH [OF _ this, of "a + f q"] False
    obtain ls x rs where "xs = ls @ x # rs"
      "scan_gt (a + n) (a + f q) (map f xs) = Some (length ls, a + f q + sum_list (map f ls))"
      "sum_list (map f ls) < n - f q \<or> ls = []" "n - f q \<le> sum_list (map f ls) + f x"
      by auto
    with False show ?thesis by (intro Cons.prems(1) [of "q # ls" x rs]) auto
  qed
qed

subsection \<open>Leaves\<close>

text \<open>
  \<open>rope_out h ps r\<close>: the operation succeeded, its one or two result nodes are well
  formed, and together they hold the pieces \<open>ps\<close>.
\<close>

definition rope_out ::
  "nat \<Rightarrow> rope_piece list \<Rightarrow> (rope_node \<times> rope_node option) option \<Rightarrow> bool" where
  "rope_out h ps r \<longleftrightarrow> (case r of
     None \<Rightarrow> False
   | Some (t, None) \<Rightarrow> rope_ok h t \<and> pieces t = ps
   | Some (t, Some u) \<Rightarrow> rope_ok h t \<and> rope_ok h u \<and> 0 < node_size t \<and> 0 < node_size u \<and>
       pieces t @ pieces u = ps)"

lemma leaf_insert_small:
  assumes ok: "rope_ok 0 (RLeaf s (ls @ rs))" and len: "length (ls @ rs) < 16"
    and off: "pieces_size ls = off" and R: "0 < piece_size R"
  shows "leaf_insert off R s (ls @ rs) = Some (RLeaf (s + piece_size R) (ls @ R # rs), None) \<and>
         rope_ok 0 (RLeaf (s + piece_size R) (ls @ R # rs))"
proof -
  have pos: "\<forall>p \<in> set (ls @ rs). 0 < piece_size p" using ok by simp
  have "(if off = s then Some (length (ls @ rs), off) else slot_scan off 0 (ls @ rs)) =
      Some (length ls, off)"
  proof (cases "off = s")
    case True
    with ok off have "pieces_size rs = 0" by simp
    with pos have "rs = []" by (cases rs) auto
    with True show ?thesis by simp
  next
    case False
    with slot_scan_split [OF off, of 0 rs] pos show ?thesis by simp
  qed
  with len ok R show ?thesis
    by (simp add: leaf_insert.simps RopeWidthFactor_def insert_at_append)
qed

lemma leaf_insert_ok:
  assumes ok: "rope_ok 0 (RLeaf s (ls @ rs))" and off: "pieces_size ls = off"
    and R: "0 < piece_size R"
  shows "rope_out 0 (ls @ R # rs) (leaf_insert off R s (ls @ rs))"
proof (cases "length (ls @ rs) < 16")
  case True
  from leaf_insert_small [OF ok True off R] show ?thesis
    by (simp add: rope_out_def del: rope_ok.simps)
next
  case False
  with ok have len: "length (ls @ rs) = 16" by simp
  then obtain L U where ex: "ls @ rs = L @ U" "length L = 8" "length U = 8"
    by (metis add_diff_cancel_right' append_take_drop_id diff_le_self le_add2 length_drop
        length_take min.absorb2 numeral_Bit0)
  have pos: "\<forall>p \<in> set L \<union> set U. 0 < piece_size p" using ok unfolding ex(1) by auto
  have okL: "rope_ok 0 (RLeaf (pieces_size L) L)" and okU: "rope_ok 0 (RLeaf (pieces_size U) U)"
    using pos ex by auto
  have posL: "0 < pieces_size L" using ex(2) pos by (cases L) auto
  have posU: "0 < pieces_size U" using ex(3) pos by (cases U) auto
  have step: "leaf_insert off R s (ls @ rs) =
     (if pieces_size L \<ge> off
      then (case leaf_insert off R (pieces_size L) L of
              Some (L', None) \<Rightarrow> Some (L', Some (RLeaf (pieces_size U) U)) | _ \<Rightarrow> None)
      else (case leaf_insert (off - pieces_size L) R (pieces_size U) U of
              Some (R', None) \<Rightarrow> Some (RLeaf (pieces_size L) L, Some R') | _ \<Rightarrow> None))"
    unfolding ex(1)
    by (subst leaf_insert.simps) (simp add: ex(2,3) RopeWidthFactor_def Let_def)
  from ex(1) consider us where "ls = L @ us" "U = us @ rs" | us where "L = ls @ us" "rs = us @ U"
    by (auto simp: append_eq_append_conv2)
  then show ?thesis
  proof cases
    case (1 us)
    show ?thesis
    proof (cases "us = []")
      case True
      then have off': "pieces_size L = off" using off 1 by simp
      have "leaf_insert off R (pieces_size L) (L @ []) =
          Some (RLeaf (pieces_size L + piece_size R) (L @ R # []), None) \<and>
          rope_ok 0 (RLeaf (pieces_size L + piece_size R) (L @ R # []))"
        by (rule leaf_insert_small) (use okL ex off' R in auto)
      with step okU posU posL 1 True off' show ?thesis
        by (simp add: rope_out_def)
    next
      case False
      with pos 1 have "0 < pieces_size us" by (cases us) auto
      then have gt: "\<not> pieces_size L \<ge> off" "off - pieces_size L = pieces_size us"
        using off 1 by auto
      have "leaf_insert (pieces_size us) R (pieces_size (us @ rs)) (us @ rs) =
          Some (RLeaf (pieces_size (us @ rs) + piece_size R) (us @ R # rs), None) \<and>
          rope_ok 0 (RLeaf (pieces_size (us @ rs) + piece_size R) (us @ R # rs))"
        by (rule leaf_insert_small) (use okU 1 ex R in auto)
      with step gt okL posL R 1 show ?thesis
        by (simp add: rope_out_def)
    qed
  next
    case (2 us)
    have le: "pieces_size L \<ge> off" using 2(1) off by simp
    have "leaf_insert off R (pieces_size (ls @ us)) (ls @ us) =
        Some (RLeaf (pieces_size (ls @ us) + piece_size R) (ls @ R # us), None) \<and>
        rope_ok 0 (RLeaf (pieces_size (ls @ us) + piece_size R) (ls @ R # us))"
      by (rule leaf_insert_small) (use okL 2 ex off R in auto)
    with step le okU posU 2 R show ?thesis
      by (simp add: rope_out_def)
  qed
qed


text \<open>
  What \<open>split\<close> promises: the bytes are those of the node before it, and there is now
  a piece boundary at the offset.
\<close>

definition split_out ::
  "nat \<Rightarrow> nat \<Rightarrow> (nat \<times> nat) list \<Rightarrow> (rope_node \<times> rope_node option) option \<Rightarrow> bool" where
  "split_out h off bs r \<longleftrightarrow>
     (\<exists>ls rs. rope_out h (ls @ rs) r \<and> pieces_size ls = off \<and> pieces_bytes (ls @ rs) = bs)"

lemma split_outI:
  "rope_out h (ls @ rs) r \<Longrightarrow> pieces_size ls = off \<Longrightarrow> pieces_bytes (ls @ rs) = bs \<Longrightarrow>
   split_out h off bs r"
  by (auto simp: split_out_def)

lemma piece_bytes_cut:
  "k \<le> piece_size p \<Longrightarrow>
   piece_bytes (p\<lparr>EndOffs := StartOffs p + k\<rparr>) @ piece_bytes (p\<lparr>StartOffs := StartOffs p + k\<rparr>) =
   piece_bytes p"
proof -
  assume k: "k \<le> piece_size p"
  show ?thesis
  proof (cases "piece_size p = 0")
    case True
    with k show ?thesis by (simp add: piece_bytes_def piece_size_def)
  next
    case False
    with k have "[StartOffs p ..< StartOffs p + k] @ [StartOffs p + k ..< EndOffs p] =
        [StartOffs p ..< EndOffs p]"
      using upt_add_eq_append [of "StartOffs p" "StartOffs p + k" "EndOffs p - (StartOffs p + k)"]
      by (simp add: piece_size_def)
    then show ?thesis by (simp add: piece_bytes_def flip: map_append)
  qed
qed

lemma leaf_split_ok:
  assumes ok: "rope_ok 0 (RLeaf s ps)" and off: "off \<le> s"
  shows "split_out 0 off (pieces_bytes ps) (leaf_split off s ps)"
proof (cases "off = 0 \<or> off = s")
  case True
  then have "has_split off ps" using ok by auto
  then obtain ls rs where "ps = ls @ rs" "pieces_size ls = off" by (auto simp: has_split_def)
  with True ok show ?thesis
    by (intro split_outI [of 0 ls rs]) (auto simp: leaf_split_def rope_out_def)
next
  case False
  with ok off have "off < pieces_size ps" by simp
  from scan_ge_obtain [OF this [unfolded pieces_size_def], of 0] obtain ls p rs where
    p: "ps = ls @ p # rs" "scan_ge off 0 (map piece_size ps) = Some (length ls, pieces_size ls)"
    "pieces_size ls \<le> off" "off < pieces_size ls + piece_size p"
    unfolding pieces_size_def by auto
  show ?thesis
  proof (cases "pieces_size ls = off")
    case True
    with False p ok show ?thesis
      by (intro split_outI [of 0 ls "p # rs"]) (auto simp: leaf_split_def rope_out_def)
  next
    case ne: False
    define k where "k = off - pieces_size ls"
    let ?H = "p\<lparr>EndOffs := StartOffs p + k\<rparr>" and ?T = "p\<lparr>StartOffs := StartOffs p + k\<rparr>"
    have k: "0 < k" "k < piece_size p" using p(3,4) ne by (simp_all add: k_def)
    have H: "piece_size ?H = k" and T: "piece_size ?T = piece_size p - k"
      using k by (simp_all add: piece_size_def)
    have eq: "leaf_split off s ps = leaf_insert off ?T (s - piece_size p + k) ((ls @ [?H]) @ rs)"
      using False p ne H by (simp add: leaf_split_def Let_def k_def [symmetric] list_update_append)
    have "rope_ok 0 (RLeaf (s - piece_size p + k) ((ls @ [?H]) @ rs))"
      using ok p(1) H k by auto
    from leaf_insert_ok [OF this, of off ?T]
    have "rope_out 0 ((ls @ [?H]) @ ?T # rs) (leaf_split off s ps)"
      unfolding eq using H T k p(3) by (simp add: k_def)
    then show ?thesis
      using p(1) H p(3) piece_bytes_cut [of k p] k
      by (intro split_outI [of 0 "ls @ [?H]" "?T # rs"]) (auto simp: k_def)
  qed
qed

lemma pieces_bytes_drop_piece:
  "piece_bytes (p\<lparr>StartOffs := StartOffs p + n\<rparr>) = drop n (piece_bytes p)"
  by (simp add: piece_bytes_def drop_map)

lemma leaf_erase_ok:
  assumes ok: "rope_ok 0 (RLeaf s (ls @ rs))" and off: "pieces_size ls = off"
    and n: "0 < n" "off + n \<le> s"
  obtains rs' where "leaf_erase off n s (ls @ rs) = Some (RLeaf (s - n) (ls @ rs'))"
    "rope_ok 0 (RLeaf (s - n) (ls @ rs'))" "pieces_bytes rs' = drop n (pieces_bytes rs)"
proof -
  have pos: "\<forall>p \<in> set ls \<union> set rs. 0 < piece_size p" and len: "length (ls @ rs) \<le> 16"
    and s: "s = off + pieces_size rs" using ok off by auto
  have scan1: "slot_scan off 0 (ls @ rs) = Some (length ls, off)"
    using slot_scan_split [OF off, of 0 rs] pos by simp
  have "n \<le> pieces_size rs" using n s by simp
  moreover from this n(1) have "rs \<noteq> []" by auto
  ultimately obtain us p vs where r0: "rs = us @ p # vs"
    "scan_gt (off + n) off (map piece_size rs) = Some (length us, off + pieces_size us)"
    "pieces_size us < n \<or> us = []" "n \<le> pieces_size us + piece_size p"
    unfolding pieces_size_def by (rule scan_gt_obtain [where a = off])
  then have r: "rs = us @ p # vs"
    "scan_gt (off + n) off (map piece_size rs) = Some (length us, off + pieces_size us)"
    "pieces_size us < n" "n \<le> pieces_size us + piece_size p"
    using n(1) by auto
  have nth: "(ls @ rs) ! (length ls + length us) = p" using r(1) by (simp add: nth_append)
  show ?thesis
  proof (cases "n = pieces_size us + piece_size p")
    case True
    have "leaf_erase off n s (ls @ rs) = Some (RLeaf (s - n) (ls @ vs))"
      using scan1 r True nth by (simp add: leaf_erase_def Let_def)
    moreover have "rope_ok 0 (RLeaf (s - n) (ls @ vs))"
      using ok r(1) True by auto
    moreover have "pieces_bytes vs = drop n (pieces_bytes rs)"
      using r(1) True by simp
    ultimately show ?thesis by (rule that)
  next
    case False
    define k where "k = n - pieces_size us"
    let ?T = "p\<lparr>StartOffs := StartOffs p + k\<rparr>"
    have k: "0 < k" "k < piece_size p" using r(3,4) False by (simp_all add: k_def)
    have T: "piece_size ?T = piece_size p - k" by (simp add: piece_size_def)
    have "leaf_erase off n s (ls @ rs) = Some (RLeaf (s - n) (ls @ ?T # vs))"
    proof (cases "us = []")
      case True
      with scan1 r False nth k show ?thesis
        by (simp add: leaf_erase_def Let_def k_def list_update_append)
    next
      case us: False
      with scan1 r False nth k show ?thesis
        by (simp add: leaf_erase_def Let_def k_def list_update_append nth_append)
    qed
    moreover have "rope_ok 0 (RLeaf (s - n) (ls @ ?T # vs))"
      using ok r(1,3) T k by (auto simp: k_def)
    moreover have "pieces_bytes (?T # vs) = drop n (pieces_bytes rs)"
      using r(1,3) k pieces_bytes_drop_piece [of p k] by (simp add: k_def)
    ultimately show ?thesis by (rule that)
  qed
qed


subsection \<open>Interior nodes\<close>

lemma HandleChildPiece_small:
  assumes "length (cl @ c # cr) < 16"
  shows "HandleChildPiece (length cl) RHS s (cl @ c # cr) = (RInterior s (cl @ c # RHS # cr), None)"
  using assms
  by (simp add: HandleChildPiece.simps RopeWidthFactor_def insert_at_append_Suc)

lemma children_pos:
  "cs \<noteq> [] \<Longrightarrow> \<forall>c \<in> set cs. 0 < node_size c \<Longrightarrow> 0 < children_size cs"
  by (cases cs) auto

lemma HandleChildPiece_ok:
  assumes ok: "\<forall>x \<in> set (cl @ c # RHS # cr). rope_ok h x \<and> 0 < node_size x"
    and len: "length (cl @ c # cr) \<le> 16"
    and s: "s = children_size (cl @ c # RHS # cr)"
  shows "rope_out (Suc h) (concat (map pieces (cl @ c # RHS # cr)))
           (Some (HandleChildPiece (length cl) RHS s (cl @ c # cr)))"
proof (cases "length (cl @ c # cr) < 16")
  case True
  then show ?thesis using HandleChildPiece_small [OF True, of RHS s] ok len s
    by (auto simp: rope_out_def)
next
  case False
  with len have len: "length (cl @ c # cr) = 16" by simp
  show ?thesis
  proof (cases "length cl < 8")
    case True
    then have "7 - length cl \<le> length cr" using len by simp
    then obtain k1 k2 where cr: "cr = k1 @ k2" "length k1 = 7 - length cl"
      by (rule split_at_length)
    then have l: "length (cl @ c # k1) = 8" "length k2 = 8" using len True by simp_all
    have "take 8 (cl @ c # cr) = cl @ c # k1" "drop 8 (cl @ c # cr) = k2"
      using l cr append_eq_conv_conj [of "cl @ c # k1" k2 "cl @ c # cr"] by auto
    moreover have "HandleChildPiece (length cl) RHS s (cl @ c # k1) =
        (RInterior s (cl @ c # RHS # k1), None)"
      by (rule HandleChildPiece_small) (use l in simp)
    ultimately have "HandleChildPiece (length cl) RHS s (cl @ c # cr) =
        (RInterior (children_size (cl @ c # RHS # k1)) (cl @ c # RHS # k1),
         Some (RInterior (children_size k2) k2))"
      using True len by (subst HandleChildPiece.simps) (simp add: RopeWidthFactor_def Let_def)
    moreover have "k2 \<noteq> []" using l(2) by auto
    ultimately show ?thesis using ok l cr(1) children_pos [of k2]
      by (auto simp: rope_out_def)
  next
    case ge: False
    then have "8 \<le> length cl" by simp
    then obtain k1 k2 where cl: "cl = k1 @ k2" "length k1 = 8"
      by (rule split_at_length)
    then have l: "length (k2 @ c # cr) = 8" using len by simp
    have "take 8 (cl @ c # cr) = k1" "drop 8 (cl @ c # cr) = k2 @ c # cr"
      using cl by simp_all
    moreover have "HandleChildPiece (length k2) RHS 0 (k2 @ c # cr) =
        (RInterior 0 (k2 @ c # RHS # cr), None)"
      by (rule HandleChildPiece_small) (use l in simp)
    ultimately have "HandleChildPiece (length cl) RHS s (cl @ c # cr) =
        (RInterior (children_size k1) k1,
         Some (RInterior (children_size (k2 @ c # RHS # cr)) (k2 @ c # RHS # cr)))"
      using ge len cl by (subst HandleChildPiece.simps) (simp add: RopeWidthFactor_def Let_def)
    moreover have "k1 \<noteq> []" using cl(2) by auto
    ultimately show ?thesis using ok l cl children_pos [of k1]
      by (auto simp: rope_out_def)
  qed
qed

text \<open>What the result of a child operation does to an interior node.\<close>

lemma interior_child_out:
  assumes ok: "\<forall>x \<in> set (cl @ c # cr). rope_ok h x \<and> 0 < node_size x"
    and len: "length (cl @ c # cr) \<le> 16"
    and out: "rope_out h qs r" and pos: "0 < pieces_size qs"
    and s: "s = children_size cl + pieces_size qs + children_size cr"
  shows "rope_out (Suc h) (concat (map pieces cl) @ qs @ concat (map pieces cr))
     (case r of None \<Rightarrow> None
      | Some (c', None) \<Rightarrow> Some (RInterior s (cl @ c' # cr), None)
      | Some (c', Some RHS) \<Rightarrow> Some (HandleChildPiece (length cl) RHS s (cl @ c' # cr)))"
proof -
  obtain c' o' where r: "r = Some (c', o')" using out by (auto simp: rope_out_def split: option.splits)
  show ?thesis
  proof (cases o')
    case None
    with r out have c': "rope_ok h c'" "pieces c' = qs" by (simp_all add: rope_out_def)
    with pos have "node_size c' = pieces_size qs" by (simp add: node_size_pieces)
    with None r c' ok len s pos show ?thesis by (auto simp: rope_out_def)
  next
    case (Some RHS)
    with r out have c': "rope_ok h c'" "rope_ok h RHS" "0 < node_size c'" "0 < node_size RHS"
      "pieces c' @ pieces RHS = qs" by (simp_all add: rope_out_def)
    then have "node_size c' + node_size RHS = pieces_size qs"
      by (simp add: node_size_pieces flip: pieces_size_simps(3))
    with HandleChildPiece_ok [of cl c' RHS cr h s] Some r c' ok len s show ?thesis
      by auto
  qed
qed


subsection \<open>The three operations on nodes\<close>

lemma concat_pieces_size:
  "\<forall>c \<in> set cs. rope_ok h c \<and> 0 < node_size c \<Longrightarrow>
   pieces_size (concat (map pieces cs)) = children_size cs"
  using children_size_pieces by force

lemma node_split_ok:
  "rope_ok h t \<Longrightarrow> off \<le> node_size t \<Longrightarrow> split_out h off (bytes t) (node_split off t)"
proof (induction h arbitrary: t off)
  case 0
  then obtain s ps where "t = RLeaf s ps" by (cases t) auto
  with 0 show ?case using leaf_split_ok [of s ps off] by (simp add: node_split.simps bytes_def)
next
  case (Suc h)
  then obtain s cs where t: "t = RInterior s cs" by (cases t) auto
  have ok: "\<forall>c \<in> set cs. rope_ok h c \<and> 0 < node_size c" and len: "length cs \<le> 16"
    and s: "s = children_size cs" using Suc.prems t by auto
  show ?case
  proof (cases "off = 0 \<or> off = s")
    case True
    then have "has_split off (pieces t)"
      using t s concat_pieces_size [OF ok] has_split_ends(2) [of "pieces t"] by auto
    then obtain ls rs where "pieces t = ls @ rs" "pieces_size ls = off" by (auto simp: has_split_def)
    with True t Suc.prems show ?thesis
      by (intro split_outI [of _ ls rs]) (auto simp: node_split.simps rope_out_def bytes_def)
  next
    case False
    then have "off < sum_list (map node_size cs)"
      using Suc.prems t s by (simp add: children_size_def)
    from scan_ge_obtain [OF this, of 0] obtain cl c cr where
      c: "cs = cl @ c # cr" "scan_ge off 0 (map node_size cs) = Some (length cl, children_size cl)"
      "children_size cl \<le> off" "off < children_size cl + node_size c"
      unfolding children_size_def by auto
    have okl: "\<forall>c \<in> set cl. rope_ok h c \<and> 0 < node_size c" using ok c(1) by simp
    show ?thesis
    proof (cases "children_size cl = off")
      case True
      with False c t s Suc.prems concat_pieces_size [OF okl] show ?thesis
        by (intro split_outI [of _ "concat (map pieces cl)" "concat (map pieces (c # cr))"])
          (auto simp: node_split.simps rope_out_def bytes_def)
    next
      case ne: False
      let ?o = "off - children_size cl"
      have "split_out h ?o (bytes c) (node_split ?o c)"
        using Suc.IH ok c(1,4) by simp
      then obtain ls rs where q: "rope_out h (ls @ rs) (node_split ?o c)" "pieces_size ls = ?o"
        "pieces_bytes (ls @ rs) = bytes c" by (auto simp: split_out_def)
      have okc: "rope_ok h c" "0 < node_size c" using ok c(1) by auto
      have sz: "pieces_size (ls @ rs) = node_size c"
        using q(3) okc length_bytes by (metis length_pieces_bytes)
      have out: "rope_out (Suc h) (concat (map pieces cl) @ (ls @ rs) @ concat (map pieces cr))
        (case node_split ?o c of None \<Rightarrow> None
         | Some (c', None) \<Rightarrow> Some (RInterior s (cl @ c' # cr), None)
         | Some (c', Some RHS) \<Rightarrow> Some (HandleChildPiece (length cl) RHS s (cl @ c' # cr)))"
        by (rule interior_child_out [OF _ _ q(1)]) (use ok c(1) len sz s okc in auto)
      have "node_split off t = (case node_split ?o c of None \<Rightarrow> None
         | Some (c', None) \<Rightarrow> Some (RInterior s (cl @ c' # cr), None)
         | Some (c', Some RHS) \<Rightarrow> Some (HandleChildPiece (length cl) RHS s (cl @ c' # cr)))"
      proof -
        have upd: "cs[length cl := x] = cl @ x # cr" "cs ! length cl = c" "length cl < length cs" for x
          using c(1) by simp_all
        show ?thesis
          using False c(2-4) ne Suc.prems(2) by (simp add: t node_split.simps upd split: option.split)
      qed
      with out concat_pieces_size [OF okl] q c(1,3) t show ?thesis
        by (intro split_outI [of _ "concat (map pieces cl) @ ls" "rs @ concat (map pieces cr)"])
          (simp_all add: bytes_def)
    qed
  qed
qed

definition insert_out ::
  "nat \<Rightarrow> nat \<Rightarrow> rope_piece \<Rightarrow> rope_piece list \<Rightarrow> (rope_node \<times> rope_node option) option \<Rightarrow> bool" where
  "insert_out h off R ps r \<longleftrightarrow>
     (\<exists>ls rs. ps = ls @ rs \<and> pieces_size ls = off \<and> rope_out h (ls @ R # rs) r)"

lemma insert_outI:
  "ps = ls @ rs \<Longrightarrow> pieces_size ls = off \<Longrightarrow> rope_out h (ls @ R # rs) r \<Longrightarrow>
   insert_out h off R ps r"
  by (auto simp: insert_out_def)

lemma node_insert_ok:
  "rope_ok h t \<Longrightarrow> has_split off (pieces t) \<Longrightarrow> off \<le> node_size t \<Longrightarrow> 0 < piece_size R \<Longrightarrow>
   (\<And>s. t \<noteq> RInterior s []) \<Longrightarrow> insert_out h off R (pieces t) (node_insert off R t)"
proof (induction h arbitrary: t off)
  case 0
  then obtain s ps where t: "t = RLeaf s ps" by (cases t) auto
  from 0(2) t obtain ls rs where "ps = ls @ rs" "pieces_size ls = off" by (auto simp: has_split_def)
  with 0 t leaf_insert_ok [of s ls rs off R] show ?case
    by (intro insert_outI [of _ ls rs]) (simp_all add: node_insert.simps)
next
  case (Suc h)
  then obtain s cs where t: "t = RInterior s cs" by (cases t) auto
  have ok: "\<forall>c \<in> set cs. rope_ok h c \<and> 0 < node_size c" and len: "length cs \<le> 16"
    and s: "s = children_size cs" and ne: "cs \<noteq> []" using Suc.prems t by auto
  obtain cl c cr where c: "cs = cl @ c # cr"
    "(if off = s then (if cs = [] then None else Some (length cs - 1, s - node_size (last cs)))
      else scan_gt off 0 (map node_size cs)) = Some (length cl, children_size cl)"
    "children_size cl \<le> off" "off \<le> children_size cl + node_size c"
  proof (cases "off = s")
    case True
    have "cs = butlast cs @ last cs # []" using ne by simp
    then have "children_size cs = children_size (butlast cs) + node_size (last cs)"
      by (metis add.right_neutral children_size_simps)
    with True ne s show ?thesis
      by (intro that [of "butlast cs" "last cs" "[]"]) auto
  next
    case False
    have "off \<le> sum_list (map node_size cs)"
      using Suc.prems t s by (simp add: children_size_def)
    from this ne obtain cl c cr where "cs = cl @ c # cr"
      "scan_gt (0 + off) 0 (map node_size cs) = Some (length cl, 0 + sum_list (map node_size cl))"
      "sum_list (map node_size cl) < off \<or> cl = []" "off \<le> sum_list (map node_size cl) + node_size c"
      by (rule scan_gt_obtain [where a = 0])
    with False show ?thesis by (intro that [of cl c cr]) (auto simp: children_size_def)
  qed
  let ?o = "off - children_size cl"
  have okc: "rope_ok h c" "0 < node_size c" and okl: "\<forall>c \<in> set cl. rope_ok h c \<and> 0 < node_size c"
    using ok c(1) by auto
  have "has_split ?o (pieces c)"
    using has_split_mid [of off "concat (map pieces cl)" "pieces c" "concat (map pieces cr)"]
      Suc.prems(2) t c concat_pieces_size [OF okl] node_size_pieces [OF okc(1)] by simp
  moreover have "c \<noteq> RInterior s' []" for s'
    using okc by (cases h) auto
  ultimately have "insert_out h ?o R (pieces c) (node_insert ?o R c)"
    using Suc.IH okc c(4) Suc.prems(4) by simp
  then obtain ls rs where q: "pieces c = ls @ rs" "pieces_size ls = ?o"
    "rope_out h (ls @ R # rs) (node_insert ?o R c)" by (auto simp: insert_out_def)
  have sz: "pieces_size (ls @ R # rs) = node_size c + piece_size R"
    using q(1) node_size_pieces [OF okc(1)] by simp
  have out: "rope_out (Suc h) (concat (map pieces cl) @ (ls @ R # rs) @ concat (map pieces cr))
    (case node_insert ?o R c of None \<Rightarrow> None
     | Some (c', None) \<Rightarrow> Some (RInterior (s + piece_size R) (cl @ c' # cr), None)
     | Some (c', Some RHS) \<Rightarrow>
         Some (HandleChildPiece (length cl) RHS (s + piece_size R) (cl @ c' # cr)))"
    by (rule interior_child_out [OF _ _ q(3)]) (use ok c(1) len sz s okc in auto)
  have "node_insert off R t = (case node_insert ?o R c of None \<Rightarrow> None
     | Some (c', None) \<Rightarrow> Some (RInterior (s + piece_size R) (cl @ c' # cr), None)
     | Some (c', Some RHS) \<Rightarrow>
         Some (HandleChildPiece (length cl) RHS (s + piece_size R) (cl @ c' # cr)))"
  proof -
    have upd: "cs[length cl := x] = cl @ x # cr" "cs ! length cl = c" "length cl < length cs" for x
      using c(1) by simp_all
    show ?thesis using Suc.prems(3) by (simp add: t node_insert.simps c(2) upd split: option.split)
  qed
  with out concat_pieces_size [OF okl] q c(1,3) t show ?case
    by (intro insert_outI [of _ "concat (map pieces cl) @ ls" "rs @ concat (map pieces cr)"]) simp_all
qed


text \<open>
  \<open>erase\<close>.  \<open>del_range off n bs\<close> is the byte sequence without the \<open>n\<close> bytes from \<open>off\<close> on.
\<close>

definition del_range :: "nat \<Rightarrow> nat \<Rightarrow> 'a list \<Rightarrow> 'a list" where
  "del_range off n bs = take off bs @ drop (off + n) bs"

lemma del_range_inside:
  "off + n \<le> length xs \<Longrightarrow> del_range off n (xs @ ys) = del_range off n xs @ ys"
  by (simp add: del_range_def)

lemma del_range_beyond:
  "length xs \<le> off \<Longrightarrow> del_range off n (xs @ ys) = xs @ del_range (off - length xs) n ys"
  by (simp add: del_range_def)

lemma del_range_across:
  "off \<le> length xs \<Longrightarrow> length xs \<le> off + n \<Longrightarrow>
   del_range off n (xs @ ys) = take off xs @ del_range 0 (n - (length xs - off)) ys"
  by (simp add: del_range_def add.commute)

lemma del_range_0 [simp]: "del_range off 0 xs = xs"
  by (simp add: del_range_def)

lemma length_del_range: "off + n \<le> length xs \<Longrightarrow> length (del_range off n xs) = length xs - n"
  by (simp add: del_range_def)

definition children_bytes :: "rope_node list \<Rightarrow> (nat \<times> nat) list" where
  "children_bytes cs = concat (map bytes cs)"

lemma children_bytes_simps [simp]:
  "children_bytes [] = []" "children_bytes (c # cs) = bytes c @ children_bytes cs"
  by (simp_all add: children_bytes_def)

lemma bytes_RInterior: "bytes (RInterior s cs) = children_bytes cs"
  by (induction cs) (auto simp: bytes_def)

abbreviation kids_ok :: "nat \<Rightarrow> rope_node list \<Rightarrow> bool" where
  "kids_ok h cs \<equiv> \<forall>c \<in> set cs. rope_ok h c \<and> 0 < node_size c"

lemma length_children_bytes: "kids_ok h cs \<Longrightarrow> length (children_bytes cs) = children_size cs"
  by (induction cs) (auto simp: length_bytes)

definition erase_ok :: "nat \<Rightarrow> bool" where
  "erase_ok h \<longleftrightarrow> (\<forall>t off n. rope_ok h t \<longrightarrow> has_split off (pieces t) \<longrightarrow> 0 < n \<longrightarrow>
     off + n \<le> node_size t \<longrightarrow>
     (\<exists>t'. node_erase off n t = Some t' \<and> rope_ok h t' \<and> bytes t' = del_range off n (bytes t)))"

lemma erase_okD:
  assumes "erase_ok h" "rope_ok h t" "has_split off (pieces t)" "0 < n" "off + n \<le> node_size t"
  shows "\<exists>t'. node_erase off n t = Some t' \<and> rope_ok h t' \<and> bytes t' = del_range off n (bytes t) \<and>
    node_size t' = node_size t - n"
proof -
  from assms obtain t' where t': "node_erase off n t = Some t'" "rope_ok h t'"
    "bytes t' = del_range off n (bytes t)" unfolding erase_ok_def by blast
  moreover have "node_size t' = node_size t - n"
    using length_bytes [OF t'(2)] length_bytes [OF assms(2)] t'(3) length_del_range assms(5) by metis
  ultimately show ?thesis by blast
qed

lemma erase_loop_ok:
  assumes IH: "erase_ok h"
  shows "kids_ok h cs \<Longrightarrow> (cs = [] \<and> off = 0) \<or> (cs \<noteq> [] \<and> off < node_size (hd cs)) \<Longrightarrow>
    has_split off (concat (map pieces cs)) \<Longrightarrow> off + n \<le> children_size cs \<Longrightarrow>
    \<exists>cs'. erase_loop off n cs = Some cs' \<and> kids_ok h cs' \<and> length cs' \<le> length cs \<and>
      children_bytes cs' = del_range off n (children_bytes cs)"
proof (induction cs arbitrary: off n)
  case Nil
  then show ?case by (simp add: erase_loop.simps)
next
  case (Cons c cs)
  have c: "rope_ok h c" "0 < node_size c" and cs: "kids_ok h cs" and off: "off < node_size c"
    using Cons.prems by auto
  have len: "length (bytes c) = node_size c" using c length_bytes by blast
  have split: "has_split off (pieces c)"
    using has_split_mid [of off "[]" "pieces c" "concat (map pieces cs)"] Cons.prems(3) off
      node_size_pieces [OF c(1)] by simp
  have next0: "(cs = [] \<and> (0::nat) = 0) \<or> (cs \<noteq> [] \<and> 0 < node_size (hd cs))"
    using cs by (cases cs) auto
  show ?case
  proof (cases "n = 0")
    case True
    with Cons.prems show ?thesis by (simp add: erase_loop.simps)
  next
    case n: False
    show ?thesis
    proof (cases "off + n < node_size c")
      case True
      from erase_okD [OF IH c(1) split, of n] n True obtain c' where c':
        "node_erase off n c = Some c'" "rope_ok h c'" "bytes c' = del_range off n (bytes c)"
        "node_size c' = node_size c - n" by auto
      then show ?thesis using n True cs len
        by (subst erase_loop.simps) (simp add: del_range_inside)
    next
      case past: False
      show ?thesis
      proof (cases "off = 0")
        case True
        with Cons.prems past have "n - node_size c \<le> children_size cs" by simp
        with Cons.IH [OF cs next0, of "n - node_size c"] obtain cs' where
          "erase_loop 0 (n - node_size c) cs = Some cs'" "kids_ok h cs'" "length cs' \<le> length cs"
          "children_bytes cs' = del_range 0 (n - node_size c) (children_bytes cs)" by auto
        then show ?thesis using n True past len
          by (subst erase_loop.simps) (simp add: del_range_across)
      next
        case offpos: False
        let ?b = "node_size c - off"
        from erase_okD [OF IH c(1) split, of ?b] off obtain c' where c':
          "node_erase off ?b c = Some c'" "rope_ok h c'" "bytes c' = del_range off ?b (bytes c)"
          "node_size c' = node_size c - ?b" by auto
        have "n - ?b \<le> children_size cs" using Cons.prems past off by simp
        with Cons.IH [OF cs next0, of "n - ?b"] obtain cs' where
          "erase_loop 0 (n - ?b) cs = Some cs'" "kids_ok h cs'" "length cs' \<le> length cs"
          "children_bytes cs' = del_range 0 (n - ?b) (children_bytes cs)" by auto
        moreover have "bytes c' = take off (bytes c)" using c'(3) off len by (simp add: del_range_def)
        ultimately show ?thesis using n offpos past len off c'
          by (subst erase_loop.simps) (simp add: del_range_across Let_def)
      qed
    qed
  qed
qed

lemma erase_find_ok:
  assumes IH: "erase_ok h"
  shows "kids_ok h cs \<Longrightarrow> has_split off (concat (map pieces cs)) \<Longrightarrow> 0 < n \<Longrightarrow>
    off + n \<le> children_size cs \<Longrightarrow>
    \<exists>cs'. erase_find off n cs = Some cs' \<and> kids_ok h cs' \<and> length cs' \<le> length cs \<and>
      children_bytes cs' = del_range off n (children_bytes cs)"
proof (induction cs arbitrary: off)
  case Nil
  then show ?case by simp
next
  case (Cons c cs)
  show ?case
  proof (cases "node_size c \<le> off")
    case False
    with Cons.prems erase_loop_ok [OF IH, of "c # cs" off n] show ?thesis
      by (simp add: erase_find.simps)
  next
    case True
    have c: "rope_ok h c" "0 < node_size c" and cs: "kids_ok h cs" using Cons.prems by auto
    have len: "length (bytes c) = node_size c" using c length_bytes by blast
    have "has_split (off - node_size c) (concat (map pieces cs))"
      using has_split_mid [of off "pieces c" "concat (map pieces cs)" "[]"] Cons.prems True
        node_size_pieces [OF c(1)] concat_pieces_size [OF cs] by simp
    moreover have "off - node_size c + n \<le> children_size cs" using Cons.prems True by simp
    ultimately obtain cs' where "erase_find (off - node_size c) n cs = Some cs'" "kids_ok h cs'"
      "length cs' \<le> length cs"
      "children_bytes cs' = del_range (off - node_size c) n (children_bytes cs)"
      using Cons.IH [OF cs _ Cons.prems(3)] by blast
    with True c len show ?thesis
      by (simp add: erase_find.simps del_range_beyond)
  qed
qed

lemma node_erase_ok: "erase_ok h"
proof (induction h)
  case 0
  show ?case unfolding erase_ok_def
  proof (intro allI impI)
    fix t off n
    assume a: "rope_ok 0 t" "has_split off (pieces t)" "0 < n" "off + n \<le> node_size t"
    then obtain s ps where t: "t = RLeaf s ps" by (cases t) auto
    from a(2) t obtain ls rs where ls: "ps = ls @ rs" "pieces_size ls = off"
      by (auto simp: has_split_def)
    obtain rs' where "leaf_erase off n s ps = Some (RLeaf (s - n) (ls @ rs'))"
      "rope_ok 0 (RLeaf (s - n) (ls @ rs'))" "pieces_bytes rs' = drop n (pieces_bytes rs)"
      using leaf_erase_ok [of s ls rs off n] a t ls by auto
    then show "\<exists>t'. node_erase off n t = Some t' \<and> rope_ok 0 t' \<and> bytes t' = del_range off n (bytes t)"
      using a(4) t ls by (auto simp: node_erase.simps bytes_def del_range_def simp del: rope_ok.simps)
  qed
next
  case (Suc h)
  show ?case unfolding erase_ok_def
  proof (intro allI impI)
    fix t off n
    assume a: "rope_ok (Suc h) t" "has_split off (pieces t)" "0 < n" "off + n \<le> node_size t"
    then obtain s cs where t: "t = RInterior s cs" by (cases t) auto
    have cs: "kids_ok h cs" "length cs \<le> 16" "s = children_size cs" using a t by auto
    with a t erase_find_ok [OF Suc cs(1), of off n] obtain cs' where
      "erase_find off n cs = Some cs'" "kids_ok h cs'" "length cs' \<le> length cs"
      "children_bytes cs' = del_range off n (children_bytes cs)" by auto
    moreover from this have "children_size cs' = s - n"
      using length_children_bytes [OF cs(1)] length_children_bytes [of cs' h] cs a(4) t
        length_del_range [of off n "children_bytes cs"] by simp
    ultimately show "\<exists>t'. node_erase off n t = Some t' \<and> rope_ok (Suc h) t' \<and>
        bytes t' = del_range off n (bytes t)"
      using a(4) t cs(2) by (auto simp: node_erase.simps bytes_RInterior)
  qed
qed


section \<open>The tree\<close>

text \<open>A node that split off a right half gets a new root above it.\<close>

fun grow_root :: "rope_node \<times> rope_node option \<Rightarrow> rope_node" where
  "grow_root (LHS, None) = LHS"
| "grow_root (LHS, Some RHS) = RInterior (node_size LHS + node_size RHS) [LHS, RHS]"

definition BTree_init :: rope_node where
  "BTree_init = RLeaf 0 []"

fun BTree_clear :: "rope_node \<Rightarrow> rope_node" where
  "BTree_clear (RLeaf s ps) = RLeaf 0 []"
| "BTree_clear (RInterior s cs) = BTree_init"

definition BTree_insert :: "nat \<Rightarrow> rope_piece \<Rightarrow> rope_node \<Rightarrow> rope_node option" where
  "BTree_insert Offset R Root =
     (case node_split Offset Root of
        None \<Rightarrow> None
      | Some r \<Rightarrow> (case node_insert Offset R (grow_root r) of
          None \<Rightarrow> None
        | Some r' \<Rightarrow> Some (grow_root r')))"

definition BTree_erase :: "nat \<Rightarrow> nat \<Rightarrow> rope_node \<Rightarrow> rope_node option" where
  "BTree_erase Offset NumBytes Root =
     (case node_split Offset Root of
        None \<Rightarrow> None
      | Some r \<Rightarrow> node_erase Offset NumBytes (grow_root r))"

text \<open>
  The invariant of the whole tree adds that an interior root has a child.  Erasing
  every byte of a tree with an interior root breaks it: see \<open>BTree_erase_all\<close>.
\<close>

definition btree_inv :: "rope_node \<Rightarrow> bool" where
  "btree_inv t \<longleftrightarrow> (\<exists>h. rope_ok h t) \<and> (\<forall>s. t \<noteq> RInterior s [])"

lemma btree_inv_init [simp]: "btree_inv BTree_init" "bytes BTree_init = []"
  by (auto simp: btree_inv_def BTree_init_def bytes_def intro: exI [of _ 0])

lemma btree_inv_size: "btree_inv t \<Longrightarrow> node_size t = length (bytes t)"
  using length_bytes by (auto simp: btree_inv_def)

lemma grow_root_ok:
  assumes out: "rope_out h ps (Some r)"
  shows "(\<exists>h'. rope_ok h' (grow_root r)) \<and> pieces (grow_root r) = ps \<and>
    ((\<forall>s. fst r \<noteq> RInterior s []) \<longrightarrow> btree_inv (grow_root r))"
proof (cases r)
  case (Pair t o')
  show ?thesis
  proof (cases o')
    case None
    with Pair out show ?thesis by (auto simp: rope_out_def btree_inv_def)
  next
    case (Some u)
    with Pair out have "rope_ok (Suc h) (grow_root r)" "pieces (grow_root r) = ps"
      by (auto simp: rope_out_def)
    with Pair Some show ?thesis by (auto simp: btree_inv_def simp del: rope_ok.simps)
  qed
qed

lemma rope_ok_nonempty: "rope_ok h t \<Longrightarrow> 0 < node_size t \<Longrightarrow> t \<noteq> RInterior s []"
  by (cases h) auto

lemma split_grow:
  assumes inv: "btree_inv t" and off: "off \<le> node_size t"
  obtains r where "node_split off t = Some r" "btree_inv (grow_root r)"
    "has_split off (pieces (grow_root r))" "bytes (grow_root r) = bytes t"
proof -
  from inv obtain h where ok: "rope_ok h t" by (auto simp: btree_inv_def)
  from node_split_ok [OF ok off] obtain ls rs where
    s: "rope_out h (ls @ rs) (node_split off t)" "pieces_size ls = off" "pieces_bytes (ls @ rs) = bytes t"
    by (auto simp: split_out_def)
  then obtain r where r: "node_split off t = Some r" by (auto simp: rope_out_def split: option.splits)
  with s grow_root_ok [of h "ls @ rs" r] have g: "pieces (grow_root r) = ls @ rs"
    "(\<forall>s. fst r \<noteq> RInterior s []) \<longrightarrow> btree_inv (grow_root r)" by simp_all
  have "fst r \<noteq> RInterior s' []" for s'
  proof (cases "node_size t = 0")
    case True
    then have "off = 0" using off by simp
    with r inv show ?thesis
      by (cases t) (auto simp: node_split.simps leaf_split_def btree_inv_def)
  next
    case False
    then have pos: "0 < pieces_size (ls @ rs)"
      using s(3) length_bytes [OF ok] by (metis length_pieces_bytes neq0_conv)
    have "rope_ok h (fst r) \<and> 0 < node_size (fst r)"
      using s(1) r pos node_size_pieces [of h "fst r"]
      by (cases r; cases "snd r") (auto simp: rope_out_def)
    then show ?thesis using rope_ok_nonempty by blast
  qed
  with g have "btree_inv (grow_root r)" by blast
  moreover have "has_split off (pieces (grow_root r))" using g(1) s(2) by (auto intro: has_splitI)
  moreover have "bytes (grow_root r) = bytes t" using g(1) s(3) by (simp add: bytes_def)
  ultimately show ?thesis using that r by blast
qed

lemma BTree_insert_ok:
  assumes inv: "btree_inv t" and off: "off \<le> node_size t" and R: "0 < piece_size R"
  obtains t' where "BTree_insert off R t = Some t'" "btree_inv t'"
    "bytes t' = take off (bytes t) @ piece_bytes R @ drop off (bytes t)"
proof -
  from split_grow [OF inv off] obtain r where r: "node_split off t = Some r"
    "btree_inv (grow_root r)" "has_split off (pieces (grow_root r))" "bytes (grow_root r) = bytes t" .
  from r(2) obtain h where ok: "rope_ok h (grow_root r)" and ne: "\<And>s. grow_root r \<noteq> RInterior s []"
    by (auto simp: btree_inv_def)
  have off': "off \<le> node_size (grow_root r)"
    using off r(4) btree_inv_size [OF inv] btree_inv_size [OF r(2)] by simp
  from node_insert_ok [OF ok r(3) off' R ne] obtain ls rs where
    q: "pieces (grow_root r) = ls @ rs" "pieces_size ls = off"
    "rope_out h (ls @ R # rs) (node_insert off R (grow_root r))" by (auto simp: insert_out_def)
  then obtain r' where r': "node_insert off R (grow_root r) = Some r'"
    by (auto simp: rope_out_def split: option.splits)
  with q grow_root_ok [of h "ls @ R # rs" r'] have
    g: "\<exists>h'. rope_ok h' (grow_root r')" "pieces (grow_root r') = ls @ R # rs" by simp_all
  from g obtain h' where h': "rope_ok h' (grow_root r')" by blast
  with g(2) R have "0 < node_size (grow_root r')" by (simp add: node_size_pieces)
  with h' have "btree_inv (grow_root r')"
    using rope_ok_nonempty unfolding btree_inv_def by blast
  moreover have "BTree_insert off R t = Some (grow_root r')" using r r' by (simp add: BTree_insert_def)
  moreover have "bytes t = pieces_bytes ls @ pieces_bytes rs" using q(1) r(4) by (simp add: bytes_def)
  then have "bytes (grow_root r') = take off (bytes t) @ piece_bytes R @ drop off (bytes t)"
    using g(2) q(2) by (simp add: bytes_def)
  ultimately show ?thesis using that by blast
qed

lemma BTree_erase_gen:
  assumes inv: "btree_inv t" and n: "0 < n" "off + n \<le> node_size t"
  obtains t' h where "BTree_erase off n t = Some t'" "rope_ok h t'" "bytes t' = del_range off n (bytes t)"
proof -
  have "off \<le> node_size t" using n by simp
  from split_grow [OF inv this] obtain r where r: "node_split off t = Some r"
    "btree_inv (grow_root r)" "has_split off (pieces (grow_root r))" "bytes (grow_root r) = bytes t" .
  from r(2) obtain h where ok: "rope_ok h (grow_root r)" by (auto simp: btree_inv_def)
  have "off + n \<le> node_size (grow_root r)"
    using n r(4) btree_inv_size [OF inv] btree_inv_size [OF r(2)] by simp
  from erase_okD [OF node_erase_ok ok r(3) n(1) this] r(1,4) show ?thesis
    by (auto simp: BTree_erase_def intro: that)
qed

lemma BTree_erase_ok:
  assumes inv: "btree_inv t" and n: "0 < n" "off + n \<le> node_size t" "n < node_size t"
  obtains t' where "BTree_erase off n t = Some t'" "btree_inv t'" "bytes t' = del_range off n (bytes t)"
proof -
  from BTree_erase_gen [OF inv n(1,2)] obtain t' h where t': "BTree_erase off n t = Some t'"
    "rope_ok h t'" "bytes t' = del_range off n (bytes t)" .
  have "length (bytes t') = node_size t - n"
    using t'(3) n btree_inv_size [OF inv] by (simp add: length_del_range)
  then have "0 < node_size t'" using length_bytes [OF t'(2)] n by simp
  then have "btree_inv t'" using t'(2) rope_ok_nonempty unfolding btree_inv_def by blast
  with t' show ?thesis by (intro that)
qed

text \<open>
  Erasing everything from a tree with an interior root leaves a root without
  children; the next insertion asks for child number \<open>-1\<close> of it, and \<open>begin()\<close> for
  child 0.
\<close>

lemma BTree_erase_all:
  assumes "btree_inv (RInterior s cs)"
  shows "BTree_erase 0 s (RInterior s cs) = Some (RInterior 0 []) \<and>
    BTree_insert 0 R (RInterior 0 []) = None"
proof -
  from assms obtain h where ok: "rope_ok h (RInterior s cs)" and ne: "cs \<noteq> []"
    by (auto simp: btree_inv_def)
  then obtain h' where h: "h = Suc h'" by (cases h) auto
  with ok have cs: "kids_ok h' cs" and s: "s = children_size cs" by auto
  then have pos: "0 < s" using children_pos [of cs] ne by auto
  have "0 < s" "0 + s \<le> children_size cs" using pos s by auto
  from erase_find_ok [OF node_erase_ok cs has_split_ends(1) this] obtain cs' where
    e: "erase_find 0 s cs = Some cs'" "kids_ok h' cs'" "children_bytes cs' = del_range 0 s (children_bytes cs)"
    by auto
  have "children_bytes cs' = []" using e(3) s length_children_bytes [OF cs] by (simp add: del_range_def)
  then have "children_size cs' = 0" using length_children_bytes [OF e(2)] by simp
  then have "cs' = []" using e(2) children_pos [of cs'] by auto
  with e(1) show ?thesis
    by (simp add: BTree_erase_def BTree_insert_def node_split.simps node_erase.simps node_insert.simps)
qed


section \<open>The rope: pieces over shared buffers\<close>

text \<open>
  \<open>Heap\<close> holds the \<open>Data\<close> of every allocated \<open>RopeRefCountString\<close>, the bytes written
  to it so far; \<open>NextAddr\<close> is the next fresh address.  Several pieces may point into
  one buffer, and \<open>MakeRopeString\<close> keeps writing to the end of \<open>AllocBuffer\<close> while
  pieces of the tree point into its beginning.  Reference counts are not modelled: a
  buffer lives for ever.
\<close>

record rewrite_rope =
  Chunks :: rope_node
  Heap :: "nat \<Rightarrow> string"
  NextAddr :: nat
  AllocBuffer :: nat
  AllocOffs :: nat

definition AllocChunkSize :: nat where
  "AllocChunkSize = 4080"

definition RewriteRope_init :: rewrite_rope where
  "RewriteRope_init = \<lparr>Chunks = BTree_init, Heap = (\<lambda>_. []), NextAddr = 1,
     AllocBuffer = 0, AllocOffs = AllocChunkSize\<rparr>"

definition memcpy_at :: "nat \<Rightarrow> string \<Rightarrow> string \<Rightarrow> string" where
  "memcpy_at off src dst = take off dst @ src @ drop (off + length src) dst"

definition MakeRopeString :: "string \<Rightarrow> rewrite_rope \<Rightarrow> (rope_piece \<times> rewrite_rope) option" where
  "MakeRopeString str r =
     (let Len = length str; a = NextAddr r in
      if Len = 0 then None
      else if AllocOffs r + Len \<le> AllocChunkSize
      then Some (\<lparr>StrData = AllocBuffer r, StartOffs = AllocOffs r, EndOffs = AllocOffs r + Len\<rparr>,
             r\<lparr>Heap := (Heap r)(AllocBuffer r := memcpy_at (AllocOffs r) str (Heap r (AllocBuffer r))),
               AllocOffs := AllocOffs r + Len\<rparr>)
      else if Len > AllocChunkSize
      then Some (\<lparr>StrData = a, StartOffs = 0, EndOffs = Len\<rparr>,
             r\<lparr>Heap := (Heap r)(a := str), NextAddr := a + 1\<rparr>)
      else Some (\<lparr>StrData = a, StartOffs = 0, EndOffs = Len\<rparr>,
             r\<lparr>Heap := (Heap r)(a := str), NextAddr := a + 1, AllocBuffer := a, AllocOffs := Len\<rparr>))"

definition RewriteRope_size :: "rewrite_rope \<Rightarrow> nat" where
  "RewriteRope_size r = node_size (Chunks r)"

definition RewriteRope_insert :: "nat \<Rightarrow> string \<Rightarrow> rewrite_rope \<Rightarrow> rewrite_rope option" where
  "RewriteRope_insert Offset str r =
     (if \<not> Offset \<le> RewriteRope_size r then None
      else if str = [] then Some r
      else case MakeRopeString str r of
        None \<Rightarrow> None
      | Some (R, r') \<Rightarrow> map_option (\<lambda>t. r'\<lparr>Chunks := t\<rparr>) (BTree_insert Offset R (Chunks r')))"

definition RewriteRope_erase :: "nat \<Rightarrow> nat \<Rightarrow> rewrite_rope \<Rightarrow> rewrite_rope option" where
  "RewriteRope_erase Offset NumBytes r =
     (if \<not> Offset + NumBytes \<le> RewriteRope_size r then None
      else if NumBytes = 0 then Some r
      else map_option (\<lambda>t. r\<lparr>Chunks := t\<rparr>) (BTree_erase Offset NumBytes (Chunks r)))"

definition RewriteRope_assign :: "string \<Rightarrow> rewrite_rope \<Rightarrow> rewrite_rope option" where
  "RewriteRope_assign str r =
     (let r0 = r\<lparr>Chunks := BTree_clear (Chunks r)\<rparr> in
      if str = [] then Some r0
      else case MakeRopeString str r0 of
        None \<Rightarrow> None
      | Some (R, r') \<Rightarrow> map_option (\<lambda>t. r'\<lparr>Chunks := t\<rparr>) (BTree_insert 0 R (Chunks r')))"

subsection \<open>The text of a rope\<close>

definition text_of :: "(nat \<Rightarrow> string) \<Rightarrow> (nat \<times> nat) list \<Rightarrow> string" where
  "text_of h bs = map (\<lambda>(a, i). h a ! i) bs"

definition rope_text :: "rewrite_rope \<Rightarrow> string" where
  "rope_text r = text_of (Heap r) (bytes (Chunks r))"

text \<open>
  Every byte of the tree lies in the written part of an allocated buffer, and the
  write position of the current buffer is the end of its written part.
\<close>

definition rope_alloc_ok :: "rewrite_rope \<Rightarrow> bool" where
  "rope_alloc_ok r \<longleftrightarrow>
     (\<forall>(a, i) \<in> set (bytes (Chunks r)). a < NextAddr r \<and> i < length (Heap r a)) \<and>
     (AllocOffs r < AllocChunkSize \<longrightarrow>
        AllocBuffer r < NextAddr r \<and> length (Heap r (AllocBuffer r)) = AllocOffs r)"

definition rope_inv :: "rewrite_rope \<Rightarrow> bool" where
  "rope_inv r \<longleftrightarrow> btree_inv (Chunks r) \<and> rope_alloc_ok r"

lemma text_of_simps [simp]:
  "text_of h (xs @ ys) = text_of h xs @ text_of h ys" "length (text_of h xs) = length xs"
  "take n (text_of h xs) = text_of h (take n xs)" "drop n (text_of h xs) = text_of h (drop n xs)"
  by (simp_all add: text_of_def take_map drop_map)

lemma RewriteRope_size_text: "rope_inv r \<Longrightarrow> RewriteRope_size r = length (rope_text r)"
  by (simp add: RewriteRope_size_def rope_text_def rope_inv_def btree_inv_size)

lemma text_of_piece:
  "text_of h (piece_bytes p) = map (\<lambda>i. h (StrData p) ! i) [StartOffs p ..< EndOffs p]"
  by (simp add: text_of_def piece_bytes_def)

lemma map_nth_range: "map (\<lambda>i. (xs @ str) ! i) [length xs ..< length xs + length str] = str"
  by (intro nth_equalityI) (simp_all add: nth_append)

text \<open>
  Aliasing: the new string lands in bytes no piece points to, so the text of every
  byte sequence that was valid before is unchanged.
\<close>

lemma MakeRopeString_ok:
  assumes ok: "rope_alloc_ok r" and str: "str \<noteq> []"
  obtains R r' where "MakeRopeString str r = Some (R, r')" "Chunks r' = Chunks r"
    "0 < piece_size R" "text_of (Heap r') (piece_bytes R) = str"
    "text_of (Heap r') (bytes (Chunks r)) = text_of (Heap r) (bytes (Chunks r))"
    "\<And>t. set (bytes t) \<subseteq> set (bytes (Chunks r)) \<union> set (piece_bytes R) \<Longrightarrow>
       rope_alloc_ok (r'\<lparr>Chunks := t\<rparr>)"
proof -
  let ?B = "bytes (Chunks r)"
  have valid: "a < NextAddr r" "i < length (Heap r a)" if "(a, i) \<in> set ?B" for a i
    using ok that by (auto simp: rope_alloc_ok_def)
  show ?thesis
  proof (cases "AllocOffs r + length str \<le> AllocChunkSize")
    case True
    with str have "AllocOffs r < AllocChunkSize" by (cases str) auto
    with ok have buf: "AllocBuffer r < NextAddr r" "length (Heap r (AllocBuffer r)) = AllocOffs r"
      by (auto simp: rope_alloc_ok_def)
    let ?b = "AllocBuffer r" and ?o = "AllocOffs r"
    let ?h = "(Heap r)(?b := Heap r ?b @ str)"
    let ?R = "\<lparr>StrData = ?b, StartOffs = ?o, EndOffs = ?o + length str\<rparr>"
    let ?r = "r\<lparr>Heap := ?h, AllocOffs := ?o + length str\<rparr>"
    have "MakeRopeString str r = Some (?R, ?r)"
      using True str buf by (simp add: MakeRopeString_def memcpy_at_def Let_def)
    moreover have "text_of ?h (piece_bytes ?R) = str"
      using map_nth_range [of "Heap r ?b" str] buf by (simp add: text_of_piece)
    moreover have "text_of ?h ?B = text_of (Heap r) ?B"
      using valid by (auto simp: text_of_def nth_append)
    moreover have "rope_alloc_ok (?r\<lparr>Chunks := t\<rparr>)"
      if "set (bytes t) \<subseteq> set ?B \<union> set (piece_bytes ?R)" for t
      using that valid buf by (fastforce simp: rope_alloc_ok_def piece_bytes_def)
    ultimately show ?thesis using that [of ?R ?r] str by (simp add: piece_size_def)
  next
    case False
    let ?a = "NextAddr r"
    let ?h = "(Heap r)(?a := str)" and ?R = "\<lparr>StrData = ?a, StartOffs = 0, EndOffs = length str\<rparr>"
    have new: "text_of ?h (piece_bytes ?R) = str" by (simp add: text_of_piece map_nth)
    have old: "text_of ?h ?B = text_of (Heap r) ?B"
      using valid by (force simp: text_of_def)
    show ?thesis
    proof (cases "length str > AllocChunkSize")
      case True
      let ?r = "r\<lparr>Heap := ?h, NextAddr := ?a + 1\<rparr>"
      have "MakeRopeString str r = Some (?R, ?r)"
        using True False str by (simp add: MakeRopeString_def Let_def)
      moreover have "rope_alloc_ok (?r\<lparr>Chunks := t\<rparr>)"
        if "set (bytes t) \<subseteq> set ?B \<union> set (piece_bytes ?R)" for t
        using that valid ok by (fastforce simp: rope_alloc_ok_def piece_bytes_def)
      ultimately show ?thesis using that [of ?R ?r] new old str by (simp add: piece_size_def)
    next
      case small: False
      let ?r = "r\<lparr>Heap := ?h, NextAddr := ?a + 1, AllocBuffer := ?a, AllocOffs := length str\<rparr>"
      have "MakeRopeString str r = Some (?R, ?r)"
        using small False str by (simp add: MakeRopeString_def Let_def)
      moreover have "rope_alloc_ok (?r\<lparr>Chunks := t\<rparr>)"
        if "set (bytes t) \<subseteq> set ?B \<union> set (piece_bytes ?R)" for t
        using that valid by (fastforce simp: rope_alloc_ok_def piece_bytes_def)
      ultimately show ?thesis using that [of ?R ?r] new old str by (simp add: piece_size_def)
    qed
  qed
qed

lemma RewriteRope_insert_ok:
  assumes inv: "rope_inv r" and off: "off \<le> length (rope_text r)"
  obtains r' where "RewriteRope_insert off str r = Some r'" "rope_inv r'"
    "rope_text r' = take off (rope_text r) @ str @ drop off (rope_text r)"
proof (cases "str = []")
  case True
  then show ?thesis using that [of r] inv off
    by (simp add: RewriteRope_insert_def RewriteRope_size_text)
next
  case False
  have bt: "btree_inv (Chunks r)" and al: "rope_alloc_ok r" using inv by (auto simp: rope_inv_def)
  have off': "off \<le> node_size (Chunks r)" using off inv RewriteRope_size_text RewriteRope_size_def by simp
  from MakeRopeString_ok [OF al False] obtain R r1 where m: "MakeRopeString str r = Some (R, r1)"
    "Chunks r1 = Chunks r" "0 < piece_size R" "text_of (Heap r1) (piece_bytes R) = str"
    "text_of (Heap r1) (bytes (Chunks r)) = text_of (Heap r) (bytes (Chunks r))"
    "\<And>t. set (bytes t) \<subseteq> set (bytes (Chunks r)) \<union> set (piece_bytes R) \<Longrightarrow>
       rope_alloc_ok (r1\<lparr>Chunks := t\<rparr>)" by blast
  from BTree_insert_ok [OF bt off' m(3)] obtain t where t: "BTree_insert off R (Chunks r) = Some t"
    "btree_inv t" "bytes t = take off (bytes (Chunks r)) @ piece_bytes R @ drop off (bytes (Chunks r))" .
  have "set (bytes t) \<subseteq> set (bytes (Chunks r)) \<union> set (piece_bytes R)"
    using t(3) by (auto dest: in_set_takeD in_set_dropD)
  then have "rope_inv (r1\<lparr>Chunks := t\<rparr>)" using m(6) t(2) by (simp add: rope_inv_def)
  moreover have "RewriteRope_insert off str r = Some (r1\<lparr>Chunks := t\<rparr>)"
    using False m(1,2) t(1) off inv by (simp add: RewriteRope_insert_def RewriteRope_size_text)
  moreover have "rope_text (r1\<lparr>Chunks := t\<rparr>) = take off (rope_text r) @ str @ drop off (rope_text r)"
    using t(3) m(4) by (simp add: rope_text_def flip: text_of_simps(3,4)) (simp add: m(5))
  ultimately show ?thesis using that by blast
qed

lemma RewriteRope_erase_gen:
  assumes inv: "rope_inv r" and n: "off + n \<le> length (rope_text r)"
  obtains r' where "RewriteRope_erase off n r = Some r'" "n < length (rope_text r) \<Longrightarrow> rope_inv r'"
    "rope_text r' = del_range off n (rope_text r)"
proof (cases "n = 0")
  case True
  then show ?thesis using that [of r] inv n
    by (simp add: RewriteRope_erase_def RewriteRope_size_text)
next
  case False
  then have pos: "0 < n" by simp
  have bt: "btree_inv (Chunks r)" and al: "rope_alloc_ok r" using inv by (auto simp: rope_inv_def)
  have sz: "node_size (Chunks r) = length (rope_text r)"
    using inv RewriteRope_size_text RewriteRope_size_def by simp
  from BTree_erase_gen [OF bt pos, of off] n sz obtain t h where
    t: "BTree_erase off n (Chunks r) = Some t" "bytes t = del_range off n (bytes (Chunks r))" by auto
  have "rope_inv (r\<lparr>Chunks := t\<rparr>)" if "n < length (rope_text r)"
  proof -
    from BTree_erase_ok [OF bt pos, of off] n sz that t(1) have "btree_inv t" by auto
    moreover have "set (bytes t) \<subseteq> set (bytes (Chunks r))"
      using t(2) by (auto simp: del_range_def dest: in_set_takeD in_set_dropD)
    ultimately show ?thesis using al by (fastforce simp: rope_inv_def rope_alloc_ok_def)
  qed
  moreover have "RewriteRope_erase off n r = Some (r\<lparr>Chunks := t\<rparr>)"
    using False t(1) n inv by (simp add: RewriteRope_erase_def RewriteRope_size_text)
  moreover have "rope_text (r\<lparr>Chunks := t\<rparr>) = del_range off n (rope_text r)"
    using t(2) by (simp add: rope_text_def del_range_def)
  ultimately show ?thesis using that by blast
qed

interpretation rope: text_buffer RewriteRope_insert RewriteRope_erase rope_text rope_inv
proof unfold_locales
  fix b b' :: rewrite_rope and off n :: nat and s :: string
  assume inv: "rope_inv b"
  {
    assume off: "off \<le> length (rope_text b)"
    from RewriteRope_insert_ok [OF inv off, of s] obtain r where r: "RewriteRope_insert off s b = Some r"
      "rope_inv r" "rope_text r = take off (rope_text b) @ s @ drop off (rope_text b)" .
    from r show "\<exists>b'. RewriteRope_insert off s b = Some b'" by blast
    assume "RewriteRope_insert off s b = Some b'"
    with r show "rope_inv b'" "rope_text b' = take off (rope_text b) @ s @ drop off (rope_text b)"
      by simp_all
  next
    assume n: "off + n \<le> length (rope_text b)"
    from RewriteRope_erase_gen [OF inv n] obtain r where r: "RewriteRope_erase off n b = Some r"
      "n < length (rope_text b) \<Longrightarrow> rope_inv r" "rope_text r = del_range off n (rope_text b)"
      by blast
    from r show "\<exists>b'. RewriteRope_erase off n b = Some b'" by blast
    assume "RewriteRope_erase off n b = Some b'"
    with r show "n < length (rope_text b) \<Longrightarrow> rope_inv b'"
      "rope_text b' = take off (rope_text b) @ drop (off + n) (rope_text b)"
      by (simp_all add: del_range_def)
  }
qed

lemma RewriteRope_assign_ok:
  assumes "rope_alloc_ok r"
  obtains r' where "RewriteRope_assign str r = Some r'" "rope_inv r'" "rope_text r' = str"
proof -
  let ?r0 = "r\<lparr>Chunks := BTree_clear (Chunks r)\<rparr>"
  have c: "BTree_clear (Chunks r) = BTree_init" by (cases "Chunks r") (auto simp: BTree_init_def)
  then have inv: "rope_inv ?r0" using assms by (auto simp: rope_inv_def rope_alloc_ok_def)
  have t0: "rope_text ?r0 = []" using c by (simp add: rope_text_def text_of_def)
  from RewriteRope_insert_ok [OF inv, of 0 str] obtain r' where
    "RewriteRope_insert 0 str ?r0 = Some r'" "rope_inv r'" "rope_text r' = str" using t0 by auto
  moreover have "RewriteRope_insert 0 str ?r0 = RewriteRope_assign str r"
    by (simp add: RewriteRope_insert_def RewriteRope_assign_def Let_def)
  ultimately show ?thesis using that by simp
qed

lemma rope_alloc_ok_init: "rope_alloc_ok RewriteRope_init"
  by (simp add: rope_alloc_ok_def RewriteRope_init_def)

lemma rope_inv_init: "rope_inv RewriteRope_init"
  using rope_alloc_ok_init by (simp add: rope_inv_def RewriteRope_init_def)


section \<open>Iterators\<close>

text \<open>
  A \<open>RopePieceBTreeIterator\<close>: the current leaf and the leaves after it (\<open>[]\<close> is the
  null leaf pointer of \<open>end()\<close>), the index of the current piece, the current byte.
\<close>

record rope_iterator =
  CurLeaves :: "rope_piece list list"
  CurPiece :: nat
  CurChar :: nat

fun leaves :: "rope_node \<Rightarrow> rope_piece list list" where
  "leaves (RLeaf s ps) = [ps]"
| "leaves (RInterior s cs) = concat (map leaves cs)"

text \<open>\<open>while (IN = dyn_cast<Interior>(N)) N = IN->getChild(0);\<close>\<close>

fun first_leaf :: "rope_node \<Rightarrow> rope_piece list option" where
  "first_leaf (RLeaf s ps) = Some ps"
| "first_leaf (RInterior s []) = None"
| "first_leaf (RInterior s (c # cs)) = first_leaf c"

text \<open>\<open>while (CurNode && getNumPieces() == 0) CurNode = getNextLeafInOrder();\<close>\<close>

definition skip_empty :: "rope_piece list list \<Rightarrow> rope_iterator" where
  "skip_empty ls = \<lparr>CurLeaves = dropWhile (\<lambda>ps. ps = []) ls, CurPiece = 0, CurChar = 0\<rparr>"

definition rope_begin :: "rope_node \<Rightarrow> rope_iterator option" where
  "rope_begin Root = (case first_leaf Root of None \<Rightarrow> None | Some _ \<Rightarrow> Some (skip_empty (leaves Root)))"

definition at_end :: "rope_iterator \<Rightarrow> bool" where
  "at_end it \<longleftrightarrow> CurLeaves it = []"

definition MoveToNextPiece :: "rope_iterator \<Rightarrow> rope_iterator" where
  "MoveToNextPiece it =
     (if CurPiece it \<noteq> length (hd (CurLeaves it)) - 1
      then it\<lparr>CurChar := 0, CurPiece := CurPiece it + 1\<rparr>
      else skip_empty (tl (CurLeaves it)))"

definition iter_piece :: "rope_iterator \<Rightarrow> rope_piece" where
  "iter_piece it = hd (CurLeaves it) ! CurPiece it"

definition iter_next :: "rope_iterator \<Rightarrow> rope_iterator" where
  "iter_next it =
     (if CurChar it + 1 < piece_size (iter_piece it) then it\<lparr>CurChar := CurChar it + 1\<rparr>
      else MoveToNextPiece it)"

definition iter_byte :: "rope_iterator \<Rightarrow> nat \<times> nat" where
  "iter_byte it = (StrData (iter_piece it), CurChar it + StartOffs (iter_piece it))"

text \<open>Reading \<open>n\<close> bytes from an iterator, or up to \<open>end()\<close>.\<close>

fun iter_read :: "nat \<Rightarrow> rope_iterator \<Rightarrow> (nat \<times> nat) list" where
  "iter_read 0 it = []"
| "iter_read (Suc n) it = (if at_end it then [] else iter_byte it # iter_read n (iter_next it))"

definition iter_rest :: "rope_iterator \<Rightarrow> (nat \<times> nat) list" where
  "iter_rest it = (case CurLeaves it of
     [] \<Rightarrow> []
   | l # ls \<Rightarrow> drop (CurChar it) (piece_bytes (l ! CurPiece it)) @
       pieces_bytes (drop (Suc (CurPiece it)) l) @ pieces_bytes (concat ls))"

definition iter_ok :: "rope_iterator \<Rightarrow> bool" where
  "iter_ok it \<longleftrightarrow> (\<forall>l \<in> set (CurLeaves it). \<forall>p \<in> set l. 0 < piece_size p) \<and>
     (case CurLeaves it of
        [] \<Rightarrow> True
      | l # ls \<Rightarrow> CurPiece it < length l \<and> CurChar it < piece_size (l ! CurPiece it))"

lemma skip_empty_ok:
  assumes "\<forall>l \<in> set ls. \<forall>p \<in> set l. 0 < piece_size p"
  shows "iter_ok (skip_empty ls)" "iter_rest (skip_empty ls) = pieces_bytes (concat ls)"
proof -
  have "iter_ok (skip_empty ls) \<and> iter_rest (skip_empty ls) = pieces_bytes (concat ls)"
    using assms
  proof (induction ls)
    case Nil
    then show ?case by (simp add: iter_ok_def iter_rest_def skip_empty_def)
  next
    case (Cons l ls)
    then show ?case
      by (cases l) (auto simp: iter_ok_def iter_rest_def skip_empty_def)
  qed
  then show "iter_ok (skip_empty ls)" "iter_rest (skip_empty ls) = pieces_bytes (concat ls)"
    by simp_all
qed

lemma MoveToNextPiece_ok:
  assumes "iter_ok it" "CurLeaves it = l # ls"
  shows "iter_ok (MoveToNextPiece it)"
    and "iter_rest (MoveToNextPiece it) = pieces_bytes (drop (Suc (CurPiece it)) l) @ pieces_bytes (concat ls)"
proof -
  have "iter_ok (MoveToNextPiece it) \<and>
    iter_rest (MoveToNextPiece it) = pieces_bytes (drop (Suc (CurPiece it)) l) @ pieces_bytes (concat ls)"
  proof (cases "CurPiece it = length l - 1")
    case True
    with assms have "MoveToNextPiece it = skip_empty ls" "drop (Suc (CurPiece it)) l = []"
      by (auto simp: MoveToNextPiece_def iter_ok_def)
    with assms skip_empty_ok [of ls] show ?thesis by (simp add: iter_ok_def)
  next
    case False
    with assms have lt: "Suc (CurPiece it) < length l" by (auto simp: iter_ok_def)
    then have "drop (Suc (CurPiece it)) l = l ! Suc (CurPiece it) # drop (Suc (Suc (CurPiece it))) l"
      by (simp add: Cons_nth_drop_Suc)
    with False assms lt show ?thesis
      by (auto simp: MoveToNextPiece_def iter_ok_def iter_rest_def)
  qed
  then show "iter_ok (MoveToNextPiece it)"
    and "iter_rest (MoveToNextPiece it) = pieces_bytes (drop (Suc (CurPiece it)) l) @ pieces_bytes (concat ls)"
    by simp_all
qed

lemma iter_next_ok:
  assumes ok: "iter_ok it" and ne: "\<not> at_end it"
  shows "iter_rest it = iter_byte it # iter_rest (iter_next it) \<and> iter_ok (iter_next it)"
proof -
  from ne obtain l ls where l: "CurLeaves it = l # ls" by (auto simp: at_end_def neq_Nil_conv)
  let ?p = "l ! CurPiece it"
  have c: "CurPiece it < length l" "CurChar it < piece_size ?p" using ok l by (simp_all add: iter_ok_def)
  have "drop (CurChar it) (piece_bytes ?p) = iter_byte it # drop (Suc (CurChar it)) (piece_bytes ?p)"
    using c l by (subst Cons_nth_drop_Suc [symmetric])
      (auto simp: piece_bytes_def iter_byte_def iter_piece_def piece_size_def add.commute)
  then have eq: "iter_rest it = iter_byte it # drop (Suc (CurChar it)) (piece_bytes ?p) @
      pieces_bytes (drop (Suc (CurPiece it)) l) @ pieces_bytes (concat ls)"
    using l by (simp add: iter_rest_def)
  show ?thesis
  proof (cases "Suc (CurChar it) < piece_size ?p")
    case True
    with eq ok l show ?thesis
      by (simp add: iter_next_def iter_piece_def iter_ok_def) (simp add: iter_rest_def)
  next
    case False
    with eq ok l MoveToNextPiece_ok [OF ok l] show ?thesis
      by (simp add: iter_next_def iter_piece_def)
  qed
qed

lemma iter_read_ok: "iter_ok it \<Longrightarrow> iter_read n it = take n (iter_rest it)"
proof (induction n arbitrary: it)
  case 0
  then show ?case by simp
next
  case (Suc n)
  show ?case
  proof (cases "at_end it")
    case True
    then show ?thesis by (simp add: at_end_def iter_rest_def)
  next
    case False
    with iter_next_ok [OF Suc.prems] Suc.IH [of "iter_next it"] show ?thesis by simp
  qed
qed

lemma concat_leaves_children:
  "(\<And>c. c \<in> set cs \<Longrightarrow> concat (leaves c) = pieces c) \<Longrightarrow>
    concat (concat (map leaves cs)) = concat (map pieces cs)"
  by (induction cs) auto

lemma leaves_pieces: "concat (leaves t) = pieces t"
  by (induction t) (auto intro: concat_leaves_children)

lemma first_leaf_defined: "rope_ok h t \<Longrightarrow> (\<And>s. t \<noteq> RInterior s []) \<Longrightarrow> first_leaf t \<noteq> None"
proof (induction h arbitrary: t)
  case 0
  then show ?case by (cases t) auto
next
  case (Suc h)
  then obtain s c cs where t: "t = RInterior s (c # cs)"
    by (cases t rule: first_leaf.cases) auto
  with Suc.prems have c: "rope_ok h c" "0 < node_size c" by auto
  have "c \<noteq> RInterior s' []" for s' using c by (cases h) auto
  with Suc.IH [OF c(1)] t show ?case by simp
qed

lemma pieces_nonempty: "rope_ok h t \<Longrightarrow> p \<in> set (pieces t) \<Longrightarrow> 0 < piece_size p"
  by (induction h t rule: rope_ok.induct) auto

lemma rope_begin_ok:
  assumes "btree_inv t"
  obtains it where "rope_begin t = Some it" "iter_ok it" "iter_rest it = bytes t"
proof -
  from assms obtain h where h: "rope_ok h t" by (auto simp: btree_inv_def)
  with assms have "first_leaf t \<noteq> None" by (intro first_leaf_defined) (auto simp: btree_inv_def)
  then have "rope_begin t = Some (skip_empty (leaves t))" by (auto simp: rope_begin_def)
  moreover have "\<forall>l \<in> set (leaves t). \<forall>p \<in> set l. 0 < piece_size p"
  proof (intro ballI)
    fix l p assume "l \<in> set (leaves t)" "p \<in> set l"
    then have "p \<in> set (concat (leaves t))" by auto
    then show "0 < piece_size p" using pieces_nonempty [OF h] leaves_pieces by simp
  qed
  ultimately show ?thesis
    using skip_empty_ok [of "leaves t"] that leaves_pieces [of t] by (simp add: bytes_def)
qed

lemma rope_begin_read:
  assumes "btree_inv t"
  shows "\<exists>it. rope_begin t = Some it \<and> iter_read n it = take n (bytes t)"
  using rope_begin_ok [OF assms] iter_read_ok by metis

section \<open>Properties\<close>



text \<open>
  C4. Erasing a range inside the rope succeeds and cuts exactly that range out of the
  text, across pieces, leaves and interior nodes; unless everything is erased the tree
  stays well formed.
\<close>

theorem RewriteRope_erase_cuts:
  assumes "rope_inv r" "off + n \<le> length (rope_text r)"
  shows "\<exists>r'. RewriteRope_erase off n r = Some r' \<and> (n < length (rope_text r) \<longrightarrow> rope_inv r') \<and>
    rope_text r' = take off (rope_text r) @ drop (off + n) (rope_text r)"
  using RewriteRope_erase_gen [OF assms] by (metis del_range_def)

lemma assigned_rope:
  obtains r where "RewriteRope_assign str RewriteRope_init = Some r" "rope_inv r" "rope_text r = str"
  by (rule RewriteRope_assign_ok [OF rope_alloc_ok_init])

theorem RewriteRope_erase_cuts_witness:
  "\<exists>r r'. RewriteRope_assign ''abcd'' RewriteRope_init = Some r \<and> RewriteRope_erase 1 2 r = Some r' \<and>
     rope_text r' = ''ad''"
proof -
  obtain r where "RewriteRope_assign ''abcd'' RewriteRope_init = Some r" "rope_inv r" "rope_text r = ''abcd''"
    by (rule assigned_rope)
  with RewriteRope_erase_cuts [of r 1 2] show ?thesis by auto
qed

text \<open>
  C5. Erasing the whole text of a rope whose root is an interior node leaves a root
  without children: the next insertion fails the bounds assertion of \<open>getChild\<close>, and so
  does \<open>begin()\<close>.
\<close>

theorem erase_all_breaks_root:
  assumes "btree_inv (RInterior s cs)"
  shows "BTree_erase 0 s (RInterior s cs) = Some (RInterior 0 []) \<and>
    BTree_insert 0 R (RInterior 0 []) = None \<and> rope_begin (RInterior 0 []) = None"
  using BTree_erase_all [OF assms] by (simp add: rope_begin_def)

text \<open>Two leaves with one piece each under an interior root.\<close>

definition two_leaf_rope :: rope_node where
  "two_leaf_rope = RInterior 4 [RLeaf 2 [\<lparr>StrData = 1, StartOffs = 0, EndOffs = 2\<rparr>],
     RLeaf 2 [\<lparr>StrData = 1, StartOffs = 2, EndOffs = 4\<rparr>]]"

theorem erase_all_breaks_root_witness:
  "BTree_erase 0 4 two_leaf_rope = Some (RInterior 0 []) \<and> rope_begin (RInterior 0 []) = None"
proof -
  have "rope_ok (Suc 0) two_leaf_rope" by (simp add: two_leaf_rope_def piece_size_def)
  then have "btree_inv two_leaf_rope" unfolding btree_inv_def two_leaf_rope_def by blast
  then show ?thesis
    using erase_all_breaks_root [of 4 "[RLeaf 2 [\<lparr>StrData = 1, StartOffs = 0, EndOffs = 2\<rparr>],
      RLeaf 2 [\<lparr>StrData = 1, StartOffs = 2, EndOffs = 4\<rparr>]]"] by (simp add: two_leaf_rope_def)
qed

text \<open>
  The iterator visits the bytes of the tree in order: from \<open>begin()\<close>, \<open>n\<close> steps read
  the first \<open>n\<close> bytes, and the iterator equals \<open>end()\<close> exactly when they are used up.
\<close>

theorem iterator_reads_rope:
  assumes "btree_inv t"
  shows "\<exists>it. rope_begin t = Some it \<and> iter_read n it = take n (bytes t) \<and> (at_end it \<longleftrightarrow> bytes t = [])"
proof -
  obtain it where it: "rope_begin t = Some it" "iter_ok it" "iter_rest it = bytes t"
    by (rule rope_begin_ok [OF assms])
  moreover have "at_end it \<longleftrightarrow> bytes t = []"
    using it(2,3) iter_next_ok [OF it(2)] by (cases "at_end it") (auto simp: at_end_def iter_rest_def)
  ultimately show ?thesis using iter_read_ok by metis
qed

theorem iterator_reads_rope_witness:
  "\<exists>it. rope_begin two_leaf_rope = Some it \<and> iter_read 3 it = [(1, 0), (1, 1), (1, 2)]"
proof -
  have "rope_ok (Suc 0) two_leaf_rope" by (simp add: two_leaf_rope_def piece_size_def)
  then have "btree_inv two_leaf_rope" unfolding btree_inv_def two_leaf_rope_def by blast
  from iterator_reads_rope [OF this, of 3] show ?thesis
    by (auto simp: two_leaf_rope_def bytes_def pieces_bytes_def piece_bytes_def upt_rec)
qed

end
