(* ===== verification/RewriteBuffer.thy ===== *)
theory RewriteBuffer
  imports DeltaTree RewriteRope
begin

text \<open>
  \<open>lib/Rewrite/Rewriter.cpp\<close> and \<open>include/latino/Rewrite/Core/RewriteBuffer.h\<close>: the
  buffer an edit script is applied to.  Edits name offsets of the original file; the
  delta tree maps an original offset to the present one.  Offset \<open>o\<close> owns two keys of
  the tree, \<open>2 * o\<close> for text inserted at \<open>o\<close> and \<open>2 * o + 1\<close> for text removed from
  \<open>o\<close> on, so that a query can ask for the place before or after the insertions at \<open>o\<close>.
  \<open>None\<close> is a failed assertion.
\<close>

section \<open>Operations\<close>

record rewrite_buffer =
  Deltas :: delta_node
  Buffer :: rewrite_rope

definition RewriteBuffer_init :: rewrite_buffer where
  "RewriteBuffer_init = \<lparr>Deltas = DeltaTree_init, Buffer = RewriteRope_init\<rparr>"

definition RewriteBuffer_Initialize :: "string \<Rightarrow> rewrite_buffer \<Rightarrow> rewrite_buffer option" where
  "RewriteBuffer_Initialize Input rb =
     map_option (\<lambda>b. rb\<lparr>Buffer := b\<rparr>) (RewriteRope_assign Input (Buffer rb))"

definition getMappedOffset :: "u32 \<Rightarrow> bool \<Rightarrow> rewrite_buffer \<Rightarrow> u32 option" where
  "getMappedOffset OrigOffset AfterInserts rb =
     map_option (\<lambda>d. word_of_int d + OrigOffset)
       (getDeltaAt (2 * OrigOffset + (if AfterInserts then 1 else 0)) (Deltas rb))"

definition AddInsertDelta :: "u32 \<Rightarrow> int \<Rightarrow> rewrite_buffer \<Rightarrow> rewrite_buffer option" where
  "AddInsertDelta OrigOffset Change rb =
     map_option (\<lambda>t. rb\<lparr>Deltas := t\<rparr>) (AddDelta (2 * OrigOffset) Change (Deltas rb))"

definition AddReplaceDelta :: "u32 \<Rightarrow> int \<Rightarrow> rewrite_buffer \<Rightarrow> rewrite_buffer option" where
  "AddReplaceDelta OrigOffset Change rb =
     map_option (\<lambda>t. rb\<lparr>Deltas := t\<rparr>) (AddDelta (2 * OrigOffset + 1) Change (Deltas rb))"

definition with_buffer :: "(rewrite_rope \<Rightarrow> rewrite_rope option) \<Rightarrow> rewrite_buffer \<Rightarrow> rewrite_buffer option" where
  "with_buffer f rb = map_option (\<lambda>b. rb\<lparr>Buffer := b\<rparr>) (f (Buffer rb))"

text \<open>The conversion of an \<open>unsigned\<close> or \<open>size_t\<close> difference to the \<open>int Change\<close>.\<close>

definition to_int :: "int \<Rightarrow> int" where
  "to_int i = sint (word_of_int i :: u32)"

definition InsertText :: "u32 \<Rightarrow> string \<Rightarrow> bool \<Rightarrow> rewrite_buffer \<Rightarrow> rewrite_buffer option" where
  "InsertText OrigOffset Str InsertAfter rb =
     (if Str = [] then Some rb
      else Option.bind (getMappedOffset OrigOffset InsertAfter rb) (\<lambda>RealOffset.
        Option.bind (with_buffer (RewriteRope_insert (unat RealOffset) Str) rb) (\<lambda>rb1.
          AddInsertDelta OrigOffset (to_int (int (length Str))) rb1)))"

text \<open>\<open>if (OrigLength != NewStr.size()) AddReplaceDelta(...)\<close> closes \<open>ReplaceText\<close>.\<close>

definition ReplaceText :: "u32 \<Rightarrow> u32 \<Rightarrow> string \<Rightarrow> rewrite_buffer \<Rightarrow> rewrite_buffer option" where
  "ReplaceText OrigOffset OrigLength NewStr rb =
     Option.bind (getMappedOffset OrigOffset True rb) (\<lambda>RealOffset.
       Option.bind (with_buffer (RewriteRope_erase (unat RealOffset) (unat OrigLength)) rb) (\<lambda>rb1.
         Option.bind (with_buffer (RewriteRope_insert (unat RealOffset) NewStr) rb1) (\<lambda>rb2.
           if unat OrigLength \<noteq> length NewStr
           then AddReplaceDelta OrigOffset (to_int (int (length NewStr) - uint OrigLength)) rb2
           else Some rb2)))"

definition isWhitespaceExceptNL :: "char \<Rightarrow> bool" where
  "isWhitespaceExceptNL c \<longleftrightarrow> c \<in> {CHR '' '', CHR 0x09, CHR 0x0C, CHR 0x0B, CHR 0x0D}"

definition rope_char :: "rewrite_rope \<Rightarrow> rope_iterator \<Rightarrow> char" where
  "rope_char r it = (case iter_byte it of (a, i) \<Rightarrow> Heap r a ! i)"

text \<open>
  The scan for the start of the line: \<open>n\<close> steps are left, the iterator is at offset
  \<open>i\<close>, and the line that is known to begin last begins at \<open>ls\<close> with offset \<open>lo\<close>.
\<close>

fun find_line_start :: "rewrite_rope \<Rightarrow> nat \<Rightarrow> nat \<Rightarrow> rope_iterator \<Rightarrow> rope_iterator \<times> nat \<Rightarrow>
    (rope_iterator \<times> nat) option" where
  "find_line_start r 0 i posI cur = Some cur"
| "find_line_start r (Suc n) i posI cur =
     (if at_end posI then None
      else find_line_start r n (Suc i) (iter_next posI)
        (if rope_char r posI = CHR 0x0A then (iter_next posI, Suc i) else cur))"

text \<open>
  The loop over the blanks of the line.  \<open>fuel\<close> bounds the characters that are left; the
  size of the rope is enough.
\<close>

fun blank_line_size :: "rewrite_rope \<Rightarrow> nat \<Rightarrow> rope_iterator \<Rightarrow> (rope_iterator \<times> nat) option" where
  "blank_line_size r fuel posI =
     (if \<not> at_end posI \<and> isWhitespaceExceptNL (rope_char r posI)
      then case fuel of
          0 \<Rightarrow> None
        | Suc n \<Rightarrow> map_option (\<lambda>(it, k). (it, Suc k)) (blank_line_size r n (iter_next posI))
      else Some (posI, 0))"

declare blank_line_size.simps [simp del]

definition remove_blank_line :: "nat \<Rightarrow> rewrite_buffer \<Rightarrow> rewrite_buffer option" where
  "remove_blank_line RealOffset rb =
     (let r = Buffer rb in
      Option.bind (rope_begin (Chunks r)) (\<lambda>it0.
      Option.bind (find_line_start r RealOffset 0 it0 (it0, 0)) (\<lambda>(curLineStart, curLineStartOffs).
      Option.bind (blank_line_size r (RewriteRope_size r) curLineStart) (\<lambda>(posI, lineSize).
        if \<not> at_end posI \<and> rope_char r posI = CHR 0x0A
        then Option.bind (with_buffer (RewriteRope_erase curLineStartOffs (lineSize + 1)) rb) (\<lambda>rb1.
          AddReplaceDelta (of_nat curLineStartOffs) (to_int (- int (lineSize + 1))) rb1)
        else Some rb))))"

definition RemoveText :: "u32 \<Rightarrow> u32 \<Rightarrow> bool \<Rightarrow> rewrite_buffer \<Rightarrow> rewrite_buffer option" where
  "RemoveText OrigOffset Size removeLineIfEmpty rb =
     (if Size = 0 then Some rb
      else Option.bind (getMappedOffset OrigOffset True rb) (\<lambda>RealOffset.
        if \<not> unat (RealOffset + Size) \<le> RewriteRope_size (Buffer rb) then None
        else Option.bind (with_buffer (RewriteRope_erase (unat RealOffset) (unat Size)) rb) (\<lambda>rb1.
          Option.bind (AddReplaceDelta OrigOffset (to_int (- uint Size)) rb1) (\<lambda>rb2.
            if removeLineIfEmpty then remove_blank_line (unat RealOffset) rb2 else Some rb2))))"

text \<open>\<open>write\<close>: the pieces from \<open>begin()\<close> on, one \<open>MoveToNextPiece\<close> at a time.\<close>

definition iter_piece_text :: "rewrite_rope \<Rightarrow> rope_iterator \<Rightarrow> string" where
  "iter_piece_text r it = (let p = iter_piece it in
     take (piece_size p) (drop (StartOffs p) (Heap r (StrData p))))"

partial_function (option) write_pieces :: "rewrite_rope \<Rightarrow> rope_iterator \<Rightarrow> string option" where
  "write_pieces r it =
     (if at_end it then Some []
      else Option.bind (write_pieces r (MoveToNextPiece it)) (\<lambda>s. Some (iter_piece_text r it @ s)))"

definition RewriteBuffer_write :: "rewrite_buffer \<Rightarrow> string option" where
  "RewriteBuffer_write rb = Option.bind (rope_begin (Chunks (Buffer rb))) (write_pieces (Buffer rb))"

definition RewriteBuffer_size :: "rewrite_buffer \<Rightarrow> nat" where
  "RewriteBuffer_size rb = RewriteRope_size (Buffer rb)"

section \<open>What the buffer tracks\<close>

text \<open>
  \<open>orig\<close> is the original file, \<open>txt\<close> the present text and \<open>mp o a\<close> the present place of
  the original offset \<open>o\<close>, after the insertions made at \<open>o\<close> when \<open>a\<close> holds.  \<open>L\<close> is the
  set of the original characters that are still there and \<open>V\<close> the set of the offsets
  an edit may still name: the live ones, the end of the file and the start of every
  removed range.
\<close>

definition tracks :: "string \<Rightarrow> (nat \<Rightarrow> bool \<Rightarrow> int) \<Rightarrow> string \<Rightarrow> nat set \<Rightarrow> nat set \<Rightarrow> bool" where
  "tracks orig mp txt V L \<longleftrightarrow>
     L \<subseteq> V \<and> V \<subseteq> {..length orig} \<and> L \<subseteq> {..<length orig} \<and>
     (\<forall>k \<in> V. 0 \<le> mp k False \<and> mp k False \<le> mp k True \<and> mp k True \<le> int (length txt)) \<and>
     (\<forall>k \<in> L. mp k True < int (length txt) \<and> txt ! nat (mp k True) = orig ! k) \<and>
     (\<forall>k \<in> V. \<forall>k' \<in> V. k < k' \<longrightarrow> mp k True + (if k \<in> L then 1 else 0) \<le> mp k' False)"

lemma tracksI:
  assumes "L \<subseteq> V" "V \<subseteq> {..length orig}" "L \<subseteq> {..<length orig}"
    and V: "\<And>k. k \<in> V \<Longrightarrow> 0 \<le> mp k False \<and> mp k False \<le> mp k True \<and> mp k True \<le> int (length txt)"
    and L: "\<And>k. k \<in> L \<Longrightarrow> mp k True < int (length txt) \<and> txt ! nat (mp k True) = orig ! k"
    and VV: "\<And>k k'. k \<in> V \<Longrightarrow> k' \<in> V \<Longrightarrow> k < k' \<Longrightarrow>
      mp k True + (if k \<in> L then 1 else 0) \<le> mp k' False"
  shows "tracks orig mp txt V L"
  unfolding tracks_def by (intro conjI ballI impI assms V [THEN conjunct1] V [THEN conjunct2, THEN conjunct1]
      V [THEN conjunct2, THEN conjunct2] L [THEN conjunct1] L [THEN conjunct2] VV)

lemma tracks_sets: "tracks orig mp txt V L \<Longrightarrow> L \<subseteq> V \<and> V \<subseteq> {..length orig} \<and> L \<subseteq> {..<length orig}"
  by (simp add: tracks_def)

lemma tracks_V: "tracks orig mp txt V L \<Longrightarrow> k \<in> V \<Longrightarrow>
    k \<le> length orig \<and> 0 \<le> mp k False \<and> mp k False \<le> mp k True \<and> mp k True \<le> int (length txt)"
  by (auto simp: tracks_def)

lemma tracks_L: "tracks orig mp txt V L \<Longrightarrow> k \<in> L \<Longrightarrow>
    k \<in> V \<and> k < length orig \<and> mp k True < int (length txt) \<and> txt ! nat (mp k True) = orig ! k"
  by (auto simp: tracks_def)

lemma tracks_less: "tracks orig mp txt V L \<Longrightarrow> k \<in> V \<Longrightarrow> k' \<in> V \<Longrightarrow> k < k' \<Longrightarrow>
    mp k True \<le> mp k' False \<and> (k \<in> L \<longrightarrow> mp k True + 1 \<le> mp k' False)"
proof -
  assume a: "tracks orig mp txt V L" "k \<in> V" "k' \<in> V" "k < k'"
  have "mp k True + (if k \<in> L then 1 else 0) \<le> mp k' False"
    using a unfolding tracks_def by blast
  then show "mp k True \<le> mp k' False \<and> (k \<in> L \<longrightarrow> mp k True + 1 \<le> mp k' False)"
    by (cases "k \<in> L") simp_all
qed

lemma tracks_initial:
  assumes "\<And>k a. k \<le> length orig \<Longrightarrow> mp k a = int k"
  shows "tracks orig mp orig {..length orig} {..<length orig}"
  using assms by (auto simp: tracks_def)

lemma nth_splice_left: "i < p \<Longrightarrow> p \<le> length xs \<Longrightarrow> (take p xs @ s @ ys) ! i = xs ! i"
  by (simp add: nth_append)

lemma nth_splice_right:
  "p + n \<le> i \<Longrightarrow> i < length xs \<Longrightarrow> j + n = i + length s \<Longrightarrow> p \<le> length xs \<Longrightarrow>
    (take p xs @ s @ drop (p + n) xs) ! j = xs ! i"
  (is "_ \<Longrightarrow> _ \<Longrightarrow> _ \<Longrightarrow> _ \<Longrightarrow> ?thesis")
proof -
  assume a: "p + n \<le> i" "i < length xs" "j + n = i + length s" "p \<le> length xs"
  then have "\<not> j < p" "\<not> j - p < length s" "p + n + (j - p - length s) = i" "p + n \<le> length xs" by linarith+
  with a(4) show ?thesis by (simp add: nth_append)
qed

lemma tracks_insert:
  assumes t: "tracks orig mp txt V L" and k: "k \<in> V" and p: "int p = mp k a"
    and mp': "\<And>j b. j \<in> V \<Longrightarrow> mp' j b = mp j b + (if k < j \<or> k = j \<and> b then int (length s) else 0)"
  shows "tracks orig mp' (take p txt @ s @ drop p txt) V L"
proof -
  let ?txt = "take p txt @ s @ drop p txt"
  have pk: "p \<le> length txt" "mp k False \<le> int p" "int p \<le> mp k True"
    using tracks_V [OF t k] p by ((cases a, simp_all) [])+
  have len: "length ?txt = length txt + length s" using pk by simp
  have V: "0 \<le> mp' j False \<and> mp' j False \<le> mp' j True \<and> mp' j True \<le> int (length ?txt)" if "j \<in> V" for j
    using tracks_V [OF t that] mp' [OF that] len by (auto split: if_splits)
  have L: "mp' j True < int (length ?txt) \<and> ?txt ! nat (mp' j True) = orig ! j" if j: "j \<in> L" for j
  proof -
    from tracks_L [OF t j] have jV: "j \<in> V" and old: "mp j True < int (length txt)"
      "txt ! nat (mp j True) = orig ! j" by auto
    have pos: "0 \<le> mp j True" using tracks_V [OF t jV] by linarith
    show ?thesis
    proof (cases "j < k")
      case True
      have "mp j True + 1 \<le> mp k False" using tracks_less [OF t jV k True] j by simp
      with pk pos have "nat (mp j True) < p" by linarith
      with True mp' [OF jV] old pk show ?thesis by (simp add: nth_splice_left)
    next
      case False
      have "int p \<le> mp j True"
      proof (cases "j = k")
        case False
        with \<open>\<not> j < k\<close> have "k < j" by simp
        from tracks_less [OF t k jV this] tracks_V [OF t jV] pk show ?thesis by linarith
      qed (use pk in simp)
      moreover have "mp' j True = mp j True + int (length s)" using False mp' [OF jV] by auto
      moreover have "?txt ! nat (mp' j True) = txt ! nat (mp j True)"
        using nth_splice_right [of p 0 "nat (mp j True)" "txt" "nat (mp' j True)" s] calculation old pos pk
        by (simp add: nat_add_distrib le_nat_iff nat_less_iff)
      ultimately show ?thesis using old len by simp
    qed
  qed
  have VV: "mp' i True + (if i \<in> L then 1 else 0) \<le> mp' j False" if "i \<in> V" "j \<in> V" "i < j" for i j
  proof -
    have "mp' i True \<le> mp i True + (if k < j then int (length s) else 0)"
      using mp' [OF that(1), of True] that(3) by auto
    moreover have "mp' j False = mp j False + (if k < j then int (length s) else 0)"
      using mp' [OF that(2), of False] by simp
    moreover note tracks_less [OF t that]
    ultimately show ?thesis by (cases "i \<in> L") simp_all
  qed
  show ?thesis using tracks_sets [OF t] by (intro tracksI V L VV) blast+
qed

lemma tracks_replace:
  assumes t: "tracks orig mp txt V L" and n: "0 < n" and k: "{k..<k + n} \<subseteq> L" and p: "int p = mp k True"
    and run: "\<And>i. i < n \<Longrightarrow> mp (k + i) True = mp k True + int i"
    and mp': "\<And>j b. j \<in> V \<Longrightarrow> mp' j b = mp j b + (if k < j then int (length s) - int n else 0)"
  shows "tracks orig mp' (take p txt @ s @ drop (p + n) txt) (V - {k<..<k + n}) (L - {k..<k + n})"
proof -
  let ?txt = "take p txt @ s @ drop (p + n) txt"
  have kL: "k \<in> L" using k n by auto
  then have kV: "k \<in> V" using tracks_L [OF t] by blast
  have "k + n - 1 \<in> {k..<k + n}" using n by auto
  with k have lastL: "k + n - 1 \<in> L" by blast
  have last: "k + n - 1 \<in> L" "k + n - 1 \<in> V" "mp (k + n - 1) True = int p + int n - 1"
    using lastL tracks_L [OF t lastL] run [of "n - 1"] n p by auto
  have pn: "p + n \<le> length txt" using tracks_L [OF t last(1)] last(3) n by linarith
  have len: "length ?txt + n = length txt + length s" using pn by simp
  have right: "int p + int n \<le> mp j False" if "j \<in> V" "k + n \<le> j" for j
    using tracks_less [OF t last(2) that(1)] that(2) last n by simp
  have V: "0 \<le> mp' j False \<and> mp' j False \<le> mp' j True \<and> mp' j True \<le> int (length ?txt)"
    if j: "j \<in> V - {k<..<k + n}" for j
  proof (cases "k < j")
    case True
    with j have "j \<in> V" "k + n \<le> j" by auto
    with right [OF this] tracks_V [OF t, of j] mp' [of j] True len show ?thesis by auto
  next
    case False
    with j have jV: "j \<in> V" by auto
    have "mp j True \<le> int p"
    proof (cases "j = k")
      case False
      with \<open>\<not> k < j\<close> have "j < k" by simp
      from tracks_less [OF t jV kV this] tracks_V [OF t kV] p show ?thesis by linarith
    qed (use p in simp)
    with tracks_V [OF t jV] mp' [OF jV] False pn show ?thesis by auto
  qed
  have L: "mp' j True < int (length ?txt) \<and> ?txt ! nat (mp' j True) = orig ! j"
    if j: "j \<in> L - {k..<k + n}" for j
  proof -
    from j tracks_L [OF t, of j] have jV: "j \<in> V" and old: "mp j True < int (length txt)"
      "txt ! nat (mp j True) = orig ! j" by auto
    have pos: "0 \<le> mp j True" using tracks_V [OF t jV] by linarith
    show ?thesis
    proof (cases "j < k")
      case True
      have "mp j True + 1 \<le> mp k False" using tracks_less [OF t jV kV True] j by simp
      with p pos tracks_V [OF t kV] have "nat (mp j True) < p" by linarith
      with True mp' [OF jV] old pn pos show ?thesis by (simp add: nth_splice_left)
    next
      case False
      with j have kn: "k + n \<le> j" by auto
      have le: "int p + int n \<le> mp j True" using right [OF jV kn] tracks_V [OF t jV] by linarith
      have eq: "mp' j True = mp j True + int (length s) - int n" using kn n mp' [OF jV] by auto
      have "?txt ! nat (mp' j True) = txt ! nat (mp j True)"
        using nth_splice_right [of p n "nat (mp j True)" "txt" "nat (mp' j True)" s] le eq old pos pn
        by (simp add: nat_add_distrib le_nat_iff nat_less_iff)
      moreover have "mp' j True < int (length ?txt)" using old(1) len eq by linarith
      ultimately show ?thesis using old(2) by simp
    qed
  qed
  have VV: "mp' i True + (if i \<in> L - {k..<k + n} then 1 else 0) \<le> mp' j False"
    if i: "i \<in> V - {k<..<k + n}" and j: "j \<in> V - {k<..<k + n}" and ij: "i < j" for i j
  proof (cases "i = k")
    case True
    with j ij have "j \<in> V" "k + n \<le> j" by auto
    with right [OF this] True mp' [of j] mp' [OF kV] ij p n show ?thesis by auto
  next
    case False
    from i j have iV: "i \<in> V" and jV: "j \<in> V" by auto
    let ?d = "if k < j then int (length s) - int n else 0"
    note less = tracks_less [OF t iV jV ij]
    show ?thesis
    proof (cases "k < i")
      case True
      with mp' [OF iV, of True] mp' [OF jV, of False] ij less show ?thesis by (cases "i \<in> L") simp_all
    next
      case False
      with \<open>i \<noteq> k\<close> have ik: "i < k" by simp
      have "mp i True + (if i \<in> L then 1 else 0) \<le> int p"
        using tracks_less [OF t iV kV ik] tracks_V [OF t kV] p by (cases "i \<in> L") simp_all
      moreover have "k < j \<Longrightarrow> int p + int n \<le> mp j False" using right [OF jV] j by simp
      ultimately show ?thesis
        using ik mp' [OF iV, of True] mp' [OF jV, of False] less i by (cases "k < j"; cases "i \<in> L") auto
    qed
  qed
  show ?thesis
  proof (rule tracksI)
    show "L - {k..<k + n} \<subseteq> V - {k<..<k + n}" using tracks_sets [OF t] by auto
    show "V - {k<..<k + n} \<subseteq> {..length orig}" "L - {k..<k + n} \<subseteq> {..<length orig}"
      using tracks_sets [OF t] by auto
  qed (use V L VV in blast)+
qed

section \<open>Edits over any delta map and any text buffer\<close>

lemma key_less:
  fixes o1 o2 :: u32
  assumes "unat o1 < 2 ^ 31" "unat o2 < 2 ^ 31"
  shows "2 * o1 < 2 * o2 + (if a then 1 else 0) \<longleftrightarrow> unat o1 < unat o2 \<or> o1 = o2 \<and> a"
    and "2 * o1 + 1 < 2 * o2 + (if a then 1 else 0) \<longleftrightarrow> unat o1 < unat o2"
proof -
  have k: "unat (2 * w + (if b then 1 else 0)) = 2 * unat w + (if b then 1 else 0)"
    if "unat w < 2 ^ 31" for w :: u32 and b
    using that by (cases b) (simp_all add: unat_word_ariths)
  show "2 * o1 < 2 * o2 + (if a then 1 else 0) \<longleftrightarrow> unat o1 < unat o2 \<or> o1 = o2 \<and> a"
    using k [OF assms(1), of False] k [OF assms(2), of a]
    by (auto simp: word_less_nat_alt word_unat_eq_iff split: if_splits)
  show "2 * o1 + 1 < 2 * o2 + (if a then 1 else 0) \<longleftrightarrow> unat o1 < unat o2"
    using k [OF assms(1), of True] k [OF assms(2), of a]
    by (auto simp: word_less_nat_alt split: if_splits)
qed

text \<open>The place an offset is mapped to, over any provider of the two interfaces.\<close>

locale edited_buffer =
  delta_map empty_deltas add_delta delta_at deltas_inv +
  text_buffer buf_insert buf_erase buf_text buf_inv
  for empty_deltas :: 'd and add_delta :: "u32 \<Rightarrow> int \<Rightarrow> 'd \<Rightarrow> 'd option"
    and delta_at :: "u32 \<Rightarrow> 'd \<Rightarrow> int option" and deltas_inv :: "'d \<Rightarrow> bool"
    and buf_insert :: "nat \<Rightarrow> string \<Rightarrow> 'b \<Rightarrow> 'b option" and buf_erase :: "nat \<Rightarrow> nat \<Rightarrow> 'b \<Rightarrow> 'b option"
    and buf_text :: "'b \<Rightarrow> string" and buf_inv :: "'b \<Rightarrow> bool"
begin

definition place :: "'d \<Rightarrow> nat \<Rightarrow> bool \<Rightarrow> int" where
  "place m k a = delta_val (2 * of_nat k + (if a then 1 else 0)) m + int k"

definition tracked :: "string \<Rightarrow> 'd \<Rightarrow> 'b \<Rightarrow> nat set \<Rightarrow> nat set \<Rightarrow> bool" where
  "tracked orig m b V L \<longleftrightarrow> deltas_inv m \<and> buf_inv b \<and> length orig < 2 ^ 31 \<and>
     length (buf_text b) < 2 ^ 31 \<and> tracks orig (place m) (buf_text b) V L"

lemma tracked_offset:
  assumes "tracked orig m b V L" "k \<in> V"
  shows "unat (of_nat k :: u32) = k" "k < 2 ^ 31"
proof -
  have "k \<le> length orig" "length orig < 2 ^ 31"
    using assms tracks_V by (auto simp: tracked_def)
  then show "k < 2 ^ 31" by linarith
  then show "unat (of_nat k :: u32) = k" by (simp add: unat_of_nat)
qed

lemma place_insert:
  assumes t: "tracked orig m b V L" and k: "k \<in> V" "j \<in> V" and add: "add_delta (2 * of_nat k) d m = Some m'"
  shows "place m' j a = place m j a + (if k < j \<or> k = j \<and> a then d else 0)"
  using delta_val_add [OF _ add] t key_less(1) [of "of_nat k" "of_nat j" a] tracked_offset [OF t k(1)]
    tracked_offset [OF t k(2)]
  by (auto simp: place_def tracked_def word_unat_eq_iff simp del: of_nat_numeral)

lemma place_replace:
  assumes t: "tracked orig m b V L" and k: "k \<in> V" "j \<in> V" and add: "add_delta (2 * of_nat k + 1) d m = Some m'"
  shows "place m' j a = place m j a + (if k < j then d else 0)"
  using delta_val_add [OF _ add] t key_less(2) [of "of_nat k" "of_nat j" a] tracked_offset [OF t k(1)]
    tracked_offset [OF t k(2)]
  by (auto simp: place_def tracked_def)

lemma place_bounds:
  assumes "tracked orig m b V L" "k \<in> V"
  shows "0 \<le> place m k a \<and> place m k a \<le> int (length (buf_text b)) \<and> length (buf_text b) < 2 ^ 31"
  using assms tracks_V [of orig "place m" "buf_text b" V L k] by (cases a) (auto simp: tracked_def)

lemma insert_tracked:
  assumes t: "tracked orig m b V L" and k: "k \<in> V" and s: "s \<noteq> []"
    and len: "length (buf_text b) + length s < 2 ^ 31"
  obtains b' m' where "buf_insert (nat (place m k a)) s b = Some b'"
    "add_delta (2 * of_nat k) (int (length s)) m = Some m'" "tracked orig m' b' V L"
    "buf_text b' = take (nat (place m k a)) (buf_text b) @ s @ drop (nat (place m k a)) (buf_text b)"
proof -
  let ?p = "nat (place m k a)"
  have inv: "deltas_inv m" "buf_inv b" using t by (auto simp: tracked_def)
  have p: "?p \<le> length (buf_text b)" "int ?p = place m k a" using place_bounds [OF t k, of a] by auto
  obtain b' where b': "buf_insert ?p s b = Some b'" using insert_defined [OF inv(2) p(1)] by blast
  obtain m' where m': "add_delta (2 * of_nat k) (int (length s)) m = Some m'"
    using add_defined [OF inv(1)] s by fastforce
  note text_eq = insert_text [OF inv(2) p(1) b']
  have "tracks orig (place m') (buf_text b') V L"
    unfolding text_eq using t k p(2) place_insert [OF t k _ m']
    by (intro tracks_insert [where mp = "place m" and a = a]) (auto simp: tracked_def)
  then have "tracked orig m' b' V L"
    using t text_eq len p add_inv [OF inv(1) m'] insert_inv [OF inv(2) p(1) b'] by (auto simp: tracked_def)
  with that b' m' text_eq show ?thesis by blast
qed

lemma tracked_run:
  assumes t: "tracked orig m b V L" and n: "0 < n" and k: "{k..<k + n} \<subseteq> L"
    and run: "\<And>i. i < n \<Longrightarrow> place m (k + i) True = place m k True + int i"
  shows "k \<in> V" "0 \<le> place m k True" "nat (place m k True) + n \<le> length (buf_text b)"
    "take n (drop (nat (place m k True)) (buf_text b)) = take n (drop k orig)"
    "n \<le> length orig"
proof -
  have tr: "tracks orig (place m) (buf_text b) V L" using t by (simp add: tracked_def)
  have kL: "k + i \<in> L" if "i < n" for i using k that by auto
  show kV: "k \<in> V" using tracks_L [OF tr kL [OF n]] by simp
  show pos: "0 \<le> place m k True" using place_bounds [OF t kV] by blast
  have last: "k + (n - 1) \<in> L" by (rule kL) (use n in simp)
  have "place m (k + (n - 1)) True < int (length (buf_text b))" "k + (n - 1) < length orig"
    using tracks_L [OF tr last] by auto
  with run [of "n - 1"] n pos show le: "nat (place m k True) + n \<le> length (buf_text b)"
    and "n \<le> length orig" by auto
  have kn: "k + n \<le> length orig" using \<open>k + (n - 1) < length orig\<close> n by simp
  show "take n (drop (nat (place m k True)) (buf_text b)) = take n (drop k orig)"
  proof (rule nth_equalityI)
    fix i assume "i < length (take n (drop (nat (place m k True)) (buf_text b)))"
    then have i: "i < n" by simp
    have "nat (place m (k + i) True) = nat (place m k True) + i" using run [OF i] pos by simp
    with tracks_L [OF tr kL [OF i]] i le kn
    show "take n (drop (nat (place m k True)) (buf_text b)) ! i = take n (drop k orig) ! i" by simp
  qed (use le kn in simp)
qed

lemma replace_tracked:
  assumes t: "tracked orig m b V L" and n: "0 < n" and k: "{k..<k + n} \<subseteq> L"
    and run: "\<And>i. i < n \<Longrightarrow> place m (k + i) True = place m k True + int i"
    and inv: "buf_inv b'" and len: "length (buf_text b) + length s < 2 ^ 31"
    and text_eq: "buf_text b' = take (nat (place m k True)) (buf_text b) @ s @
      drop (nat (place m k True) + n) (buf_text b)"
    and m': "if length s = n then m' = m
      else add_delta (2 * of_nat k + 1) (int (length s) - int n) m = Some m'"
  shows "tracked orig m' b' (V - {k<..<k + n}) (L - {k..<k + n})"
proof -
  note r = tracked_run [OF t n k run]
  have place': "place m' j a = place m j a + (if k < j then int (length s) - int n else 0)"
    if "j \<in> V" for j a
    using m' place_replace [OF t r(1) that, of _ m'] by (auto split: if_splits)
  have "tracks orig (place m') (buf_text b') (V - {k<..<k + n}) (L - {k..<k + n})"
    unfolding text_eq using t n k r(2) run place'
    by (intro tracks_replace [where mp = "place m"]) (auto simp: tracked_def)
  moreover have "deltas_inv m'" using m' t add_inv by (auto simp: tracked_def split: if_splits)
  moreover have "length (buf_text b') < 2 ^ 31" using text_eq len r(3) by simp
  ultimately show ?thesis using t inv by (simp add: tracked_def)
qed

end

section \<open>The rewrite buffer\<close>

interpretation edits: edited_buffer DeltaTree_init AddDelta getDeltaAt delta_inv
  RewriteRope_insert RewriteRope_erase rope_text rope_inv
  by unfold_locales

definition buffer_text :: "rewrite_buffer \<Rightarrow> string" where
  "buffer_text rb = rope_text (Buffer rb)"

definition buffer_tracks :: "string \<Rightarrow> rewrite_buffer \<Rightarrow> nat set \<Rightarrow> nat set \<Rightarrow> bool" where
  "buffer_tracks orig rb V L \<longleftrightarrow> edits.tracked orig (Deltas rb) (Buffer rb) V L"

definition mapped :: "rewrite_buffer \<Rightarrow> nat \<Rightarrow> bool \<Rightarrow> int" where
  "mapped rb k a = edits.place (Deltas rb) k a"

lemma buffer_tracksD:
  assumes "buffer_tracks orig rb V L"
  shows "rope_inv (Buffer rb)" "delta_inv (Deltas rb)" "tracks orig (mapped rb) (buffer_text rb) V L"
    "RewriteRope_size (Buffer rb) = length (buffer_text rb)" "length (buffer_text rb) < 2 ^ 31"
  using assms by (auto simp: buffer_tracks_def edits.tracked_def mapped_def [abs_def] buffer_text_def
      RewriteRope_size_text)

lemma getMappedOffset_mapped:
  assumes t: "buffer_tracks orig rb V L" and k: "k \<in> V"
  shows "\<exists>p. getMappedOffset (of_nat k) a rb = Some p \<and> int (unat p) = mapped rb k a \<and>
    unat p \<le> length (buffer_text rb)"
proof -
  note b = edits.place_bounds [OF t [unfolded buffer_tracks_def] k, of a]
  let ?p = "word_of_int (mapped rb k a) :: u32"
  have "getMappedOffset (of_nat k) a rb = Some ?p"
    using deltas.delta_at_val [OF buffer_tracksD(2) [OF t]]
    by (simp add: getMappedOffset_def mapped_def edits.place_def)
  moreover have "int (unat ?p) = mapped rb k a"
    using b by (simp add: mapped_def uint_word_of_int_eq take_bit_int_eq_self)
  moreover have "unat ?p \<le> length (buffer_text rb)"
    using b calculation(2) by (simp only: mapped_def buffer_text_def) linarith
  ultimately show ?thesis by blast
qed

lemma getMappedOffset_iff:
  assumes t: "buffer_tracks orig rb V L" and k: "k \<in> V"
  shows "getMappedOffset (of_nat k) a rb = Some p \<longleftrightarrow> int (unat p) = mapped rb k a"
  using getMappedOffset_mapped [OF t k, of a] by (auto simp: word_uint_eq_iff)

lemma to_int_small: "- (2 ^ 31) \<le> i \<Longrightarrow> i < 2 ^ 31 \<Longrightarrow> to_int i = i"
  by (simp add: to_int_def int_word_sint)

lemma Initialize_tracks:
  assumes "length s < 2 ^ 31"
  shows "\<exists>rb. RewriteBuffer_Initialize s RewriteBuffer_init = Some rb \<and> buffer_text rb = s \<and>
    buffer_tracks s rb {..length s} {..<length s}"
proof -
  from RewriteRope_assign_ok [OF rope_alloc_ok_init, of s] obtain b where
    b: "RewriteRope_assign s RewriteRope_init = Some b" "rope_inv b" "rope_text b = s" .
  have "edits.place DeltaTree_init k a = int k" for k a
    using deltas.delta_val_empty by (simp add: edits.place_def)
  then have "edits.tracked s DeltaTree_init b {..length s} {..<length s}"
    using b assms delta_inv_init by (simp add: edits.tracked_def tracks_initial)
  with b show ?thesis
    by (simp add: RewriteBuffer_Initialize_def RewriteBuffer_init_def buffer_text_def buffer_tracks_def)
qed

text \<open>A run of \<open>n\<close> live characters from \<open>k\<close> on with nothing inserted between them.\<close>

definition plain_run :: "rewrite_buffer \<Rightarrow> nat \<Rightarrow> nat \<Rightarrow> bool" where
  "plain_run rb k n \<longleftrightarrow> (\<forall>i < n. mapped rb (k + i) True = mapped rb k True + int i)"

lemma plain_run_facts:
  assumes t: "buffer_tracks orig rb V L" and n: "0 < n" and k: "{k..<k + n} \<subseteq> L"
    and run: "plain_run rb k n" and p: "getMappedOffset (of_nat k) True rb = Some p"
  shows "k \<in> V" "unat p + n \<le> length (buffer_text rb)" "nat (edits.place (Deltas rb) k True) = unat p"
    "take n (drop (unat p) (buffer_text rb)) = take n (drop k orig)" "n < 2 ^ 31"
proof -
  have run': "\<And>i. i < n \<Longrightarrow> edits.place (Deltas rb) (k + i) True = edits.place (Deltas rb) k True + int i"
    using run by (simp add: plain_run_def mapped_def)
  note r = edits.tracked_run [OF t [unfolded buffer_tracks_def] n k run']
  show kV: "k \<in> V" using r by simp
  show pk: "nat (edits.place (Deltas rb) k True) = unat p"
    using getMappedOffset_iff [OF t kV, of True p] p by (simp only: mapped_def) (metis nat_int)
  show le: "unat p + n \<le> length (buffer_text rb)" using r(3) pk by (simp add: buffer_text_def)
  show "take n (drop (unat p) (buffer_text rb)) = take n (drop k orig)"
    using r(4) pk by (simp add: buffer_text_def)
  show "n < 2 ^ 31" using le buffer_tracksD(5) [OF t] by linarith
qed

lemma RemoveText_step:
  assumes t: "buffer_tracks orig rb V L" and n: "0 < n" and k: "{k..<k + n} \<subseteq> L"
    and run: "plain_run rb k n" and p: "getMappedOffset (of_nat k) True rb = Some p"
  obtains rb' where "AddDelta (2 * of_nat k + 1) (- int n) (Deltas rb) = Some (Deltas rb')"
    "RewriteRope_erase (unat p) n (Buffer rb) = Some (Buffer rb')"
    "\<And>b. RemoveText (of_nat k) (of_nat n) b rb =
       (if b then remove_blank_line (unat p) rb' else Some rb')"
    "buffer_text rb' = take (unat p) (buffer_text rb) @ drop (unat p + n) (buffer_text rb)"
proof -
  note f = plain_run_facts [OF t n k run p]
  note d = buffer_tracksD [OF t]
  have len: "unat p + n \<le> length (rope_text (Buffer rb))" using f(2) by (simp add: buffer_text_def)
  obtain b' where b': "RewriteRope_erase (unat p) n (Buffer rb) = Some b'"
    using rope.erase_defined [OF d(1) len] by blast
  obtain m' where m': "AddDelta (2 * of_nat k + 1) (- int n) (Deltas rb) = Some m'"
    using deltas.add_defined [OF d(2), of "- int n"] n by fastforce
  have un: "unat (of_nat n :: u32) = n" "(of_nat n :: u32) \<noteq> 0"
    using f(5) n by (auto simp: unat_of_nat word_unat_eq_iff)
  have "unat (p + of_nat n) = unat p + n"
    using f(2) d(5) un by (simp add: unat_word_ariths)
  moreover have "uint (of_nat n :: u32) = int n" using un by (metis uint_nat)
  ultimately have "RemoveText (of_nat k) (of_nat n) b rb =
      (if b then remove_blank_line (unat p) (rb\<lparr>Buffer := b', Deltas := m'\<rparr>)
       else Some (rb\<lparr>Buffer := b', Deltas := m'\<rparr>))" for b
    using p b' m' un f(2,5) d(4) to_int_small [of "- int n"]
    by (simp add: RemoveText_def with_buffer_def AddReplaceDelta_def)
  with that [of "rb\<lparr>Buffer := b', Deltas := m'\<rparr>"] b' m' rope.erase_text [OF d(1) len b']
  show ?thesis by (simp add: buffer_text_def)
qed

section \<open>Removing the line that has become blank\<close>

text \<open>Where the last line of a text begins, and a text without its blank line around \<open>p\<close>.\<close>

definition line_start :: "string \<Rightarrow> nat" where
  "line_start s = length s - length (takeWhile (\<lambda>c. c \<noteq> CHR 0x0A) (rev s))"

definition without_blank_line :: "nat \<Rightarrow> string \<Rightarrow> string" where
  "without_blank_line p s =
     (let ls = line_start (take p s); k = length (takeWhile isWhitespaceExceptNL (drop ls s))
      in if ls + k < length s \<and> s ! (ls + k) = CHR 0x0A then take ls s @ drop (ls + k + 1) s else s)"

lemma line_start_simps [simp]:
  "line_start [] = 0"
  "line_start (s @ [c]) = (if c = CHR 0x0A then Suc (length s) else line_start s)"
  by (simp_all add: line_start_def)

lemma line_start_le: "line_start s \<le> length s"
  by (simp add: line_start_def)

lemma at_end_rest: "iter_ok it \<Longrightarrow> at_end it \<longleftrightarrow> iter_rest it = []"
  using iter_next_ok [of it] by (cases "at_end it") (auto simp: at_end_def iter_rest_def)

text \<open>An iterator at byte \<open>i\<close> of the rope.\<close>

definition iter_at :: "rewrite_rope \<Rightarrow> nat \<Rightarrow> rope_iterator \<Rightarrow> bool" where
  "iter_at r i it \<longleftrightarrow> iter_ok it \<and> i \<le> length (rope_text r) \<and> iter_rest it = drop i (bytes (Chunks r))"

lemma iter_at_end: "iter_at r i it \<Longrightarrow> at_end it \<longleftrightarrow> i = length (rope_text r)"
  by (auto simp: iter_at_def at_end_rest rope_text_def)

lemma iter_at_step:
  assumes "iter_at r i it" "i < length (rope_text r)"
  shows "iter_at r (Suc i) (iter_next it)" "rope_char r it = rope_text r ! i" "\<not> at_end it"
proof -
  show ne: "\<not> at_end it" using iter_at_end [OF assms(1)] assms(2) by simp
  let ?bs = "bytes (Chunks r)"
  have i: "i < length ?bs" using assms(2) by (simp add: rope_text_def)
  have "iter_rest it = ?bs ! i # drop (Suc i) ?bs"
    using assms(1) i by (simp add: iter_at_def Cons_nth_drop_Suc)
  with iter_next_ok [of it] assms(1) ne have b: "iter_byte it = ?bs ! i"
    "iter_rest (iter_next it) = drop (Suc i) ?bs" "iter_ok (iter_next it)" by (auto simp: iter_at_def)
  with assms(2) show "iter_at r (Suc i) (iter_next it)" by (simp add: iter_at_def)
  show "rope_char r it = rope_text r ! i"
    using b(1) i by (simp add: rope_char_def rope_text_def text_of_def)
qed

lemma find_line_start_ok:
  "iter_at r i posI \<Longrightarrow> i + n \<le> length (rope_text r) \<Longrightarrow> iter_at r lo it0 \<Longrightarrow>
   lo = line_start (take i (rope_text r)) \<Longrightarrow>
   \<exists>it'. find_line_start r n i posI (it0, lo) = Some (it', line_start (take (i + n) (rope_text r))) \<and>
     iter_at r (line_start (take (i + n) (rope_text r))) it'"
proof (induction n arbitrary: i posI it0 lo)
  case 0
  then show ?case by simp
next
  case (Suc n)
  then have lt: "i < length (rope_text r)" by simp
  note st = iter_at_step [OF Suc.prems(1) lt]
  have tk: "take (Suc i) (rope_text r) = take i (rope_text r) @ [rope_text r ! i]"
    using lt by (simp add: take_Suc_conv_app_nth)
  let ?cur = "if rope_char r posI = CHR 0x0A then (iter_next posI, Suc i) else (it0, lo)"
  have "iter_at r (snd ?cur) (fst ?cur)" "snd ?cur = line_start (take (Suc i) (rope_text r))"
    using st Suc.prems(3,4) lt by (auto simp: tk)
  with Suc.IH [OF st(1), of "snd ?cur" "fst ?cur"] Suc.prems(2) st(3) show ?case
    by (cases "rope_char r posI = CHR 0x0A") simp_all
qed

lemma blank_line_size_ok:
  "iter_at r i it \<Longrightarrow> length (rope_text r) - i \<le> fuel \<Longrightarrow>
   \<exists>it'. blank_line_size r fuel it = Some (it', length (takeWhile isWhitespaceExceptNL (drop i (rope_text r)))) \<and>
     iter_at r (i + length (takeWhile isWhitespaceExceptNL (drop i (rope_text r)))) it'"
proof (induction fuel arbitrary: i it)
  case 0
  then have "i = length (rope_text r)" by (simp add: iter_at_def)
  with 0 show ?case using iter_at_end [OF 0(1)] by (simp add: blank_line_size.simps)
next
  case (Suc n)
  show ?case
  proof (cases "i = length (rope_text r)")
    case True
    with Suc show ?thesis using iter_at_end [OF Suc(2)] by (simp add: blank_line_size.simps)
  next
    case False
    with Suc.prems have lt: "i < length (rope_text r)" by (simp add: iter_at_def)
    note st = iter_at_step [OF Suc.prems(1) lt]
    have dr: "drop i (rope_text r) = rope_text r ! i # drop (Suc i) (rope_text r)"
      using lt by (simp add: Cons_nth_drop_Suc)
    show ?thesis
      using Suc.IH [OF st(1)] Suc.prems st lt by (auto simp: blank_line_size.simps [of r "Suc n"] dr)
  qed
qed

lemma rope_begin_at:
  assumes "rope_inv r"
  obtains it where "rope_begin (Chunks r) = Some it" "iter_at r 0 it"
  using rope_begin_ok [of "Chunks r"] assms by (auto simp: rope_inv_def iter_at_def)

lemma remove_blank_line_text:
  assumes inv: "rope_inv (Buffer rb)" "delta_inv (Deltas rb)" and p: "p \<le> length (buffer_text rb)"
    and len: "length (buffer_text rb) < 2 ^ 31"
  shows "\<exists>rb'. remove_blank_line p rb = Some rb' \<and> buffer_text rb' = without_blank_line p (buffer_text rb)"
proof -
  let ?r = "Buffer rb"
  let ?s = "rope_text ?r"
  let ?ls = "line_start (take p ?s)"
  let ?k = "length (takeWhile isWhitespaceExceptNL (drop ?ls ?s))"
  obtain it where it: "rope_begin (Chunks ?r) = Some it" "iter_at ?r 0 it"
    by (rule rope_begin_at [OF inv(1)])
  obtain it1 where it1: "find_line_start ?r p 0 it (it, 0) = Some (it1, ?ls)" "iter_at ?r ?ls it1"
    using find_line_start_ok [OF it(2) _ it(2), of p] p by (auto simp: buffer_text_def)
  obtain it2 where it2: "blank_line_size ?r (RewriteRope_size ?r) it1 = Some (it2, ?k)"
    "iter_at ?r (?ls + ?k) it2"
    using blank_line_size_ok [OF it1(2), of "RewriteRope_size ?r"] RewriteRope_size_text [OF inv(1)] by auto
  have ends: "at_end it2 \<longleftrightarrow> \<not> ?ls + ?k < length ?s"
    using iter_at_end [OF it2(2)] it2(2) by (auto simp: iter_at_def)
  show ?thesis
  proof (cases "?ls + ?k < length ?s \<and> ?s ! (?ls + ?k) = CHR 0x0A")
    case True
    then have le: "?ls + (?k + 1) \<le> length ?s" by simp
    obtain b where b: "RewriteRope_erase ?ls (?k + 1) ?r = Some b"
      using rope.erase_defined [OF inv(1) le] by blast
    have "to_int (- int (?k + 1)) = - int (?k + 1)"
      using le len by (intro to_int_small) (auto simp: buffer_text_def)
    with deltas.add_defined [OF inv(2), of "- int (?k + 1)"] obtain m where
      "AddDelta (2 * of_nat ?ls + 1) (to_int (- int (?k + 1))) (Deltas rb) = Some m" by fastforce
    with it(1) it1(1) it2(1) b True ends iter_at_step [OF it2(2)] rope.erase_text [OF inv(1) le b]
    show ?thesis
      by (simp add: remove_blank_line_def Let_def with_buffer_def AddReplaceDelta_def
          buffer_text_def without_blank_line_def)
  next
    case False
    with it(1) it1(1) it2(1) ends iter_at_step [OF it2(2)] show ?thesis
      by (auto simp: remove_blank_line_def Let_def buffer_text_def without_blank_line_def)
  qed
qed

section \<open>Writing the buffer out\<close>

lemma text_of_bytes_piece: "text_of (Heap r) (piece_bytes p) =
    map (\<lambda>i. Heap r (StrData p) ! i) [StartOffs p ..< EndOffs p]"
  by (rule text_of_piece)

lemma iter_piece_text_ok:
  assumes "StartOffs p \<le> EndOffs p" "EndOffs p \<le> length (Heap r (StrData p))" "p = iter_piece it"
  shows "iter_piece_text r it = text_of (Heap r) (piece_bytes p)"
  using assms by (intro nth_equalityI) (auto simp: iter_piece_text_def Let_def piece_size_def text_of_piece)

lemma write_pieces_ok:
  assumes "iter_ok it" "CurChar it = 0"
    and "\<forall>(a, i) \<in> set (iter_rest it). i < length (Heap r a)"
  shows "write_pieces r it = Some (text_of (Heap r) (iter_rest it))"
  using assms
proof (induction "length (iter_rest it)" arbitrary: it rule: less_induct)
  case less
  show ?case
  proof (cases "CurLeaves it")
    case Nil
    then show ?thesis
      by (subst write_pieces.simps) (simp add: at_end_def iter_rest_def text_of_def)
  next
    case (Cons l ls)
    let ?p = "iter_piece it" and ?it = "MoveToNextPiece it"
    have p: "?p = l ! CurPiece it" "CurPiece it < length l" "0 < piece_size ?p"
      using less.prems(1) Cons by (simp_all add: iter_ok_def iter_piece_def)
    note mv = MoveToNextPiece_ok [OF less.prems(1) Cons]
    have rest: "iter_rest it = piece_bytes ?p @ iter_rest ?it"
      using Cons less.prems(2) p(1) mv(2) by (simp add: iter_rest_def)
    have "CurChar ?it = 0" by (simp add: MoveToNextPiece_def skip_empty_def)
    with less.hyps [of ?it] mv(1) rest less.prems(3) p(3)
    have ih: "write_pieces r ?it = Some (text_of (Heap r) (iter_rest ?it))" by simp
    have "(StrData ?p, EndOffs ?p - 1) \<in> set (piece_bytes ?p)"
      using p(3) by (auto simp: piece_bytes_def piece_size_def)
    with less.prems(3) rest have "EndOffs ?p - 1 < length (Heap r (StrData ?p))" by auto
    with p(3) have "iter_piece_text r it = text_of (Heap r) (piece_bytes ?p)"
      by (intro iter_piece_text_ok) (auto simp: piece_size_def)
    with ih rest Cons show ?thesis
      by (subst write_pieces.simps) (simp add: at_end_def)
  qed
qed

section \<open>Properties\<close>

text \<open>A freshly initialised buffer maps every offset to itself.\<close>

lemma Initialize_maps:
  assumes "length s < 2 ^ 31"
  obtains rb where "RewriteBuffer_Initialize s RewriteBuffer_init = Some rb" "buffer_text rb = s"
    "buffer_tracks s rb {..length s} {..<length s}" "\<And>w a. getMappedOffset w a rb = Some w"
    "\<And>k n. plain_run rb k n" "rope_inv (Buffer rb)"
proof -
  obtain rb where rb: "RewriteBuffer_Initialize s RewriteBuffer_init = Some rb" "buffer_text rb = s"
    "buffer_tracks s rb {..length s} {..<length s}" using Initialize_tracks [OF assms] by blast
  then have d: "Deltas rb = DeltaTree_init"
    by (auto simp: RewriteBuffer_Initialize_def RewriteBuffer_init_def)
  then have "getMappedOffset w a rb = Some w" for w a
    by (simp add: getMappedOffset_def deltas.at_empty)
  moreover have "plain_run rb k n" for k n
    using d by (simp add: plain_run_def mapped_def edits.place_def deltas.delta_val_empty)
  ultimately show ?thesis using that rb buffer_tracksD(1) by blast
qed

text \<open>
  While a buffer tracks a file, every original character that has not been removed is
  found at the offset \<open>getMappedOffset\<close> gives for it, and the mapping keeps the order of
  the file.
\<close>

theorem getMappedOffset_finds:
  assumes "buffer_tracks orig rb V L" "k \<in> L" "j \<in> L" "k < j"
  shows "\<exists>p q. getMappedOffset (of_nat k) True rb = Some p \<and> getMappedOffset (of_nat j) True rb = Some q \<and>
    p < q \<and> unat q < length (buffer_text rb) \<and>
    buffer_text rb ! unat p = orig ! k \<and> buffer_text rb ! unat q = orig ! j"
proof -
  note t = buffer_tracksD(3) [OF assms(1)]
  note k = tracks_L [OF t assms(2)] and j = tracks_L [OF t assms(3)]
  from getMappedOffset_mapped [OF assms(1), of k True] k obtain p where
    p: "getMappedOffset (of_nat k) True rb = Some p" "int (unat p) = mapped rb k True" by blast
  from getMappedOffset_mapped [OF assms(1), of j True] j obtain q where
    q: "getMappedOffset (of_nat j) True rb = Some q" "int (unat q) = mapped rb j True" by blast
  have "mapped rb k True < mapped rb j True"
    using tracks_less [OF t _ _ assms(4)] tracks_V [OF t, of j] k j assms(2) by fastforce
  then have "p < q" using p(2) q(2) by (simp add: word_less_def)
  moreover have "unat p = nat (mapped rb k True)" "unat q = nat (mapped rb j True)" using p(2) q(2) by linarith+
  moreover have "unat q < length (buffer_text rb)" using q(2) j by linarith
  ultimately show ?thesis using p(1) q(1) k j by (intro exI [of _ p] exI [of _ q]) simp
qed

theorem getMappedOffset_finds_witness:
  "\<exists>rb p q. RewriteBuffer_Initialize ''ab'' RewriteBuffer_init = Some rb \<and>
     getMappedOffset 0 True rb = Some p \<and> getMappedOffset 1 True rb = Some q \<and> p < q \<and>
     buffer_text rb ! unat q = CHR ''b''"
proof -
  obtain rb where rb: "RewriteBuffer_Initialize ''ab'' RewriteBuffer_init = Some rb"
    "buffer_tracks ''ab'' rb {..length ''ab''} {..<length ''ab''}"
    by (rule Initialize_maps [of "''ab''"]) auto
  with getMappedOffset_finds [OF rb(2), of 0 1] show ?thesis by auto
qed

text \<open>
  C6. \<open>InsertText\<close> puts the string exactly at the mapped offset, before or after the
  earlier insertions there as asked, and afterwards every original character that was
  tracked is still found where the offset mapping says.
\<close>

theorem InsertText_correct:
  assumes t: "buffer_tracks orig rb V L" and k: "k \<in> V" and s: "s \<noteq> []"
    and len: "length (buffer_text rb) + length s < 2 ^ 31" and p: "getMappedOffset (of_nat k) a rb = Some p"
  shows "\<exists>rb'. InsertText (of_nat k) s a rb = Some rb' \<and> buffer_tracks orig rb' V L \<and>
    buffer_text rb' = take (unat p) (buffer_text rb) @ s @ drop (unat p) (buffer_text rb)"
proof -
  have pk: "nat (edits.place (Deltas rb) k a) = unat p"
    using getMappedOffset_iff [OF t k, of a p] p by (simp only: mapped_def) (metis nat_int)
  from edits.insert_tracked [OF t [unfolded buffer_tracks_def] k s, of a] len obtain b' m' where
    b: "RewriteRope_insert (unat p) s (Buffer rb) = Some b'" and
    m: "AddDelta (2 * of_nat k) (int (length s)) (Deltas rb) = Some m'" and
    tr: "edits.tracked orig m' b' V L" "rope_text b' = take (unat p) (rope_text (Buffer rb)) @ s @
      drop (unat p) (rope_text (Buffer rb))"
    unfolding pk buffer_text_def by auto
  have "InsertText (of_nat k) s a rb = Some (rb\<lparr>Buffer := b', Deltas := m'\<rparr>)"
    using s p b m len to_int_small [of "int (length s)"]
    by (simp add: InsertText_def with_buffer_def AddInsertDelta_def)
  with tr show ?thesis by (simp add: buffer_tracks_def buffer_text_def)
qed

theorem InsertText_correct_witness:
  "\<exists>rb rb'. RewriteBuffer_Initialize ''int x;'' RewriteBuffer_init = Some rb \<and>
     InsertText 4 ''*'' True rb = Some rb' \<and> buffer_text rb' = ''int *x;''"
proof -
  obtain rb where rb: "RewriteBuffer_Initialize ''int x;'' RewriteBuffer_init = Some rb"
    "buffer_text rb = ''int x;''" "buffer_tracks ''int x;'' rb {..length ''int x;''} {..<length ''int x;''}"
    "\<And>w a. getMappedOffset w a rb = Some w"
    by (rule Initialize_maps [of "''int x;''"]) auto
  from InsertText_correct [OF rb(3), of 4 "''*''" True 4] rb show ?thesis by auto
qed





text \<open>
  With \<open>removeLineIfEmpty\<close>, \<open>RemoveText\<close> also removes the line the range was on, with
  its newline, exactly when nothing but blanks is left of it.
\<close>

theorem RemoveText_removes_blank_line:
  assumes t: "buffer_tracks orig rb V L" and n: "0 < n" and k: "{k..<k + n} \<subseteq> L"
    and run: "plain_run rb k n" and p: "getMappedOffset (of_nat k) True rb = Some p"
    and lt: "n < length (buffer_text rb)"
  shows "\<exists>rb'. RemoveText (of_nat k) (of_nat n) True rb = Some rb' \<and>
    buffer_text rb' = without_blank_line (unat p)
      (take (unat p) (buffer_text rb) @ drop (unat p + n) (buffer_text rb))"
proof -
  note f = plain_run_facts [OF t n k run p]
  note d = buffer_tracksD [OF t]
  from RemoveText_step [OF t n k run p] obtain rb' where
    rb': "AddDelta (2 * of_nat k + 1) (- int n) (Deltas rb) = Some (Deltas rb')"
    "RewriteRope_erase (unat p) n (Buffer rb) = Some (Buffer rb')"
    "RemoveText (of_nat k) (of_nat n) True rb = remove_blank_line (unat p) rb'"
    "buffer_text rb' = take (unat p) (buffer_text rb) @ drop (unat p + n) (buffer_text rb)"
    by metis
  have "rope_inv (Buffer rb')"
    using rope.erase_inv [OF d(1) _ _ rb'(2)] f(2) lt by (simp add: buffer_text_def)
  moreover have "delta_inv (Deltas rb')" by (rule deltas.add_inv [OF d(2) rb'(1)])
  ultimately show ?thesis
    using remove_blank_line_text [of rb' "unat p"] rb'(3,4) f(2) d(5) by simp
qed

theorem RemoveText_removes_blank_line_witness:
  "\<exists>rb rb'. RewriteBuffer_Initialize [CHR '' '', CHR ''x'', CHR 0x0A, CHR ''y''] RewriteBuffer_init = Some rb \<and>
     RemoveText 1 1 True rb = Some rb' \<and> buffer_text rb' = ''y''"
proof -
  let ?s = "[CHR '' '', CHR ''x'', CHR 0x0A, CHR ''y'']"
  obtain rb where rb: "RewriteBuffer_Initialize ?s RewriteBuffer_init = Some rb"
    "buffer_text rb = ?s" "buffer_tracks ?s rb {..length ?s} {..<length ?s}"
    "\<And>w a. getMappedOffset w a rb = Some w" "\<And>k n. plain_run rb k n"
    by (rule Initialize_maps [of ?s]) auto
  from RemoveText_removes_blank_line [OF rb(3), of 1 1 1] rb show ?thesis
    by (auto simp: without_blank_line_def line_start_def isWhitespaceExceptNL_def)
qed

lemma write_rope:
  assumes inv: "rope_inv r"
  shows "Option.bind (rope_begin (Chunks r)) (write_pieces r) = Some (rope_text r)"
proof -
  from inv have bt: "btree_inv (Chunks r)" by (simp add: rope_inv_def)
  obtain it where it: "rope_begin (Chunks r) = Some it" "iter_ok it"
    "iter_rest it = bytes (Chunks r)" by (rule rope_begin_ok [OF bt])
  moreover have "CurChar it = 0"
    using it(1) by (auto simp: rope_begin_def skip_empty_def split: option.splits)
  ultimately show ?thesis
    using write_pieces_ok [of it r] inv by (auto simp: rope_text_def rope_inv_def rope_alloc_ok_def)
qed

text \<open>
  \<open>write\<close>, which walks the rope piece by piece, terminates and outputs exactly the
  text of the buffer.
\<close>

theorem write_outputs_text:
  assumes inv: "rope_inv (Buffer rb)"
  shows "RewriteBuffer_write rb = Some (buffer_text rb)"
  using write_rope [OF inv] by (simp add: RewriteBuffer_write_def buffer_text_def)

theorem write_outputs_text_witness:
  "\<exists>rb. RewriteBuffer_Initialize ''ab'' RewriteBuffer_init = Some rb \<and> RewriteBuffer_write rb = Some ''ab''"
proof -
  obtain rb where rb: "RewriteBuffer_Initialize ''ab'' RewriteBuffer_init = Some rb"
    "buffer_text rb = ''ab''" "rope_inv (Buffer rb)"
    by (rule Initialize_maps [of "''ab''"]) auto
  with write_outputs_text [OF rb(3)] show ?thesis by auto
qed

end
