(* ===== verification/CharInfo.thy ===== *)
theory CharInfo
  imports Prelude
begin

unbundle bit_operations_syntax

text \<open>
  \<open>lib/Basic/CharInfo.cpp\<close> and \<open>include/latino/Basic/CharInfo.h\<close>: the table of character
  classes and the predicates that test it with bit masks.  A C++ \<open>char\<close> is a HOL \<open>char\<close>;
  \<open>of_char\<close> is the conversion to \<open>unsigned char\<close>.
\<close>

section \<open>Classes and table\<close>

definition CHAR_HORZ_WS :: u16 where "CHAR_HORZ_WS = 0x0001"
definition CHAR_VERT_WS :: u16 where "CHAR_VERT_WS = 0x0002"
definition CHAR_SPACE :: u16 where "CHAR_SPACE = 0x0004"
definition CHAR_DIGIT :: u16 where "CHAR_DIGIT = 0x0008"
definition CHAR_XLETTER :: u16 where "CHAR_XLETTER = 0x0010"
definition CHAR_UPPER :: u16 where "CHAR_UPPER = 0x0020"
definition CHAR_LOWER :: u16 where "CHAR_LOWER = 0x0040"
definition CHAR_UNDER :: u16 where "CHAR_UNDER = 0x0080"
definition CHAR_PERIOD :: u16 where "CHAR_PERIOD = 0x0100"
definition CHAR_RAWDEL :: u16 where "CHAR_RAWDEL = 0x0200"
definition CHAR_PUNCT :: u16 where "CHAR_PUNCT = 0x0400"
definition CHAR_XUPPER :: u16 where "CHAR_XUPPER = CHAR_XLETTER OR CHAR_UPPER"
definition CHAR_XLOWER :: u16 where "CHAR_XLOWER = CHAR_XLETTER OR CHAR_LOWER"

lemmas char_classes =
  CHAR_HORZ_WS_def CHAR_VERT_WS_def CHAR_SPACE_def CHAR_DIGIT_def CHAR_XLETTER_def CHAR_UPPER_def
  CHAR_LOWER_def CHAR_UNDER_def CHAR_PERIOD_def CHAR_RAWDEL_def CHAR_PUNCT_def CHAR_XUPPER_def
  CHAR_XLOWER_def

text \<open>The initialiser lists 128 entries; C++ zero-initialises the other 128.\<close>

definition InfoTable :: "u16 list" where
  "InfoTable =
    [
     0, 0, 0, 0, 0, 0, 0, 0,
     0, CHAR_HORZ_WS, CHAR_VERT_WS, CHAR_HORZ_WS, CHAR_HORZ_WS, CHAR_VERT_WS, 0, 0,
     0, 0, 0, 0, 0, 0, 0, 0,
     0, 0, 0, 0, 0, 0, 0, 0,
     CHAR_SPACE, CHAR_RAWDEL, CHAR_RAWDEL, CHAR_RAWDEL, CHAR_PUNCT, CHAR_RAWDEL, CHAR_RAWDEL, CHAR_RAWDEL,
     CHAR_PUNCT, CHAR_PUNCT, CHAR_RAWDEL, CHAR_RAWDEL, CHAR_RAWDEL, CHAR_RAWDEL, CHAR_PERIOD, CHAR_RAWDEL,
     CHAR_DIGIT, CHAR_DIGIT, CHAR_DIGIT, CHAR_DIGIT, CHAR_DIGIT, CHAR_DIGIT, CHAR_DIGIT, CHAR_DIGIT,
     CHAR_DIGIT, CHAR_DIGIT, CHAR_RAWDEL, CHAR_RAWDEL, CHAR_RAWDEL, CHAR_RAWDEL, CHAR_RAWDEL, CHAR_RAWDEL,
     CHAR_PUNCT, CHAR_XUPPER, CHAR_XUPPER, CHAR_XUPPER, CHAR_XUPPER, CHAR_XUPPER, CHAR_XUPPER, CHAR_UPPER,
     CHAR_UPPER, CHAR_UPPER, CHAR_UPPER, CHAR_UPPER, CHAR_UPPER, CHAR_UPPER, CHAR_UPPER, CHAR_UPPER,
     CHAR_UPPER, CHAR_UPPER, CHAR_UPPER, CHAR_UPPER, CHAR_UPPER, CHAR_UPPER, CHAR_UPPER, CHAR_UPPER,
     CHAR_UPPER, CHAR_UPPER, CHAR_UPPER, CHAR_RAWDEL, CHAR_PUNCT, CHAR_RAWDEL, CHAR_RAWDEL, CHAR_UNDER,
     CHAR_PUNCT, CHAR_XLOWER, CHAR_XLOWER, CHAR_XLOWER, CHAR_XLOWER, CHAR_XLOWER, CHAR_XLOWER, CHAR_LOWER,
     CHAR_LOWER, CHAR_LOWER, CHAR_LOWER, CHAR_LOWER, CHAR_LOWER, CHAR_LOWER, CHAR_LOWER, CHAR_LOWER,
     CHAR_LOWER, CHAR_LOWER, CHAR_LOWER, CHAR_LOWER, CHAR_LOWER, CHAR_LOWER, CHAR_LOWER, CHAR_LOWER,
     CHAR_LOWER, CHAR_LOWER, CHAR_LOWER, CHAR_RAWDEL, CHAR_RAWDEL, CHAR_RAWDEL, CHAR_RAWDEL, 0] @ replicate 128 0"

definition info :: "char \<Rightarrow> u16" where
  "info c = InfoTable ! of_char c"

section \<open>Predicates\<close>

definition isASCII :: "char \<Rightarrow> bool" where
  "isASCII c \<longleftrightarrow> of_char c \<le> (127 :: nat)"

definition isIdentifierHead :: "char \<Rightarrow> bool \<Rightarrow> bool" where
  "isIdentifierHead c AllowDollar \<longleftrightarrow>
     (if info c AND (CHAR_UPPER OR CHAR_LOWER OR CHAR_UNDER) \<noteq> 0 then True
      else AllowDollar \<and> c = CHR ''$'')"

definition isIdentifierBody :: "char \<Rightarrow> bool \<Rightarrow> bool" where
  "isIdentifierBody c AllowDollar \<longleftrightarrow>
     (if info c AND (CHAR_UPPER OR CHAR_LOWER OR CHAR_DIGIT OR CHAR_UNDER) \<noteq> 0 then True
      else AllowDollar \<and> c = CHR ''$'')"

definition isHorizontalWhitespace :: "char \<Rightarrow> bool" where
  "isHorizontalWhitespace c \<longleftrightarrow> info c AND (CHAR_HORZ_WS OR CHAR_SPACE) \<noteq> 0"

definition isVerticalWhitespace :: "char \<Rightarrow> bool" where
  "isVerticalWhitespace c \<longleftrightarrow> info c AND CHAR_VERT_WS \<noteq> 0"

definition isWhitespace :: "char \<Rightarrow> bool" where
  "isWhitespace c \<longleftrightarrow> info c AND (CHAR_HORZ_WS OR CHAR_VERT_WS OR CHAR_SPACE) \<noteq> 0"

definition isDigit :: "char \<Rightarrow> bool" where
  "isDigit c \<longleftrightarrow> info c AND CHAR_DIGIT \<noteq> 0"

definition isLowercase :: "char \<Rightarrow> bool" where
  "isLowercase c \<longleftrightarrow> info c AND CHAR_LOWER \<noteq> 0"

definition isUppercase :: "char \<Rightarrow> bool" where
  "isUppercase c \<longleftrightarrow> info c AND CHAR_UPPER \<noteq> 0"

definition isLetter :: "char \<Rightarrow> bool" where
  "isLetter c \<longleftrightarrow> info c AND (CHAR_UPPER OR CHAR_LOWER) \<noteq> 0"

definition isAlphanumeric :: "char \<Rightarrow> bool" where
  "isAlphanumeric c \<longleftrightarrow> info c AND (CHAR_DIGIT OR CHAR_UPPER OR CHAR_LOWER) \<noteq> 0"

definition isHexDigit :: "char \<Rightarrow> bool" where
  "isHexDigit c \<longleftrightarrow> info c AND (CHAR_DIGIT OR CHAR_XLETTER) \<noteq> 0"

definition isPunctuation :: "char \<Rightarrow> bool" where
  "isPunctuation c \<longleftrightarrow> info c AND (CHAR_UNDER OR CHAR_PERIOD OR CHAR_RAWDEL OR CHAR_PUNCT) \<noteq> 0"

definition isPrintable :: "char \<Rightarrow> bool" where
  "isPrintable c \<longleftrightarrow> info c AND (CHAR_UPPER OR CHAR_LOWER OR CHAR_PERIOD OR CHAR_PUNCT OR CHAR_DIGIT OR CHAR_UNDER OR CHAR_RAWDEL OR CHAR_SPACE) \<noteq> 0"

definition isPreprocessingNumberBody :: "char \<Rightarrow> bool" where
  "isPreprocessingNumberBody c \<longleftrightarrow> info c AND (CHAR_UPPER OR CHAR_LOWER OR CHAR_DIGIT OR CHAR_UNDER OR CHAR_PERIOD) \<noteq> 0"

definition isRawStringDelimBody :: "char \<Rightarrow> bool" where
  "isRawStringDelimBody c \<longleftrightarrow> info c AND (CHAR_UPPER OR CHAR_LOWER OR CHAR_PERIOD OR CHAR_DIGIT OR CHAR_UNDER OR CHAR_RAWDEL) \<noteq> 0"

text \<open>\<open>c + 'a' - 'A'\<close>, computed in \<open>int\<close> and converted back to \<open>char\<close>.\<close>

definition toLowercase :: "char \<Rightarrow> char" where
  "toLowercase c = (if isUppercase c then char_of (of_char c + of_char CHR ''a'' - of_char CHR ''A'' :: int) else c)"

definition toUppercase :: "char \<Rightarrow> char" where
  "toUppercase c = (if isLowercase c then char_of (of_char c + of_char CHR ''A'' - of_char CHR ''a'' :: int) else c)"

definition isValidIdentifier :: "string \<Rightarrow> bool \<Rightarrow> bool" where
  "isValidIdentifier S AllowDollar \<longleftrightarrow>
     S \<noteq> [] \<and> isIdentifierHead (hd S) AllowDollar \<and> (\<forall>c \<in> set S. isIdentifierBody c AllowDollar)"

section \<open>What the table says\<close>

text \<open>The classes as disjoint sets of characters, and the class of every character.\<close>

definition code_class :: "nat \<Rightarrow> u16" where
  "code_class n =
     (if n \<in> {9, 11, 12} then CHAR_HORZ_WS
      else if n \<in> {10, 13} then CHAR_VERT_WS
      else if n = 32 then CHAR_SPACE
      else if 48 \<le> n \<and> n \<le> 57 then CHAR_DIGIT
      else if 65 \<le> n \<and> n \<le> 70 then CHAR_XUPPER
      else if 71 \<le> n \<and> n \<le> 90 then CHAR_UPPER
      else if 97 \<le> n \<and> n \<le> 102 then CHAR_XLOWER
      else if 103 \<le> n \<and> n \<le> 122 then CHAR_LOWER
      else if n = 95 then CHAR_UNDER
      else if n = 46 then CHAR_PERIOD
      else if n \<in> {36, 40, 41, 64, 92, 96} then CHAR_PUNCT
      else if 33 \<le> n \<and> n \<le> 126 then CHAR_RAWDEL
      else 0)"

lemma InfoTable_class: "InfoTable = map code_class [0..<256]"
  by code_simp

lemma of_char_less [simp]: "(of_char c :: nat) < 256"
  by (rule nat_of_char_less_256)

lemma info_class: "info c = code_class (of_char c)"
  by (simp add: info_def InfoTable_class)

lemmas char_mask_simps = info_class code_class_def char_classes

named_theorems char_iffs

lemma isDigit_iff [char_iffs]: "isDigit c \<longleftrightarrow> of_char c \<in> {48..57::nat}"
  by (simp add: isDigit_def char_mask_simps)

lemma isUppercase_iff [char_iffs]: "isUppercase c \<longleftrightarrow> of_char c \<in> {65..90::nat}"
  by (simp add: isUppercase_def char_mask_simps) presburger

lemma isLowercase_iff [char_iffs]: "isLowercase c \<longleftrightarrow> of_char c \<in> {97..122::nat}"
  by (simp add: isLowercase_def char_mask_simps) presburger

lemma isLetter_codes: "isLetter c \<longleftrightarrow> of_char c \<in> {65..90} \<union> {97..122::nat}"
  by (simp add: isLetter_def char_mask_simps) presburger

lemma isLetter_iff [char_iffs]: "isLetter c \<longleftrightarrow> isUppercase c \<or> isLowercase c"
  by (simp add: isLetter_codes isUppercase_iff isLowercase_iff)

lemma isAlphanumeric_codes:
  "isAlphanumeric c \<longleftrightarrow> of_char c \<in> {48..57} \<union> {65..90} \<union> {97..122::nat}"
  by (simp add: isAlphanumeric_def char_mask_simps) presburger

lemma isAlphanumeric_iff [char_iffs]: "isAlphanumeric c \<longleftrightarrow> isDigit c \<or> isLetter c"
  by (simp add: isAlphanumeric_codes isLetter_codes isDigit_iff)

lemma isHexDigit_iff [char_iffs]:
  "isHexDigit c \<longleftrightarrow> isDigit c \<or> of_char c \<in> {65..70::nat} \<or> of_char c \<in> {97..102::nat}"
  by (simp add: isHexDigit_def isDigit_def char_mask_simps)

lemma isHorizontalWhitespace_iff [char_iffs]:
  "isHorizontalWhitespace c \<longleftrightarrow> of_char c \<in> {9, 11, 12, 32::nat}"
  by (simp add: isHorizontalWhitespace_def char_mask_simps)

lemma isVerticalWhitespace_iff [char_iffs]: "isVerticalWhitespace c \<longleftrightarrow> of_char c \<in> {10, 13::nat}"
  by (simp add: isVerticalWhitespace_def char_mask_simps)

lemma isWhitespace_iff [char_iffs]:
  "isWhitespace c \<longleftrightarrow> isHorizontalWhitespace c \<or> isVerticalWhitespace c"
  by (simp add: isWhitespace_def isHorizontalWhitespace_def isVerticalWhitespace_def char_mask_simps)

lemma isIdentifierHead_iff [char_iffs]:
  "isIdentifierHead c b \<longleftrightarrow> isLetter c \<or> of_char c = (95::nat) \<or> b \<and> c = CHR ''$''"
  by (simp add: isIdentifierHead_def isLetter_def char_mask_simps)

lemma isIdentifierBody_iff [char_iffs]:
  "isIdentifierBody c b \<longleftrightarrow> isIdentifierHead c b \<or> isDigit c"
  by (simp add: isIdentifierBody_def isIdentifierHead_def isDigit_def char_mask_simps)

lemma isPreprocessingNumberBody_iff [char_iffs]:
  "isPreprocessingNumberBody c \<longleftrightarrow> isIdentifierBody c False \<or> of_char c = (46::nat)"
  by (simp add: isPreprocessingNumberBody_def isIdentifierBody_def char_mask_simps)

lemma isPrintable_iff [char_iffs]: "isPrintable c \<longleftrightarrow> of_char c \<in> {32..126::nat}"
  by (simp add: isPrintable_def char_mask_simps)

lemma isPunctuation_iff [char_iffs]:
  "isPunctuation c \<longleftrightarrow> isPrintable c \<and> \<not> isAlphanumeric c \<and> of_char c \<noteq> (32::nat)"
  by (simp add: isPunctuation_def isPrintable_def isAlphanumeric_def char_mask_simps)

lemma isRawStringDelimBody_iff [char_iffs]:
  "isRawStringDelimBody c \<longleftrightarrow> isPrintable c \<and> of_char c \<notin> {32, 36, 40, 41, 64, 92, 96::nat}"
  by (simp add: isRawStringDelimBody_def isPrintable_def char_mask_simps)

lemma ident_body_not_ws: "isIdentifierBody c False \<Longrightarrow> \<not> isWhitespace c"
  by (auto simp: char_iffs)

lemma of_char_of_int: "n < 256 \<Longrightarrow> of_char (char_of (int n)) = n"
proof -
  assume "n < 256"
  then have "(of_char (char_of (int n)) :: int) = int n" by (simp only: of_char_of) simp
  then show ?thesis using of_nat_of_char [of "char_of (int n)", where 'a = int] by simp
qed

lemma toLowercase_code:
  "of_char (toLowercase c) = (if isUppercase c then of_char c + 32 else of_char c :: nat)"
proof (cases "isUppercase c")
  case True
  then have "of_char c + 32 < (256 :: nat)" by (simp add: isUppercase_iff)
  moreover have "(of_char c + of_char CHR ''a'' - of_char CHR ''A'' :: int) = int (of_char c + 32)"
    using of_nat_of_char [of c, where 'a = int] by simp
  ultimately show ?thesis
    using True by (simp only: toLowercase_def if_True of_char_of_int)
qed (simp add: toLowercase_def)

lemma toUppercase_code:
  "of_char (toUppercase c) = (if isLowercase c then of_char c - 32 else of_char c :: nat)"
proof (cases "isLowercase c")
  case True
  then have c: "of_char c - 32 < (256 :: nat)" "(32::nat) \<le> of_char c" by (auto simp: isLowercase_iff)
  then have "(of_char c + of_char CHR ''A'' - of_char CHR ''a'' :: int) = int (of_char c - 32)"
    using of_nat_of_char [of c, where 'a = int] by (simp add: of_nat_diff)
  with c(1) show ?thesis
    using True by (simp only: toUppercase_def if_True of_char_of_int)
qed (simp add: toUppercase_def)

section \<open>Properties\<close>

text \<open>
  Every predicate of \<open>CharInfo.h\<close>, a mask test on a table entry, accepts exactly the
  ASCII characters its comment lists, and none of them accepts a byte above 127.
\<close>

theorem char_predicates_documented:
  "let n = of_char c :: nat in
    isDigit c = (n \<in> {48..57}) \<and> isUppercase c = (n \<in> {65..90}) \<and> isLowercase c = (n \<in> {97..122}) \<and>
    isLetter c = (n \<in> {65..90} \<union> {97..122}) \<and> isAlphanumeric c = (n \<in> {48..57} \<union> {65..90} \<union> {97..122}) \<and>
    isHexDigit c = (n \<in> {48..57} \<union> {65..70} \<union> {97..102}) \<and>
    isHorizontalWhitespace c = (n \<in> {9, 11, 12, 32}) \<and> isVerticalWhitespace c = (n \<in> {10, 13}) \<and>
    isWhitespace c = (n \<in> {9..13} \<union> {32}) \<and> isPrintable c = (n \<in> {32..126}) \<and>
    isIdentifierHead c False = (n \<in> {65..90} \<union> {97..122} \<union> {95}) \<and>
    isIdentifierBody c False = (n \<in> {65..90} \<union> {97..122} \<union> {95} \<union> {48..57}) \<and>
    isPreprocessingNumberBody c = (n \<in> {65..90} \<union> {97..122} \<union> {95} \<union> {48..57} \<union> {46}) \<and>
    isPunctuation c = (n \<in> {33..47} \<union> {58..64} \<union> {91..96} \<union> {123..126}) \<and>
    isRawStringDelimBody c = (n \<in> {33..126} - {36, 40, 41, 64, 92, 96})"
  unfolding Let_def by (simp add: char_iffs) presburger

text \<open>
  The case conversions only touch letters of the other case, are inverse to each
  other there, and never leave ASCII for an ASCII character.
\<close>

theorem case_conversion_inverse:
  "(if isUppercase c then isLowercase (toLowercase c) \<and> toUppercase (toLowercase c) = c else toLowercase c = c) \<and>
   (if isLowercase c then isUppercase (toUppercase c) \<and> toLowercase (toUppercase c) = c else toUppercase c = c) \<and>
   isASCII (toLowercase c) = isASCII c \<and> isASCII (toUppercase c) = isASCII c"
proof -
  have eqI: "x = y" if "of_char x = (of_char y :: nat)" for x y :: char using that by simp
  have "isUppercase c \<Longrightarrow> isLowercase (toLowercase c)" "isLowercase c \<Longrightarrow> isUppercase (toUppercase c)"
    by (auto simp: isUppercase_iff isLowercase_iff toLowercase_code toUppercase_code)
  moreover from this have "isUppercase c \<Longrightarrow> toUppercase (toLowercase c) = c"
    "isLowercase c \<Longrightarrow> toLowercase (toUppercase c) = c"
    by (auto intro!: eqI simp: toLowercase_code toUppercase_code isLowercase_iff)
  moreover have "isASCII (toLowercase c) = isASCII c" "isASCII (toUppercase c) = isASCII c"
    by (auto simp: isASCII_def toLowercase_code toUppercase_code isUppercase_iff isLowercase_iff)
  ultimately show ?thesis by (simp add: toLowercase_def toUppercase_def)
qed

end
