(* ===== verification/Scanner.thy ===== *)
theory Scanner
  imports Prelude
begin

text \<open>
  Pointers into a character buffer.  A \<open>const char *\<close> is an index; the end of the buffer is
  the length of the string.  Reading at the end gives NUL, as LLVM's memory buffers are
  NUL-terminated.  A loop test \<open>P != End\<close> is written \<open>P < length buf\<close>: the pointers of the code never
  run past the end (lemmas in \<open>scan_bounds\<close>), so the two agree.
\<close>

definition peek :: "string \<Rightarrow> nat \<Rightarrow> char" where
  "peek buf i = (if i < length buf then buf ! i else CHR 0x00)"

definition slice :: "string \<Rightarrow> nat \<Rightarrow> nat \<Rightarrow> string" where
  "slice buf i j = take (j - i) (drop i buf)"

text \<open>\<open>while (P != End && test(*P)) ++P;\<close>\<close>

function scan_while :: "(char \<Rightarrow> bool) \<Rightarrow> string \<Rightarrow> nat \<Rightarrow> nat" where
  "scan_while test buf i = (if i < length buf \<and> test (peek buf i) then scan_while test buf (Suc i) else i)"
  by pat_completeness auto
termination by (relation "measure (\<lambda>(_, buf, i). length buf - i)") auto

declare scan_while.simps [simp del]

lemma scan_while_ge [scan_bounds]: "i \<le> scan_while test buf i"
proof (induction test buf i rule: scan_while.induct)
  case (1 test buf i)
  then show ?case by (subst scan_while.simps) (auto intro: Suc_leD)
qed

lemma scan_while_le [scan_bounds]: "i \<le> length buf \<Longrightarrow> scan_while test buf i \<le> length buf"
proof (induction test buf i rule: scan_while.induct)
  case (1 test buf i)
  then show ?case by (subst scan_while.simps) auto
qed

lemma scan_while_stop: "scan_while test buf i < length buf \<Longrightarrow> \<not> test (peek buf (scan_while test buf i))"
proof (induction test buf i rule: scan_while.induct)
  case (1 test buf i)
  then show ?case
    by (cases "i < length buf \<and> test (peek buf i)") (simp_all add: scan_while.simps [of test buf i])
qed

lemma scan_while_all: "i \<le> k \<Longrightarrow> k < scan_while test buf i \<Longrightarrow> test (peek buf k)"
proof (induction test buf i arbitrary: k rule: scan_while.induct)
  case (1 test buf i)
  show ?case
  proof (cases "i < length buf \<and> test (peek buf i)")
    case True
    with 1 show ?thesis by (cases "k = i") (simp_all add: scan_while.simps [of test buf i])
  next
    case False
    with 1(2,3) show ?thesis by (auto simp: scan_while.simps [of test buf i])
  qed
qed

lemma scan_while_skip: "\<not> (i < length buf \<and> test (peek buf i)) \<Longrightarrow> scan_while test buf i = i"
  by (subst scan_while.simps) auto

lemma scan_while_Suc: "i < length buf \<Longrightarrow> test (peek buf i) \<Longrightarrow> scan_while test buf i = scan_while test buf (Suc i)"
  by (subst scan_while.simps) auto

lemma length_slice [simp]: "j \<le> length buf \<Longrightarrow> length (slice buf i j) = j - i"
  by (auto simp: slice_def)

lemma slice_Nil [simp]: "slice buf i i = []"
  by (simp add: slice_def)

lemma slice_append: "i \<le> j \<Longrightarrow> j \<le> k \<Longrightarrow> slice buf i j @ slice buf j k = slice buf i k"
proof -
  assume "i \<le> j" "j \<le> k"
  then have "k - i = (j - i) + (k - j)" "drop (j - i) (drop i buf) = drop j buf" by simp_all
  then show ?thesis by (simp add: slice_def take_add)
qed

lemma nth_slice: "i + n < j \<Longrightarrow> j \<le> length buf \<Longrightarrow> slice buf i j ! n = peek buf (i + n)"
  by (simp add: slice_def peek_def)

end
