(* ===== verification/Minimizer.thy ===== *)
theory Minimizer
  imports CharInfo Scanner "HOL-Library.Sublist"
begin

text \<open>
  \<open>lib/Lex/DependencyDirectivesSourceMinimizer.cpp\<close>: the lexer that reduces a source file
  to the directives that matter for its dependencies.  Every function takes the buffer
  and the pointer \<open>First\<close> and returns the new \<open>First\<close>; the methods of \<open>Minimizer\<close> also pass
  the object, its output bytes, its tokens and the diagnostics reported.  Assertions that
  only describe the caller (a newline, a quote at \<open>First\<close>) are not branches of the model.
\<close>

section \<open>Skipping text\<close>

abbreviation vert_at :: "string \<Rightarrow> nat \<Rightarrow> bool" where
  "vert_at buf i \<equiv> isVerticalWhitespace (peek buf i)"

abbreviation body_at :: "string \<Rightarrow> nat \<Rightarrow> bool" where
  "body_at buf i \<equiv> isIdentifierBody (peek buf i) False"

definition skipOverSpaces :: "string \<Rightarrow> nat \<Rightarrow> nat" where
  "skipOverSpaces buf First = scan_while isHorizontalWhitespace buf First"

text \<open>\<open>First\<close> is the start of the piece of text, \<open>Current\<close> the place of the quote.\<close>

definition isRawStringLiteral :: "string \<Rightarrow> nat \<Rightarrow> nat \<Rightarrow> bool" where
  "isRawStringLiteral buf First Current =
     (if peek buf Current \<noteq> CHR 0x22 \<or> First = Current then False
      else let C1 = Current - 1 in
      if peek buf C1 \<noteq> CHR ''R'' then False
      else if First = C1 then True
      else let C2 = C1 - 1 in
      if \<not> body_at buf C2 then True
      else if peek buf C2 = CHR ''u'' \<or> peek buf C2 = CHR ''U'' \<or> peek buf C2 = CHR ''L''
      then First = C2 \<or> \<not> body_at buf (C2 - 1)
      else if peek buf C2 \<noteq> CHR ''8'' \<or> First = C2 then False
      else if peek buf C2 \<noteq> CHR ''u'' then False
      else let C3 = C2 - 1 in First = C3 \<or> \<not> body_at buf (C3 - 1))"

text \<open>The loop that compares the text at \<open>Last\<close> with the terminator.\<close>

function match_terminator :: "string \<Rightarrow> nat \<Rightarrow> string \<Rightarrow> nat \<Rightarrow> nat" where
  "match_terminator buf First Terminator Last =
     (if Last < length buf \<and> Last - First < length Terminator \<and> Terminator ! (Last - First) = peek buf Last
      then match_terminator buf First Terminator (Suc Last) else Last)"
  by pat_completeness auto
termination by (relation "measure (\<lambda>(buf, _, _, Last). length buf - Last)") auto

declare match_terminator.simps [simp del]

lemma match_terminator_ge [scan_bounds]: "Last \<le> match_terminator buf First T Last"
proof (induction buf First T Last rule: match_terminator.induct)
  case (1 buf First T Last)
  then show ?case by (subst match_terminator.simps) (auto intro: Suc_leD)
qed

function raw_string_loop :: "string \<Rightarrow> string \<Rightarrow> nat \<Rightarrow> nat" where
  "raw_string_loop buf Terminator Last =
     (let First = scan_while (\<lambda>c. c \<noteq> CHR '')'') buf Last in
      if \<not> First < length buf then First
      else let Last' = match_terminator buf (Suc First) Terminator (Suc First) in
      if \<not> Last' < length buf then Last'
      else if Last' - Suc First < length Terminator then raw_string_loop buf Terminator Last'
      else if peek buf Last' \<noteq> CHR 0x22 then raw_string_loop buf Terminator Last'
      else Suc Last')"
  by pat_completeness auto
termination
proof (relation "measure (\<lambda>(buf, _, Last). length buf - Last)"; clarsimp)
  fix buf T :: string and Last :: nat
  let ?F = "scan_while (\<lambda>c. c \<noteq> CHR '')'') buf Last"
  assume "match_terminator buf (Suc ?F) T (Suc ?F) < length buf"
  then show "length buf - match_terminator buf (Suc ?F) T (Suc ?F) < length buf - Last"
    using match_terminator_ge [of "Suc ?F" buf "Suc ?F" T] scan_while_ge [of Last "\<lambda>c. c \<noteq> CHR '')''" buf]
    by linarith
next
  fix buf T :: string and Last :: nat
  let ?F = "scan_while (\<lambda>c. c \<noteq> CHR '')'') buf Last"
  assume "match_terminator buf (Suc ?F) T (Suc ?F) < length buf"
  then show "length buf - match_terminator buf (Suc ?F) T (Suc ?F) < length buf - Last"
    using match_terminator_ge [of "Suc ?F" buf "Suc ?F" T] scan_while_ge [of Last "\<lambda>c. c \<noteq> CHR '')''" buf]
    by linarith
qed

declare raw_string_loop.simps [simp del]

definition skipRawString :: "string \<Rightarrow> nat \<Rightarrow> nat" where
  "skipRawString buf First =
     (let Last = scan_while (\<lambda>c. c \<noteq> CHR ''('') buf (Suc First) in
      if \<not> Last < length buf then Last else raw_string_loop buf (slice buf (Suc First) Last) Last)"

definition isEOL :: "string \<Rightarrow> nat \<Rightarrow> nat" where
  "isEOL buf First =
     (if \<not> First < length buf then 0
      else if length buf - First > 1 \<and> vert_at buf First \<and> vert_at buf (First + 1) \<and>
        peek buf First \<noteq> peek buf (First + 1) then 2
      else if vert_at buf First then 1 else 0)"

text \<open>The loop of \<open>skipString\<close>; leaving the loop test finishes off the string.\<close>

function string_loop :: "string \<Rightarrow> char \<Rightarrow> nat \<Rightarrow> nat" where
  "string_loop buf Terminator First =
     (if \<not> First < length buf then First
      else if peek buf First = Terminator then Suc First
      else if vert_at buf First then First
      else if peek buf First \<noteq> CHR 0x5C then string_loop buf Terminator (Suc First)
      else let First = Suc First in
      if \<not> First < length buf then First
      else if \<not> isWhitespace (peek buf First) then string_loop buf Terminator (Suc First)
      else let FirstAfter = skipOverSpaces buf First; NLSize = isEOL buf FirstAfter in
      if NLSize \<noteq> 0 then string_loop buf Terminator (Suc (FirstAfter + NLSize - 1))
      else string_loop buf Terminator (Suc First))"
  by pat_completeness auto
termination
proof (relation "measure (\<lambda>(buf, _, First). length buf - First)", goal_cases)
  case (4 buf T First F1 P NL)
  have "Suc First \<le> P" unfolding 4 skipOverSpaces_def by (rule scan_while_ge)
  with 4 show ?case by simp
qed auto

declare string_loop.simps [simp del]

definition skipString :: "string \<Rightarrow> nat \<Rightarrow> nat" where
  "skipString buf First =
     string_loop buf (if peek buf First = CHR ''<'' then CHR ''>'' else peek buf First) (Suc First)"

definition skipNewline :: "string \<Rightarrow> nat \<Rightarrow> nat \<times> nat" where
  "skipNewline buf First =
     (if \<not> First < length buf then (0, First)
      else let Len = isEOL buf First in (Len, First + Len))"

definition wasLineContinuation :: "string \<Rightarrow> nat \<Rightarrow> nat \<Rightarrow> bool" where
  "wasLineContinuation buf First EOLLen \<longleftrightarrow> peek buf (First - EOLLen - 1) = CHR 0x5C"

text \<open>\<open>do { if (++First == End) return; Len = isEOL(First, End); } while (!Len);\<close>\<close>

function next_eol :: "string \<Rightarrow> nat \<Rightarrow> nat" where
  "next_eol buf First =
     (if \<not> Suc First < length buf then Suc First
      else if isEOL buf (Suc First) \<noteq> 0 then Suc First else next_eol buf (Suc First))"
  by pat_completeness auto
termination by (relation "measure (\<lambda>(buf, First). length buf - First)") auto

declare next_eol.simps [simp del]

lemma next_eol_gt [scan_bounds]: "First < next_eol buf First"
proof (induction buf First rule: next_eol.induct)
  case (1 buf First)
  then show ?case by (subst next_eol.simps) (auto intro: Suc_lessD)
qed

function skipToNewlineRaw :: "string \<Rightarrow> nat \<Rightarrow> nat" where
  "skipToNewlineRaw buf First =
     (if \<not> First < length buf then First
      else if isEOL buf First \<noteq> 0 then First
      else let Next = next_eol buf First in
      if \<not> Next < length buf then Next
      else if peek buf (Next - 1) \<noteq> CHR 0x5C then Next
      else skipToNewlineRaw buf (Next + isEOL buf Next))"
  by pat_completeness auto
termination
proof (relation "measure (\<lambda>(buf, First). length buf - First)"; clarsimp)
  fix buf :: string and First :: nat
  assume "First < length buf"
  then show "length buf - (next_eol buf First + isEOL buf (next_eol buf First)) < length buf - First"
    using next_eol_gt [of First buf] by linarith
qed

declare skipToNewlineRaw.simps [simp del]


fun findLastNonSpace :: "string \<Rightarrow> nat \<Rightarrow> nat \<Rightarrow> nat" where
  "findLastNonSpace buf First 0 = 0"
| "findLastNonSpace buf First (Suc Last) =
     (if First < Suc Last \<and> isHorizontalWhitespace (peek buf Last) then findLastNonSpace buf First Last
      else Suc Last)"

definition findFirstTrailingSpace :: "string \<Rightarrow> nat \<Rightarrow> nat \<Rightarrow> nat" where
  "findFirstTrailingSpace buf First Last =
     (let LastNonSpace = findLastNonSpace buf First Last in
      if Last = LastNonSpace then Last else LastNonSpace + 1)"

definition skipLineComment :: "string \<Rightarrow> nat \<Rightarrow> nat" where
  "skipLineComment buf First = skipToNewlineRaw buf (First + 2)"

function block_comment_loop :: "string \<Rightarrow> nat \<Rightarrow> nat" where
  "block_comment_loop buf First =
     (if \<not> First < length buf then First
      else if peek buf (First - 1) = CHR ''*'' \<and> peek buf First = CHR ''/'' then Suc First
      else block_comment_loop buf (Suc First))"
  by pat_completeness auto
termination by (relation "measure (\<lambda>(buf, First). length buf - First)") auto

declare block_comment_loop.simps [simp del]

definition skipBlockComment :: "string \<Rightarrow> nat \<Rightarrow> nat" where
  "skipBlockComment buf First =
     (if length buf - First < 4 then length buf else block_comment_loop buf (First + 3))"

definition isQuoteCppDigitSeparator :: "string \<Rightarrow> nat \<Rightarrow> nat \<Rightarrow> bool" where
  "isQuoteCppDigitSeparator buf Start Cur =
     (if Start = Cur then False
      else let Prev = peek buf (Cur - 1) in
      if Prev = CHR ''L'' \<or> Prev = CHR ''U'' \<or> Prev = CHR ''u'' then False
      else if Prev = CHR ''8'' \<and> Cur - 1 \<noteq> Start \<and> peek buf (Cur - 2) = CHR ''u'' then False
      else if \<not> isPreprocessingNumberBody Prev then False
      else Cur + 1 < length buf \<and> body_at buf (Cur + 1))"

subsection \<open>Bounds\<close>

lemma skipOverSpaces_bounds [scan_bounds]:
  "First \<le> skipOverSpaces buf First" "First \<le> length buf \<Longrightarrow> skipOverSpaces buf First \<le> length buf"
  by (simp_all add: skipOverSpaces_def scan_while_le scan_while_ge)

lemma isEOL_le: "First \<le> length buf \<Longrightarrow> First + isEOL buf First \<le> length buf"
  by (auto simp: isEOL_def)

lemma isEOL_pos: "First < length buf \<Longrightarrow> isEOL buf First \<noteq> 0 \<longleftrightarrow> vert_at buf First"
  by (auto simp: isEOL_def)

lemma match_terminator_le: "Last \<le> length buf \<Longrightarrow> match_terminator buf First T Last \<le> length buf"
proof (induction buf First T Last rule: match_terminator.induct)
  case (1 buf First T Last)
  then show ?case by (subst match_terminator.simps) auto
qed

lemma raw_string_loop_bounds:
  "Last \<le> raw_string_loop buf T Last \<and> (Last \<le> length buf \<longrightarrow> raw_string_loop buf T Last \<le> length buf)"
proof (induction buf T Last rule: raw_string_loop.induct)
  case (1 buf T Last)
  let ?F = "scan_while (\<lambda>c. c \<noteq> CHR '')'') buf Last"
  let ?L = "match_terminator buf (Suc ?F) T (Suc ?F)"
  have b: "Last \<le> ?F" "?F < ?L" "Last \<le> length buf \<Longrightarrow> ?F \<le> length buf"
    "?F < length buf \<Longrightarrow> ?L \<le> length buf"
    using match_terminator_ge [of "Suc ?F" buf "Suc ?F" T] scan_while_le match_terminator_le
      scan_while_ge [of Last "\<lambda>c. c \<noteq> CHR '')''" buf] by simp_all
  show ?case
  proof (cases "?F < length buf \<and> ?L < length buf \<and> (?L - Suc ?F < length T \<or> peek buf ?L \<noteq> CHR 0x22)")
    case True
    then have "raw_string_loop buf T Last = raw_string_loop buf T ?L"
      by (subst raw_string_loop.simps) (auto simp: Let_def)
    moreover have "?L \<le> raw_string_loop buf T ?L \<and> raw_string_loop buf T ?L \<le> length buf"
    proof (cases "?L - Suc ?F < length T")
      case s: True
      from 1(1) [OF refl _ refl _ s] True show ?thesis by auto
    next
      case s: False
      from 1(2) [OF refl _ refl _ s] True s show ?thesis by auto
    qed
    ultimately show ?thesis using b by auto
  next
    case False
    then show ?thesis using b by (subst (1 2) raw_string_loop.simps) (auto simp: Let_def)
  qed
qed

lemma skipRawString_bounds [scan_bounds]:
  "First < skipRawString buf First" "First < length buf \<Longrightarrow> skipRawString buf First \<le> length buf"
proof -
  let ?L = "scan_while (\<lambda>c. c \<noteq> CHR ''('') buf (Suc First)"
  have "Suc First \<le> ?L" "First < length buf \<Longrightarrow> ?L \<le> length buf" by (simp_all add: scan_while_le scan_while_ge)
  with raw_string_loop_bounds [of ?L buf "slice buf (Suc First) ?L"]
  show "First < skipRawString buf First" "First < length buf \<Longrightarrow> skipRawString buf First \<le> length buf"
    by (auto simp: skipRawString_def Let_def)
qed

text \<open>One round of the loop: it stops at once or starts again further on.\<close>

lemma string_loop_step:
  "string_loop buf T First \<in> {First, Suc First} \<and> (First < length buf \<or> string_loop buf T First = First) \<or>
   First < length buf \<and> (\<exists>First'. First < First' \<and> First' \<le> length buf \<and>
     string_loop buf T First = string_loop buf T First')"
proof -
  let ?F = "Suc First"
  let ?P = "skipOverSpaces buf ?F"
  have P: "?F \<le> ?P" "?F < length buf \<Longrightarrow> ?P + isEOL buf ?P \<le> length buf"
    using skipOverSpaces_bounds [where First = ?F and buf = buf] isEOL_le by simp_all
  consider "\<not> First < length buf \<or> peek buf First = T \<or> vert_at buf First"
    | (plain) "First < length buf" "peek buf First \<noteq> T" "\<not> vert_at buf First" "peek buf First \<noteq> CHR 0x5C"
    | (fin) "First < length buf" "peek buf First \<noteq> T" "\<not> vert_at buf First" "peek buf First = CHR 0x5C"
      "\<not> ?F < length buf"
    | (esc) "First < length buf" "peek buf First \<noteq> T" "\<not> vert_at buf First" "peek buf First = CHR 0x5C"
      "?F < length buf" "isWhitespace (peek buf ?F) \<longrightarrow> isEOL buf ?P = 0"
    | (cont) "First < length buf" "peek buf First \<noteq> T" "\<not> vert_at buf First" "peek buf First = CHR 0x5C"
      "?F < length buf" "isWhitespace (peek buf ?F)" "isEOL buf ?P \<noteq> 0"
    by blast
  then show ?thesis
  proof cases
    case 1
    then have "string_loop buf T First = (if First < length buf \<and> peek buf First = T then Suc First else First)"
      by (subst string_loop.simps) auto
    then show ?thesis by simp
  next
    case plain
    then have "string_loop buf T First = string_loop buf T ?F" by (subst string_loop.simps) simp
    with plain show ?thesis by (intro disjI2) auto
  next
    case fin
    then have "string_loop buf T First = ?F" by (subst string_loop.simps) (simp add: Let_def)
    with fin show ?thesis by simp
  next
    case esc
    then have "string_loop buf T First = string_loop buf T (Suc ?F)"
      by (subst string_loop.simps) (simp add: Let_def)
    with esc show ?thesis by (intro disjI2 conjI exI [of _ "Suc ?F"]) auto
  next
    case cont
    then have "string_loop buf T First = string_loop buf T (?P + isEOL buf ?P)"
      by (subst string_loop.simps) (simp add: Let_def)
    with cont P show ?thesis by (intro disjI2 conjI exI [of _ "?P + isEOL buf ?P"]) auto
  qed
qed

lemma string_loop_bounds:
  "First \<le> string_loop buf T First \<and> (First \<le> length buf \<longrightarrow> string_loop buf T First \<le> length buf)"
proof (induction "length buf - First" arbitrary: First rule: less_induct)
  case less
  from string_loop_step [of buf T First] show ?case
  proof (elim disjE conjE exE)
    fix F assume F: "First < F" "F \<le> length buf" "First < length buf" "string_loop buf T First = string_loop buf T F"
    then have "length buf - F < length buf - First" by simp
    from less.hyps [OF this] F show ?thesis by simp
  qed auto
qed

lemma skipString_bounds [scan_bounds]:
  "First < skipString buf First" "First < length buf \<Longrightarrow> skipString buf First \<le> length buf"
  using string_loop_bounds [where First = "Suc First" and buf = buf]
  by (auto simp: skipString_def Suc_le_eq)

lemma skipNewline_bounds [scan_bounds]:
  "First \<le> snd (skipNewline buf First)"
  "First \<le> length buf \<Longrightarrow> snd (skipNewline buf First) \<le> length buf"
  "First < length buf \<Longrightarrow> vert_at buf First \<Longrightarrow> First < snd (skipNewline buf First)"
  using isEOL_le [of First buf] isEOL_pos [of First buf] by (auto simp: skipNewline_def Let_def)

lemma next_eol_le: "First < length buf \<Longrightarrow> next_eol buf First \<le> length buf"
proof (induction buf First rule: next_eol.induct)
  case (1 buf First)
  then show ?case by (subst next_eol.simps) auto
qed

lemma skipToNewlineRaw_bounds [scan_bounds]:
  "First \<le> skipToNewlineRaw buf First \<and>
   (First \<le> length buf \<longrightarrow> skipToNewlineRaw buf First \<le> length buf)"
proof (induction buf First rule: skipToNewlineRaw.induct)
  case (1 buf First)
  let ?N = "next_eol buf First"
  note N = next_eol_gt [of First buf] next_eol_le [of First buf] isEOL_le [of ?N buf]
  show ?case
  proof (cases "First < length buf \<and> isEOL buf First = 0 \<and> ?N < length buf \<and> peek buf (?N - 1) = CHR 0x5C")
    case True
    then have "skipToNewlineRaw buf First = skipToNewlineRaw buf (?N + isEOL buf ?N)"
      by (subst skipToNewlineRaw.simps) (simp add: Let_def)
    moreover have "?N + isEOL buf ?N \<le> skipToNewlineRaw buf (?N + isEOL buf ?N) \<and>
        (?N + isEOL buf ?N \<le> length buf \<longrightarrow> skipToNewlineRaw buf (?N + isEOL buf ?N) \<le> length buf)"
      using 1 True by simp
    ultimately show ?thesis using N True by simp
  next
    case False
    then have "skipToNewlineRaw buf First = (if First < length buf \<and> isEOL buf First = 0 then ?N else First)"
      by (subst skipToNewlineRaw.simps) (auto simp: Let_def)
    with N show ?thesis by simp
  qed
qed

lemma findLastNonSpace_bounds:
  "findLastNonSpace buf First Last \<le> Last" "First \<le> Last \<Longrightarrow> First \<le> findLastNonSpace buf First Last"
  by (induction Last) (auto simp: le_Suc_eq)

lemma findFirstTrailingSpace_bounds:
  "findFirstTrailingSpace buf First Last \<le> Last"
  "First \<le> Last \<Longrightarrow> First \<le> findFirstTrailingSpace buf First Last"
  using findLastNonSpace_bounds [where buf = buf and First = First and Last = Last]
  by (auto simp: findFirstTrailingSpace_def Let_def Suc_le_eq)

lemma skipLineComment_bounds [scan_bounds]:
  "First < skipLineComment buf First"
  "2 \<le> length buf - First \<Longrightarrow> skipLineComment buf First \<le> length buf"
  using skipToNewlineRaw_bounds [of "First + 2" buf] by (auto simp: skipLineComment_def)

lemma block_comment_loop_bounds:
  "First \<le> block_comment_loop buf First \<and>
   (First \<le> length buf \<longrightarrow> block_comment_loop buf First \<le> length buf)"
proof (induction buf First rule: block_comment_loop.induct)
  case (1 buf First)
  then show ?case by (subst (1 2) block_comment_loop.simps) auto
qed

lemma skipBlockComment_bounds [scan_bounds]:
  "First < length buf \<Longrightarrow> First < skipBlockComment buf First"
  "skipBlockComment buf First \<le> length buf"
  using block_comment_loop_bounds [of "First + 3" buf] by (auto simp: skipBlockComment_def)

section \<open>Skipping a line\<close>

function skip_line_body :: "string \<Rightarrow> nat \<Rightarrow> nat \<Rightarrow> nat" where
  "skip_line_body buf Start First =
     (if \<not> (First < length buf \<and> \<not> vert_at buf First) then First
      else if peek buf First = CHR 0x22 \<or>
        peek buf First = CHR 0x27 \<and> \<not> isQuoteCppDigitSeparator buf Start First
      then (if isRawStringLiteral buf Start First then skip_line_body buf Start (skipRawString buf First)
            else skip_line_body buf Start (skipString buf First))
      else if peek buf First \<noteq> CHR ''/'' \<or> length buf - First < 2 then skip_line_body buf Start (Suc First)
      else if peek buf (First + 1) = CHR ''/'' then skip_line_body buf Start (skipLineComment buf First)
      else if peek buf (First + 1) \<noteq> CHR ''*'' then skip_line_body buf Start (Suc First)
      else skip_line_body buf Start (skipBlockComment buf First))"
  by pat_completeness auto
termination
  by (relation "measure (\<lambda>(buf, _, First). length buf - First)")
    (use skipRawString_bounds skipString_bounds skipLineComment_bounds skipBlockComment_bounds
      in \<open>auto intro!: diff_less_mono2\<close>)

declare skip_line_body.simps [simp del]

lemma skip_line_body_step:
  assumes "First < length buf" "\<not> vert_at buf First"
  shows "\<exists>F. First < F \<and> F \<le> length buf \<and> skip_line_body buf Start First = skip_line_body buf Start F"
  using assms skipRawString_bounds [where First = First and buf = buf]
    skipString_bounds [where First = First and buf = buf]
    skipLineComment_bounds [where First = First and buf = buf]
    skipBlockComment_bounds [where First = First and buf = buf]
  by (subst skip_line_body.simps) (auto simp: Suc_le_eq)

lemma skip_line_body_bounds [scan_bounds]:
  "First \<le> skip_line_body buf Start First \<and>
   (First \<le> length buf \<longrightarrow> skip_line_body buf Start First \<le> length buf) \<and>
   (skip_line_body buf Start First < length buf \<longrightarrow> vert_at buf (skip_line_body buf Start First)) \<and>
   (First < length buf \<and> \<not> vert_at buf First \<longrightarrow> First < skip_line_body buf Start First)"
proof (induction "length buf - First" arbitrary: First rule: less_induct)
  case less
  show ?case
  proof (cases "First < length buf \<and> \<not> vert_at buf First")
    case True
    with skip_line_body_step obtain F where F: "First < F" "F \<le> length buf"
      "skip_line_body buf Start First = skip_line_body buf Start F" by blast
    then have "length buf - F < length buf - First" by simp
    from less [OF this] F True show ?thesis by simp
  next
    case False
    then have "skip_line_body buf Start First = First" by (subst skip_line_body.simps) simp
    with False show ?thesis by auto
  qed
qed

function skipLine :: "string \<Rightarrow> nat \<Rightarrow> nat" where
  "skipLine buf First =
     (if \<not> First < length buf then First
      else if vert_at buf First then snd (skipNewline buf First)
      else let Stop = skip_line_body buf First First in
      if \<not> Stop < length buf then Stop
      else case skipNewline buf Stop of (Len, Next) \<Rightarrow>
        if \<not> wasLineContinuation buf Next Len then Next else skipLine buf Next)"
  by pat_completeness auto
termination
proof (relation "measure (\<lambda>(buf, First). length buf - First)", goal_cases)
  case (2 buf First Stop Len Next)
  then have "Next = snd (skipNewline buf (skip_line_body buf First First))" by (metis snd_conv)
  with 2 show ?case
    using skip_line_body_bounds [of First buf First]
      skipNewline_bounds [where First = "skip_line_body buf First First" and buf = buf]
    by auto
qed simp

declare skipLine.simps [simp del]

text \<open>\<open>skipLine\<close> ends at the end of the buffer or just behind a newline.\<close>

lemma skipLine_bounds [scan_bounds]:
  "First \<le> length buf \<Longrightarrow> First \<le> skipLine buf First \<and> skipLine buf First \<le> length buf \<and>
   (First < length buf \<longrightarrow> First < skipLine buf First)"
proof (induction buf First rule: skipLine.induct)
  case (1 buf First)
  let ?S = "skip_line_body buf First First"
  let ?N = "snd (skipNewline buf ?S)" and ?L = "fst (skipNewline buf ?S)"
  note b = skip_line_body_bounds [of First buf First] skipNewline_bounds [where First = ?S and buf = buf]
    skipNewline_bounds [where First = First and buf = buf]
  show ?case
  proof (cases "First < length buf \<and> \<not> vert_at buf First \<and> ?S < length buf \<and> wasLineContinuation buf ?N ?L")
    case True
    then have "skipLine buf First = skipLine buf ?N"
      by (subst skipLine.simps) (simp add: Let_def split_beta)
    moreover have "?N \<le> skipLine buf ?N \<and> skipLine buf ?N \<le> length buf"
      using 1(1) [OF _ _ refl _ prod.collapse] True b by simp
    ultimately show ?thesis using b True by auto
  next
    case False
    then have "skipLine buf First = (if \<not> First < length buf then First
        else if vert_at buf First then snd (skipNewline buf First)
        else if \<not> ?S < length buf then ?S else ?N)"
      by (subst skipLine.simps) (auto simp: Let_def split_beta)
    with b 1(2) show ?thesis by auto
  qed
qed

definition skipDirective :: "string \<Rightarrow> string \<Rightarrow> nat \<Rightarrow> nat" where
  "skipDirective Name buf First =
     (if Name = ''warning'' \<or> Name = ''error'' then skipToNewlineRaw buf First else skipLine buf First)"

lemma skipDirective_bounds [scan_bounds]:
  "First \<le> length buf \<Longrightarrow> First \<le> skipDirective Name buf First \<and> skipDirective Name buf First \<le> length buf"
  using skipLine_bounds [of First buf] skipToNewlineRaw_bounds [of First buf] by (simp add: skipDirective_def)

function skipWhitespace :: "string \<Rightarrow> nat \<Rightarrow> nat" where
  "skipWhitespace buf First =
     (let F = skipOverSpaces buf First in
      if length buf - F < 2 then F
      else if peek buf F = CHR 0x5C \<and> vert_at buf (F + 1) then skipWhitespace buf (snd (skipNewline buf (F + 1)))
      else if peek buf F \<noteq> CHR ''/'' then F
      else if peek buf (F + 1) = CHR ''/'' then skipLineComment buf F
      else if peek buf (F + 1) \<noteq> CHR ''*'' then F
      else skipWhitespace buf (skipBlockComment buf F))"
  by pat_completeness auto
termination
proof (relation "measure (\<lambda>(buf, First). length buf - First)", goal_cases)
  case (2 buf First F)
  have "First \<le> F" "F + 1 \<le> snd (skipNewline buf (F + 1))"
    unfolding 2 by (rule skipOverSpaces_bounds skipNewline_bounds)+
  with 2 show ?case by simp
next
  case (3 buf First F)
  have "First \<le> F" unfolding 3 by (rule skipOverSpaces_bounds)
  moreover have "F < skipBlockComment buf F" using 3 by (intro skipBlockComment_bounds) simp
  ultimately show ?case using 3 by simp
qed simp

declare skipWhitespace.simps [simp del]

lemma skipWhitespace_bounds [scan_bounds]:
  "First \<le> length buf \<Longrightarrow> First \<le> skipWhitespace buf First \<and> skipWhitespace buf First \<le> length buf"
proof (induction "length buf - First" arbitrary: First rule: less_induct)
  case less
  let ?F = "skipOverSpaces buf First" and ?W = "skipWhitespace buf"
  have F: "First \<le> ?F" "?F \<le> length buf" using skipOverSpaces_bounds less.prems by auto
  note b = skipNewline_bounds [where First = "?F + 1" and buf = buf]
    skipLineComment_bounds [where First = ?F and buf = buf] skipBlockComment_bounds [where First = ?F and buf = buf]
  have "?W First = ?F \<or> ?W First = skipLineComment buf ?F \<and> 2 \<le> length buf - ?F \<or>
      (\<exists>G. ?F < G \<and> G \<le> length buf \<and> ?W First = ?W G \<and> First < length buf)"
    using b F by (subst (1 2 3) skipWhitespace.simps) (auto simp: Let_def Suc_le_eq)
  then show ?case
  proof (elim disjE exE conjE)
    fix G assume G: "?F < G" "G \<le> length buf" "?W First = ?W G" "First < length buf"
    then have "length buf - G < length buf - First" using F by simp
    from less.hyps [OF this] F G show ?thesis by simp
  qed (use F b in auto)
qed

lemma skipWhitespace_ge [scan_bounds]: "First \<le> skipWhitespace buf First"
proof (cases "First \<le> length buf")
  case True
  then show ?thesis using skipWhitespace_bounds by blast
next
  case False
  have F: "First \<le> skipOverSpaces buf First" by (rule skipOverSpaces_bounds)
  with False have "skipWhitespace buf First = skipOverSpaces buf First"
    by (subst skipWhitespace.simps) (simp add: Let_def)
  with F show ?thesis by simp
qed

section \<open>The minimizer object\<close>

datatype TokenKind =
    pp_none
  | pp_pragma_import
  | pp_pragma_once
  | decl_at_import
  | cxx_export_decl
  | cxx_module_decl
  | cxx_import_decl
  | pp_eof

datatype minimizer_diag =
    err_dep_source_minimizer_missing_sema_after_at_import
  | err_dep_source_minimizer_unexpected_tokens_at_import
  | err_pp_expected_eol

text \<open>
  \<open>Diags\<close> is \<open>None\<close> when there is no diagnostics engine.  A token is its kind and the
  offset into the output where it begins.  The table of identifiers split over lines only
  owns their storage and has no counterpart here.
\<close>

record minimizer =
  Out :: string
  Tokens :: "(TokenKind \<times> nat) list"
  Diags :: "(nat \<times> minimizer_diag) list option"

definition makeToken :: "TokenKind \<Rightarrow> minimizer \<Rightarrow> minimizer" where
  "makeToken K m = m\<lparr>Tokens := Tokens m @ [(K, length (Out m))]\<rparr>"

definition popToken :: "minimizer \<Rightarrow> minimizer" where
  "popToken m = m\<lparr>Out := take (snd (last (Tokens m))) (Out m), Tokens := butlast (Tokens m)\<rparr>"

definition top_token :: "minimizer \<Rightarrow> TokenKind" where
  "top_token m = (if Tokens m = [] then pp_none else fst (last (Tokens m)))"

definition put :: "char \<Rightarrow> minimizer \<Rightarrow> minimizer" where
  "put Byte m = m\<lparr>Out := Out m @ [Byte]\<rparr>"

definition append_out :: "string \<Rightarrow> minimizer \<Rightarrow> minimizer" where
  "append_out S m = m\<lparr>Out := Out m @ S\<rparr>"

definition reportError :: "nat \<Rightarrow> minimizer_diag \<Rightarrow> minimizer \<Rightarrow> bool \<times> minimizer" where
  "reportError CurPtr Err m = (True, m\<lparr>Diags := map_option (\<lambda>r. r @ [(CurPtr, Err)]) (Diags m)\<rparr>)"

section \<open>Printing\<close>

text \<open>
  One round of the inner loop of \<open>printToNewline\<close>: it moves \<open>First\<close> and \<open>Last\<close>, or returns
  from the function.
\<close>

datatype print_step = Moved nat nat minimizer | Returned nat minimizer

definition print_round :: "string \<Rightarrow> nat \<Rightarrow> nat \<Rightarrow> minimizer \<Rightarrow> print_step" where
  "print_round buf First Last m =
     (if peek buf Last = CHR 0x22 \<or> peek buf Last = CHR 0x27 \<or> peek buf Last = CHR ''<''
      then (if isRawStringLiteral buf First Last then Moved First (skipRawString buf Last) m
            else Moved First (skipString buf Last) m)
      else if peek buf Last \<noteq> CHR ''/'' \<or> length buf - Last < 2 then Moved First (Suc Last) m
      else if peek buf (Last + 1) \<noteq> CHR ''/'' \<and> peek buf (Last + 1) \<noteq> CHR ''*'' then Moved First (Suc Last) m
      else let m = append_out (slice buf First (findFirstTrailingSpace buf First Last)) m; First = Last in
      if peek buf (Last + 1) = CHR ''/'' then Returned (skipLineComment buf First) m
      else let m = put CHR '' '' m; First = skipOverSpaces buf (skipBlockComment buf First)
        in Moved First First m)"

lemma skip_comment_gt:
  "\<not> length buf - Last < 2 \<Longrightarrow> Last < skipOverSpaces buf (skipBlockComment buf Last)"
  using skipBlockComment_bounds(1) [where First = Last and buf = buf]
    skipOverSpaces_bounds(1) [where First = "skipBlockComment buf Last" and buf = buf]
  by linarith

lemma print_round_gt: "print_round buf First Last m = Moved F L m' \<Longrightarrow> Last < L"
  using skipRawString_bounds(1) [where First = Last and buf = buf]
    skipString_bounds(1) [where First = Last and buf = buf]
    skip_comment_gt [of buf Last]
  by (auto simp: print_round_def Let_def split: if_splits)

function print_scan :: "string \<Rightarrow> nat \<Rightarrow> nat \<Rightarrow> minimizer \<Rightarrow> print_step" where
  "print_scan buf First Last m =
     (case print_round buf First Last m of
        Returned F m' \<Rightarrow> Returned F m'
      | Moved F L m' \<Rightarrow> if L < length buf \<and> \<not> vert_at buf L then print_scan buf F L m' else Moved F L m')"
  by pat_completeness auto
termination
  by (relation "measure (\<lambda>(buf, First, Last, m). length buf - Last)")
    (auto dest!: print_round_gt intro!: diff_less_mono2)

declare print_scan.simps [simp del]

lemma print_scan_gt: "print_scan buf First Last m = Moved F L m' \<Longrightarrow> Last < L"
proof (induction buf First Last m rule: print_scan.induct)
  case (1 buf First Last m)
  show ?case
  proof (cases "print_round buf First Last m")
    case (Moved F1 L1 m1)
    from print_round_gt [OF this] 1(1) [OF Moved] 1(2) show ?thesis
      by (subst (asm) print_scan.simps) (auto simp: Moved split: if_splits)
  next
    case (Returned F1 m1)
    with 1(2) show ?thesis by (subst (asm) print_scan.simps) simp
  qed
qed

function printToNewline :: "string \<Rightarrow> nat \<Rightarrow> minimizer \<Rightarrow> nat \<times> minimizer" where
  "printToNewline buf First m =
     (if \<not> (First < length buf \<and> \<not> vert_at buf First) then (First, m)
      else case print_scan buf First First m of
        Returned F m' \<Rightarrow> (F, m')
      | Moved F Last m' \<Rightarrow>
          let LastBeforeTrailingSpace = findLastNonSpace buf F Last in
          if \<not> Last < length buf \<or> LastBeforeTrailingSpace = F \<or>
             peek buf (LastBeforeTrailingSpace - 1) \<noteq> CHR 0x5C
          then (snd (skipNewline buf Last), append_out (slice buf F LastBeforeTrailingSpace) m')
          else printToNewline buf (skipOverSpaces buf (snd (skipNewline buf Last)))
            (append_out (slice buf F (findFirstTrailingSpace buf F (LastBeforeTrailingSpace - 1))) m'))"
  by pat_completeness auto
termination
proof (relation "measure (\<lambda>(buf, First, m). length buf - First)", goal_cases)
  case (2 buf First m F Last m' L)
  have "First < Last" using 2 print_scan_gt by metis
  moreover have "Last \<le> snd (skipNewline buf Last)" by (rule skipNewline_bounds)
  moreover have "snd (skipNewline buf Last) \<le> skipOverSpaces buf (snd (skipNewline buf Last))"
    by (rule skipOverSpaces_bounds)
  ultimately have "First < skipOverSpaces buf (snd (skipNewline buf Last))" by linarith
  with 2 show ?case by (simp add: diff_less_mono2)
qed simp

declare printToNewline.simps [simp del]

definition printAdjacentModuleNameParts :: "string \<Rightarrow> nat \<Rightarrow> minimizer \<Rightarrow> nat \<times> minimizer" where
  "printAdjacentModuleNameParts buf First m =
     (let Last = scan_while (\<lambda>c. isIdentifierBody c False \<or> c = CHR ''.'') buf (Suc First)
      in (Last, append_out (slice buf First Last) m))"

function printAtImportBody :: "string \<Rightarrow> nat \<Rightarrow> minimizer \<Rightarrow> bool \<times> nat \<times> minimizer" where
  "printAtImportBody buf First m =
     (let F = skipWhitespace buf First in
      if \<not> F < length buf then (True, F, m)
      else if vert_at buf F then printAtImportBody buf (snd (skipNewline buf F)) m
      else if peek buf F = CHR '';'' then (False, Suc F, put CHR 0x0A (put (peek buf F) m))
      else if \<not> body_at buf F \<and> peek buf F \<noteq> CHR ''.'' then (True, F, m)
      else case printAdjacentModuleNameParts buf F m of (F', m') \<Rightarrow> printAtImportBody buf F' m')"
  by pat_completeness auto
termination
proof (relation "measure (\<lambda>(buf, First, m). length buf - First)", goal_cases)
  case (2 buf First m F)
  have "First \<le> F" unfolding 2 by (rule skipWhitespace_ge)
  moreover have "F < snd (skipNewline buf F)" using 2 by (intro skipNewline_bounds) auto
  ultimately show ?case using 2 by simp
next
  case (3 buf First m F F' m')
  have "First \<le> F" unfolding 3 by (rule skipWhitespace_ge)
  moreover have "F' = scan_while (\<lambda>c. isIdentifierBody c False \<or> c = CHR ''.'') buf (Suc F)"
    using 3 by (simp add: printAdjacentModuleNameParts_def Let_def)
  then have "F < F'" using scan_while_ge [of "Suc F"] by (simp add: Suc_le_eq)
  moreover have "F < length buf" using 3 by simp
  ultimately have "First < F'" "First < length buf" by linarith+
  then show ?case by (simp add: diff_less_mono2)
qed simp

declare printAtImportBody.simps [simp del]

text \<open>\<open>while (Out.back() == ' ') Out.pop_back();\<close>\<close>

definition pop_spaces :: "string \<Rightarrow> string" where
  "pop_spaces out = rev (dropWhile (\<lambda>c. c = CHR '' '') (rev out))"

definition printDirectiveBody :: "string \<Rightarrow> nat \<Rightarrow> minimizer \<Rightarrow> nat \<times> minimizer" where
  "printDirectiveBody buf First m =
     (case printToNewline buf (skipWhitespace buf First) m of
        (F, m') \<Rightarrow> (F, put CHR 0x0A (m'\<lparr>Out := pop_spaces (Out m')\<rparr>)))"

section \<open>Identifiers\<close>

definition lexRawIdentifier :: "string \<Rightarrow> nat \<Rightarrow> nat" where
  "lexRawIdentifier buf First = scan_while (\<lambda>c. isIdentifierBody c False) buf (Suc First)"

definition getIdentifierContinuation :: "string \<Rightarrow> nat \<Rightarrow> nat option" where
  "getIdentifierContinuation buf First =
     (if length buf - First < 3 \<or> peek buf First \<noteq> CHR 0x5C \<or> \<not> vert_at buf (First + 1) then None
      else let F = snd (skipNewline buf (Suc First)) in
      if \<not> F < length buf then None
      else if body_at buf F then Some F else None)"

lemma lexRawIdentifier_bounds [scan_bounds]:
  "First < lexRawIdentifier buf First" "First < length buf \<Longrightarrow> lexRawIdentifier buf First \<le> length buf"
  using scan_while_ge [of "Suc First"] by (simp_all add: lexRawIdentifier_def scan_while_le Suc_le_eq)

lemma getIdentifierContinuation_bounds [scan_bounds]:
  "getIdentifierContinuation buf First = Some F \<Longrightarrow> First < F \<and> F < length buf \<and> body_at buf F"
  using skipNewline_bounds(1) [where First = "Suc First" and buf = buf]
  by (auto simp: getIdentifierContinuation_def Let_def split: if_splits)

text \<open>The slow path: an identifier split over lines is put together piece by piece.\<close>

function split_identifier :: "string \<Rightarrow> nat \<Rightarrow> string \<Rightarrow> nat \<times> string" where
  "split_identifier buf Next Ident =
     (let Last = lexRawIdentifier buf Next; Ident' = Ident @ slice buf Next Last in
      case getIdentifierContinuation buf Last of
        None \<Rightarrow> (Last, Ident')
      | Some Next' \<Rightarrow> split_identifier buf Next' Ident')"
  by pat_completeness auto
termination
proof (relation "measure (\<lambda>(buf, Next, Ident). length buf - Next)", goal_cases)
  case (2 buf Next Ident Last Ident' Next')
  then have "Next < Next'" "Next' < length buf"
    using getIdentifierContinuation_bounds lexRawIdentifier_bounds(1) [of Next buf]
    by (metis order_less_trans)+
  then show ?case by (simp add: diff_less_mono2)
qed simp

declare split_identifier.simps [simp del]

definition lexIdentifier :: "string \<Rightarrow> nat \<Rightarrow> nat \<times> string" where
  "lexIdentifier buf First =
     (let Last = lexRawIdentifier buf First in
      case getIdentifierContinuation buf Last of
        None \<Rightarrow> (Last, slice buf First Last)
      | Some Next \<Rightarrow> split_identifier buf Next (slice buf First Last))"

definition isNextIdentifier :: "string \<Rightarrow> string \<Rightarrow> nat \<Rightarrow> bool \<times> nat" where
  "isNextIdentifier Ident buf First =
     (let F = skipWhitespace buf First in
      if \<not> F < length buf \<or> \<not> isIdentifierHead (peek buf F) False then (False, F)
      else case lexIdentifier buf F of (Last, Name) \<Rightarrow> (Name = Ident, Last))"

definition printAdjacentMacroArgs :: "string \<Rightarrow> nat \<Rightarrow> minimizer \<Rightarrow> nat \<times> minimizer" where
  "printAdjacentMacroArgs buf First m =
     (let Last = scan_while (\<lambda>c. isIdentifierBody c False \<or> c = CHR ''.'' \<or> c = CHR '','') buf (Suc First)
      in (Last, append_out (slice buf First Last) m))"

function macro_args_loop :: "string \<Rightarrow> nat \<Rightarrow> minimizer \<Rightarrow> bool \<times> nat \<times> minimizer" where
  "macro_args_loop buf First m =
     (let F = skipWhitespace buf First in
      if \<not> F < length buf then (True, F, m)
      else if peek buf F = CHR '')'' then (False, Suc F, put (peek buf F) m)
      else if \<not> (body_at buf F \<or> peek buf F = CHR ''.'' \<or> peek buf F = CHR '','') then (True, F, m)
      else case printAdjacentMacroArgs buf F m of (F', m') \<Rightarrow> macro_args_loop buf F' m')"
  by pat_completeness auto
termination
proof (relation "measure (\<lambda>(buf, First, m). length buf - First)", goal_cases)
  case (2 buf First m F F' m')
  have "First \<le> F" unfolding 2 by (rule skipWhitespace_ge)
  moreover have "F' = scan_while (\<lambda>c. isIdentifierBody c False \<or> c = CHR ''.'' \<or> c = CHR '','') buf (Suc F)"
    using 2 by (simp add: printAdjacentMacroArgs_def Let_def)
  then have "F < F'" using scan_while_ge [of "Suc F"] by (simp add: Suc_le_eq)
  moreover have "F < length buf" using 2 by simp
  ultimately have "First < F'" "First < length buf" by linarith+
  then show ?case by (simp add: diff_less_mono2)
qed simp

declare macro_args_loop.simps [simp del]

definition printMacroArgs :: "string \<Rightarrow> nat \<Rightarrow> minimizer \<Rightarrow> bool \<times> nat \<times> minimizer" where
  "printMacroArgs buf First m = macro_args_loop buf (Suc First) (put (peek buf First) m)"

section \<open>Lexing a line\<close>

definition lexAt :: "string \<Rightarrow> nat \<Rightarrow> minimizer \<Rightarrow> bool \<times> nat \<times> minimizer" where
  "lexAt buf First m =
     (let ImportLoc = First in
      case isNextIdentifier ''import'' buf (Suc First) of (found, F) \<Rightarrow>
      if \<not> found then (False, skipLine buf F, m)
      else case printAtImportBody buf F (append_out ''@import '' (makeToken decl_at_import m)) of (err, F, m) \<Rightarrow>
      if err then (case reportError ImportLoc err_dep_source_minimizer_missing_sema_after_at_import m of
        (e, m) \<Rightarrow> (e, F, m))
      else let F = skipWhitespace buf F in
      if \<not> F < length buf then (False, F, m)
      else if \<not> vert_at buf F
      then (case reportError ImportLoc err_dep_source_minimizer_unexpected_tokens_at_import m of
        (e, m) \<Rightarrow> (e, F, m))
      else (False, snd (skipNewline buf F), m))"

text \<open>The part of \<open>lexModule\<close> after the optional \<open>export\<close>.\<close>

definition lexModule_decl :: "bool \<Rightarrow> string \<Rightarrow> string \<Rightarrow> nat \<Rightarrow> minimizer \<Rightarrow> bool \<times> nat \<times> minimizer" where
  "lexModule_decl Export Name buf First m =
     (if Name \<noteq> ''module'' \<and> Name \<noteq> ''import'' then (False, skipLine buf First, m)
      else let F = skipWhitespace buf First in
      if peek buf F \<notin> {CHR '':'', CHR ''<'', CHR 0x22} \<and> \<not> body_at buf F then (False, skipLine buf F, m)
      else
        let m = (if Export then append_out ''export '' (makeToken cxx_export_decl m) else m);
            m = makeToken (if Name = ''module'' then cxx_module_decl else cxx_import_decl) m;
            m = append_out '' '' (append_out Name m)
        in case printToNewline buf F m of (F, m) \<Rightarrow> (False, F, append_out [CHR 0x0A] m))"

definition lexModule :: "string \<Rightarrow> nat \<Rightarrow> minimizer \<Rightarrow> bool \<times> nat \<times> minimizer" where
  "lexModule buf First m =
     (case lexIdentifier buf First of (F, Name) \<Rightarrow>
      if Name = ''export''
      then (let F = skipWhitespace buf F in
        if \<not> body_at buf F then (False, skipLine buf F, m)
        else case lexIdentifier buf F of (F, Name) \<Rightarrow> lexModule_decl True Name buf F m)
      else lexModule_decl False Name buf F m)"

definition lexPragma :: "string \<Rightarrow> nat \<Rightarrow> minimizer \<Rightarrow> bool \<times> nat \<times> minimizer" where
  "lexPragma buf First m =
     (let F = skipWhitespace buf First in
      if \<not> F < length buf \<or> \<not> isIdentifierHead (peek buf F) False then (False, F, m)
      else case lexIdentifier buf F of (F, Name) \<Rightarrow>
      if Name = ''once''
      then (False, skipLine buf F, append_out (''#pragma once'' @ [CHR 0x0A]) (makeToken pp_pragma_once m))
      else if Name \<noteq> ''clang'' then (False, skipLine buf F, m)
      else case isNextIdentifier ''module'' buf F of (found, F) \<Rightarrow>
      if \<not> found then (False, skipLine buf F, m)
      else case isNextIdentifier ''import'' buf F of (found, F) \<Rightarrow>
      if \<not> found then (False, skipLine buf F, m)
      else case printDirectiveBody buf F (append_out ''#pragma clang module import '' (makeToken pp_pragma_import m))
        of (F, m) \<Rightarrow> (False, F, m))"

definition lexDefault :: "TokenKind \<Rightarrow> string \<Rightarrow> string \<Rightarrow> nat \<Rightarrow> minimizer \<Rightarrow> bool \<times> nat \<times> minimizer" where
  "lexDefault Kind Directive buf First m =
     (case printDirectiveBody buf First
        (put CHR '' '' (append_out Directive (put CHR ''#'' (makeToken Kind m)))) of (F, m) \<Rightarrow> (False, F, m))"

definition isStartOfRelevantLine :: "char \<Rightarrow> bool" where
  "isStartOfRelevantLine c \<longleftrightarrow> c \<in> {CHR ''#'', CHR ''@'', CHR ''i'', CHR ''e'', CHR ''m''}"

text \<open>The string switch of \<open>lexPPLine\<close>: every other case of it is commented out.\<close>

definition directive_kind :: "string \<Rightarrow> TokenKind" where
  "directive_kind Name = (if Name = ''pragma'' then pp_pragma_import else pp_none)"

definition lexPPLine :: "string \<Rightarrow> nat \<Rightarrow> minimizer \<Rightarrow> bool \<times> nat \<times> minimizer" where
  "lexPPLine buf First m =
     (let F = skipWhitespace buf First in
      if \<not> F < length buf then (False, F, m)
      else if \<not> isStartOfRelevantLine (peek buf F) then (False, skipLine buf F, m)
      else if peek buf F = CHR ''@'' then lexAt buf F m
      else if peek buf F = CHR ''i'' \<or> peek buf F = CHR ''e'' \<or> peek buf F = CHR ''m'' then lexModule buf F m
      else let F = skipWhitespace buf (Suc F) in
      if \<not> F < length buf then (case reportError F err_pp_expected_eol m of (e, m) \<Rightarrow> (e, F, m))
      else if \<not> isIdentifierHead (peek buf F) False then (False, skipLine buf F, m)
      else case lexIdentifier buf F of (F, Name) \<Rightarrow>
      let Kind = directive_kind Name in
      if Kind = pp_none then (False, skipDirective Name buf F, m)
      else if Kind = pp_pragma_import then lexPragma buf F m
      else lexDefault Kind Name buf F m)"

definition skipUTF8ByteOrderMark :: "string \<Rightarrow> nat \<Rightarrow> nat" where
  "skipUTF8ByteOrderMark buf First =
     (if length buf - First \<ge> 3 \<and> peek buf First = CHR 0xEF \<and> peek buf (First + 1) = CHR 0xBB \<and>
        peek buf (First + 2) = CHR 0xBF then First + 3 else First)"

section \<open>The main loop\<close>

text \<open>
  What a step does to the object: the output only grows, new tokens lie in the new part
  of it, in order, and at most diagnostics are added.
\<close>

definition extends :: "minimizer \<Rightarrow> minimizer \<Rightarrow> bool" where
  "extends m m' \<longleftrightarrow> prefix (Out m) (Out m') \<and>
     (\<exists>ts. Tokens m' = Tokens m @ ts \<and> sorted (map snd ts) \<and>
       (\<forall>(k, i) \<in> set ts. length (Out m) \<le> i \<and> i \<le> length (Out m') \<and> k \<notin> {pp_none, pp_eof})) \<and>
     (Diags m = None \<longleftrightarrow> Diags m' = None)"

lemma extends_refl [simp]: "extends m m"
  by (simp add: extends_def)

lemma extends_trans [trans]: "extends m1 m2 \<Longrightarrow> extends m2 m3 \<Longrightarrow> extends m1 m3"
proof -
  assume a: "extends m1 m2" "extends m2 m3"
  then obtain ts us where t: "Tokens m2 = Tokens m1 @ ts" "sorted (map snd ts)"
    "\<forall>(k, i) \<in> set ts. length (Out m1) \<le> i \<and> i \<le> length (Out m2) \<and> k \<notin> {pp_none, pp_eof}"
    and u: "Tokens m3 = Tokens m2 @ us" "sorted (map snd us)"
    "\<forall>(k, i) \<in> set us. length (Out m2) \<le> i \<and> i \<le> length (Out m3) \<and> k \<notin> {pp_none, pp_eof}"
    and p: "prefix (Out m1) (Out m2)" "prefix (Out m2) (Out m3)"
    unfolding extends_def by blast
  have le: "length (Out m1) \<le> length (Out m2)" "length (Out m2) \<le> length (Out m3)"
    using p by (auto dest: prefix_length_le)
  have "sorted (map snd (ts @ us))" using t u by (fastforce simp: sorted_append)
  moreover have "\<forall>(k, i) \<in> set (ts @ us). length (Out m1) \<le> i \<and> i \<le> length (Out m3) \<and> k \<notin> {pp_none, pp_eof}"
    using t(3) u(3) le by fastforce
  ultimately show ?thesis
    using a p t(1) u(1) unfolding extends_def by (intro conjI exI [of _ "ts @ us"]) auto
qed

lemma extends_append [simp]: "extends m (append_out S m)"
  by (simp add: extends_def append_out_def)

lemma extends_put [simp]: "extends m (put c m)"
  by (simp add: extends_def put_def)

lemma extends_makeToken [simp]: "k \<notin> {pp_none, pp_eof} \<Longrightarrow> extends m (makeToken k m)"
  by (simp add: extends_def makeToken_def)

lemma extends_reportError: "reportError p e m = (b, m') \<Longrightarrow> extends m m'"
  by (auto simp: extends_def reportError_def)

text \<open>Printing functions only add bytes to the output.\<close>

definition prints :: "minimizer \<Rightarrow> minimizer \<Rightarrow> bool" where
  "prints m m' \<longleftrightarrow> prefix (Out m) (Out m') \<and> Tokens m' = Tokens m \<and> Diags m' = Diags m"

lemma prints_refl [simp]: "prints m m"
  by (simp add: prints_def)

lemma prints_trans [trans]: "prints m1 m2 \<Longrightarrow> prints m2 m3 \<Longrightarrow> prints m1 m3"
  by (auto simp: prints_def)

lemma prints_append [simp]: "prints m (append_out S m)"
  by (simp add: prints_def append_out_def)

lemma prints_put [simp]: "prints m (put c m)"
  by (simp add: prints_def put_def)

lemma prints_extends: "prints m m' \<Longrightarrow> extends m m'"
  by (simp add: prints_def extends_def)

lemma print_round_ok:
  assumes "First \<le> Last" "Last < length buf"
  shows "case print_round buf First Last m of
      Moved F L m' \<Rightarrow> First \<le> F \<and> F \<le> L \<and> L \<le> length buf \<and> prints m m'
    | Returned F m' \<Rightarrow> Last < F \<and> F \<le> length buf \<and> prints m m'"
proof -
  note b = skipRawString_bounds [where First = Last and buf = buf]
    skipString_bounds [where First = Last and buf = buf]
    skipLineComment_bounds [where First = Last and buf = buf]
    skipBlockComment_bounds [where First = Last and buf = buf]
    skipOverSpaces_bounds [where First = "skipBlockComment buf Last" and buf = buf]
  have "prints m (put CHR '' '' (append_out s m))" for s
    using prints_trans [OF prints_append prints_put] .
  with b assms show ?thesis
    by (auto simp: print_round_def Let_def Suc_le_eq split: if_splits)
qed

lemma print_scan_ok:
  "First \<le> Last \<Longrightarrow> Last < length buf \<Longrightarrow> case print_scan buf First Last m of
      Moved F L m' \<Rightarrow> First \<le> F \<and> F \<le> L \<and> Last < L \<and> L \<le> length buf \<and> prints m m' \<and>
        (L < length buf \<longrightarrow> vert_at buf L)
    | Returned F m' \<Rightarrow> Last < F \<and> F \<le> length buf \<and> prints m m'"
proof (induction buf First Last m rule: print_scan.induct)
  case (1 buf First Last m)
  note r = print_round_ok [OF 1(2,3), of m]
  show ?case
  proof (cases "print_round buf First Last m")
    case (Moved F L m1)
    note gt = print_round_gt [OF Moved]
    from r Moved have r: "First \<le> F" "F \<le> L" "L \<le> length buf" "prints m m1" by auto
    show ?thesis
    proof (cases "L < length buf \<and> \<not> vert_at buf L")
      case True
      then have "print_scan buf First Last m = print_scan buf F L m1"
        by (subst print_scan.simps) (simp add: Moved)
      with 1(1) [OF Moved True r(2)] True r gt show ?thesis
        by (auto split: print_step.splits intro: prints_trans)
    next
      case False
      then have "print_scan buf First Last m = Moved F L m1"
        by (subst print_scan.simps) (auto simp: Moved)
      with r gt False show ?thesis by auto
    qed
  next
    case (Returned F m1)
    then have "print_scan buf First Last m = Returned F m1" by (subst print_scan.simps) simp
    with r Returned show ?thesis by simp
  qed
qed

lemma printToNewline_ok:
  "First \<le> length buf \<Longrightarrow> printToNewline buf First m = (F, m') \<Longrightarrow>
    First \<le> F \<and> F \<le> length buf \<and> prints m m'"
proof (induction buf First m arbitrary: F m' rule: printToNewline.induct)
  case (1 buf First m)
  show ?case
  proof (cases "First < length buf \<and> \<not> vert_at buf First")
    case False
    with 1(2,3) show ?thesis by (simp add: printToNewline.simps [of buf First])
  next
    case True
    then have nf: "\<not> \<not> (First < length buf \<and> \<not> vert_at buf First)" by simp
    note sc = print_scan_ok [of First First buf m]
    show ?thesis
    proof (cases "print_scan buf First First m")
      case (Returned F1 m1)
      with True 1(3) sc show ?thesis by (subst (asm) printToNewline.simps) auto
    next
      case (Moved F1 L m1)
      with sc True have s: "First \<le> F1" "First < L" "L \<le> length buf" "prints m m1" by auto
      let ?B = "findLastNonSpace buf F1 L" and ?N = "snd (skipNewline buf L)"
      let ?c = "\<not> L < length buf \<or> ?B = F1 \<or> peek buf (?B - 1) \<noteq> CHR 0x5C"
      have N: "L \<le> ?N" "?N \<le> length buf" using skipNewline_bounds s(3) by auto
      show ?thesis
      proof (cases ?c)
        case c: True
        then have "printToNewline buf First m = (?N, append_out (slice buf F1 ?B) m1)"
          using True by (subst printToNewline.simps) (simp add: Moved Let_def)
        with 1(3) N s show ?thesis by (auto intro: prints_trans [OF _ prints_append])
      next
        case c: False
        let ?m = "append_out (slice buf F1 (findFirstTrailingSpace buf F1 (?B - 1))) m1"
        let ?S = "skipOverSpaces buf ?N"
        have S: "?N \<le> ?S" "?S \<le> length buf" using skipOverSpaces_bounds N by auto
        have eq: "printToNewline buf First m = printToNewline buf ?S ?m"
          using True c by (subst printToNewline.simps) (simp add: Moved Let_def)
        from 1(1) [OF nf Moved refl c S(2), of F m'] 1(3) eq have
          "?S \<le> F" "F \<le> length buf" "prints ?m m'" by auto
        with s N S show ?thesis
          using prints_trans [OF prints_trans [OF s(4) prints_append]] by auto
      qed
    qed
  qed
qed

lemma printAtImportBody_ok:
  "First \<le> length buf \<Longrightarrow> printAtImportBody buf First m = (e, F, m') \<Longrightarrow>
    First \<le> F \<and> F \<le> length buf \<and> prints m m'"
proof (induction buf First m arbitrary: e F m' rule: printAtImportBody.induct)
  case (1 buf First m)
  let ?W = "skipWhitespace buf First" and ?N = "snd (skipNewline buf (skipWhitespace buf First))"
  let ?A = "printAdjacentModuleNameParts buf (skipWhitespace buf First) m"
  have W: "First \<le> ?W" "?W \<le> length buf" using skipWhitespace_bounds [OF 1(3)] by auto
  consider (stop) "\<not> ?W < length buf \<or> (\<not> vert_at buf ?W \<and> peek buf ?W \<noteq> CHR '';'' \<and>
      \<not> body_at buf ?W \<and> peek buf ?W \<noteq> CHR ''.'')"
    | (nl) "?W < length buf" "vert_at buf ?W"
    | (semi) "?W < length buf" "\<not> vert_at buf ?W" "peek buf ?W = CHR '';''"
    | (part) "?W < length buf" "\<not> vert_at buf ?W" "peek buf ?W \<noteq> CHR '';''"
      "body_at buf ?W \<or> peek buf ?W = CHR ''.''"
    by blast
  then show ?case
  proof cases
    case stop
    then have "printAtImportBody buf First m = (True, ?W, m)"
      by (subst printAtImportBody.simps) (auto simp: Let_def isVerticalWhitespace_iff)
    with 1(4) W show ?thesis by auto
  next
    case nl
    then have eq: "printAtImportBody buf First m = printAtImportBody buf ?N m"
      by (subst printAtImportBody.simps) (simp add: Let_def)
    have N: "?W \<le> ?N" "?N \<le> length buf" using skipNewline_bounds W(2) by auto
    from 1(1) [OF refl _ nl(2) N(2), of e F m'] nl 1(4) eq N W show ?thesis by auto
  next
    case semi
    then have "printAtImportBody buf First m = (False, Suc ?W, put CHR 0x0A (put (peek buf ?W) m))"
      by (subst printAtImportBody.simps) (simp add: Let_def)
    with 1(4) W semi prints_trans [OF prints_put prints_put] show ?thesis by auto
  next
    case part
    then have eq: "printAtImportBody buf First m = printAtImportBody buf (fst ?A) (snd ?A)"
      by (subst printAtImportBody.simps) (auto simp: Let_def split_beta)
    have A: "Suc ?W \<le> fst ?A" "fst ?A \<le> length buf" "prints m (snd ?A)"
      using part(1) by (auto simp: printAdjacentModuleNameParts_def Let_def scan_while_ge intro: scan_while_le)
    from 1(2) [OF refl _ part(2,3) _ prod.collapse [of ?A] A(2), of e F m'] part eq 1(4)
    have "fst ?A \<le> F \<and> F \<le> length buf \<and> prints (snd ?A) m'" by auto
    with A W show ?thesis by (auto intro: prints_trans)
  qed
qed

lemma pop_spaces_prefix:
  assumes "prefix (xs @ [c]) ys" "c \<noteq> CHR '' ''"
  shows "prefix (xs @ [c]) (pop_spaces ys)"
proof -
  from assms obtain zs where zs: "ys = xs @ [c] @ zs" by (auto simp: prefix_def)
  show ?thesis
  proof (cases "\<forall>x \<in> set zs. x = CHR '' ''")
    case True
    have "dropWhile (\<lambda>c. c = CHR '' '') (rev zs @ c # rev xs) = dropWhile (\<lambda>c. c = CHR '' '') (c # rev xs)"
      by (rule dropWhile_append2) (use True in simp)
    with zs assms(2) show ?thesis by (simp add: pop_spaces_def)
  next
    case False
    then have "dropWhile (\<lambda>c. c = CHR '' '') (rev ys) = dropWhile (\<lambda>c. c = CHR '' '') (rev zs) @ c # rev xs"
      using zs by (auto simp: dropWhile_append1)
    then show ?thesis by (simp add: pop_spaces_def)
  qed
qed

lemma printDirectiveBody_ok:
  assumes "First \<le> length buf" "printDirectiveBody buf First m = (F, m')"
    and "Out m = xs @ [c, CHR '' '']" "c \<noteq> CHR '' ''"
  shows "First \<le> F" "F \<le> length buf" "prefix (xs @ [c]) (Out m')" "Tokens m' = Tokens m" "Diags m' = Diags m"
proof -
  let ?W = "skipWhitespace buf First"
  have W: "First \<le> ?W" "?W \<le> length buf" using skipWhitespace_bounds [OF assms(1)] by auto
  obtain m1 where m1: "printToNewline buf ?W m = (F, m1)" "m' = put CHR 0x0A (m1\<lparr>Out := pop_spaces (Out m1)\<rparr>)"
    using assms(2) by (auto simp: printDirectiveBody_def split: prod.splits)
  from printToNewline_ok [OF W(2) m1(1)] have b: "?W \<le> F" "F \<le> length buf" "prints m m1" by auto
  from b(3) assms(3) have "prefix (xs @ [c]) (Out m1)" by (auto simp: prints_def prefix_def)
  from pop_spaces_prefix [OF this assms(4)] have "prefix (xs @ [c]) (pop_spaces (Out m1))" .
  with m1(2) b(3) show "prefix (xs @ [c]) (Out m')" "Tokens m' = Tokens m" "Diags m' = Diags m"
    by (simp_all add: put_def prints_def prefix_prefix)
  from b W show "First \<le> F" "F \<le> length buf" by simp_all
qed

lemma split_identifier_bounds [scan_bounds]:
  "First < length buf \<Longrightarrow> split_identifier buf First Ident = (F, Name) \<Longrightarrow> First < F \<and> F \<le> length buf"
proof (induction buf First Ident rule: split_identifier.induct)
  case (1 buf Next Ident)
  let ?L = "lexRawIdentifier buf Next"
  have L: "Next < ?L" "?L \<le> length buf" using lexRawIdentifier_bounds 1(2) by auto
  show ?case
  proof (cases "getIdentifierContinuation buf ?L")
    case None
    with 1(3) L show ?thesis by (auto simp: split_identifier.simps [of buf Next] Let_def)
  next
    case (Some N)
    note N = getIdentifierContinuation_bounds [OF Some]
    with 1(1) [OF refl refl Some] 1(3) L Some show ?thesis
      by (auto simp: split_identifier.simps [of buf Next] Let_def)
  qed
qed

lemma lexIdentifier_bounds [scan_bounds]:
  assumes "First < length buf" "lexIdentifier buf First = (F, Name)"
  shows "First < F" "F \<le> length buf"
proof -
  let ?L = "lexRawIdentifier buf First"
  have L: "First < ?L" "?L \<le> length buf" using lexRawIdentifier_bounds assms(1) by auto
  have "First < F \<and> F \<le> length buf"
  proof (cases "getIdentifierContinuation buf ?L")
    case None
    with assms L show ?thesis by (auto simp: lexIdentifier_def Let_def)
  next
    case (Some N)
    with assms L getIdentifierContinuation_bounds [OF Some] split_identifier_bounds show ?thesis
      by (fastforce simp: lexIdentifier_def Let_def)
  qed
  then show "First < F" "F \<le> length buf" by auto
qed

lemma isNextIdentifier_bounds [scan_bounds]:
  "First \<le> length buf \<Longrightarrow> isNextIdentifier Ident buf First = (b, F) \<Longrightarrow> First \<le> F \<and> F \<le> length buf"
  using skipWhitespace_bounds [of First buf] lexIdentifier_bounds [of "skipWhitespace buf First" buf]
  by (fastforce simp: isNextIdentifier_def Let_def split: if_splits prod.splits)

subsection \<open>Lines\<close>

lemma lexAt_ok:
  assumes "First < length buf" "lexAt buf First m = (e, F, m')"
  shows "First < F \<and> F \<le> length buf \<and> extends m m'"
proof -
  obtain b F1 where n: "isNextIdentifier ''import'' buf (Suc First) = (b, F1)" by fastforce
  have F1: "Suc First \<le> F1" "F1 \<le> length buf" using isNextIdentifier_bounds [OF _ n] assms(1) by auto
  show ?thesis
  proof (cases b)
    case False
    with assms(2) n F1 skipLine_bounds [of F1 buf] show ?thesis by (auto simp: lexAt_def Let_def)
  next
    case True
    let ?m = "append_out ''@import '' (makeToken decl_at_import m)"
    obtain e2 F2 m2 where p: "printAtImportBody buf F1 ?m = (e2, F2, m2)" by (metis prod_cases3)
    from printAtImportBody_ok [OF F1(2) p] have p2: "F1 \<le> F2" "F2 \<le> length buf" "prints ?m m2" by auto
    have "extends m ?m" by (rule extends_trans [OF extends_makeToken extends_append]) simp
    then have m2: "extends m m2" using prints_extends [OF p2(3)] by (rule extends_trans)
    then have err: "extends m (snd (reportError k d m2))" for k d
      using extends_reportError [of k d m2] by (auto simp: reportError_def intro: extends_trans)
    have W: "F2 \<le> skipWhitespace buf F2" "skipWhitespace buf F2 \<le> length buf"
      using skipWhitespace_bounds [OF p2(2)] by auto
    with assms(2) n True p p2 m2 F1 err skipNewline_bounds [where First = "skipWhitespace buf F2" and buf = buf]
    show ?thesis by (auto simp: lexAt_def Let_def split_beta split: if_splits)
  qed
qed

lemma lexModule_decl_ok:
  assumes "First \<le> length buf" "lexModule_decl ex Name buf First m = (e, F, m')"
  shows "First \<le> F \<and> F \<le> length buf \<and> extends m m' \<and> \<not> e"
proof -
  let ?W = "skipWhitespace buf First"
  let ?m0 = "if ex then append_out ''export '' (makeToken cxx_export_decl m) else m"
  let ?m1 = "makeToken (if Name = ''module'' then cxx_module_decl else cxx_import_decl) ?m0"
  let ?m2 = "append_out '' '' (append_out Name ?m1)"
  have W: "First \<le> ?W" "?W \<le> length buf" using skipWhitespace_bounds [OF assms(1)] by auto
  obtain F1 m3 where p: "printToNewline buf ?W ?m2 = (F1, m3)" by fastforce
  from printToNewline_ok [OF W(2) p] have p1: "?W \<le> F1" "F1 \<le> length buf" "prints ?m2 m3" by auto
  have "extends m ?m0" using extends_trans [OF extends_makeToken extends_append] by simp
  also have "extends ?m0 ?m1" by (rule extends_makeToken) simp
  also have "extends ?m1 ?m2" using extends_trans [OF extends_append extends_append] .
  also have "extends ?m2 m3" using prints_extends [OF p1(3)] .
  also have "extends m3 (append_out [CHR 0x0A] m3)" by simp
  finally have ext: "extends m (append_out [CHR 0x0A] m3)" .
  show ?thesis
  proof (cases "(Name \<noteq> ''module'' \<and> Name \<noteq> ''import'') \<or>
      peek buf ?W \<notin> {CHR '':'', CHR ''<'', CHR 0x22} \<and> \<not> body_at buf ?W")
    case True
    with assms W skipLine_bounds [of First buf] skipLine_bounds [of ?W buf] show ?thesis
      by (auto simp: lexModule_decl_def Let_def split: if_splits)
  next
    case False
    then have "lexModule_decl ex Name buf First m = (False, F1, append_out [CHR 0x0A] m3)"
      using p unfolding lexModule_decl_def Let_def by auto
    with assms(2) ext p1 W show ?thesis by auto
  qed
qed

lemma lexModule_ok:
  assumes "First < length buf" "lexModule buf First m = (e, F, m')"
  shows "First < F \<and> F \<le> length buf \<and> extends m m' \<and> \<not> e"
proof -
  obtain F1 N where l: "lexIdentifier buf First = (F1, N)" by fastforce
  have F1: "First < F1" "F1 \<le> length buf" using lexIdentifier_bounds [OF assms(1) l] by auto
  let ?W = "skipWhitespace buf F1"
  have W: "F1 \<le> ?W" "?W \<le> length buf" using skipWhitespace_bounds [OF F1(2)] by auto
  show ?thesis
  proof (cases "N = ''export''")
    case False
    with assms(2) l lexModule_decl_ok [OF F1(2)] F1(1) show ?thesis by (fastforce simp: lexModule_def)
  next
    case True
    show ?thesis
    proof (cases "body_at buf ?W")
      case False
      with True assms(2) l W F1 skipLine_bounds [OF W(2)] show ?thesis by (auto simp: lexModule_def Let_def)
    next
      case b: True
      then have "?W < length buf"
        by (cases "?W < length buf") (auto simp: peek_def char_iffs)
      obtain F2 N2 where l2: "lexIdentifier buf ?W = (F2, N2)" by fastforce
      from lexIdentifier_bounds [OF \<open>?W < length buf\<close> l2] have F2: "?W < F2" "F2 \<le> length buf" by auto
      with True b assms(2) l l2 lexModule_decl_ok [OF F2(2)] F1(1) W show ?thesis
        by (fastforce simp: lexModule_def Let_def)
    qed
  qed
qed

lemma lexPragma_ok:
  assumes "First \<le> length buf" "lexPragma buf First m = (e, F, m')"
  shows "First \<le> F \<and> F \<le> length buf \<and> extends m m' \<and> \<not> e"
proof -
  let ?W = "skipWhitespace buf First"
  have W: "First \<le> ?W" "?W \<le> length buf" using skipWhitespace_bounds [OF assms(1)] by auto
  show ?thesis
  proof (cases "\<not> ?W < length buf \<or> \<not> isIdentifierHead (peek buf ?W) False")
    case True
    with assms(2) W show ?thesis by (auto simp: lexPragma_def Let_def)
  next
    case False
    obtain F1 N where l: "lexIdentifier buf ?W = (F1, N)" by fastforce
    have F1: "?W < F1" "F1 \<le> length buf" using lexIdentifier_bounds [OF _ l] False by auto
    obtain b2 F2 where n2: "isNextIdentifier ''module'' buf F1 = (b2, F2)" by fastforce
    obtain b3 F3 where n3: "isNextIdentifier ''import'' buf F2 = (b3, F3)" by fastforce
    have F2: "F1 \<le> F2" "F2 \<le> length buf" using isNextIdentifier_bounds [OF F1(2) n2] by auto
    have F3: "F2 \<le> F3" "F3 \<le> length buf" using isNextIdentifier_bounds [OF F2(2) n3] by auto
    note sk = skipLine_bounds [OF F1(2)] skipLine_bounds [OF F2(2)] skipLine_bounds [OF F3(2)]
    have once: "extends m (append_out (''#pragma once'' @ [CHR 0x0A]) (makeToken pp_pragma_once m))"
      by (rule extends_trans [OF extends_makeToken extends_append]) simp
    let ?m = "append_out ''#pragma clang module import '' (makeToken pp_pragma_import m)"
    obtain F4 m4 where p: "printDirectiveBody buf F3 ?m = (F4, m4)" by fastforce
    have out: "Out ?m = (Out m @ ''#pragma clang module impor'') @ [CHR ''t'', CHR '' '']"
      by (simp add: append_out_def makeToken_def)
    note d = printDirectiveBody_ok [OF F3(2) p out]
    have "extends m m4"
      using d(3-5) by (auto simp: extends_def append_out_def makeToken_def prefix_def)
    with assms(2) False l n2 n3 F1 F2 F3 W sk once p d(1,2) show ?thesis
      by (auto simp: lexPragma_def Let_def split: if_splits)
  qed
qed

lemma lexPPLine_ok:
  assumes "First < length buf" "lexPPLine buf First m = (e, F, m')"
  shows "First < F \<and> F \<le> length buf \<and> extends m m'"
proof -
  let ?W = "skipWhitespace buf First"
  have W: "First \<le> ?W" "?W \<le> length buf" using skipWhitespace_bounds [of First buf] assms(1) by auto
  consider (fin) "\<not> ?W < length buf" | (other) "?W < length buf" "\<not> isStartOfRelevantLine (peek buf ?W)"
    | (at) "?W < length buf" "peek buf ?W = CHR ''@''"
    | (mod) "?W < length buf" "peek buf ?W \<in> {CHR ''i'', CHR ''e'', CHR ''m''}"
    | (hash) "?W < length buf" "peek buf ?W = CHR ''#''"
    by (auto simp: isStartOfRelevantLine_def)
  then show ?thesis
  proof cases
    case fin
    with assms W show ?thesis by (auto simp: lexPPLine_def)
  next
    case other
    with assms(2) W skipLine_bounds [OF W(2)] show ?thesis by (auto simp: lexPPLine_def)
  next
    case at
    with assms(2) W lexAt_ok [OF at(1)] show ?thesis
      by (fastforce simp: lexPPLine_def isStartOfRelevantLine_def)
  next
    case mod
    with assms(2) W lexModule_ok [OF mod(1)] show ?thesis
      by (fastforce simp: lexPPLine_def isStartOfRelevantLine_def)
  next
    case hash
    let ?H = "skipWhitespace buf (Suc ?W)"
    have H: "Suc ?W \<le> ?H" "?H \<le> length buf" using skipWhitespace_bounds [of "Suc ?W" buf] hash by auto
    obtain F1 N where l: "lexIdentifier buf ?H = (F1, N)" by fastforce
    have F1: "?H < length buf \<Longrightarrow> ?H < F1 \<and> F1 \<le> length buf" using lexIdentifier_bounds [OF _ l] by auto
    have err: "extends m (snd (reportError k d m))" for k d
      using extends_reportError [of k d m] by (auto simp: reportError_def)
    have eq: "lexPPLine buf First m =
      (if \<not> ?H < length buf then (True, ?H, snd (reportError ?H err_pp_expected_eol m))
       else if \<not> isIdentifierHead (peek buf ?H) False then (False, skipLine buf ?H, m)
       else if N \<noteq> ''pragma'' then (False, skipDirective N buf F1, m) else lexPragma buf F1 m)"
      using hash l by (simp add: lexPPLine_def Let_def isStartOfRelevantLine_def directive_kind_def reportError_def)
    show ?thesis
      using assms(2) W H F1 err lexPragma_ok [of F1 buf m e F m'] skipLine_bounds [OF H(2)]
        skipDirective_bounds [of F1 buf N] unfolding eq by (auto split: if_splits)
  qed
qed

subsection \<open>Whole files\<close>

function minimize_loop :: "string \<Rightarrow> nat \<Rightarrow> minimizer \<Rightarrow> bool \<times> minimizer" where
  "minimize_loop buf First m =
     (if \<not> First < length buf then (False, m)
      else case lexPPLine buf First m of (err, F, m') \<Rightarrow>
        if err then (True, m') else minimize_loop buf F m')"
  by pat_completeness auto
termination
  by (relation "measure (\<lambda>(buf, First, m). length buf - First)")
    (auto dest!: lexPPLine_ok [OF _ sym] intro!: diff_less_mono2)

declare minimize_loop.simps [simp del]

definition minimizeImpl :: "string \<Rightarrow> nat \<Rightarrow> minimizer \<Rightarrow> bool \<times> minimizer" where
  "minimizeImpl buf First m = minimize_loop buf (skipUTF8ByteOrderMark buf First) m"

definition minimize :: "string \<Rightarrow> minimizer \<Rightarrow> bool \<times> minimizer" where
  "minimize Input m =
     (case minimizeImpl Input 0 m of (Error, m) \<Rightarrow>
      if Error then (True, m)
      else
        let m = (if Out m \<noteq> [] \<and> last (Out m) \<noteq> CHR 0x0A then put CHR 0x0A m else m)
        in (False, makeToken pp_eof m))"

definition minimizeSourceToDependencyDirectives ::
  "string \<Rightarrow> (nat \<times> minimizer_diag) list option \<Rightarrow> bool \<times> minimizer" where
  "minimizeSourceToDependencyDirectives Input diags =
     minimize Input \<lparr>Out = [], Tokens = [], Diags = diags\<rparr>"

text \<open>\<open>computeSkippedRanges\<close>: a loop over the tokens whose switch has only its default case left.\<close>

definition computeSkippedRanges :: "(TokenKind \<times> nat) list \<Rightarrow> (int \<times> int) list \<Rightarrow> bool \<times> (int \<times> int) list" where
  "computeSkippedRanges Input Ranges = (False, foldl (\<lambda>Ranges T. Ranges) Ranges Input)"

lemma minimize_loop_ok:
  "First \<le> length buf \<Longrightarrow> minimize_loop buf First m = (e, m') \<Longrightarrow> extends m m'"
proof (induction buf First m arbitrary: e m' rule: minimize_loop.induct)
  case (1 buf First m)
  show ?case
  proof (cases "First < length buf")
    case True
    obtain e1 F m1 where l: "lexPPLine buf First m = (e1, F, m1)" by (metis prod_cases3)
    note ok = lexPPLine_ok [OF True l]
    have eq: "minimize_loop buf First m = (if e1 then (True, m1) else minimize_loop buf F m1)"
      using True l by (subst minimize_loop.simps) simp
    show ?thesis
    proof (cases e1)
      case True
      with eq ok 1(3) show ?thesis by simp
    next
      case False
      then have "minimize_loop buf F m1 = (e, m')" using eq 1(3) by simp
      with 1(1) [OF _ l [symmetric] refl] ok True False have "extends m1 m'" by simp
      with ok show ?thesis by (auto intro: extends_trans)
    qed
  next
    case False
    with 1(3) show ?thesis by (simp add: minimize_loop.simps [of buf First])
  qed
qed

subsection \<open>Diagnostics\<close>

text \<open>One diagnostic when the step fails, none when it does not.\<close>

definition reports :: "bool \<Rightarrow> minimizer \<Rightarrow> minimizer \<Rightarrow> bool" where
  "reports e m m' \<longleftrightarrow> (if e then \<exists>p d. Diags m' = map_option (\<lambda>r. r @ [(p, d)]) (Diags m)
     else Diags m' = Diags m)"

lemma Diags_simps [simp]:
  "Diags (append_out S m) = Diags m" "Diags (put c m) = Diags m" "Diags (makeToken k m) = Diags m"
  by (simp_all add: append_out_def put_def makeToken_def)

lemma reports_simps [simp]:
  "reports False m m' \<longleftrightarrow> Diags m' = Diags m"
  "reports True m (m2\<lparr>Diags := map_option (\<lambda>r. r @ [(p, d)]) (Diags m)\<rparr>)"
  by (auto simp: reports_def)

lemma lexAt_reports:
  assumes "First < length buf" "lexAt buf First m = (e, F, m')"
  shows "reports e m m'"
proof -
  obtain b F1 where n: "isNextIdentifier ''import'' buf (Suc First) = (b, F1)" by fastforce
  have F1: "F1 \<le> length buf" using isNextIdentifier_bounds [OF _ n] assms(1) by auto
  obtain e2 F2 m2 where p: "printAtImportBody buf F1 (append_out ''@import '' (makeToken decl_at_import m)) = (e2, F2, m2)"
    by (metis prod_cases3)
  with printAtImportBody_ok [OF F1 p] have "Diags m2 = Diags m" by (simp add: prints_def)
  with assms(2) n p show ?thesis
    by (auto simp: lexAt_def Let_def reportError_def split: if_splits)
qed

lemma lexModule_decl_Diags:
  assumes "First \<le> length buf" "lexModule_decl ex Name buf First m = (e, F, m')"
  shows "Diags m' = Diags m"
proof -
  let ?W = "skipWhitespace buf First"
  let ?m0 = "if ex then append_out ''export '' (makeToken cxx_export_decl m) else m"
  let ?m2 = "append_out '' '' (append_out Name
    (makeToken (if Name = ''module'' then cxx_module_decl else cxx_import_decl) ?m0))"
  have W: "?W \<le> length buf" using skipWhitespace_bounds [OF assms(1)] by auto
  obtain F1 m3 where p: "printToNewline buf ?W ?m2 = (F1, m3)" by fastforce
  from printToNewline_ok [OF W p] have "Diags m3 = Diags m" by (auto simp: prints_def split: if_splits)
  with assms(2) p show ?thesis
    unfolding lexModule_decl_def Let_def by (auto split: if_splits)
qed

lemma lexModule_Diags:
  assumes "First < length buf" "lexModule buf First m = (e, F, m')"
  shows "Diags m' = Diags m"
proof -
  obtain F1 N where l: "lexIdentifier buf First = (F1, N)" by fastforce
  have F1: "F1 \<le> length buf" using lexIdentifier_bounds [OF assms(1) l] by auto
  let ?W = "skipWhitespace buf F1"
  obtain F2 N2 where l2: "lexIdentifier buf ?W = (F2, N2)" by fastforce
  have "body_at buf ?W \<Longrightarrow> ?W < length buf"
    by (cases "?W < length buf") (auto simp: peek_def char_iffs)
  then have F2: "body_at buf ?W \<Longrightarrow> F2 \<le> length buf" using lexIdentifier_bounds [OF _ l2] by auto
  have d: "lexModule_decl ex Name buf G m = (e, F, m') \<Longrightarrow> G \<le> length buf \<Longrightarrow> Diags m' = Diags m" for ex Name G
    using lexModule_decl_Diags by blast
  from assms(2) l l2 F1 F2 d [of False N F1] d [of True N2 F2] show ?thesis
    by (auto simp: lexModule_def Let_def split: if_splits)
qed

lemma lexPragma_Diags:
  assumes "First \<le> length buf" "lexPragma buf First m = (e, F, m')"
  shows "Diags m' = Diags m"
proof -
  let ?W = "skipWhitespace buf First"
  have W: "?W \<le> length buf" using skipWhitespace_bounds [OF assms(1)] by auto
  obtain F1 N where l: "lexIdentifier buf ?W = (F1, N)" by fastforce
  obtain b2 F2 where n2: "isNextIdentifier ''module'' buf F1 = (b2, F2)" by fastforce
  obtain b3 F3 where n3: "isNextIdentifier ''import'' buf F2 = (b3, F3)" by fastforce
  have F3: "?W < length buf \<Longrightarrow> F3 \<le> length buf"
    using lexIdentifier_bounds [OF _ l] isNextIdentifier_bounds [OF _ n2] isNextIdentifier_bounds [OF _ n3] by auto
  let ?m = "append_out ''#pragma clang module import '' (makeToken pp_pragma_import m)"
  obtain F4 m4 where p: "printDirectiveBody buf F3 ?m = (F4, m4)" by fastforce
  have out: "Out ?m = (Out m @ ''#pragma clang module impor'') @ [CHR ''t'', CHR '' '']"
    by (simp add: append_out_def makeToken_def)
  have "?W < length buf \<Longrightarrow> Diags m4 = Diags m" using printDirectiveBody_ok(5) [OF F3 p out] by simp
  with assms(2) l n2 n3 p show ?thesis
    by (auto simp: lexPragma_def Let_def split: if_splits)
qed

lemma lexPPLine_reports:
  assumes "First < length buf" "lexPPLine buf First m = (e, F, m')"
  shows "reports e m m'"
proof -
  let ?W = "skipWhitespace buf First"
  let ?H = "skipWhitespace buf (Suc ?W)"
  have W: "?W \<le> length buf" using skipWhitespace_bounds [of First buf] assms(1) by auto
  obtain F1 N where l: "lexIdentifier buf ?H = (F1, N)" by fastforce
  have F1: "?H < length buf \<Longrightarrow> F1 \<le> length buf" using lexIdentifier_bounds [OF _ l] by auto
  have r: "Diags m' = Diags m \<Longrightarrow> \<not> e \<Longrightarrow> reports e m m'" by (simp add: reports_def)
  consider (at) "?W < length buf" "peek buf ?W = CHR ''@''"
    | (mod) "?W < length buf" "peek buf ?W \<in> {CHR ''i'', CHR ''e'', CHR ''m''}"
    | (hash) "?W < length buf" "peek buf ?W = CHR ''#''"
    | (other) "\<not> ?W < length buf \<or> \<not> isStartOfRelevantLine (peek buf ?W)"
    by (auto simp: isStartOfRelevantLine_def)
  then show ?thesis
  proof cases
    case at
    with assms(2) lexAt_reports [OF at(1)] show ?thesis
      by (fastforce simp: lexPPLine_def isStartOfRelevantLine_def)
  next
    case mod
    with assms(2) have "lexModule buf ?W m = (e, F, m')"
      by (auto simp: lexPPLine_def isStartOfRelevantLine_def)
    from lexModule_Diags [OF mod(1) this] lexModule_ok [OF mod(1) this] show ?thesis by (simp add: reports_def)
  next
    case hash
    have "lexPPLine buf First m =
      (if \<not> ?H < length buf then (True, ?H, snd (reportError ?H err_pp_expected_eol m))
       else if \<not> isIdentifierHead (peek buf ?H) False then (False, skipLine buf ?H, m)
       else if N \<noteq> ''pragma'' then (False, skipDirective N buf F1, m) else lexPragma buf F1 m)"
      using hash l by (simp add: lexPPLine_def Let_def isStartOfRelevantLine_def directive_kind_def reportError_def)
    with assms(2) F1 lexPragma_Diags [of F1 buf m e F m'] lexPragma_ok [of F1 buf m e F m'] show ?thesis
      by (cases e) (auto simp: reportError_def split: if_splits)
  next
    case other
    with assms(2) show ?thesis by (auto simp: lexPPLine_def Let_def reports_def split: if_splits)
  qed
qed

lemma minimize_loop_reports:
  "First \<le> length buf \<Longrightarrow> minimize_loop buf First m = (e, m') \<Longrightarrow> reports e m m'"
proof (induction buf First m arbitrary: e m' rule: minimize_loop.induct)
  case (1 buf First m)
  show ?case
  proof (cases "First < length buf")
    case True
    obtain e1 F m1 where l: "lexPPLine buf First m = (e1, F, m1)" by (metis prod_cases3)
    note ok = lexPPLine_ok [OF True l] lexPPLine_reports [OF True l]
    have eq: "minimize_loop buf First m = (if e1 then (True, m1) else minimize_loop buf F m1)"
      using True l by (subst minimize_loop.simps) simp
    show ?thesis
    proof (cases e1)
      case True
      with eq ok 1(3) show ?thesis by simp
    next
      case False
      then have "minimize_loop buf F m1 = (e, m')" using eq 1(3) by simp
      with 1(1) [OF _ l [symmetric] refl] ok True False have "reports e m1 m'" by simp
      with ok False show ?thesis by (auto simp: reports_def)
    qed
  next
    case False
    with 1(3) show ?thesis by (simp add: minimize_loop.simps [of buf First] reports_def)
  qed
qed

section \<open>Properties\<close>

text \<open>
  C18. Every call of \<open>lexPPLine\<close> before the end of the buffer moves the pointer forward and
  never past the end, so the main loop of \<open>minimizeImpl\<close> terminates; it only appends to the
  output, with its new tokens in the new part, and reports one diagnostic exactly when it fails.
\<close>

theorem lexPPLine_progress:
  assumes "First < length buf"
  shows "case lexPPLine buf First m of (e, F, m') \<Rightarrow>
    First < F \<and> F \<le> length buf \<and> extends m m' \<and> reports e m m'"
  using lexPPLine_ok [OF assms] lexPPLine_reports [OF assms] by (auto split: prod.split)

theorem lexPPLine_progress_witness:
  "case lexPPLine ''x = 1;'' 0 \<lparr>Out = [], Tokens = [], Diags = None\<rparr> of (e, F, m') \<Rightarrow> 0 < F \<and> F \<le> 6"
  using lexPPLine_progress [of 0 "''x = 1;''" "\<lparr>Out = [], Tokens = [], Diags = None\<rparr>"]
  by (auto split: prod.splits)

text \<open>
  C19. Minimizing any input terminates with tokens whose offsets are in order and inside the
  output.  On success the output is empty or ends in a newline and the last token is
  \<open>pp_eof\<close> at its end; on failure exactly one diagnostic is reported, if there is an engine.
\<close>

theorem minimize_wellformed:
  "case minimizeSourceToDependencyDirectives Input diags of (e, m) \<Rightarrow>
     sorted (map snd (Tokens m)) \<and> (\<forall>(k, i) \<in> set (Tokens m). i \<le> length (Out m)) \<and>
     (if e then (\<exists>p d. Diags m = map_option (\<lambda>r. r @ [(p, d)]) diags) \<and> pp_eof \<notin> fst ` set (Tokens m)
      else Diags m = diags \<and> (Out m = [] \<or> last (Out m) = CHR 0x0A) \<and>
        Tokens m \<noteq> [] \<and> last (Tokens m) = (pp_eof, length (Out m)) \<and> pp_eof \<notin> fst ` set (butlast (Tokens m)))"
proof -
  let ?m0 = "\<lparr>Out = [], Tokens = [], Diags = diags\<rparr>"
  have b: "skipUTF8ByteOrderMark Input 0 \<le> length Input" by (auto simp: skipUTF8ByteOrderMark_def)
  obtain e m1 where l: "minimize_loop Input (skipUTF8ByteOrderMark Input 0) ?m0 = (e, m1)" by fastforce
  from minimize_loop_ok [OF b l] have x: "sorted (map snd (Tokens m1))"
    "\<forall>(k, i) \<in> set (Tokens m1). i \<le> length (Out m1) \<and> k \<notin> {pp_none, pp_eof}"
    by (auto simp: extends_def)
  from minimize_loop_reports [OF b l] have r: "reports e ?m0 m1" .
  let ?m2 = "if Out m1 \<noteq> [] \<and> last (Out m1) \<noteq> CHR 0x0A then put CHR 0x0A m1 else m1"
  have m2: "Tokens ?m2 = Tokens m1" "length (Out m1) \<le> length (Out ?m2)"
    "Out ?m2 = [] \<or> last (Out ?m2) = CHR 0x0A" "Diags ?m2 = Diags m1"
    by (simp_all add: put_def)
  have eq: "minimizeSourceToDependencyDirectives Input diags = (if e then (True, m1) else (False, makeToken pp_eof ?m2))"
    using l by (simp add: minimizeSourceToDependencyDirectives_def minimize_def minimizeImpl_def Let_def)
  show ?thesis
  proof (cases e)
    case True
    with eq x r show ?thesis by (force simp: reports_def)
  next
    case False
    from m2 x have "sorted (map snd (Tokens ?m2 @ [(pp_eof, length (Out ?m2))]))"
      by (fastforce simp: sorted_append)
    moreover have "\<forall>(k, i) \<in> set (Tokens ?m2). i \<le> length (Out ?m2) \<and> k \<noteq> pp_eof"
      using m2 x(2) by fastforce
    ultimately show ?thesis using False eq r m2
      by (force simp: makeToken_def)
  qed
qed

theorem minimize_wellformed_witness:
  "case minimizeSourceToDependencyDirectives (''int x; '' @ [CHR 0x0A] @ ''#pragma once'' @ [CHR 0x0A]) None of
     (e, m) \<Rightarrow> Out m = ''#pragma once'' @ [CHR 0x0A] \<and>
       (if e then True else last (Tokens m) = (pp_eof, length (Out m)))"
proof -
  let ?s = "''int x; '' @ [CHR 0x0A] @ ''#pragma once'' @ [CHR 0x0A]"
  have "Out (snd (minimizeSourceToDependencyDirectives ?s None)) = ''#pragma once'' @ [CHR 0x0A]" by code_simp
  with minimize_wellformed [of None ?s] show ?thesis by (auto split: prod.splits if_splits)
qed

text \<open>
  A directive other than \<open>#pragma\<close> leaves no trace in the output: \<open>#include\<close>,
  \<open>#define\<close>, \<open>#if\<close> and the rest are skipped like ordinary code.
\<close>

theorem directives_dropped:
  assumes "skipWhitespace buf First < length buf" "peek buf (skipWhitespace buf First) = CHR ''#''"
    and "skipWhitespace buf (Suc (skipWhitespace buf First)) = N" "N < length buf"
    and "lexIdentifier buf N = (Last, Name)" "Name \<noteq> ''pragma''"
  shows "\<exists>F. lexPPLine buf First m = (False, F, m)"
  using assms by (auto simp: lexPPLine_def Let_def isStartOfRelevantLine_def directive_kind_def)

theorem directives_dropped_witness:
  "\<forall>m. \<exists>F. lexPPLine ''#include <a.h>'' 0 m = (False, F, m)"
proof
  fix m
  show "\<exists>F. lexPPLine ''#include <a.h>'' 0 m = (False, F, m)"
    by (rule directives_dropped [where N = 1 and Last = 8 and Name = "''include''"]; code_simp)
qed

text \<open>
  A quote counts as the start of a raw string exactly after \<open>R\<close>, \<open>uR\<close>, \<open>UR\<close> or \<open>LR\<close>
  that does not continue an identifier; after \<open>u8R\<close> it never does, because the test for
  the \<open>u\<close> reads the character that was just found to be \<open>8\<close>.
\<close>

theorem isRawStringLiteral_prefixes:
  assumes "First + 3 < Cur" "peek buf Cur = CHR 0x22"
  shows "isRawStringLiteral buf First Cur = (peek buf (Cur - 1) = CHR ''R'' \<and>
      (\<not> body_at buf (Cur - 2) \<or>
       peek buf (Cur - 2) \<in> {CHR ''u'', CHR ''U'', CHR ''L''} \<and> \<not> body_at buf (Cur - 3))) \<and>
    (peek buf (Cur - 3) = CHR ''u'' \<and> peek buf (Cur - 2) = CHR ''8'' \<longrightarrow> \<not> isRawStringLiteral buf First Cur)"
  using assms
  by (auto simp: isRawStringLiteral_def Let_def numeral_2_eq_2 numeral_3_eq_3 isIdentifierBody_iff
      isIdentifierHead_iff isDigit_iff)

theorem isRawStringLiteral_prefixes_witness:
  "\<not> isRawStringLiteral (''= u8R'' @ [CHR 0x22] @ ''(x)'' @ [CHR 0x22]) 0 5 \<and>
   isRawStringLiteral (''= +uR'' @ [CHR 0x22] @ ''(x)'' @ [CHR 0x22]) 0 5"
  using isRawStringLiteral_prefixes [of 0 5 "''= u8R'' @ [CHR 0x22] @ ''(x)'' @ [CHR 0x22]"]
    isRawStringLiteral_prefixes [of 0 5 "''= +uR'' @ [CHR 0x22] @ ''(x)'' @ [CHR 0x22]"]
  by (simp add: peek_def isIdentifierBody_iff isIdentifierHead_iff isDigit_iff isLetter_iff
      isUppercase_iff isLowercase_iff)

text \<open>
  \<open>skipLine\<close> terminates inside the buffer, makes progress, and stops only at the end of
  the buffer or just behind a newline, whatever strings, raw strings, comments and line
  continuations it meets.
\<close>

theorem skipLine_stops_at_line:
  assumes "First \<le> length buf"
  shows "First \<le> skipLine buf First \<and> skipLine buf First \<le> length buf \<and>
    (skipLine buf First = length buf \<or> First < skipLine buf First \<and> vert_at buf (skipLine buf First - 1))"
  using assms
proof (induction buf First rule: skipLine.induct)
  case (1 buf First)
  let ?S = "skip_line_body buf First First"
  let ?N = "snd (skipNewline buf ?S)" and ?L = "fst (skipNewline buf ?S)"
  note b = skip_line_body_bounds [of First buf First] skipNewline_bounds [where First = ?S and buf = buf]
    skipNewline_bounds [where First = First and buf = buf]
  have nl: "vert_at buf (snd (skipNewline buf i) - 1)" if "i < length buf" "vert_at buf i" for i
    using that by (auto simp: skipNewline_def isEOL_def Let_def)
  show ?case
  proof (cases "First < length buf \<and> \<not> vert_at buf First \<and> ?S < length buf \<and> wasLineContinuation buf ?N ?L")
    case True
    then have "skipLine buf First = skipLine buf ?N"
      by (subst skipLine.simps) (simp add: Let_def split_beta)
    moreover have "?N \<le> skipLine buf ?N \<and> skipLine buf ?N \<le> length buf \<and>
        (skipLine buf ?N = length buf \<or> ?N < skipLine buf ?N \<and> vert_at buf (skipLine buf ?N - 1))"
      using 1(1) [OF _ _ refl _ prod.collapse] True b by simp
    ultimately show ?thesis using b True by auto
  next
    case False
    then have "skipLine buf First = (if \<not> First < length buf then First
        else if vert_at buf First then snd (skipNewline buf First)
        else if \<not> ?S < length buf then ?S else ?N)"
      by (subst skipLine.simps) (auto simp: Let_def split_beta)
    with b 1(2) nl [of First] nl [of ?S] show ?thesis by auto
  qed
qed

theorem skipLine_stops_at_line_witness:
  "skipLine (''a /*'' @ [CHR 0x0A] @ ''*/ b'' @ [CHR 0x0A] @ ''c'') 0 = 10 \<and>
   vert_at (''a /*'' @ [CHR 0x0A] @ ''*/ b'' @ [CHR 0x0A] @ ''c'') (10 - 1)"
proof -
  let ?s = "''a /*'' @ [CHR 0x0A] @ ''*/ b'' @ [CHR 0x0A] @ ''c''"
  have "skipLine ?s 0 = 10" by code_simp
  with skipLine_stops_at_line [of 0 ?s] show ?thesis by simp
qed

text \<open>
  \<open>computeSkippedRanges\<close> succeeds on every token list and computes no range at all.
\<close>

theorem no_skipped_ranges: "computeSkippedRanges toks [] = (False, [])"
  by (induction toks) (simp_all add: computeSkippedRanges_def)

end
