(* ===== verification/CharEscapes.thy ===== *)
theory CharEscapes
  imports CharInfo Scanner
begin

unbundle bit_operations_syntax

text \<open>
  The escape sequences of \<open>lib/Lex/LiteralSupport.cpp\<close>: character escapes and universal
  character names of character and string literals.  Positions are indices into the
  spelling of the token; a diagnostic is recorded with the place its range ends, when
  there is a diagnostics engine.  \<open>llvm::hexDigitValue\<close> and \<open>llvm::ConvertCodePointToUTF8\<close> are not
  part of the repository and are parameters.
\<close>

section \<open>Diagnostics and language options\<close>

datatype escape_diag =
    ext_nonstandard_escape char
  | err_hex_escape_no_digits
  | err_escape_too_large nat
  | ext_unknown_escape u32
  | err_ucn_escape_incomplete
  | err_ucn_escape_invalid
  | err_ucn_escape_basic_scs
  | err_ucn_control_character
  | warn_cxx98_compat_literal_ucn_escape_basic_scs
  | warn_cxx98_compat_literal_ucn_control_character
  | warn_ucn_not_valid_in_c89_literal

type_synonym escape_diags = "(nat \<times> escape_diag) list option"

definition Diag :: "nat \<Rightarrow> escape_diag \<Rightarrow> escape_diags \<Rightarrow> escape_diags" where
  "Diag pos d ds = map_option (\<lambda>r. r @ [(pos, d)]) ds"

record lang_options =
  CPlusPlus :: bool
  CPlusPlus11 :: bool
  CPlusPlus14 :: bool
  CPlusPlus17 :: bool
  CPlusPlus20 :: bool
  C99 :: bool
  FixedPoint :: bool
  Half :: bool
  MicrosoftExt :: bool
  CUDA :: bool
  HexFloats :: bool

text \<open>What LLVM documents of \<open>hexDigitValue\<close>: the digit's value, \<open>-1U\<close> for any other character.\<close>

definition hex_value :: "char \<Rightarrow> nat" where
  "hex_value c = (if isDigit c then of_char c - 48
     else if isLowercase c then of_char c - 87 else of_char c - 55)"

definition hexDigitValue_ok :: "(char \<Rightarrow> u32) \<Rightarrow> bool" where
  "hexDigitValue_ok hexDigitValue \<longleftrightarrow>
     (\<forall>c. hexDigitValue c = (if isHexDigit c then of_nat (hex_value c) else - 1))"

section \<open>Character escapes\<close>

text \<open>\<open>char\<close> is signed: its conversion to \<open>unsigned\<close> extends the sign.\<close>

definition char_to_unsigned :: "char \<Rightarrow> u32" where
  "char_to_unsigned c = word_of_int (if of_char c < (128 :: int) then of_char c else of_char c - 256)"

text \<open>The loop over the hex digits: place, value, and whether a digit was shifted out.\<close>

function hex_escape_loop :: "(char \<Rightarrow> u32) \<Rightarrow> string \<Rightarrow> nat \<Rightarrow> u32 \<Rightarrow> bool \<Rightarrow> nat \<times> u32 \<times> bool" where
  "hex_escape_loop hexDigitValue buf ThisTokBuf ResultChar Overflow =
     (if \<not> ThisTokBuf < length buf then (ThisTokBuf, ResultChar, Overflow)
      else let CharVal = hexDigitValue (peek buf ThisTokBuf) in
      if CharVal = - 1 then (ThisTokBuf, ResultChar, Overflow)
      else hex_escape_loop hexDigitValue buf (Suc ThisTokBuf) (push_bit 4 ResultChar OR CharVal)
        (Overflow \<or> ResultChar AND 0xF0000000 \<noteq> 0))"
  by pat_completeness auto
termination by (relation "measure (\<lambda>(_, buf, p, _, _). length buf - p)") auto

declare hex_escape_loop.simps [simp del]

definition octal_digit :: "char \<Rightarrow> bool" where
  "octal_digit c \<longleftrightarrow> of_char c \<in> {48..55 :: nat}"

text \<open>\<open>do { ... } while\<close> over at most three octal digits.\<close>

function octal_escape_loop :: "string \<Rightarrow> nat \<Rightarrow> u32 \<Rightarrow> nat \<Rightarrow> nat \<times> u32" where
  "octal_escape_loop buf ThisTokBuf ResultChar NumDigits =
     (let ResultChar = push_bit 3 ResultChar OR (char_to_unsigned (peek buf ThisTokBuf) - 48);
          ThisTokBuf = Suc ThisTokBuf; NumDigits = Suc NumDigits
      in if ThisTokBuf < length buf \<and> NumDigits < 3 \<and>
           octal_digit (peek buf ThisTokBuf)
         then octal_escape_loop buf ThisTokBuf ResultChar NumDigits
         else (ThisTokBuf, ResultChar))"
  by pat_completeness auto
termination by (relation "measure (\<lambda>(buf, p, _, n). 3 - n)") auto

declare octal_escape_loop.simps [simp del]

text \<open>\<open>CharWidth != 32 && (ResultChar >> CharWidth) != 0\<close> and the mask that follows it.\<close>

definition too_wide :: "nat \<Rightarrow> u32 \<Rightarrow> bool" where
  "too_wide CharWidth ResultChar \<longleftrightarrow> CharWidth \<noteq> 32 \<and> drop_bit CharWidth ResultChar \<noteq> 0"

definition truncate_char :: "nat \<Rightarrow> u32 \<Rightarrow> u32" where
  "truncate_char CharWidth ResultChar = ResultChar AND drop_bit (32 - CharWidth) (- 1)"

record escape_result =
  Result :: u32
  Pos :: nat
  HadError :: bool
  EscDiags :: escape_diags

definition ProcessCharEscape ::
  "(char \<Rightarrow> u32) \<Rightarrow> string \<Rightarrow> nat \<Rightarrow> bool \<Rightarrow> nat \<Rightarrow> escape_diags \<Rightarrow> escape_result" where
  "ProcessCharEscape hexDigitValue buf ThisTokBuf err CharWidth Diags =
     (let c = peek buf (Suc ThisTokBuf); P = ThisTokBuf + 2;
          plain = (\<lambda>r. \<lparr>Result = r, Pos = P, HadError = err, EscDiags = Diags\<rparr>);
          warn = (\<lambda>r d. \<lparr>Result = r, Pos = P, HadError = err, EscDiags = Diag P d Diags\<rparr>) in
      if c \<in> {CHR 0x5C, CHR 0x27, CHR 0x22, CHR ''?''} then plain (char_to_unsigned c)
      else if c = CHR ''a'' then plain 7
      else if c = CHR ''b'' then plain 8
      else if c = CHR ''e'' then warn 27 (ext_nonstandard_escape c)
      else if c = CHR ''E'' then warn 27 (ext_nonstandard_escape c)
      else if c = CHR ''f'' then plain 12
      else if c = CHR ''n'' then plain 10
      else if c = CHR ''r'' then plain 13
      else if c = CHR ''t'' then plain 9
      else if c = CHR ''v'' then plain 11
      else if c = CHR ''x'' then
        (if \<not> P < length buf \<or> \<not> isHexDigit (peek buf P)
         then \<lparr>Result = 0, Pos = P, HadError = True, EscDiags = Diag P err_hex_escape_no_digits Diags\<rparr>
         else case hex_escape_loop hexDigitValue buf P 0 False of (P', r, Overflow) \<Rightarrow>
           let wide = too_wide CharWidth r; r' = (if wide then truncate_char CharWidth r else r)
           in \<lparr>Result = r', Pos = P', HadError = err,
               EscDiags = (if Overflow \<or> wide then Diag P' (err_escape_too_large 0) Diags else Diags)\<rparr>)
      else if octal_digit c then
        (case octal_escape_loop buf (P - 1) 0 0 of (P', r) \<Rightarrow>
           if too_wide CharWidth r
           then \<lparr>Result = truncate_char CharWidth r, Pos = P', HadError = err,
               EscDiags = Diag P' (err_escape_too_large 1) Diags\<rparr>
           else \<lparr>Result = r, Pos = P', HadError = err, EscDiags = Diags\<rparr>)
      else if c \<in> {CHR ''('', CHR ''{'', CHR ''['', CHR ''%''} then
        warn (char_to_unsigned c) (ext_nonstandard_escape c)
      else warn (char_to_unsigned c) (ext_unknown_escape (char_to_unsigned c)))"

section \<open>Universal character names\<close>

function ucn_loop :: "(char \<Rightarrow> u32) \<Rightarrow> string \<Rightarrow> nat \<Rightarrow> u32 \<Rightarrow> nat \<Rightarrow> nat \<times> u32 \<times> nat" where
  "ucn_loop hexDigitValue buf ThisTokBuf UcnVal UcnLenSave =
     (if \<not> (ThisTokBuf < length buf \<and> UcnLenSave \<noteq> 0) then (ThisTokBuf, UcnVal, UcnLenSave)
      else let CharVal = hexDigitValue (peek buf ThisTokBuf) in
      if CharVal = - 1 then (ThisTokBuf, UcnVal, UcnLenSave)
      else ucn_loop hexDigitValue buf (Suc ThisTokBuf) (push_bit 4 UcnVal OR CharVal) (UcnLenSave - 1))"
  by pat_completeness auto
termination by (relation "measure (\<lambda>(_, _, _, _, n). n)") auto

declare ucn_loop.simps [simp del]

text \<open>The result: the value if the name is valid, the new place, and the diagnostics.\<close>

definition ProcessUCNEscape ::
  "(char \<Rightarrow> u32) \<Rightarrow> lang_options \<Rightarrow> string \<Rightarrow> nat \<Rightarrow> bool \<Rightarrow> escape_diags \<Rightarrow> u32 option \<times> nat \<times> escape_diags" where
  "ProcessUCNEscape hexDigitValue Features buf ThisTokBuf in_char_string_literal Diags =
     (let P = ThisTokBuf + 2 in
      if \<not> P < length buf \<or> \<not> isHexDigit (peek buf P) then (None, P, Diag P err_hex_escape_no_digits Diags)
      else let UcnLen = (if peek buf (P - 1) = CHR ''u'' then 4 else 8) in
      case ucn_loop hexDigitValue buf P 0 UcnLen of (P, UcnVal, UcnLenSave) \<Rightarrow>
      if UcnLenSave \<noteq> 0 then (None, P, Diag P err_ucn_escape_incomplete Diags)
      else if 0xD800 \<le> UcnVal \<and> UcnVal \<le> 0xDFFF \<or> UcnVal > 0x10FFFF
      then (None, P, Diag P err_ucn_escape_invalid Diags)
      else
        let basic = UcnVal < 0xA0 \<and> UcnVal \<noteq> 0x24 \<and> UcnVal \<noteq> 0x40 \<and> UcnVal \<noteq> 0x60;
            IsError = (\<not> CPlusPlus11 Features \<or> \<not> in_char_string_literal);
            Diags = (if \<not> basic then Diags
              else if UcnVal \<ge> 0x20 \<and> UcnVal < 0x7F
              then Diag P (if IsError then err_ucn_escape_basic_scs
                  else warn_cxx98_compat_literal_ucn_escape_basic_scs) Diags
              else Diag P (if IsError then err_ucn_control_character
                  else warn_cxx98_compat_literal_ucn_control_character) Diags)
        in if basic \<and> IsError then (None, P, Diags)
           else (Some UcnVal, P,
             if \<not> CPlusPlus Features \<and> \<not> C99 Features then Diag P warn_ucn_not_valid_in_c89_literal Diags
             else Diags))"

definition MeasureUCNEscape ::
  "(char \<Rightarrow> u32) \<Rightarrow> lang_options \<Rightarrow> string \<Rightarrow> nat \<Rightarrow> nat \<Rightarrow> bool \<Rightarrow> nat \<times> nat \<times> bool" where
  "MeasureUCNEscape hexDigitValue Features buf ThisTokBuf CharByteWidth err =
     (if CharByteWidth = 4 then (4, ThisTokBuf, err)
      else case ProcessUCNEscape hexDigitValue Features buf ThisTokBuf True None of
        (None, P, _) \<Rightarrow> (0, P, True)
      | (Some UcnVal, P, _) \<Rightarrow>
          (if CharByteWidth = 2 then (if UcnVal \<le> 0xFFFF then 2 else 4)
           else if UcnVal < 0x80 then 1
           else if UcnVal < 0x800 then 2
           else if UcnVal < 0x10000 then 3 else 4, P, err))"

text \<open>
  The UTF-8 bytes are written backwards: each continuation byte takes six bits off the
  value, and the first byte takes what is left with the mark of the length.
\<close>

fun utf8_bytes :: "nat \<Rightarrow> u32 \<Rightarrow> u8 list \<Rightarrow> u8 list" where
  "utf8_bytes 0 UcnVal tail = tail"
| "utf8_bytes (Suc 0) UcnVal tail =
     ucast (UcnVal OR [0x00, 0x00, 0xC0, 0xE0, 0xF0] ! Suc (length tail)) # tail"
| "utf8_bytes (Suc (Suc n)) UcnVal tail =
     utf8_bytes (Suc n) (drop_bit 6 UcnVal) (ucast ((UcnVal OR 0x80) AND 0xBF) # tail)"

definition bytesToWrite :: "u32 \<Rightarrow> nat" where
  "bytesToWrite UcnVal = (if UcnVal < 0x80 then 1 else if UcnVal < 0x800 then 2
     else if UcnVal < 0x10000 then 3 else 4)"

datatype code_units = Units8 "u8 list" | Units16 "u16 list" | Units32 "u32 list"

definition encode_ucn :: "nat \<Rightarrow> u32 \<Rightarrow> code_units" where
  "encode_ucn CharByteWidth UcnVal =
     (if CharByteWidth = 4 then Units32 [UcnVal]
      else if CharByteWidth = 2 then
        (if UcnVal \<le> 0xFFFF then Units16 [ucast UcnVal]
         else let V = UcnVal - 0x10000
           in Units16 [ucast (0xD800 + drop_bit 10 V), ucast (0xDC00 + (V AND 0x3FF))])
      else Units8 (utf8_bytes (bytesToWrite UcnVal) UcnVal []))"

text \<open>The units are appended at \<open>ResultBuf\<close>; \<open>None\<close> when the escape is in error.\<close>

definition EncodeUCNEscape ::
  "(char \<Rightarrow> u32) \<Rightarrow> lang_options \<Rightarrow> string \<Rightarrow> nat \<Rightarrow> nat \<Rightarrow> bool \<Rightarrow> escape_diags \<Rightarrow>
   code_units option \<times> nat \<times> bool \<times> escape_diags" where
  "EncodeUCNEscape hexDigitValue Features buf ThisTokBuf CharByteWidth err Diags =
     (case ProcessUCNEscape hexDigitValue Features buf ThisTokBuf True Diags of
        (None, P, ds) \<Rightarrow> (None, P, True, ds)
      | (Some UcnVal, P, ds) \<Rightarrow> (Some (encode_ucn CharByteWidth UcnVal), P, err, ds))"

section \<open>Digits of an escape\<close>

lemma low_bits_disjoint:
  fixes r :: "'a::len word"
  assumes "d < 2 ^ n"
  shows "push_bit n r OR of_nat d = 2 ^ n * r + of_nat d"
proof -
  have "take_bit n (of_nat d :: 'a word) = of_nat d"
    using assms by (simp add: take_bit_of_nat take_bit_nat_eq_self)
  then have "push_bit n r AND of_nat d = push_bit n r AND take_bit n (of_nat d)" by simp
  also have "\<dots> = 0" by (rule bit_eqI) (auto simp: bit_simps)
  finally have "push_bit n r + of_nat d = push_bit n r OR of_nat d" by (rule disjunctive_add_eq_or)
  then show ?thesis by (simp add: push_bit_eq_mult mult.commute)
qed

lemma top_nibble: "(r :: u32) AND 0xF0000000 \<noteq> 0 \<longleftrightarrow> 2 ^ 28 \<le> unat r"
proof -
  have "(0xF0000000 :: u32) = NOT (mask 28)" by (simp add: mask_eq_exp_minus_1 not_eq_complement)
  moreover have "r AND NOT (mask 28) = 0 \<longleftrightarrow> take_bit 28 r = r"
    unfolding take_bit_eq_mask bit_eq_iff by (simp only: bit_and_iff bit_not_iff bit_mask_iff bit_0_eq) auto
  moreover have "drop_bit 28 r = 0 \<longleftrightarrow> unat r < 2 ^ 28"
    by (simp only: word_unat_eq_iff unat_drop_bit_eq) (simp add: drop_bit_eq_div div_eq_0_iff)
  ultimately show ?thesis by (simp only: take_bit_eq_self_iff_drop_bit_eq_0) auto
qed

lemma hex_value_less: "isHexDigit c \<Longrightarrow> hex_value c < 16"
  by (auto simp: hex_value_def char_iffs)

lemma hexDigitValue_digit:
  assumes "hexDigitValue_ok h"
  shows "h c = - 1 \<longleftrightarrow> \<not> isHexDigit c" "isHexDigit c \<Longrightarrow> h c = of_nat (hex_value c)"
proof -
  have "(of_nat n :: u32) \<noteq> - 1" if "n < 16" for n
  proof
    assume "(of_nat n :: u32) = - 1"
    then have "(of_nat (Suc n) :: u32) = 0" by simp
    then have "2 ^ 32 dvd Suc n" by (simp only: word_of_nat_eq_0_iff) simp
    then show False using that by (auto dest: dvd_imp_le)
  qed
  with assms hex_value_less [of c] show "h c = - 1 \<longleftrightarrow> \<not> isHexDigit c"
    by (auto simp: hexDigitValue_ok_def)
  from assms show "isHexDigit c \<Longrightarrow> h c = of_nat (hex_value c)" by (simp add: hexDigitValue_ok_def)
qed

text \<open>The value of a run of digits in a base.\<close>

definition digits_value :: "nat \<Rightarrow> nat \<Rightarrow> string \<Rightarrow> nat" where
  "digits_value base v ds = foldl (\<lambda>v c. base * v + hex_value c) v ds"

lemma digits_value_simps [simp]:
  "digits_value base v [] = v"
  "digits_value base v (c # ds) = digits_value base (base * v + hex_value c) ds"
  by (simp_all add: digits_value_def)

lemma digits_value_append [simp]:
  "digits_value base v (xs @ ys) = digits_value base (digits_value base v xs) ys"
  by (simp add: digits_value_def)

lemma digits_value_ge: "0 < base \<Longrightarrow> v \<le> digits_value base v ds"
proof (induction ds arbitrary: v)
  case (Cons c ds)
  have "v \<le> base * v + hex_value c" using Cons.prems by (cases base) simp_all
  also have "\<dots> \<le> digits_value base (base * v + hex_value c) ds" by (rule Cons.IH [OF Cons.prems])
  finally show ?case by simp
qed simp

lemma slice_Cons: "i < j \<Longrightarrow> j \<le> length buf \<Longrightarrow> slice buf i j = peek buf i # slice buf (Suc i) j"
  by (simp add: slice_def peek_def take_Cons' Cons_nth_drop_Suc [symmetric] Suc_diff_Suc [symmetric])

lemma hex_escape_loop_value:
  assumes "hexDigitValue_ok h"
  shows "p \<le> length buf \<Longrightarrow> hex_escape_loop h buf p (of_nat v) (2 ^ 32 \<le> v) =
    (let e = scan_while isHexDigit buf p; V = digits_value 16 v (slice buf p e) in (e, of_nat V, 2 ^ 32 \<le> V))"
proof (induction "length buf - p" arbitrary: p v)
  case 0
  then show ?case
    by (subst hex_escape_loop.simps) (simp add: Let_def scan_while_skip)
next
  case (Suc n)
  then have lt: "p < length buf" by simp
  show ?case
  proof (cases "isHexDigit (peek buf p)")
    case False
    then show ?thesis
      using hexDigitValue_digit(1) [OF assms, of "peek buf p"]
      by (subst hex_escape_loop.simps) (simp add: Let_def scan_while_skip lt)
  next
    case True
    let ?d = "hex_value (peek buf p)"
    have d: "?d < 2 ^ 4" using hex_value_less [OF True] by simp
    have val: "push_bit 4 (of_nat v) OR of_nat ?d = (of_nat (16 * v + ?d) :: u32)"
      by (subst low_bits_disjoint [OF d]) simp
    have ov: "(2 ^ 32 \<le> v \<or> (of_nat v :: u32) AND 0xF0000000 \<noteq> 0) = (2 ^ 32 \<le> 16 * v + ?d)"
    proof (cases "v < 2 ^ 32")
      case True
      then have "unat (of_nat v :: u32) = v" by (simp add: unat_of_nat)
      then have "(2 ^ 32 \<le> v \<or> (of_nat v :: u32) AND 0xF0000000 \<noteq> 0) = (268435456 \<le> v)"
        using True unfolding top_nibble by simp
      also have "\<dots> = (4294967296 \<le> 16 * v + ?d)" using d by (simp; presburger)
      finally show ?thesis by simp
    qed simp
    have e: "scan_while isHexDigit buf p = scan_while isHexDigit buf (Suc p)"
      by (rule scan_while_Suc [where test = isHexDigit, OF lt True])
    have "Suc p \<le> scan_while isHexDigit buf (Suc p)" "scan_while isHexDigit buf (Suc p) \<le> length buf"
      using scan_while_ge scan_while_le lt by (simp_all add: Suc_leI)
    then have sl: "slice buf p (scan_while isHexDigit buf (Suc p)) =
        peek buf p # slice buf (Suc p) (scan_while isHexDigit buf (Suc p))"
      by (intro slice_Cons) auto
    have "hex_escape_loop h buf p (of_nat v) (2 ^ 32 \<le> v) =
        hex_escape_loop h buf (Suc p) (of_nat (16 * v + ?d)) (2 ^ 32 \<le> 16 * v + ?d)"
      using hexDigitValue_digit [OF assms, of "peek buf p"] True lt ov
      by (subst hex_escape_loop.simps) (simp add: Let_def val)
    also have "\<dots> = (let e = scan_while isHexDigit buf (Suc p);
        V = digits_value 16 (16 * v + ?d) (slice buf (Suc p) e) in (e, of_nat V, 2 ^ 32 \<le> V))"
      using Suc.hyps(2) lt by (intro Suc.hyps(1)) auto
    finally show ?thesis by (simp add: Let_def e sl)
  qed
qed

section \<open>Cutting a value to the width of a character\<close>

lemma drop_bit_zero_iff: "drop_bit w (r :: u32) = 0 \<longleftrightarrow> unat r < 2 ^ w"
  by (simp only: word_unat_eq_iff unat_drop_bit_eq) (simp add: drop_bit_eq_div div_eq_0_iff)

lemma truncate_char_value:
  assumes "0 < w" "w < 32"
  shows "truncate_char w r = of_nat (unat r mod 2 ^ w)"
proof -
  have "drop_bit (32 - w) (- 1 :: u32) = mask w"
    using assms by (intro bit_eqI) (auto simp: bit_simps)
  then have "truncate_char w r = take_bit w r" by (simp add: truncate_char_def take_bit_eq_mask)
  also have "\<dots> = of_nat (take_bit w (unat r))" by (simp flip: take_bit_of_nat)
  finally show ?thesis by (simp add: take_bit_eq_mod)
qed

text \<open>The value, whether it is cut, and the value that is left.\<close>

lemma fit_char:
  assumes w: "0 < w" "w \<le> 32"
  shows "(2 ^ 32 \<le> V \<or> too_wide w (of_nat V)) = (2 ^ w \<le> V)"
    and "(if too_wide w (of_nat V) then truncate_char w (of_nat V) else of_nat V) = (of_nat (V mod 2 ^ w) :: u32)"
proof -
  have u: "unat (of_nat V :: u32) = V mod 2 ^ 32" by (simp add: unat_of_nat)
  have dvd: "(2 :: nat) ^ w dvd 2 ^ 32" by (rule le_imp_power_dvd [OF w(2)])
  have mm: "V mod 2 ^ 32 mod 2 ^ w = V mod 2 ^ w" by (rule mod_mod_cancel [OF dvd])
  have le: "(2 :: nat) ^ w \<le> 2 ^ 32" using w by (intro power_increasing) auto
  have tw: "too_wide w (of_nat V) \<longleftrightarrow> w \<noteq> 32 \<and> 2 ^ w \<le> V mod 2 ^ 32"
    by (auto simp: too_wide_def drop_bit_zero_iff u not_less)
  show "(2 ^ 32 \<le> V \<or> too_wide w (of_nat V)) = (2 ^ w \<le> V)"
  proof (cases "V < 2 ^ 32")
    case True
    then show ?thesis using tw by (cases "w = 32") simp_all
  next
    case False
    then show ?thesis using le by simp
  qed
  show "(if too_wide w (of_nat V) then truncate_char w (of_nat V) else of_nat V) = (of_nat (V mod 2 ^ w) :: u32)"
  proof (cases "too_wide w (of_nat V)")
    case True
    then have "w < 32" using tw w by auto
    then show ?thesis using True truncate_char_value [OF w(1), of "of_nat V"] u mm by simp
  next
    case False
    then have "V mod 2 ^ 32 mod 2 ^ w = V mod 2 ^ 32" using tw by (cases "w = 32") simp_all
    then have "of_nat (V mod 2 ^ w) = (of_nat (V mod 2 ^ 32) :: u32)" using mm by simp
    also have "\<dots> = of_nat V" by (simp add: word_of_nat_eq_iff take_bit_eq_mod)
    finally show ?thesis using False by simp
  qed
qed

lemma octal_hex_value: "octal_digit c \<Longrightarrow> hex_value c < 8 \<and> hex_value c = of_char c - 48"
  by (auto simp: octal_digit_def hex_value_def isDigit_iff)

lemma octal_char_value: "octal_digit c \<Longrightarrow> char_to_unsigned c - 48 = of_nat (hex_value c)"
proof -
  assume o: "octal_digit c"
  then have c: "of_char c = (int (hex_value c) + 48)" "hex_value c < 8"
    using octal_hex_value [OF o] of_nat_of_char [of c, where 'a = int] by (auto simp: octal_digit_def)
  then have "char_to_unsigned c = of_nat (hex_value c) + 48" by (simp add: char_to_unsigned_def)
  then show ?thesis by simp
qed

lemma octal_escape_loop_value:
  "n < 3 \<Longrightarrow> p < length buf \<Longrightarrow> octal_digit (peek buf p) \<Longrightarrow>
   octal_escape_loop buf p (of_nat v) n =
     (let e = min (p + (3 - n)) (scan_while octal_digit buf p) in (e, of_nat (digits_value 8 v (slice buf p e))))"
proof (induction "3 - n" arbitrary: n p v)
  case (Suc k)
  let ?d = "hex_value (peek buf p)" and ?e = "scan_while octal_digit buf (Suc p)"
  have d: "?d < 2 ^ 3" using octal_hex_value [OF Suc.prems(3)] by simp
  have val: "push_bit 3 (of_nat v) OR (char_to_unsigned (peek buf p) - 48) = (of_nat (8 * v + ?d) :: u32)"
    unfolding octal_char_value [OF Suc.prems(3)] by (subst low_bits_disjoint [OF d]) simp
  have e: "scan_while octal_digit buf p = ?e" by (rule scan_while_Suc [where test = octal_digit, OF Suc.prems(2,3)])
  have ge: "Suc p \<le> ?e" "?e \<le> length buf" using scan_while_ge scan_while_le Suc.prems(2) by (simp_all add: Suc_leI)
  have sl: "slice buf p j = peek buf p # slice buf (Suc p) j" if "Suc p \<le> j" "j \<le> ?e" for j
    using that ge by (intro slice_Cons) auto
  show ?case
  proof (cases "Suc p < length buf \<and> Suc n < 3 \<and> octal_digit (peek buf (Suc p))")
    case True
    then have "octal_escape_loop buf p (of_nat v) n = octal_escape_loop buf (Suc p) (of_nat (8 * v + ?d)) (Suc n)"
      by (subst octal_escape_loop.simps) (simp only: Let_def val if_True simp_thms)
    also have "\<dots> = (let e = min (Suc p + (3 - Suc n)) ?e in (e, of_nat (digits_value 8 (8 * v + ?d) (slice buf (Suc p) e))))"
      using True Suc.hyps(2) by (intro Suc.hyps(1)) auto
    also have "Suc p + (3 - Suc n) = p + (3 - n)" using Suc.prems(1) by simp
    finally show ?thesis using sl [of "min (p + (3 - n)) ?e"] ge Suc.prems(1) by (simp add: Let_def e)
  next
    case False
    then have A: "octal_escape_loop buf p (of_nat v) n = (Suc p, of_nat (8 * v + ?d))"
      by (subst octal_escape_loop.simps) (auto simp only: Let_def val if_False)
    have m: "min (p + (3 - n)) ?e = Suc p"
    proof (cases "Suc n < 3")
      case True
      with False have "?e = Suc p" by (intro scan_while_skip) auto
      with Suc.prems(1) show ?thesis by simp
    qed (use Suc.prems(1) ge in simp)
    show ?thesis unfolding Let_def e m using A sl [of "Suc p"] ge by simp
  qed
qed simp

section \<open>Encodings\<close>

text \<open>Strict decoders of UTF-8 and UTF-16: shortest forms only, no surrogates.\<close>

definition continuation :: "nat \<Rightarrow> bool" where
  "continuation b \<longleftrightarrow> 0x80 \<le> b \<and> b < 0xC0"

fun utf8_decode :: "nat list \<Rightarrow> nat option" where
  "utf8_decode [a] = (if a < 0x80 then Some a else None)"
| "utf8_decode [a, b] = (let v = (a - 0xC0) * 64 + (b - 0x80) in
     if 0xC0 \<le> a \<and> a < 0xE0 \<and> continuation b \<and> 0x80 \<le> v then Some v else None)"
| "utf8_decode [a, b, c] = (let v = (a - 0xE0) * 4096 + (b - 0x80) * 64 + (c - 0x80) in
     if 0xE0 \<le> a \<and> a < 0xF0 \<and> continuation b \<and> continuation c \<and> 0x800 \<le> v \<and> v \<notin> {0xD800..0xDFFF}
     then Some v else None)"
| "utf8_decode [a, b, c, d] = (let v = (a - 0xF0) * 262144 + (b - 0x80) * 4096 + (c - 0x80) * 64 + (d - 0x80) in
     if 0xF0 \<le> a \<and> a < 0xF8 \<and> continuation b \<and> continuation c \<and> continuation d \<and> 0x10000 \<le> v \<and> v \<le> 0x10FFFF
     then Some v else None)"
| "utf8_decode bs = None"

fun utf16_decode :: "nat list \<Rightarrow> nat option" where
  "utf16_decode [a] = (if a < 0x10000 \<and> a \<notin> {0xD800..0xDFFF} then Some a else None)"
| "utf16_decode [a, b] = (if a \<in> {0xD800..0xDBFF} \<and> b \<in> {0xDC00..0xDFFF}
     then Some (0x10000 + (a - 0xD800) * 1024 + (b - 0xDC00)) else None)"
| "utf16_decode us = None"

fun decode_units :: "code_units \<Rightarrow> nat option" where
  "decode_units (Units8 bs) = utf8_decode (map unat bs)"
| "decode_units (Units16 us) = utf16_decode (map unat us)"
| "decode_units (Units32 [v]) = Some (unat v)"
| "decode_units (Units32 vs) = None"

fun units_length :: "code_units \<Rightarrow> nat" where
  "units_length (Units8 bs) = length bs"
| "units_length (Units16 us) = 2 * length us"
| "units_length (Units32 vs) = 4 * length vs"

lemma ucast_byte:
  assumes "(w :: u32) = of_nat n" "n < 256"
  shows "unat (ucast w :: u8) = n"
proof -
  have "unat w = n" using assms by (simp add: unat_of_nat)
  then show ?thesis using assms(2) by (simp add: unsigned_ucast_eq take_bit_eq_mod)
qed

lemma continuation_byte:
  "unat (ucast ((v OR 0x80) AND 0xBF) :: u8) = 128 + unat (v :: u32) mod 64"
proof -
  have m: "(0xBF :: u32) = mask 6 OR 0x80" by (simp add: mask_eq_exp_minus_1)
  have "(v OR 0x80) AND 0xBF = push_bit 7 1 OR take_bit 6 v"
    unfolding m take_bit_eq_mask by (rule bit_eqI) (auto simp: bit_simps)
  also have "take_bit 6 v = of_nat (unat v mod 64)"
  proof -
    have "take_bit 6 v = of_nat (take_bit 6 (unat v))" by (simp flip: take_bit_of_nat)
    then show ?thesis by (simp add: take_bit_eq_mod)
  qed
  also have "push_bit 7 1 OR (of_nat (unat v mod 64) :: u32) = 2 ^ 7 * 1 + of_nat (unat v mod 64)"
    by (rule low_bits_disjoint) (simp add: less_le_trans [OF mod_less_divisor])
  finally have "(v OR 0x80) AND 0xBF = of_nat (128 + unat v mod 64)" by simp
  moreover have "128 + unat v mod 64 < 256"
    using mod_less_divisor [of 64 "unat v"] by linarith
  ultimately show ?thesis by (rule ucast_byte)
qed

lemma first_byte:
  assumes "unat v < 2 ^ n" "m = 2 ^ n * q" "m + 2 ^ n \<le> 256"
  shows "unat (ucast ((v :: u32) OR of_nat m) :: u8) = m + unat v"
proof -
  have "v OR of_nat m = push_bit n (of_nat q) OR of_nat (unat v)"
    using assms(2) by (simp add: push_bit_eq_mult or.commute mult.commute)
  also have "\<dots> = of_nat (m + unat v)"
    using low_bits_disjoint [OF assms(1), where r = "of_nat q :: u32"] assms(2) by simp
  finally have "v OR of_nat m = of_nat (m + unat v)" .
  moreover have "m + unat v < 256" using assms by linarith
  ultimately show ?thesis by (rule ucast_byte)
qed

lemma unat_shift6: "unat (drop_bit 6 (v :: u32)) = unat v div 64"
  by (simp only: unat_drop_bit_eq) (simp add: drop_bit_eq_div)

lemma utf8_bytes_value:
  fixes v :: u32
  shows "unat v < 0x80 \<Longrightarrow> map unat (utf8_bytes 1 v []) = [unat v]"
    and "unat v < 0x800 \<Longrightarrow> map unat (utf8_bytes 2 v []) = [0xC0 + unat v div 64, 128 + unat v mod 64]"
    and "unat v < 0x10000 \<Longrightarrow> map unat (utf8_bytes 3 v []) =
      [0xE0 + unat v div 64 div 64, 128 + unat v div 64 mod 64, 128 + unat v mod 64]"
    and "unat v < 0x200000 \<Longrightarrow> map unat (utf8_bytes 4 v []) =
      [0xF0 + unat v div 64 div 64 div 64, 128 + unat v div 64 div 64 mod 64,
       128 + unat v div 64 mod 64, 128 + unat v mod 64]"
proof -
  have n2: "(2 :: nat) = Suc (Suc 0)" and n3: "(3 :: nat) = Suc (Suc (Suc 0))" by simp_all
  show "unat v < 0x80 \<Longrightarrow> map unat (utf8_bytes 1 v []) = [unat v]"
    using first_byte [of v 7 0 0] by (simp only: One_nat_def utf8_bytes.simps) simp
  show "map unat (utf8_bytes 2 v []) = [0xC0 + unat v div 64, 128 + unat v mod 64]" if "unat v < 0x800"
    using first_byte [of "drop_bit 6 v" 5 "0xC0" 6] that
    by (subst n2, simp only: utf8_bytes.simps list.map continuation_byte unat_shift6)
      (simp add: less_mult_imp_div_less)
  show "map unat (utf8_bytes 3 v []) =
      [0xE0 + unat v div 64 div 64, 128 + unat v div 64 mod 64, 128 + unat v mod 64]" if "unat v < 0x10000"
    using first_byte [of "drop_bit 6 (drop_bit 6 v)" 4 "0xE0" 14] that
    by (subst n3, simp only: utf8_bytes.simps list.map continuation_byte unat_shift6)
      (simp add: less_mult_imp_div_less del: drop_bit_drop_bit)
  have n4: "(4 :: nat) = Suc (Suc (Suc (Suc 0)))" by simp
  show "map unat (utf8_bytes 4 v []) =
      [0xF0 + unat v div 64 div 64 div 64, 128 + unat v div 64 div 64 mod 64,
       128 + unat v div 64 mod 64, 128 + unat v mod 64]" if "unat v < 0x200000"
    using first_byte [of "drop_bit 6 (drop_bit 6 (drop_bit 6 v))" 3 "0xF0" 30] that
    by (subst n4, simp only: utf8_bytes.simps list.map continuation_byte unat_shift6)
      (simp add: less_mult_imp_div_less del: drop_bit_drop_bit)
qed

lemma encode_ucn_ok:
  assumes v: "unat v \<le> 0x10FFFF" "unat v \<notin> {0xD800..0xDFFF}" and w: "w \<in> {1, 2, 4}"
  shows "decode_units (encode_ucn w v) = Some (unat v)"
    and "w \<noteq> 4 \<Longrightarrow> units_length (encode_ucn w v) =
      (if w = 2 then (if v \<le> 0xFFFF then 2 else 4) else bytesToWrite v)"
proof -
  let ?n = "unat v"
  have lt: "v < 0x80 \<longleftrightarrow> ?n < 0x80" "v < 0x800 \<longleftrightarrow> ?n < 0x800" "v < 0x10000 \<longleftrightarrow> ?n < 0x10000"
    "v \<le> 0xFFFF \<longleftrightarrow> ?n \<le> 0xFFFF" by (simp_all add: word_less_nat_alt word_le_nat_alt)
  have dm: "?n div 64 div 64 div 64 * 262144 + ?n div 64 div 64 mod 64 * 4096 + ?n div 64 mod 64 * 64 + ?n mod 64 = ?n"
    "?n div 64 * 64 + ?n mod 64 = ?n" "?n div 64 div 64 * 4096 + ?n div 64 mod 64 * 64 + ?n mod 64 = ?n"
    using div_mult_mod_eq [of ?n 64] div_mult_mod_eq [of "?n div 64" 64] div_mult_mod_eq [of "?n div 64 div 64" 64]
    by linarith+
  have c: "continuation (128 + k mod 64)" for k by (simp add: continuation_def)
  have utf8: "utf8_decode (map unat (utf8_bytes (bytesToWrite v) v [])) = Some ?n"
  proof -
    consider "?n < 0x80" | "0x80 \<le> ?n" "?n < 0x800" | "0x800 \<le> ?n" "?n < 0x10000" | "0x10000 \<le> ?n"
      by linarith
    then show ?thesis
    proof cases
      case 1
      then show ?thesis using utf8_bytes_value(1) [OF 1] by (simp add: bytesToWrite_def lt)
    next
      case 2
      then have "?n div 64 < 32" by (simp add: less_mult_imp_div_less)
      with 2 utf8_bytes_value(2) [OF 2(2)] c dm show ?thesis by (simp add: bytesToWrite_def lt Let_def)
    next
      case 3
      then have "?n div 64 div 64 < 16" by (simp add: less_mult_imp_div_less)
      with 3 utf8_bytes_value(3) [OF 3(2)] c dm v(2) show ?thesis by (simp add: bytesToWrite_def lt Let_def)
    next
      case 4
      have b: "?n < 0x200000" "?n div 64 div 64 div 64 < 8" using v by (simp_all add: less_mult_imp_div_less)
      with 4 utf8_bytes_value(4) [OF b(1)] c dm v show ?thesis by (simp add: bytesToWrite_def lt Let_def)
    qed
  qed
  have utf16: "utf16_decode (map unat us) = Some ?n \<and> 2 * length us = (if v \<le> 0xFFFF then 2 else 4)"
    if "encode_ucn 2 v = Units16 us" for us
  proof (cases "v \<le> 0xFFFF")
    case True
    then have "us = [ucast v]" using that by (simp add: encode_ucn_def)
    moreover have "unat (ucast v :: u16) = ?n"
      using True by (simp add: unsigned_ucast_eq take_bit_eq_mod lt)
    ultimately show ?thesis using True v by (simp add: lt)
  next
    case False
    let ?V = "v - 0x10000"
    have V: "unat ?V = ?n - 0x10000" using False by (simp add: unat_sub lt word_le_nat_alt)
    have us: "us = [ucast (0xD800 + drop_bit 10 ?V), ucast (0xDC00 + (?V AND 0x3FF))]"
      using that False by (simp add: encode_ucn_def Let_def)
    have hi: "unat (drop_bit 10 ?V) = (?n - 0x10000) div 1024"
      by (simp only: unat_drop_bit_eq V) (simp add: drop_bit_eq_div)
    have "(0x3FF :: u32) = mask 10" by (simp add: mask_eq_exp_minus_1)
    then have lo: "unat (?V AND 0x3FF) = (?n - 0x10000) mod 1024"
      by (simp only: take_bit_eq_mask [symmetric] unsigned_take_bit_eq V) (simp add: take_bit_eq_mod)
    have q: "(?n - 0x10000) div 1024 < 1024" using v(1) by (simp add: less_mult_imp_div_less)
    have r: "(?n - 0x10000) mod 1024 < 1024" by simp
    have w32: "w = of_nat (unat w)" for w :: u32 by simp
    have "0xD800 + drop_bit 10 ?V = of_nat (0xD800 + (?n - 0x10000) div 1024)"
      by (subst w32 [of "drop_bit 10 ?V"]) (simp only: hi of_nat_add of_nat_numeral)
    then have "unat (0xD800 + drop_bit 10 ?V) = 0xD800 + (?n - 0x10000) div 1024" using q by (simp only: unat_of_nat) simp
    then have h: "unat (ucast (0xD800 + drop_bit 10 ?V) :: u16) = 0xD800 + (?n - 0x10000) div 1024"
      using q by (simp only: unsigned_ucast_eq) (simp add: take_bit_eq_mod)
    have "0xDC00 + (?V AND 0x3FF) = of_nat (0xDC00 + (?n - 0x10000) mod 1024)"
      by (subst w32 [of "?V AND 0x3FF"]) (simp only: lo of_nat_add of_nat_numeral)
    then have "unat (0xDC00 + (?V AND 0x3FF)) = 0xDC00 + (?n - 0x10000) mod 1024" using r by (simp only: unat_of_nat) simp
    then have l: "unat (ucast (0xDC00 + (?V AND 0x3FF)) :: u16) = 0xDC00 + (?n - 0x10000) mod 1024"
      using r by (simp only: unsigned_ucast_eq) (simp add: take_bit_eq_mod)
    have "0x10000 + (?n - 0x10000) div 1024 * 1024 + (?n - 0x10000) mod 1024 = ?n"
      using False by (simp add: lt div_mult_mod_eq add.assoc)
    with us h l q r False show ?thesis by simp
  qed
  have len8: "length (utf8_bytes (bytesToWrite v) v []) = bytesToWrite v"
    using utf8_bytes_value [of v] v(1) map_eq_imp_length_eq
    by (auto simp: bytesToWrite_def lt dest!: arg_cong [where f = length])
  obtain us where us: "encode_ucn 2 v = Units16 us"
    by (cases "v \<le> 0xFFFF") (simp_all add: encode_ucn_def Let_def)
  have e1: "encode_ucn 1 v = Units8 (utf8_bytes (bytesToWrite v) v [])"
    and e4: "encode_ucn 4 v = Units32 [v]" by (simp_all add: encode_ucn_def)
  show "decode_units (encode_ucn w v) = Some (unat v)"
    using w utf8 utf16 [OF us] us e1 e4 by auto
  show "w \<noteq> 4 \<Longrightarrow> units_length (encode_ucn w v) =
      (if w = 2 then (if v \<le> 0xFFFF then 2 else 4) else bytesToWrite v)"
    using w len8 utf16 [OF us] us e1 by auto
qed

lemma slice_all: "j \<le> length buf \<Longrightarrow> (\<And>k. i \<le> k \<Longrightarrow> k < j \<Longrightarrow> Q (peek buf k)) \<Longrightarrow> \<forall>c \<in> set (slice buf i j). Q c"
  by (auto simp: in_set_conv_nth nth_slice)

lemma ucn_loop_value:
  assumes "hexDigitValue_ok h"
  shows "p \<le> length buf \<Longrightarrow> ucn_loop h buf p (of_nat v) n =
    (let e = min (p + n) (scan_while isHexDigit buf p)
     in (e, of_nat (digits_value 16 v (slice buf p e)), n - (e - p)))"
proof (induction n arbitrary: p v)
  case 0
  then show ?case using scan_while_ge [of p isHexDigit buf]
    by (subst ucn_loop.simps) (simp add: Let_def)
next
  case (Suc n)
  let ?d = "hex_value (peek buf p)" and ?e = "scan_while isHexDigit buf (Suc p)"
  show ?case
  proof (cases "p < length buf \<and> isHexDigit (peek buf p)")
    case False
    then have "scan_while isHexDigit buf p = p" by (rule scan_while_skip)
    then show ?thesis using False hexDigitValue_digit(1) [OF assms, of "peek buf p"]
      by (subst ucn_loop.simps) (auto simp: Let_def)
  next
    case True
    have d: "?d < 2 ^ 4" using hex_value_less True by simp
    have val: "push_bit 4 (of_nat v) OR of_nat ?d = (of_nat (16 * v + ?d) :: u32)"
      by (subst low_bits_disjoint [OF d]) simp
    have e: "scan_while isHexDigit buf p = ?e" using True by (intro scan_while_Suc) auto
    have ge: "Suc p \<le> ?e" "?e \<le> length buf" using scan_while_ge scan_while_le True by (simp_all add: Suc_leI)
    let ?m = "min (Suc p + n) ?e"
    have sl: "slice buf p ?m = peek buf p # slice buf (Suc p) ?m"
      using ge by (intro slice_Cons) auto
    have "ucn_loop h buf p (of_nat v) (Suc n) = ucn_loop h buf (Suc p) (of_nat (16 * v + ?d)) n"
      using True hexDigitValue_digit [OF assms, of "peek buf p"]
      by (subst ucn_loop.simps) (simp only: Let_def val if_False if_True simp_thms nat.distinct diff_Suc_1 not_True_eq_False)
    also have "\<dots> = (?m, of_nat (digits_value 16 (16 * v + ?d) (slice buf (Suc p) ?m)), n - (?m - Suc p))"
      using Suc.IH [of "Suc p" "16 * v + ?d"] True by (simp add: Let_def)
    finally show ?thesis using ge sl by (simp add: Let_def e Suc_diff_le)
  qed
qed

lemma digits_value_less: "\<forall>c \<in> set ds. hex_value c < base \<Longrightarrow> 0 < base \<Longrightarrow>
    digits_value base v ds < (v + 1) * base ^ length ds"
proof (induction ds arbitrary: v)
  case (Cons c ds)
  have "digits_value base (base * v + hex_value c) ds < (base * v + hex_value c + 1) * base ^ length ds"
    using Cons by auto
  also have "\<dots> \<le> (base * v + base) * base ^ length ds" using Cons.prems by (intro mult_right_mono) auto
  finally show ?case by (simp add: algebra_simps)
qed simp

text \<open>What \<open>ProcessUCNEscape\<close> accepts: place and value do not depend on the diagnostics.\<close>

lemma ProcessUCNEscape_diags:
  "fst (ProcessUCNEscape h lo buf p b ds) = fst (ProcessUCNEscape h lo buf p b ds') \<and>
   fst (snd (ProcessUCNEscape h lo buf p b ds)) = fst (snd (ProcessUCNEscape h lo buf p b ds'))"
proof -
  obtain q v n where "ucn_loop h buf (p + 2) 0 (if peek buf (p + 1) = CHR ''u'' then 4 else 8) = (q, v, n)"
    by (rule prod_cases3)
  then show ?thesis by (auto simp: ProcessUCNEscape_def Let_def)
qed

lemma ProcessUCNEscape_ok:
  assumes h: "hexDigitValue_ok h" and r: "ProcessUCNEscape h lo buf p b ds = (Some v, P, ds')"
  shows "P = p + 2 + (if peek buf (p + 1) = CHR ''u'' then 4 else 8)" "P \<le> length buf"
    "\<forall>i \<in> {p + 2..<P}. isHexDigit (peek buf i)" "unat v = digits_value 16 0 (slice buf (p + 2) P)"
    "unat v \<le> 0x10FFFF" "unat v \<notin> {0xD800..0xDFFF}"
proof -
  let ?n = "if peek buf (p + 1) = CHR ''u'' then 4 else 8 :: nat"
  let ?e = "min (p + 2 + ?n) (scan_while isHexDigit buf (p + 2))"
  let ?V = "digits_value 16 0 (slice buf (p + 2) ?e)"
  have lt: "p + 2 < length buf" using r by (auto simp: ProcessUCNEscape_def Let_def split: if_splits)
  have "ucn_loop h buf (p + 2) 0 ?n = (?e, of_nat ?V, ?n - (?e - (p + 2)))"
    using ucn_loop_value [OF h, of "p + 2" buf 0 ?n] lt by (simp add: Let_def)
  with r lt have P: "P = ?e" "v = of_nat ?V" "?n - (?e - (p + 2)) = 0"
    and ok: "\<not> (0xD800 \<le> v \<and> v \<le> 0xDFFF)" "\<not> v > 0x10FFFF"
    by (auto simp: ProcessUCNEscape_def Let_def split: if_splits)
  have sc: "p + 2 \<le> scan_while isHexDigit buf (p + 2)" "scan_while isHexDigit buf (p + 2) \<le> length buf"
    using scan_while_ge scan_while_le lt by auto
  with P(1,3) show P': "P = p + 2 + ?n" by (simp split: if_splits)
  show "P \<le> length buf" using P(1) sc by simp
  show dig: "\<forall>i \<in> {p + 2..<P}. isHexDigit (peek buf i)"
    using scan_while_all [where test = isHexDigit] P(1) by auto
  have "\<forall>c \<in> set (slice buf (p + 2) P). hex_value c < 16"
    using \<open>P \<le> length buf\<close> dig hex_value_less by (intro slice_all) auto
  from digits_value_less [OF this, of 0] have "?V < 16 ^ (P - (p + 2))"
    using P(1) \<open>P \<le> length buf\<close> by simp
  also have "\<dots> \<le> 16 ^ 8" using P' by (intro power_increasing) auto
  finally have "unat v = ?V" using P(2) by (simp add: unat_of_nat)
  then show "unat v = digits_value 16 0 (slice buf (p + 2) P)" using P(1) by simp
  show "unat v \<le> 0x10FFFF" using ok(2) by (simp add: word_less_nat_alt not_less)
  show "unat v \<notin> {0xD800..0xDFFF}" using ok(1) by (auto simp: word_le_nat_alt)
qed

section \<open>Properties\<close>

text \<open>
  A hex escape takes the longest run of hex digits; its result is the value of the run
  modulo the width of the character, and "too large" is diagnosed exactly when the value
  does not fit, also when it overflows the 32 bits of the accumulator.
\<close>

theorem hex_escape_value:
  assumes "hexDigitValue_ok h" "peek buf (p + 1) = CHR ''x''" "p + 2 < length buf"
    and "isHexDigit (peek buf (p + 2))" "0 < w" "w \<le> 32"
  shows "let e = scan_while isHexDigit buf (p + 2); V = digits_value 16 0 (slice buf (p + 2) e) in
    ProcessCharEscape h buf p err w ds =
      \<lparr>Result = of_nat (V mod 2 ^ w), Pos = e, HadError = err,
       EscDiags = (if 2 ^ w \<le> V then Diag e (err_escape_too_large 0) ds else ds)\<rparr>"
proof -
  let ?e = "scan_while isHexDigit buf (p + 2)"
  let ?V = "digits_value 16 0 (slice buf (p + 2) ?e)"
  have l: "hex_escape_loop h buf (p + 2) 0 False = (?e, of_nat ?V, 2 ^ 32 \<le> ?V)"
    using hex_escape_loop_value [OF assms(1), of "p + 2" buf 0] assms(3) by (simp add: Let_def)
  from assms(2) have x: "peek buf (Suc p) = CHR ''x''" by simp
  show ?thesis
    using assms(3,4) fit_char [OF assms(5,6), of ?V]
    by (simp add: ProcessCharEscape_def Let_def x l del: add_2_eq_Suc')
qed

text \<open>\<open>hexDigitValue\<close> by its documentation.\<close>

definition hexDigitValue_model :: "char \<Rightarrow> u32" where
  "hexDigitValue_model c = (if isHexDigit c then of_nat (hex_value c) else - 1)"

lemma hexDigitValue_model_ok: "hexDigitValue_ok hexDigitValue_model"
  by (simp add: hexDigitValue_ok_def hexDigitValue_model_def)

theorem hex_escape_value_witness:
  "let buf = CHR 0x5C # ''x1234'' @ CHR 0x22 # []; e = scan_while isHexDigit buf (0 + 2);
       V = digits_value 16 0 (slice buf (0 + 2) e) in
     ProcessCharEscape hexDigitValue_model buf 0 False 8 (Some []) =
       \<lparr>Result = of_nat (V mod 2 ^ 8), Pos = e, HadError = False,
        EscDiags = (if 2 ^ 8 \<le> V then Diag e (err_escape_too_large 0) (Some []) else Some [])\<rparr>"
  unfolding Let_def
  by (rule hex_escape_value [unfolded Let_def, OF hexDigitValue_model_ok])
    (simp_all add: peek_def char_iffs)

text \<open>
  An octal escape takes one to three octal digits and no more; its result is their value
  modulo the width, and "too large" is diagnosed exactly when the value does not fit.
\<close>

theorem octal_escape_value:
  assumes "octal_digit (peek buf (p + 1))" "p + 1 < length buf" "0 < w" "w \<le> 32"
  shows "let e = min (p + 4) (scan_while octal_digit buf (p + 1)); V = digits_value 8 0 (slice buf (p + 1) e) in
    V < 512 \<and>
    ProcessCharEscape h buf p err w ds =
      \<lparr>Result = of_nat (V mod 2 ^ w), Pos = e, HadError = err,
       EscDiags = (if 2 ^ w \<le> V then Diag e (err_escape_too_large 1) ds else ds)\<rparr>"
proof -
  let ?e = "min (p + 4) (scan_while octal_digit buf (p + 1))"
  let ?V = "digits_value 8 0 (slice buf (p + 1) ?e)"
  have l: "octal_escape_loop buf (p + 1) 0 0 = (?e, of_nat ?V)"
    using octal_escape_loop_value [of 0 "p + 1" buf 0] assms by (simp add: Let_def add.commute [of p])
  have le: "p + 1 \<le> ?e" "?e \<le> length buf"
    using scan_while_ge [of "p + 1" octal_digit buf] scan_while_le [of "p + 1" buf octal_digit] assms(2) by auto
  have "\<forall>c \<in> set (slice buf (p + 1) ?e). hex_value c < 8"
  proof (rule slice_all [OF le(2)])
    fix k assume "p + 1 \<le> k" "k < ?e"
    then have "octal_digit (peek buf k)" by (intro scan_while_all [where test = octal_digit]) auto
    then show "hex_value (peek buf k) < 8" using octal_hex_value by blast
  qed
  from digits_value_less [OF this, of 0] le have "?V < 8 ^ (?e - (p + 1))" by simp
  also have "\<dots> \<le> 8 ^ 3" by (intro power_increasing) auto
  finally have V: "?V < 512" by simp
  obtain k where k: "of_char (peek buf (p + 1)) = (k :: nat)" "k \<in> {48..55}"
    using assms(1) by (auto simp: octal_digit_def)
  then have c: "peek buf (Suc p) \<notin> {CHR 0x5C, CHR 0x27, CHR 0x22, CHR ''?'', CHR ''a'', CHR ''b'', CHR ''e'', CHR ''E'',
      CHR ''f'', CHR ''n'', CHR ''r'', CHR ''t'', CHR ''v'', CHR ''x''}"
    by auto
  have fit: "too_wide w (of_nat n) = (2 ^ w \<le> n)"
    "of_nat (n mod 2 ^ w) = (if 2 ^ w \<le> n then truncate_char w (of_nat n) else of_nat n :: u32)" if "n < 512" for n
    using fit_char [OF assms(3,4), of n] that by (auto split: if_splits)
  have run: "ProcessCharEscape h buf p err w ds =
      \<lparr>Result = of_nat (n mod 2 ^ w), Pos = e, HadError = err,
       EscDiags = (if 2 ^ w \<le> n then Diag e (err_escape_too_large 1) ds else ds)\<rparr>"
    if "octal_escape_loop buf (Suc p) 0 0 = (e, of_nat n)" "n < 512" for e n
    using c assms(1) that unfolding fit(2) [OF that(2)]
    by (simp add: ProcessCharEscape_def Let_def fit(1) del: add_2_eq_Suc')
  from run [OF _ V] l have "ProcessCharEscape h buf p err w ds =
      \<lparr>Result = of_nat (?V mod 2 ^ w), Pos = ?e, HadError = err,
       EscDiags = (if 2 ^ w \<le> ?V then Diag ?e (err_escape_too_large 1) ds else ds)\<rparr>"
    by simp
  with V show ?thesis by (simp add: Let_def)
qed

theorem octal_escape_value_witness:
  "let buf = CHR 0x5C # ''7777''; e = min (0 + 4) (scan_while octal_digit buf (0 + 1));
       V = digits_value 8 0 (slice buf (0 + 1) e) in
     V < 512 \<and>
     ProcessCharEscape hexDigitValue_model buf 0 False 8 None =
       \<lparr>Result = of_nat (V mod 2 ^ 8), Pos = e, HadError = False,
        EscDiags = (if 2 ^ 8 \<le> V then Diag e (err_escape_too_large 1) None else None)\<rparr>"
  unfolding Let_def
  by (rule octal_escape_value [unfolded Let_def]) (simp_all add: peek_def octal_digit_def)


lemma ucn_example:
  "\<exists>us. EncodeUCNEscape hexDigitValue_model \<lparr>CPlusPlus = True, CPlusPlus11 = True, CPlusPlus14 = True,
       CPlusPlus17 = True, CPlusPlus20 = True, C99 = True, FixedPoint = False, Half = False, MicrosoftExt = False,
       CUDA = False, HexFloats = True\<rparr> (CHR 0x5C # ''u20AC'') 0 1 False None = (Some us, 6, False, None)"
  by (simp add: EncodeUCNEscape_def ProcessUCNEscape_def Let_def ucn_loop.simps [of hexDigitValue_model]
     hexDigitValue_model_def peek_def hex_value_def char_iffs Diag_def)


section \<open>Expanding the names of an identifier\<close>

text \<open>The value of \<open>NumHexDigits\<close> digits; \<open>None\<close> where the assertion on the digit fails.\<close>

fun ucn_digits :: "(char \<Rightarrow> u32) \<Rightarrow> nat \<Rightarrow> string \<Rightarrow> u32 \<Rightarrow> (u32 \<times> string) option" where
  "ucn_digits hexDigitValue 0 I CodePoint = Some (CodePoint, I)"
| "ucn_digits hexDigitValue (Suc NumHexDigits) [] CodePoint = None"
| "ucn_digits hexDigitValue (Suc NumHexDigits) (c # I) CodePoint =
     (let Value = hexDigitValue c in
      if Value = - 1 then None
      else ucn_digits hexDigitValue NumHexDigits I (push_bit 4 CodePoint + Value))"

lemma ucn_digits_shorter: "ucn_digits h n I cp = Some (cp', I') \<Longrightarrow> length I' \<le> length I"
  by (induction h n I cp arbitrary: cp' I' rule: ucn_digits.induct) (force simp: Let_def split: if_splits)+

text \<open>The conversion succeeds by its assertion: \<open>None\<close> where it does not.\<close>

definition appendCodePoint :: "(u32 \<Rightarrow> string option) \<Rightarrow> u32 \<Rightarrow> string \<Rightarrow> string option" where
  "appendCodePoint ConvertCodePointToUTF8 Codepoint Str =
     map_option (\<lambda>bytes. Str @ bytes) (ConvertCodePointToUTF8 Codepoint)"

function expandUCNs :: "(char \<Rightarrow> u32) \<Rightarrow> (u32 \<Rightarrow> string option) \<Rightarrow> string \<Rightarrow> string \<Rightarrow> string option" where
  "expandUCNs hexDigitValue ConvertCodePointToUTF8 Buf [] = Some Buf"
| "expandUCNs hexDigitValue ConvertCodePointToUTF8 Buf (c # I) =
     (if c \<noteq> CHR 0x5C then expandUCNs hexDigitValue ConvertCodePointToUTF8 (Buf @ [c]) I
      else case I of [] \<Rightarrow> None
      | k # I \<Rightarrow>
        if k \<notin> {CHR ''u'', CHR ''U''} then None
        else case ucn_digits hexDigitValue (if k = CHR ''u'' then 4 else 8) I 0 of
          None \<Rightarrow> None
        | Some (CodePoint, I) \<Rightarrow>
          (case appendCodePoint ConvertCodePointToUTF8 CodePoint Buf of
            None \<Rightarrow> None
          | Some Buf \<Rightarrow> expandUCNs hexDigitValue ConvertCodePointToUTF8 Buf I))"
  by pat_completeness auto
termination
  by (relation "measure (\<lambda>(_, _, _, I). length I)") (auto dest!: ucn_digits_shorter)

text \<open>An identifier as the lexer has accepted it: plain characters and names with their digits.\<close>

datatype ident_piece = Plain char | UcnShort string | UcnLong string

fun piece_ok :: "(u32 \<Rightarrow> string option) \<Rightarrow> ident_piece \<Rightarrow> bool" where
  "piece_ok conv (Plain c) \<longleftrightarrow> c \<noteq> CHR 0x5C"
| "piece_ok conv (UcnShort ds) \<longleftrightarrow> length ds = 4 \<and> list_all isHexDigit ds \<and> conv (of_nat (digits_value 16 0 ds)) \<noteq> None"
| "piece_ok conv (UcnLong ds) \<longleftrightarrow> length ds = 8 \<and> list_all isHexDigit ds \<and> conv (of_nat (digits_value 16 0 ds)) \<noteq> None"

fun piece_spelling :: "ident_piece \<Rightarrow> string" where
  "piece_spelling (Plain c) = [c]"
| "piece_spelling (UcnShort ds) = CHR 0x5C # CHR ''u'' # ds"
| "piece_spelling (UcnLong ds) = CHR 0x5C # CHR ''U'' # ds"

fun piece_text :: "(u32 \<Rightarrow> string option) \<Rightarrow> ident_piece \<Rightarrow> string" where
  "piece_text conv (Plain c) = [c]"
| "piece_text conv (UcnShort ds) = the (conv (of_nat (digits_value 16 0 ds)))"
| "piece_text conv (UcnLong ds) = the (conv (of_nat (digits_value 16 0 ds)))"

lemma ucn_digits_value:
  assumes "hexDigitValue_ok h"
  shows "list_all isHexDigit ds \<Longrightarrow>
    ucn_digits h (length ds) (ds @ I) (of_nat v) = Some (of_nat (digits_value 16 v ds), I)"
proof (induction ds arbitrary: v)
  case (Cons c ds)
  then have c: "h c \<noteq> - 1" "h c = of_nat (hex_value c)" using hexDigitValue_digit [OF assms, of c] by simp_all
  have val: "push_bit 4 (of_nat v) + of_nat (hex_value c) = (of_nat (16 * v + hex_value c) :: u32)"
    by (simp add: push_bit_eq_mult)
  have "ucn_digits h (length (c # ds)) ((c # ds) @ I) (of_nat v) =
      ucn_digits h (length ds) (ds @ I) (push_bit 4 (of_nat v) + of_nat (hex_value c))"
    using c by (simp add: Let_def)
  also have "\<dots> = Some (of_nat (digits_value 16 (16 * v + hex_value c) ds), I)"
    unfolding val by (rule Cons.IH) (use Cons.prems in simp)
  finally show ?case by simp
qed simp

text \<open>
  Expanding the universal character names of an identifier copies every other character
  and puts the UTF-8 encoding of its code point in place of each name, in order; no assertion fails.
\<close>

theorem expandUCNs_pieces:
  assumes "hexDigitValue_ok h" "list_all (piece_ok conv) ps"
  shows "expandUCNs h conv Buf (concat (map piece_spelling ps)) = Some (Buf @ concat (map (piece_text conv) ps))"
  using assms(2)
proof (induction ps arbitrary: Buf)
  case (Cons q ps)
  have name: "expandUCNs h conv Buf (CHR 0x5C # k # ds @ concat (map piece_spelling ps)) =
      Some (Buf @ the (conv (of_nat (digits_value 16 0 ds))) @ concat (map (piece_text conv) ps))"
    if "list_all isHexDigit ds" "conv (of_nat (digits_value 16 0 ds)) \<noteq> None"
      "k \<in> {CHR ''u'', CHR ''U''}" "length ds = (if k = CHR ''u'' then 4 else 8)" for k ds
    using Cons that ucn_digits_value [OF assms(1) that(1), of "concat (map piece_spelling ps)" 0]
    by (auto simp: appendCodePoint_def)
  show ?case
  proof (cases q)
    case (Plain c)
    then show ?thesis using Cons by simp
  next
    case (UcnShort ds)
    then show ?thesis using name [of ds "CHR ''u''"] Cons.prems by simp
  next
    case (UcnLong ds)
    then show ?thesis using name [of ds "CHR ''U''"] Cons.prems by simp
  qed
qed simp

theorem expandUCNs_pieces_witness:
  "expandUCNs hexDigitValue_model (\<lambda>cp. if cp = 0xE9 then Some [CHR 0xC3, CHR 0xA9] else None) []
     (''a'' @ CHR 0x5C # ''u00e9'' @ ''b'') = Some (''a'' @ [CHR 0xC3, CHR 0xA9] @ ''b'')"
  using expandUCNs_pieces [OF hexDigitValue_model_ok,
    of "\<lambda>cp. if cp = 0xE9 then Some [CHR 0xC3, CHR 0xA9] else None" "[Plain (CHR ''a''), UcnShort ''00e9'', Plain (CHR ''b'')]" "[]"]
  by (simp add: hex_value_def char_iffs)

end
