(* ===== verification/NumericLiteral.thy ===== *)
theory NumericLiteral
  imports CharEscapes
begin

text \<open>
  Numeric literals (\<open>lib/Lex/LiteralSupport.cpp\<close>, \<open>NumericLiteralParser\<close>).  The token is a
  string, the pointers are indices into it.  The character after a token is no character
  of a preprocessing number (the first assertion of the constructor), so that it fails
  every test the parser makes of it; \<open>peek\<close> reads it as NUL.  \<open>llvm::APInt\<close> and the target
  are parameters.
\<close>

section \<open>The parser's state\<close>

datatype num_diag =
    err_digit_separator_not_between_digits bool
  | err_invalid_digit char nat
  | err_exponent_has_no_digits
  | err_hex_constant_requires bool nat
  | ext_hex_literal_invalid
  | ext_hex_constant_invalid
  | warn_cxx17_hex_literal
  | warn_cxx11_compat_binary_literal
  | ext_binary_literal_cxx14
  | ext_binary_literal
  | err_invalid_suffix_constant string nat

record num_parser =
  DigitsBegin :: nat
  SuffixBegin :: nat
  cur :: nat
  radix :: nat
  saw_exponent :: bool
  saw_period :: bool
  saw_ud_suffix :: bool
  saw_fixed_point_suffix :: bool
  UDSuffixBuf :: string
  hadError :: bool
  isUnsigned :: bool
  isLong :: bool
  isLongLong :: bool
  isHalf :: bool
  isFloat :: bool
  isImaginary :: bool
  isFloat16 :: bool
  isFloat128 :: bool
  MicrosoftInteger :: nat
  isFract :: bool
  isAccum :: bool
  NumDiags :: "(nat \<times> num_diag) list"

definition isFixedPointLiteral :: "num_parser \<Rightarrow> bool" where
  "isFixedPointLiteral np \<longleftrightarrow> (saw_period np \<or> saw_exponent np) \<and> saw_fixed_point_suffix np"

definition isIntegerLiteral :: "num_parser \<Rightarrow> bool" where
  "isIntegerLiteral np \<longleftrightarrow> \<not> saw_period np \<and> \<not> saw_exponent np \<and> \<not> isFixedPointLiteral np"

definition isFloatingLiteral :: "num_parser \<Rightarrow> bool" where
  "isFloatingLiteral np \<longleftrightarrow> (saw_period np \<or> saw_exponent np) \<and> \<not> isFixedPointLiteral np"

definition Report :: "nat \<Rightarrow> num_diag \<Rightarrow> num_parser \<Rightarrow> num_parser" where
  "Report pos d np = np\<lparr>NumDiags := NumDiags np @ [(pos, d)]\<rparr>"

definition Error :: "nat \<Rightarrow> num_diag \<Rightarrow> num_parser \<Rightarrow> num_parser" where
  "Error pos d np = (Report pos d np)\<lparr>hadError := True\<rparr>"

section \<open>Digits and separators\<close>

definition isDigitSeparator :: "char \<Rightarrow> bool" where
  "isDigitSeparator c \<longleftrightarrow> c = CHR 0x27"

definition containsDigits :: "string \<Rightarrow> nat \<Rightarrow> nat \<Rightarrow> bool" where
  "containsDigits buf Start End \<longleftrightarrow>
     Start \<noteq> End \<and> (Suc Start \<noteq> End \<or> \<not> isDigitSeparator (peek buf Start))"

definition SkipHexDigits :: "string \<Rightarrow> nat \<Rightarrow> nat" where
  "SkipHexDigits = scan_while (\<lambda>c. isHexDigit c \<or> isDigitSeparator c)"

definition SkipOctalDigits :: "string \<Rightarrow> nat \<Rightarrow> nat" where
  "SkipOctalDigits = scan_while (\<lambda>c. octal_digit c \<or> isDigitSeparator c)"

definition SkipDigits :: "string \<Rightarrow> nat \<Rightarrow> nat" where
  "SkipDigits = scan_while (\<lambda>c. isDigit c \<or> isDigitSeparator c)"

definition SkipBinaryDigits :: "string \<Rightarrow> nat \<Rightarrow> nat" where
  "SkipBinaryDigits = scan_while (\<lambda>c. c \<in> {CHR ''0'', CHR ''1''} \<or> isDigitSeparator c)"

text \<open>\<open>after\<close> is \<open>CSK_AfterDigits\<close>.\<close>

definition checkSeparator :: "string \<Rightarrow> nat \<Rightarrow> bool \<Rightarrow> num_parser \<Rightarrow> num_parser" where
  "checkSeparator buf p after np =
     (if (if after then p = 0 else p = length buf) then np
      else let p = (if after then p - 1 else p) in
      if isDigitSeparator (peek buf p)
      then Error p (err_digit_separator_not_between_digits after) np
      else np)"

definition isValidUDSuffix :: "lang_options \<Rightarrow> string \<Rightarrow> bool" where
  "isValidUDSuffix LangOpts Suffix =
     (if \<not> CPlusPlus11 LangOpts \<or> Suffix = [] then False
      else if hd Suffix = CHR 0x5F then True
      else if \<not> CPlusPlus14 LangOpts then False
      else if Suffix \<in> {''h'', ''min'', ''s''} then True
      else if Suffix \<in> {''ms'', ''us'', ''ns''} then True
      else if Suffix \<in> {''il'', ''i'', ''if''} then True
      else if Suffix \<in> {''d'', ''y''} then CPlusPlus20 LangOpts
      else False)"

section \<open>The number\<close>

text \<open>An optional sign and the digits of an exponent; the cursor is after its letter.\<close>

definition skip_sign :: "string \<Rightarrow> nat \<Rightarrow> nat" where
  "skip_sign buf s = (if s \<noteq> length buf \<and> peek buf s \<in> {CHR ''+'', CHR ''-''} then Suc s else s)"

definition parse_fraction :: "string \<Rightarrow> num_parser \<Rightarrow> num_parser" where
  "parse_fraction buf np =
     (if peek buf (cur np) = CHR ''.''
      then let np = checkSeparator buf (cur np) True np;
               np = np\<lparr>cur := Suc (cur np), radix := 10, saw_period := True\<rparr>;
               np = checkSeparator buf (cur np) False np
           in np\<lparr>cur := SkipDigits buf (cur np)\<rparr>
      else np)"

definition parse_exponent :: "string \<Rightarrow> num_parser \<Rightarrow> num_parser" where
  "parse_exponent buf np =
     (if peek buf (cur np) = CHR ''e'' \<or> peek buf (cur np) = CHR ''E''
      then let np = checkSeparator buf (cur np) True np;
               Exponent = cur np;
               np = np\<lparr>cur := skip_sign buf (Suc (cur np)), radix := 10, saw_exponent := True\<rparr>;
               first_non_digit = SkipDigits buf (cur np)
           in if containsDigits buf (cur np) first_non_digit
              then (checkSeparator buf (cur np) False np)\<lparr>cur := first_non_digit\<rparr>
              else if \<not> hadError np then Error Exponent err_exponent_has_no_digits np
              else np
      else np)"

definition ParseDecimalOrOctalCommon :: "lang_options \<Rightarrow> string \<Rightarrow> num_parser \<Rightarrow> num_parser" where
  "ParseDecimalOrOctalCommon LangOpts buf np =
     (if isHexDigit (peek buf (cur np)) \<and> peek buf (cur np) \<noteq> CHR ''e'' \<and> peek buf (cur np) \<noteq> CHR ''E'' \<and>
         \<not> isValidUDSuffix LangOpts (drop (cur np) buf)
      then Error (cur np) (err_invalid_digit (peek buf (cur np)) (if radix np = 8 then 1 else 0)) np
      else parse_exponent buf (parse_fraction buf np))"

definition hex_fraction :: "string \<Rightarrow> bool \<Rightarrow> num_parser \<Rightarrow> bool \<times> num_parser" where
  "hex_fraction buf HasSignificandDigits np =
     (if cur np \<noteq> length buf \<and> peek buf (cur np) = CHR ''.''
      then let np = np\<lparr>cur := Suc (cur np), saw_period := True\<rparr>;
               floatDigitsBegin = cur np;
               np = np\<lparr>cur := SkipHexDigits buf (cur np)\<rparr>;
               has = HasSignificandDigits \<or> containsDigits buf floatDigitsBegin (cur np)
           in (has, if has then checkSeparator buf floatDigitsBegin False np else np)
      else (HasSignificandDigits, np))"

definition hex_exponent :: "lang_options \<Rightarrow> string \<Rightarrow> num_parser \<Rightarrow> num_parser" where
  "hex_exponent LangOpts buf np =
     (let np = checkSeparator buf (cur np) True np;
          Exponent = cur np;
          np = np\<lparr>cur := skip_sign buf (Suc (cur np)), saw_exponent := True\<rparr>;
          first_non_digit = SkipDigits buf (cur np)
      in if \<not> containsDigits buf (cur np) first_non_digit
         then (if \<not> hadError np then Error Exponent err_exponent_has_no_digits np else np)
         else let np = (checkSeparator buf (cur np) False np)\<lparr>cur := first_non_digit\<rparr>
              in if \<not> HexFloats LangOpts
                 then Report 0 (if CPlusPlus LangOpts then ext_hex_literal_invalid else ext_hex_constant_invalid) np
                 else if CPlusPlus17 LangOpts then Report 0 warn_cxx17_hex_literal np
                 else np)"

definition hex_number :: "lang_options \<Rightarrow> string \<Rightarrow> num_parser \<Rightarrow> num_parser" where
  "hex_number LangOpts buf np =
     (let np = np\<lparr>cur := Suc (cur np), radix := 16, DigitsBegin := Suc (cur np)\<rparr>;
          np = np\<lparr>cur := SkipHexDigits buf (cur np)\<rparr>;
          (HasSignificandDigits, np) = hex_fraction buf (containsDigits buf (DigitsBegin np) (cur np)) np
      in if \<not> HasSignificandDigits then Error (cur np) (err_hex_constant_requires (CPlusPlus LangOpts) 1) np
      else if peek buf (cur np) = CHR ''p'' \<or> peek buf (cur np) = CHR ''P'' then hex_exponent LangOpts buf np
      else if saw_period np then Error (cur np) (err_hex_constant_requires (CPlusPlus LangOpts) 0) np
      else np)"

definition binary_number :: "lang_options \<Rightarrow> string \<Rightarrow> num_parser \<Rightarrow> num_parser" where
  "binary_number LangOpts buf np =
     (let np = Report 0 (if CPlusPlus14 LangOpts then warn_cxx11_compat_binary_literal
            else if CPlusPlus LangOpts then ext_binary_literal_cxx14 else ext_binary_literal) np;
          np = np\<lparr>cur := Suc (cur np), radix := 2, DigitsBegin := Suc (cur np)\<rparr>;
          np = np\<lparr>cur := SkipBinaryDigits buf (cur np)\<rparr>
      in if cur np = length buf then np
      else if isHexDigit (peek buf (cur np)) \<and> \<not> isValidUDSuffix LangOpts (drop (cur np) buf)
      then Error (cur np) (err_invalid_digit (peek buf (cur np)) 2) np
      else np)"

definition octal_number :: "lang_options \<Rightarrow> string \<Rightarrow> num_parser \<Rightarrow> num_parser" where
  "octal_number LangOpts buf np =
     (let np = np\<lparr>radix := 8, DigitsBegin := cur np, cur := SkipOctalDigits buf (cur np)\<rparr>;
          EndDecimal = SkipDigits buf (cur np) in
      if cur np = length buf then np
      else if isDigit (peek buf (cur np)) \<and> peek buf EndDecimal \<in> {CHR ''.'', CHR ''e'', CHR ''E''}
      then ParseDecimalOrOctalCommon LangOpts buf (np\<lparr>cur := EndDecimal, radix := 10\<rparr>)
      else ParseDecimalOrOctalCommon LangOpts buf np)"

definition ParseNumberStartingWithZero :: "lang_options \<Rightarrow> string \<Rightarrow> num_parser \<Rightarrow> num_parser" where
  "ParseNumberStartingWithZero LangOpts buf np =
     (let np = np\<lparr>cur := Suc (cur np)\<rparr>; c1 = peek buf (cur np); c2 = peek buf (Suc (cur np)) in
      if c1 \<in> {CHR ''x'', CHR ''X''} \<and> (isHexDigit c2 \<or> c2 = CHR ''.'') then hex_number LangOpts buf np
      else if c1 \<in> {CHR ''b'', CHR ''B''} \<and> c2 \<in> {CHR ''0'', CHR ''1''} then binary_number LangOpts buf np
      else octal_number LangOpts buf np)"

section \<open>The suffix\<close>

text \<open>
  One turn of the loop over the suffix.  The flag says that the turn ended with \<open>continue\<close>;
  otherwise the loop is left.
\<close>

definition microsoft_suffix :: "string \<Rightarrow> num_parser \<Rightarrow> num_parser" where
  "microsoft_suffix buf np =
     (let s = cur np in
      if peek buf (s + 1) = CHR ''8'' then np\<lparr>cur := s + 2, MicrosoftInteger := 8\<rparr>
      else if peek buf (s + 1) = CHR ''1''
      then (if peek buf (s + 2) = CHR ''6'' then np\<lparr>cur := s + 3, MicrosoftInteger := 16\<rparr> else np)
      else if peek buf (s + 1) = CHR ''3''
      then (if peek buf (s + 2) = CHR ''2'' then np\<lparr>cur := s + 3, MicrosoftInteger := 32\<rparr> else np)
      else if peek buf (s + 1) = CHR ''6''
      then (if peek buf (s + 2) = CHR ''4'' then np\<lparr>cur := s + 3, MicrosoftInteger := 64\<rparr> else np)
      else np)"

definition break_out :: "num_parser \<Rightarrow> bool \<times> num_parser" where
  "break_out np = (False, np)"

definition continue :: "num_parser \<Rightarrow> bool \<times> num_parser" where
  "continue np = (True, np\<lparr>cur := Suc (cur np)\<rparr>)"

definition case_R :: "lang_options \<Rightarrow> num_parser \<Rightarrow> bool \<times> num_parser" where
  "case_R LangOpts np =
     (if \<not> FixedPoint LangOpts then break_out np
      else if isFract np \<or> isAccum np then break_out np
      else if \<not> (saw_period np \<or> saw_exponent np) then break_out np
      else continue (np\<lparr>isFract := True\<rparr>))"

definition case_K :: "lang_options \<Rightarrow> num_parser \<Rightarrow> bool \<times> num_parser" where
  "case_K LangOpts np =
     (if \<not> FixedPoint LangOpts then break_out np
      else if isFract np \<or> isAccum np then break_out np
      else if \<not> (saw_period np \<or> saw_exponent np) then break_out np
      else continue (np\<lparr>isAccum := True\<rparr>))"

definition case_H :: "lang_options \<Rightarrow> num_parser \<Rightarrow> bool \<times> num_parser" where
  "case_H LangOpts np =
     (if \<not> (Half LangOpts \<or> FixedPoint LangOpts) then break_out np
      else if isIntegerLiteral np then break_out np
      else if isHalf np \<or> isFloat np \<or> isLong np then break_out np
      else continue (np\<lparr>isHalf := True\<rparr>))"

definition case_F :: "lang_options \<Rightarrow> bool \<Rightarrow> string \<Rightarrow> bool \<Rightarrow> num_parser \<Rightarrow> bool \<times> num_parser" where
  "case_F LangOpts hasFloat16Type buf isFPConstant np =
     (let s = cur np in
      if \<not> isFPConstant then break_out np
      else if isHalf np \<or> isFloat np \<or> isLong np \<or> isFloat128 np then break_out np
      else if (hasFloat16Type \<or> CUDA LangOpts) \<and> s + 2 < length buf \<and>
           peek buf (s + 1) = CHR ''1'' \<and> peek buf (s + 2) = CHR ''6''
      then continue (np\<lparr>cur := s + 2, isFloat16 := True\<rparr>)
      else continue (np\<lparr>isFloat := True\<rparr>))"

definition case_Q :: "bool \<Rightarrow> num_parser \<Rightarrow> bool \<times> num_parser" where
  "case_Q isFPConstant np =
     (if \<not> isFPConstant then break_out np
      else if isHalf np \<or> isFloat np \<or> isLong np \<or> isFloat128 np then break_out np
      else continue (np\<lparr>isFloat128 := True\<rparr>))"

definition case_U :: "bool \<Rightarrow> num_parser \<Rightarrow> bool \<times> num_parser" where
  "case_U isFPConstant np =
     (if isFPConstant then break_out np
      else if isUnsigned np then break_out np
      else continue (np\<lparr>isUnsigned := True\<rparr>))"

definition case_L :: "string \<Rightarrow> bool \<Rightarrow> num_parser \<Rightarrow> bool \<times> num_parser" where
  "case_L buf isFPConstant np =
     (let s = cur np in
      if isLong np \<or> isLongLong np then break_out np
      else if isHalf np \<or> isFloat np \<or> isFloat128 np then break_out np
      else if peek buf (s + 1) = peek buf s
      then (if isFPConstant then break_out np else continue (np\<lparr>isLongLong := True, cur := Suc s\<rparr>))
      else continue (np\<lparr>isLong := True\<rparr>))"

definition case_J :: "num_parser \<Rightarrow> bool \<times> num_parser" where
  "case_J np = (if isImaginary np then break_out np else continue (np\<lparr>isImaginary := True\<rparr>))"

definition case_I :: "lang_options \<Rightarrow> string \<Rightarrow> bool \<Rightarrow> num_parser \<Rightarrow> bool \<times> num_parser" where
  "case_I LangOpts buf isFPConstant np =
     (if MicrosoftExt LangOpts then
        (if isLong np \<or> isLongLong np \<or> MicrosoftInteger np \<noteq> 0 then break_out np
         else let np = (if \<not> isFPConstant then microsoft_suffix buf np else np) in
           if MicrosoftInteger np \<noteq> 0 then break_out np else case_J np)
      else case_J np)"

definition suffix_step ::
  "lang_options \<Rightarrow> bool \<Rightarrow> string \<Rightarrow> bool \<Rightarrow> num_parser \<Rightarrow> bool \<times> num_parser" where
  "suffix_step LangOpts hasFloat16Type buf isFPConstant np =
     (let c = peek buf (cur np) in
      if c \<in> {CHR ''R'', CHR ''r''} then case_R LangOpts np
      else if c \<in> {CHR ''K'', CHR ''k''} then case_K LangOpts np
      else if c \<in> {CHR ''h'', CHR ''H''} then case_H LangOpts np
      else if c \<in> {CHR ''f'', CHR ''F''} then case_F LangOpts hasFloat16Type buf isFPConstant np
      else if c \<in> {CHR ''q'', CHR ''Q''} then case_Q isFPConstant np
      else if c \<in> {CHR ''u'', CHR ''U''} then case_U isFPConstant np
      else if c \<in> {CHR ''l'', CHR ''L''} then case_L buf isFPConstant np
      else if c \<in> {CHR ''i'', CHR ''I''} then case_I LangOpts buf isFPConstant np
      else if c \<in> {CHR ''j'', CHR ''J''} then case_J np
      else break_out np)"

text \<open>The letters of the fixed-point suffixes.\<close>

definition fixed_letter :: "char \<Rightarrow> bool" where
  "fixed_letter c \<longleftrightarrow> c \<in> {CHR ''r'', CHR ''k'', CHR ''R'', CHR ''K''}"

text \<open>
  What every turn keeps: the number in front of the suffix; it goes forward inside the
  token, and records the letter of a fixed-point suffix it passes.
\<close>

definition same_number :: "num_parser \<Rightarrow> num_parser \<Rightarrow> bool" where
  "same_number np np' \<longleftrightarrow> DigitsBegin np' = DigitsBegin np \<and> SuffixBegin np' = SuffixBegin np \<and>
     radix np' = radix np \<and> saw_period np' = saw_period np \<and> saw_exponent np' = saw_exponent np \<and>
     hadError np' = hadError np \<and> saw_fixed_point_suffix np' = saw_fixed_point_suffix np \<and>
     saw_ud_suffix np' = saw_ud_suffix np"

definition turn_ok :: "string \<Rightarrow> num_parser \<Rightarrow> bool \<times> num_parser \<Rightarrow> bool" where
  "turn_ok buf np r \<longleftrightarrow> same_number np (snd r) \<and> (fst r \<longrightarrow> cur np < cur (snd r)) \<and>
     cur np \<le> cur (snd r) \<and> (cur np < length buf \<longrightarrow> cur (snd r) \<le> length buf) \<and>
     (isFract np \<or> isAccum np \<longrightarrow> isFract (snd r) \<or> isAccum (snd r)) \<and>
     (\<forall>i. cur np \<le> i \<longrightarrow> i < cur (snd r) \<longrightarrow> fixed_letter (peek buf i) \<longrightarrow> isFract (snd r) \<or> isAccum (snd r))"

lemma peek_le: "peek buf i \<noteq> CHR 0x00 \<Longrightarrow> Suc i \<le> length buf"
  by (simp add: peek_def split: if_splits)

lemmas turn_defs = turn_ok_def same_number_def break_out_def continue_def

lemma below_Suc: "(\<forall>i. s \<le> i \<longrightarrow> i < Suc e \<longrightarrow> P i) \<longleftrightarrow> (s \<le> e \<longrightarrow> P e) \<and> (\<forall>i. s \<le> i \<longrightarrow> i < e \<longrightarrow> P i)"
  by (auto simp: less_Suc_eq)

lemma turn_break: "turn_ok buf np (break_out np)"
  by (auto simp: turn_defs)

lemma turn_next:
  assumes "same_number np np'" "cur np' = cur np" "isFract np \<or> isAccum np \<longrightarrow> isFract np' \<or> isAccum np'"
    "fixed_letter (peek buf (cur np)) \<longrightarrow> isFract np' \<or> isAccum np'"
  shows "turn_ok buf np (continue np')"
  using assms by (auto simp: turn_defs less_Suc_eq)

lemma turn_R: "turn_ok buf np (case_R lo np)"
  by (auto simp: case_R_def same_number_def intro!: turn_break turn_next)

lemma turn_K: "turn_ok buf np (case_K lo np)"
  by (auto simp: case_K_def same_number_def intro!: turn_break turn_next)

lemma turn_H: "\<not> fixed_letter (peek buf (cur np)) \<Longrightarrow> turn_ok buf np (case_H lo np)"
  by (auto simp: case_H_def same_number_def intro!: turn_break turn_next)

lemma turn_Q: "\<not> fixed_letter (peek buf (cur np)) \<Longrightarrow> turn_ok buf np (case_Q fp np)"
  by (auto simp: case_Q_def same_number_def intro!: turn_break turn_next)

lemma turn_U: "\<not> fixed_letter (peek buf (cur np)) \<Longrightarrow> turn_ok buf np (case_U fp np)"
  by (auto simp: case_U_def same_number_def intro!: turn_break turn_next)

lemma turn_J: "\<not> fixed_letter (peek buf (cur np)) \<Longrightarrow> turn_ok buf np (case_J np)"
  by (auto simp: case_J_def same_number_def intro!: turn_break turn_next)

text \<open>Turns over two or three characters.\<close>

lemma turn_two:
  assumes "same_number np (snd r)" "cur (snd r) = Suc (Suc (cur np))" "isFract (snd r) = isFract np" "isAccum (snd r) = isAccum np"
    "\<not> fixed_letter (peek buf (cur np))" "\<not> fixed_letter (peek buf (Suc (cur np)))" "peek buf (Suc (cur np)) \<noteq> CHR 0x00"
  shows "turn_ok buf np r"
  using assms peek_le [of buf "Suc (cur np)"] by (simp add: turn_ok_def below_Suc)

lemma turn_three:
  assumes "same_number np (snd r)" "cur (snd r) = Suc (Suc (Suc (cur np)))" "isFract (snd r) = isFract np" "isAccum (snd r) = isAccum np"
    "\<not> fixed_letter (peek buf (cur np))" "\<not> fixed_letter (peek buf (Suc (cur np)))"
    "\<not> fixed_letter (peek buf (Suc (Suc (cur np))))" "peek buf (Suc (Suc (cur np))) \<noteq> CHR 0x00"
  shows "turn_ok buf np r"
  using assms peek_le [of buf "Suc (Suc (cur np))"] by (simp add: turn_ok_def below_Suc)

lemma turn_F: "\<not> fixed_letter (peek buf (cur np)) \<Longrightarrow> turn_ok buf np (case_F lo f16 buf fp np)"
proof -
  assume c: "\<not> fixed_letter (peek buf (cur np))"
  have "turn_ok buf np (continue (np\<lparr>cur := Suc (Suc (cur np)), isFloat16 := True\<rparr>))"
    if "peek buf (Suc (cur np)) = CHR ''1''" "peek buf (Suc (Suc (cur np))) = CHR ''6''"
    using c that by (intro turn_three) (simp_all add: continue_def same_number_def fixed_letter_def)
  then show ?thesis using c
    by (auto simp: case_F_def Let_def same_number_def intro!: turn_break turn_next)
qed

lemma turn_L: "peek buf (cur np) \<in> {CHR ''l'', CHR ''L''} \<Longrightarrow> turn_ok buf np (case_L buf fp np)"
proof -
  assume c: "peek buf (cur np) \<in> {CHR ''l'', CHR ''L''}"
  have "turn_ok buf np (continue (np\<lparr>isLongLong := True, cur := Suc (cur np)\<rparr>))"
    if "peek buf (Suc (cur np)) = peek buf (cur np)"
    using c that by (intro turn_two) (auto simp: continue_def same_number_def fixed_letter_def)
  then show ?thesis using c
    by (auto simp: case_L_def Let_def same_number_def fixed_letter_def intro!: turn_break turn_next)
qed

lemma microsoft_suffix_cases:
  obtains "microsoft_suffix buf np = np"
  | "microsoft_suffix buf np = np\<lparr>cur := cur np + 2, MicrosoftInteger := 8\<rparr>" "peek buf (cur np + 1) = CHR ''8''"
  | n where "microsoft_suffix buf np = np\<lparr>cur := cur np + 3, MicrosoftInteger := n\<rparr>" "n \<noteq> 0"
    "peek buf (cur np + 1) \<in> {CHR ''1'', CHR ''3'', CHR ''6''}"
    "peek buf (cur np + 2) \<in> {CHR ''2'', CHR ''4'', CHR ''6''}"
proof -
  consider (8) "peek buf (cur np + 1) = CHR ''8''"
    | (16) "peek buf (cur np + 1) = CHR ''1''" "peek buf (cur np + 2) = CHR ''6''"
    | (32) "peek buf (cur np + 1) = CHR ''3''" "peek buf (cur np + 2) = CHR ''2''"
    | (64) "peek buf (cur np + 1) = CHR ''6''" "peek buf (cur np + 2) = CHR ''4''"
    | (no1) "peek buf (cur np + 1) = CHR ''1''" "peek buf (cur np + 2) \<noteq> CHR ''6''"
    | (no3) "peek buf (cur np + 1) = CHR ''3''" "peek buf (cur np + 2) \<noteq> CHR ''2''"
    | (no6) "peek buf (cur np + 1) = CHR ''6''" "peek buf (cur np + 2) \<noteq> CHR ''4''"
    | (no) "peek buf (cur np + 1) \<noteq> CHR ''8''" "peek buf (cur np + 1) \<noteq> CHR ''1''"
      "peek buf (cur np + 1) \<noteq> CHR ''3''" "peek buf (cur np + 1) \<noteq> CHR ''6''"
    by blast
  then show ?thesis
  proof cases
    case 8
    show ?thesis by (rule that(2)) (simp_all add: microsoft_suffix_def 8 [simplified])
  next
    case 16
    show ?thesis by (rule that(3) [of 16]) (simp_all add: microsoft_suffix_def 16 [simplified])
  next
    case 32
    show ?thesis by (rule that(3) [of 32]) (simp_all add: microsoft_suffix_def 32 [simplified])
  next
    case 64
    show ?thesis by (rule that(3) [of 64]) (simp_all add: microsoft_suffix_def 64 [simplified])
  next
    case no1
    show ?thesis by (rule that(1)) (simp add: microsoft_suffix_def no1 [simplified])
  next
    case no3
    show ?thesis by (rule that(1)) (simp add: microsoft_suffix_def no3 [simplified])
  next
    case no6
    show ?thesis by (rule that(1)) (simp add: microsoft_suffix_def no6 [simplified])
  next
    case no
    show ?thesis by (rule that(1)) (simp add: microsoft_suffix_def no [simplified])
  qed
qed

lemma turn_I: "\<not> fixed_letter (peek buf (cur np)) \<Longrightarrow> turn_ok buf np (case_I lo buf fp np)"
proof -
  assume c: "\<not> fixed_letter (peek buf (cur np))"
  let ?m = "microsoft_suffix buf np"
  have "turn_ok buf np (break_out ?m) \<and> (MicrosoftInteger ?m = 0 \<longrightarrow> ?m = np)"
  proof (cases rule: microsoft_suffix_cases [of buf np])
    case 1
    then show ?thesis by (simp add: turn_break)
  next
    case 2
    with c show ?thesis by (auto simp: break_out_def same_number_def fixed_letter_def intro!: turn_two)
  next
    case (3 n)
    with c show ?thesis
      by (auto simp: break_out_def same_number_def fixed_letter_def numeral_3_eq_3 intro!: turn_three)
  qed
  then show ?thesis using turn_J [OF c]
    by (auto simp: case_I_def Let_def intro: turn_break)
qed

lemma suffix_step_ok: "turn_ok buf np (suffix_step lo f16 buf fp np)"
  unfolding suffix_step_def Let_def
  by (auto intro!: turn_R turn_K turn_H turn_F turn_Q turn_U turn_L turn_I turn_J turn_break simp: fixed_letter_def)

lemma suffix_step_advances: "suffix_step lo f16 buf fp np = (True, np') \<Longrightarrow> cur np < cur np'"
  using suffix_step_ok [of buf np lo f16 fp] by (simp add: turn_ok_def)

function suffix_loop :: "lang_options \<Rightarrow> bool \<Rightarrow> string \<Rightarrow> bool \<Rightarrow> num_parser \<Rightarrow> num_parser" where
  "suffix_loop LangOpts hasFloat16Type buf isFPConstant np =
     (if \<not> cur np < length buf then np
      else case suffix_step LangOpts hasFloat16Type buf isFPConstant np of
        (again, np') \<Rightarrow>
          if again then suffix_loop LangOpts hasFloat16Type buf isFPConstant np' else np')"
  by pat_completeness auto
termination
proof (relation "measure (\<lambda>(_, _, buf, _, np). length buf - cur np)", goal_cases)
  case (2 lo f16 buf fp np c np')
  then have "cur np < cur np'" "cur np < length buf" by (auto intro: suffix_step_advances)
  then show ?case by simp
qed simp

declare suffix_loop.simps [simp del]

text \<open>
  What the constructor does after the loop; \<open>None\<close> where an assertion fails.  The members
  the code leaves unset until then (\<open>radix\<close>, \<open>SuffixBegin\<close>) start at 0.
\<close>

definition finish_suffix ::
  "lang_options \<Rightarrow> (char \<Rightarrow> u32) \<Rightarrow> (u32 \<Rightarrow> string option) \<Rightarrow> string \<Rightarrow> bool \<Rightarrow> bool \<Rightarrow> num_parser \<Rightarrow> num_parser option" where
  "finish_suffix LangOpts hexDigitValue ConvertCodePointToUTF8 buf isFixedPointConstant isFPConstant np =
     (let Suffix = drop (SuffixBegin np) buf;
          check = (\<lambda>np. if \<not> hadError np \<and> saw_fixed_point_suffix np \<and> \<not> (isFract np \<or> isAccum np)
            then None else Some np) in
      if cur np \<noteq> length buf \<or> isImaginary np then
        (case expandUCNs hexDigitValue ConvertCodePointToUTF8 [] Suffix of
          None \<Rightarrow> None
        | Some expanded \<Rightarrow>
          let np = np\<lparr>UDSuffixBuf := expanded\<rparr> in
          if isValidUDSuffix LangOpts expanded
          then Some ((if \<not> isImaginary np
            then np\<lparr>isLong := False, isUnsigned := False, isLongLong := False, isFloat := False,
              isFloat16 := False, isHalf := False, isImaginary := False, MicrosoftInteger := 0,
              saw_fixed_point_suffix := False, isFract := False, isAccum := False\<rparr>
            else np)\<lparr>saw_ud_suffix := True\<rparr>)
          else check (if cur np \<noteq> length buf
            then Error (SuffixBegin np)
              (err_invalid_suffix_constant Suffix (if isFixedPointConstant then 2 else of_bool isFPConstant)) np
            else np))
      else check np)"

definition initial_parser :: num_parser where
  "initial_parser = \<lparr>DigitsBegin = 0, SuffixBegin = 0, cur = 0, radix = 0, saw_exponent = False,
     saw_period = False, saw_ud_suffix = False, saw_fixed_point_suffix = False, UDSuffixBuf = [],
     hadError = False, isUnsigned = False, isLong = False, isLongLong = False, isHalf = False,
     isFloat = False, isImaginary = False, isFloat16 = False, isFloat128 = False,
     MicrosoftInteger = 0, isFract = False, isAccum = False, NumDiags = []\<rparr>"

definition parse_number :: "lang_options \<Rightarrow> string \<Rightarrow> num_parser" where
  "parse_number LangOpts buf =
     (let np = initial_parser in
      if peek buf 0 = CHR ''0'' then ParseNumberStartingWithZero LangOpts buf np
      else let np = np\<lparr>radix := 10, cur := SkipDigits buf 0\<rparr>
        in if cur np = length buf then np else ParseDecimalOrOctalCommon LangOpts buf np)"

text \<open>The state in front of the suffix loop, after the scan for a fixed-point suffix.\<close>

definition at_suffix :: "lang_options \<Rightarrow> string \<Rightarrow> num_parser \<Rightarrow> num_parser" where
  "at_suffix LangOpts buf np =
     (let np = np\<lparr>SuffixBegin := cur np\<rparr>;
          np = checkSeparator buf (cur np) True np
      in if FixedPoint LangOpts \<and> list_ex fixed_letter (drop (cur np) buf)
         then np\<lparr>saw_fixed_point_suffix := True\<rparr> else np)"

definition NumericLiteralParser ::
  "lang_options \<Rightarrow> bool \<Rightarrow> (char \<Rightarrow> u32) \<Rightarrow> (u32 \<Rightarrow> string option) \<Rightarrow> string \<Rightarrow> num_parser option" where
  "NumericLiteralParser LangOpts hasFloat16Type hexDigitValue ConvertCodePointToUTF8 buf =
     (let np = parse_number LangOpts buf in
      if hadError np then Some np
      else
      let np = at_suffix LangOpts buf np;
          isFixedPointConstant = isFixedPointLiteral np;
          isFPConstant = isFloatingLiteral np;
          np = suffix_loop LangOpts hasFloat16Type buf isFPConstant np
      in finish_suffix LangOpts hexDigitValue ConvertCodePointToUTF8 buf isFixedPointConstant isFPConstant np)"

section \<open>Where the digits are\<close>

lemma Report_simps [simp]:
  "cur (Report p d np) = cur np" "radix (Report p d np) = radix np" "hadError (Report p d np) = hadError np"
  "DigitsBegin (Report p d np) = DigitsBegin np" "SuffixBegin (Report p d np) = SuffixBegin np"
  "saw_period (Report p d np) = saw_period np" "saw_exponent (Report p d np) = saw_exponent np"
  by (simp_all add: Report_def)

lemma Error_simps [simp]:
  "cur (Error p d np) = cur np" "radix (Error p d np) = radix np" "hadError (Error p d np)"
  "DigitsBegin (Error p d np) = DigitsBegin np" "SuffixBegin (Error p d np) = SuffixBegin np"
  "saw_period (Error p d np) = saw_period np" "saw_exponent (Error p d np) = saw_exponent np"
  by (simp_all add: Error_def)

lemma checkSeparator_simps [simp]:
  "cur (checkSeparator buf p a np) = cur np" "radix (checkSeparator buf p a np) = radix np"
  "DigitsBegin (checkSeparator buf p a np) = DigitsBegin np" "SuffixBegin (checkSeparator buf p a np) = SuffixBegin np"
  "saw_period (checkSeparator buf p a np) = saw_period np" "saw_exponent (checkSeparator buf p a np) = saw_exponent np"
  by (simp_all add: checkSeparator_def Let_def)

definition digit_of :: "nat \<Rightarrow> char \<Rightarrow> bool" where
  "digit_of r c \<longleftrightarrow> isDigitSeparator c \<or> isHexDigit c \<and> hex_value c < r"

text \<open>The token's integer digits, and the bounds of the cursor.\<close>

definition digits_scanned :: "string \<Rightarrow> num_parser \<Rightarrow> bool" where
  "digits_scanned buf np \<longleftrightarrow> radix np \<in> {2, 8, 10, 16} \<and> (\<forall>i \<in> {DigitsBegin np..<cur np}. digit_of (radix np) (peek buf i))"

definition cursor_ok :: "string \<Rightarrow> num_parser \<Rightarrow> bool" where
  "cursor_ok buf np \<longleftrightarrow> DigitsBegin np \<le> cur np \<and> cur np \<le> length buf"

lemma skip_bounds:
  "i \<le> SkipDigits buf i" "i \<le> length buf \<Longrightarrow> SkipDigits buf i \<le> length buf"
  "i \<le> SkipHexDigits buf i" "i \<le> length buf \<Longrightarrow> SkipHexDigits buf i \<le> length buf"
  "i \<le> SkipOctalDigits buf i" "i \<le> length buf \<Longrightarrow> SkipOctalDigits buf i \<le> length buf"
  "i \<le> SkipBinaryDigits buf i" "i \<le> length buf \<Longrightarrow> SkipBinaryDigits buf i \<le> length buf"
  by (simp_all add: SkipDigits_def SkipHexDigits_def SkipOctalDigits_def SkipBinaryDigits_def
    scan_while_ge scan_while_le)

lemma skip_digit_of:
  "k < SkipDigits buf i \<Longrightarrow> i \<le> k \<Longrightarrow> digit_of 10 (peek buf k)"
  "k < SkipHexDigits buf i \<Longrightarrow> i \<le> k \<Longrightarrow> digit_of 16 (peek buf k)"
  "k < SkipOctalDigits buf i \<Longrightarrow> i \<le> k \<Longrightarrow> digit_of 8 (peek buf k)"
  "k < SkipBinaryDigits buf i \<Longrightarrow> i \<le> k \<Longrightarrow> digit_of 2 (peek buf k)"
proof -
  show "k < SkipDigits buf i \<Longrightarrow> i \<le> k \<Longrightarrow> digit_of 10 (peek buf k)"
    using scan_while_all [of i k "\<lambda>c. isDigit c \<or> isDigitSeparator c" buf]
    by (auto simp: SkipDigits_def digit_of_def hex_value_def char_iffs)
  show "k < SkipHexDigits buf i \<Longrightarrow> i \<le> k \<Longrightarrow> digit_of 16 (peek buf k)"
    using scan_while_all [of i k "\<lambda>c. isHexDigit c \<or> isDigitSeparator c" buf]
    by (auto simp: SkipHexDigits_def digit_of_def hex_value_less)
  show "k < SkipOctalDigits buf i \<Longrightarrow> i \<le> k \<Longrightarrow> digit_of 8 (peek buf k)"
    using scan_while_all [of i k "\<lambda>c. octal_digit c \<or> isDigitSeparator c" buf]
    by (auto simp: SkipOctalDigits_def digit_of_def octal_hex_value octal_digit_def char_iffs)
  show "k < SkipBinaryDigits buf i \<Longrightarrow> i \<le> k \<Longrightarrow> digit_of 2 (peek buf k)"
    using scan_while_all [of i k "\<lambda>c. c \<in> {CHR ''0'', CHR ''1''} \<or> isDigitSeparator c" buf]
    by (auto simp: SkipBinaryDigits_def digit_of_def hex_value_def char_iffs)
qed

lemma skip_sign_bounds: "s \<le> skip_sign buf s" "s \<le> length buf \<Longrightarrow> skip_sign buf s \<le> length buf"
  by (auto simp: skip_sign_def dest: le_neq_implies_less)

lemma cursor_okI: "DigitsBegin np \<le> i \<Longrightarrow> i \<le> length buf \<Longrightarrow> cursor_ok buf (np\<lparr>cur := i\<rparr>)"
  by (simp add: cursor_ok_def)

lemma parse_fraction_cursor: "cursor_ok buf np \<Longrightarrow> cursor_ok buf (parse_fraction buf np)"
  using skip_bounds(1,2) [of "Suc (cur np)" buf] peek_le [of buf "cur np"]
  by (auto simp: parse_fraction_def Let_def cursor_ok_def)

lemma parse_exponent_cursor: "cursor_ok buf np \<Longrightarrow> cursor_ok buf (parse_exponent buf np)"
  using skip_bounds(1,2) [of "skip_sign buf (Suc (cur np))" buf] skip_sign_bounds [of "Suc (cur np)" buf]
    peek_le [of buf "cur np"]
  by (auto simp: parse_exponent_def Let_def cursor_ok_def)

lemma Common_cursor: "cursor_ok buf np \<Longrightarrow> cursor_ok buf (ParseDecimalOrOctalCommon lo buf np)"
  using parse_exponent_cursor [OF parse_fraction_cursor, of buf np]
  by (simp add: ParseDecimalOrOctalCommon_def) (simp add: cursor_ok_def)

lemma parse_fraction_saw: "saw_period (parse_fraction buf np) \<longleftrightarrow> saw_period np \<or> peek buf (cur np) = CHR ''.''"
  and parse_fraction_id: "peek buf (cur np) \<noteq> CHR ''.'' \<Longrightarrow> parse_fraction buf np = np"
  and parse_exponent_saw: "saw_exponent (parse_exponent buf np) \<longleftrightarrow>
      saw_exponent np \<or> peek buf (cur np) = CHR ''e'' \<or> peek buf (cur np) = CHR ''E''"
    "saw_period (parse_exponent buf np) = saw_period np"
  and parse_exponent_id: "\<not> saw_exponent (parse_exponent buf np) \<Longrightarrow> parse_exponent buf np = np"
  by (auto simp: parse_fraction_def parse_exponent_def Let_def)

lemma Common_integer:
  assumes "\<not> hadError (ParseDecimalOrOctalCommon lo buf np)"
    and "\<not> saw_period (ParseDecimalOrOctalCommon lo buf np)" "\<not> saw_exponent (ParseDecimalOrOctalCommon lo buf np)"
  shows "ParseDecimalOrOctalCommon lo buf np = np" "peek buf (cur np) \<notin> {CHR ''.'', CHR ''e'', CHR ''E''}"
  using assms parse_fraction_id [of buf np] parse_exponent_id [of buf "parse_fraction buf np"]
  by (auto simp: ParseDecimalOrOctalCommon_def parse_fraction_saw parse_exponent_saw split: if_splits)

lemma hex_fraction_cursor: "cursor_ok buf np \<Longrightarrow> cursor_ok buf (snd (hex_fraction buf has np))"
  using skip_bounds(3,4) [of "Suc (cur np)" buf] peek_le [of buf "cur np"]
  by (auto simp: hex_fraction_def Let_def cursor_ok_def)

lemma hex_fraction_id: "hex_fraction buf has np = (has', np') \<Longrightarrow> \<not> saw_period np' \<Longrightarrow> np' = np"
  by (auto simp: hex_fraction_def Let_def split: if_splits)

lemma hex_exponent_cursor:
  "cursor_ok buf np \<Longrightarrow> peek buf (cur np) \<noteq> CHR 0x00 \<Longrightarrow> cursor_ok buf (hex_exponent lo buf np)"
  using skip_bounds(1,2) [of "skip_sign buf (Suc (cur np))" buf] skip_sign_bounds [of "Suc (cur np)" buf]
    peek_le [of buf "cur np"]
  by (auto simp: hex_exponent_def Let_def cursor_ok_def)

lemma hex_exponent_saw: "saw_exponent (hex_exponent lo buf np)"
  by (simp add: hex_exponent_def Let_def)

lemma hex_number_cursor: "Suc (cur np) \<le> length buf \<Longrightarrow> cursor_ok buf (hex_number lo buf np)"
proof -
  assume le: "Suc (cur np) \<le> length buf"
  let ?np1 = "np\<lparr>radix := 16, DigitsBegin := Suc (cur np), cur := SkipHexDigits buf (Suc (cur np))\<rparr>"
  obtain has np2 where r: "hex_fraction buf (containsDigits buf (Suc (cur np)) (SkipHexDigits buf (Suc (cur np)))) ?np1 = (has, np2)"
    by (cases "hex_fraction buf (containsDigits buf (Suc (cur np)) (SkipHexDigits buf (Suc (cur np)))) ?np1")
  have "cursor_ok buf ?np1" using skip_bounds(3,4) [of "Suc (cur np)" buf] le by (simp add: cursor_ok_def)
  from hex_fraction_cursor [OF this] r have "cursor_ok buf np2" by (metis snd_conv)
  then show ?thesis using hex_exponent_cursor [of buf np2 lo] r
    by (auto simp: hex_number_def Let_def) (auto simp: cursor_ok_def)
qed

lemma hex_number_integer:
  assumes "\<not> hadError (hex_number lo buf np)" "\<not> saw_period (hex_number lo buf np)" "\<not> saw_exponent (hex_number lo buf np)"
  shows "digits_scanned buf (hex_number lo buf np)"
proof -
  let ?np1 = "np\<lparr>radix := 16, DigitsBegin := Suc (cur np), cur := SkipHexDigits buf (Suc (cur np))\<rparr>"
  obtain has np2 where r: "hex_fraction buf (containsDigits buf (Suc (cur np)) (SkipHexDigits buf (Suc (cur np)))) ?np1 = (has, np2)"
    by (cases "hex_fraction buf (containsDigits buf (Suc (cur np)) (SkipHexDigits buf (Suc (cur np)))) ?np1")
  have n: "hex_number lo buf np = np2" "\<not> saw_period np2"
    using assms r hex_exponent_saw by (auto simp: hex_number_def Let_def split: if_splits)
  from hex_fraction_id [OF r n(2)] have "np2 = ?np1" .
  then show ?thesis unfolding n(1) by (auto simp: digits_scanned_def intro: skip_digit_of(2))
qed

lemma binary_number_ok:
  assumes "Suc (cur np) \<le> length buf"
  shows "cursor_ok buf (binary_number lo buf np)" "digits_scanned buf (binary_number lo buf np)"
proof -
  have f: "radix (binary_number lo buf np) = 2" "DigitsBegin (binary_number lo buf np) = Suc (cur np)"
    "cur (binary_number lo buf np) = SkipBinaryDigits buf (Suc (cur np))"
    by (simp_all add: binary_number_def Let_def)
  show "cursor_ok buf (binary_number lo buf np)"
    using skip_bounds(7,8) [of "Suc (cur np)" buf] assms by (simp add: cursor_ok_def f)
  show "digits_scanned buf (binary_number lo buf np)"
    by (auto simp: digits_scanned_def f intro: skip_digit_of(4))
qed

text \<open>What holds of a parsed number: the cursor, and the digits if it is an integer in good form.\<close>

definition number_parsed :: "string \<Rightarrow> num_parser \<Rightarrow> bool" where
  "number_parsed buf np \<longleftrightarrow> cursor_ok buf np \<and>
     (\<not> hadError np \<longrightarrow> \<not> saw_period np \<longrightarrow> \<not> saw_exponent np \<longrightarrow> digits_scanned buf np)"

lemma number_parsed_Common:
  assumes "cursor_ok buf np" "peek buf (cur np) \<notin> {CHR ''.'', CHR ''e'', CHR ''E''} \<Longrightarrow> digits_scanned buf np"
  shows "number_parsed buf (ParseDecimalOrOctalCommon lo buf np)"
  using assms Common_cursor [OF assms(1)] Common_integer [of lo buf np] by (auto simp: number_parsed_def)

lemma octal_number_ok:
  assumes "cur np \<le> length buf"
  shows "number_parsed buf (octal_number lo buf np)"
proof -
  let ?o = "SkipOctalDigits buf (cur np)"
  let ?np = "np\<lparr>radix := 8, DigitsBegin := cur np, cur := ?o\<rparr>"
  let ?stop = "SkipDigits buf ?o"
  note b = assms skip_bounds(5,6) [of "cur np" buf] skip_bounds(1,2) [of ?o buf]
  have np: "cursor_ok buf ?np" "digits_scanned buf ?np"
    using b skip_digit_of(3) by (auto simp: cursor_ok_def digits_scanned_def)
  show ?thesis
  proof (cases "?o = length buf")
    case True
    then show ?thesis using np by (simp add: octal_number_def Let_def number_parsed_def)
  next
    case False
    show ?thesis
    proof (cases "isDigit (peek buf ?o) \<and> peek buf ?stop \<in> {CHR ''.'', CHR ''e'', CHR ''E''}")
      case True
      then have "octal_number lo buf np = ParseDecimalOrOctalCommon lo buf (?np\<lparr>cur := ?stop, radix := 10\<rparr>)"
        using False by (simp add: octal_number_def Let_def)
      moreover have "number_parsed buf \<dots>"
        using True b by (intro number_parsed_Common) (auto simp: cursor_ok_def)
      ultimately show ?thesis by simp
    next
      case no: False
      then have "octal_number lo buf np = ParseDecimalOrOctalCommon lo buf ?np"
        using False by (auto simp: octal_number_def Let_def)
      moreover have "number_parsed buf \<dots>" by (intro number_parsed_Common np)
      ultimately show ?thesis by simp
    qed
  qed
qed

lemma ParseNumberStartingWithZero_ok:
  assumes "Suc (cur np) \<le> length buf"
  shows "number_parsed buf (ParseNumberStartingWithZero lo buf np)"
proof -
  let ?np = "np\<lparr>cur := Suc (cur np)\<rparr>"
  have "number_parsed buf (octal_number lo buf ?np)" using assms by (intro octal_number_ok) simp
  moreover have "number_parsed buf (hex_number lo buf ?np)" "number_parsed buf (binary_number lo buf ?np)"
    if "peek buf (Suc (cur np)) \<noteq> CHR 0x00"
  proof -
    have le: "Suc (cur ?np) \<le> length buf" using peek_le [OF that] by simp
    show "number_parsed buf (hex_number lo buf ?np)" "number_parsed buf (binary_number lo buf ?np)"
      using hex_number_cursor [OF le] hex_number_integer binary_number_ok [OF le]
      unfolding number_parsed_def by blast+
  qed
  ultimately show ?thesis by (auto simp: ParseNumberStartingWithZero_def Let_def)
qed

lemma parse_number_ok: "number_parsed buf (parse_number lo buf)"
proof (cases "peek buf 0 = CHR ''0''")
  case True
  then have "Suc (cur initial_parser) \<le> length buf" using peek_le [of buf 0] by (simp add: initial_parser_def)
  from ParseNumberStartingWithZero_ok [OF this] show ?thesis using True by (simp add: parse_number_def)
next
  case False
  let ?np = "initial_parser\<lparr>radix := 10, cur := SkipDigits buf 0\<rparr>"
  have "cursor_ok buf ?np" "digits_scanned buf ?np"
    using skip_bounds(2) [of 0 buf] skip_digit_of(1)
    by (auto simp: cursor_ok_def digits_scanned_def initial_parser_def)
  then show ?thesis using False number_parsed_Common [of buf ?np lo]
    by (auto simp: parse_number_def Let_def) (simp add: number_parsed_def)
qed

section \<open>The suffix loop\<close>

definition fixed_recorded :: "string \<Rightarrow> num_parser \<Rightarrow> bool" where
  "fixed_recorded buf np \<longleftrightarrow>
     (\<forall>i. SuffixBegin np \<le> i \<longrightarrow> i < cur np \<longrightarrow> fixed_letter (peek buf i) \<longrightarrow> isFract np \<or> isAccum np)"

lemma same_number_trans: "same_number a b \<Longrightarrow> same_number b c \<Longrightarrow> same_number a c"
  by (simp add: same_number_def)

lemma turn_recorded:
  assumes "turn_ok buf np r" "fixed_recorded buf np"
  shows "fixed_recorded buf (snd r)"
proof -
  have "isFract (snd r) \<or> isAccum (snd r)"
    if "SuffixBegin np \<le> i" "i < cur (snd r)" "fixed_letter (peek buf i)" for i
  proof (cases "i < cur np")
    case True
    with that assms show ?thesis unfolding turn_ok_def fixed_recorded_def by blast
  next
    case False
    then have "cur np \<le> i" by simp
    with that assms(1) show ?thesis unfolding turn_ok_def by blast
  qed
  then show ?thesis using assms(1) by (simp add: fixed_recorded_def turn_ok_def same_number_def)
qed

lemma suffix_loop_ok:
  assumes "cur np \<le> length buf"
  shows "same_number np (suffix_loop lo f16 buf fp np)" "cur np \<le> cur (suffix_loop lo f16 buf fp np)"
    "cur (suffix_loop lo f16 buf fp np) \<le> length buf"
    "fixed_recorded buf np \<Longrightarrow> fixed_recorded buf (suffix_loop lo f16 buf fp np)"
proof -
  have "same_number np (suffix_loop lo f16 buf fp np) \<and> cur np \<le> cur (suffix_loop lo f16 buf fp np) \<and>
    cur (suffix_loop lo f16 buf fp np) \<le> length buf \<and>
    (fixed_recorded buf np \<longrightarrow> fixed_recorded buf (suffix_loop lo f16 buf fp np))"
    using assms
  proof (induction lo f16 buf fp np rule: suffix_loop.induct)
    case (1 lo f16 buf fp np)
    show ?case
    proof (cases "cur np < length buf")
      case False
      with 1(2) show ?thesis by (subst (1 2 3 4) suffix_loop.simps) (simp add: same_number_def)
    next
      case lt: True
      obtain b np' where st: "suffix_step lo f16 buf fp np = (b, np')" by (cases "suffix_step lo f16 buf fp np")
      have t: "turn_ok buf np (b, np')" using suffix_step_ok [of buf np lo f16 fp] by (simp add: st)
      note rec = turn_recorded [OF t, unfolded snd_conv]
      show ?thesis
      proof (cases b)
        case False
        then have "suffix_loop lo f16 buf fp np = np'" using lt st by (subst suffix_loop.simps) simp
        with t rec lt show ?thesis by (simp add: turn_ok_def)
      next
        case True
        then have l: "suffix_loop lo f16 buf fp np = suffix_loop lo f16 buf fp np'" using lt st by (subst suffix_loop.simps) simp
        have "cur np' \<le> length buf" using t lt by (simp add: turn_ok_def)
        from 1(1) [OF _ st [symmetric] _ this] lt True t rec show ?thesis
          unfolding l by (auto simp: turn_ok_def intro: same_number_trans)
      qed
    qed
  qed
  then show "same_number np (suffix_loop lo f16 buf fp np)" "cur np \<le> cur (suffix_loop lo f16 buf fp np)"
    "cur (suffix_loop lo f16 buf fp np) \<le> length buf"
    "fixed_recorded buf np \<Longrightarrow> fixed_recorded buf (suffix_loop lo f16 buf fp np)" by auto
qed

section \<open>The constructor\<close>

lemma finish_suffix_keeps:
  assumes "finish_suffix lo h conv buf fixed fp np = Some np'"
  shows "DigitsBegin np' = DigitsBegin np" "SuffixBegin np' = SuffixBegin np" "radix np' = radix np"
    "saw_period np' = saw_period np" "saw_exponent np' = saw_exponent np" "hadError np \<Longrightarrow> hadError np'"
  using assms by (auto simp: finish_suffix_def Let_def split: option.splits if_splits)

lemma at_suffix_fields [simp]:
  "DigitsBegin (at_suffix lo buf np) = DigitsBegin np"
  "SuffixBegin (at_suffix lo buf np) = cur np" "cur (at_suffix lo buf np) = cur np"
  "radix (at_suffix lo buf np) = radix np" "saw_period (at_suffix lo buf np) = saw_period np"
  "saw_exponent (at_suffix lo buf np) = saw_exponent np"
  by (simp_all add: at_suffix_def Let_def)

lemma NumericLiteralParser_number:
  assumes "NumericLiteralParser lo f16 h conv buf = Some np" "\<not> hadError np"
  shows "DigitsBegin np \<le> SuffixBegin np" "SuffixBegin np \<le> length buf"
    and "isIntegerLiteral np \<Longrightarrow> radix np \<in> {2, 8, 10, 16}"
    and "isIntegerLiteral np \<Longrightarrow> \<forall>c \<in> set (slice buf (DigitsBegin np) (SuffixBegin np)). digit_of (radix np) c"
proof -
  let ?p = "parse_number lo buf"
  let ?a = "at_suffix lo buf ?p"
  let ?l = "suffix_loop lo f16 buf (isFloatingLiteral ?a) ?a"
  have p: "number_parsed buf ?p" by (rule parse_number_ok)
  have noerr: "\<not> hadError ?p" using assms by (auto simp: NumericLiteralParser_def)
  then have fin: "finish_suffix lo h conv buf (isFixedPointLiteral ?a) (isFloatingLiteral ?a) ?l = Some np"
    using assms by (simp add: NumericLiteralParser_def Let_def)
  have "cur ?a \<le> length buf" using p by (simp add: number_parsed_def cursor_ok_def)
  from suffix_loop_ok(1) [OF this] have same: "same_number ?a ?l" .
  have n: "DigitsBegin np = DigitsBegin ?p" "SuffixBegin np = cur ?p" "radix np = radix ?p"
    "saw_period np = saw_period ?p" "saw_exponent np = saw_exponent ?p"
    using finish_suffix_keeps(1-5) [OF fin] same by (simp_all add: same_number_def)
  show "DigitsBegin np \<le> SuffixBegin np" and le: "SuffixBegin np \<le> length buf"
    using p by (simp_all add: n number_parsed_def cursor_ok_def)
  assume "isIntegerLiteral np"
  then have d: "digits_scanned buf ?p" using p noerr by (simp add: isIntegerLiteral_def n number_parsed_def)
  then show "radix np \<in> {2, 8, 10, 16}" by (simp add: digits_scanned_def n)
  show "\<forall>c \<in> set (slice buf (DigitsBegin np) (SuffixBegin np)). digit_of (radix np) c"
    using d by (intro slice_all [OF le]) (simp add: digits_scanned_def n)
qed

text \<open>No assertion fails: neither in the expansion of a suffix without names, nor at the end.\<close>

lemma expandUCNs_plain: "CHR 0x5C \<notin> set I \<Longrightarrow> expandUCNs h conv Buf I = Some (Buf @ I)"
  by (induction I arbitrary: Buf) auto

lemma saw_fixed_simps [simp]:
  "saw_fixed_point_suffix (Report p d np) = saw_fixed_point_suffix np"
  "saw_fixed_point_suffix (Error p d np) = saw_fixed_point_suffix np"
  "saw_fixed_point_suffix (checkSeparator buf p a np) = saw_fixed_point_suffix np"
  by (simp_all add: Report_def Error_def checkSeparator_def Let_def)

lemma saw_fixed_steps [simp]:
  "saw_fixed_point_suffix (parse_fraction buf np) = saw_fixed_point_suffix np"
  "saw_fixed_point_suffix (parse_exponent buf np) = saw_fixed_point_suffix np"
  "saw_fixed_point_suffix (snd (hex_fraction buf has np)) = saw_fixed_point_suffix np"
  "saw_fixed_point_suffix (hex_exponent lo buf np) = saw_fixed_point_suffix np"
  by (simp add: parse_fraction_def Let_def, simp add: parse_exponent_def Let_def,
    simp add: hex_fraction_def Let_def, simp add: hex_exponent_def Let_def)

lemma saw_fixed_Common [simp]:
  "saw_fixed_point_suffix (ParseDecimalOrOctalCommon lo buf np) = saw_fixed_point_suffix np"
  by (simp add: ParseDecimalOrOctalCommon_def)

lemma saw_fixed_numbers [simp]:
  "saw_fixed_point_suffix (octal_number lo buf np) = saw_fixed_point_suffix np"
  "saw_fixed_point_suffix (binary_number lo buf np) = saw_fixed_point_suffix np"
  "saw_fixed_point_suffix (hex_number lo buf np) = saw_fixed_point_suffix np"
  by (simp add: octal_number_def Let_def, simp add: binary_number_def Let_def, simp add: hex_number_def Let_def split_beta)

lemma saw_fixed_parse_number: "\<not> saw_fixed_point_suffix (parse_number lo buf)"
  by (simp add: parse_number_def ParseNumberStartingWithZero_def Let_def initial_parser_def)

lemma finish_suffix_asserts:
  assumes e: "expandUCNs h conv [] (drop (SuffixBegin np) buf) = Some expanded"
    and ok: "cur np = length buf \<Longrightarrow> saw_fixed_point_suffix np \<Longrightarrow> isFract np \<or> isAccum np"
  shows "finish_suffix lo h conv buf fixed fp np \<noteq> None"
proof (cases "cur np = length buf")
  case True
  then have "\<not> (saw_fixed_point_suffix np \<and> \<not> (isFract np \<or> isAccum np))" using ok by blast
  then show ?thesis using e by (auto simp: finish_suffix_def Let_def)
next
  case False
  then show ?thesis using e by (simp add: finish_suffix_def Let_def)
qed

text \<open>
  The constructor of \<open>NumericLiteralParser\<close> fails no assertion on a token without universal
  character names: a fixed-point suffix it has seen ahead is recorded when the suffix has
  been parsed without an error.
\<close>

theorem NumericLiteralParser_asserts:
  assumes "CHR 0x5C \<notin> set buf"
  shows "\<exists>np. NumericLiteralParser lo f16 h conv buf = Some np"
proof (cases "hadError (parse_number lo buf)")
  case False
  let ?p = "parse_number lo buf"
  let ?a = "at_suffix lo buf ?p"
  let ?l = "suffix_loop lo f16 buf (isFloatingLiteral ?a) ?a"
  have run: "NumericLiteralParser lo f16 h conv buf =
      finish_suffix lo h conv buf (isFixedPointLiteral ?a) (isFloatingLiteral ?a) ?l"
    using False by (simp add: NumericLiteralParser_def Let_def)
  have le: "cur ?a \<le> length buf" using parse_number_ok [of buf lo] by (simp add: number_parsed_def cursor_ok_def)
  have rec: "fixed_recorded buf ?l" by (rule suffix_loop_ok(4) [OF le]) (simp add: fixed_recorded_def)
  have sb: "SuffixBegin ?l = cur ?p" "saw_fixed_point_suffix ?l = saw_fixed_point_suffix ?a"
    using suffix_loop_ok(1) [OF le] by (simp_all add: same_number_def)
  have seen: "isFract ?l \<or> isAccum ?l" if "cur ?l = length buf" "saw_fixed_point_suffix ?l"
  proof -
    have "list_ex fixed_letter (drop (cur ?p) buf)"
      using that(2) saw_fixed_parse_number [of lo buf] unfolding sb by (auto simp: at_suffix_def Let_def split: if_splits)
    then obtain i where "i < length (drop (cur ?p) buf)" "fixed_letter (drop (cur ?p) buf ! i)"
      by (auto simp: list_ex_iff in_set_conv_nth)
    then have "cur ?p + i < length buf" "fixed_letter (peek buf (cur ?p + i))" by (auto simp: peek_def)
    with rec that(1) sb(1) show ?thesis unfolding fixed_recorded_def by (metis le_add1)
  qed
  have "CHR 0x5C \<notin> set (drop (SuffixBegin ?l) buf)" using assms by (meson in_set_dropD)
  from finish_suffix_asserts [OF expandUCNs_plain [OF this] seen] show ?thesis unfolding run by simp
qed (simp add: NumericLiteralParser_def)

theorem NumericLiteralParser_asserts_witness:
  "\<exists>np. NumericLiteralParser \<lparr>CPlusPlus = True, CPlusPlus11 = True, CPlusPlus14 = True, CPlusPlus17 = True,
      CPlusPlus20 = True, C99 = True, FixedPoint = True, Half = True, MicrosoftExt = True, CUDA = False,
      HexFloats = True\<rparr> False hexDigitValue_model (\<lambda>_. None) ''1.5hk'' = Some np"
  by (rule NumericLiteralParser_asserts) simp

section \<open>The value of an integer literal\<close>

text \<open>\<open>llvm::APInt\<close>: the operations the code uses, and what LLVM documents of them.\<close>

record 'a apint_ops =
  getBitWidth :: "'a \<Rightarrow> nat"
  APInt :: "nat \<Rightarrow> u64 \<Rightarrow> 'a"
  apint_assign :: "'a \<Rightarrow> u64 \<Rightarrow> 'a"
  getZExtValue :: "'a \<Rightarrow> u64"
  apint_mul :: "'a \<Rightarrow> 'a \<Rightarrow> 'a"
  apint_udiv :: "'a \<Rightarrow> 'a \<Rightarrow> 'a"
  apint_add :: "'a \<Rightarrow> 'a \<Rightarrow> 'a"
  apint_ult :: "'a \<Rightarrow> 'a \<Rightarrow> bool"
  apint_ne :: "'a \<Rightarrow> 'a \<Rightarrow> bool"

definition APInt_ok :: "'a apint_ops \<Rightarrow> ('a \<Rightarrow> nat) \<Rightarrow> bool" where
  "APInt_ok A val \<longleftrightarrow>
     (\<forall>w n. getBitWidth A (APInt A w n) = w \<and> val (APInt A w n) = unat n mod 2 ^ w) \<and>
     (\<forall>a n. getBitWidth A (apint_assign A a n) = getBitWidth A a \<and>
        val (apint_assign A a n) = unat n mod 2 ^ getBitWidth A a) \<and>
     (\<forall>a. val a < 2 ^ 64 \<longrightarrow> unat (getZExtValue A a) = val a) \<and>
     (\<forall>a. val a < 2 ^ getBitWidth A a) \<and>
     (\<forall>a b. getBitWidth A a = getBitWidth A b \<longrightarrow>
        getBitWidth A (apint_mul A a b) = getBitWidth A a \<and> getBitWidth A (apint_add A a b) = getBitWidth A a \<and>
        val (apint_mul A a b) = val a * val b mod 2 ^ getBitWidth A a \<and>
        val (apint_add A a b) = (val a + val b) mod 2 ^ getBitWidth A a \<and>
        (val b \<noteq> 0 \<longrightarrow> getBitWidth A (apint_udiv A a b) = getBitWidth A a \<and> val (apint_udiv A a b) = val a div val b) \<and>
        apint_ult A a b = (val a < val b) \<and> apint_ne A a b = (val a \<noteq> val b))"

text \<open>\<open>None\<close> is \<open>llvm_unreachable\<close>.\<close>

definition alwaysFitsInto64Bits :: "nat \<Rightarrow> nat \<Rightarrow> bool option" where
  "alwaysFitsInto64Bits Radix NumDigits =
     (if Radix = 2 then Some (NumDigits \<le> 64)
      else if Radix = 8 then Some (NumDigits \<le> 64 div 3)
      else if Radix = 10 then Some (NumDigits \<le> 19)
      else if Radix = 16 then Some (NumDigits \<le> 64 div 4)
      else None)"

text \<open>The two loops over the characters from \<open>DigitsBegin\<close> to \<open>SuffixBegin\<close>.\<close>

fun fast_loop :: "(char \<Rightarrow> u32) \<Rightarrow> nat \<Rightarrow> string \<Rightarrow> u64 \<Rightarrow> u64" where
  "fast_loop hexDigitValue r [] N = N"
| "fast_loop hexDigitValue r (c # cs) N =
     fast_loop hexDigitValue r cs
       (if \<not> isDigitSeparator c then N * of_nat r + ucast (hexDigitValue c) else N)"

fun slow_loop :: "'a apint_ops \<Rightarrow> (char \<Rightarrow> u32) \<Rightarrow> nat \<Rightarrow> 'a \<Rightarrow> string \<Rightarrow> 'a \<Rightarrow> bool \<Rightarrow> ('a \<times> bool) option" where
  "slow_loop A hexDigitValue r RadixVal [] Val OverflowOccurred = Some (Val, OverflowOccurred)"
| "slow_loop A hexDigitValue r RadixVal (c # cs) Val OverflowOccurred =
     (if isDigitSeparator c then slow_loop A hexDigitValue r RadixVal cs Val OverflowOccurred
      else let C = hexDigitValue c in
      if \<not> unat C < r then None
      else let CharVal = APInt A (getBitWidth A Val) (ucast C);
               OldVal = Val;
               Val = apint_mul A Val RadixVal;
               OverflowOccurred = (OverflowOccurred \<or> apint_ne A (apint_udiv A Val RadixVal) OldVal);
               Val = apint_add A Val CharVal;
               OverflowOccurred = (OverflowOccurred \<or> apint_ult A Val CharVal)
           in slow_loop A hexDigitValue r RadixVal cs Val OverflowOccurred)"

definition GetIntegerValue ::
  "'a apint_ops \<Rightarrow> (char \<Rightarrow> u32) \<Rightarrow> string \<Rightarrow> num_parser \<Rightarrow> 'a \<Rightarrow> ('a \<times> bool) option" where
  "GetIntegerValue A hexDigitValue buf np Val =
     (let digits = slice buf (DigitsBegin np) (SuffixBegin np);
          NumDigits = SuffixBegin np - DigitsBegin np in
      case alwaysFitsInto64Bits (radix np) NumDigits of
        None \<Rightarrow> None
      | Some True \<Rightarrow>
          let N = fast_loop hexDigitValue (radix np) digits 0; Val = apint_assign A Val N
          in Some (Val, getZExtValue A Val \<noteq> N)
      | Some False \<Rightarrow>
          let Val = apint_assign A Val 0; RadixVal = APInt A (getBitWidth A Val) (of_nat (radix np))
          in slow_loop A hexDigitValue (radix np) RadixVal digits Val False)"

definition real_digits :: "string \<Rightarrow> string" where
  "real_digits cs = filter (\<lambda>c. \<not> isDigitSeparator c) cs"

lemma unat_hexDigitValue: "hexDigitValue_ok h \<Longrightarrow> isHexDigit c \<Longrightarrow> unat (h c) = hex_value c"
  using hexDigitValue_digit(2) [of h c] hex_value_less [of c] by (simp add: unat_of_nat)

lemma fast_loop_value:
  assumes h: "hexDigitValue_ok h"
  shows "\<forall>c \<in> set cs. digit_of r c \<Longrightarrow>
    fast_loop h r cs (of_nat v) = of_nat (digits_value r v (real_digits cs))"
proof (induction cs arbitrary: v)
  case (Cons c cs)
  show ?case
  proof (cases "isDigitSeparator c")
    case True
    then show ?thesis using Cons by (simp add: real_digits_def)
  next
    case False
    then have c: "isHexDigit c" using Cons.prems by (simp add: digit_of_def)
    have "ucast (h c) = (of_nat (unat (h c)) :: u64)" by (simp only: of_nat_unat)
    then have "ucast (h c) = (of_nat (hex_value c) :: u64)" by (simp only: unat_hexDigitValue [OF h c])
    then have v: "of_nat v * of_nat r + ucast (h c) = (of_nat (r * v + hex_value c) :: u64)"
      by (simp add: mult.commute)
    have "fast_loop h r (c # cs) (of_nat v) = fast_loop h r cs (of_nat (r * v + hex_value c))"
      using False v by (simp add: mult.commute)
    also have "\<dots> = of_nat (digits_value r (r * v + hex_value c) (real_digits cs))"
      by (rule Cons.IH) (use Cons.prems in simp)
    finally show ?thesis using False by (simp add: real_digits_def)
  qed
qed (simp add: real_digits_def)

lemma mult_overflow:
  fixes v r m :: nat
  assumes "0 < r" "r \<le> m" "v < m"
  shows "v * r mod m div r \<noteq> v \<longleftrightarrow> m \<le> v * r"
proof
  assume le: "m \<le> v * r"
  have "v * r mod m \<le> v * r - m" using le by (simp add: le_mod_geq)
  also have "\<dots> \<le> v * r - r" using assms(2) by simp
  finally have "v * r mod m div r \<le> (v * r - r) div r" by (rule div_le_mono)
  also have "v * r - r = (v - 1) * r" by (simp add: diff_mult_distrib)
  also have "\<dots> div r = v - 1" using assms(1) by simp
  finally show "v * r mod m div r \<noteq> v" using le assms by (cases v) auto
next
  assume ne: "v * r mod m div r \<noteq> v"
  show "m \<le> v * r"
  proof (rule ccontr)
    assume "\<not> m \<le> v * r"
    then have "v * r mod m = v * r" by simp
    with ne assms(1) show False by simp
  qed
qed

lemma add_overflow:
  fixes a c m :: nat
  assumes "a < m" "c < m"
  shows "(a + c) mod m < c \<longleftrightarrow> m \<le> a + c"
proof (cases "m \<le> a + c")
  case True
  then have "(a + c) mod m = a + c - m" using assms by (subst le_mod_geq) simp_all
  then show ?thesis using True assms by simp
qed simp

text \<open>One digit of the slow path: value and overflow flag, as long as the flag is exact.\<close>

lemma slow_step:
  fixes v r c m :: nat
  assumes "0 < r" "r \<le> m" "c < m"
  shows "(v mod m * r mod m + c) mod m = (r * v + c) mod m"
    and "(m \<le> v \<or> v mod m * r mod m div r \<noteq> v mod m \<or> (v mod m * r mod m + c) mod m < c) = (m \<le> r * v + c)"
proof -
  show "(v mod m * r mod m + c) mod m = (r * v + c) mod m"
    by (metis mod_add_left_eq mod_mult_left_eq mult.commute)
  show "(m \<le> v \<or> v mod m * r mod m div r \<noteq> v mod m \<or> (v mod m * r mod m + c) mod m < c) = (m \<le> r * v + c)"
  proof (cases "m \<le> v")
    case True
    moreover have "v \<le> r * v" using assms(1) by simp
    ultimately show ?thesis by linarith
  next
    case False
    then have v: "v mod m = v" by simp
    show ?thesis
    proof (cases "m \<le> v * r")
      case True
      then have "v * r mod m div r \<noteq> v" using mult_overflow [OF assms(1,2), of v] False by simp
      moreover have "m \<le> r * v + c" using True by (simp add: mult.commute)
      ultimately show ?thesis using v by simp
    next
      case noover: False
      then show ?thesis using mult_overflow [OF assms(1,2), of v] add_overflow [of "v * r" m c] False v assms(3)
        by (simp add: mult.commute)
    qed
  qed
qed

lemma slow_loop_value:
  assumes h: "hexDigitValue_ok h" and A: "APInt_ok A val" and r: "0 < r" "r < 2 ^ w" "val R = r" "getBitWidth A R = w"
    and w: "5 \<le> w"
  shows "\<forall>c \<in> set cs. digit_of r c \<Longrightarrow> getBitWidth A V = w \<Longrightarrow> val V = v mod 2 ^ w \<Longrightarrow>
    \<exists>V'. slow_loop A h r R cs V (2 ^ w \<le> v) = Some (V', 2 ^ w \<le> digits_value r v (real_digits cs)) \<and>
      getBitWidth A V' = w \<and> val V' = digits_value r v (real_digits cs) mod 2 ^ w"
proof (induction cs arbitrary: v V)
  case Nil
  then show ?case by (simp add: real_digits_def)
next
  case (Cons c cs)
  show ?case
  proof (cases "isDigitSeparator c")
    case True
    then show ?thesis using Cons by (simp add: real_digits_def)
  next
    case False
    let ?m = "2 ^ w :: nat" and ?d = "hex_value c"
    have c: "isHexDigit c" "?d < r" using Cons.prems(1) False by (simp_all add: digit_of_def)
    have d: "unat (h c) = ?d" "?d < 16" using unat_hexDigitValue [OF h c(1)] hex_value_less [OF c(1)] .
    have "(2 :: nat) ^ 5 \<le> ?m" using w by (intro power_increasing) auto
    then have dm: "?d < ?m" using d(2) by simp
    let ?C = "APInt A w (ucast (h c))" and ?M = "apint_mul A V R"
    let ?S = "apint_add A ?M ?C"
    have C: "val ?C = ?d" "getBitWidth A ?C = w"
      using A dm d by (simp_all add: APInt_ok_def unsigned_ucast_eq take_bit_eq_mod)
    have M: "val ?M = v mod ?m * r mod ?m" "getBitWidth A ?M = w"
      using A Cons.prems(2,3) r(3,4) by (simp_all add: APInt_ok_def)
    have D: "val (apint_udiv A ?M R) = v mod ?m * r mod ?m div r" "getBitWidth A (apint_udiv A ?M R) = w"
      using A M r by (simp_all add: APInt_ok_def)
    have S: "val ?S = (v mod ?m * r mod ?m + ?d) mod ?m" "getBitWidth A ?S = w"
      using A M C by (simp_all add: APInt_ok_def)
    have ov: "((?m \<le> v \<or> apint_ne A (apint_udiv A ?M R) V) \<or> apint_ult A ?S ?C) = (?m \<le> r * v + ?d)"
      using slow_step(2) [OF r(1) less_imp_le [OF r(2)] dm, of v] A D S C Cons.prems(2,3)
      by (simp add: APInt_ok_def)
    have "slow_loop A h r R (c # cs) V (?m \<le> v) = slow_loop A h r R cs ?S (?m \<le> r * v + ?d)"
      unfolding slow_loop.simps Let_def Cons.prems(2) ov using False c(2) d(1) by simp
    moreover have "val ?S = (r * v + ?d) mod ?m"
      using S(1) slow_step(1) [OF r(1) less_imp_le [OF r(2)] dm, of v] by simp
    ultimately show ?thesis using Cons.IH [of ?S "r * v + ?d"] Cons.prems(1) S(2) False
      by (simp add: real_digits_def)
  qed
qed

lemma real_digits_of: "\<forall>c \<in> set cs. digit_of r c \<Longrightarrow> \<forall>c \<in> set (real_digits cs). hex_value c < r"
  by (auto simp: real_digits_def digit_of_def)

lemma alwaysFits_value:
  assumes "alwaysFitsInto64Bits r (length cs) = Some True" "\<forall>c \<in> set cs. digit_of r c"
  shows "digits_value r 0 (real_digits cs) < 2 ^ 64"
proof -
  have r: "r \<in> {2, 8, 10, 16}" using assms(1) by (auto simp: alwaysFitsInto64Bits_def split: if_splits)
  have len: "length (real_digits cs) \<le> length cs" by (simp add: real_digits_def)
  have "digits_value r 0 (real_digits cs) < (0 + 1) * r ^ length (real_digits cs)"
    using real_digits_of [OF assms(2)] r by (intro digits_value_less) auto
  also have "\<dots> \<le> r ^ length cs" using r len by (auto intro!: power_increasing)
  also have "\<dots> \<le> 2 ^ 64"
  proof -
    have le: "r ^ length cs \<le> r ^ n" if "length cs \<le> n" for n using r that by (auto intro!: power_increasing)
    show ?thesis
      using assms(1) le [of 64] le [of 21] le [of 19] le [of 16]
      by (auto simp: alwaysFitsInto64Bits_def split: if_splits)
  qed
  finally show ?thesis .
qed

lemma zext_overflow:
  assumes A: "APInt_ok A val" and V: "val V = v mod 2 ^ w" and N: "unat N = v" and lt: "v < 2 ^ 64"
  shows "(getZExtValue A V \<noteq> N) = (2 ^ w \<le> v)"
proof -
  have "val V < 2 ^ 64" using V lt by (simp add: le_less_trans [OF mod_less_eq_dividend])
  then have "unat (getZExtValue A V) = v mod 2 ^ w" using A V by (simp add: APInt_ok_def)
  then have "(getZExtValue A V \<noteq> N) = (v mod 2 ^ w \<noteq> v)" using N by (metis word_unat_eq_iff)
  also have "\<dots> = (2 ^ w \<le> v)" by (metis mod_less mod_less_divisor not_less zero_less_numeral zero_less_power)
  finally show ?thesis .
qed

text \<open>\<open>APInt\<close> as a width and a number.\<close>

definition apint_val :: "nat \<times> nat \<Rightarrow> nat" where
  "apint_val a = snd a mod 2 ^ fst a"

definition apint_model :: "(nat \<times> nat) apint_ops" where
  "apint_model = \<lparr>getBitWidth = fst, APInt = (\<lambda>w n. (w, unat n)), apint_assign = (\<lambda>a n. (fst a, unat n)),
     getZExtValue = (\<lambda>a. of_nat (apint_val a)), apint_mul = (\<lambda>a b. (fst a, apint_val a * apint_val b)),
     apint_udiv = (\<lambda>a b. (fst a, apint_val a div apint_val b)), apint_add = (\<lambda>a b. (fst a, apint_val a + apint_val b)),
     apint_ult = (\<lambda>a b. apint_val a < apint_val b), apint_ne = (\<lambda>a b. apint_val a \<noteq> apint_val b)\<rparr>"

lemma apint_model_ok: "APInt_ok apint_model apint_val"
proof -
  have "x mod 2 ^ w div y mod 2 ^ w = x mod 2 ^ w div y" for x y w :: nat
    by (intro mod_less le_less_trans [OF div_le_dividend]) simp
  then show ?thesis by (simp add: APInt_ok_def apint_model_def apint_val_def unat_of_nat)
qed

lemma GetIntegerValue_value:
  assumes h: "hexDigitValue_ok h" and A: "APInt_ok A val"
    and np: "NumericLiteralParser lo f16 h conv buf = Some np" "\<not> hadError np" "isIntegerLiteral np"
    and w: "5 \<le> getBitWidth A V"
  shows "\<exists>V'. GetIntegerValue A h buf np V = Some (V', 2 ^ getBitWidth A V \<le>
      digits_value (radix np) 0 (real_digits (slice buf (DigitsBegin np) (SuffixBegin np)))) \<and>
    getBitWidth A V' = getBitWidth A V \<and>
    val V' = digits_value (radix np) 0 (real_digits (slice buf (DigitsBegin np) (SuffixBegin np))) mod 2 ^ getBitWidth A V"
proof -
  let ?cs = "slice buf (DigitsBegin np) (SuffixBegin np)" and ?r = "radix np" and ?w = "getBitWidth A V"
  let ?v = "digits_value ?r 0 (real_digits ?cs)"
  note num = NumericLiteralParser_number [OF np(1,2)]
  have r: "?r \<in> {2, 8, 10, 16}" by (rule num(3) [OF np(3)])
  have ds: "\<forall>c \<in> set ?cs. digit_of ?r c" by (rule num(4) [OF np(3)])
  have "(2 :: nat) ^ 5 \<le> 2 ^ ?w" using w by (intro power_increasing) auto
  then have rw: "0 < ?r" "?r < 2 ^ ?w" using r by auto
  have len: "length ?cs = SuffixBegin np - DigitsBegin np" using num(2) by simp
  show ?thesis
  proof (cases "alwaysFitsInto64Bits ?r (length ?cs) = Some True")
    case True
    let ?N = "fast_loop h ?r ?cs 0" and ?V = "apint_assign A V (fast_loop h ?r ?cs 0)"
    have lt: "?v < 2 ^ 64" by (rule alwaysFits_value [OF True ds])
    have N: "unat ?N = ?v" using fast_loop_value [OF h ds, of 0] lt by (simp add: unat_of_nat)
    have V: "getBitWidth A ?V = ?w" "val ?V = ?v mod 2 ^ ?w" using A N by (simp_all add: APInt_ok_def)
    have "(getZExtValue A ?V \<noteq> ?N) = (2 ^ ?w \<le> ?v)" by (rule zext_overflow [OF A V(2) N lt])
    then show ?thesis using True V len by (simp add: GetIntegerValue_def Let_def)
  next
    case False
    then have no: "alwaysFitsInto64Bits ?r (length ?cs) = Some False" using r by (auto simp: alwaysFitsInto64Bits_def)
    let ?V = "apint_assign A V 0"
    let ?R = "APInt A (getBitWidth A ?V) (of_nat ?r)"
    have V: "getBitWidth A ?V = ?w" "val ?V = 0 mod 2 ^ ?w" using A by (simp_all add: APInt_ok_def)
    have "unat (of_nat ?r :: u64) = ?r" using r by auto
    then have R: "val ?R = ?r" "getBitWidth A ?R = ?w" using A V(1) rw(2) by (simp_all add: APInt_ok_def)
    show ?thesis
      using slow_loop_value [OF h A rw R w ds V] no len by (simp add: GetIntegerValue_def Let_def)
  qed
qed

text \<open>
  C21. When the constructor accepts a token as an integer literal, \<open>GetIntegerValue\<close> fails no assertion,
  sets \<open>Val\<close> to the value of the digits (the separators dropped) modulo its width, and returns
  true exactly when the value does not fit; the digits are all digits of the radix.
\<close>

theorem GetIntegerValue_correct:
  assumes h: "hexDigitValue_ok h" and A: "APInt_ok A val"
    and np: "NumericLiteralParser lo f16 h conv buf = Some np" "\<not> hadError np" "isIntegerLiteral np"
    and w: "5 \<le> getBitWidth A V"
  shows "let ds = real_digits (slice buf (DigitsBegin np) (SuffixBegin np)); v = digits_value (radix np) 0 ds in
    (\<forall>c \<in> set ds. isHexDigit c \<and> hex_value c < radix np) \<and>
    (\<exists>V'. GetIntegerValue A h buf np V = Some (V', 2 ^ getBitWidth A V \<le> v) \<and>
      getBitWidth A V' = getBitWidth A V \<and> val V' = v mod 2 ^ getBitWidth A V)"
proof -
  let ?cs = "slice buf (DigitsBegin np) (SuffixBegin np)"
  have "\<forall>c \<in> set ?cs. digit_of (radix np) c" by (rule NumericLiteralParser_number(4) [OF np(1,2) np(3)])
  then have "\<forall>c \<in> set (real_digits ?cs). isHexDigit c \<and> hex_value c < radix np"
    by (auto simp: real_digits_def digit_of_def)
  then show ?thesis using GetIntegerValue_value [OF h A np w] by (simp add: Let_def)
qed

definition sample_options :: lang_options where
  "sample_options = \<lparr>CPlusPlus = True, CPlusPlus11 = True, CPlusPlus14 = True, CPlusPlus17 = True,
     CPlusPlus20 = True, C99 = True, FixedPoint = False, Half = False, MicrosoftExt = False, CUDA = False,
     HexFloats = True\<rparr>"

lemma sample_number:
  "NumericLiteralParser sample_options False hexDigitValue_model (\<lambda>_. None) ''0x1FFu'' =
     Some (initial_parser\<lparr>cur := 6, radix := 16, DigitsBegin := 2, SuffixBegin := 5, isUnsigned := True\<rparr>)"
  by code_simp

theorem GetIntegerValue_correct_witness:
  "\<exists>np V'. NumericLiteralParser sample_options False hexDigitValue_model (\<lambda>_. None) ''0x1FFu'' = Some np \<and>
     GetIntegerValue apint_model hexDigitValue_model ''0x1FFu'' np (8, 0) = Some (V', True) \<and> apint_val V' = 255"
proof -
  let ?np = "initial_parser\<lparr>cur := 6, radix := 16, DigitsBegin := 2, SuffixBegin := 5, isUnsigned := True\<rparr>"
  have np: "\<not> hadError ?np" "isIntegerLiteral ?np"
    by (simp_all add: initial_parser_def isIntegerLiteral_def isFixedPointLiteral_def)
  have w: "5 \<le> getBitWidth apint_model (8, 0)" by (simp add: apint_model_def)
  have v: "digits_value (radix ?np) 0 (real_digits (slice ''0x1FFu'' (DigitsBegin ?np) (SuffixBegin ?np))) = 511"
    by code_simp
  from GetIntegerValue_correct [OF hexDigitValue_model_ok apint_model_ok sample_number np w] v sample_number
  show ?thesis by (simp add: Let_def) (auto simp: apint_model_def)
qed

text \<open>
  The fast path of \<open>GetIntegerValue\<close> is an optimisation only: wherever it is taken, the slow path on
  the same digits gives the same value and the same answer on overflow.
\<close>

theorem fast_slow_agree:
  assumes h: "hexDigitValue_ok h" and A: "APInt_ok A val"
    and fits: "alwaysFitsInto64Bits r (length cs) = Some True" "\<forall>c \<in> set cs. isDigitSeparator c \<or> isHexDigit c \<and> hex_value c < r"
    and w: "5 \<le> getBitWidth A V"
  shows "let N = fast_loop h r cs 0; F = apint_assign A V N; R = APInt A (getBitWidth A V) (of_nat r) in
    \<exists>S. slow_loop A h r R cs (apint_assign A V 0) False = Some (S, getZExtValue A F \<noteq> N) \<and>
      getBitWidth A S = getBitWidth A F \<and> val S = val F"
proof -
  let ?w = "getBitWidth A V" and ?v = "digits_value r 0 (real_digits cs)"
  let ?N = "fast_loop h r cs 0" and ?V = "apint_assign A V (fast_loop h r cs 0)" and ?R = "APInt A (getBitWidth A V) (of_nat r)"
  have ds: "\<forall>c \<in> set cs. digit_of r c" using fits(2) by (simp add: digit_of_def)
  have r: "r \<in> {2, 8, 10, 16}" using fits(1) by (auto simp: alwaysFitsInto64Bits_def split: if_splits)
  have "(2 :: nat) ^ 5 \<le> 2 ^ ?w" using w by (intro power_increasing) auto
  then have rw: "0 < r" "r < 2 ^ ?w" using r by auto
  have lt: "?v < 2 ^ 64" by (rule alwaysFits_value [OF fits(1) ds])
  have N: "unat ?N = ?v" using fast_loop_value [OF h ds, of 0] lt by (simp add: unat_of_nat)
  have V: "getBitWidth A ?V = ?w" "val ?V = ?v mod 2 ^ ?w" using A N by (simp_all add: APInt_ok_def)
  have ov: "(getZExtValue A ?V \<noteq> ?N) = (2 ^ ?w \<le> ?v)" by (rule zext_overflow [OF A V(2) N lt])
  have "unat (of_nat r :: u64) = r" using r by auto
  then have R: "val ?R = r" "getBitWidth A ?R = ?w" using A rw(2) by (simp_all add: APInt_ok_def)
  have "getBitWidth A (apint_assign A V 0) = ?w" "val (apint_assign A V 0) = 0 mod 2 ^ ?w" using A by (simp_all add: APInt_ok_def)
  from slow_loop_value [OF h A rw R w ds this] show ?thesis
    unfolding Let_def ov using V by simp
qed

theorem fast_slow_agree_witness:
  "let N = fast_loop hexDigitValue_model 10 ''300'' 0; F = apint_assign apint_model (8, 0) N;
       R = APInt apint_model (getBitWidth apint_model (8, 0)) (of_nat 10) in
    \<exists>S. slow_loop apint_model hexDigitValue_model 10 R ''300'' (apint_assign apint_model (8, 0) 0) False =
        Some (S, getZExtValue apint_model F \<noteq> N) \<and>
      getBitWidth apint_model S = getBitWidth apint_model F \<and> apint_val S = apint_val F"
  by (rule fast_slow_agree [OF hexDigitValue_model_ok apint_model_ok])
    (simp_all add: alwaysFitsInto64Bits_def apint_model_def hex_value_def char_iffs)

end
