(* ===== verification/PPExpressions.thy ===== *)
theory PPExpressions
  imports NumericLiteral
begin

text \<open>
  The evaluator of \<open>#if\<close> and \<open>#elif\<close> expressions (\<open>lib/Lex/PPExpressions.cpp\<close>).  The
  preprocessor that delivers the tokens, \<open>llvm::APInt\<close>, character literals and the target are
  parameters.  Source ranges only go into diagnostics, which are kept without them.  Recursion has fuel,
  which \<open>m + 1\<close> tokens never use up.
\<close>

section \<open>Tokens and diagnostics\<close>

datatype tok_kind =
    tok_eod | tok_l_paren | tok_r_paren | tok_percent | tok_slash | tok_star | tok_plus | tok_minus
  | tok_lessless | tok_greatergreater | tok_lessequal | tok_less | tok_greaterequal | tok_greater
  | tok_exclaimequal | tok_equalequal | tok_amp | tok_caret | tok_pipe | tok_ampamp | tok_pipepipe
  | tok_question | tok_comma | tok_colon | tok_tilde | tok_exclaim | tok_numeric_constant
  | tok_char_constant | tok_wide_char_constant | tok_utf8_char_constant | tok_utf16_char_constant
  | tok_utf32_char_constant | tok_kw_true | tok_kw_false | tok_code_completion | tok_other

record pp_ident =
  getName :: string
  isCPlusPlusOperatorKeyword :: bool

text \<open>\<open>from_macro\<close>: the location is in a macro expansion, and whether of a function-like macro.\<close>

record pp_token =
  getKind :: tok_kind
  getIdentifierInfo :: "pp_ident option"
  hasUDSuffix :: bool
  token_text :: string
  from_macro :: "bool option"

datatype pp_diag =
    err_pp_missing_macro_name | err_pp_macro_not_identifier | ext_pp_operator_used_as_macro_name
  | err_pp_operator_used_as_macro_name | err_pp_expected_after | warn_defined_in_function_type_macro
  | warn_defined_in_object_type_macro | warn_pp_undef_identifier | warn_pp_undef_prefix
  | err_pp_expr_bad_token_start_expr | err_pp_expected_value_in_expr | err_pp_illegal_floating_literal
  | err_pp_invalid_udl | warn_cxx98_compat_longlong | ext_cxx11_longlong | ext_c99_longlong
  | err_integer_literal_too_large | ext_integer_literal_too_large_for_signed | err_pp_expected_rparen
  | warn_pp_expr_overflow | err_pp_expr_bad_token_lparen | err_pp_expr_bad_token_binop
  | warn_pp_convert_to_positive bool | err_pp_remainder_by_zero | err_pp_division_by_zero
  | ext_pp_comma_expr | err_expected_colon | err_pp_colon_without_question | err_pp_expected_eol
  | note_matching | in_literal nat num_diag

section \<open>The parameters\<close>

text \<open>The further operations of \<open>llvm::APInt\<close>; those that end in \<open>_ov\<close> also give the overflow flag.\<close>

record 'a apsint_ops = "'a apint_ops" +
  apint_sub :: "'a \<Rightarrow> 'a \<Rightarrow> 'a"
  apint_neg :: "'a \<Rightarrow> 'a"
  apint_not :: "'a \<Rightarrow> 'a"
  apint_and :: "'a \<Rightarrow> 'a \<Rightarrow> 'a"
  apint_xor :: "'a \<Rightarrow> 'a \<Rightarrow> 'a"
  apint_or :: "'a \<Rightarrow> 'a \<Rightarrow> 'a"
  apint_urem :: "'a \<Rightarrow> 'a \<Rightarrow> 'a"
  apint_srem :: "'a \<Rightarrow> 'a \<Rightarrow> 'a"
  apint_slt :: "'a \<Rightarrow> 'a \<Rightarrow> bool"
  isNullValue :: "'a \<Rightarrow> bool"
  isNegative :: "'a \<Rightarrow> bool"
  isMinSignedValue :: "'a \<Rightarrow> bool"
  getLimitedValue :: "'a \<Rightarrow> u64"
  apint_lshr :: "'a \<Rightarrow> nat \<Rightarrow> 'a"
  apint_ashr :: "'a \<Rightarrow> nat \<Rightarrow> 'a"
  apint_zext :: "'a \<Rightarrow> nat \<Rightarrow> 'a"
  apint_sext :: "'a \<Rightarrow> nat \<Rightarrow> 'a"
  sadd_ov :: "'a \<Rightarrow> 'a \<Rightarrow> 'a \<times> bool"
  ssub_ov :: "'a \<Rightarrow> 'a \<Rightarrow> 'a \<times> bool"
  smul_ov :: "'a \<Rightarrow> 'a \<Rightarrow> 'a \<times> bool"
  sdiv_ov :: "'a \<Rightarrow> 'a \<Rightarrow> 'a \<times> bool"
  sshl_ov :: "'a \<Rightarrow> 'a \<Rightarrow> 'a \<times> bool"
  ushl_ov :: "'a \<Rightarrow> 'a \<Rightarrow> 'a \<times> bool"

record char_literal =
  isMultiChar :: bool
  isWide :: bool
  isUTF16 :: bool
  isUTF32 :: bool
  getValue :: u64

text \<open>\<open>'p\<close> is what is left of the preprocessor's state; the flag is \<open>DisableMacroExpansion\<close>.\<close>

record ('p, 'a) preprocessor =
  Lex_NonComment :: "bool \<Rightarrow> 'p \<Rightarrow> pp_token \<times> 'p"
  Lex_UnexpandedNonComment :: "bool \<Rightarrow> 'p \<Rightarrow> pp_token \<times> 'p"
  Lex_UnexpandedToken :: "bool \<Rightarrow> 'p \<Rightarrow> pp_token \<times> 'p"
  getMacroDefinition :: "pp_ident \<Rightarrow> bool"
  getSpelling :: "pp_token \<Rightarrow> string option"
  LangOpts :: lang_options
  CharIsSigned :: bool
  hasFloat16 :: bool
  hexDigits :: "char \<Rightarrow> u32"
  toUTF8 :: "u32 \<Rightarrow> string option"
  CharLiteral :: "tok_kind \<Rightarrow> string \<Rightarrow> char_literal option"
  undef_identifier_ignored :: bool
  UndefPrefixes :: "string list"
  APInts :: "'a apsint_ops"
  IntMaxTWidth :: nat
  IntWidth :: nat
  WCharWidth :: nat
  Char16Width :: nat
  Char32Width :: nat
  CharWidth :: nat
  WCharSigned :: bool

section \<open>State and values\<close>

record 'p pp_state =
  pp_rest :: 'p
  PeekTok :: pp_token
  DisableMacroExpansion :: bool
  ParsingIfOrElifDirective :: bool
  Diags :: "pp_diag list"

record 'a apsint =
  bits :: 'a
  unsigned_value :: bool

record 'a pp_value =
  Val :: "'a apsint"
  getIdentifier :: "pp_ident option"

datatype tracker_state = DefinedMacro | NotDefinedMacro | Unknown

record defined_tracker =
  State :: tracker_state
  TheMacro :: "pp_ident option"
  IncludedUndefinedIds :: bool

text \<open>\<open>Failed\<close> is the return value true: the flag is \<open>IncludedUndefinedIds\<close> at that point.\<close>

datatype ('r, 'p) result = NoFuel | AssertFails | Failed bool "'p pp_state" | Done 'r "'p pp_state"

definition Diag :: "pp_diag \<Rightarrow> 'p pp_state \<Rightarrow> 'p pp_state" where
  "Diag d st = st\<lparr>Diags := Diags st @ [d]\<rparr>"

definition LexNonComment :: "('p, 'a) preprocessor \<Rightarrow> 'p pp_state \<Rightarrow> 'p pp_state" where
  "LexNonComment PP st = (case Lex_NonComment PP (DisableMacroExpansion st) (pp_rest st) of
     (t, r) \<Rightarrow> st\<lparr>PeekTok := t, pp_rest := r\<rparr>)"

definition LexUnexpandedNonComment :: "('p, 'a) preprocessor \<Rightarrow> 'p pp_state \<Rightarrow> 'p pp_state" where
  "LexUnexpandedNonComment PP st = (case Lex_UnexpandedNonComment PP (DisableMacroExpansion st) (pp_rest st) of
     (t, r) \<Rightarrow> st\<lparr>PeekTok := t, pp_rest := r\<rparr>)"

definition peek_is :: "tok_kind \<Rightarrow> 'p pp_state \<Rightarrow> bool" where
  "peek_is k st \<longleftrightarrow> getKind (PeekTok st) = k"

text \<open>\<open>APSInt Val(w)\<close> is unsigned; assigning an integer keeps the sign and the width.\<close>

definition apsint_new :: "('p, 'a) preprocessor \<Rightarrow> nat \<Rightarrow> 'a apsint" where
  "apsint_new PP w = \<lparr>bits = APInt (APInts PP) w 0, unsigned_value = True\<rparr>"

definition assign_bool :: "('p, 'a) preprocessor \<Rightarrow> bool \<Rightarrow> 'a apsint \<Rightarrow> 'a apsint" where
  "assign_bool PP b v = \<lparr>bits = apint_assign (APInts PP) (bits v) (if b then 1 else 0), unsigned_value = False\<rparr>"

definition is_zero :: "('p, 'a) preprocessor \<Rightarrow> 'a apsint \<Rightarrow> bool" where
  "is_zero PP v = isNullValue (APInts PP) (bits v)"

section \<open>The operand of \<open>defined\<close>\<close>

definition CheckMacroName :: "('p, 'a) preprocessor \<Rightarrow> 'p pp_state \<Rightarrow> bool \<times> 'p pp_state" where
  "CheckMacroName PP st =
     (if peek_is tok_eod st then (True, Diag err_pp_missing_macro_name st)
      else case getIdentifierInfo (PeekTok st) of
        None \<Rightarrow> (True, Diag err_pp_macro_not_identifier st)
      | Some II \<Rightarrow> (False, if isCPlusPlusOperatorKeyword II
          then Diag (if MicrosoftExt (LangOpts PP) then ext_pp_operator_used_as_macro_name
            else err_pp_operator_used_as_macro_name) st
          else st))"

definition defined_in_macro :: "bool option \<Rightarrow> 'p pp_state \<Rightarrow> 'p pp_state" where
  "defined_in_macro origin st = (case origin of None \<Rightarrow> st
     | Some IsFunctionTypeMacro \<Rightarrow> Diag (if IsFunctionTypeMacro then warn_defined_in_function_type_macro
         else warn_defined_in_object_type_macro) st)"

text \<open>From the identifier on: \<open>begin\<close> is \<open>defined\<close> itself, \<open>LParen\<close> a parenthesis before the identifier.\<close>

definition defined_name ::
  "('p, 'a) preprocessor \<Rightarrow> pp_token \<Rightarrow> bool \<Rightarrow> 'a pp_value \<Rightarrow> defined_tracker \<Rightarrow> 'p pp_state \<Rightarrow>
   ('a pp_value \<times> defined_tracker, 'p) result" where
  "defined_name PP beginTok LParen Value DT st =
     (case CheckMacroName PP st of
        (True, st) \<Rightarrow> Failed (IncludedUndefinedIds DT) st
      | (False, st) \<Rightarrow>
          let II = getIdentifierInfo (PeekTok st); Macro = getMacroDefinition PP (the II);
              Value = Value\<lparr>Val := assign_bool PP Macro (Val Value)\<rparr>;
              DT = DT\<lparr>IncludedUndefinedIds := \<not> Macro\<rparr>;
              found = DT\<lparr>State := DefinedMacro, TheMacro := II\<rparr>
          in if LParen then
               let st = LexUnexpandedNonComment PP st in
               if \<not> peek_is tok_r_paren st
               then Failed (IncludedUndefinedIds DT) (Diag note_matching (Diag err_pp_expected_after st))
               else Done (Value, found) (defined_in_macro (from_macro beginTok) (LexNonComment PP st))
             else Done (Value, found) (defined_in_macro (from_macro beginTok) (LexNonComment PP st)))"

definition EvaluateDefined ::
  "('p, 'a) preprocessor \<Rightarrow> 'a pp_value \<Rightarrow> defined_tracker \<Rightarrow> 'p pp_state \<Rightarrow>
   ('a pp_value \<times> defined_tracker, 'p) result" where
  "EvaluateDefined PP Value DT st =
     (let beginTok = PeekTok st;
          st = LexUnexpandedNonComment PP st;
          LParen = peek_is tok_l_paren st;
          st = (if LParen then LexUnexpandedNonComment PP st else st);
          st = (if peek_is tok_code_completion st then LexUnexpandedNonComment PP st else st)
      in defined_name PP beginTok LParen Value DT st)"

section \<open>The simple values\<close>

definition undef_warnings :: "('p, 'a) preprocessor \<Rightarrow> pp_ident \<Rightarrow> 'p pp_state \<Rightarrow> 'p pp_state" where
  "undef_warnings PP II st =
     (let st = Diag warn_pp_undef_identifier st in
      if undef_identifier_ignored PP \<and> list_ex (\<lambda>Prefix. take (length Prefix) (getName II) = Prefix) (UndefPrefixes PP)
      then Diag warn_pp_undef_prefix st else st)"

definition eval_identifier ::
  "('p, 'a) preprocessor \<Rightarrow> 'a pp_value \<Rightarrow> defined_tracker \<Rightarrow> bool \<Rightarrow> 'p pp_state \<Rightarrow>
   ('a pp_value \<times> defined_tracker, 'p) result" where
  "eval_identifier PP Value DT ValueLive st =
     (case getIdentifierInfo (PeekTok st) of
        None \<Rightarrow> Failed (IncludedUndefinedIds DT) (Diag err_pp_expr_bad_token_start_expr st)
      | Some II \<Rightarrow>
          if getName II = ''defined'' then EvaluateDefined PP Value DT st
          else if isCPlusPlusOperatorKeyword II
          then Failed (IncludedUndefinedIds DT) (Diag err_pp_expr_bad_token_start_expr st)
          else Done (Value\<lparr>Val := assign_bool PP False (Val Value), getIdentifier := Some II\<rparr>,
                     DT\<lparr>IncludedUndefinedIds := True\<rparr>)
                 (LexNonComment PP (if ValueLive then undef_warnings PP II st else st)))"

definition longlong_warning :: "('p, 'a) preprocessor \<Rightarrow> num_parser \<Rightarrow> 'p pp_state \<Rightarrow> 'p pp_state" where
  "longlong_warning PP Literal st =
     (if \<not> C99 (LangOpts PP) \<and> isLongLong Literal then
        (if CPlusPlus (LangOpts PP)
         then Diag (if CPlusPlus11 (LangOpts PP) then warn_cxx98_compat_longlong else ext_cxx11_longlong) st
         else Diag ext_c99_longlong st)
      else st)"

text \<open>The value of an integer literal, with the overflow flag of \<open>GetIntegerValue\<close>.\<close>

definition integer_value ::
  "('p, 'a) preprocessor \<Rightarrow> num_parser \<Rightarrow> 'a \<times> bool \<Rightarrow> bool \<Rightarrow> 'p pp_state \<Rightarrow> 'a apsint \<times> 'p pp_state" where
  "integer_value PP Literal r ValueLive st =
     (case r of (v, overflow) \<Rightarrow>
        if overflow then (\<lparr>bits = v, unsigned_value = True\<rparr>,
          if ValueLive then Diag err_integer_literal_too_large st else st)
        else if \<not> isUnsigned Literal \<and> isNegative (APInts PP) v then (\<lparr>bits = v, unsigned_value = True\<rparr>,
          if ValueLive \<and> radix Literal = 10 then Diag ext_integer_literal_too_large_for_signed st else st)
        else (\<lparr>bits = v, unsigned_value = isUnsigned Literal\<rparr>, st))"

text \<open>From the complaint about a suffix on; \<open>note_literal\<close> keeps what the literal's parser has reported.\<close>

definition integer_literal ::
  "('p, 'a) preprocessor \<Rightarrow> string \<Rightarrow> num_parser \<Rightarrow> 'a pp_value \<Rightarrow> defined_tracker \<Rightarrow> bool \<Rightarrow> 'p pp_state \<Rightarrow>
   ('a pp_value \<times> defined_tracker, 'p) result" where
  "integer_literal PP Spelling Literal Value DT ValueLive st =
     (let st = (if saw_ud_suffix Literal then Diag err_pp_invalid_udl st else st);
          st = longlong_warning PP Literal st
      in case GetIntegerValue (apint_ops.truncate (APInts PP)) (hexDigits PP) Spelling Literal (bits (Val Value)) of
           None \<Rightarrow> AssertFails
         | Some r \<Rightarrow>
             (case integer_value PP Literal r ValueLive st of (v, st) \<Rightarrow>
                Done (Value\<lparr>Val := v\<rparr>, DT) (LexNonComment PP st)))"

definition note_literal :: "num_parser \<Rightarrow> 'p pp_state \<Rightarrow> 'p pp_state" where
  "note_literal Literal st = st\<lparr>Diags := Diags st @ map (\<lambda>(p, d). in_literal p d) (NumDiags Literal)\<rparr>"

definition eval_number ::
  "('p, 'a) preprocessor \<Rightarrow> 'a pp_value \<Rightarrow> defined_tracker \<Rightarrow> bool \<Rightarrow> 'p pp_state \<Rightarrow>
   ('a pp_value \<times> defined_tracker, 'p) result" where
  "eval_number PP Value DT ValueLive st =
     (case getSpelling PP (PeekTok st) of
        None \<Rightarrow> Failed (IncludedUndefinedIds DT) st
      | Some Spelling \<Rightarrow>
      case NumericLiteralParser (LangOpts PP) (hasFloat16 PP) (hexDigits PP) (toUTF8 PP) Spelling of
        None \<Rightarrow> AssertFails
      | Some Literal \<Rightarrow>
          let st = note_literal Literal st in
          if hadError Literal then Failed (IncludedUndefinedIds DT) st
          else if isFloatingLiteral Literal \<or> isImaginary Literal
          then Failed (IncludedUndefinedIds DT) (Diag err_pp_illegal_floating_literal st)
          else if \<not> isIntegerLiteral Literal then AssertFails
          else integer_literal PP Spelling Literal Value DT ValueLive st)"

definition char_bits :: "('p, 'a) preprocessor \<Rightarrow> char_literal \<Rightarrow> nat" where
  "char_bits PP Literal =
     (if isMultiChar Literal then IntWidth PP else if isWide Literal then WCharWidth PP
      else if isUTF16 Literal then Char16Width PP else if isUTF32 Literal then Char32Width PP
      else CharWidth PP)"

definition eval_char ::
  "('p, 'a) preprocessor \<Rightarrow> 'a pp_value \<Rightarrow> defined_tracker \<Rightarrow> 'p pp_state \<Rightarrow>
   ('a pp_value \<times> defined_tracker, 'p) result" where
  "eval_char PP Value DT st =
     (let st = (if hasUDSuffix (PeekTok st) then Diag err_pp_invalid_udl st else st) in
      case getSpelling PP (PeekTok st) of
        None \<Rightarrow> Failed (IncludedUndefinedIds DT) st
      | Some ThisTok \<Rightarrow>
      case CharLiteral PP (getKind (PeekTok st)) ThisTok of
        None \<Rightarrow> Failed (IncludedUndefinedIds DT) st
      | Some Literal \<Rightarrow>
          let A = APInts PP; NumBits = char_bits PP Literal;
              v = apint_assign A (APInt A NumBits 0) (getValue Literal);
              uns = (if isWide Literal then \<not> WCharSigned PP
                else if \<not> isUTF16 Literal \<and> \<not> isUTF32 Literal then \<not> CharIsSigned PP else True);
              w = getBitWidth A (bits (Val Value))
          in if w > NumBits
             then Done (Value\<lparr>Val := \<lparr>bits = (if uns then apint_zext A v w else apint_sext A v w), unsigned_value = uns\<rparr>\<rparr>, DT)
               (LexNonComment PP st)
             else if w \<noteq> NumBits then AssertFails
             else Done (Value\<lparr>Val := \<lparr>bits = v, unsigned_value = uns\<rparr>\<rparr>, DT) (LexNonComment PP st))"

section \<open>Operators\<close>

text \<open>\<open>None\<close> is \<open>~0U\<close>.\<close>

definition getPrecedence :: "tok_kind \<Rightarrow> nat option" where
  "getPrecedence Kind =
     (if Kind \<in> {tok_percent, tok_slash, tok_star} then Some 14
      else if Kind \<in> {tok_plus, tok_minus} then Some 13
      else if Kind \<in> {tok_lessless, tok_greatergreater} then Some 12
      else if Kind \<in> {tok_lessequal, tok_less, tok_greaterequal, tok_greater} then Some 11
      else if Kind \<in> {tok_exclaimequal, tok_equalequal} then Some 10
      else if Kind = tok_amp then Some 9
      else if Kind = tok_caret then Some 8
      else if Kind = tok_pipe then Some 7
      else if Kind = tok_ampamp then Some 6
      else if Kind = tok_pipepipe then Some 5
      else if Kind = tok_question then Some 4
      else if Kind = tok_comma then Some 3
      else if Kind = tok_colon then Some 2
      else if Kind = tok_r_paren then Some 0
      else if Kind = tok_eod then Some 0
      else None)"

definition diagnoseUnexpectedOperator :: "'a pp_value \<Rightarrow> 'p pp_state \<Rightarrow> 'p pp_state" where
  "diagnoseUnexpectedOperator LHS st =
     Diag (if peek_is tok_l_paren st \<and> getIdentifier LHS \<noteq> None then err_pp_expr_bad_token_lparen
       else err_pp_expr_bad_token_binop) st"

definition no_conversion :: "tok_kind \<Rightarrow> bool" where
  "no_conversion Operator \<longleftrightarrow> Operator \<in>
     {tok_question, tok_lessless, tok_greatergreater, tok_comma, tok_pipepipe, tok_ampamp}"

text \<open>Usual arithmetic conversions: the two operands and the diagnostics.\<close>

definition conversion_warnings :: "('p, 'a) preprocessor \<Rightarrow> bool \<Rightarrow> 'a apsint \<Rightarrow> 'a apsint \<Rightarrow> pp_diag list" where
  "conversion_warnings PP ValueLive L R =
     (let promoted = (\<lambda>v. \<not> unsigned_value v \<and> isNegative (APInts PP) (bits v)) in
      if ValueLive \<and> (unsigned_value L \<or> unsigned_value R)
      then (if promoted L then [warn_pp_convert_to_positive False] else []) @
        (if promoted R then [warn_pp_convert_to_positive True] else [])
      else [])"

definition compare_less :: "('p, 'a) preprocessor \<Rightarrow> 'a apsint \<Rightarrow> 'a apsint \<Rightarrow> bool" where
  "compare_less PP L R =
     (if unsigned_value L then apint_ult (APInts PP) (bits L) (bits R) else apint_slt (APInts PP) (bits L) (bits R))"

definition compare_equal :: "('p, 'a) preprocessor \<Rightarrow> 'a apsint \<Rightarrow> 'a apsint \<Rightarrow> bool" where
  "compare_equal PP L R = (\<not> apint_ne (APInts PP) (bits L) (bits R))"

definition shift_right :: "('p, 'a) preprocessor \<Rightarrow> 'a apsint \<Rightarrow> 'a apsint \<Rightarrow> 'a apsint \<times> bool" where
  "shift_right PP L R =
     (let A = APInts PP; ShAmt = unat (ucast (getLimitedValue A (bits R)) :: u32); w = getBitWidth A (bits L);
          Overflow = w \<le> ShAmt; ShAmt = (if Overflow then w - 1 else ShAmt)
      in (L\<lparr>bits := (if unsigned_value L then apint_lshr A (bits L) ShAmt else apint_ashr A (bits L) ShAmt)\<rparr>, Overflow))"

text \<open>
  The operators other than \<open>?:\<close> on converted operands; \<open>Res\<close> is the result before the operator has assigned it.
  The result and the overflow flag, or the error.
\<close>

definition compute ::
  "('p, 'a) preprocessor \<Rightarrow> tok_kind \<Rightarrow> bool \<Rightarrow> 'a apsint \<Rightarrow> 'a apsint \<Rightarrow> 'a apsint \<Rightarrow> pp_diag + ('a apsint \<times> bool)" where
  "compute PP Operator ValueLive Res L R =
     (let A = APInts PP; l = bits L; r = bits R;
          signed = (\<lambda>p. (\<lparr>bits = fst p, unsigned_value = False\<rparr>, snd p));
          plain = (\<lambda>b. (\<lparr>bits = b, unsigned_value = unsigned_value L\<rparr>, False));
          truth = (\<lambda>b. (assign_bool PP b Res, False)) in
      if Operator = tok_percent then
        (if \<not> is_zero PP R then Inr (plain (if unsigned_value L then apint_urem A l r else apint_srem A l r))
         else if ValueLive then Inl err_pp_remainder_by_zero else Inr (Res, False))
      else if Operator = tok_slash then
        (if \<not> is_zero PP R then Inr (if \<not> unsigned_value L then signed (sdiv_ov A l r) else plain (apint_udiv A l r))
         else if ValueLive then Inl err_pp_division_by_zero else Inr (Res, False))
      else if Operator = tok_star then
        Inr (if \<not> unsigned_value Res then signed (smul_ov A l r) else plain (apint_mul A l r))
      else if Operator = tok_lessless then
        Inr (if unsigned_value L then (Res\<lparr>bits := fst (ushl_ov A l r)\<rparr>, snd (ushl_ov A l r)) else signed (sshl_ov A l r))
      else if Operator = tok_greatergreater then Inr (shift_right PP L R)
      else if Operator = tok_plus then
        Inr (if unsigned_value L then plain (apint_add A l r) else signed (sadd_ov A l r))
      else if Operator = tok_minus then
        Inr (if unsigned_value L then plain (apint_sub A l r) else signed (ssub_ov A l r))
      else if Operator = tok_lessequal then Inr (truth (\<not> compare_less PP R L))
      else if Operator = tok_less then Inr (truth (compare_less PP L R))
      else if Operator = tok_greaterequal then Inr (truth (\<not> compare_less PP L R))
      else if Operator = tok_greater then Inr (truth (compare_less PP R L))
      else if Operator = tok_exclaimequal then Inr (truth (\<not> compare_equal PP L R))
      else if Operator = tok_equalequal then Inr (truth (compare_equal PP L R))
      else if Operator = tok_amp then Inr (plain (apint_and A l r))
      else if Operator = tok_caret then Inr (plain (apint_xor A l r))
      else if Operator = tok_pipe then Inr (plain (apint_or A l r))
      else if Operator = tok_ampamp then Inr (truth (\<not> is_zero PP L \<and> \<not> is_zero PP R))
      else if Operator = tok_pipepipe then Inr (truth (\<not> is_zero PP L \<or> \<not> is_zero PP R))
      else if Operator = tok_comma then Inr (R, False)
      else Inl err_pp_colon_without_question)"

text \<open>The conversions, the operator and its diagnostics; \<open>None\<close> is the error return.\<close>

definition apply_binary ::
  "('p, 'a) preprocessor \<Rightarrow> tok_kind \<Rightarrow> bool \<Rightarrow> 'a apsint \<Rightarrow> 'a apsint \<Rightarrow> pp_diag list \<times> 'a apsint option" where
  "apply_binary PP Operator ValueLive L R =
     (let w = getBitWidth (APInts PP) (bits L);
          conv = \<not> no_conversion Operator;
          uns = unsigned_value L \<or> unsigned_value R;
          warnings = (if conv then conversion_warnings PP ValueLive L R else []);
          Res = (if conv then (apsint_new PP w)\<lparr>unsigned_value := uns\<rparr> else apsint_new PP w);
          L = (if conv then L\<lparr>unsigned_value := uns\<rparr> else L);
          R = (if conv then R\<lparr>unsigned_value := uns\<rparr> else R);
          comma = (if Operator = tok_comma \<and> (\<not> C99 (LangOpts PP) \<or> ValueLive) then [ext_pp_comma_expr] else [])
      in case compute PP Operator ValueLive Res L R of
           Inl d \<Rightarrow> (warnings @ [d], None)
         | Inr (v, Overflow) \<Rightarrow>
             (warnings @ comma @ (if Overflow \<and> ValueLive then [warn_pp_expr_overflow] else []), Some v))"

definition with_diags :: "pp_diag list \<Rightarrow> 'p pp_state \<Rightarrow> 'p pp_state" where
  "with_diags ds st = st\<lparr>Diags := Diags st @ ds\<rparr>"

section \<open>Results in sequence\<close>

fun and_then :: "('r, 'p) result \<Rightarrow> ('r \<Rightarrow> 'p pp_state \<Rightarrow> ('s, 'p) result) \<Rightarrow> ('s, 'p) result" where
  "and_then NoFuel k = NoFuel"
| "and_then AssertFails k = AssertFails"
| "and_then (Failed inc st) k = Failed inc st"
| "and_then (Done r st) k = k r st"

text \<open>A failing evaluation with a tracker of its own leaves the caller's flag alone.\<close>

fun keep_flag :: "bool \<Rightarrow> ('r, 'p) result \<Rightarrow> ('r, 'p) result" where
  "keep_flag inc (Failed inc' st) = Failed inc st"
| "keep_flag inc r = r"

text \<open>The precedence of the next token, an error if it is no operator.\<close>

definition check_operator ::
  "'a pp_value \<Rightarrow> bool \<Rightarrow> 'p pp_state \<Rightarrow> (nat \<Rightarrow> ('r, 'p) result) \<Rightarrow> ('r, 'p) result" where
  "check_operator LHS inc st k =
     (case getPrecedence (getKind (PeekTok st)) of
        None \<Rightarrow> Failed inc (diagnoseUnexpectedOperator LHS st)
      | Some PeekPrec \<Rightarrow> k PeekPrec)"

definition new_value :: "('p, 'a) preprocessor \<Rightarrow> nat \<Rightarrow> 'a pp_value" where
  "new_value PP w = \<lparr>Val = apsint_new PP w, getIdentifier = None\<rparr>"

definition new_tracker :: defined_tracker where
  "new_tracker = \<lparr>State = Unknown, TheMacro = None, IncludedUndefinedIds = False\<rparr>"

definition width_of :: "('p, 'a) preprocessor \<Rightarrow> 'a pp_value \<Rightarrow> nat" where
  "width_of PP V = getBitWidth (APInts PP) (bits (Val V))"

text \<open>The unary operators on the value of their operand.\<close>

definition apply_minus ::
  "('p, 'a) preprocessor \<Rightarrow> bool \<Rightarrow> 'a pp_value \<times> defined_tracker \<Rightarrow> 'p pp_state \<Rightarrow>
   ('a pp_value \<times> defined_tracker, 'p) result" where
  "apply_minus PP ValueLive r st =
     (case r of (V, DT) \<Rightarrow>
        let v = (Val V)\<lparr>bits := apint_neg (APInts PP) (bits (Val V))\<rparr>;
            Overflow = (\<not> unsigned_value v \<and> isMinSignedValue (APInts PP) (bits v))
        in Done (V\<lparr>Val := v, getIdentifier := None\<rparr>, DT\<lparr>State := Unknown\<rparr>)
             (if Overflow \<and> ValueLive then Diag warn_pp_expr_overflow st else st))"

definition apply_tilde ::
  "('p, 'a) preprocessor \<Rightarrow> 'a pp_value \<times> defined_tracker \<Rightarrow> 'p pp_state \<Rightarrow>
   ('a pp_value \<times> defined_tracker, 'p) result" where
  "apply_tilde PP r st =
     (case r of (V, DT) \<Rightarrow>
        Done (V\<lparr>Val := (Val V)\<lparr>bits := apint_not (APInts PP) (bits (Val V))\<rparr>, getIdentifier := None\<rparr>,
          DT\<lparr>State := Unknown\<rparr>) st)"

definition negate_tracker :: "tracker_state \<Rightarrow> tracker_state" where
  "negate_tracker S = (if S = DefinedMacro then NotDefinedMacro
     else if S = NotDefinedMacro then DefinedMacro else S)"

definition apply_exclaim ::
  "('p, 'a) preprocessor \<Rightarrow> 'a pp_value \<times> defined_tracker \<Rightarrow> 'p pp_state \<Rightarrow>
   ('a pp_value \<times> defined_tracker, 'p) result" where
  "apply_exclaim PP r st =
     (case r of (V, DT) \<Rightarrow>
        Done (V\<lparr>Val := assign_bool PP (is_zero PP (Val V)) (Val V), getIdentifier := None\<rparr>,
          DT\<lparr>State := negate_tracker (State DT)\<rparr>) st)"

definition apply_plus ::
  "'a pp_value \<times> defined_tracker \<Rightarrow> 'p pp_state \<Rightarrow> ('a pp_value \<times> defined_tracker, 'p) result" where
  "apply_plus r st = (case r of (V, DT) \<Rightarrow> Done (V\<lparr>getIdentifier := None\<rparr>, DT) st)"

definition eval_bool ::
  "('p, 'a) preprocessor \<Rightarrow> 'a pp_value \<Rightarrow> defined_tracker \<Rightarrow> 'p pp_state \<Rightarrow>
   ('a pp_value \<times> defined_tracker, 'p) result" where
  "eval_bool PP Value DT st =
     Done (Value\<lparr>Val := assign_bool PP (peek_is tok_kw_true st) (Val Value),
        getIdentifier := getIdentifierInfo (PeekTok st)\<rparr>, DT) (LexNonComment PP st)"

text \<open>The closing parenthesis, which must be next.\<close>

definition close_paren ::
  "('p, 'a) preprocessor \<Rightarrow> 'a pp_value \<times> defined_tracker \<Rightarrow> 'p pp_state \<Rightarrow>
   ('a pp_value \<times> defined_tracker, 'p) result" where
  "close_paren PP r st =
     (case r of (V, DT) \<Rightarrow>
        if \<not> peek_is tok_r_paren st
        then Failed (IncludedUndefinedIds DT) (Diag note_matching (Diag err_pp_expected_rparen st))
        else Done (V\<lparr>getIdentifier := None\<rparr>, DT) (LexNonComment PP st))"

text \<open>Whether the right operand is evaluated for its value.\<close>

definition rhs_is_live :: "('p, 'a) preprocessor \<Rightarrow> tok_kind \<Rightarrow> bool \<Rightarrow> 'a apsint \<Rightarrow> bool" where
  "rhs_is_live PP Operator ValueLive L =
     (if Operator = tok_ampamp \<and> is_zero PP L then False
      else if Operator = tok_pipepipe \<and> \<not> is_zero PP L then False
      else if Operator = tok_question \<and> is_zero PP L then False
      else ValueLive)"

definition conditional_value :: "('p, 'a) preprocessor \<Rightarrow> 'a apsint \<Rightarrow> 'a apsint \<Rightarrow> 'a apsint \<Rightarrow> 'a apsint" where
  "conditional_value PP L R E =
     (if \<not> is_zero PP L then R else E)\<lparr>unsigned_value := unsigned_value R \<or> unsigned_value E\<rparr>"

definition rhs_precedence :: "tok_kind \<Rightarrow> nat \<Rightarrow> nat" where
  "rhs_precedence Operator ThisPrec =
     (if Operator = tok_question then the (getPrecedence tok_comma) else ThisPrec + 1)"

text \<open>The token of a value, after \<open>code_completion\<close>.\<close>

definition first_token :: "('p, 'a) preprocessor \<Rightarrow> 'p pp_state \<Rightarrow> 'p pp_state" where
  "first_token PP st = (if peek_is tok_code_completion st then LexNonComment PP st else st)"

definition is_char_kind :: "tok_kind \<Rightarrow> bool" where
  "is_char_kind k \<longleftrightarrow> k \<in> {tok_char_constant, tok_wide_char_constant, tok_utf8_char_constant,
     tok_utf16_char_constant, tok_utf32_char_constant}"

section \<open>The evaluator\<close>

text \<open>
  \<open>EvaluateValue\<close> and the loop of \<open>EvaluateDirectiveSubExpr\<close> call each other; \<open>ev\<close> and
  \<open>sub\<close> are these calls.  The loop gets the precedence of the next token.
\<close>

type_synonym ('p, 'a) value_call =
  "'a pp_value \<Rightarrow> defined_tracker \<Rightarrow> bool \<Rightarrow> 'p pp_state \<Rightarrow> ('a pp_value \<times> defined_tracker, 'p) result"

type_synonym ('p, 'a) loop_call =
  "'a pp_value \<Rightarrow> nat \<Rightarrow> bool \<Rightarrow> bool \<Rightarrow> nat \<Rightarrow> 'p pp_state \<Rightarrow> ('a pp_value \<times> bool, 'p) result"

definition sub_expr ::
  "('p, 'a) loop_call \<Rightarrow> 'a pp_value \<Rightarrow> nat \<Rightarrow> bool \<Rightarrow> bool \<Rightarrow> 'p pp_state \<Rightarrow> ('a pp_value \<times> bool, 'p) result" where
  "sub_expr sub LHS MinPrec ValueLive inc st =
     check_operator LHS inc st (\<lambda>PeekPrec. sub LHS MinPrec ValueLive inc PeekPrec st)"

text \<open>What follows the value after an opening parenthesis.\<close>

definition paren_rest ::
  "('p, 'a) preprocessor \<Rightarrow> ('p, 'a) loop_call \<Rightarrow> bool \<Rightarrow> 'a pp_value \<times> defined_tracker \<Rightarrow> 'p pp_state \<Rightarrow>
   ('a pp_value \<times> defined_tracker, 'p) result" where
  "paren_rest PP sub ValueLive r st =
     (case r of (V, DT) \<Rightarrow>
        if peek_is tok_r_paren st then close_paren PP (V, DT) st
        else and_then (sub_expr sub V 1 ValueLive (IncludedUndefinedIds DT) st)
          (\<lambda>r. case r of (V, inc) \<Rightarrow> close_paren PP (V, DT\<lparr>State := Unknown, IncludedUndefinedIds := inc\<rparr>)))"

definition value_body ::
  "('p, 'a) preprocessor \<Rightarrow> ('p, 'a) value_call \<Rightarrow> ('p, 'a) loop_call \<Rightarrow> ('p, 'a) value_call" where
  "value_body PP ev sub Value DT ValueLive st =
     (let DT = DT\<lparr>State := Unknown\<rparr>; Value = Value\<lparr>getIdentifier := None\<rparr>;
          st = first_token PP st; k = getKind (PeekTok st);
          operand = ev Value DT ValueLive (LexNonComment PP st)
      in if k = tok_eod \<or> k = tok_r_paren
         then Failed (IncludedUndefinedIds DT) (Diag err_pp_expected_value_in_expr st)
         else if k = tok_numeric_constant then eval_number PP Value DT ValueLive st
         else if is_char_kind k then eval_char PP Value DT st
         else if k = tok_l_paren then and_then operand (paren_rest PP sub ValueLive)
         else if k = tok_plus then and_then operand apply_plus
         else if k = tok_minus then and_then operand (apply_minus PP ValueLive)
         else if k = tok_tilde then and_then operand (apply_tilde PP)
         else if k = tok_exclaim then and_then operand (apply_exclaim PP)
         else if k = tok_kw_true \<or> k = tok_kw_false then eval_bool PP Value DT st
         else eval_identifier PP Value DT ValueLive st)"

text \<open>The right operand, with the operators that bind more tightly than the one before it.\<close>

definition rhs_operand ::
  "('p, 'a) preprocessor \<Rightarrow> ('p, 'a) value_call \<Rightarrow> ('p, 'a) loop_call \<Rightarrow> nat \<Rightarrow> nat \<Rightarrow> bool \<Rightarrow> bool \<Rightarrow>
   'p pp_state \<Rightarrow> ('a pp_value \<times> bool, 'p) result" where
  "rhs_operand PP ev sub w RHSPrec RHSIsLive inc st =
     and_then (keep_flag inc (ev (new_value PP w) new_tracker RHSIsLive (LexNonComment PP st)))
       (\<lambda>r st. case r of (RHS, DT) \<Rightarrow>
          let inc = IncludedUndefinedIds DT in
          check_operator RHS inc st (\<lambda>PeekPrec.
            if PeekPrec \<ge> RHSPrec then sub RHS RHSPrec RHSIsLive inc PeekPrec st else Done (RHS, inc) st))"

text \<open>The operand after the colon.\<close>

definition after_colon ::
  "('p, 'a) preprocessor \<Rightarrow> ('p, 'a) value_call \<Rightarrow> ('p, 'a) loop_call \<Rightarrow> nat \<Rightarrow> nat \<Rightarrow> bool \<Rightarrow> bool \<Rightarrow>
   'p pp_state \<Rightarrow> ('a pp_value \<times> bool, 'p) result" where
  "after_colon PP ev sub w ThisPrec AfterColonLive inc st =
     and_then (keep_flag inc (ev (new_value PP w) new_tracker AfterColonLive (LexNonComment PP st)))
       (\<lambda>r st. case r of (AfterColonVal, _) \<Rightarrow> sub_expr sub AfterColonVal ThisPrec AfterColonLive inc st)"

text \<open>The next turn of the loop.\<close>

definition next_turn ::
  "('p, 'a) loop_call \<Rightarrow> 'a pp_value \<Rightarrow> nat \<Rightarrow> bool \<Rightarrow> bool \<Rightarrow> 'p pp_state \<Rightarrow> ('a pp_value \<times> bool, 'p) result" where
  "next_turn sub LHS MinPrec ValueLive inc st =
     (case getPrecedence (getKind (PeekTok st)) of None \<Rightarrow> AssertFails
      | Some PeekPrec \<Rightarrow> sub LHS MinPrec ValueLive inc PeekPrec st)"

text \<open>The operator on its operands; the assertion is that the recursion has eaten all that binds more tightly.\<close>

definition combine ::
  "('p, 'a) preprocessor \<Rightarrow> ('p, 'a) value_call \<Rightarrow> ('p, 'a) loop_call \<Rightarrow> tok_kind \<Rightarrow> nat \<Rightarrow> 'a pp_value \<Rightarrow>
   nat \<Rightarrow> bool \<Rightarrow> 'a pp_value \<times> bool \<Rightarrow> 'p pp_state \<Rightarrow> ('a pp_value \<times> bool, 'p) result" where
  "combine PP ev sub Operator ThisPrec LHS MinPrec ValueLive r st =
     (case r of (RHS, inc) \<Rightarrow>
      if \<not> (case getPrecedence (getKind (PeekTok st)) of None \<Rightarrow> False | Some PeekPrec \<Rightarrow> PeekPrec \<le> ThisPrec)
      then AssertFails
      else if Operator = tok_question then
        (if \<not> peek_is tok_colon st then Failed inc (Diag note_matching (Diag err_expected_colon st))
         else and_then (after_colon PP ev sub (width_of PP LHS) ThisPrec (ValueLive \<and> is_zero PP (Val LHS)) inc st)
           (\<lambda>r. case r of (AfterColonVal, inc) \<Rightarrow>
              next_turn sub (LHS\<lparr>Val := conditional_value PP (Val LHS) (Val RHS) (Val AfterColonVal)\<rparr>)
                MinPrec ValueLive inc))
      else (case apply_binary PP Operator ValueLive (Val LHS) (Val RHS) of
          (ds, None) \<Rightarrow> Failed inc (with_diags ds st)
        | (ds, Some v) \<Rightarrow> next_turn sub (LHS\<lparr>Val := v\<rparr>) MinPrec ValueLive inc (with_diags ds st)))"

definition loop_body ::
  "('p, 'a) preprocessor \<Rightarrow> ('p, 'a) value_call \<Rightarrow> ('p, 'a) loop_call \<Rightarrow> ('p, 'a) loop_call" where
  "loop_body PP ev sub LHS MinPrec ValueLive inc PeekPrec st =
     (if PeekPrec < MinPrec then Done (LHS, inc) st
      else
      let Operator = getKind (PeekTok st); ThisPrec = PeekPrec
      in and_then (rhs_operand PP ev sub (width_of PP LHS) (rhs_precedence Operator ThisPrec)
            (rhs_is_live PP Operator ValueLive (Val LHS)) inc st)
          (combine PP ev sub Operator ThisPrec LHS MinPrec ValueLive))"

fun EvaluateValue :: "nat \<Rightarrow> ('p, 'a) preprocessor \<Rightarrow> ('p, 'a) value_call"
  and sub_expr_loop :: "nat \<Rightarrow> ('p, 'a) preprocessor \<Rightarrow> ('p, 'a) loop_call" where
  "EvaluateValue 0 PP = (\<lambda>Value DT ValueLive st. NoFuel)"
| "EvaluateValue (Suc fuel) PP = value_body PP (EvaluateValue fuel PP) (sub_expr_loop fuel PP)"
| "sub_expr_loop 0 PP = (\<lambda>LHS MinPrec ValueLive inc PeekPrec st. NoFuel)"
| "sub_expr_loop (Suc fuel) PP = loop_body PP (EvaluateValue fuel PP) (sub_expr_loop fuel PP)"

definition EvaluateDirectiveSubExpr ::
  "nat \<Rightarrow> ('p, 'a) preprocessor \<Rightarrow> 'a pp_value \<Rightarrow> nat \<Rightarrow> bool \<Rightarrow> bool \<Rightarrow> 'p pp_state \<Rightarrow>
   ('a pp_value \<times> bool, 'p) result" where
  "EvaluateDirectiveSubExpr fuel PP LHS MinPrec ValueLive inc st =
     sub_expr (sub_expr_loop fuel PP) LHS MinPrec ValueLive inc st"

section \<open>The whole expression\<close>

fun DiscardUntilEndOfDirective :: "nat \<Rightarrow> ('p, 'a) preprocessor \<Rightarrow> 'p pp_state \<Rightarrow> 'p pp_state option" where
  "DiscardUntilEndOfDirective 0 PP st = None"
| "DiscardUntilEndOfDirective (Suc fuel) PP st =
     (case Lex_UnexpandedToken PP (DisableMacroExpansion st) (pp_rest st) of (Tmp, r) \<Rightarrow>
        let st = st\<lparr>pp_rest := r\<rparr> in
        if getKind Tmp = tok_eod then Some st else DiscardUntilEndOfDirective fuel PP st)"

record eval_result =
  Conditional :: bool
  included_undefined :: bool
  IfNDefMacro :: "pp_ident option"

text \<open>After an error, the rest of the line is skipped; the condition is false.\<close>

definition skip_line :: "nat \<Rightarrow> ('p, 'a) preprocessor \<Rightarrow> 'p pp_state \<Rightarrow> 'p pp_state option" where
  "skip_line fuel PP st =
     (if \<not> peek_is tok_eod st then DiscardUntilEndOfDirective fuel PP st else Some st)"

datatype 'p directive = OutOfFuel | AssertionFailed | Evaluated eval_result "'p pp_state"

definition evaluated :: "bool \<Rightarrow> bool \<Rightarrow> pp_ident option \<Rightarrow> 'p pp_state \<Rightarrow> 'p pp_state option \<Rightarrow> 'p directive" where
  "evaluated cond inc macro start st =
     (case st of None \<Rightarrow> OutOfFuel
      | Some st \<Rightarrow> Evaluated \<lparr>Conditional = cond, included_undefined = inc, IfNDefMacro = macro\<rparr>
          (st\<lparr>DisableMacroExpansion := DisableMacroExpansion start,
              ParsingIfOrElifDirective := ParsingIfOrElifDirective start\<rparr>))"

definition finish_expression ::
  "nat \<Rightarrow> ('p, 'a) preprocessor \<Rightarrow> 'p pp_state \<Rightarrow> ('a pp_value \<times> bool, 'p) result \<Rightarrow> 'p directive" where
  "finish_expression fuel PP start r =
     (case r of
        NoFuel \<Rightarrow> OutOfFuel
      | AssertFails \<Rightarrow> AssertionFailed
      | Failed inc st \<Rightarrow> evaluated False inc None start (skip_line fuel PP st)
      | Done (ResVal, inc) st \<Rightarrow>
          evaluated (\<not> is_zero PP (Val ResVal)) inc None start
            (if \<not> peek_is tok_eod st
             then DiscardUntilEndOfDirective fuel PP (Diag err_pp_expected_eol st) else Some st))"

definition finish_value ::
  "nat \<Rightarrow> ('p, 'a) preprocessor \<Rightarrow> 'p pp_state \<Rightarrow> ('a pp_value \<times> defined_tracker, 'p) result \<Rightarrow> 'p directive" where
  "finish_value fuel PP start r =
     (case r of
        NoFuel \<Rightarrow> OutOfFuel
      | AssertFails \<Rightarrow> AssertionFailed
      | Failed inc st \<Rightarrow> evaluated False inc None start (skip_line fuel PP st)
      | Done (ResVal, DT) st \<Rightarrow>
          if peek_is tok_eod st
          then evaluated (\<not> is_zero PP (Val ResVal)) (IncludedUndefinedIds DT)
            (if State DT = NotDefinedMacro then TheMacro DT else None) start (Some st)
          else finish_expression fuel PP start
            (EvaluateDirectiveSubExpr fuel PP ResVal (the (getPrecedence tok_question)) True
               (IncludedUndefinedIds DT) st))"

definition directive_start :: "('p, 'a) preprocessor \<Rightarrow> 'p pp_state \<Rightarrow> 'p pp_state" where
  "directive_start PP start =
     LexNonComment PP (start\<lparr>ParsingIfOrElifDirective := True, DisableMacroExpansion := False\<rparr>)"

definition EvaluateDirectiveExpression :: "nat \<Rightarrow> ('p, 'a) preprocessor \<Rightarrow> 'p pp_state \<Rightarrow> 'p directive" where
  "EvaluateDirectiveExpression fuel PP start =
     finish_value fuel PP start
       (EvaluateValue fuel PP (new_value PP (IntMaxTWidth PP)) new_tracker True (directive_start PP start))"

end
