(* ===== verification/PPArithmetic.thy ===== *)
theory PPArithmetic
  imports PPExpressions "HOL-Library.Signed_Division"
begin

text \<open>
  The arithmetic of \<open>#if\<close> expressions: what \<open>llvm::APInt\<close> documents of the operations that
  \<open>PPExpressions.cpp\<close> uses, a model of these laws, and the operators against the integers.
\<close>

section \<open>The laws of \<open>llvm::APInt\<close>\<close>

definition in_range :: "nat \<Rightarrow> int \<Rightarrow> bool" where
  "in_range w z \<longleftrightarrow> - (2 ^ (w - 1)) \<le> z \<and> z < 2 ^ (w - 1)"

definition uval :: "('a \<Rightarrow> nat) \<Rightarrow> 'a \<Rightarrow> int" where
  "uval val a = int (val a)"

definition sval :: "'a apsint_ops \<Rightarrow> ('a \<Rightarrow> nat) \<Rightarrow> 'a \<Rightarrow> int" where
  "sval A val a = signed_take_bit (getBitWidth A a - 1) (uval val a)"

text \<open>The result has \<open>w\<close> bits and is the integer modulo \<open>2 ^ w\<close>.\<close>

definition wraps :: "'a apsint_ops \<Rightarrow> ('a \<Rightarrow> nat) \<Rightarrow> nat \<Rightarrow> 'a \<Rightarrow> int \<Rightarrow> bool" where
  "wraps A val w r z \<longleftrightarrow> getBitWidth A r = w \<and> uval val r = z mod 2 ^ w"

text \<open>With the flag that the integer is not in the range of the signed type.\<close>

definition wraps_ov :: "'a apsint_ops \<Rightarrow> ('a \<Rightarrow> nat) \<Rightarrow> nat \<Rightarrow> 'a \<times> bool \<Rightarrow> int \<Rightarrow> bool" where
  "wraps_ov A val w r z \<longleftrightarrow> wraps A val w (fst r) z \<and> snd r = (\<not> in_range w z)"

definition unary_laws :: "'a apsint_ops \<Rightarrow> ('a \<Rightarrow> nat) \<Rightarrow> 'a \<Rightarrow> bool" where
  "unary_laws A val a \<longleftrightarrow>
     (let w = getBitWidth A a in
      wraps A val w (apint_neg A a) (- uval val a) \<and> wraps A val w (apint_not A a) (- uval val a - 1) \<and>
      isNullValue A a = (val a = 0) \<and> isNegative A a = (sval A val a < 0) \<and>
      isMinSignedValue A a = (sval A val a = - (2 ^ (w - 1))) \<and>
      unat (getLimitedValue A a) = min (val a) (2 ^ 64 - 1) \<and>
      (\<forall>n < w. wraps A val w (apint_lshr A a n) (uval val a div 2 ^ n) \<and>
         wraps A val w (apint_ashr A a n) (sval A val a div 2 ^ n)) \<and>
      (\<forall>n > w. wraps A val n (apint_zext A a n) (uval val a) \<and> wraps A val n (apint_sext A a n) (sval A val a)))"

definition binary_laws :: "'a apsint_ops \<Rightarrow> ('a \<Rightarrow> nat) \<Rightarrow> 'a \<Rightarrow> 'a \<Rightarrow> bool" where
  "binary_laws A val a b \<longleftrightarrow>
     (let w = getBitWidth A a; u = uval val a; v = uval val b; s = sval A val a; t = sval A val b in
      wraps A val w (apint_sub A a b) (u - v) \<and> wraps A val w (apint_and A a b) (and u v) \<and>
      wraps A val w (apint_xor A a b) (xor u v) \<and> wraps A val w (apint_or A a b) (or u v) \<and>
      apint_slt A a b = (s < t) \<and>
      (v \<noteq> 0 \<longrightarrow> wraps A val w (apint_urem A a b) (u mod v) \<and> wraps A val w (apint_srem A a b) (s smod t) \<and>
         wraps_ov A val w (sdiv_ov A a b) (s sdiv t)) \<and>
      wraps_ov A val w (sadd_ov A a b) (s + t) \<and> wraps_ov A val w (ssub_ov A a b) (s - t) \<and>
      wraps_ov A val w (smul_ov A a b) (s * t) \<and>
      wraps A val w (fst (sshl_ov A a b)) (if w \<le> val b then 0 else s * 2 ^ val b) \<and>
      snd (sshl_ov A a b) = (w \<le> val b \<or> \<not> in_range w (s * 2 ^ val b)) \<and>
      wraps A val w (fst (ushl_ov A a b)) (if w \<le> val b then 0 else u * 2 ^ val b) \<and>
      snd (ushl_ov A a b) = (w \<le> val b \<or> 2 ^ w \<le> u * 2 ^ val b))"

definition APSInt_ok :: "'a apsint_ops \<Rightarrow> ('a \<Rightarrow> nat) \<Rightarrow> bool" where
  "APSInt_ok A val \<longleftrightarrow> APInt_ok (apint_ops.truncate A) val \<and>
     (\<forall>a. 0 < getBitWidth A a \<longrightarrow> unary_laws A val a) \<and>
     (\<forall>a b. 0 < getBitWidth A a \<and> getBitWidth A a = getBitWidth A b \<longrightarrow> binary_laws A val a b)"

section \<open>Numbers of a given width satisfy them\<close>

definition word_of :: "nat \<Rightarrow> int \<Rightarrow> nat \<times> nat" where
  "word_of w z = (w, nat (z mod 2 ^ w))"

definition uint_of :: "nat \<times> nat \<Rightarrow> int" where
  "uint_of a = int (apint_val a)"

definition sint_of :: "nat \<times> nat \<Rightarrow> int" where
  "sint_of a = signed_take_bit (fst a - 1) (uint_of a)"

definition apsint_model :: "(nat \<times> nat) apsint_ops" where
  "apsint_model =
     (let ov = (\<lambda>w z. (word_of w z, \<not> in_range w z)); u = uint_of; s = sint_of in
      \<lparr>getBitWidth = fst, APInt = (\<lambda>w n. (w, unat n)), apint_assign = (\<lambda>a n. (fst a, unat n)),
       getZExtValue = (\<lambda>a. of_nat (apint_val a)), apint_mul = (\<lambda>a b. (fst a, apint_val a * apint_val b)),
       apint_udiv = (\<lambda>a b. (fst a, apint_val a div apint_val b)), apint_add = (\<lambda>a b. (fst a, apint_val a + apint_val b)),
       apint_ult = (\<lambda>a b. apint_val a < apint_val b), apint_ne = (\<lambda>a b. apint_val a \<noteq> apint_val b),
       apint_sub = (\<lambda>a b. word_of (fst a) (u a - u b)), apint_neg = (\<lambda>a. word_of (fst a) (- u a)),
       apint_not = (\<lambda>a. word_of (fst a) (- u a - 1)), apint_and = (\<lambda>a b. word_of (fst a) (and (u a) (u b))),
       apint_xor = (\<lambda>a b. word_of (fst a) (xor (u a) (u b))), apint_or = (\<lambda>a b. word_of (fst a) (or (u a) (u b))),
       apint_urem = (\<lambda>a b. word_of (fst a) (u a mod u b)), apint_srem = (\<lambda>a b. word_of (fst a) (s a smod s b)),
       apint_slt = (\<lambda>a b. s a < s b), isNullValue = (\<lambda>a. apint_val a = 0), isNegative = (\<lambda>a. s a < 0),
       isMinSignedValue = (\<lambda>a. s a = - (2 ^ (fst a - 1))),
       getLimitedValue = (\<lambda>a. of_nat (min (apint_val a) (2 ^ 64 - 1))),
       apint_lshr = (\<lambda>a n. word_of (fst a) (u a div 2 ^ n)), apint_ashr = (\<lambda>a n. word_of (fst a) (s a div 2 ^ n)),
       apint_zext = (\<lambda>a w. word_of w (u a)), apint_sext = (\<lambda>a w. word_of w (s a)),
       sadd_ov = (\<lambda>a b. ov (fst a) (s a + s b)), ssub_ov = (\<lambda>a b. ov (fst a) (s a - s b)),
       smul_ov = (\<lambda>a b. ov (fst a) (s a * s b)), sdiv_ov = (\<lambda>a b. ov (fst a) (s a sdiv s b)),
       sshl_ov = (\<lambda>a b. (word_of (fst a) (if fst a \<le> apint_val b then 0 else s a * 2 ^ apint_val b),
          fst a \<le> apint_val b \<or> \<not> in_range (fst a) (s a * 2 ^ apint_val b))),
       ushl_ov = (\<lambda>a b. (word_of (fst a) (if fst a \<le> apint_val b then 0 else u a * 2 ^ apint_val b),
          fst a \<le> apint_val b \<or> 2 ^ fst a \<le> u a * 2 ^ apint_val b))\<rparr>)"

lemma uval_model: "uval apint_val a = uint_of a"
  by (simp add: uval_def uint_of_def)

lemma sval_model: "sval apsint_model apint_val a = sint_of a"
  by (simp add: sval_def sint_of_def uval_model apsint_model_def Let_def)

lemma uint_of_word_of: "uint_of (word_of w z) = z mod 2 ^ w" "fst (word_of w z) = w"
  by (simp_all add: uint_of_def apint_val_def word_of_def)

lemma apsint_model_truncate: "apint_ops.truncate apsint_model = apint_model"
  by (simp add: apint_ops.truncate_def apsint_model_def apint_model_def Let_def)

lemma apsint_model_ok: "APSInt_ok apsint_model apint_val"
  unfolding APSInt_ok_def apsint_model_truncate
proof (intro conjI allI impI)
  show "APInt_ok apint_model apint_val" by (rule apint_model_ok)
  fix a b :: "nat \<times> nat"
  have "min (apint_val a) (2 ^ 64 - 1) < 2 ^ 64" by (rule le_less_trans [OF min.cobounded2]) simp
  then have "unat (of_nat (min (apint_val a) (2 ^ 64 - 1)) :: u64) = min (apint_val a) (2 ^ 64 - 1)"
    by (simp add: unat_of_nat)
  then show "unary_laws apsint_model apint_val a"
    unfolding unary_laws_def sval_model wraps_def uval_model
    by (simp add: apsint_model_def Let_def uint_of_word_of)
  show "binary_laws apsint_model apint_val a b"
    unfolding binary_laws_def sval_model wraps_ov_def wraps_def uval_model
    by (simp add: apsint_model_def Let_def uint_of_word_of)
qed

section \<open>The value of an operand\<close>

definition ival :: "'a apsint_ops \<Rightarrow> ('a \<Rightarrow> nat) \<Rightarrow> 'a apsint \<Rightarrow> int" where
  "ival A val v = (if unsigned_value v then uval val (bits v) else sval A val (bits v))"

text \<open>An integer converted to the type of \<open>w\<close> bits.\<close>

definition convert :: "nat \<Rightarrow> bool \<Rightarrow> int \<Rightarrow> int" where
  "convert w uns z = (if uns then z mod 2 ^ w else signed_take_bit (w - 1) z)"

lemma in_range_iff: "in_range w z \<longleftrightarrow> signed_take_bit (w - 1) z = z"
  by (simp add: in_range_def signed_take_bit_int_eq_self_iff)

lemma in_range_signed [simp]: "in_range w (signed_take_bit (w - 1) z)"
  by (simp add: in_range_iff)

lemma signed_mod: "0 < w \<Longrightarrow> signed_take_bit (w - 1) (z mod 2 ^ w) = signed_take_bit (w - 1) z" for z :: int
  by (auto simp: signed_take_bit_take_bit simp flip: take_bit_eq_mod)

lemma APInt_width:
  assumes "APSInt_ok A val"
  shows "getBitWidth A (APInt A w n) = w" "getBitWidth A (apint_assign A a n) = getBitWidth A a"
    "uval val (APInt A w n) = uint n mod 2 ^ w" "uval val (apint_assign A a n) = uint n mod 2 ^ getBitWidth A a"
    "val a < 2 ^ getBitWidth A a"
  using assms
  by (simp_all add: APSInt_ok_def APInt_ok_def apint_ops.truncate_def uval_def of_nat_mod)

lemma APInt_binary:
  assumes "APSInt_ok A val" "getBitWidth A a = getBitWidth A b"
  shows "wraps A val (getBitWidth A a) (apint_mul A a b) (uval val a * uval val b)"
    "wraps A val (getBitWidth A a) (apint_add A a b) (uval val a + uval val b)"
    "val b \<noteq> 0 \<Longrightarrow> wraps A val (getBitWidth A a) (apint_udiv A a b) (uval val a div uval val b)"
    "apint_ult A a b \<longleftrightarrow> uval val a < uval val b" "apint_ne A a b \<longleftrightarrow> uval val a \<noteq> uval val b"
proof -
  have "val a div val b < 2 ^ getBitWidth A a"
    by (rule le_less_trans [OF div_le_dividend APInt_width(5) [OF assms(1)]])
  then have "int (val a div val b) mod 2 ^ getBitWidth A a = int (val a div val b)"
    by (metis mod_less of_nat_mod of_nat_numeral of_nat_power)
  then show "wraps A val (getBitWidth A a) (apint_mul A a b) (uval val a * uval val b)"
    "wraps A val (getBitWidth A a) (apint_add A a b) (uval val a + uval val b)"
    "val b \<noteq> 0 \<Longrightarrow> wraps A val (getBitWidth A a) (apint_udiv A a b) (uval val a div uval val b)"
    "apint_ult A a b \<longleftrightarrow> uval val a < uval val b" "apint_ne A a b \<longleftrightarrow> uval val a \<noteq> uval val b"
    using assms
    by (simp_all add: APSInt_ok_def APInt_ok_def apint_ops.truncate_def uval_def wraps_def of_nat_mod of_nat_power of_nat_div)
qed

lemma APSInt_unary: "APSInt_ok A val \<Longrightarrow> 0 < getBitWidth A a \<Longrightarrow> unary_laws A val a"
  by (simp add: APSInt_ok_def)

lemma APSInt_binary:
  "APSInt_ok A val \<Longrightarrow> 0 < getBitWidth A a \<Longrightarrow> getBitWidth A a = getBitWidth A b \<Longrightarrow> binary_laws A val a b"
  by (simp add: APSInt_ok_def)

lemma ival_wraps:
  assumes "wraps A val w r z" "0 < w"
  shows "ival A val \<lparr>bits = r, unsigned_value = u\<rparr> = convert w u z"
  using assms by (simp add: ival_def wraps_def convert_def sval_def signed_mod [simplified])

lemma ival_zero:
  assumes "APSInt_ok A val" "0 < getBitWidth A (bits v)"
  shows "isNullValue A (bits v) \<longleftrightarrow> ival A val v = 0"
proof -
  let ?w = "getBitWidth A (bits v)"
  have lt: "uval val (bits v) < 2 ^ ?w" using APInt_width(5) [OF assms(1), of "bits v"] by (simp add: uval_def)
  have "signed_take_bit (?w - 1) (uval val (bits v)) = 0 \<longleftrightarrow> take_bit ?w (uval val (bits v)) = 0"
    using signed_take_bit_eq_iff_take_bit_eq [of "?w - 1" "uval val (bits v)" 0] assms(2) by simp
  also have "take_bit ?w (uval val (bits v)) = uval val (bits v)" using lt by (simp add: take_bit_eq_mod uval_def)
  finally show ?thesis using APSInt_unary [OF assms] by (simp add: unary_laws_def Let_def ival_def sval_def uval_def)
qed

section \<open>The operators on the integers\<close>

definition comparison :: "tok_kind \<Rightarrow> bool" where
  "comparison k \<longleftrightarrow> k \<in> {tok_lessequal, tok_less, tok_greaterequal, tok_greater, tok_exclaimequal, tok_equalequal}"

text \<open>What an operator other than \<open>?:\<close> and the shifts means.  A division by zero has no value.\<close>

definition operator_value :: "tok_kind \<Rightarrow> int \<Rightarrow> int \<Rightarrow> int option" where
  "operator_value k l r =
     (if k = tok_percent then (if r = 0 then None else Some (l smod r))
      else if k = tok_slash then (if r = 0 then None else Some (l sdiv r))
      else if k = tok_star then Some (l * r)
      else if k = tok_plus then Some (l + r)
      else if k = tok_minus then Some (l - r)
      else if k = tok_lessequal then Some (of_bool (l \<le> r))
      else if k = tok_less then Some (of_bool (l < r))
      else if k = tok_greaterequal then Some (of_bool (l \<ge> r))
      else if k = tok_greater then Some (of_bool (l > r))
      else if k = tok_exclaimequal then Some (of_bool (l \<noteq> r))
      else if k = tok_equalequal then Some (of_bool (l = r))
      else if k = tok_amp then Some (and l r)
      else if k = tok_caret then Some (xor l r)
      else if k = tok_pipe then Some (or l r)
      else if k = tok_ampamp then Some (of_bool (l \<noteq> 0 \<and> r \<noteq> 0))
      else if k = tok_pipepipe then Some (of_bool (l \<noteq> 0 \<or> r \<noteq> 0))
      else if k = tok_comma then Some r
      else None)"

text \<open>Truth values are signed, and a comma has the type of its right operand.\<close>

definition operator_unsigned :: "tok_kind \<Rightarrow> bool \<Rightarrow> bool \<Rightarrow> bool" where
  "operator_unsigned k l r =
     (if comparison k \<or> k = tok_ampamp \<or> k = tok_pipepipe then False else if k = tok_comma then r else l \<or> r)"

definition operand_value :: "nat \<Rightarrow> tok_kind \<Rightarrow> bool \<Rightarrow> int \<Rightarrow> int" where
  "operand_value w k uns z = (if no_conversion k then z else convert w uns z)"

text \<open>The result \<open>r\<close> has \<open>w\<close> bits, the sign, and the integer modulo \<open>2 ^ w\<close>; overflow is signed only.\<close>

definition computes :: "'a apsint_ops \<Rightarrow> ('a \<Rightarrow> nat) \<Rightarrow> nat \<Rightarrow> bool \<Rightarrow> int \<Rightarrow> 'a apsint \<times> bool \<Rightarrow> bool" where
  "computes A val w u z r \<longleftrightarrow> getBitWidth A (bits (fst r)) = w \<and> unsigned_value (fst r) = u \<and>
     ival A val (fst r) = convert w u z \<and> snd r = (\<not> u \<and> \<not> in_range w z)"

lemma computes_unsigned:
  "wraps A val w r z \<Longrightarrow> 0 < w \<Longrightarrow> computes A val w True z (\<lparr>bits = r, unsigned_value = True\<rparr>, False)"
  by (simp add: computes_def ival_wraps) (simp add: wraps_def)

lemma computes_signed:
  "wraps A val w r z \<Longrightarrow> in_range w z \<Longrightarrow> 0 < w \<Longrightarrow> computes A val w False z (\<lparr>bits = r, unsigned_value = False\<rparr>, False)"
  by (simp add: computes_def ival_wraps) (simp add: wraps_def)

lemma computes_ov:
  "wraps_ov A val w r z \<Longrightarrow> 0 < w \<Longrightarrow> computes A val w False z (\<lparr>bits = fst r, unsigned_value = False\<rparr>, snd r)"
  by (simp add: computes_def ival_wraps wraps_ov_def) (simp add: wraps_def)

lemma computes_truth:
  assumes "APSInt_ok (APInts PP) val" "getBitWidth (APInts PP) (bits v) = w" "1 < w"
  shows "computes (APInts PP) val w False (of_bool b) (assign_bool PP b v, False)"
proof -
  have "wraps (APInts PP) val w (apint_assign (APInts PP) (bits v) (if b then 1 else 0)) (of_bool b)"
    using APInt_width [OF assms(1)] assms(2) by (simp add: wraps_def)
  moreover have "(1::int) < 2 ^ (w - 1)" using assms(3) by (intro one_less_power) auto
  then have "in_range w (of_bool b)" by (simp add: in_range_def)
  ultimately show ?thesis unfolding assign_bool_def using assms(3) by (intro computes_signed) auto
qed

lemma smod_in_range: "in_range w s \<Longrightarrow> in_range w (s smod t)"
proof -
  have "\<bar>s\<bar> mod \<bar>t\<bar> \<le> \<bar>s\<bar>" by (metis abs_ge_zero zmod_le_nonneg_dividend)
  moreover have "0 \<le> \<bar>s\<bar> mod \<bar>t\<bar>" by (cases "t = 0") auto
  ultimately show "in_range w s \<Longrightarrow> in_range w (s smod t)"
    by (auto simp: in_range_def signed_modulo_int_def sgn_if)
qed

lemma sval_in_range: "getBitWidth A a = w \<Longrightarrow> in_range w (sval A val a)"
  unfolding sval_def by (metis in_range_signed)

lemma sdiv_nonneg: "0 \<le> a \<Longrightarrow> 0 \<le> b \<Longrightarrow> a sdiv b = a div b" for a b :: int
  by (cases "a = 0"; cases "b = 0") (simp_all add: signed_divide_int_def sgn_if)

lemma signed_bitwise:
  fixes u v :: int
  shows "signed_take_bit n (and u v) = and (signed_take_bit n u) (signed_take_bit n v)"
    "signed_take_bit n (or u v) = or (signed_take_bit n u) (signed_take_bit n v)"
    "signed_take_bit n (xor u v) = xor (signed_take_bit n u) (signed_take_bit n v)"
  by (rule bit_eqI; auto simp: bit_simps)+

lemma wraps_signed: "wraps A val w r z \<Longrightarrow> 0 < w \<Longrightarrow> wraps A val w r (signed_take_bit (w - 1) z)"
  by (simp add: wraps_def take_bit_signed_take_bit flip: take_bit_eq_mod)

text \<open>Operands of one width; those that are converted have the sign of the result already.\<close>

definition operands :: "('p, 'a) preprocessor \<Rightarrow> ('a \<Rightarrow> nat) \<Rightarrow> nat \<Rightarrow> tok_kind \<Rightarrow> 'a apsint \<Rightarrow> 'a apsint \<Rightarrow> 'a apsint \<Rightarrow> bool" where
  "operands PP val w k Res L R \<longleftrightarrow> APSInt_ok (APInts PP) val \<and> 1 < w \<and>
     (\<forall>v \<in> {Res, L, R}. getBitWidth (APInts PP) (bits v) = w) \<and>
     (\<not> no_conversion k \<longrightarrow> unsigned_value L = unsigned_value Res \<and> unsigned_value R = unsigned_value Res)"

lemma compute_division:
  assumes ops: "operands PP val w k Res L R" and k: "k = tok_percent \<or> k = tok_slash"
    and r: "ival (APInts PP) val R \<noteq> 0"
  shows "\<exists>x. compute PP k live Res L R = Inr x \<and> computes (APInts PP) val w (unsigned_value Res)
    (if k = tok_percent then ival (APInts PP) val L smod ival (APInts PP) val R
     else ival (APInts PP) val L sdiv ival (APInts PP) val R) x"
proof -
  let ?A = "APInts PP" and ?l = "bits L" and ?r = "bits R"
  have A: "APSInt_ok ?A val" and w: "1 < w" "getBitWidth ?A ?l = w" "getBitWidth ?A ?r = w" "getBitWidth ?A (bits Res) = w"
    and u: "unsigned_value L = unsigned_value Res" "unsigned_value R = unsigned_value Res"
    using ops k by (auto simp: operands_def no_conversion_def)
  have nz: "\<not> is_zero PP R" using r ival_zero [OF A, of R] w by (simp add: is_zero_def)
  have v: "val ?r \<noteq> 0" "uval val ?r \<noteq> 0" using r ival_zero [OF A, of R] w APSInt_unary [OF A, of ?r]
    by (auto simp: unary_laws_def Let_def uval_def)
  have b: "binary_laws ?A val ?l ?r" using APSInt_binary [OF A] w by simp
  note laws = b [unfolded binary_laws_def Let_def]
  have "0 \<le> uval val ?l" "0 \<le> uval val ?r" by (simp_all add: uval_def)
  note nonneg = smod_mod_positive [OF this] sdiv_nonneg [OF this]
  have "in_range w (sval ?A val ?l smod sval ?A val ?r)" by (intro smod_in_range sval_in_range w(2))
  then have s: "computes ?A val w False (sval ?A val ?l smod sval ?A val ?r) (\<lparr>bits = apint_srem ?A ?l ?r, unsigned_value = False\<rparr>, False)"
    "computes ?A val w False (sval ?A val ?l sdiv sval ?A val ?r)
      (\<lparr>bits = fst (sdiv_ov ?A ?l ?r), unsigned_value = False\<rparr>, snd (sdiv_ov ?A ?l ?r))"
    using laws v(2) w by (auto intro: computes_signed computes_ov)
  have un: "computes ?A val w True (uval val ?l smod uval val ?r) (\<lparr>bits = apint_urem ?A ?l ?r, unsigned_value = True\<rparr>, False)"
    "computes ?A val w True (uval val ?l sdiv uval val ?r) (\<lparr>bits = apint_udiv ?A ?l ?r, unsigned_value = True\<rparr>, False)"
    unfolding nonneg using laws v w APInt_binary(3) [OF A, of ?l ?r] by (auto intro: computes_unsigned)
  show ?thesis
    using k nz s un u by (cases "unsigned_value Res") (auto simp: compute_def Let_def ival_def)
qed

lemma compute_ring:
  assumes ops: "operands PP val w k Res L R" and k: "k \<in> {tok_star, tok_plus, tok_minus, tok_amp, tok_caret, tok_pipe}"
  shows "\<exists>x. compute PP k live Res L R = Inr x \<and> computes (APInts PP) val w (unsigned_value Res)
    (the (operator_value k (ival (APInts PP) val L) (ival (APInts PP) val R))) x"
proof -
  let ?A = "APInts PP" and ?l = "bits L" and ?r = "bits R"
  let ?u = "\<lambda>f. \<lparr>bits = f ?A ?l ?r, unsigned_value = True\<rparr>" and ?s = "\<lambda>f. \<lparr>bits = f ?A ?l ?r, unsigned_value = False\<rparr>"
  let ?ov = "\<lambda>f. (\<lparr>bits = fst (f ?A ?l ?r), unsigned_value = False\<rparr>, snd (f ?A ?l ?r))"
  have A: "APSInt_ok ?A val" and w: "1 < w" "getBitWidth ?A ?l = w" "getBitWidth ?A ?r = w" "0 < w"
    and u: "unsigned_value L = unsigned_value Res" "unsigned_value R = unsigned_value Res"
    using ops k by (auto simp: operands_def no_conversion_def)
  have "binary_laws ?A val ?l ?r" using APSInt_binary [OF A] w by simp
  note laws = this [unfolded binary_laws_def Let_def w]
  have mul: "wraps ?A val w (apint_mul ?A ?l ?r) (uval val ?l * uval val ?r)"
    and add: "wraps ?A val w (apint_add ?A ?l ?r) (uval val ?l + uval val ?r)"
    using APInt_binary(1,2) [OF A, of ?l ?r] w by simp_all
  have bitwise: "wraps ?A val w (apint_and ?A ?l ?r) (and (sval ?A val ?l) (sval ?A val ?r))"
    "wraps ?A val w (apint_or ?A ?l ?r) (or (sval ?A val ?l) (sval ?A val ?r))"
    "wraps ?A val w (apint_xor ?A ?l ?r) (xor (sval ?A val ?l) (sval ?A val ?r))"
    unfolding sval_def w signed_bitwise [symmetric] using laws by (intro wraps_signed w(4); blast)+
  have range: "in_range w (and (sval ?A val ?l) (sval ?A val ?r))" "in_range w (or (sval ?A val ?l) (sval ?A val ?r))"
    "in_range w (xor (sval ?A val ?l) (sval ?A val ?r))"
    unfolding sval_def w signed_bitwise [symmetric] by (rule in_range_signed)+
  have s: "computes ?A val w False (and (sval ?A val ?l) (sval ?A val ?r)) (?s apint_and, False)"
    "computes ?A val w False (or (sval ?A val ?l) (sval ?A val ?r)) (?s apint_or, False)"
    "computes ?A val w False (xor (sval ?A val ?l) (sval ?A val ?r)) (?s apint_xor, False)"
    using bitwise range w(4) by (auto intro: computes_signed)
  have ov: "computes ?A val w False (sval ?A val ?l * sval ?A val ?r) (?ov smul_ov)"
    "computes ?A val w False (sval ?A val ?l + sval ?A val ?r) (?ov sadd_ov)"
    "computes ?A val w False (sval ?A val ?l - sval ?A val ?r) (?ov ssub_ov)"
    using laws w(4) by (auto intro: computes_ov)
  have un: "computes ?A val w True (uval val ?l * uval val ?r) (?u apint_mul, False)"
    "computes ?A val w True (uval val ?l + uval val ?r) (?u apint_add, False)"
    "computes ?A val w True (uval val ?l - uval val ?r) (?u apint_sub, False)"
    "computes ?A val w True (and (uval val ?l) (uval val ?r)) (?u apint_and, False)"
    "computes ?A val w True (or (uval val ?l) (uval val ?r)) (?u apint_or, False)"
    "computes ?A val w True (xor (uval val ?l) (uval val ?r)) (?u apint_xor, False)"
    using mul add laws w(4) by (auto intro: computes_unsigned)
  show ?thesis
  proof (cases "unsigned_value Res")
    case True
    then show ?thesis using k un u by (elim insertE emptyE) (simp_all add: compute_def operator_value_def ival_def Let_def)
  next
    case False
    then show ?thesis using k ov s u by (elim insertE emptyE) (simp_all add: compute_def operator_value_def ival_def Let_def)
  qed
qed

lemma compare_value:
  assumes A: "APSInt_ok (APInts PP) val" and w: "getBitWidth (APInts PP) (bits L) = getBitWidth (APInts PP) (bits R)"
    "0 < getBitWidth (APInts PP) (bits R)" and u: "unsigned_value L = unsigned_value R"
  shows "compare_less PP L R \<longleftrightarrow> ival (APInts PP) val L < ival (APInts PP) val R"
    "compare_equal PP L R \<longleftrightarrow> ival (APInts PP) val L = ival (APInts PP) val R"
proof -
  let ?A = "APInts PP" and ?w = "getBitWidth (APInts PP) (bits R)"
  show "compare_less PP L R \<longleftrightarrow> ival ?A val L < ival ?A val R"
    using APSInt_binary [OF A, of "bits L" "bits R"] APInt_binary(4) [OF A w(1)] w u
    by (simp add: compare_less_def ival_def binary_laws_def Let_def)
  have "sval ?A val (bits L) = sval ?A val (bits R) \<longleftrightarrow>
      take_bit ?w (uval val (bits L)) = take_bit ?w (uval val (bits R))"
    using w signed_take_bit_eq_iff_take_bit_eq [of "?w - 1" "uval val (bits L)" "uval val (bits R)"]
    by (simp add: sval_def)
  also have "\<dots> \<longleftrightarrow> uval val (bits L) = uval val (bits R)"
    using APInt_width(5) [OF A, of "bits L"] APInt_width(5) [OF A, of "bits R"] w(1)
    by (simp add: take_bit_eq_mod uval_def)
  finally show "compare_equal PP L R \<longleftrightarrow> ival ?A val L = ival ?A val R"
    using APInt_binary(5) [OF A w(1)] u by (simp add: compare_equal_def ival_def)
qed

lemma compute_truth:
  assumes ops: "operands PP val w k Res L R" and k: "comparison k \<or> k = tok_ampamp \<or> k = tok_pipepipe"
  shows "\<exists>x. compute PP k live Res L R = Inr x \<and> computes (APInts PP) val w False
    (the (operator_value k (ival (APInts PP) val L) (ival (APInts PP) val R))) x"
proof -
  have A: "APSInt_ok (APInts PP) val" and w: "1 < w" "getBitWidth (APInts PP) (bits L) = w"
    "getBitWidth (APInts PP) (bits R) = w" "getBitWidth (APInts PP) (bits Res) = w"
    using ops by (auto simp: operands_def)
  have u: "comparison k \<Longrightarrow> unsigned_value L = unsigned_value R"
    using ops by (auto simp: operands_def no_conversion_def comparison_def)
  have z: "is_zero PP L \<longleftrightarrow> ival (APInts PP) val L = 0" "is_zero PP R \<longleftrightarrow> ival (APInts PP) val R = 0"
    using ival_zero [OF A, of L] ival_zero [OF A, of R] w by (simp_all add: is_zero_def)
  note c = compare_value [OF A, of L R] compare_value [OF A, of R L]
  let ?v = "the (operator_value k (ival (APInts PP) val L) (ival (APInts PP) val R))"
  have "compute PP k live Res L R = Inr (assign_bool PP (?v = 1) Res, False) \<and> of_bool (?v = 1) = ?v"
  proof (cases "comparison k")
    case True
    then show ?thesis using c w u unfolding comparison_def
      by (elim insertE emptyE) (simp_all add: compute_def operator_value_def not_less Let_def)
  next
    case False
    then show ?thesis using k z by (elim disjE) (simp_all add: compute_def operator_value_def Let_def)
  qed
  then show ?thesis using computes_truth [OF A w(4,1)] by metis
qed

lemma compute_comma:
  assumes ops: "operands PP val w tok_comma Res L R"
  shows "\<exists>x. compute PP tok_comma live Res L R = Inr x \<and>
    fst x = R \<and> \<not> snd x \<and> computes (APInts PP) val w (unsigned_value R) (ival (APInts PP) val R) x"
proof -
  let ?A = "APInts PP"
  have A: "APSInt_ok ?A val" and w: "getBitWidth ?A (bits R) = w" using ops by (auto simp: operands_def)
  have "in_range w (sval ?A val (bits R))" by (rule sval_in_range [OF w])
  moreover have "convert w True (uval val (bits R)) = uval val (bits R)"
    using APInt_width(5) [OF A, of "bits R"] w by (simp add: convert_def uval_def)
  ultimately show ?thesis using w
    by (simp add: compute_def computes_def ival_def Let_def) (simp add: convert_def in_range_iff)
qed

lemma compute_value:
  assumes ops: "operands PP val w k Res L R"
    and z: "operator_value k (ival (APInts PP) val L) (ival (APInts PP) val R) = Some z"
  shows "\<exists>x. compute PP k live Res L R = Inr x \<and>
    computes (APInts PP) val w (operator_unsigned k (unsigned_value L) (unsigned_value R)) z x"
proof -
  have u: "unsigned_value L = unsigned_value Res \<and> unsigned_value R = unsigned_value Res" if "\<not> no_conversion k"
    using ops that by (simp add: operands_def)
  consider "k = tok_percent \<or> k = tok_slash" | "k \<in> {tok_star, tok_plus, tok_minus, tok_amp, tok_caret, tok_pipe}"
    | "comparison k \<or> k = tok_ampamp \<or> k = tok_pipepipe" | "k = tok_comma"
    using z unfolding operator_value_def comparison_def by (auto split: if_splits)
  then show ?thesis
  proof cases
    case 1
    then show ?thesis using compute_division [OF ops 1, of live] z u
      by (auto simp: operator_value_def operator_unsigned_def comparison_def no_conversion_def split: if_splits)
  next
    case 2
    then have "operator_unsigned k (unsigned_value L) (unsigned_value R) = unsigned_value Res"
      using u by (auto simp: operator_unsigned_def comparison_def no_conversion_def)
    then show ?thesis using compute_ring [OF ops 2, of live] z by simp
  next
    case 3
    then have "operator_unsigned k (unsigned_value L) (unsigned_value R) = False" by (simp add: operator_unsigned_def)
    then show ?thesis using compute_truth [OF ops 3, of live] z by simp
  next
    case 4
    then show ?thesis using compute_comma [of PP val w Res L R live] ops z
      by (auto simp: operator_value_def operator_unsigned_def comparison_def)
  qed
qed

lemma ival_convert:
  assumes A: "APSInt_ok A val" and w: "getBitWidth A (bits v) = w" "0 < w"
  shows "ival A val (v\<lparr>unsigned_value := u\<rparr>) = convert w u (ival A val v)"
proof -
  have m: "uval val (bits v) mod 2 ^ w = uval val (bits v)"
    using APInt_width(5) [OF A, of "bits v"] w by (simp add: uval_def)
  have t: "signed_take_bit (w - 1) (uval val (bits v)) mod 2 ^ w = uval val (bits v)"
    using w(2) m by (simp add: take_bit_signed_take_bit flip: take_bit_eq_mod)
  have s: "signed_take_bit (w - 1) (signed_take_bit (w - 1) z) = signed_take_bit (w - 1) z" for z :: int
    using in_range_signed [of w z] by (simp only: in_range_iff)
  show ?thesis using w m t s by (simp add: ival_def convert_def sval_def)
qed

lemma operands_apply:
  assumes A: "APSInt_ok (APInts PP) val" and w: "getBitWidth (APInts PP) (bits L) = w" "getBitWidth (APInts PP) (bits R) = w" "1 < w"
  shows "no_conversion k \<Longrightarrow> operands PP val w k (apsint_new PP w) L R"
    "operands PP val w k ((apsint_new PP w)\<lparr>unsigned_value := u\<rparr>) (L\<lparr>unsigned_value := u\<rparr>) (R\<lparr>unsigned_value := u\<rparr>)"
  using assms APInt_width(1) [OF A] by (auto simp: operands_def apsint_new_def)

lemma compute_no_value:
  assumes ops: "operands PP val w k Res L R" and k: "k \<noteq> tok_lessless" "k \<noteq> tok_greatergreater"
    and z: "operator_value k (ival (APInts PP) val L) (ival (APInts PP) val R) = None"
  shows "\<exists>d. compute PP k True Res L R = Inl d \<and> (k = tok_percent \<longrightarrow> d = err_pp_remainder_by_zero) \<and>
    (k = tok_slash \<longrightarrow> d = err_pp_division_by_zero)"
proof -
  have A: "APSInt_ok (APInts PP) val" and w: "0 < getBitWidth (APInts PP) (bits R)" using ops by (auto simp: operands_def)
  have "is_zero PP R \<longleftrightarrow> ival (APInts PP) val R = 0" using ival_zero [OF A w] by (simp add: is_zero_def)
  then show ?thesis using z k unfolding operator_value_def compute_def Let_def by (auto split: if_splits)
qed

lemma conversion_warnings_only: "d \<in> set (conversion_warnings PP live L R) \<Longrightarrow> \<exists>right. d = warn_pp_convert_to_positive right"
  by (auto simp: conversion_warnings_def Let_def split: if_splits)

text \<open>The converted operands and the result they start from.\<close>

definition converted :: "('p, 'a) preprocessor \<Rightarrow> nat \<Rightarrow> tok_kind \<Rightarrow> 'a apsint \<Rightarrow> 'a apsint \<Rightarrow> 'a apsint \<times> 'a apsint \<times> 'a apsint" where
  "converted PP w k L R =
     (let u = unsigned_value L \<or> unsigned_value R in
      if no_conversion k then (apsint_new PP w, L, R)
      else ((apsint_new PP w)\<lparr>unsigned_value := u\<rparr>, L\<lparr>unsigned_value := u\<rparr>, R\<lparr>unsigned_value := u\<rparr>))"

definition warnings_of :: "('p, 'a) preprocessor \<Rightarrow> tok_kind \<Rightarrow> bool \<Rightarrow> 'a apsint \<Rightarrow> 'a apsint \<Rightarrow> pp_diag list" where
  "warnings_of PP k live L R = (if no_conversion k then [] else conversion_warnings PP live L R)"

definition comma_warning :: "('p, 'a) preprocessor \<Rightarrow> tok_kind \<Rightarrow> bool \<Rightarrow> pp_diag list" where
  "comma_warning PP k live = (if k = tok_comma \<and> (\<not> C99 (LangOpts PP) \<or> live) then [ext_pp_comma_expr] else [])"

lemma apply_binary_converted:
  assumes "converted PP (getBitWidth (APInts PP) (bits L)) k L R = (Res', L', R')"
  shows "apply_binary PP k live L R =
      (case compute PP k live Res' L' R' of Inl d \<Rightarrow> (warnings_of PP k live L R @ [d], None)
       | Inr (v, ov) \<Rightarrow> (warnings_of PP k live L R @ comma_warning PP k live @
           (if ov \<and> live then [warn_pp_expr_overflow] else []), Some v))"
  using assms
  by (cases "no_conversion k"; cases "compute PP k live Res' L' R'")
    (simp_all add: apply_binary_def converted_def warnings_of_def comma_warning_def Let_def split: prod.split)

lemma no_overflow_warning:
  "warn_pp_expr_overflow \<notin> set (warnings_of PP k live L R)" "warn_pp_expr_overflow \<notin> set (comma_warning PP k live)"
  using conversion_warnings_only [of warn_pp_expr_overflow PP live L R]
  by (auto simp: warnings_of_def comma_warning_def)

text \<open>
  C33. The operators of a condition compute with integers: apart from the shifts, an operator on live operands
  gives the exact integer result of the operands, after the usual arithmetic conversions, in the
  type of the result. It warns of an overflow exactly when the type is signed and
  the integer is out of its range. A division by zero, and it alone, is an error.
\<close>

theorem apply_binary_value:
  assumes A: "APSInt_ok (APInts PP) val"
    and w: "getBitWidth (APInts PP) (bits L) = w" "getBitWidth (APInts PP) (bits R) = w" "1 < w"
    and k: "k \<noteq> tok_lessless" "k \<noteq> tok_greatergreater"
  shows "let u = unsigned_value L \<or> unsigned_value R; res = operator_unsigned k (unsigned_value L) (unsigned_value R);
      (ds, v) = apply_binary PP k True L R in
    case operator_value k (operand_value w k u (ival (APInts PP) val L)) (operand_value w k u (ival (APInts PP) val R)) of
      None \<Rightarrow> v = None \<and> (k = tok_percent \<longrightarrow> last ds = err_pp_remainder_by_zero) \<and>
        (k = tok_slash \<longrightarrow> last ds = err_pp_division_by_zero)
    | Some z \<Rightarrow> \<exists>x. v = Some x \<and> getBitWidth (APInts PP) (bits x) = w \<and> unsigned_value x = res \<and>
        ival (APInts PP) val x = convert w res z \<and> (warn_pp_expr_overflow \<in> set ds \<longleftrightarrow> \<not> res \<and> \<not> in_range w z)"
proof -
  let ?A = "APInts PP" and ?u = "unsigned_value L \<or> unsigned_value R"
  obtain Res' L' R' where c: "converted PP w k L R = (Res', L', R')" by (metis prod_cases3)
  have ops: "operands PP val w k Res' L' R'"
    using operands_apply [OF A w] c by (auto simp: converted_def Let_def split: if_splits)
  have "0 < w" using w(3) by simp
  then have i: "ival ?A val L' = operand_value w k ?u (ival ?A val L)" "ival ?A val R' = operand_value w k ?u (ival ?A val R)"
    using ival_convert [OF A w(1), of ?u] ival_convert [OF A w(2), of ?u] c
    by (auto simp: converted_def operand_value_def Let_def split: if_splits)
  have "operator_unsigned k (unsigned_value L') (unsigned_value R') = operator_unsigned k (unsigned_value L) (unsigned_value R)"
    using c by (auto simp: converted_def operator_unsigned_def no_conversion_def Let_def split: if_splits)
  note some = compute_value [OF ops, of _ True, unfolded i this]
  note none = compute_no_value [OF ops k, unfolded i]
  note ap = apply_binary_converted [OF c [folded w(1)], of True]
  show ?thesis
  proof (cases "operator_value k (operand_value w k ?u (ival ?A val L)) (operand_value w k ?u (ival ?A val R))")
    case None
    from none [OF None] show ?thesis by (auto simp: ap None Let_def)
  next
    case (Some z)
    from some [OF Some] obtain v ov where x: "compute PP k True Res' L' R' = Inr (v, ov)"
      "computes ?A val w (operator_unsigned k (unsigned_value L) (unsigned_value R)) z (v, ov)" by auto
    show ?thesis using x(2) by (auto simp: ap x(1) Some Let_def computes_def no_overflow_warning)
  qed
qed

section \<open>Shifts\<close>

text \<open>The amount of a right shift, cut to 32 bits.\<close>

definition shift_amount :: "nat \<Rightarrow> nat" where
  "shift_amount n = min n (2 ^ 64 - 1) mod 2 ^ 32"

lemma shift_amount_small: "n < 2 ^ 32 \<Longrightarrow> shift_amount n = n"
  by (simp add: shift_amount_def)

lemma div_in_range: "in_range w s \<Longrightarrow> in_range w (s div 2 ^ n)"
  using zdiv_mono2_neg [of s 1 "2 ^ n"] zdiv_mono2 [of s 1 "2 ^ n"] pos_imp_zdiv_nonneg_iff [of "2 ^ n" s]
  by (cases "s < 0") (auto simp: in_range_def pos_imp_zdiv_neg_iff)

lemma shift_right_value:
  assumes A: "APSInt_ok (APInts PP) val"
    and w: "getBitWidth (APInts PP) (bits L) = w" "getBitWidth (APInts PP) (bits R) = w" "0 < w"
  defines "m \<equiv> shift_amount (val (bits R))"
  shows "\<exists>x. shift_right PP L R = (x, w \<le> m) \<and> getBitWidth (APInts PP) (bits x) = w \<and>
    unsigned_value x = unsigned_value L \<and> ival (APInts PP) val x = ival (APInts PP) val L div 2 ^ min m (w - 1)"
proof -
  let ?A = "APInts PP" and ?n = "min m (w - 1)"
  have "unat (getLimitedValue ?A (bits R)) = min (val (bits R)) (2 ^ 64 - 1)"
    using APSInt_unary [OF A, of "bits R"] w by (simp add: unary_laws_def Let_def)
  then have m: "unat (ucast (getLimitedValue ?A (bits R)) :: u32) = m"
    unfolding m_def shift_amount_def by (simp add: unsigned_ucast_eq take_bit_eq_mod)
  have n: "(if w \<le> m then w - 1 else m) = ?n" by auto
  have laws: "wraps ?A val w (apint_lshr ?A (bits L) ?n) (uval val (bits L) div 2 ^ ?n)"
    "wraps ?A val w (apint_ashr ?A (bits L) ?n) (sval ?A val (bits L) div 2 ^ ?n)"
    using APSInt_unary [OF A, of "bits L"] w by (simp_all add: unary_laws_def Let_def)
  have div: "uval val (bits L) div 2 ^ ?n mod 2 ^ w = uval val (bits L) div 2 ^ ?n"
  proof (rule mod_pos_pos_trivial)
    show "0 \<le> uval val (bits L) div 2 ^ ?n" by (simp add: uval_def pos_imp_zdiv_nonneg_iff)
    have "uval val (bits L) div 2 ^ ?n \<le> uval val (bits L)" using zdiv_mono2 [of "uval val (bits L)" 1 "2 ^ ?n"] by (simp add: uval_def)
    also have "\<dots> < 2 ^ w" using APInt_width(5) [OF A, of "bits L"] w by (simp add: uval_def)
    finally show "uval val (bits L) div 2 ^ ?n < 2 ^ w" .
  qed
  have range: "in_range w (sval ?A val (bits L) div 2 ^ ?n)"
    by (rule div_in_range [OF sval_in_range [OF w(1)]])
  have x: "computes ?A val w (unsigned_value L) (ival ?A val L div 2 ^ ?n)
      (\<lparr>bits = (if unsigned_value L then apint_lshr ?A (bits L) ?n else apint_ashr ?A (bits L) ?n),
        unsigned_value = unsigned_value L\<rparr>, False)"
    using computes_unsigned [OF laws(1) w(3)] computes_signed [OF laws(2) range w(3)] by (simp add: ival_def)
  have "convert w (unsigned_value L) (ival ?A val L div 2 ^ ?n) = ival ?A val L div 2 ^ ?n"
    using div range by (simp add: convert_def ival_def in_range_iff)
  moreover have "shift_right PP L R = (L\<lparr>bits := (if unsigned_value L then apint_lshr ?A (bits L) ?n
      else apint_ashr ?A (bits L) ?n)\<rparr>, w \<le> m)"
    unfolding shift_right_def Let_def m w(1) n by (rule refl)
  moreover have "L\<lparr>bits := b\<rparr> = \<lparr>bits = b, unsigned_value = unsigned_value L\<rparr>" for b by simp
  ultimately show ?thesis using x by (simp only: computes_def fst_conv apsint.select_convs) auto
qed

text \<open>
  The shifts. A left shift gives the left operand times the power of two, in the type of the left operand, and warns
  when the amount reaches the width or the product does not fit. A right shift rounds down and warns when the amount,
  of which only 32 bits are looked at, reaches the width; it then shifts by the width less one.
\<close>

theorem shift_value:
  assumes A: "APSInt_ok (APInts PP) val"
    and w: "getBitWidth (APInts PP) (bits L) = w" "getBitWidth (APInts PP) (bits R) = w" "1 < w"
    and k: "k = tok_lessless \<or> k = tok_greatergreater"
  shows "let n = val (bits R); m = shift_amount n; l = ival (APInts PP) val L; u = unsigned_value L;
      z = (if k = tok_lessless then l * 2 ^ n else l div 2 ^ min m (w - 1));
      overflow = (if k = tok_greatergreater then w \<le> m else w \<le> n \<or> (if u then 2 ^ w \<le> z else \<not> in_range w z)) in
    \<exists>x. apply_binary PP k True L R = (if overflow then [warn_pp_expr_overflow] else [], Some x) \<and>
      getBitWidth (APInts PP) (bits x) = w \<and> unsigned_value x = u \<and> ival (APInts PP) val x = convert w u z"
proof -
  let ?A = "APInts PP" and ?n = "val (bits R)"
  have "binary_laws ?A val (bits L) (bits R)" using APSInt_binary [OF A] w by simp
  note laws = this [unfolded binary_laws_def Let_def w]
  have zero: "(l * 2 ^ ?n) mod 2 ^ w = 0" if "w \<le> ?n" for l :: int
    using that by (simp add: le_imp_power_dvd dvd_mult mod_eq_0_iff_dvd)
  have l: "wraps ?A val w (fst (ushl_ov ?A (bits L) (bits R))) (uval val (bits L) * 2 ^ ?n)"
    "wraps ?A val w (fst (sshl_ov ?A (bits L) (bits R))) (sval ?A val (bits L) * 2 ^ ?n)"
    using laws zero by (auto simp: wraps_def split: if_splits)
  show ?thesis
  proof (cases "k = tok_lessless")
    case True
    then show ?thesis using ival_wraps [OF l(1), of True] ival_wraps [OF l(2), of False] l w laws
      by (cases "unsigned_value L")
        (auto simp: apply_binary_def no_conversion_def compute_def Let_def apsint_new_def wraps_def ival_def)
  next
    case False
    then have k: "k = tok_greatergreater" using k by simp
    have "0 < w" using w(3) by simp
    from shift_right_value [OF A w(1,2) this] obtain x where x: "shift_right PP L R = (x, w \<le> shift_amount ?n)"
      "getBitWidth ?A (bits x) = w" "unsigned_value x = unsigned_value L"
      "ival ?A val x = ival ?A val L div 2 ^ min (shift_amount ?n) (w - 1)" by blast
    have "ival ?A val x = convert w (unsigned_value x) (ival ?A val x)"
      using ival_convert [OF A x(2) \<open>0 < w\<close>, of "unsigned_value x"] by simp
    then show ?thesis using x k by (simp add: apply_binary_def no_conversion_def compute_def Let_def)
  qed
qed

text \<open>
  Only 32 bits of the amount of a right shift are looked at: shifting by a multiple of \<open>2 ^ 32\<close> leaves
  the value as it is, without a warning, although every bit should go.
\<close>

theorem right_shift_forgets:
  assumes A: "APSInt_ok (APInts PP) val"
    and w: "getBitWidth (APInts PP) (bits L) = w" "getBitWidth (APInts PP) (bits R) = w" "1 < w"
    and n: "val (bits R) = 2 ^ 32 * j" "j < 2 ^ 32"
  shows "\<exists>x. apply_binary PP tok_greatergreater True L R = ([], Some x) \<and> unsigned_value x = unsigned_value L \<and>
    ival (APInts PP) val x = ival (APInts PP) val L"
proof -
  have "2 ^ 32 * j < 2 ^ 64" using n(2) by simp
  then have "shift_amount (val (bits R)) = 0" by (simp add: shift_amount_def n(1) min_def)
  moreover have "0 < w" using w(3) by simp
  ultimately show ?thesis using shift_right_value [OF A w(1,2)] w(3)
    by (auto simp: apply_binary_def no_conversion_def compute_def Let_def)
qed

section \<open>A line of tokens\<close>

text \<open>A preprocessor for examples: the line is a list of tokens, the macros are given by their names.\<close>

definition plain_token :: "tok_kind \<Rightarrow> pp_token" where
  "plain_token k = \<lparr>getKind = k, getIdentifierInfo = None, hasUDSuffix = False, token_text = [], from_macro = None\<rparr>"

definition number_token :: "string \<Rightarrow> pp_token" where
  "number_token s = (plain_token tok_numeric_constant)\<lparr>token_text := s\<rparr>"

definition name_token :: "string \<Rightarrow> pp_token" where
  "name_token s = (plain_token tok_other)\<lparr>getIdentifierInfo := Some \<lparr>getName = s, isCPlusPlusOperatorKeyword = False\<rparr>\<rparr>"

definition line_lexer :: "bool \<Rightarrow> pp_token list \<Rightarrow> pp_token \<times> pp_token list" where
  "line_lexer d ts = (case ts of [] \<Rightarrow> (plain_token tok_eod, []) | t # ts \<Rightarrow> (t, ts))"

definition line_pp :: "string list \<Rightarrow> (pp_token list, nat \<times> nat) preprocessor" where
  "line_pp macros =
     \<lparr>Lex_NonComment = line_lexer, Lex_UnexpandedNonComment = line_lexer, Lex_UnexpandedToken = line_lexer,
      getMacroDefinition = (\<lambda>II. getName II \<in> set macros),
      getSpelling = (\<lambda>t. if CHR 0x5C \<in> set (token_text t) then None else Some (token_text t)),
      LangOpts = sample_options, CharIsSigned = True, hasFloat16 = False, hexDigits = hexDigitValue_model,
      toUTF8 = (\<lambda>_. None), CharLiteral = (\<lambda>_ _. None), undef_identifier_ignored = True, UndefPrefixes = [],
      APInts = apsint_model, IntMaxTWidth = 64, IntWidth = 32, WCharWidth = 32, Char16Width = 16, Char32Width = 32,
      CharWidth = 8, WCharSigned = True\<rparr>"

definition line_start :: "pp_token list \<Rightarrow> pp_token list pp_state" where
  "line_start ts = \<lparr>pp_rest = ts, PeekTok = plain_token tok_other, DisableMacroExpansion = True,
     ParsingIfOrElifDirective = False, Diags = []\<rparr>"

definition literal :: "bool \<Rightarrow> nat \<Rightarrow> (nat \<times> nat) apsint" where
  "literal u n = \<lparr>bits = (64, n), unsigned_value = u\<rparr>"

lemma line_pp_APInts [simp]: "APInts (line_pp macros) = apsint_model"
  by (simp add: line_pp_def)

lemma literal_width [simp]: "getBitWidth apsint_model (bits (literal u n)) = 64" "unsigned_value (literal u n) = u"
  by (simp_all add: literal_def apsint_model_def Let_def)

lemma literal_value: "n < 2 ^ 63 \<Longrightarrow> ival apsint_model apint_val (literal u n) = int n"
  "n < 2 ^ 64 \<Longrightarrow> apint_val (bits (literal u n)) = n"
proof -
  have "n < 2 ^ 63 \<Longrightarrow> in_range 64 (int n)" by (simp add: in_range_def)
  then show "n < 2 ^ 63 \<Longrightarrow> ival apsint_model apint_val (literal u n) = int n"
    by (simp add: ival_def sval_model uval_model sint_of_def uint_of_def apint_val_def literal_def in_range_iff)
  show "n < 2 ^ 64 \<Longrightarrow> apint_val (bits (literal u n)) = n" by (simp add: apint_val_def literal_def)
qed

theorem apply_binary_value_witness:
  "\<exists>ds v. apply_binary (line_pp []) tok_plus True (literal False 9223372036854775807) (literal False 1) = (ds, Some v) \<and>
      warn_pp_expr_overflow \<in> set ds \<and> ival apsint_model apint_val v = - 9223372036854775808"
  using apply_binary_value [of "line_pp []" apint_val "literal False 9223372036854775807" 64 "literal False 1" tok_plus]
    apsint_model_ok
  by (simp add: literal_value operator_value_def operator_unsigned_def comparison_def operand_value_def
      no_conversion_def Let_def convert_def in_range_def split: prod.splits) auto

theorem right_shift_forgets_witness:
  "\<exists>v. apply_binary (line_pp []) tok_greatergreater True (literal True 1) (literal True 4294967296) = ([], Some v) \<and>
    ival apsint_model apint_val v = 1"
  using right_shift_forgets [of "line_pp []" apint_val "literal True 1" 64 "literal True 4294967296" 1]
    apsint_model_ok literal_value(1) [of 1 True] by (auto simp: literal_value(2))

theorem shift_value_witness:
  "\<exists>v. apply_binary (line_pp []) tok_lessless True (literal False 3) (literal True 62) = ([warn_pp_expr_overflow], Some v) \<and>
    ival apsint_model apint_val v = - 4611686018427387904"
  using shift_value [of "line_pp []" apint_val "literal False 3" 64 "literal True 62" tok_lessless] apsint_model_ok
  by (simp add: literal_value Let_def in_range_def convert_def) auto

end
