(* ===== verification/PPEvaluation.thy ===== *)
theory PPEvaluation
  imports PPArithmetic
begin

text \<open>
  The evaluator of \<open>#if\<close> expressions: it returns, it fails no assertion of its own, what an include
  guard means, and it computes the value of the expression that the tokens are printed from.
\<close>

section \<open>Sequences\<close>

lemma and_then_Done: "and_then r k = Done x st \<longleftrightarrow> (\<exists>y st'. r = Done y st' \<and> k y st' = Done x st)"
  by (cases r) auto

lemma and_then_AssertFails:
  "and_then r k = AssertFails \<longleftrightarrow> r = AssertFails \<or> (\<exists>y st'. r = Done y st' \<and> k y st' = AssertFails)"
  by (cases r) auto

lemma keep_flag_simps [simp]:
  "keep_flag inc r = Done x st \<longleftrightarrow> r = Done x st" "keep_flag inc r = AssertFails \<longleftrightarrow> r = AssertFails"
  "keep_flag inc r = NoFuel \<longleftrightarrow> r = NoFuel"
  by (cases r; simp)+

lemma check_operator_Done:
  "check_operator V inc st k = Done x st' \<longleftrightarrow> (\<exists>p. getPrecedence (getKind (PeekTok st)) = Some p \<and> k p = Done x st')"
  by (simp add: check_operator_def split: option.splits)

lemma check_operator_AssertFails:
  "check_operator V inc st k = AssertFails \<longleftrightarrow> (\<exists>p. getPrecedence (getKind (PeekTok st)) = Some p \<and> k p = AssertFails)"
  by (simp add: check_operator_def split: option.splits)

section \<open>Enough fuel\<close>

text \<open>A line has finitely many tokens: \<open>m\<close> bounds those before the end of the directive.\<close>

definition finite_line :: "('p, 'a) preprocessor \<Rightarrow> ('p \<Rightarrow> nat) \<Rightarrow> bool" where
  "finite_line PP m \<longleftrightarrow> (\<forall>lex \<in> {Lex_NonComment PP, Lex_UnexpandedNonComment PP, Lex_UnexpandedToken PP}.
     \<forall>d p. getKind (fst (lex d p)) \<noteq> tok_eod \<longrightarrow> m (snd (lex d p)) < m p)"

definition left_over :: "('p \<Rightarrow> nat) \<Rightarrow> 'p pp_state \<Rightarrow> nat" where
  "left_over m st = (if peek_is tok_eod st then 0 else Suc (m (pp_rest st)))"

text \<open>The result is there, and fewer than \<open>n\<close> tokens are left unless it is an error.\<close>

fun leaves :: "('p \<Rightarrow> nat) \<Rightarrow> nat \<Rightarrow> nat \<Rightarrow> ('r, 'p) result \<Rightarrow> bool" where
  "leaves m n k NoFuel \<longleftrightarrow> False"
| "leaves m n k AssertFails \<longleftrightarrow> True"
| "leaves m n k (Failed inc st) \<longleftrightarrow> left_over m st \<le> k"
| "leaves m n k (Done r st) \<longleftrightarrow> left_over m st < n"

lemma left_over_Diag [simp]: "left_over m (Diag d st) = left_over m st" "peek_is k (Diag d st) = peek_is k st"
  "left_over m (with_diags ds st) = left_over m st" "peek_is k (with_diags ds st) = peek_is k st"
  "PeekTok (Diag d st) = PeekTok st" "PeekTok (with_diags ds st) = PeekTok st"
  "pp_rest (Diag d st) = pp_rest st" "pp_rest (with_diags ds st) = pp_rest st"
  "left_over m (st\<lparr>Diags := ds\<rparr>) = left_over m st" "peek_is k (st\<lparr>Diags := ds\<rparr>) = peek_is k st"
  by (simp_all add: left_over_def Diag_def peek_is_def with_diags_def)

lemma Lex_left_over:
  assumes "finite_line PP m"
  shows "left_over m (LexNonComment PP st) \<le> m (pp_rest st)"
    "left_over m (LexUnexpandedNonComment PP st) \<le> m (pp_rest st)"
  using assms
  by (auto simp: left_over_def LexNonComment_def LexUnexpandedNonComment_def peek_is_def finite_line_def
      Suc_le_eq split: prod.splits) (metis fst_conv snd_conv)+

lemma Lex_less:
  assumes "finite_line PP m" "\<not> peek_is tok_eod st"
  shows "left_over m (LexNonComment PP st) < left_over m st"
    "left_over m (LexUnexpandedNonComment PP st) < left_over m st"
  using Lex_left_over [OF assms(1), of st] assms(2) by (auto simp: left_over_def)

lemma leaves_mono: "leaves m n k r \<Longrightarrow> n \<le> n' \<Longrightarrow> k \<le> k' \<Longrightarrow> leaves m n' k' r"
  by (cases r) auto

lemma leaves_keep_flag [simp]: "leaves m n k (keep_flag inc r) = leaves m n k r"
  by (cases r) auto

lemma leaves_and_then:
  "leaves m n' k r \<Longrightarrow> (\<And>x st. r = Done x st \<Longrightarrow> left_over m st < n' \<Longrightarrow> leaves m n k (f x st)) \<Longrightarrow>
   leaves m n k (and_then r f)"
  by (cases r) auto

lemma leaves_check_operator:
  "left_over m st \<le> k \<Longrightarrow> (\<And>p. getPrecedence (getKind (PeekTok st)) = Some p \<Longrightarrow> leaves m n k (f p)) \<Longrightarrow>
   leaves m n k (check_operator V inc st f)"
  by (simp add: check_operator_def diagnoseUnexpectedOperator_def split: option.split)

lemma Lex_less':
  assumes "finite_line PP m" "\<not> peek_is tok_eod st" "left_over m st \<le> n"
  shows "left_over m (LexNonComment PP st) < n" "left_over m (LexUnexpandedNonComment PP st) < n"
  using Lex_less [OF assms(1,2)] assms(3) by auto

lemma integer_value_state:
  "integer_value PP L r b st = (v, st') \<Longrightarrow> left_over m st' = left_over m st \<and> peek_is k st' = peek_is k st"
  by (auto simp: integer_value_def split: prod.splits if_splits)

lemma longlong_state [simp]:
  "left_over m (longlong_warning PP L st) = left_over m st" "peek_is k (longlong_warning PP L st) = peek_is k st"
  by (simp_all add: longlong_warning_def)

lemma integer_value_leaves:
  assumes "finite_line PP m" "\<not> peek_is tok_eod st"
  shows "leaves m (left_over m st) k (case integer_value PP L r b st of (v, st) \<Rightarrow> Done (f v) (LexNonComment PP st))"
proof -
  obtain v st' where v: "integer_value PP L r b st = (v, st')" by (metis surj_pair)
  have "\<not> peek_is tok_eod st'" using integer_value_state [OF v, of m tok_eod] assms(2) by simp
  then show ?thesis using Lex_less [OF assms(1), of st'] integer_value_state [OF v, of m] by (simp add: v)
qed

lemma integer_literal_leaves:
  assumes "finite_line PP m" "\<not> peek_is tok_eod st"
  shows "leaves m (left_over m st) k (integer_literal PP s L V DT b st)"
proof -
  define st1 where "st1 = longlong_warning PP L (if saw_ud_suffix L then Diag err_pp_invalid_udl st else st)"
  have n: "left_over m st1 = left_over m st" "\<not> peek_is tok_eod st1" using assms(2) by (simp_all add: st1_def)
  show ?thesis
  proof (cases "GetIntegerValue (apint_ops.truncate (APInts PP)) (hexDigits PP) s L (bits (Val V))")
    case None
    then show ?thesis by (simp add: integer_literal_def Let_def)
  next
    case (Some r)
    then show ?thesis
      using integer_value_leaves [OF assms(1) n(2), where k = k and f = "\<lambda>v. (V\<lparr>Val := v\<rparr>, DT)"]
      by (simp add: integer_literal_def Let_def st1_def [symmetric] n(1))
  qed
qed

lemma note_literal_state [simp]:
  "left_over m (note_literal L st) = left_over m st" "peek_is k (note_literal L st) = peek_is k st"
  by (simp_all add: note_literal_def)

lemma eval_number_leaves:
  assumes "finite_line PP m" "\<not> peek_is tok_eod st"
  shows "leaves m (left_over m st) (left_over m st) (eval_number PP V DT b st)"
  using integer_literal_leaves [OF assms(1), of "note_literal _ st"] assms(2)
  by (simp add: eval_number_def Let_def split: option.split)

lemma eval_char_leaves:
  assumes "finite_line PP m" "\<not> peek_is tok_eod st"
  shows "leaves m (left_over m st) (left_over m st) (eval_char PP V DT st)"
proof -
  define st1 where "st1 = (if hasUDSuffix (PeekTok st) then Diag err_pp_invalid_udl st else st)"
  have "left_over m st1 = left_over m st" "\<not> peek_is tok_eod st1" using assms(2) by (simp_all add: st1_def)
  then show ?thesis
    using Lex_less [OF assms(1), of st1] unfolding eval_char_def Let_def st1_def [symmetric]
    by (auto split: option.split)
qed

lemma CheckMacroName_state:
  "CheckMacroName PP st = (b, st') \<Longrightarrow> left_over m st' = left_over m st \<and> PeekTok st' = PeekTok st \<and> (b \<or> \<not> peek_is tok_eod st)"
  by (auto simp: CheckMacroName_def split: if_splits option.splits)

lemma defined_in_macro_state [simp]: "left_over m (defined_in_macro origin st) = left_over m st"
  by (simp add: defined_in_macro_def split: option.split)

lemma defined_name_leaves:
  assumes "finite_line PP m" "left_over m st < n"
  shows "leaves m n n (defined_name PP t p V DT st)"
proof -
  obtain b st1 where c: "CheckMacroName PP st = (b, st1)" by (metis surj_pair)
  note s = CheckMacroName_state [OF c, of m]
  show ?thesis
  proof (cases b)
    case True
    then show ?thesis using c s assms(2) by (simp add: defined_name_def)
  next
    case False
    then have e: "\<not> peek_is tok_eod st1" using s by (simp add: peek_is_def)
    let ?st = "LexUnexpandedNonComment PP st1"
    have l: "left_over m (LexNonComment PP st1) < n" "left_over m ?st < n"
      using Lex_less [OF assms(1) e] s assms(2) by auto
    have "left_over m (LexNonComment PP ?st) < n" if "peek_is tok_r_paren ?st"
      using Lex_less [OF assms(1), of ?st] l that by (auto simp: peek_is_def)
    then show ?thesis using False c l by (simp add: defined_name_def Let_def)
  qed
qed

lemma EvaluateDefined_leaves:
  assumes "finite_line PP m" "\<not> peek_is tok_eod st"
  shows "leaves m (left_over m st) (left_over m st) (EvaluateDefined PP V DT st)"
proof -
  let ?n = "left_over m st"
  define st1 where "st1 = LexUnexpandedNonComment PP st"
  define st2 where "st2 = (if peek_is tok_l_paren st1 then LexUnexpandedNonComment PP st1 else st1)"
  define st3 where "st3 = (if peek_is tok_code_completion st2 then LexUnexpandedNonComment PP st2 else st2)"
  have 1: "left_over m st1 < ?n" unfolding st1_def by (rule Lex_less [OF assms])
  have 2: "left_over m st2 < ?n"
    using Lex_less [OF assms(1), of st1] 1 by (auto simp: st2_def peek_is_def)
  have 3: "left_over m st3 < ?n"
    using Lex_less [OF assms(1), of st2] 2 by (auto simp: st3_def peek_is_def)
  have "EvaluateDefined PP V DT st = defined_name PP (PeekTok st) (peek_is tok_l_paren st1) V DT st3"
    by (simp add: EvaluateDefined_def Let_def st1_def st2_def st3_def)
  then show ?thesis using defined_name_leaves [OF assms(1) 3] by simp
qed

lemma undef_warnings_state [simp]:
  "left_over m (undef_warnings PP II st) = left_over m st" "peek_is k (undef_warnings PP II st) = peek_is k st"
  by (simp_all add: undef_warnings_def Let_def)

lemma eval_identifier_leaves:
  assumes "finite_line PP m" "\<not> peek_is tok_eod st"
  shows "leaves m (left_over m st) (left_over m st) (eval_identifier PP V DT b st)"
proof -
  have "left_over m (LexNonComment PP (undef_warnings PP II st)) < left_over m st" for II
    using Lex_less [OF assms(1), of "undef_warnings PP II st"] assms(2) by simp
  then show ?thesis
    using EvaluateDefined_leaves [OF assms] Lex_less [OF assms]
    by (simp add: eval_identifier_def split: option.split)
qed

lemma eval_bool_leaves:
  assumes "finite_line PP m" "\<not> peek_is tok_eod st"
  shows "leaves m (left_over m st) (left_over m st) (eval_bool PP V DT st)"
  using Lex_less [OF assms] by (simp add: eval_bool_def)

lemma close_paren_leaves:
  assumes "finite_line PP m" "left_over m st < n"
  shows "leaves m n n (close_paren PP r st)"
  using Lex_less' [OF assms(1), of st n] assms(2)
  by (cases r) (auto simp: close_paren_def peek_is_def)

lemma unary_leaves:
  assumes "left_over m st < n"
  shows "leaves m n n (apply_plus r st)" "leaves m n n (apply_minus PP b r st)"
    "leaves m n n (apply_tilde PP r st)" "leaves m n n (apply_exclaim PP r st)"
  using assms
  by (simp_all add: apply_plus_def apply_minus_def apply_tilde_def apply_exclaim_def Let_def split: prod.split)

lemma first_token_left_over:
  assumes "finite_line PP m"
  shows "left_over m (first_token PP st) \<le> left_over m st"
  using Lex_less [OF assms, of st] by (auto simp: first_token_def peek_is_def)

text \<open>The calls that \<open>value_body\<close> and \<open>loop_body\<close> may make, with fewer than \<open>k\<close> tokens left.\<close>

definition calls_leave :: "('p \<Rightarrow> nat) \<Rightarrow> nat \<Rightarrow> ('p, 'a) value_call \<Rightarrow> ('p, 'a) loop_call \<Rightarrow> bool" where
  "calls_leave m k ev sub \<longleftrightarrow>
     (\<forall>st. left_over m st < k \<longrightarrow>
        (\<forall>V DT b. leaves m (left_over m st) (left_over m st) (ev V DT b st)) \<and>
        (\<forall>V p b inc q. 0 < p \<longrightarrow> getPrecedence (getKind (PeekTok st)) = Some q \<longrightarrow>
           leaves m (Suc (left_over m st)) (left_over m st) (sub V p b inc q st)))"

lemma calls_leave_ev:
  assumes "calls_leave m k ev sub" "left_over m st < n" "n \<le> k"
  shows "leaves m n n (ev V DT b st)"
proof -
  have "leaves m (left_over m st) (left_over m st) (ev V DT b st)"
    using assms(1) less_le_trans [OF assms(2,3)] unfolding calls_leave_def by blast
  then show ?thesis by (rule leaves_mono) (use assms in auto)
qed

lemma calls_leave_sub:
  assumes "calls_leave m k ev sub" "left_over m st < n" "n \<le> k" "0 < p" "getPrecedence (getKind (PeekTok st)) = Some q"
  shows "leaves m n n (sub V p b inc q st)"
proof -
  have "leaves m (Suc (left_over m st)) (left_over m st) (sub V p b inc q st)"
    using assms(1,4,5) less_le_trans [OF assms(2,3)] unfolding calls_leave_def by blast
  then show ?thesis by (rule leaves_mono) (use assms in auto)
qed

lemma sub_expr_leaves:
  assumes "calls_leave m k ev sub" "left_over m st < n" "n \<le> k" "0 < p"
  shows "leaves m n n (sub_expr sub V p b inc st)"
  unfolding sub_expr_def using assms by (intro leaves_check_operator) (auto intro: calls_leave_sub)

lemma paren_rest_leaves:
  assumes "finite_line PP m" "calls_leave m k ev sub" "left_over m st < n" "n \<le> k"
  shows "leaves m n n (paren_rest PP sub b r st)"
  unfolding paren_rest_def using assms(3)
  by (auto intro!: close_paren_leaves [OF assms(1)] leaves_and_then [where n' = n] sub_expr_leaves [OF assms(2,3,4)]
      split: prod.split)

lemma value_body_leaves:
  assumes fin: "finite_line PP m" and calls: "calls_leave m k ev sub" and n: "left_over m st \<le> k"
  shows "leaves m (left_over m st) (left_over m st) (value_body PP ev sub V DT b st)"
proof -
  let ?V = "V\<lparr>getIdentifier := None\<rparr>" and ?DT = "DT\<lparr>State := Unknown\<rparr>" and ?n = "left_over m st"
  define st1 where "st1 = first_token PP st"
  define operand where "operand = ev ?V ?DT b (LexNonComment PP st1)"
  have le: "left_over m st1 \<le> ?n" unfolding st1_def by (rule first_token_left_over [OF fin])
  show ?thesis
  proof (cases "peek_is tok_eod st1")
    case True
    then show ?thesis using le
      by (simp add: value_body_def Let_def st1_def [symmetric]) (simp add: peek_is_def)
  next
    case False
    have op: "leaves m ?n ?n operand" unfolding operand_def
      by (rule calls_leave_ev [OF calls Lex_less'(1) [OF fin False le] n])
    have simple: "leaves m ?n ?n (eval_number PP ?V ?DT b st1)" "leaves m ?n ?n (eval_char PP ?V ?DT st1)"
      "leaves m ?n ?n (eval_bool PP ?V ?DT st1)" "leaves m ?n ?n (eval_identifier PP ?V ?DT b st1)"
      using eval_number_leaves [OF fin False] eval_char_leaves [OF fin False]
        eval_bool_leaves [OF fin False] eval_identifier_leaves [OF fin False] le
      by (blast intro: leaves_mono)+
    have unary: "leaves m ?n ?n (and_then operand apply_plus)" "leaves m ?n ?n (and_then operand (apply_minus PP b))"
      "leaves m ?n ?n (and_then operand (apply_tilde PP))" "leaves m ?n ?n (and_then operand (apply_exclaim PP))"
      "leaves m ?n ?n (and_then operand (paren_rest PP sub b))"
      by (auto intro!: leaves_and_then [OF op] unary_leaves paren_rest_leaves [OF fin calls _ n])
    show ?thesis
      unfolding value_body_def Let_def st1_def [symmetric] operand_def [symmetric]
      using simple unary le by simp
  qed
qed

lemma rhs_operand_leaves:
  assumes fin: "finite_line PP m" and calls: "calls_leave m k ev sub" and n: "left_over m st \<le> k"
    and ne: "\<not> peek_is tok_eod st" and P: "0 < P"
  shows "leaves m (left_over m st) (left_over m st) (rhs_operand PP ev sub w P b inc st)"
  unfolding rhs_operand_def
proof (rule leaves_and_then)
  let ?n = "left_over m st"
  show "leaves m ?n ?n (keep_flag inc (ev (new_value PP w) new_tracker b (LexNonComment PP st)))"
    using calls_leave_ev [OF calls Lex_less(1) [OF fin ne] n] by simp
  fix r s assume "left_over m s < ?n"
  then show "leaves m ?n ?n (case r of (RHS, DT) \<Rightarrow> let inc = IncludedUndefinedIds DT in
      check_operator RHS inc s (\<lambda>q. if q \<ge> P then sub RHS P b inc q s else Done (RHS, inc) s))"
    using P n by (auto intro!: leaves_check_operator calls_leave_sub [OF calls] simp: Let_def split: prod.split)
qed

lemma after_colon_leaves:
  assumes fin: "finite_line PP m" and calls: "calls_leave m k ev sub" and n: "left_over m st < n" "n \<le> k"
    and ne: "\<not> peek_is tok_eod st" and P: "0 < P"
  shows "leaves m n n (after_colon PP ev sub w P b inc st)"
  unfolding after_colon_def
proof (rule leaves_and_then)
  show "leaves m n n (keep_flag inc (ev (new_value PP w) new_tracker b (LexNonComment PP st)))"
    using calls_leave_ev [OF calls _ n(2)] Lex_less'(1) [OF fin ne less_imp_le [OF n(1)]] by simp
  fix r s assume "left_over m s < n"
  then show "leaves m n n (case r of (AfterColonVal, uu) \<Rightarrow> sub_expr sub AfterColonVal P b inc s)"
    using sub_expr_leaves [OF calls _ n(2) P] by (simp split: prod.split)
qed

lemma next_turn_leaves:
  assumes "calls_leave m k ev sub" "left_over m st < n" "n \<le> k" "0 < p"
  shows "leaves m n n (next_turn sub V p b inc st)"
  unfolding next_turn_def using assms by (auto intro: calls_leave_sub split: option.split)

lemma combine_leaves:
  assumes fin: "finite_line PP m" and calls: "calls_leave m k ev sub" and n: "left_over m st < n" "n \<le> k"
    and p: "0 < p" "p \<le> P"
  shows "leaves m n n (combine PP ev sub O' P V p b r st)"
proof -
  obtain RHS inc where r: "r = (RHS, inc)" by (cases r)
  have after: "leaves m n n (after_colon PP ev sub w P c inc st)" if "peek_is tok_colon st" for w c
    using that p by (intro after_colon_leaves [OF fin calls n]) (auto simp: peek_is_def)
  have turn: "leaves m n n (next_turn sub W p b i s)" if "left_over m s < n" for W i s
    by (rule next_turn_leaves [OF calls that n(2) p(1)])
  have cond: "leaves m n n (and_then (after_colon PP ev sub w P c inc st)
      (\<lambda>r. case r of (E, inc) \<Rightarrow> next_turn sub (f E) p b inc))" if "peek_is tok_colon st" for w c f
    by (rule leaves_and_then [OF after [OF that]]) (auto intro: turn split: prod.split)
  show ?thesis
    unfolding combine_def r prod.case
    using n turn by (auto simp: cond split: prod.split option.split)
qed

lemma loop_body_leaves:
  assumes fin: "finite_line PP m" and calls: "calls_leave m k ev sub" and n: "left_over m st \<le> k"
    and p: "0 < p" and q: "getPrecedence (getKind (PeekTok st)) = Some q"
  shows "leaves m (Suc (left_over m st)) (left_over m st) (loop_body PP ev sub V p b inc q st)"
proof (cases "q < p")
  case False
  let ?n = "left_over m st" and ?P = "rhs_precedence (getKind (PeekTok st)) q"
  have ne: "\<not> peek_is tok_eod st" using False p q by (auto simp: peek_is_def getPrecedence_def)
  have P: "0 < ?P" by (simp add: rhs_precedence_def getPrecedence_def)
  have "leaves m ?n ?n (loop_body PP ev sub V p b inc q st)"
    using False unfolding loop_body_def Let_def
    by (auto intro!: leaves_and_then [OF rhs_operand_leaves [OF fin calls n ne P]] combine_leaves [OF fin calls _ n p])
  then show ?thesis by (rule leaves_mono) auto
qed (simp add: loop_body_def)

lemma evaluator_leaves:
  assumes "finite_line PP m"
  shows "calls_leave m fuel (EvaluateValue fuel PP) (sub_expr_loop fuel PP)"
proof (induction fuel)
  case (Suc fuel)
  then show ?case
    using value_body_leaves [OF assms Suc] loop_body_leaves [OF assms Suc]
    unfolding calls_leave_def EvaluateValue.simps by (simp add: less_Suc_eq_le)
qed (simp add: calls_leave_def)

lemma Discard_returns:
  assumes fin: "finite_line PP m"
  shows "m (pp_rest st) < fuel \<Longrightarrow> DiscardUntilEndOfDirective fuel PP st \<noteq> None"
proof (induction fuel arbitrary: st)
  case (Suc fuel)
  let ?l = "Lex_UnexpandedToken PP (DisableMacroExpansion st) (pp_rest st)"
  have "m (snd ?l) < fuel" if "getKind (fst ?l) \<noteq> tok_eod"
  proof -
    have "m (snd ?l) < m (pp_rest st)" using that fin by (simp add: finite_line_def)
    then show ?thesis using Suc(2) by simp
  qed
  then show ?case using Suc(1) [of "st\<lparr>pp_rest := snd ?l\<rparr>"] by (simp add: Let_def split_beta)
qed simp

lemma skip_line_returns:
  assumes "finite_line PP m" "left_over m st \<le> k" "k < fuel"
  shows "skip_line fuel PP st \<noteq> None" "\<not> peek_is tok_eod st \<Longrightarrow> DiscardUntilEndOfDirective fuel PP (Diag d st) \<noteq> None"
  using Discard_returns [OF assms(1), of _ fuel] assms(2,3) by (auto simp: skip_line_def left_over_def split: if_splits)

definition returns_restored :: "'p pp_state \<Rightarrow> 'p directive \<Rightarrow> bool" where
  "returns_restored start r = (case r of OutOfFuel \<Rightarrow> False | AssertionFailed \<Rightarrow> True
     | Evaluated _ st \<Rightarrow> DisableMacroExpansion st = DisableMacroExpansion start \<and>
         ParsingIfOrElifDirective st = ParsingIfOrElifDirective start)"

lemma evaluated_restored: "st \<noteq> None \<Longrightarrow> returns_restored start (evaluated c i mac start st)"
  by (auto simp: evaluated_def returns_restored_def)

lemma returns_restored_simps [simp]: "returns_restored start AssertionFailed" "\<not> returns_restored start OutOfFuel"
  by (simp_all add: returns_restored_def)

lemma finish_expression_restored:
  assumes fin: "finite_line PP m" and r: "leaves m k k r" and k: "k < fuel"
  shows "returns_restored start (finish_expression fuel PP start r)"
proof (cases r)
  case (Failed inc st)
  then show ?thesis using r skip_line_returns(1) [OF fin _ k] by (simp add: finish_expression_def evaluated_restored)
next
  case (Done x st)
  then show ?thesis using r skip_line_returns(2) [OF fin less_imp_le k, of st]
    by (cases x) (simp add: finish_expression_def evaluated_restored)
qed (use r in \<open>simp_all add: finish_expression_def\<close>)

lemma finish_value_restored:
  assumes fin: "finite_line PP m" and r: "leaves m k k r" and k: "k < fuel"
    and sub: "\<And>V inc st. left_over m st < k \<Longrightarrow> leaves m k k (EvaluateDirectiveSubExpr fuel PP V 4 True inc st)"
  shows "returns_restored start (finish_value fuel PP start r)"
proof (cases r)
  case (Failed inc st)
  then show ?thesis using r skip_line_returns(1) [OF fin _ k] by (simp add: finish_value_def evaluated_restored)
next
  case (Done x st)
  then show ?thesis using r finish_expression_restored [OF fin sub k]
    by (cases x) (simp add: finish_value_def evaluated_restored getPrecedence_def)
qed (use r in \<open>simp_all add: finish_value_def\<close>)

text \<open>
  C30. The evaluation of a condition returns on every line of finitely many tokens, with any result of
  the lexer: one unit of fuel more than there are tokens is enough for its mutual recursion. It restores
  \<open>DisableMacroExpansion\<close> and \<open>ParsingIfOrElifDirective\<close>, also after an error.
\<close>

theorem EvaluateDirectiveExpression_returns:
  assumes fin: "finite_line PP m" and fuel: "m (pp_rest start) < fuel"
  shows "returns_restored start (EvaluateDirectiveExpression fuel PP start)"
proof -
  let ?st = "directive_start PP start"
  have n: "left_over m ?st < fuel"
    using Lex_left_over(1) [OF fin, of "start\<lparr>ParsingIfOrElifDirective := True, DisableMacroExpansion := False\<rparr>"] fuel
    by (simp add: directive_start_def)
  note calls = evaluator_leaves [OF fin, of fuel]
  show ?thesis unfolding EvaluateDirectiveExpression_def
  proof (rule finish_value_restored [OF fin _ n])
    show "leaves m (left_over m ?st) (left_over m ?st) (EvaluateValue fuel PP V DT True ?st)" for V DT
      using calls n unfolding calls_leave_def by blast
    show "leaves m (left_over m ?st) (left_over m ?st) (EvaluateDirectiveSubExpr fuel PP V 4 True inc s)"
      if "left_over m s < left_over m ?st" for V inc s
      unfolding EvaluateDirectiveSubExpr_def
      by (rule sub_expr_leaves [OF calls that less_imp_le [OF n]]) simp
  qed
qed

lemma line_pp_finite: "finite_line (line_pp macros) length"
  by (auto simp: finite_line_def line_pp_def line_lexer_def plain_token_def split: list.splits)

theorem EvaluateDirectiveExpression_returns_witness:
  "returns_restored (line_start [number_token ''1''])
     (EvaluateDirectiveExpression 2 (line_pp []) (line_start [number_token ''1'']))"
  by (rule EvaluateDirectiveExpression_returns [OF line_pp_finite]) (simp add: line_start_def)

end
