(* ===== verification/PPInvariants.thy ===== *)
theory PPInvariants
  imports PPEvaluation
begin

text \<open>
  The evaluator of \<open>#if\<close> expressions keeps its values at the width of \<open>intmax_t\<close>, fails none of its
  assertions, and reports an include guard only for what is one.
\<close>

section \<open>Values keep their width\<close>

lemma slow_loop_width:
  assumes "APInt_ok A val"
  shows "slow_loop A h r R cs V ov = Some (V', ov') \<Longrightarrow> getBitWidth A V = getBitWidth A R \<Longrightarrow>
    getBitWidth A V' = getBitWidth A R"
proof (induction cs arbitrary: V ov)
  case (Cons c cs)
  have w: "getBitWidth A (apint_add A (apint_mul A V R) (APInt A (getBitWidth A V) n)) = getBitWidth A R" for n
    using assms Cons(3) by (simp add: APInt_ok_def)
  show ?case
    using Cons(1) [OF _ Cons(3)] Cons(1) [OF _ w] Cons(2) by (auto simp: Let_def split: if_splits)
qed simp

lemma GetIntegerValue_width:
  assumes A: "APInt_ok A val" and v: "GetIntegerValue A h buf np V = Some (V', ov)"
  shows "getBitWidth A V' = getBitWidth A V"
proof (cases "alwaysFitsInto64Bits (radix np) (SuffixBegin np - DigitsBegin np)")
  case (Some b)
  let ?V = "apint_assign A V 0"
  let ?R = "APInt A (getBitWidth A ?V) (of_nat (radix np))"
  have w: "getBitWidth A (apint_assign A V n) = getBitWidth A V" "getBitWidth A ?R = getBitWidth A V" for n
    using A by (simp_all add: APInt_ok_def)
  show ?thesis
  proof (cases b)
    case True
    then show ?thesis using v Some w by (auto simp: GetIntegerValue_def Let_def)
  next
    case False
    then have "slow_loop A h (radix np) ?R (slice buf (DigitsBegin np) (SuffixBegin np)) ?V False = Some (V', ov)"
      using v Some by (simp add: GetIntegerValue_def Let_def)
    from slow_loop_width [OF A this] show ?thesis using w by simp
  qed
qed (use v in \<open>simp add: GetIntegerValue_def\<close>)

lemma null_value: "APSInt_ok A val \<Longrightarrow> 0 < getBitWidth A a \<Longrightarrow> isNullValue A a \<longleftrightarrow> val a = 0"
  using APSInt_unary [of A val a] by (simp add: unary_laws_def Let_def)

lemma compute_width:
  assumes ops: "operands PP val w k Res L R" and x: "compute PP k live Res L R = Inr (v, ov)"
  shows "getBitWidth (APInts PP) (bits v) = w"
proof -
  let ?A = "APInts PP" and ?l = "bits L" and ?r = "bits R"
  have A: "APSInt_ok ?A val" and w: "getBitWidth ?A ?l = w" "getBitWidth ?A ?r = w" "getBitWidth ?A (bits Res) = w" "0 < w"
    using ops by (auto simp: operands_def)
  have "binary_laws ?A val ?l ?r" using APSInt_binary [OF A] w by simp
  note laws = this [unfolded binary_laws_def Let_def w wraps_ov_def wraps_def]
  have ring: "getBitWidth ?A (apint_sub ?A ?l ?r) = w" "getBitWidth ?A (apint_and ?A ?l ?r) = w"
    "getBitWidth ?A (apint_xor ?A ?l ?r) = w" "getBitWidth ?A (apint_or ?A ?l ?r) = w"
    "getBitWidth ?A (fst (sadd_ov ?A ?l ?r)) = w" "getBitWidth ?A (fst (ssub_ov ?A ?l ?r)) = w"
    "getBitWidth ?A (fst (smul_ov ?A ?l ?r)) = w" "getBitWidth ?A (fst (sshl_ov ?A ?l ?r)) = w"
    "getBitWidth ?A (fst (ushl_ov ?A ?l ?r)) = w" "getBitWidth ?A (apint_mul ?A ?l ?r) = w"
    "getBitWidth ?A (apint_add ?A ?l ?r) = w"
    using laws APInt_binary(1,2) [OF A, of ?l ?r] w by (simp_all only: wraps_def)
  have division: "getBitWidth ?A (apint_urem ?A ?l ?r) = w" "getBitWidth ?A (apint_srem ?A ?l ?r) = w"
    "getBitWidth ?A (fst (sdiv_ov ?A ?l ?r)) = w" "getBitWidth ?A (apint_udiv ?A ?l ?r) = w" if "\<not> is_zero PP R"
  proof -
    have "val ?r \<noteq> 0" using that null_value [OF A, of ?r] w by (simp add: is_zero_def)
    then show "getBitWidth ?A (apint_urem ?A ?l ?r) = w" "getBitWidth ?A (apint_srem ?A ?l ?r) = w"
      "getBitWidth ?A (fst (sdiv_ov ?A ?l ?r)) = w" "getBitWidth ?A (apint_udiv ?A ?l ?r) = w"
      using laws APInt_binary(3) [OF A, of ?l ?r] w by (simp_all add: wraps_def uval_def)
  qed
  have b: "\<And>c. getBitWidth ?A (bits (assign_bool PP c Res)) = w" using APInt_width(2) [OF A] w by (simp add: assign_bool_def)
  have s: "\<And>y c. shift_right PP L R = (y, c) \<Longrightarrow> getBitWidth ?A (bits y) = w"
    using shift_right_value [OF A w(1,2,4)] by auto
  show ?thesis
  proof (cases "k \<in> {tok_percent, tok_slash}")
    case True
    then show ?thesis using x division w unfolding compute_def Let_def by (auto split: if_splits)
  next
    case False
    then show ?thesis using x ring b s w unfolding compute_def Let_def by (auto split: if_splits)
  qed
qed

lemma apply_binary_width:
  assumes A: "APSInt_ok (APInts PP) val"
    and w: "getBitWidth (APInts PP) (bits L) = w" "getBitWidth (APInts PP) (bits R) = w" "1 < w"
    and x: "apply_binary PP k live L R = (ds, Some v)"
  shows "getBitWidth (APInts PP) (bits v) = w"
proof -
  obtain Res' L' R' where c: "converted PP w k L R = (Res', L', R')" by (metis prod_cases3)
  have ops: "operands PP val w k Res' L' R'"
    using operands_apply [OF A w] c by (auto simp: converted_def Let_def split: if_splits)
  show ?thesis
    using apply_binary_converted [OF c [folded w(1)], of live] x compute_width [OF ops, of live]
    by (auto split: sum.splits prod.splits)
qed

lemma assign_bool_zero:
  assumes A: "APSInt_ok (APInts PP) val" and w: "0 < getBitWidth (APInts PP) (bits v)"
  shows "is_zero PP (assign_bool PP b v) \<longleftrightarrow> \<not> b"
    "getBitWidth (APInts PP) (bits (assign_bool PP b v)) = getBitWidth (APInts PP) (bits v)"
proof -
  let ?A = "APInts PP"
  show width: "getBitWidth ?A (bits (assign_bool PP b v)) = getBitWidth ?A (bits v)"
    using APInt_width(2) [OF A] by (simp add: assign_bool_def)
  have "(1::int) mod 2 ^ getBitWidth ?A (bits v) = 1" using w by (simp add: mod_pos_pos_trivial)
  then have "uval val (bits (assign_bool PP b v)) = of_bool b" using APInt_width(4) [OF A] by (simp add: assign_bool_def)
  then show "is_zero PP (assign_bool PP b v) \<longleftrightarrow> \<not> b"
    using null_value [OF A, of "bits (assign_bool PP b v)"] width w by (cases b) (simp_all add: is_zero_def uval_def)
qed

section \<open>What an evaluation ensures\<close>

text \<open>With \<open>strict\<close>, no assertion fails either.\<close>

fun ensures :: "bool \<Rightarrow> ('r \<Rightarrow> 'p pp_state \<Rightarrow> bool) \<Rightarrow> ('r, 'p) result \<Rightarrow> bool" where
  "ensures strict Q NoFuel \<longleftrightarrow> True"
| "ensures strict Q AssertFails \<longleftrightarrow> \<not> strict"
| "ensures strict Q (Failed inc st) \<longleftrightarrow> True"
| "ensures strict Q (Done r st) \<longleftrightarrow> Q r st"

lemma ensures_and_then:
  "ensures strict Q r \<Longrightarrow> (\<And>x st. Q x st \<Longrightarrow> ensures strict Q' (k x st)) \<Longrightarrow> ensures strict Q' (and_then r k)"
  by (cases r) auto

lemma ensures_keep_flag [simp]: "ensures strict Q (keep_flag inc r) = ensures strict Q r"
  by (cases r) auto

lemma ensures_mono: "ensures strict Q r \<Longrightarrow> (\<And>x st. Q x st \<Longrightarrow> Q' x st) \<Longrightarrow> ensures strict Q' r"
  by (cases r) auto

lemma ensures_check_operator:
  "(\<And>p. getPrecedence (getKind (PeekTok st)) = Some p \<Longrightarrow> ensures strict Q (k p)) \<Longrightarrow>
   ensures strict Q (check_operator V inc st k)"
  by (simp add: check_operator_def split: option.split)

text \<open>The target: every type of characters has bits, and more than one bit holds a condition.\<close>

definition target_ok :: "('p, 'a) preprocessor \<Rightarrow> ('a \<Rightarrow> nat) \<Rightarrow> bool" where
  "target_ok PP val \<longleftrightarrow> APSInt_ok (APInts PP) val \<and> 1 < IntMaxTWidth PP \<and> 0 < IntWidth PP \<and> 0 < WCharWidth PP \<and>
     0 < Char16Width PP \<and> 0 < Char32Width PP \<and> 0 < CharWidth PP"

text \<open>Literals that fail no assertion: no fixed-point literals, no universal character names, characters that fit.\<close>

definition literals_ok :: "('p, 'a) preprocessor \<Rightarrow> bool" where
  "literals_ok PP \<longleftrightarrow> \<not> FixedPoint (LangOpts PP) \<and> hexDigitValue_ok (hexDigits PP) \<and> 5 \<le> IntMaxTWidth PP \<and>
     (\<forall>t s. getSpelling PP t = Some s \<longrightarrow> getKind t = tok_numeric_constant \<longrightarrow> CHR 0x5C \<notin> set s) \<and>
     IntWidth PP \<le> IntMaxTWidth PP \<and> WCharWidth PP \<le> IntMaxTWidth PP \<and> Char16Width PP \<le> IntMaxTWidth PP \<and>
     Char32Width PP \<le> IntMaxTWidth PP \<and> CharWidth PP \<le> IntMaxTWidth PP"

definition has_width :: "('p, 'a) preprocessor \<Rightarrow> 'a pp_value \<Rightarrow> bool" where
  "has_width PP V \<longleftrightarrow> getBitWidth (APInts PP) (bits (Val V)) = IntMaxTWidth PP"

text \<open>What the tracker says holds: the value is, or is not, whether the macro is defined.\<close>

definition tracked :: "('p, 'a) preprocessor \<Rightarrow> 'a pp_value \<Rightarrow> defined_tracker \<Rightarrow> bool" where
  "tracked PP V DT \<longleftrightarrow> (State DT \<noteq> Unknown \<longrightarrow> (\<exists>II. TheMacro DT = Some II \<and>
     (is_zero PP (Val V) \<longleftrightarrow> (getMacroDefinition PP II \<longleftrightarrow> State DT = NotDefinedMacro))))"

definition value_post :: "('p, 'a) preprocessor \<Rightarrow> 'a pp_value \<times> defined_tracker \<Rightarrow> 'p pp_state \<Rightarrow> bool" where
  "value_post PP r st \<longleftrightarrow> has_width PP (fst r) \<and> tracked PP (fst r) (snd r)"

definition loop_post :: "('p, 'a) preprocessor \<Rightarrow> nat \<Rightarrow> 'a pp_value \<times> bool \<Rightarrow> 'p pp_state \<Rightarrow> bool" where
  "loop_post PP p r st \<longleftrightarrow> has_width PP (fst r) \<and> (\<exists>q. getPrecedence (getKind (PeekTok st)) = Some q \<and> q < p)"

lemma tracked_unknown [simp]: "tracked PP V (DT\<lparr>State := Unknown\<rparr>)" "State DT = Unknown \<Longrightarrow> tracked PP V DT"
  by (simp_all add: tracked_def)

lemma defined_name_ensures:
  assumes "target_ok PP val" "has_width PP V"
  shows "ensures s (value_post PP) (defined_name PP t p V DT st)"
proof -
  have "0 < getBitWidth (APInts PP) (bits (Val V))" using assms by (simp add: has_width_def target_ok_def)
  note z = assign_bool_zero [OF _ this]
  have A: "APSInt_ok (APInts PP) val" using assms(1) by (simp add: target_ok_def)
  obtain b st1 where c: "CheckMacroName PP st = (b, st1)" by (metis surj_pair)
  have "b \<or> (\<exists>II. getIdentifierInfo (PeekTok st1) = Some II)"
    using c by (auto simp: CheckMacroName_def Diag_def split: if_splits option.splits)
  then show ?thesis
    using c z [OF A] assms(2)
    by (cases b) (auto simp: defined_name_def Let_def value_post_def tracked_def has_width_def)
qed

lemma EvaluateDefined_ensures:
  assumes "target_ok PP val" "has_width PP V"
  shows "ensures s (value_post PP) (EvaluateDefined PP V DT st)"
  unfolding EvaluateDefined_def Let_def by (rule defined_name_ensures [OF assms])

lemma assign_bool_width:
  assumes "target_ok PP val" "has_width PP V"
  shows "has_width PP (V\<lparr>Val := assign_bool PP b (Val V)\<rparr>)"
  using assms assign_bool_zero(2) [of PP val "Val V"] by (simp add: has_width_def target_ok_def)

lemma has_width_identifier [simp]: "has_width PP (V\<lparr>getIdentifier := i\<rparr>) = has_width PP V"
  by (simp add: has_width_def)

lemma eval_identifier_ensures:
  assumes "target_ok PP val" "has_width PP V" "State DT = Unknown"
  shows "ensures s (value_post PP) (eval_identifier PP V DT b st)"
  using EvaluateDefined_ensures [OF assms(1,2)] assign_bool_width [OF assms(1,2), of False] assms(3)
  by (simp add: eval_identifier_def value_post_def has_width_def split: option.split)

lemma eval_bool_ensures:
  assumes "target_ok PP val" "has_width PP V" "State DT = Unknown"
  shows "ensures s (value_post PP) (eval_bool PP V DT st)"
  using assign_bool_width [OF assms(1,2), of "peek_is tok_kw_true st"] assms(3)
  by (simp add: eval_bool_def value_post_def has_width_def)

lemma eval_char_ensures:
  assumes t: "target_ok PP val" and v: "has_width PP V" "State DT = Unknown" and strict: "s \<longrightarrow> literals_ok PP"
  shows "ensures s (value_post PP) (eval_char PP V DT st)"
proof -
  let ?A = "APInts PP"
  define st1 where "st1 = (if hasUDSuffix (PeekTok st) then Diag err_pp_invalid_udl st else st)"
  have A: "APSInt_ok ?A val" using t by (simp add: target_ok_def)
  have w: "getBitWidth ?A (bits (Val V)) = IntMaxTWidth PP" using v by (simp add: has_width_def)
  have n: "0 < char_bits PP L" for L using t by (simp add: char_bits_def target_ok_def)
  have le: "s \<Longrightarrow> IntMaxTWidth PP = char_bits PP L \<or> char_bits PP L < IntMaxTWidth PP" for L
    using strict by (auto simp: char_bits_def literals_ok_def)
  have a: "getBitWidth ?A (apint_assign ?A (APInt ?A (char_bits PP L) 0) i) = char_bits PP L" for L i
    using APInt_width [OF A] by simp
  have ext: "getBitWidth ?A (apint_zext ?A a k) = k" "getBitWidth ?A (apint_sext ?A a k) = k"
    if "getBitWidth ?A a < k" "0 < getBitWidth ?A a" for a k
    using APSInt_unary [OF A that(2)] that(1) by (simp_all add: unary_laws_def Let_def wraps_def)
  show ?thesis
    using a n le w v(2) ext [of "apint_assign ?A (APInt ?A (char_bits PP _) 0) _" "IntMaxTWidth PP"]
    unfolding eval_char_def Let_def st1_def [symmetric]
    by (auto simp: value_post_def has_width_def split: option.split)
qed

section \<open>Number literals\<close>

lemma finish_suffix_fixed:
  "finish_suffix lo h conv buf fx fp np = Some np' \<Longrightarrow> \<not> saw_fixed_point_suffix np \<Longrightarrow> \<not> saw_fixed_point_suffix np'"
  by (auto simp: finish_suffix_def Let_def Error_def Report_def split: if_splits option.splits)

lemma no_fixed_point:
  assumes "\<not> FixedPoint lo" and np: "NumericLiteralParser lo f16 h conv buf = Some np"
  shows "\<not> saw_fixed_point_suffix np"
proof (cases "hadError (parse_number lo buf)")
  case True
  then show ?thesis using np saw_fixed_parse_number [of lo buf] by (simp add: NumericLiteralParser_def)
next
  case False
  let ?a = "at_suffix lo buf (parse_number lo buf)"
  have a: "\<not> saw_fixed_point_suffix ?a"
    using assms(1) saw_fixed_parse_number [of lo buf] by (simp add: at_suffix_def Let_def)
  have "cur ?a \<le> length buf" using parse_number_ok [of buf lo] False by (simp add: number_parsed_def cursor_ok_def)
  then have "\<not> saw_fixed_point_suffix (suffix_loop lo f16 buf (isFloatingLiteral ?a) ?a)"
    using suffix_loop_ok a by (simp add: same_number_def)
  then show ?thesis
    using np False finish_suffix_fixed by (simp add: NumericLiteralParser_def Let_def)
qed

lemma integer_literal_ensures:
  assumes A: "APSInt_ok (APInts PP) val" and v: "has_width PP V" "State DT = Unknown"
    and strict: "s \<longrightarrow> (\<exists>r. GetIntegerValue (apint_ops.truncate (APInts PP)) (hexDigits PP) sp L (bits (Val V)) = Some r)"
  shows "ensures s (value_post PP) (integer_literal PP sp L V DT b st)"
proof -
  have w: "getBitWidth (APInts PP) x = IntMaxTWidth PP"
    if "GetIntegerValue (apint_ops.truncate (APInts PP)) (hexDigits PP) sp L (bits (Val V)) = Some (x, ov)" for x ov
    using GetIntegerValue_width [of "apint_ops.truncate (APInts PP)" val, OF _ that] A v
    by (simp add: APSInt_ok_def has_width_def apint_ops.truncate_def)
  show ?thesis using w v strict
    by (auto simp: integer_literal_def integer_value_def Let_def value_post_def has_width_def
        split: option.split prod.split)
qed

lemma eval_number_ensures:
  assumes t: "target_ok PP val" and v: "has_width PP V" "State DT = Unknown" and strict: "s \<longrightarrow> literals_ok PP"
    and k: "getKind (PeekTok st) = tok_numeric_constant"
  shows "ensures s (value_post PP) (eval_number PP V DT b st)"
proof (cases "getSpelling PP (PeekTok st)")
  case (Some sp)
  let ?N = "NumericLiteralParser (LangOpts PP) (hasFloat16 PP) (hexDigits PP) (toUTF8 PP) sp"
  have A: "APSInt_ok (APInts PP) val" using t by (simp add: target_ok_def)
  have parsed: "\<exists>L. ?N = Some L" if s
    using that strict Some k by (intro NumericLiteralParser_asserts) (auto simp: literals_ok_def)
  show ?thesis
  proof (cases ?N)
    case None
    then show ?thesis using Some parsed by (auto simp: eval_number_def)
  next
    case L: (Some L)
    have int: "isIntegerLiteral L" if s "\<not> isFloatingLiteral L"
      using no_fixed_point [OF _ L] that strict
      by (auto simp: literals_ok_def isIntegerLiteral_def isFloatingLiteral_def isFixedPointLiteral_def)
    have "\<exists>r. GetIntegerValue (apint_ops.truncate (APInts PP)) (hexDigits PP) sp L (bits (Val V)) = Some r"
      if "s" "\<not> hadError L" "isIntegerLiteral L"
      using that strict A v GetIntegerValue_value [OF _ _ L that(2,3), of "apint_ops.truncate (APInts PP)" val "bits (Val V)"]
      by (auto simp: literals_ok_def APSInt_ok_def has_width_def apint_ops.truncate_def)
    note lit = integer_literal_ensures [OF A v, of s sp L, OF impI, OF this]
    show ?thesis using Some L int lit by (auto simp: eval_number_def Let_def)
  qed
qed (simp add: eval_number_def)

section \<open>The evaluator\<close>

text \<open>What the calls of the two bodies ensure.\<close>

definition calls_ensure :: "bool \<Rightarrow> ('p, 'a) preprocessor \<Rightarrow> ('p, 'a) value_call \<Rightarrow> ('p, 'a) loop_call \<Rightarrow> bool" where
  "calls_ensure s PP ev sub \<longleftrightarrow>
     (\<forall>V DT b st. has_width PP V \<longrightarrow> ensures s (value_post PP) (ev V DT b st)) \<and>
     (\<forall>V p b inc q st. has_width PP V \<longrightarrow> getPrecedence (getKind (PeekTok st)) = Some q \<longrightarrow>
        ensures s (loop_post PP p) (sub V p b inc q st))"

lemma sub_expr_ensures:
  assumes "calls_ensure s PP ev sub" "has_width PP V"
  shows "ensures s (loop_post PP p) (sub_expr sub V p b inc st)"
  unfolding sub_expr_def using assms by (intro ensures_check_operator) (simp add: calls_ensure_def)

lemma close_paren_ensures:
  "value_post PP (V, DT) st \<Longrightarrow> ensures s (value_post PP) (close_paren PP (V, DT) st)"
  by (simp add: close_paren_def value_post_def tracked_def)

lemma paren_rest_ensures:
  assumes "calls_ensure s PP ev sub" "value_post PP r st"
  shows "ensures s (value_post PP) (paren_rest PP sub b r st)"
proof -
  obtain V DT where r: "r = (V, DT)" by (cases r)
  have "ensures s (value_post PP) (close_paren PP (W, DT\<lparr>State := Unknown, IncludedUndefinedIds := inc\<rparr>) st')"
    if "loop_post PP 1 (W, inc) st'" for W inc st'
    using that by (intro close_paren_ensures) (simp add: value_post_def loop_post_def)
  then have "ensures s (value_post PP) (and_then (sub_expr sub V 1 b (IncludedUndefinedIds DT) st)
      (\<lambda>r. case r of (V, inc) \<Rightarrow> close_paren PP (V, DT\<lparr>State := Unknown, IncludedUndefinedIds := inc\<rparr>)))"
    using assms by (intro ensures_and_then [OF sub_expr_ensures [OF assms(1)]]) (auto simp: r value_post_def split: prod.split)
  then show ?thesis using assms(2) close_paren_ensures [of PP V DT st s] by (simp add: paren_rest_def r)
qed

lemma unary_ensures:
  assumes t: "target_ok PP val" and r: "value_post PP r st"
  shows "ensures s (value_post PP) (apply_plus r st)" "ensures s (value_post PP) (apply_minus PP b r st)"
    "ensures s (value_post PP) (apply_tilde PP r st)" "ensures s (value_post PP) (apply_exclaim PP r st)"
proof -
  obtain V DT where r': "r = (V, DT)" by (cases r)
  have A: "APSInt_ok (APInts PP) val" and w: "0 < getBitWidth (APInts PP) (bits (Val V))"
    "getBitWidth (APInts PP) (bits (Val V)) = IntMaxTWidth PP"
    using t r by (simp_all add: target_ok_def value_post_def has_width_def r')
  have u: "getBitWidth (APInts PP) (apint_neg (APInts PP) (bits (Val V))) = IntMaxTWidth PP"
    "getBitWidth (APInts PP) (apint_not (APInts PP) (bits (Val V))) = IntMaxTWidth PP"
    using APSInt_unary [OF A w(1)] w(2) by (simp_all add: unary_laws_def Let_def wraps_def)
  show "ensures s (value_post PP) (apply_plus r st)" using r by (simp add: r' apply_plus_def value_post_def tracked_def)
  show "ensures s (value_post PP) (apply_minus PP b r st)" "ensures s (value_post PP) (apply_tilde PP r st)"
    using u by (simp_all add: r' apply_minus_def apply_tilde_def Let_def value_post_def has_width_def)
  show "ensures s (value_post PP) (apply_exclaim PP r st)"
  proof (cases "State DT")
    case Unknown
    then show ?thesis using r assign_bool_zero [OF A w(1)] w(2)
      by (simp add: r' apply_exclaim_def value_post_def has_width_def negate_tracker_def)
  next
    case DefinedMacro
    then show ?thesis using r assign_bool_zero [OF A w(1)] w(2)
      by (auto simp: r' apply_exclaim_def value_post_def tracked_def has_width_def negate_tracker_def)
  next
    case NotDefinedMacro
    then show ?thesis using r assign_bool_zero [OF A w(1)] w(2)
      by (auto simp: r' apply_exclaim_def value_post_def tracked_def has_width_def negate_tracker_def)
  qed
qed

lemma value_body_ensures:
  assumes t: "target_ok PP val" and calls: "calls_ensure s PP ev sub" and v: "has_width PP V" and strict: "s \<longrightarrow> literals_ok PP"
  shows "ensures s (value_post PP) (value_body PP ev sub V DT b st)"
proof -
  let ?V = "V\<lparr>getIdentifier := None\<rparr>" and ?DT = "DT\<lparr>State := Unknown\<rparr>"
  define st1 where "st1 = first_token PP st"
  define operand where "operand = ev ?V ?DT b (LexNonComment PP st1)"
  have v': "has_width PP ?V" "State ?DT = Unknown" using v by simp_all
  have op: "ensures s (value_post PP) operand" using calls v' unfolding operand_def calls_ensure_def by blast
  note simple = eval_char_ensures [OF t v' strict, of st1] eval_identifier_ensures [OF t v', of s b st1]
    eval_bool_ensures [OF t v', of s st1]
  have unary: "ensures s (value_post PP) (and_then operand apply_plus)"
    "ensures s (value_post PP) (and_then operand (apply_minus PP b))"
    "ensures s (value_post PP) (and_then operand (apply_tilde PP))"
    "ensures s (value_post PP) (and_then operand (apply_exclaim PP))"
    "ensures s (value_post PP) (and_then operand (paren_rest PP sub b))"
    by (rule ensures_and_then [OF op], rule unary_ensures [OF t] paren_rest_ensures [OF calls], assumption)+
  have number: "ensures s (value_post PP) (eval_number PP ?V ?DT b st1)" if "getKind (PeekTok st1) = tok_numeric_constant"
    by (rule eval_number_ensures [OF t v' strict that])
  show ?thesis
    unfolding value_body_def Let_def st1_def [symmetric] operand_def [symmetric]
    using simple unary number by simp
qed

lemma rhs_operand_ensures:
  assumes calls: "calls_ensure s PP ev sub" and w: "w = IntMaxTWidth PP" and n: "has_width PP (new_value PP w)"
  shows "ensures s (loop_post PP P) (rhs_operand PP ev sub w P b inc st)"
  unfolding rhs_operand_def
proof (rule ensures_and_then)
  show "ensures s (value_post PP) (keep_flag inc (ev (new_value PP w) new_tracker b (LexNonComment PP st)))"
    using calls n by (simp add: calls_ensure_def)
  fix r s' assume r: "value_post PP r s'"
  show "ensures s (loop_post PP P) (case r of (RHS, DT) \<Rightarrow> let inc = IncludedUndefinedIds DT in
      check_operator RHS inc s' (\<lambda>q. if q \<ge> P then sub RHS P b inc q s' else Done (RHS, inc) s'))"
    using calls r
    by (auto simp: Let_def calls_ensure_def value_post_def loop_post_def intro!: ensures_check_operator split: prod.split)
qed

lemma after_colon_ensures:
  assumes calls: "calls_ensure s PP ev sub" and n: "has_width PP (new_value PP w)"
  shows "ensures s (loop_post PP P) (after_colon PP ev sub w P b inc st)"
  unfolding after_colon_def
proof (rule ensures_and_then)
  show "ensures s (value_post PP) (keep_flag inc (ev (new_value PP w) new_tracker b (LexNonComment PP st)))"
    using calls n by (simp add: calls_ensure_def)
  show "ensures s (loop_post PP P) (case r of (E, uu) \<Rightarrow> sub_expr sub E P b inc s')" if "value_post PP r s'" for r s'
    using that sub_expr_ensures [OF calls, of "fst r" P b inc s'] by (simp add: value_post_def split_beta)
qed

lemma next_turn_ensures:
  assumes "calls_ensure s PP ev sub" "has_width PP V" "getPrecedence (getKind (PeekTok st)) \<noteq> None"
  shows "ensures s (loop_post PP p) (next_turn sub V p b inc st)"
  using assms by (auto simp: next_turn_def calls_ensure_def)

lemma conditional_value_width:
  "getBitWidth (APInts PP) (bits R) = w \<Longrightarrow> getBitWidth (APInts PP) (bits E) = w \<Longrightarrow>
   getBitWidth (APInts PP) (bits (conditional_value PP L R E)) = w"
  by (simp add: conditional_value_def)

lemma combine_ensures:
  assumes t: "target_ok PP val" and calls: "calls_ensure s PP ev sub" and v: "has_width PP V"
    and r: "loop_post PP (rhs_precedence k P) r st" and P: "k = tok_question \<Longrightarrow> P = 4"
  shows "ensures s (loop_post PP p) (combine PP ev sub k P V p b r st)"
proof -
  obtain RHS inc where r': "r = (RHS, inc)" by (cases r)
  obtain q where q: "getPrecedence (getKind (PeekTok st)) = Some q" "q < rhs_precedence k P" "has_width PP RHS"
    using r by (auto simp: loop_post_def r')
  have le: "q \<le> P" using q(2) P by (auto simp: rhs_precedence_def getPrecedence_def split: if_splits)
  have A: "APSInt_ok (APInts PP) val" and i: "1 < IntMaxTWidth PP" using t by (simp_all add: target_ok_def)
  have n: "has_width PP (new_value PP (width_of PP V))"
    using v APInt_width(1) [OF A] by (simp add: has_width_def new_value_def apsint_new_def width_of_def)
  have colon: "ensures s (loop_post PP p) (and_then (after_colon PP ev sub (width_of PP V) P c inc st)
      (\<lambda>r. case r of (E, inc) \<Rightarrow>
         next_turn sub (V\<lparr>Val := conditional_value PP (Val V) (Val RHS) (Val E)\<rparr>) p b inc))" for c
  proof (rule ensures_and_then [OF after_colon_ensures [OF calls n]])
    fix x st' assume x: "loop_post PP P x st'"
    then have "has_width PP (V\<lparr>Val := conditional_value PP (Val V) (Val RHS) (Val (fst x))\<rparr>)"
      using q(3) by (simp add: has_width_def loop_post_def conditional_value_width)
    then show "ensures s (loop_post PP p) ((case x of (E, inc) \<Rightarrow>
        next_turn sub (V\<lparr>Val := conditional_value PP (Val V) (Val RHS) (Val E)\<rparr>) p b inc) st')"
      using x by (auto simp: loop_post_def split_beta intro!: next_turn_ensures [OF calls])
  qed
  have binary: "ensures s (loop_post PP p) (case apply_binary PP k b (Val V) (Val RHS) of
      (ds, None) \<Rightarrow> Failed inc (with_diags ds st)
    | (ds, Some v) \<Rightarrow> next_turn sub (V\<lparr>Val := v\<rparr>) p b inc (with_diags ds st))"
  proof -
    have "has_width PP (V\<lparr>Val := x\<rparr>)" if "apply_binary PP k b (Val V) (Val RHS) = (ds, Some x)" for ds x
      using apply_binary_width [OF A _ _ i that] v q(3) by (simp add: has_width_def)
    then show ?thesis using q(1) by (auto intro!: next_turn_ensures [OF calls] split: prod.split option.split)
  qed
  show ?thesis using colon binary q(1) le by (simp add: combine_def r')
qed

lemma loop_body_ensures:
  assumes t: "target_ok PP val" and calls: "calls_ensure s PP ev sub" and v: "has_width PP V"
    and q: "getPrecedence (getKind (PeekTok st)) = Some q"
  shows "ensures s (loop_post PP p) (loop_body PP ev sub V p b inc q st)"
proof (cases "q < p")
  case True
  then show ?thesis using v q by (simp add: loop_body_def loop_post_def)
next
  case False
  have A: "APSInt_ok (APInts PP) val" using t by (simp add: target_ok_def)
  have w: "width_of PP V = IntMaxTWidth PP" using v by (simp add: width_of_def has_width_def)
  have n: "has_width PP (new_value PP (width_of PP V))"
    using v APInt_width(1) [OF A] by (simp add: has_width_def new_value_def apsint_new_def width_of_def)
  have "getKind (PeekTok st) = tok_question \<Longrightarrow> q = 4" using q by (simp add: getPrecedence_def)
  note both = ensures_and_then [OF rhs_operand_ensures [OF calls w n] combine_ensures [OF t calls v _ this]]
  then show ?thesis using False by (simp add: loop_body_def Let_def)
qed

lemma evaluator_ensures:
  assumes t: "target_ok PP val" and strict: "s \<longrightarrow> literals_ok PP"
  shows "calls_ensure s PP (EvaluateValue fuel PP) (sub_expr_loop fuel PP)"
proof (induction fuel)
  case (Suc fuel)
  then show ?case
    using value_body_ensures [OF t Suc _ strict] loop_body_ensures [OF t Suc]
    unfolding calls_ensure_def EvaluateValue.simps by simp
qed (simp add: calls_ensure_def)

lemma start_ensures:
  assumes t: "target_ok PP val" and strict: "s \<longrightarrow> literals_ok PP"
  shows "ensures s (value_post PP) (EvaluateValue fuel PP (new_value PP (IntMaxTWidth PP)) DT True st)"
proof -
  have "has_width PP (new_value PP (IntMaxTWidth PP))"
    using t APInt_width(1) [of "APInts PP" val] by (simp add: target_ok_def has_width_def new_value_def apsint_new_def)
  then show ?thesis using evaluator_ensures [OF assms, of fuel] by (simp add: calls_ensure_def)
qed


section \<open>Examples\<close>

lemma line_pp_target: "target_ok (line_pp macros) apint_val"
  by (simp add: target_ok_def apsint_model_ok) (simp add: line_pp_def)

lemma line_pp_literals: "literals_ok (line_pp macros)"
  by (simp add: literals_ok_def) (simp add: line_pp_def sample_options_def hexDigitValue_model_ok split: if_splits)


end
