(* ===== verification/PPGrammar.thy ===== *)
theory PPGrammar
  imports PPInvariants
begin

text \<open>
  The evaluator of \<open>#if\<close> expressions against the grammar: it computes the value of the
  expression tree that the tokens are printed from.
\<close>

section \<open>More fuel changes nothing\<close>

definition more :: "('r, 'p) result \<Rightarrow> ('r, 'p) result \<Rightarrow> bool" where
  "more r r' \<longleftrightarrow> r = NoFuel \<or> r = r'"

lemma more_refl [simp, intro]: "more r r"
  by (simp add: more_def)

lemma more_trans: "more a b \<Longrightarrow> more b c \<Longrightarrow> more a c"
  by (auto simp: more_def)

lemma more_and_then: "more r r' \<Longrightarrow> (\<And>x st. r = Done x st \<Longrightarrow> more (k x st) (k' x st)) \<Longrightarrow> more (and_then r k) (and_then r' k')"
  by (cases r) (auto simp: more_def)

lemma more_keep_flag: "more r r' \<Longrightarrow> more (keep_flag inc r) (keep_flag inc r')"
  by (auto simp: more_def)

lemma more_check_operator:
  "(\<And>p. getPrecedence (getKind (PeekTok st)) = Some p \<Longrightarrow> more (k p) (k' p)) \<Longrightarrow>
   more (check_operator V inc st k) (check_operator V inc st k')"
  by (simp add: check_operator_def split: option.split)

text \<open>The loop is only called with a positive bound and with the precedence of the next token.\<close>

definition more_calls ::
  "('p, 'a) value_call \<Rightarrow> ('p, 'a) loop_call \<Rightarrow> ('p, 'a) value_call \<Rightarrow> ('p, 'a) loop_call \<Rightarrow> bool" where
  "more_calls ev sub ev' sub' \<longleftrightarrow> (\<forall>V DT b st. more (ev V DT b st) (ev' V DT b st)) \<and>
     (\<forall>V p b inc q st. 0 < p \<longrightarrow> getPrecedence (getKind (PeekTok st)) = Some q \<longrightarrow>
        more (sub V p b inc q st) (sub' V p b inc q st))"

lemma more_sub_expr:
  "more_calls ev sub ev' sub' \<Longrightarrow> 0 < p \<Longrightarrow> more (sub_expr sub V p b inc st) (sub_expr sub' V p b inc st)"
  unfolding sub_expr_def by (rule more_check_operator) (simp add: more_calls_def)

lemma more_next_turn:
  "more_calls ev sub ev' sub' \<Longrightarrow> 0 < p \<Longrightarrow> more (next_turn sub V p b inc st) (next_turn sub' V p b inc st)"
  unfolding next_turn_def by (simp add: more_calls_def split: option.split)

lemma more_paren_rest:
  "more_calls ev sub ev' sub' \<Longrightarrow> more (paren_rest PP sub b r st) (paren_rest PP sub' b r st)"
  unfolding paren_rest_def by (auto intro!: more_and_then more_sub_expr split: prod.split)

lemma more_value_body:
  assumes "more_calls ev sub ev' sub'"
  shows "more (value_body PP ev sub V DT b st) (value_body PP ev' sub' V DT b st)"
proof -
  have e: "more (ev W D c s) (ev' W D c s)" for W D c s using assms by (simp add: more_calls_def)
  then have u: "more (and_then (ev W D c s) apply_plus) (and_then (ev' W D c s) apply_plus)"
    "more (and_then (ev W D c s) (apply_minus PP b)) (and_then (ev' W D c s) (apply_minus PP b))"
    "more (and_then (ev W D c s) (apply_tilde PP)) (and_then (ev' W D c s) (apply_tilde PP))"
    "more (and_then (ev W D c s) (apply_exclaim PP)) (and_then (ev' W D c s) (apply_exclaim PP))"
    "more (and_then (ev W D c s) (paren_rest PP sub b)) (and_then (ev' W D c s) (paren_rest PP sub' b))" for W D c s
    by (auto intro!: more_and_then more_paren_rest [OF assms])
  show ?thesis unfolding value_body_def Let_def using u by simp
qed

lemma more_rhs_operand:
  assumes "more_calls ev sub ev' sub'" "0 < P"
  shows "more (rhs_operand PP ev sub w P b inc st) (rhs_operand PP ev' sub' w P b inc st)"
  unfolding rhs_operand_def Let_def using assms
  by (intro more_and_then more_keep_flag) (auto simp: more_calls_def intro!: more_check_operator split: prod.split)

lemma more_after_colon:
  assumes "more_calls ev sub ev' sub'" "0 < P"
  shows "more (after_colon PP ev sub w P b inc st) (after_colon PP ev' sub' w P b inc st)"
proof -
  have "more (ev W D c s) (ev' W D c s)" for W D c s using assms by (simp add: more_calls_def)
  then show ?thesis unfolding after_colon_def
    by (intro more_and_then more_keep_flag) (auto intro!: more_sub_expr [OF assms] split: prod.split)
qed

lemma more_combine:
  assumes "more_calls ev sub ev' sub'" "0 < p" "0 < P"
  shows "more (combine PP ev sub k P V p b r st) (combine PP ev' sub' k P V p b r st)"
proof -
  obtain RHS inc where r: "r = (RHS, inc)" by (cases r)
  note turn = more_next_turn [OF assms(1,2)]
  have "more (and_then (after_colon PP ev sub w P c inc st) (\<lambda>r. case r of (E, inc) \<Rightarrow> next_turn sub (f E) p b inc))
     (and_then (after_colon PP ev' sub' w P c inc st) (\<lambda>r. case r of (E, inc) \<Rightarrow> next_turn sub' (f E) p b inc))" for w c f
    by (rule more_and_then [OF more_after_colon [OF assms(1,3)]]) (auto intro: turn split: prod.split)
  then show ?thesis using turn by (auto simp: combine_def r split: prod.split option.split)
qed

lemma more_loop_body:
  assumes calls: "more_calls ev sub ev' sub'" and p: "0 < p"
  shows "more (loop_body PP ev sub V p b inc q st) (loop_body PP ev' sub' V p b inc q st)"
proof (cases "q < p")
  case False
  have "0 < rhs_precedence k q" for k by (simp add: rhs_precedence_def getPrecedence_def)
  moreover have "0 < q" using False p by simp
  ultimately show ?thesis using False unfolding loop_body_def Let_def
    by (simp add: more_and_then more_rhs_operand [OF calls] more_combine [OF calls p])
qed (simp add: loop_body_def)

lemma more_step: "more_calls (EvaluateValue n PP) (sub_expr_loop n PP) (EvaluateValue (Suc n) PP) (sub_expr_loop (Suc n) PP)"
proof (induction n)
  case 0
  show ?case by (simp only: more_calls_def EvaluateValue.simps) (simp add: more_def)
next
  case (Suc n)
  then show ?case
    using more_value_body [OF Suc, of PP] more_loop_body [OF Suc, of _ PP]
    by (subst more_calls_def, subst (2) EvaluateValue.simps, subst (2) EvaluateValue.simps) simp
qed

lemma more_calls_trans:
  assumes "more_calls a b c d" "more_calls c d e f"
  shows "more_calls a b e f"
  unfolding more_calls_def
proof (intro conjI allI impI)
  show "more (a V DT l st) (e V DT l st)" for V DT l st
    by (rule more_trans [of _ "c V DT l st"]) (use assms in \<open>simp_all add: more_calls_def\<close>)
  show "more (b V p l inc q st) (f V p l inc q st)"
    if "0 < p" "getPrecedence (getKind (PeekTok st)) = Some q" for V p l inc q st
    by (rule more_trans [of _ "d V p l inc q st"]) (use assms that in \<open>simp_all add: more_calls_def\<close>)
qed

lemma more_le: "n \<le> n' \<Longrightarrow> more_calls (EvaluateValue n PP) (sub_expr_loop n PP) (EvaluateValue n' PP) (sub_expr_loop n' PP)"
proof (induction n' rule: dec_induct)
  case (step n')
  then show ?case using more_calls_trans more_step by blast
qed (simp add: more_calls_def)

text \<open>The two functions with as much fuel as the line needs.\<close>

definition value_at :: "('p, 'a) preprocessor \<Rightarrow> ('p \<Rightarrow> nat) \<Rightarrow> ('p, 'a) value_call" where
  "value_at PP m V DT b st = EvaluateValue (Suc (left_over m st)) PP V DT b st"

definition loop_at :: "('p, 'a) preprocessor \<Rightarrow> ('p \<Rightarrow> nat) \<Rightarrow> ('p, 'a) loop_call" where
  "loop_at PP m V p b inc q st = sub_expr_loop (Suc (left_over m st)) PP V p b inc q st"

lemma more_equal: "more r r' \<Longrightarrow> leaves m n k r \<Longrightarrow> r' = r"
  by (auto simp: more_def)

lemma at_result:
  assumes "finite_line PP m" "left_over m st < f"
  shows "\<exists>n k. leaves m n k (EvaluateValue f PP V DT b st)"
    "0 < p \<Longrightarrow> getPrecedence (getKind (PeekTok st)) = Some q \<Longrightarrow> \<exists>n k. leaves m n k (sub_expr_loop f PP V p b inc q st)"
  using evaluator_leaves [OF assms(1), of f] assms(2) unfolding calls_leave_def by blast+

lemma at_fuel:
  assumes "finite_line PP m" "left_over m st < f"
  shows "EvaluateValue f PP V DT b st = value_at PP m V DT b st"
    "0 < p \<Longrightarrow> getPrecedence (getKind (PeekTok st)) = Some q \<Longrightarrow> sub_expr_loop f PP V p b inc q st = loop_at PP m V p b inc q st"
proof -
  have c: "more_calls (EvaluateValue (Suc (left_over m st)) PP) (sub_expr_loop (Suc (left_over m st)) PP)
      (EvaluateValue f PP) (sub_expr_loop f PP)" using assms(2) by (intro more_le) simp
  have l: "left_over m st < Suc (left_over m st)" by simp
  show "EvaluateValue f PP V DT b st = value_at PP m V DT b st"
    using c at_result(1) [OF assms(1) l, of V DT b] more_equal unfolding value_at_def more_calls_def by blast
  show "sub_expr_loop f PP V p b inc q st = loop_at PP m V p b inc q st"
    if "0 < p" "getPrecedence (getKind (PeekTok st)) = Some q"
    using c that at_result(2) [OF assms(1) l that] more_equal unfolding loop_at_def more_calls_def by blast
qed

lemma more_at:
  assumes fin: "finite_line PP m"
  shows "more_calls (EvaluateValue n PP) (sub_expr_loop n PP) (value_at PP m) (loop_at PP m)"
  unfolding more_calls_def
proof (intro conjI allI impI)
  show "more (EvaluateValue n PP V DT b st) (value_at PP m V DT b st)" for V DT b st
  proof (cases "left_over m st < n")
    case True
    then show ?thesis using at_fuel(1) [OF fin True] by simp
  next
    case False
    then show ?thesis using more_le [of n "Suc (left_over m st)" PP] by (simp add: more_calls_def value_at_def)
  qed
  show "more (sub_expr_loop n PP V p b inc q st) (loop_at PP m V p b inc q st)"
    if q: "0 < p" "getPrecedence (getKind (PeekTok st)) = Some q" for V p b inc q st
  proof (cases "left_over m st < n")
    case True
    then show ?thesis using at_fuel(2) [OF fin True q] by simp
  next
    case False
    then show ?thesis using more_le [of n "Suc (left_over m st)" PP] q by (simp add: more_calls_def loop_at_def)
  qed
qed

lemma value_at_body:
  assumes fin: "finite_line PP m"
  shows "value_at PP m V DT b st = value_body PP (value_at PP m) (loop_at PP m) V DT b st"
proof -
  let ?n = "left_over m st"
  have c: "more (EvaluateValue (Suc ?n) PP V DT b st) (value_body PP (value_at PP m) (loop_at PP m) V DT b st)"
    unfolding EvaluateValue.simps by (rule more_value_body [OF more_at [OF fin]])
  obtain n k where l: "leaves m n k (EvaluateValue (Suc ?n) PP V DT b st)"
    using at_result(1) [OF fin, of st "Suc ?n" V DT b] by auto
  show ?thesis using more_equal [OF c l] by (simp only: value_at_def [of PP m V])
qed

lemma loop_at_body:
  assumes fin: "finite_line PP m" and q: "0 < p" "getPrecedence (getKind (PeekTok st)) = Some q"
  shows "loop_at PP m V p b inc q st = loop_body PP (value_at PP m) (loop_at PP m) V p b inc q st"
proof -
  let ?n = "left_over m st"
  have c: "more (sub_expr_loop (Suc ?n) PP V p b inc q st) (loop_body PP (value_at PP m) (loop_at PP m) V p b inc q st)"
    unfolding sub_expr_loop.simps by (rule more_loop_body [OF more_at [OF fin] q(1)])
  obtain n k where l: "leaves m n k (sub_expr_loop (Suc ?n) PP V p b inc q st)"
    using at_result(2) [OF fin _ q, of "Suc ?n" V b inc] by auto
  show ?thesis using more_equal [OF c l] by (simp only: loop_at_def [of PP m V])
qed

section \<open>Expression trees\<close>

text \<open>
  The tokens of an expression are kept in the tree.  A printed token comes with whether it is lexed without
  macro expansion, as the operand of \<open>defined\<close> is.
\<close>

datatype pexpr =
    Simple pp_token
  | Defd pp_token pp_token
  | DefdParen pp_token pp_token pp_token pp_token
  | Parens pp_token pexpr pp_token
  | Unary pp_token pexpr
  | Binary pexpr pp_token pexpr
  | Choice pexpr pp_token pexpr pp_token pexpr

fun spell :: "pexpr \<Rightarrow> (bool \<times> pp_token) list" where
  "spell (Simple t) = [(False, t)]"
| "spell (Defd d x) = [(False, d), (True, x)]"
| "spell (DefdParen d lp x rp) = [(False, d), (True, lp), (True, x), (True, rp)]"
| "spell (Parens lp e rp) = (False, lp) # spell e @ [(False, rp)]"
| "spell (Unary t e) = (False, t) # spell e"
| "spell (Binary l t r) = spell l @ (False, t) # spell r"
| "spell (Choice c q a k b) = spell c @ (False, q) # spell a @ (False, k) # spell b"

definition precedence_of :: "pp_token \<Rightarrow> nat" where
  "precedence_of t = the (getPrecedence (getKind t))"

text \<open>The level of the grammar, and the strongest operator that may follow.\<close>

fun level :: "pexpr \<Rightarrow> nat" where
  "level (Binary l t r) = precedence_of t"
| "level (Choice c q a k b) = 4"
| "level _ = 15"

fun right_level :: "pexpr \<Rightarrow> nat" where
  "right_level (Choice c q a k b) = 3"
| "right_level e = level e"

definition falls_through :: "tok_kind \<Rightarrow> bool" where
  "falls_through k \<longleftrightarrow> \<not> is_char_kind k \<and> k \<notin> {tok_eod, tok_r_paren, tok_numeric_constant, tok_l_paren, tok_plus,
     tok_minus, tok_tilde, tok_exclaim, tok_kw_true, tok_kw_false, tok_code_completion}"

definition names_defined :: "pp_token \<Rightarrow> bool" where
  "names_defined t \<longleftrightarrow> (case getIdentifierInfo t of None \<Rightarrow> False | Some II \<Rightarrow> getName II = ''defined'')"

definition binary_kind :: "tok_kind \<Rightarrow> bool" where
  "binary_kind k \<longleftrightarrow> k \<noteq> tok_question \<and> (case getPrecedence k of None \<Rightarrow> False | Some p \<Rightarrow> 3 \<le> p)"

fun grammatical :: "pexpr \<Rightarrow> bool" where
  "grammatical (Simple t) \<longleftrightarrow> getKind t \<in> {tok_numeric_constant, tok_kw_true, tok_kw_false} \<or> is_char_kind (getKind t) \<or>
     falls_through (getKind t) \<and> \<not> names_defined t"
| "grammatical (Defd d x) \<longleftrightarrow> falls_through (getKind d) \<and> names_defined d \<and> getKind x \<notin> {tok_l_paren, tok_code_completion}"
| "grammatical (DefdParen d lp x rp) \<longleftrightarrow> falls_through (getKind d) \<and> names_defined d \<and> getKind lp = tok_l_paren \<and>
     getKind x \<noteq> tok_code_completion \<and> getKind rp = tok_r_paren"
| "grammatical (Parens lp e rp) \<longleftrightarrow> getKind lp = tok_l_paren \<and> grammatical e \<and> getKind rp = tok_r_paren"
| "grammatical (Unary t e) \<longleftrightarrow> getKind t \<in> {tok_plus, tok_minus, tok_tilde, tok_exclaim} \<and> grammatical e \<and> level e = 15"
| "grammatical (Binary l t r) \<longleftrightarrow> binary_kind (getKind t) \<and> grammatical l \<and> grammatical r \<and>
     precedence_of t \<le> right_level l \<and> precedence_of t < level r"
| "grammatical (Choice c q a k b) \<longleftrightarrow> getKind q = tok_question \<and> getKind k = tok_colon \<and>
     grammatical c \<and> grammatical a \<and> grammatical b \<and> 5 \<le> right_level c \<and> 3 \<le> level a \<and> 4 \<le> level b"

section \<open>The value of a tree\<close>

text \<open>
  Which \<open>IncludedUndefinedIds\<close> an evaluation goes by: that of the first value (\<open>Own\<close>), the caller's if the first
  value is an error (\<open>Rhs\<close>), or the caller's (\<open>Colon\<close>, the operand after a colon).
\<close>

datatype flag_use = Own | Rhs bool | Colon bool

fun first_value :: "flag_use \<Rightarrow> ('a pp_value \<times> defined_tracker, 'p) result \<Rightarrow> ('a pp_value \<times> defined_tracker, 'p) result" where
  "first_value Own r = r"
| "first_value (Rhs inc) r = keep_flag inc r"
| "first_value (Colon inc) r =
     and_then (keep_flag inc r) (\<lambda>r. case r of (V, DT) \<Rightarrow> Done (V, DT\<lparr>IncludedUndefinedIds := inc\<rparr>))"

definition leaf_value :: "('p, 'a) preprocessor \<Rightarrow> ('p, 'a) value_call" where
  "leaf_value PP V DT b st =
     (let DT = DT\<lparr>State := Unknown\<rparr>; V = V\<lparr>getIdentifier := None\<rparr>; k = getKind (PeekTok st) in
      if k = tok_numeric_constant then eval_number PP V DT b st
      else if is_char_kind k then eval_char PP V DT st
      else if k = tok_kw_true \<or> k = tok_kw_false then eval_bool PP V DT st
      else eval_identifier PP V DT b st)"

definition apply_unary ::
  "('p, 'a) preprocessor \<Rightarrow> tok_kind \<Rightarrow> bool \<Rightarrow> 'a pp_value \<times> defined_tracker \<Rightarrow> 'p pp_state \<Rightarrow>
   ('a pp_value \<times> defined_tracker, 'p) result" where
  "apply_unary PP k b =
     (if k = tok_plus then apply_plus else if k = tok_minus then apply_minus PP b
      else if k = tok_tilde then apply_tilde PP else apply_exclaim PP)"

definition binary_value ::
  "('p, 'a) preprocessor \<Rightarrow> tok_kind \<Rightarrow> bool \<Rightarrow> 'a pp_value \<times> defined_tracker \<Rightarrow> 'a pp_value \<times> defined_tracker \<Rightarrow>
   'p pp_state \<Rightarrow> ('a pp_value \<times> defined_tracker, 'p) result" where
  "binary_value PP k b l r st =
     (let inc = IncludedUndefinedIds (snd r) in
      case apply_binary PP k b (Val (fst l)) (Val (fst r)) of
        (ds, None) \<Rightarrow> Failed inc (with_diags ds st)
      | (ds, Some v) \<Rightarrow> Done ((fst l)\<lparr>Val := v\<rparr>, (snd l)\<lparr>State := Unknown, IncludedUndefinedIds := inc\<rparr>) (with_diags ds st))"

definition choice_value ::
  "('p, 'a) preprocessor \<Rightarrow> 'a pp_value \<times> defined_tracker \<Rightarrow> 'a pp_value \<times> defined_tracker \<Rightarrow>
   'a pp_value \<times> defined_tracker \<Rightarrow> 'p pp_state \<Rightarrow> ('a pp_value \<times> defined_tracker, 'p) result" where
  "choice_value PP c a e st =
     Done ((fst c)\<lparr>Val := conditional_value PP (Val (fst c)) (Val (fst a)) (Val (fst e))\<rparr>,
       (snd c)\<lparr>State := Unknown, IncludedUndefinedIds := IncludedUndefinedIds (snd e)\<rparr>) st"

fun tree_value :: "('p, 'a) preprocessor \<Rightarrow> flag_use \<Rightarrow> pexpr \<Rightarrow> ('p, 'a) value_call" where
  "tree_value PP F (Simple t) V DT b st = first_value F (leaf_value PP V DT b st)"
| "tree_value PP F (Defd d x) V DT b st = first_value F (leaf_value PP V DT b st)"
| "tree_value PP F (DefdParen d lp x rp) V DT b st = first_value F (leaf_value PP V DT b st)"
| "tree_value PP F (Parens lp e rp) V DT b st =
     first_value F (and_then
       (tree_value PP Own e (V\<lparr>getIdentifier := None\<rparr>) (DT\<lparr>State := Unknown\<rparr>) b (LexNonComment PP st)) (close_paren PP))"
| "tree_value PP F (Unary t e) V DT b st =
     first_value F (and_then
       (tree_value PP Own e (V\<lparr>getIdentifier := None\<rparr>) (DT\<lparr>State := Unknown\<rparr>) b (LexNonComment PP st))
       (apply_unary PP (getKind t) b))"
| "tree_value PP F (Binary l t r) V DT b st =
     and_then (tree_value PP F l V DT b st) (\<lambda>x st.
     and_then (tree_value PP (Rhs (IncludedUndefinedIds (snd x))) r (new_value PP (width_of PP (fst x))) new_tracker
         (rhs_is_live PP (getKind t) b (Val (fst x))) (LexNonComment PP st))
       (binary_value PP (getKind t) b x))"
| "tree_value PP F (Choice c q a k e) V DT b st =
     and_then (tree_value PP F c V DT b st) (\<lambda>x st.
     and_then (tree_value PP (Rhs (IncludedUndefinedIds (snd x))) a (new_value PP (width_of PP (fst x))) new_tracker
         (rhs_is_live PP tok_question b (Val (fst x))) (LexNonComment PP st)) (\<lambda>y st.
     and_then (tree_value PP (Colon (IncludedUndefinedIds (snd y))) e (new_value PP (width_of PP (fst x))) new_tracker
         (b \<and> is_zero PP (Val (fst x))) (LexNonComment PP st))
       (choice_value PP x y)))"

section \<open>Where the lexer stands\<close>

fun delivers :: "('p, 'a) preprocessor \<Rightarrow> 'p \<Rightarrow> (bool \<times> pp_token) list \<Rightarrow> bool" where
  "delivers PP p [] \<longleftrightarrow> True"
| "delivers PP p ((unexpanded, t) # ts) \<longleftrightarrow>
     (case (if unexpanded then Lex_UnexpandedNonComment PP False p else Lex_NonComment PP False p) of
        (t', p') \<Rightarrow> t' = t \<and> delivers PP p' ts)"

text \<open>The next token is the first of the list, and the lexer delivers the others.\<close>

definition stands :: "('p, 'a) preprocessor \<Rightarrow> 'p pp_state \<Rightarrow> (bool \<times> pp_token) list \<Rightarrow> bool" where
  "stands PP st ts \<longleftrightarrow> (case ts of [] \<Rightarrow> False
     | t # ts \<Rightarrow> PeekTok st = snd t \<and> \<not> DisableMacroExpansion st \<and> delivers PP (pp_rest st) ts)"

lemma stands_peek: "stands PP st ((u, t) # ts) \<Longrightarrow> PeekTok st = t"
  by (simp add: stands_def)

lemma stands_Lex:
  "stands PP st (x # (False, t) # ts) \<Longrightarrow> stands PP (LexNonComment PP st) ((False, t) # ts)"
  "stands PP st (x # (True, t) # ts) \<Longrightarrow> stands PP (LexUnexpandedNonComment PP st) ((True, t) # ts)"
  by (auto simp: stands_def LexNonComment_def LexUnexpandedNonComment_def split: prod.splits)

lemma spell_nonempty: "\<exists>t ts. spell e = (False, t) # ts"
  by (induction e) auto

text \<open>States that only differ in the diagnostics.\<close>

definition same_input :: "'p pp_state \<Rightarrow> 'p pp_state \<Rightarrow> bool" where
  "same_input st st' \<longleftrightarrow> pp_rest st' = pp_rest st \<and> PeekTok st' = PeekTok st \<and>
     DisableMacroExpansion st' = DisableMacroExpansion st"

lemma same_input_stands: "same_input st st' \<Longrightarrow> stands PP st' ts = stands PP st ts"
  by (simp add: same_input_def stands_def split: list.split)

lemma same_input_refl [simp]: "same_input st st"
  by (simp add: same_input_def)

lemma same_input_trans: "same_input a b \<Longrightarrow> same_input b c \<Longrightarrow> same_input a c"
  by (simp add: same_input_def)

lemma same_input_diags [simp]:
  "same_input st (Diag d st') = same_input st st'" "same_input st (with_diags ds st') = same_input st st'"
  "same_input st (note_literal L st') = same_input st st'" "same_input st (longlong_warning PP L st') = same_input st st'"
  "same_input st (undef_warnings PP II st') = same_input st st'" "same_input st (defined_in_macro origin st') = same_input st st'"
  by (simp_all add: same_input_def Diag_def with_diags_def note_literal_def longlong_warning_def undef_warnings_def
      Let_def defined_in_macro_def split: option.split)

lemma same_input_integer: "integer_value PP L r b st = (v, st') \<Longrightarrow> same_input st st'"
  by (auto simp: integer_value_def split: prod.splits if_splits)

text \<open>A literal takes one token.\<close>

definition one_token :: "('p, 'a) preprocessor \<Rightarrow> 'p pp_state \<Rightarrow> ('r, 'p) result \<Rightarrow> bool" where
  "one_token PP st r \<longleftrightarrow> (\<forall>x st'. r = Done x st' \<longrightarrow> (\<exists>st1. same_input st st1 \<and> st' = LexNonComment PP st1))"

lemma one_token_Done [simp]: "same_input st st1 \<Longrightarrow> one_token PP st (Done x (LexNonComment PP st1))"
  by (auto simp: one_token_def)

lemma one_token_error [simp]: "one_token PP st NoFuel" "one_token PP st AssertFails" "one_token PP st (Failed inc st')"
  by (simp_all add: one_token_def)

lemma one_token_integer:
  assumes "same_input st st1"
  shows "one_token PP st (integer_literal PP s L V DT b st1)"
proof (cases "GetIntegerValue (apint_ops.truncate (APInts PP)) (hexDigits PP) s L (bits (Val V))")
  case (Some r)
  define st2 where "st2 = longlong_warning PP L (if saw_ud_suffix L then Diag err_pp_invalid_udl st1 else st1)"
  obtain v st3 where v: "integer_value PP L r b st2 = (v, st3)" by (metis surj_pair)
  have "same_input st st2" using assms by (simp add: st2_def)
  then have "same_input st st3" using same_input_integer [OF v] by (rule same_input_trans)
  then show ?thesis using Some v by (simp add: integer_literal_def Let_def st2_def [symmetric])
qed (simp add: integer_literal_def Let_def)

lemma one_token_leaf:
  assumes "getKind (PeekTok st) \<in> {tok_numeric_constant, tok_kw_true, tok_kw_false} \<or> is_char_kind (getKind (PeekTok st)) \<or>
     \<not> names_defined (PeekTok st)"
  shows "one_token PP st (leaf_value PP V DT b st)"
proof -
  have n: "one_token PP st (eval_number PP W D c st)" for W D c
    by (simp add: eval_number_def Let_def one_token_integer split: option.split)
  have c: "one_token PP st (eval_char PP W D st)" for W D
    by (simp add: eval_char_def Let_def split: option.split)
  have b: "one_token PP st (eval_bool PP W D st)" for W D
    by (simp add: eval_bool_def)
  have i: "one_token PP st (eval_identifier PP W D c st)" if "\<not> names_defined (PeekTok st)" for W D c
    using that by (auto simp: eval_identifier_def names_defined_def split: option.split)
  show ?thesis using n c b i assms by (auto simp: leaf_value_def Let_def)
qed

lemma leaf_stands:
  assumes "one_token PP st r" "r = Done x st'" "stands PP st (y # (False, t) # ts)"
  shows "stands PP st' ((False, t) # ts)"
proof -
  obtain st1 where "same_input st st1" "st' = LexNonComment PP st1" using assms(1,2) by (auto simp: one_token_def)
  then show ?thesis using stands_Lex(1) [of PP st1] assms(3) by (simp add: same_input_stands)
qed

lemma CheckMacroName_same: "CheckMacroName PP st = (b, st') \<Longrightarrow> same_input st st'"
  by (auto simp: CheckMacroName_def same_input_def Diag_def split: if_splits option.splits)

lemma defined_name_stands:
  assumes s: "stands PP st ((u, x) # (if LParen then [(True, rp)] else []) @ (False, t) # ts)"
    and r: "defined_name PP d LParen V DT st = Done y st'"
  shows "stands PP st' ((False, t) # ts)"
proof -
  obtain b st1 where c: "CheckMacroName PP st = (b, st1)" by (metis surj_pair)
  note s1 = s [folded same_input_stands [OF CheckMacroName_same [OF c]]]
  have b: "\<not> b" using r c by (cases b) (auto simp: defined_name_def)
  define st2 where "st2 = (if LParen then LexUnexpandedNonComment PP st1 else st1)"
  have "stands PP st2 ((if LParen then (True, rp) else (u, x)) # (False, t) # ts)"
    using s1 stands_Lex(2) [of PP st1 "(u, x)" rp "(False, t) # ts"] by (cases LParen) (simp_all add: st2_def)
  then have "stands PP (LexNonComment PP st2) ((False, t) # ts)" by (rule stands_Lex(1))
  moreover have "st' = defined_in_macro (from_macro d) (LexNonComment PP st2)"
    using r b c by (auto simp: defined_name_def Let_def st2_def split: if_splits)
  ultimately show ?thesis
    using same_input_stands [of "LexNonComment PP st2" "defined_in_macro (from_macro d) (LexNonComment PP st2)" PP] by simp
qed

lemma EvaluateDefined_name:
  assumes s: "stands PP st (y # (if LParen then [(True, lp)] else []) @ (True, x) # (if LParen then [(True, rp)] else []) @ (False, t) # ts)"
    and k: "if LParen then getKind lp = tok_l_paren else getKind x \<noteq> tok_l_paren" "getKind x \<noteq> tok_code_completion"
  shows "\<exists>st2. EvaluateDefined PP V DT st = defined_name PP (PeekTok st) LParen V DT st2 \<and>
    stands PP st2 ((True, x) # (if LParen then [(True, rp)] else []) @ (False, t) # ts)"
proof -
  define st1 where "st1 = LexUnexpandedNonComment PP st"
  define st2 where "st2 = (if LParen then LexUnexpandedNonComment PP st1 else st1)"
  have "peek_is tok_l_paren st1 = LParen \<and>
      stands PP st2 ((True, x) # (if LParen then [(True, rp)] else []) @ (False, t) # ts)"
  proof (cases LParen)
    case True
    then have s1: "stands PP st1 ((True, lp) # (True, x) # (True, rp) # (False, t) # ts)"
      using s stands_Lex(2) by (simp add: st1_def)
    show ?thesis using stands_Lex(2) [OF s1] stands_peek [OF s1] True k(1) by (simp add: peek_is_def st2_def)
  next
    case False
    then have s1: "stands PP st1 ((True, x) # (False, t) # ts)" using s stands_Lex(2) by (simp add: st1_def)
    then show ?thesis using stands_peek [OF s1] False k(1) by (simp add: peek_is_def st2_def)
  qed
  then have p: "peek_is tok_l_paren st1 = LParen"
    and s2: "stands PP st2 ((True, x) # (if LParen then [(True, rp)] else []) @ (False, t) # ts)" by simp_all
  from s2 have "\<not> peek_is tok_code_completion st2" using k(2) by (simp add: peek_is_def stands_peek)
  then have "EvaluateDefined PP V DT st = defined_name PP (PeekTok st) LParen V DT st2"
    using p by (simp add: EvaluateDefined_def Let_def st1_def st2_def cong: if_cong)
  then show ?thesis using s2 by blast
qed

lemma EvaluateDefined_stands:
  assumes s: "stands PP st (y # (if LParen then [(True, lp)] else []) @ (True, x) # (if LParen then [(True, rp)] else []) @ (False, t) # ts)"
    and k: "if LParen then getKind lp = tok_l_paren else getKind x \<noteq> tok_l_paren" "getKind x \<noteq> tok_code_completion"
    and r: "EvaluateDefined PP V DT st = Done z st'"
  shows "stands PP st' ((False, t) # ts)"
  using EvaluateDefined_name [OF s k, of V DT] defined_name_stands r by metis

lemma defined_name_runs:
  assumes s: "stands PP st ((u, x) # (if LParen then [(True, rp)] else []) @ (False, t) # ts)"
    and x: "getIdentifierInfo x = Some II" "getKind x \<noteq> tok_eod" and rp: "getKind rp = tok_r_paren"
  shows "\<exists>V' D st'. defined_name PP d LParen V DT st = Done (V', D) st' \<and> State D = DefinedMacro \<and> TheMacro D = Some II"
proof -
  have p: "PeekTok st = x" by (rule stands_peek [OF s])
  obtain st1 where c: "CheckMacroName PP st = (False, st1)" using x p by (auto simp: CheckMacroName_def peek_is_def)
  note s1 = s [folded same_input_stands [OF CheckMacroName_same [OF c]]]
  have "PeekTok st1 = x" by (rule stands_peek [OF s1])
  moreover have "peek_is tok_r_paren (LexUnexpandedNonComment PP st1)" if LParen
  proof -
    have "stands PP (LexUnexpandedNonComment PP st1) ((True, rp) # (False, t) # ts)" using s1 that stands_Lex(2) by simp
    then show ?thesis using rp by (simp add: peek_is_def stands_peek)
  qed
  ultimately show ?thesis using c x(1) by (simp add: defined_name_def Let_def)
qed

lemma leaf_is_defined:
  "falls_through (getKind (PeekTok st)) \<Longrightarrow> names_defined (PeekTok st) \<Longrightarrow>
   leaf_value PP V DT b st = EvaluateDefined PP (V\<lparr>getIdentifier := None\<rparr>) (DT\<lparr>State := Unknown\<rparr>) st"
  by (auto simp: leaf_value_def falls_through_def names_defined_def eval_identifier_def Let_def split: option.splits)

section \<open>Precedence climbing\<close>

lemma and_then_assoc: "and_then (and_then r f) g = and_then r (\<lambda>x st. and_then (f x st) g)"
  by (cases r) auto

lemma and_then_cong: "(\<And>x st. r = Done x st \<Longrightarrow> f x st = g x st) \<Longrightarrow> and_then r f = and_then r g"
  by (cases r) auto

lemma first_value_Done:
  "first_value F r = Done x st \<Longrightarrow> \<exists>y. r = Done y st \<and> fst x = fst y \<and> State (snd x) = State (snd y)"
  by (cases F; cases r) auto

lemma leaf_kinds:
  "is_char_kind k \<Longrightarrow> k \<notin> {tok_eod, tok_r_paren, tok_numeric_constant, tok_l_paren, tok_plus, tok_minus, tok_tilde,
     tok_exclaim, tok_kw_true, tok_kw_false, tok_code_completion}"
  by (auto simp: is_char_kind_def)

text \<open>A value without calls is that of its leaf.\<close>

lemma value_body_leaf:
  assumes "getKind (PeekTok st) \<in> {tok_numeric_constant, tok_kw_true, tok_kw_false} \<or>
    is_char_kind (getKind (PeekTok st)) \<or> falls_through (getKind (PeekTok st))"
  shows "value_body PP ev sub V DT b st = leaf_value PP V DT b st"
proof -
  have k: "getKind (PeekTok st) \<notin> {tok_eod, tok_r_paren, tok_l_paren, tok_plus, tok_minus, tok_tilde, tok_exclaim, tok_code_completion}"
    using assms leaf_kinds [of "getKind (PeekTok st)"] unfolding falls_through_def by (elim disjE) auto
  then have "first_token PP st = st" by (simp add: first_token_def peek_is_def)
  then show ?thesis using k unfolding value_body_def leaf_value_def Let_def by simp
qed

lemma value_body_paren:
  "getKind (PeekTok st) = tok_l_paren \<Longrightarrow> value_body PP ev sub V DT b st =
    and_then (ev (V\<lparr>getIdentifier := None\<rparr>) (DT\<lparr>State := Unknown\<rparr>) b (LexNonComment PP st)) (paren_rest PP sub b)"
  by (simp add: value_body_def first_token_def peek_is_def is_char_kind_def Let_def)

lemma value_body_unary:
  "getKind (PeekTok st) \<in> {tok_plus, tok_minus, tok_tilde, tok_exclaim} \<Longrightarrow> value_body PP ev sub V DT b st =
    and_then (ev (V\<lparr>getIdentifier := None\<rparr>) (DT\<lparr>State := Unknown\<rparr>) b (LexNonComment PP st))
      (apply_unary PP (getKind (PeekTok st)) b)"
  by (elim insertE emptyE) (simp_all add: value_body_def first_token_def peek_is_def is_char_kind_def apply_unary_def Let_def)

text \<open>The loop on a value, and the tracker put back.\<close>

definition plain :: "('p, 'a) preprocessor \<Rightarrow> ('p \<Rightarrow> nat) \<Rightarrow> nat \<Rightarrow> bool \<Rightarrow> 'a pp_value \<times> defined_tracker \<Rightarrow> 'p pp_state \<Rightarrow>
   ('a pp_value \<times> bool, 'p) result" where
  "plain PP m p b x st = sub_expr (loop_at PP m) (fst x) p b (IncludedUndefinedIds (snd x)) st"

definition rejoin :: "defined_tracker \<Rightarrow> 'a pp_value \<times> bool \<Rightarrow> 'p pp_state \<Rightarrow> ('a pp_value \<times> defined_tracker, 'p) result" where
  "rejoin DT x st = Done (fst x, DT\<lparr>State := Unknown, IncludedUndefinedIds := snd x\<rparr>) st"

definition split_flag :: "'a pp_value \<times> defined_tracker \<Rightarrow> 'p pp_state \<Rightarrow> ('a pp_value \<times> bool, 'p) result" where
  "split_flag x st = Done (fst x, IncludedUndefinedIds (snd x)) st"

definition run :: "('p, 'a) preprocessor \<Rightarrow> ('p \<Rightarrow> nat) \<Rightarrow> nat \<Rightarrow> bool \<Rightarrow> 'a pp_value \<times> defined_tracker \<Rightarrow> 'p pp_state \<Rightarrow>
   ('a pp_value \<times> defined_tracker, 'p) result" where
  "run PP m p b x st = and_then (plain PP m p b x st) (rejoin (snd x))"

lemma rejoin_split: "and_then (and_then r (rejoin DT)) split_flag = r"
  by (cases r) (auto simp: rejoin_def split_flag_def)

lemma plain_run: "plain PP m p b x st = and_then (run PP m p b x st) split_flag"
  by (simp add: run_def rejoin_split)

text \<open>Where the next operator is too weak, the loop is over.\<close>

lemma plain_stops:
  assumes "finite_line PP m" "getPrecedence (getKind (PeekTok st)) = Some q" "q < p"
  shows "plain PP m p b x st = Done (fst x, IncludedUndefinedIds (snd x)) st"
    "run PP m p b x st = Done (fst x, (snd x)\<lparr>State := Unknown\<rparr>) st"
  using assms loop_at_body [OF assms(1) _ assms(2), of p]
  by (simp_all add: plain_def run_def sub_expr_def check_operator_def loop_body_def rejoin_def)

lemma atom_value: "grammatical e \<Longrightarrow> level e = 15 \<Longrightarrow> tree_value PP F e V DT b st = first_value F (tree_value PP Own e V DT b st)"
  by (cases e) (auto simp: binary_kind_def precedence_of_def getPrecedence_def split: option.splits if_splits)

text \<open>
  What holds of a tree \<open>e\<close> where the lexer stands at its tokens: a value is its tree's value; the tokens are used up; more
  follows the first value of an operator; and the loop from the first value goes over the tree.
\<close>

definition value_ok :: "('p, 'a) preprocessor \<Rightarrow> ('p \<Rightarrow> nat) \<Rightarrow> pexpr \<Rightarrow> bool" where
  "value_ok PP m e \<longleftrightarrow> (\<forall>V DT b st t ts. stands PP st (spell e @ (False, t) # ts) \<longrightarrow> level e = 15 \<longrightarrow>
     value_at PP m V DT b st = tree_value PP Own e V DT b st)"

definition uses_up :: "('p, 'a) preprocessor \<Rightarrow> pexpr \<Rightarrow> bool" where
  "uses_up PP e \<longleftrightarrow> (\<forall>F V DT b st t ts x st'. stands PP st (spell e @ (False, t) # ts) \<longrightarrow>
     tree_value PP F e V DT b st = Done x st' \<longrightarrow>
     stands PP st' ((False, t) # ts) \<and> (level e < 15 \<longrightarrow> State (snd x) = Unknown))"

definition goes_on :: "('p, 'a) preprocessor \<Rightarrow> ('p \<Rightarrow> nat) \<Rightarrow> pexpr \<Rightarrow> bool" where
  "goes_on PP m e \<longleftrightarrow> (\<forall>V DT b st t ts x st'. stands PP st (spell e @ (False, t) # ts) \<longrightarrow> level e < 15 \<longrightarrow>
     value_at PP m V DT b st = Done x st' \<longrightarrow> getPrecedence (getKind (PeekTok st')) \<noteq> Some 0)"

definition climbs :: "('p, 'a) preprocessor \<Rightarrow> ('p \<Rightarrow> nat) \<Rightarrow> pexpr \<Rightarrow> bool" where
  "climbs PP m e \<longleftrightarrow> (\<forall>F V DT b st t ts q p. stands PP st (spell e @ (False, t) # ts) \<longrightarrow>
     getPrecedence (getKind t) = Some q \<longrightarrow> q \<le> right_level e \<longrightarrow> 0 < p \<longrightarrow> p \<le> level e \<longrightarrow>
     and_then (first_value F (value_at PP m V DT b st)) (run PP m p b) = and_then (tree_value PP F e V DT b st) (run PP m p b))"

definition tree_ok :: "('p, 'a) preprocessor \<Rightarrow> ('p \<Rightarrow> nat) \<Rightarrow> pexpr \<Rightarrow> bool" where
  "tree_ok PP m e \<longleftrightarrow> value_ok PP m e \<and> uses_up PP e \<and> goes_on PP m e \<and> climbs PP m e"

text \<open>For the trees of the highest level the first two are enough.\<close>

lemma tree_ok_atom:
  assumes "grammatical e" "level e = 15" "value_ok PP m e" "uses_up PP e"
  shows "tree_ok PP m e"
proof -
  have "climbs PP m e" unfolding climbs_def
  proof (intro allI impI)
    fix F V DT b st t ts q p assume "stands PP st (spell e @ (False, t) # ts)"
    then have "value_at PP m V DT b st = tree_value PP Own e V DT b st" using assms(2,3) unfolding value_ok_def by blast
    then show "and_then (first_value F (value_at PP m V DT b st)) (run PP m p b) =
        and_then (tree_value PP F e V DT b st) (run PP m p b)"
      by (simp only: atom_value [OF assms(1,2), of PP F])
  qed
  then show ?thesis using assms by (simp add: tree_ok_def goes_on_def)
qed

lemma uses_up_first_value:
  assumes "\<And>V DT b st t ts x st'. stands PP st (spell e @ (False, t) # ts) \<Longrightarrow> tree_value PP Own e V DT b st = Done x st' \<Longrightarrow>
    stands PP st' ((False, t) # ts)" "grammatical e" "level e = 15"
  shows "uses_up PP e"
  unfolding uses_up_def
proof (intro allI impI conjI)
  fix F V DT b st t ts x st'
  assume s: "stands PP st (spell e @ (False, t) # ts)" and r: "tree_value PP F e V DT b st = Done x st'"
  obtain y where "tree_value PP Own e V DT b st = Done y st'"
    using first_value_Done [OF r [unfolded atom_value [OF assms(2,3), of PP F]]] by blast
  then show "stands PP st' ((False, t) # ts)" using assms(1) s by blast
qed (use assms(3) in simp)

lemma tree_ok_leaf:
  assumes fin: "finite_line PP m" and e: "grammatical e" and leaf: "(\<exists>t. e = Simple t) \<or> (\<exists>d x. e = Defd d x) \<or> (\<exists>d lp x rp. e = DefdParen d lp x rp)"
  shows "tree_ok PP m e"
proof -
  have l: "level e = 15" "\<And>V DT b st. tree_value PP Own e V DT b st = leaf_value PP V DT b st" using leaf by auto
  have v: "value_ok PP m e" unfolding value_ok_def
  proof (intro allI impI)
    fix V DT b st t ts assume s: "stands PP st (spell e @ (False, t) # ts)"
    have "getKind (PeekTok st) \<in> {tok_numeric_constant, tok_kw_true, tok_kw_false} \<or>
      is_char_kind (getKind (PeekTok st)) \<or> falls_through (getKind (PeekTok st))"
      using leaf e s by (auto dest: stands_peek)
    from value_body_leaf [OF this] show "value_at PP m V DT b st = tree_value PP Own e V DT b st"
      by (simp add: value_at_body [OF fin] l(2))
  qed
  have "uses_up PP e"
  proof (rule uses_up_first_value [OF _ e l(1)])
    fix V DT b st t ts x st' assume s: "stands PP st (spell e @ (False, t) # ts)"
      and r: "tree_value PP Own e V DT b st = Done x st'"
    note r = r [unfolded l(2)]
    consider u where "e = Simple u" | d y where "e = Defd d y" | d lp y rp where "e = DefdParen d lp y rp" using leaf by blast
    then show "stands PP st' ((False, t) # ts)"
    proof cases
      case 1
      have s': "stands PP st ((False, u) # (False, t) # ts)" using s 1 by simp
      have "one_token PP st (leaf_value PP V DT b st)"
        using e 1 stands_peek [OF s'] by (intro one_token_leaf) auto
      from leaf_stands [OF this r s'] show ?thesis .
    next
      case 2
      have s': "stands PP st ((False, d) # (True, y) # (False, t) # ts)" using s 2 by simp
      have "EvaluateDefined PP (V\<lparr>getIdentifier := None\<rparr>) (DT\<lparr>State := Unknown\<rparr>) st = Done x st'"
        using r leaf_is_defined [of st PP V DT b] e 2 stands_peek [OF s'] by simp
      from EvaluateDefined_stands [of PP st _ False _ y, OF _ _ _ this] s' e 2 show ?thesis by simp
    next
      case 3
      have s': "stands PP st ((False, d) # (True, lp) # (True, y) # (True, rp) # (False, t) # ts)" using s 3 by simp
      have "EvaluateDefined PP (V\<lparr>getIdentifier := None\<rparr>) (DT\<lparr>State := Unknown\<rparr>) st = Done x st'"
        using r leaf_is_defined [of st PP V DT b] e 3 stands_peek [OF s'] by simp
      from EvaluateDefined_stands [of PP st _ True lp y rp, OF _ _ _ this] s' e 3 show ?thesis by simp
    qed
  qed
  then show ?thesis using v e l(1) by (intro tree_ok_atom)
qed

lemma precedence_end:
  "peek_is tok_r_paren st \<or> peek_is tok_eod st \<Longrightarrow> getPrecedence (getKind (PeekTok st)) = Some 0"
  by (auto simp: peek_is_def getPrecedence_def)

lemma tree_okD:
  assumes "tree_ok PP m e" "stands PP st (spell e @ (False, t) # ts)"
  shows "level e = 15 \<Longrightarrow> value_at PP m V DT b st = tree_value PP Own e V DT b st"
    "tree_value PP F e V DT b st = Done x st' \<Longrightarrow> stands PP st' ((False, t) # ts)"
    "tree_value PP F e V DT b st = Done x st' \<Longrightarrow> level e < 15 \<Longrightarrow> State (snd x) = Unknown"
    "level e < 15 \<Longrightarrow> value_at PP m V DT b st = Done x st' \<Longrightarrow> getPrecedence (getKind (PeekTok st')) \<noteq> Some 0"
    "getPrecedence (getKind t) = Some q \<Longrightarrow> q \<le> right_level e \<Longrightarrow> 0 < p \<Longrightarrow> p \<le> level e \<Longrightarrow>
      and_then (first_value F (value_at PP m V DT b st)) (run PP m p b) = and_then (tree_value PP F e V DT b st) (run PP m p b)"
proof -
  have ok: "value_ok PP m e" "uses_up PP e" "goes_on PP m e" "climbs PP m e" using assms(1) by (simp_all add: tree_ok_def)
  show "level e = 15 \<Longrightarrow> value_at PP m V DT b st = tree_value PP Own e V DT b st"
    using ok(1) assms(2) unfolding value_ok_def by blast
  show "tree_value PP F e V DT b st = Done x st' \<Longrightarrow> stands PP st' ((False, t) # ts)"
    "tree_value PP F e V DT b st = Done x st' \<Longrightarrow> level e < 15 \<Longrightarrow> State (snd x) = Unknown"
    using ok(2) assms(2) unfolding uses_up_def by blast+
  show "level e < 15 \<Longrightarrow> value_at PP m V DT b st = Done x st' \<Longrightarrow> getPrecedence (getKind (PeekTok st')) \<noteq> Some 0"
    using ok(3) assms(2) unfolding goes_on_def by blast
  show "getPrecedence (getKind t) = Some q \<Longrightarrow> q \<le> right_level e \<Longrightarrow> 0 < p \<Longrightarrow> p \<le> level e \<Longrightarrow>
      and_then (first_value F (value_at PP m V DT b st)) (run PP m p b) = and_then (tree_value PP F e V DT b st) (run PP m p b)"
    using ok(4) assms(2) unfolding climbs_def by blast
qed

lemma levels: "grammatical e \<Longrightarrow> 3 \<le> right_level e \<and> right_level e \<le> level e \<and> level e \<le> 15"
  by (cases e) (auto simp: binary_kind_def precedence_of_def getPrecedence_def split: option.splits if_splits)

lemma close_paren_Done:
  "close_paren PP x st = Done y st' \<Longrightarrow> st' = LexNonComment PP st"
  by (auto simp: close_paren_def split: prod.splits if_splits)

lemma unary_Done:
  "apply_unary PP k b x st = Done y st' \<Longrightarrow> same_input st st'"
  by (auto simp: apply_unary_def apply_plus_def apply_minus_def apply_tilde_def apply_exclaim_def Let_def
      split: prod.splits if_splits)

lemma stands_first: "stands PP st ((False, u) # spell e @ ts) \<Longrightarrow> stands PP (LexNonComment PP st) (spell e @ ts)"
  using spell_nonempty [of e] stands_Lex(1) by fastforce

lemma tree_ok_parens:
  fixes PP :: "('p, 'a) preprocessor"
  assumes fin: "finite_line PP m" and g: "grammatical (Parens lp e rp)" and e: "tree_ok PP m e"
  shows "tree_ok PP m (Parens lp e rp)"
proof -
  have k: "getKind lp = tok_l_paren" "getKind rp = tok_r_paren" "grammatical e" using g by simp_all
  have rp: "getPrecedence (getKind rp) = Some 0" using k by (simp add: getPrecedence_def)
  have v: "value_ok PP m (Parens lp e rp)" unfolding value_ok_def
  proof (intro allI impI)
    fix V :: "'a pp_value" and DT :: defined_tracker and b and st :: "'p pp_state" and t ts
    assume "stands PP st (spell (Parens lp e rp) @ (False, t) # ts)"
    then have s: "stands PP st ((False, lp) # spell e @ (False, rp) # (False, t) # ts)" by simp
    let ?V = "V\<lparr>getIdentifier := None\<rparr>" and ?DT = "DT\<lparr>State := Unknown\<rparr>" and ?st = "LexNonComment PP st"
    let ?tree = "tree_value PP Own e ?V ?DT b ?st" and ?val = "value_at PP m ?V ?DT b ?st"
    note s' = stands_first [OF s]
    have at: "peek_is tok_r_paren s'" if "?tree = Done x s'" for x s'
      using tree_okD(2) [OF e s' that] k by (simp add: peek_is_def stands_peek)
    have "and_then ?val (paren_rest PP (loop_at PP m) b) = and_then ?tree (close_paren PP)"
    proof (cases "level e = 15")
      case True
      have "and_then ?tree (paren_rest PP (loop_at PP m) b) = and_then ?tree (close_paren PP)"
        by (rule and_then_cong) (simp add: paren_rest_def at split: prod.split)
      then show ?thesis by (simp add: tree_okD(1) [OF e s' True])
    next
      case False
      then have l: "level e < 15" using levels [OF k(3)] by simp
      have "and_then ?val (paren_rest PP (loop_at PP m) b) = and_then ?val (\<lambda>x st. and_then (run PP m 1 b x st) (close_paren PP))"
      proof (rule and_then_cong)
        fix x s1 assume "?val = Done x s1"
        then have "\<not> peek_is tok_r_paren s1" using tree_okD(4) [OF e s' l] precedence_end by blast
        then show "paren_rest PP (loop_at PP m) b x s1 = and_then (run PP m 1 b x s1) (close_paren PP)"
          by (auto simp: paren_rest_def run_def plain_def rejoin_def and_then_assoc split: prod.split intro!: and_then_cong)
      qed
      also have "\<dots> = and_then (and_then ?tree (run PP m 1 b)) (close_paren PP)"
        using tree_okD(5) [OF e s' rp, of 1 Own] levels [OF k(3)] by (simp add: and_then_assoc [symmetric])
      also have "\<dots> = and_then ?tree (close_paren PP)" unfolding and_then_assoc
      proof (rule and_then_cong)
        fix x s' assume x: "?tree = Done x s'"
        have "getPrecedence (getKind (PeekTok s')) = Some 0" using at [OF x] by (simp add: peek_is_def getPrecedence_def)
        then have "run PP m 1 b x s' = Done (fst x, (snd x)\<lparr>State := Unknown\<rparr>) s'" by (rule plain_stops(2) [OF fin]) simp
        also have "(fst x, (snd x)\<lparr>State := Unknown\<rparr>) = x" using tree_okD(3) [OF e s' x l] by (cases x) simp
        finally show "and_then (run PP m 1 b x s') (close_paren PP) = close_paren PP x s'" by simp
      qed
      finally show ?thesis .
    qed
    then show "value_at PP m V DT b st = tree_value PP Own (Parens lp e rp) V DT b st"
      using k(1) stands_peek [OF s] by (simp add: value_at_body [OF fin, of V] value_body_paren)
  qed
  have "uses_up PP (Parens lp e rp)"
  proof (rule uses_up_first_value [OF _ g])
    fix V :: "'a pp_value" and DT :: defined_tracker and b and st :: "'p pp_state" and t ts x st'
    assume "stands PP st (spell (Parens lp e rp) @ (False, t) # ts)"
    then have s: "stands PP st ((False, lp) # spell e @ (False, rp) # (False, t) # ts)" by simp
    assume "tree_value PP Own (Parens lp e rp) V DT b st = Done x st'"
    then obtain y s1 where r: "tree_value PP Own e (V\<lparr>getIdentifier := None\<rparr>) (DT\<lparr>State := Unknown\<rparr>) b (LexNonComment PP st) = Done y s1"
      "close_paren PP y s1 = Done x st'" by (auto simp: and_then_Done)
    show "stands PP st' ((False, t) # ts)"
      using stands_Lex(1) [OF tree_okD(2) [OF e stands_first [OF s] r(1)]] close_paren_Done [OF r(2)] by simp
  qed simp
  then show ?thesis using v g by (intro tree_ok_atom) simp_all
qed

lemma tree_ok_unary:
  fixes PP :: "('p, 'a) preprocessor"
  assumes fin: "finite_line PP m" and g: "grammatical (Unary u e)" and e: "tree_ok PP m e"
  shows "tree_ok PP m (Unary u e)"
proof -
  have k: "getKind u \<in> {tok_plus, tok_minus, tok_tilde, tok_exclaim}" "level e = 15" using g by simp_all
  have v: "value_ok PP m (Unary u e)" unfolding value_ok_def
  proof (intro allI impI)
    fix V :: "'a pp_value" and DT :: defined_tracker and b and st :: "'p pp_state" and t ts
    assume "stands PP st (spell (Unary u e) @ (False, t) # ts)"
    then have s: "stands PP st ((False, u) # spell e @ (False, t) # ts)" by simp
    have ku: "getKind (PeekTok st) \<in> {tok_plus, tok_minus, tok_tilde, tok_exclaim}" using k(1) stands_peek [OF s] by simp
    show "value_at PP m V DT b st = tree_value PP Own (Unary u e) V DT b st"
      by (simp add: value_at_body [OF fin, of V] value_body_unary [OF ku] tree_okD(1) [OF e stands_first [OF s] k(2)]
          stands_peek [OF s])
  qed
  have "uses_up PP (Unary u e)"
  proof (rule uses_up_first_value [OF _ g])
    fix V :: "'a pp_value" and DT :: defined_tracker and b and st :: "'p pp_state" and t ts x st'
    assume "stands PP st (spell (Unary u e) @ (False, t) # ts)"
    then have s: "stands PP st ((False, u) # spell e @ (False, t) # ts)" by simp
    assume "tree_value PP Own (Unary u e) V DT b st = Done x st'"
    then obtain y s1 where r: "tree_value PP Own e (V\<lparr>getIdentifier := None\<rparr>) (DT\<lparr>State := Unknown\<rparr>) b (LexNonComment PP st) = Done y s1"
      "apply_unary PP (getKind u) b y s1 = Done x st'" by (auto simp: and_then_Done)
    show "stands PP st' ((False, t) # ts)"
      using tree_okD(2) [OF e stands_first [OF s] r(1)] same_input_stands [OF unary_Done [OF r(2)], of PP] by simp
  qed simp
  then show ?thesis using v g by (intro tree_ok_atom) simp_all
qed

text \<open>The right operand of an operator: its tree, when what follows is weaker.\<close>

lemma rhs_operand_plain:
  fixes PP :: "('p, 'a) preprocessor"
  assumes fin: "finite_line PP m" and P: "0 < P"
  shows "rhs_operand PP (value_at PP m) (loop_at PP m) w P live inc st =
    and_then (first_value (Rhs inc) (value_at PP m (new_value PP w) new_tracker live (LexNonComment PP st))) (plain PP m P live)"
  unfolding rhs_operand_def first_value.simps
proof (rule and_then_cong)
  fix x :: "'a pp_value \<times> defined_tracker" and s
  show "(case x of (RHS, DT) \<Rightarrow> let inc = IncludedUndefinedIds DT in check_operator RHS inc s (\<lambda>q.
      if q \<ge> P then loop_at PP m RHS P live inc q s else Done (RHS, inc) s)) = plain PP m P live x s"
  proof (cases "getPrecedence (getKind (PeekTok s))")
    case None
    then show ?thesis by (simp add: plain_def sub_expr_def check_operator_def Let_def split: prod.split)
  next
    case (Some q)
    show ?thesis
    proof (cases "q < P")
      case True
      then show ?thesis using plain_stops(1) [OF fin Some] Some by (simp add: check_operator_def Let_def split: prod.split)
    next
      case False
      then show ?thesis using Some by (simp add: plain_def sub_expr_def check_operator_def Let_def split: prod.split)
    qed
  qed
qed

lemma climb_plain:
  assumes "tree_ok PP m e" "stands PP st (spell e @ (False, t) # ts)"
    "getPrecedence (getKind t) = Some q" "q \<le> right_level e" "0 < p" "p \<le> level e"
  shows "and_then (first_value F (value_at PP m V DT b st)) (plain PP m p b) =
    and_then (tree_value PP F e V DT b st) (plain PP m p b)"
proof -
  have "and_then r (plain PP m p b) = and_then (and_then r (run PP m p b)) split_flag" for r
    by (simp add: and_then_assoc plain_run [abs_def])
  then show ?thesis using tree_okD(5) [OF assms(1,2,3,4,5,6)] by simp
qed

lemma climb_to_stop:
  fixes PP :: "('p, 'a) preprocessor"
  assumes fin: "finite_line PP m" and e: "tree_ok PP m e" and s: "stands PP st (spell e @ (False, t) # ts)"
    and q: "getPrecedence (getKind t) = Some q" "q \<le> right_level e" "q < p" "p \<le> level e"
  shows "and_then (first_value F (value_at PP m V DT b st)) (plain PP m p b) =
    and_then (tree_value PP F e V DT b st) split_flag"
proof -
  have "0 < p" using q(3) by simp
  note climb_plain [OF e s q(1,2) this q(4), of F V DT b]
  also have "and_then (tree_value PP F e V DT b st) (plain PP m p b) = and_then (tree_value PP F e V DT b st) split_flag"
  proof (rule and_then_cong)
    fix x st' assume "tree_value PP F e V DT b st = Done x st'"
    then have "PeekTok st' = t" using tree_okD(2) [OF e s] stands_peek by blast
    then show "plain PP m p b x st' = split_flag x st'" using plain_stops(1) [OF fin _ q(3)] q(1) by (simp add: split_flag_def)
  qed
  finally show ?thesis .
qed

lemma rejoin_again: "rejoin (DT\<lparr>State := Unknown, IncludedUndefinedIds := inc\<rparr>) = rejoin DT"
  by (simp add: rejoin_def fun_eq_iff)

lemma next_turn_plain:
  assumes "getPrecedence (getKind (PeekTok st)) = Some q"
  shows "and_then (next_turn (loop_at PP m) V p b inc st) (rejoin DT) =
    run PP m p b (V, DT\<lparr>State := Unknown, IncludedUndefinedIds := inc\<rparr>) st"
  using assms by (simp add: next_turn_def run_def rejoin_again plain_def sub_expr_def check_operator_def)

lemma binary_turn:
  fixes PP :: "('p, 'a) preprocessor" and x :: "'a pp_value \<times> defined_tracker"
  assumes fin: "finite_line PP m" and r: "tree_ok PP m r" and g: "grammatical r"
    and t: "binary_kind (getKind t)" "precedence_of t < level r"
    and s: "stands PP s ((False, t) # spell r @ (False, t') # ts)"
    and q: "getPrecedence (getKind t') = Some q" "q \<le> precedence_of t" and p: "0 < p" "p \<le> precedence_of t"
  shows "run PP m p b x s = and_then (and_then
     (tree_value PP (Rhs (IncludedUndefinedIds (snd x))) r (new_value PP (width_of PP (fst x))) new_tracker
        (rhs_is_live PP (getKind t) b (Val (fst x))) (LexNonComment PP s))
     (binary_value PP (getKind t) b x)) (run PP m p b)"
proof -
  let ?k = "getKind t" and ?P = "precedence_of t" and ?inc = "IncludedUndefinedIds (snd x)"
  let ?live = "rhs_is_live PP (getKind t) b (Val (fst x))" and ?w = "width_of PP (fst x)"
  let ?tree = "tree_value PP (Rhs ?inc) r (new_value PP ?w) new_tracker ?live (LexNonComment PP s)"
  have P: "getPrecedence ?k = Some ?P" "?k \<noteq> tok_question"
    using t(1) by (auto simp: binary_kind_def precedence_of_def split: option.splits)
  have peek: "PeekTok s = t" by (rule stands_peek [OF s])
  note s' = stands_first [OF s]
  have "?P < right_level r \<or> ?P \<le> 3"
    using t(2) levels [OF g] by (cases r) auto
  then have ql: "q \<le> right_level r" using q(2) levels [OF g] by auto
  have "loop_at PP m (fst x) p b ?inc ?P s = and_then
      (rhs_operand PP (value_at PP m) (loop_at PP m) ?w (Suc ?P) ?live ?inc s)
      (combine PP (value_at PP m) (loop_at PP m) ?k ?P (fst x) p b)"
    using loop_at_body [OF fin p(1), of s ?P] P peek p(2) by (simp add: loop_body_def rhs_precedence_def Let_def)
  also have "rhs_operand PP (value_at PP m) (loop_at PP m) ?w (Suc ?P) ?live ?inc s = and_then ?tree split_flag"
    unfolding rhs_operand_plain [OF fin zero_less_Suc]
    by (rule climb_to_stop [OF fin r s' q(1) ql]) (use q(2) t(2) in auto)
  finally have "run PP m p b x s = and_then ?tree (\<lambda>y st. and_then
      (combine PP (value_at PP m) (loop_at PP m) ?k ?P (fst x) p b (fst y, IncludedUndefinedIds (snd y)) st) (rejoin (snd x)))"
    using P(1) peek
    by (simp add: run_def plain_def sub_expr_def check_operator_def and_then_assoc split_flag_def)
  also have "\<dots> = and_then ?tree (\<lambda>y st. and_then (binary_value PP ?k b x y st) (run PP m p b))"
  proof (rule and_then_cong)
    fix y st assume y: "?tree = Done y st"
    have q': "getPrecedence (getKind (PeekTok st)) = Some q" using stands_peek [OF tree_okD(2) [OF r s' y]] q(1) by simp
    show "and_then (combine PP (value_at PP m) (loop_at PP m) ?k ?P (fst x) p b (fst y, IncludedUndefinedIds (snd y)) st)
        (rejoin (snd x)) = and_then (binary_value PP ?k b x y st) (run PP m p b)"
      using q' q(2) P(2) next_turn_plain [of "with_diags _ st" q PP m]
      by (auto simp: combine_def binary_value_def Let_def split: prod.split option.split)
  qed
  finally show ?thesis by (simp add: and_then_assoc)
qed

lemma choice_turn:
  fixes PP :: "('p, 'a) preprocessor" and x :: "'a pp_value \<times> defined_tracker"
  assumes fin: "finite_line PP m" and a: "tree_ok PP m a" "grammatical a" "3 \<le> level a"
    and e: "tree_ok PP m e" "grammatical e" "4 \<le> level e"
    and k: "getKind t = tok_question" "getKind k = tok_colon"
    and s: "stands PP s ((False, t) # spell a @ (False, k) # spell e @ (False, t') # ts)"
    and q: "getPrecedence (getKind t') = Some q" "q \<le> 3" and p: "0 < p" "p \<le> 4"
  shows "run PP m p b x s = and_then (and_then
     (tree_value PP (Rhs (IncludedUndefinedIds (snd x))) a (new_value PP (width_of PP (fst x))) new_tracker
        (rhs_is_live PP tok_question b (Val (fst x))) (LexNonComment PP s)) (\<lambda>y st. and_then
     (tree_value PP (Colon (IncludedUndefinedIds (snd y))) e (new_value PP (width_of PP (fst x))) new_tracker
        (b \<and> is_zero PP (Val (fst x))) (LexNonComment PP st))
     (choice_value PP x y))) (run PP m p b)"
proof -
  let ?inc = "IncludedUndefinedIds (snd x)" and ?w = "width_of PP (fst x)"
  let ?live = "rhs_is_live PP tok_question b (Val (fst x))" and ?elive = "b \<and> is_zero PP (Val (fst x))"
  let ?tree = "tree_value PP (Rhs ?inc) a (new_value PP ?w) new_tracker ?live (LexNonComment PP s)"
  have P: "getPrecedence tok_question = Some 4" "rhs_precedence tok_question 4 = 3" "getPrecedence (getKind k) = Some 2"
    by (simp_all add: getPrecedence_def rhs_precedence_def k)
  have peek: "PeekTok s = t" by (rule stands_peek [OF s])
  note s' = stands_first [OF s]
  have "loop_at PP m (fst x) p b ?inc 4 s = and_then
      (rhs_operand PP (value_at PP m) (loop_at PP m) ?w 3 ?live ?inc s)
      (combine PP (value_at PP m) (loop_at PP m) tok_question 4 (fst x) p b)"
    using loop_at_body [OF fin p(1), of s 4] P peek k p(2) by (simp add: loop_body_def Let_def)
  also have "rhs_operand PP (value_at PP m) (loop_at PP m) ?w 3 ?live ?inc s = and_then ?tree split_flag"
    unfolding rhs_operand_plain [OF fin zero_less_numeral]
    by (rule climb_to_stop [OF fin a(1) s' P(3)]) (use levels [OF a(2)] a(3) in auto)
  finally have "run PP m p b x s = and_then ?tree (\<lambda>y st. and_then
      (combine PP (value_at PP m) (loop_at PP m) tok_question 4 (fst x) p b (fst y, IncludedUndefinedIds (snd y)) st) (rejoin (snd x)))"
    using P(1) peek k
    by (simp add: run_def plain_def sub_expr_def check_operator_def and_then_assoc split_flag_def)
  also have "\<dots> = and_then ?tree (\<lambda>y st. and_then (and_then
     (tree_value PP (Colon (IncludedUndefinedIds (snd y))) e (new_value PP ?w) new_tracker ?elive (LexNonComment PP st))
     (choice_value PP x y)) (run PP m p b))"
  proof (rule and_then_cong)
    fix y st assume y: "?tree = Done y st"
    note sk = tree_okD(2) [OF a(1) s' y]
    let ?e = "tree_value PP (Colon (IncludedUndefinedIds (snd y))) e (new_value PP ?w) new_tracker ?elive (LexNonComment PP st)"
    have colon: "peek_is tok_colon st" "getPrecedence (getKind (PeekTok st)) = Some 2"
      using stands_peek [OF sk] k(2) P(3) by (simp_all add: peek_is_def)
    have se: "stands PP (LexNonComment PP st) (spell e @ (False, t') # ts)" by (rule stands_first [OF sk])
    have "after_colon PP (value_at PP m) (loop_at PP m) ?w 4 ?elive (IncludedUndefinedIds (snd y)) st =
        and_then (first_value (Colon (IncludedUndefinedIds (snd y)))
          (value_at PP m (new_value PP ?w) new_tracker ?elive (LexNonComment PP st))) (plain PP m 4 ?elive)"
      unfolding after_colon_def first_value.simps and_then_assoc
      by (rule and_then_cong) (simp add: plain_def split: prod.split)
    also have "\<dots> = and_then ?e split_flag"
      by (rule climb_to_stop [OF fin e(1) se q(1)]) (use levels [OF e(2)] e(3) q(2) in auto)
    finally have after: "after_colon PP (value_at PP m) (loop_at PP m) ?w 4 ?elive (IncludedUndefinedIds (snd y)) st =
        and_then ?e split_flag" .
    have "and_then (combine PP (value_at PP m) (loop_at PP m) tok_question 4 (fst x) p b (fst y, IncludedUndefinedIds (snd y)) st)
        (rejoin (snd x)) = and_then ?e (\<lambda>z st. and_then (next_turn (loop_at PP m)
          ((fst x)\<lparr>Val := conditional_value PP (Val (fst x)) (Val (fst y)) (Val (fst z))\<rparr>) p b (IncludedUndefinedIds (snd z)) st)
          (rejoin (snd x)))"
      using colon by (simp add: combine_def after and_then_assoc split_flag_def)
    also have "\<dots> = and_then ?e (\<lambda>z st. and_then (choice_value PP x y z st) (run PP m p b))"
    proof (rule and_then_cong)
      fix z st' assume "?e = Done z st'"
      then have "getPrecedence (getKind (PeekTok st')) = Some q" using tree_okD(2) [OF e(1) se] stands_peek q(1) by metis
      then show "and_then (next_turn (loop_at PP m)
          ((fst x)\<lparr>Val := conditional_value PP (Val (fst x)) (Val (fst y)) (Val (fst z))\<rparr>) p b (IncludedUndefinedIds (snd z)) st')
          (rejoin (snd x)) = and_then (choice_value PP x y z st') (run PP m p b)"
        by (simp add: next_turn_plain choice_value_def)
    qed
    finally show "and_then (combine PP (value_at PP m) (loop_at PP m) tok_question 4 (fst x) p b (fst y, IncludedUndefinedIds (snd y)) st)
        (rejoin (snd x)) = and_then (and_then ?e (choice_value PP x y)) (run PP m p b)" by (simp add: and_then_assoc)
  qed
  finally show ?thesis by (simp add: and_then_assoc)
qed

lemma tree_ok_operator:
  fixes PP :: "('p, 'a) preprocessor"
  assumes l: "tree_ok PP m l" "grammatical l" and t: "0 < level e"
    and e: "spell e = spell l @ (False, t) # us" "level e < 15" "level e \<le> right_level l" "right_level e \<le> level e"
      "getPrecedence (getKind t) = Some (level e)"
    and tree: "\<And>F V DT b st. tree_value PP F e V DT b st = and_then (tree_value PP F l V DT b st) (rest b)"
    and rest: "\<And>b x s t' ts y st'. stands PP s ((False, t) # us @ (False, t') # ts) \<Longrightarrow> rest b x s = Done y st' \<Longrightarrow>
      stands PP st' ((False, t') # ts) \<and> State (snd y) = Unknown"
    and turn: "\<And>p b x s t' ts q. stands PP s ((False, t) # us @ (False, t') # ts) \<Longrightarrow> getPrecedence (getKind t') = Some q \<Longrightarrow>
      q \<le> right_level e \<Longrightarrow> 0 < p \<Longrightarrow> p \<le> level e \<Longrightarrow> run PP m p b x s = and_then (rest b x s) (run PP m p b)"
  shows "tree_ok PP m e"
  unfolding tree_ok_def
proof (intro conjI)
  show "value_ok PP m e" using e(2) by (simp add: value_ok_def)
  show "uses_up PP e" unfolding uses_up_def
  proof (intro allI impI conjI)
    fix F V DT b st t' ts x st'
    assume "stands PP st (spell e @ (False, t') # ts)" and r: "tree_value PP F e V DT b st = Done x st'"
    then have s: "stands PP st (spell l @ (False, t) # us @ (False, t') # ts)" by (simp add: e(1))
    obtain y s1 where y: "tree_value PP F l V DT b st = Done y s1" "rest b y s1 = Done x st'"
      using r by (auto simp: tree and_then_Done)
    show "stands PP st' ((False, t') # ts)" "State (snd x) = Unknown"
      using rest [OF tree_okD(2) [OF l(1) s y(1)] y(2)] by simp_all
  qed
  show "goes_on PP m e" unfolding goes_on_def
  proof (intro allI impI)
    fix V :: "'a pp_value" and DT :: defined_tracker and b and st :: "'p pp_state" and t' ts x st'
    assume "stands PP st (spell e @ (False, t') # ts)" and r: "value_at PP m V DT b st = Done x st'"
    then have s: "stands PP st (spell l @ (False, t) # us @ (False, t') # ts)" by (simp add: e(1))
    show "getPrecedence (getKind (PeekTok st')) \<noteq> Some 0"
    proof (cases "level l = 15")
      case True
      then have "tree_value PP Own l V DT b st = Done x st'" using tree_okD(1) [OF l(1) s True] r by simp
      then show ?thesis using stands_peek [OF tree_okD(2) [OF l(1) s]] t e(5) by simp
    next
      case False
      then have "level l < 15" using levels [OF l(2)] by simp
      then show ?thesis using tree_okD(4) [OF l(1) s _ r] by simp
    qed
  qed
  show "climbs PP m e" unfolding climbs_def
  proof (intro allI impI)
    fix F and V :: "'a pp_value" and DT :: defined_tracker and b and st :: "'p pp_state" and t' ts q p
    assume "stands PP st (spell e @ (False, t') # ts)" and q: "getPrecedence (getKind t') = Some q" "q \<le> right_level e"
      and p: "0 < p" "p \<le> level e"
    then have s: "stands PP st (spell l @ (False, t) # us @ (False, t') # ts)" by (simp add: e(1))
    have "and_then (first_value F (value_at PP m V DT b st)) (run PP m p b) = and_then (tree_value PP F l V DT b st) (run PP m p b)"
      by (rule tree_okD(5) [OF l(1) s e(5,3) p(1)]) (use p(2) e(3) levels [OF l(2)] in simp)
    also have "\<dots> = and_then (tree_value PP F l V DT b st) (\<lambda>x s. and_then (rest b x s) (run PP m p b))"
      by (rule and_then_cong) (rule turn [OF tree_okD(2) [OF l(1) s] q p])
    finally show "and_then (first_value F (value_at PP m V DT b st)) (run PP m p b) =
        and_then (tree_value PP F e V DT b st) (run PP m p b)" by (simp add: tree and_then_assoc)
  qed
qed

lemma binary_value_Done:
  "binary_value PP k b x y st = Done z st' \<Longrightarrow> same_input st st' \<and> State (snd z) = Unknown"
  by (auto simp: binary_value_def Let_def split: prod.splits option.splits)

lemma choice_value_Done:
  "choice_value PP x y e st = Done z st' \<Longrightarrow> st' = st \<and> State (snd z) = Unknown"
  by (auto simp: choice_value_def)

lemma tree_ok_binary:
  fixes PP :: "('p, 'a) preprocessor"
  assumes fin: "finite_line PP m" and g: "grammatical (Binary l t r)" and l: "tree_ok PP m l" and r: "tree_ok PP m r"
  shows "tree_ok PP m (Binary l t r)"
proof (rule tree_ok_operator [OF l])
  have P: "getPrecedence (getKind t) = Some (precedence_of t)" "precedence_of t < 15"
    using g by (auto simp: binary_kind_def precedence_of_def getPrecedence_def split: option.splits if_splits)
  show "grammatical l" using g by simp
  show "0 < level (Binary l t r)"
    using g by (auto simp: binary_kind_def precedence_of_def split: option.splits)
  show "level (Binary l t r) < 15" "level (Binary l t r) \<le> right_level l" "right_level (Binary l t r) \<le> level (Binary l t r)"
    "getPrecedence (getKind t) = Some (level (Binary l t r))" using g P by simp_all
  let ?rest = "\<lambda>b (x :: 'a pp_value \<times> defined_tracker) st. and_then
      (tree_value PP (Rhs (IncludedUndefinedIds (snd x))) r (new_value PP (width_of PP (fst x))) new_tracker
         (rhs_is_live PP (getKind t) b (Val (fst x))) (LexNonComment PP st)) (binary_value PP (getKind t) b x)"
  show "tree_value PP F (Binary l t r) V DT b st = and_then (tree_value PP F l V DT b st) (?rest b)" for F V DT b st
    by simp
  fix b and x :: "'a pp_value \<times> defined_tracker" and s t' ts
  assume s: "stands PP s ((False, t) # spell r @ (False, t') # ts)"
  show "stands PP st' ((False, t') # ts) \<and> State (snd y) = Unknown" if res: "?rest b x s = Done y st'" for y st'
  proof -
    obtain z s1 where z: "tree_value PP (Rhs (IncludedUndefinedIds (snd x))) r (new_value PP (width_of PP (fst x))) new_tracker
         (rhs_is_live PP (getKind t) b (Val (fst x))) (LexNonComment PP s) = Done z s1"
      "binary_value PP (getKind t) b x z s1 = Done y st'" using res unfolding and_then_Done by blast
    show ?thesis
      using tree_okD(2) [OF r stands_first [OF s] z(1)] binary_value_Done [OF z(2)] same_input_stands [of s1 st' PP] by simp
  qed
  show "run PP m p b x s = and_then (?rest b x s) (run PP m p b)"
    if "getPrecedence (getKind t') = Some q" "q \<le> right_level (Binary l t r)" "0 < p" "p \<le> level (Binary l t r)" for p q
    using binary_turn [OF fin r _ _ _ s that(1) _ that(3), of b x] g that by simp
qed simp

lemma tree_ok_choice:
  fixes PP :: "('p, 'a) preprocessor"
  assumes fin: "finite_line PP m" and g: "grammatical (Choice c t a k e)" and c: "tree_ok PP m c" and a: "tree_ok PP m a"
    and e: "tree_ok PP m e"
  shows "tree_ok PP m (Choice c t a k e)"
proof (rule tree_ok_operator [OF c])
  have t: "getKind t = tok_question" "getKind k = tok_colon" using g by simp_all
  show "grammatical c" "0 < level (Choice c t a k e)" using g by simp_all
  show "level (Choice c t a k e) < 15" "level (Choice c t a k e) \<le> right_level c"
    "right_level (Choice c t a k e) \<le> level (Choice c t a k e)"
    "getPrecedence (getKind t) = Some (level (Choice c t a k e))" using g by (simp_all add: getPrecedence_def)
  show "spell (Choice c t a k e) = spell c @ (False, t) # (spell a @ (False, k) # spell e)" by simp
  let ?a = "\<lambda>b (x :: 'a pp_value \<times> defined_tracker) st.
      tree_value PP (Rhs (IncludedUndefinedIds (snd x))) a (new_value PP (width_of PP (fst x))) new_tracker
        (rhs_is_live PP tok_question b (Val (fst x))) (LexNonComment PP st)"
  let ?e = "\<lambda>b (x :: 'a pp_value \<times> defined_tracker) (y :: 'a pp_value \<times> defined_tracker) st.
      tree_value PP (Colon (IncludedUndefinedIds (snd y))) e (new_value PP (width_of PP (fst x))) new_tracker
        (b \<and> is_zero PP (Val (fst x))) (LexNonComment PP st)"
  let ?rest = "\<lambda>b x st. and_then (?a b x st) (\<lambda>y st. and_then (?e b x y st) (choice_value PP x y))"
  show "tree_value PP F (Choice c t a k e) V DT b st = and_then (tree_value PP F c V DT b st) (?rest b)" for F V DT b st
    by simp
  fix b and x :: "'a pp_value \<times> defined_tracker" and s t' ts
  assume "stands PP s ((False, t) # (spell a @ (False, k) # spell e) @ (False, t') # ts)"
  then have s: "stands PP s ((False, t) # spell a @ (False, k) # spell e @ (False, t') # ts)" by simp
  show "stands PP st' ((False, t') # ts) \<and> State (snd y) = Unknown" if res: "?rest b x s = Done y st'" for y st'
  proof -
    obtain z s1 w s2 where z: "?a b x s = Done z s1" "?e b x z s1 = Done w s2" "choice_value PP x z w s2 = Done y st'"
      using res unfolding and_then_Done by blast
    note s1 = tree_okD(2) [OF a stands_first [OF s] z(1)]
    show ?thesis using tree_okD(2) [OF e stands_first [OF s1] z(2)] choice_value_Done [OF z(3)] by simp
  qed
  show "run PP m p b x s = and_then (?rest b x s) (run PP m p b)"
    if "getPrecedence (getKind t') = Some q" "q \<le> right_level (Choice c t a k e)" "0 < p" "p \<le> level (Choice c t a k e)" for p q
    using choice_turn [OF fin a _ _ e _ _ t s that(1) _ that(3), of b x] g that by simp
qed

lemma tree_ok:
  assumes "finite_line PP m"
  shows "grammatical e \<Longrightarrow> tree_ok PP m e"
proof (induction e)
  case (Parens lp e rp)
  then show ?case by (intro tree_ok_parens [OF assms]) simp_all
next
  case (Unary u e)
  then show ?case by (intro tree_ok_unary [OF assms]) simp_all
next
  case (Binary l t r)
  then show ?case by (intro tree_ok_binary [OF assms]) simp_all
next
  case (Choice c q a k e)
  then show ?case by (intro tree_ok_choice [OF assms]) simp_all
qed (rule tree_ok_leaf [OF assms]; blast)+

section \<open>The whole directive\<close>

lemma whole_value:
  fixes PP :: "('p, 'a) preprocessor"
  assumes fin: "finite_line PP m" and e: "grammatical e" "level e < 15" "4 \<le> level e"
    and s: "stands PP st (spell e @ [(False, t)])" "getKind t = tok_eod" and n: "left_over m st < fuel"
  shows "finish_value fuel PP start (value_at PP m V DT True st) = finish_value fuel PP start (tree_value PP Own e V DT True st)"
proof -
  let ?v = "value_at PP m V DT True st" and ?t = "tree_value PP Own e V DT True st"
  note ok = tree_ok [OF fin e(1)]
  have z: "getPrecedence (getKind t) = Some 0" "getPrecedence tok_question = Some 4" by (simp_all add: s(2) getPrecedence_def)
  have run: "and_then ?v (run PP m 4 True) = ?t"
  proof -
    have "and_then ?t (run PP m 4 True) = and_then ?t Done"
    proof (rule and_then_cong)
      fix x s' assume x: "?t = Done x s'"
      have "getPrecedence (getKind (PeekTok s')) = Some 0" using stands_peek [OF tree_okD(2) [OF ok s(1) x]] z by simp
      then have "run PP m 4 True x s' = Done (fst x, (snd x)\<lparr>State := Unknown\<rparr>) s'" by (rule plain_stops(2) [OF fin]) simp
      then show "run PP m 4 True x s' = Done x s'" using tree_okD(3) [OF ok s(1) x e(2)] by (cases x) simp
    qed
    also have "\<dots> = ?t" by (cases ?t) auto
    finally show ?thesis using tree_okD(5) [OF ok s(1) z(1), of 4 Own V DT True] e(3) by simp
  qed
  show ?thesis
  proof (cases ?v)
    case (Done x s1)
    obtain W D where x: "x = (W, D)" by (cases x)
    have go: "\<not> peek_is tok_eod s1" using tree_okD(4) [OF ok s(1) e(2) Done] precedence_end by blast
    have "leaves m (left_over m st) (left_over m st) ?v"
      using evaluator_leaves [OF fin, of fuel] n at_fuel(1) [OF fin n, of V DT True] unfolding calls_leave_def by metis
    then have n1: "left_over m s1 < fuel" using Done n by simp
    have "EvaluateDirectiveSubExpr fuel PP W 4 True (IncludedUndefinedIds D) s1 = plain PP m 4 True x s1"
      using at_fuel(2) [OF fin n1]
      by (simp add: EvaluateDirectiveSubExpr_def plain_def sub_expr_def check_operator_def x split: option.split)
    then have "finish_value fuel PP start ?v = finish_expression fuel PP start (plain PP m 4 True x s1)"
      using go by (simp add: Done x finish_value_def z(2))
    moreover have p: "and_then (plain PP m 4 True x s1) (rejoin D) = ?t" using run by (simp add: Done x run_def)
    moreover have "finish_expression fuel PP start (plain PP m 4 True x s1) = finish_value fuel PP start ?t"
    proof (cases "plain PP m 4 True x s1")
      case d: (Done y s2)
      then have "?t = Done (fst y, D\<lparr>State := Unknown, IncludedUndefinedIds := snd y\<rparr>) s2" using p by (simp add: rejoin_def)
      moreover from this have "peek_is tok_eod s2" using stands_peek [OF tree_okD(2) [OF ok s(1)]] s(2) by (simp add: peek_is_def)
      ultimately show ?thesis using d by (cases y) (simp add: finish_expression_def finish_value_def)
    qed (use p [symmetric] in \<open>simp_all add: finish_expression_def finish_value_def\<close>)
    ultimately show ?thesis by simp
  qed (use run in \<open>simp_all add: finish_value_def\<close>)
qed

lemma directive_value:
  fixes PP :: "('p, 'a) preprocessor"
  assumes fin: "finite_line PP m" and fuel: "m (pp_rest start) < fuel" and e: "grammatical e" "4 \<le> level e"
    and s: "stands PP (directive_start PP start) (spell e @ [(False, t)])" "getKind t = tok_eod"
  shows "finish_value fuel PP start (EvaluateValue fuel PP V DT True (directive_start PP start)) =
    finish_value fuel PP start (tree_value PP Own e V DT True (directive_start PP start))"
proof -
  have n: "left_over m (directive_start PP start) < fuel"
    using Lex_left_over(1) [OF fin, of "start\<lparr>ParsingIfOrElifDirective := True, DisableMacroExpansion := False\<rparr>"] fuel
    by (simp add: directive_start_def)
  show ?thesis
  proof (cases "level e = 15")
    case True
    then show ?thesis by (simp add: at_fuel(1) [OF fin n] tree_okD(1) [OF tree_ok [OF fin e(1)] s(1)])
  next
    case False
    then have "level e < 15" using levels [OF e(1)] by simp
    then show ?thesis by (simp add: at_fuel(1) [OF fin n] whole_value [OF fin e(1) _ e(2) s n])
  qed
qed

text \<open>
  C29. A condition is evaluated as the grammar says: on the tokens of any conditional expression, delivered by any preprocessor,
  the precedence climbing of the evaluator does what the recursion over the tree does, in value, diagnostics, errors, liveness
  of the operands and reported macro. So precedence, associativity and the nesting of \<open>?:\<close> are right.
\<close>

theorem EvaluateDirectiveExpression_tree:
  assumes fin: "finite_line PP m" and fuel: "m (pp_rest start) < fuel" and e: "grammatical e" "4 \<le> level e"
    and s: "stands PP (directive_start PP start) (spell e @ [(False, t)])" "getKind t = tok_eod"
  shows "EvaluateDirectiveExpression fuel PP start = finish_value fuel PP start
    (tree_value PP Own e (new_value PP (IntMaxTWidth PP)) new_tracker True (directive_start PP start))"
  unfolding EvaluateDirectiveExpression_def using directive_value [OF fin fuel e s] by simp

section \<open>Include guards\<close>

text \<open>The trees that ask for one macro, and whether they negate it.\<close>

fun guard_form :: "pexpr \<Rightarrow> (pp_ident \<times> bool) option" where
  "guard_form (Defd d x) = (if getKind x = tok_eod then None else map_option (\<lambda>II. (II, False)) (getIdentifierInfo x))"
| "guard_form (DefdParen d lp x rp) = (if getKind x = tok_eod then None else map_option (\<lambda>II. (II, False)) (getIdentifierInfo x))"
| "guard_form (Parens lp e rp) = guard_form e"
| "guard_form (Unary t e) =
     (if getKind t = tok_exclaim then map_option (\<lambda>g. (fst g, \<not> snd g)) (guard_form e)
      else if getKind t = tok_plus then guard_form e else None)"
| "guard_form _ = None"

text \<open>The tracker after a tree.\<close>

definition tracks :: "pexpr \<Rightarrow> defined_tracker \<Rightarrow> bool" where
  "tracks e DT \<longleftrightarrow> (case guard_form e of None \<Rightarrow> State DT = Unknown
     | Some g \<Rightarrow> State DT = (if snd g then NotDefinedMacro else DefinedMacro) \<and> TheMacro DT = Some (fst g))"

lemma simple_leaf_unknown:
  assumes "getKind (PeekTok st) \<in> {tok_numeric_constant, tok_kw_true, tok_kw_false} \<or> is_char_kind (getKind (PeekTok st)) \<or>
     \<not> names_defined (PeekTok st)" "leaf_value PP V DT b st = Done x st'"
  shows "State (snd x) = Unknown"
  using assms
  by (auto simp: leaf_value_def eval_number_def integer_literal_def eval_char_def eval_bool_def eval_identifier_def
      names_defined_def Let_def split: if_splits option.splits prod.splits)

lemma EvaluateDefined_tracks:
  assumes s: "stands PP st (y # (if LParen then [(True, lp)] else []) @ (True, x) # (if LParen then [(True, rp)] else []) @ (False, t) # ts)"
    and k: "if LParen then getKind lp = tok_l_paren else getKind x \<noteq> tok_l_paren" "getKind x \<noteq> tok_code_completion"
    and rp: "LParen \<longrightarrow> getKind rp = tok_r_paren"
  shows "case (if getKind x = tok_eod then None else getIdentifierInfo x) of
      None \<Rightarrow> \<forall>r st'. EvaluateDefined PP V DT st \<noteq> Done r st'
    | Some II \<Rightarrow> \<exists>V' D st'. EvaluateDefined PP V DT st = Done (V', D) st' \<and> State D = DefinedMacro \<and> TheMacro D = Some II"
proof -
  obtain st2 where st2: "EvaluateDefined PP V DT st = defined_name PP (PeekTok st) LParen V DT st2"
    "stands PP st2 ((True, x) # (if LParen then [(True, rp)] else []) @ (False, t) # ts)"
    using EvaluateDefined_name [OF s k, of V DT] by blast
  have p: "PeekTok st2 = x" by (rule stands_peek [OF st2(2)])
  show ?thesis
  proof (cases "if getKind x = tok_eod then None else getIdentifierInfo x")
    case None
    then have "fst (CheckMacroName PP st2)" using p by (auto simp: CheckMacroName_def peek_is_def split: if_splits)
    then have "\<forall>r st'. EvaluateDefined PP V DT st \<noteq> Done r st'"
      unfolding st2(1) by (cases "CheckMacroName PP st2") (simp add: defined_name_def)
    then show ?thesis by (simp add: None)
  next
    case (Some II)
    then have x: "getIdentifierInfo x = Some II" "getKind x \<noteq> tok_eod" by (auto split: if_splits)
    have "stands PP st2 ((True, x) # (if LParen then [(True, if LParen then rp else plain_token tok_r_paren)] else []) @ (False, t) # ts)"
      using st2(2) by (cases LParen) simp_all
    from defined_name_runs [OF this x] rp show ?thesis by (simp add: st2(1) Some plain_token_def split: if_splits)
  qed
qed

lemma tree_tracks:
  fixes PP :: "('p, 'a) preprocessor"
  assumes fin: "finite_line PP m"
  shows "grammatical e \<Longrightarrow> stands PP st (spell e @ (False, t) # ts) \<Longrightarrow>
    (\<forall>x st'. tree_value PP Own e V DT b st = Done x st' \<longrightarrow> tracks e (snd x)) \<and>
    (guard_form e \<noteq> None \<longrightarrow> (\<exists>x st'. tree_value PP Own e V DT b st = Done x st'))"
proof (induction e arbitrary: st t ts V DT)
  case (Simple u)
  then show ?case using simple_leaf_unknown [of st PP V DT b] stands_peek [of PP st False u] by (auto simp: tracks_def)
next
  case (Defd d x)
  have s: "stands PP st ((False, d) # (if False then [(True, d)] else []) @ (True, x) # (if False then [(True, d)] else []) @ (False, t) # ts)"
    using Defd(2) by simp
  show ?case
    using EvaluateDefined_tracks [OF s, of "V\<lparr>getIdentifier := None\<rparr>" "DT\<lparr>State := Unknown\<rparr>"] Defd(1)
      leaf_is_defined [of st PP V DT b] stands_peek [OF s]
    by (auto simp: tracks_def split: option.splits if_splits)
next
  case (DefdParen d lp x rp)
  have s: "stands PP st ((False, d) # (if True then [(True, lp)] else []) @ (True, x) # (if True then [(True, rp)] else []) @ (False, t) # ts)"
    using DefdParen(2) by simp
  show ?case
    using EvaluateDefined_tracks [OF s, of "V\<lparr>getIdentifier := None\<rparr>" "DT\<lparr>State := Unknown\<rparr>"] DefdParen(1)
      leaf_is_defined [of st PP V DT b] stands_peek [OF s]
    by (auto simp: tracks_def split: option.splits if_splits)
next
  case (Parens lp e rp)
  then have s: "stands PP (LexNonComment PP st) (spell e @ (False, rp) # (False, t) # ts)" and g: "grammatical e"
    using stands_first [of PP st lp e] by simp_all
  note IH = Parens.IH [OF g s, of "V\<lparr>getIdentifier := None\<rparr>" "DT\<lparr>State := Unknown\<rparr>"]
  have "peek_is tok_r_paren st'" if "tree_value PP Own e (V\<lparr>getIdentifier := None\<rparr>) (DT\<lparr>State := Unknown\<rparr>) b (LexNonComment PP st) = Done x st'" for x st'
    using stands_peek [OF tree_okD(2) [OF tree_ok [OF fin g] s that]] Parens.prems(1) by (simp add: peek_is_def)
  then show ?case using IH
    by (cases "tree_value PP Own e (V\<lparr>getIdentifier := None\<rparr>) (DT\<lparr>State := Unknown\<rparr>) b (LexNonComment PP st)")
      (auto simp: close_paren_def tracks_def split: prod.split option.splits)
next
  case (Unary u e)
  then have s: "stands PP (LexNonComment PP st) (spell e @ (False, t) # ts)" and g: "grammatical e"
    using stands_first [of PP st u e] by simp_all
  note IH = Unary.IH [OF g s, of "V\<lparr>getIdentifier := None\<rparr>" "DT\<lparr>State := Unknown\<rparr>"]
  show ?case using IH Unary.prems(1)
    by (cases "tree_value PP Own e (V\<lparr>getIdentifier := None\<rparr>) (DT\<lparr>State := Unknown\<rparr>) b (LexNonComment PP st)")
      (auto simp: apply_unary_def apply_plus_def apply_minus_def apply_tilde_def apply_exclaim_def negate_tracker_def Let_def
        tracks_def split: prod.split option.splits if_splits)
next
  case (Binary l u r)
  then show ?case using tree_okD(3) [OF tree_ok [OF fin Binary.prems(1)] Binary.prems(2), of Own V DT b]
    by (auto simp: tracks_def binary_kind_def precedence_of_def getPrecedence_def split: option.splits if_splits)
next
  case (Choice c q a k e)
  then show ?case using tree_okD(3) [OF tree_ok [OF fin Choice.prems(1)] Choice.prems(2), of Own V DT b]
    by (auto simp: tracks_def)
qed

text \<open>
  C32. The macro that is reported for an include guard is one: when the evaluation hands \<open>X\<close> back in
  \<open>IfNDefMacro\<close>, the condition is true exactly when \<open>X\<close> is not defined, whatever signs,
  negations and parentheses were around \<open>defined X\<close>.
\<close>

theorem IfNDefMacro_sound:
  assumes t: "target_ok PP val" and r: "EvaluateDirectiveExpression fuel PP start = Evaluated r st"
    and X: "IfNDefMacro r = Some X"
  shows "Conditional r \<longleftrightarrow> \<not> getMacroDefinition PP X"
proof -
  define x where "x = EvaluateValue fuel PP (new_value PP (IntMaxTWidth PP)) new_tracker True (directive_start PP start)"
  have post: "ensures False (value_post PP) x" unfolding x_def by (rule start_ensures [OF t]) simp
  have e: "finish_value fuel PP start x = Evaluated r st" using r by (simp add: EvaluateDirectiveExpression_def x_def)
  have none: "finish_expression fuel PP start y \<noteq> Evaluated r st" for y
    using X by (auto simp: finish_expression_def evaluated_def split: result.splits option.splits prod.splits)
  show ?thesis
  proof (cases x)
    case (Done y st')
    then show ?thesis using e X post none
      by (cases y) (auto simp: finish_value_def evaluated_def value_post_def tracked_def split: if_splits)
  qed (use e X in \<open>auto simp: finish_value_def evaluated_def split: option.splits\<close>)
qed

text \<open>
  \<open>IfNDefMacro\<close> is reported for exactly the conditions that ask for one undefined macro: on the tokens of a conditional
  expression, it is \<open>X\<close> when the tree is \<open>defined X\<close> or \<open>defined(X)\<close> under plus signs, parentheses and an odd number of
  negations, and no macro otherwise.
\<close>

theorem IfNDefMacro_exact:
  assumes fin: "finite_line PP m" and fuel: "m (pp_rest start) < fuel" and e: "grammatical e" "4 \<le> level e"
    and s: "stands PP (directive_start PP start) (spell e @ [(False, t)])" "getKind t = tok_eod"
    and r: "EvaluateDirectiveExpression fuel PP start = Evaluated r st"
  shows "IfNDefMacro r = (case guard_form e of Some (X, True) \<Rightarrow> Some X | _ \<Rightarrow> None)"
proof -
  let ?st = "directive_start PP start"
  let ?t = "tree_value PP Own e (new_value PP (IntMaxTWidth PP)) new_tracker True ?st"
  have f: "finish_value fuel PP start ?t = Evaluated r st"
    using r directive_value [OF fin fuel e s] by (simp add: EvaluateDirectiveExpression_def)
  note tracks = tree_tracks [OF fin e(1) s(1), of "new_value PP (IntMaxTWidth PP)" new_tracker True]
  show ?thesis
  proof (cases ?t)
    case (Done x s')
    have "peek_is tok_eod s'" using stands_peek [OF tree_okD(2) [OF tree_ok [OF fin e(1)] s(1) Done]] s(2) by (simp add: peek_is_def)
    then have "IfNDefMacro r = (if State (snd x) = NotDefinedMacro then TheMacro (snd x) else None)"
      using f by (cases x) (auto simp: Done finish_value_def evaluated_def)
    then show ?thesis using tracks Done by (auto simp: tracks_def split: option.splits bool.splits prod.splits)
  next
    case (Failed inc s')
    then have "IfNDefMacro r = None" using f by (auto simp: finish_value_def evaluated_def split: option.splits)
    then show ?thesis using tracks Failed by (auto split: option.splits)
  qed (use f in \<open>simp_all add: finish_value_def\<close>)
qed

section \<open>Examples\<close>

definition sample_tree :: pexpr where
  "sample_tree = Choice (Unary (plain_token tok_exclaim) (Defd (name_token ''defined'') (name_token ''X'')))
     (plain_token tok_question) (Binary (Simple (number_token ''1'')) (plain_token tok_plus)
       (Binary (Simple (number_token ''2'')) (plain_token tok_star) (Simple (number_token ''3''))))
     (plain_token tok_colon) (Simple (number_token ''0''))"

definition guard_tree :: pexpr where
  "guard_tree = Unary (plain_token tok_exclaim) (Defd (name_token ''defined'') (name_token ''X''))"

lemmas tree_simps = sample_tree_def guard_tree_def plain_token_def number_token_def name_token_def falls_through_def is_char_kind_def
  names_defined_def binary_kind_def precedence_of_def getPrecedence_def

lemma sample_grammatical: "grammatical sample_tree" "4 \<le> level sample_tree" "grammatical guard_tree" "4 \<le> level guard_tree"
  by (simp_all add: tree_simps)

lemma line_delivers: "delivers (line_pp macros) (map snd ts) (ts @ [(False, plain_token tok_eod)])"
  by (induction ts) (auto simp: line_pp_def line_lexer_def)

lemma line_stands:
  "stands (line_pp macros) (directive_start (line_pp macros) (line_start (map snd (spell e)))) (spell e @ [(False, plain_token tok_eod)])"
proof -
  obtain u us where e: "spell e = (False, u) # us" using spell_nonempty by blast
  have "directive_start (line_pp macros) (line_start (map snd (spell e))) =
      (line_start (map snd us))\<lparr>PeekTok := u, DisableMacroExpansion := False, ParsingIfOrElifDirective := True\<rparr>"
    by (simp add: e directive_start_def LexNonComment_def line_start_def) (simp add: line_pp_def line_lexer_def)
  then show ?thesis using line_delivers [of macros us] by (simp add: e stands_def) (simp add: line_start_def)
qed

theorem EvaluateDirectiveExpression_tree_witness:
  "let line = line_start (map snd (spell sample_tree)) in
   EvaluateDirectiveExpression 12 (line_pp []) line = finish_value 12 (line_pp []) line
     (tree_value (line_pp []) Own sample_tree (new_value (line_pp []) (IntMaxTWidth (line_pp []))) new_tracker True
       (directive_start (line_pp []) line))"
  unfolding Let_def
  by (rule EvaluateDirectiveExpression_tree [OF line_pp_finite _ sample_grammatical(1,2) line_stands])
    (simp_all add: line_start_def sample_tree_def plain_token_def)

lemma guard_spelled:
  "map snd (spell guard_tree) = [plain_token tok_exclaim, name_token ''defined'', name_token ''X'']"
  by (simp add: guard_tree_def)

lemmas line_evaluation = EvaluateDirectiveExpression_def directive_start_def line_start_def finish_value_def evaluated_def
  value_body_def first_token_def LexNonComment_def LexUnexpandedNonComment_def line_lexer_def peek_is_def is_char_kind_def
  plain_token_def name_token_def new_value_def new_tracker_def apsint_new_def eval_identifier_def EvaluateDefined_def
  defined_name_def CheckMacroName_def defined_in_macro_def apply_exclaim_def negate_tracker_def assign_bool_def is_zero_def

lemma line_pp_lexer:
  "Lex_NonComment (line_pp macros) = line_lexer" "Lex_UnexpandedNonComment (line_pp macros) = line_lexer"
  "getMacroDefinition (line_pp macros) II = (getName II \<in> set macros)" "IntMaxTWidth (line_pp macros) = 64"
  by (simp_all add: line_pp_def)

lemma guard_line:
  "\<exists>r st. EvaluateDirectiveExpression 4 (line_pp [])
      (line_start [plain_token tok_exclaim, name_token ''defined'', name_token ''X'']) = Evaluated r st \<and>
    IfNDefMacro r = Some \<lparr>getName = ''X'', isCPlusPlusOperatorKeyword = False\<rparr>"
proof -
  let ?line = "line_start (map snd (spell guard_tree))"
  have "length (pp_rest ?line) < 4" by (simp add: line_start_def guard_tree_def)
  note v = directive_value [OF line_pp_finite this sample_grammatical(3,4) line_stands]
  show ?thesis
    unfolding guard_spelled [symmetric] EvaluateDirectiveExpression_def
    by (subst v) (simp_all add: line_evaluation line_pp_lexer guard_tree_def leaf_value_def apply_unary_def)
qed

theorem IfNDefMacro_exact_witness:
  "\<exists>r st. EvaluateDirectiveExpression 4 (line_pp []) (line_start (map snd (spell guard_tree))) = Evaluated r st \<and>
     IfNDefMacro r = Some \<lparr>getName = ''X'', isCPlusPlusOperatorKeyword = False\<rparr>"
proof -
  obtain r st where r: "EvaluateDirectiveExpression 4 (line_pp []) (line_start (map snd (spell guard_tree))) = Evaluated r st"
    using guard_line [folded guard_spelled] by blast
  have "length (pp_rest (line_start (map snd (spell guard_tree)))) < 4" by (simp add: line_start_def guard_tree_def)
  from IfNDefMacro_exact [OF line_pp_finite this sample_grammatical(3,4) line_stands _ r]
  have "IfNDefMacro r = Some \<lparr>getName = ''X'', isCPlusPlusOperatorKeyword = False\<rparr>"
    by (simp add: guard_tree_def plain_token_def name_token_def)
  then show ?thesis using r by blast
qed

theorem IfNDefMacro_sound_witness:
  "\<exists>r st. EvaluateDirectiveExpression 4 (line_pp [])
      (line_start [plain_token tok_exclaim, name_token ''defined'', name_token ''X'']) = Evaluated r st \<and> Conditional r"
proof -
  obtain r st where r: "EvaluateDirectiveExpression 4 (line_pp [])
      (line_start [plain_token tok_exclaim, name_token ''defined'', name_token ''X'']) = Evaluated r st"
    "IfNDefMacro r = Some \<lparr>getName = ''X'', isCPlusPlusOperatorKeyword = False\<rparr>" using guard_line by blast
  have "Conditional r" using IfNDefMacro_sound [OF line_pp_target r] by (simp add: line_pp_def)
  then show ?thesis using r by blast
qed

section \<open>What the flag and the literals miss\<close>

lemma line_diagnostics: "undef_identifier_ignored (line_pp macros)" "UndefPrefixes (line_pp macros) = []"
  by (simp_all add: line_pp_def)

definition sum_tree :: "pp_token \<Rightarrow> pp_token \<Rightarrow> pexpr" where
  "sum_tree l r = Binary (Simple l) (plain_token tok_plus) (Simple r)"

text \<open>
  An undefined identifier in the left operand of an operator is forgotten: \<open>U + true\<close> is reported to
  have no undefined identifiers, \<open>true + U\<close> to have one.
\<close>

theorem undefined_left_operand_forgotten:
  defines "U \<equiv> name_token ''U''" and "one \<equiv> plain_token tok_kw_true" and "op \<equiv> plain_token tok_plus"
  shows "\<exists>r st r' st'. EvaluateDirectiveExpression 4 (line_pp []) (line_start [U, op, one]) = Evaluated r st \<and>
    \<not> included_undefined r \<and>
    EvaluateDirectiveExpression 4 (line_pp []) (line_start [one, op, U]) = Evaluated r' st' \<and> included_undefined r'"
proof -
  have g: "grammatical (sum_tree U one)" "4 \<le> level (sum_tree U one)" "grammatical (sum_tree one U)" "4 \<le> level (sum_tree one U)"
    by (simp_all add: sum_tree_def U_def one_def tree_simps)
  have s: "map snd (spell (sum_tree l r)) = [l, op, r]" for l r by (simp add: sum_tree_def op_def)
  have n: "length (pp_rest (line_start (map snd (spell (sum_tree l r))))) < 4" for l r by (simp add: s line_start_def)
  note v = directive_value [OF line_pp_finite n g(1,2) line_stands] directive_value [OF line_pp_finite n g(3,4) line_stands]
  have "\<exists>r st. EvaluateDirectiveExpression 4 (line_pp []) (line_start [U, op, one]) = Evaluated r st \<and> \<not> included_undefined r"
    unfolding s [symmetric] EvaluateDirectiveExpression_def
    by (subst v(1)) (simp_all add: line_evaluation line_pp_lexer sum_tree_def U_def one_def leaf_value_def eval_bool_def
        binary_value_def apply_binary_def no_conversion_def compute_def rhs_is_live_def undef_warnings_def Diag_def with_diags_def
        line_diagnostics Let_def)
  moreover have "\<exists>r st. EvaluateDirectiveExpression 4 (line_pp []) (line_start [one, op, U]) = Evaluated r st \<and> included_undefined r"
    unfolding s [symmetric] EvaluateDirectiveExpression_def
    by (subst v(2)) (simp_all add: line_evaluation line_pp_lexer sum_tree_def U_def one_def leaf_value_def eval_bool_def
        binary_value_def apply_binary_def no_conversion_def compute_def rhs_is_live_def undef_warnings_def Diag_def with_diags_def
        line_diagnostics Let_def)
  ultimately show ?thesis by blast
qed

text \<open>With \<open>FixedPoint\<close>, a fixed-point literal fails the assertion that the number is an integer.\<close>

definition fixed_options :: lang_options where
  "fixed_options = sample_options\<lparr>FixedPoint := True\<rparr>"

lemma fixed_literal:
  "\<exists>np. NumericLiteralParser fixed_options False hexDigitValue_model (\<lambda>_. None) ''1.0k'' = Some np \<and>
     \<not> hadError np \<and> isFixedPointLiteral np \<and> \<not> isImaginary np"
proof -
  have "case NumericLiteralParser fixed_options False hexDigitValue_model (\<lambda>_. None) ''1.0k'' of None \<Rightarrow> False
     | Some np \<Rightarrow> \<not> hadError np \<and> isFixedPointLiteral np \<and> \<not> isImaginary np" by code_simp
  then show ?thesis by (simp split: option.splits)
qed

theorem fixed_point_condition_asserts:
  "EvaluateDirectiveExpression 2 ((line_pp [])\<lparr>LangOpts := fixed_options\<rparr>) (line_start [number_token ''1.0k'']) = AssertionFailed"
proof -
  obtain np where np: "NumericLiteralParser fixed_options False hexDigitValue_model (\<lambda>_. None) ''1.0k'' = Some np"
    "\<not> hadError np" "isFixedPointLiteral np" "\<not> isImaginary np" using fixed_literal by blast
  then show ?thesis
    by (simp add: EvaluateDirectiveExpression_def directive_start_def LexNonComment_def line_start_def line_pp_def line_lexer_def
        number_token_def plain_token_def eval_nat_numeral value_body_leaf leaf_value_def eval_number_def finish_value_def
        isFloatingLiteral_def isIntegerLiteral_def Let_def)
qed

end
