(* ===== verification/HeaderMap.thy ===== *)
theory HeaderMap
  imports CharEscapes
begin

unbundle bit_operations_syntax

text \<open>
  Header maps (\<open>lib/Lex/HeaderMap.cpp\<close>, \<open>HeaderMapTypes.h\<close>): a file that is a hash table from
  relative names to paths.  The file is a string of bytes; a word is read in the byte order
  of the host (\<open>big\<close>), and swapped when the file was written in the other one.  The helpers of
  LLVM (byte swapping, powers of two, comparison ignoring case) are parameters.
\<close>

section \<open>The file format\<close>

definition HMAP_HeaderMagicNumber :: u32 where
  "HMAP_HeaderMagicNumber = push_bit 24 0x68 OR push_bit 16 0x6D OR push_bit 8 0x61 OR 0x70"

definition HMAP_HeaderVersion :: u16 where "HMAP_HeaderVersion = 1"

definition HMAP_EmptyBucketKey :: u32 where "HMAP_EmptyBucketKey = 0"

record HMapBucket =
  Key :: u32
  Prefix :: u32
  Suffix :: u32

record HMapHeader =
  Magic :: u32
  Version :: u16
  Reserved :: u16
  StringsOffset :: u32
  NumEntries :: u32
  NumBuckets :: u32
  MaxValueLength :: u32

definition sizeof_HMapHeader :: nat where "sizeof_HMapHeader = 24"
definition sizeof_HMapBucket :: nat where "sizeof_HMapBucket = 12"

record llvm_ops =
  ByteSwap_32 :: "u32 \<Rightarrow> u32"
  ByteSwap_16 :: "u16 \<Rightarrow> u16"
  isPowerOf2_32 :: "u32 \<Rightarrow> bool"
  equals_lower :: "string \<Rightarrow> string \<Rightarrow> bool"

definition bytes_value :: "string \<Rightarrow> nat" where
  "bytes_value bs = foldl (\<lambda>v b. 256 * v + of_char b) 0 bs"

text \<open>What LLVM documents of them.\<close>

definition llvm_ok :: "llvm_ops \<Rightarrow> bool" where
  "llvm_ok L \<longleftrightarrow>
     (\<forall>a b c d. ByteSwap_32 L (of_nat (bytes_value [a, b, c, d])) = of_nat (bytes_value [d, c, b, a])) \<and>
     (\<forall>a b. ByteSwap_16 L (of_nat (bytes_value [a, b])) = of_nat (bytes_value [b, a])) \<and>
     (\<forall>n. isPowerOf2_32 L n = (\<exists>k < 32. n = 2 ^ k)) \<and>
     (\<forall>s t. equals_lower L s t = (map toLowercase s = map toLowercase t))"

definition read_bytes :: "bool \<Rightarrow> string \<Rightarrow> nat \<Rightarrow> nat \<Rightarrow> nat" where
  "read_bytes big buf off n =
     (let bs = map (peek buf) [off..<off + n] in bytes_value (if big then bs else rev bs))"

definition read32 :: "bool \<Rightarrow> string \<Rightarrow> nat \<Rightarrow> u32" where
  "read32 big buf off = of_nat (read_bytes big buf off 4)"

definition read16 :: "bool \<Rightarrow> string \<Rightarrow> nat \<Rightarrow> u16" where
  "read16 big buf off = of_nat (read_bytes big buf off 2)"

text \<open>\<open>reinterpret_cast\<close> of the start of the file, of a bucket.\<close>

definition header_at :: "bool \<Rightarrow> string \<Rightarrow> HMapHeader" where
  "header_at big buf = \<lparr>Magic = read32 big buf 0, Version = read16 big buf 4, Reserved = read16 big buf 6,
     StringsOffset = read32 big buf 8, NumEntries = read32 big buf 12, NumBuckets = read32 big buf 16,
     MaxValueLength = read32 big buf 20\<rparr>"

section \<open>Verification and construction\<close>

definition HashHMapKey :: "string \<Rightarrow> u32" where
  "HashHMapKey Str = foldl (\<lambda>Result c. Result + char_to_unsigned (toLowercase c) * 13) 0 Str"

text \<open>The byte order flag of a file that looks like a header map.\<close>

definition checkHeader :: "llvm_ops \<Rightarrow> bool \<Rightarrow> string \<Rightarrow> bool option" where
  "checkHeader L big File =
     (if length File \<le> sizeof_HMapHeader then None
      else
      let Header = header_at big File;
          sniff = (if Magic Header = HMAP_HeaderMagicNumber \<and> Version Header = HMAP_HeaderVersion then Some False
            else if Magic Header = ByteSwap_32 L HMAP_HeaderMagicNumber \<and>
                    Version Header = ByteSwap_16 L HMAP_HeaderVersion then Some True
            else None)
      in case sniff of None \<Rightarrow> None
      | Some NeedsByteSwap \<Rightarrow>
          if Reserved Header \<noteq> 0 then None
          else
          let n = (if NeedsByteSwap then ByteSwap_32 L (NumBuckets Header) else NumBuckets Header)
          in if \<not> isPowerOf2_32 L n then None
             else if length File < sizeof_HMapHeader + sizeof_HMapBucket * unat n then None
             else Some NeedsByteSwap)"

record header_map =
  FileBuffer :: string
  NeedsBSwap :: bool

text \<open>\<open>FileSize\<close> is \<open>FE->getSize()\<close>, cut to \<open>unsigned\<close>; \<open>File\<close> is what \<open>FM.getBufferForFile\<close> returns.\<close>

definition Create :: "llvm_ops \<Rightarrow> bool \<Rightarrow> u64 \<Rightarrow> string option \<Rightarrow> header_map option" where
  "Create L big FileSize File =
     (if unat (ucast FileSize :: u32) \<le> sizeof_HMapHeader then None
      else case File of None \<Rightarrow> None
      | Some buf \<Rightarrow>
        (case checkHeader L big buf of None \<Rightarrow> None
         | Some NeedsByteSwap \<Rightarrow> Some \<lparr>FileBuffer = buf, NeedsBSwap = NeedsByteSwap\<rparr>))"

section \<open>Access\<close>

definition getEndianAdjustedWord :: "llvm_ops \<Rightarrow> header_map \<Rightarrow> u32 \<Rightarrow> u32" where
  "getEndianAdjustedWord L hm X = (if \<not> NeedsBSwap hm then X else ByteSwap_32 L X)"

definition getHeader :: "bool \<Rightarrow> header_map \<Rightarrow> HMapHeader" where
  "getHeader big hm = header_at big (FileBuffer hm)"

text \<open>\<open>None\<close> where the assertion fails.\<close>

definition getBucket :: "llvm_ops \<Rightarrow> bool \<Rightarrow> header_map \<Rightarrow> u32 \<Rightarrow> HMapBucket option" where
  "getBucket L big hm BucketNo =
     (let buf = FileBuffer hm; BucketPtr = sizeof_HMapHeader + sizeof_HMapBucket * unat BucketNo in
      if \<not> BucketPtr \<le> length buf then None
      else Some \<lparr>Key = getEndianAdjustedWord L hm (read32 big buf BucketPtr),
        Prefix = getEndianAdjustedWord L hm (read32 big buf (BucketPtr + 4)),
        Suffix = getEndianAdjustedWord L hm (read32 big buf (BucketPtr + 8))\<rparr>)"

definition strnlen :: "string \<Rightarrow> nat \<Rightarrow> nat \<Rightarrow> nat" where
  "strnlen buf i MaxLen = length (takeWhile (\<lambda>c. c \<noteq> CHR 0x00) (take MaxLen (drop i buf)))"

definition getString :: "llvm_ops \<Rightarrow> bool \<Rightarrow> header_map \<Rightarrow> u32 \<Rightarrow> string option" where
  "getString L big hm StrTabIdx =
     (let buf = FileBuffer hm;
          i = unat (StrTabIdx + getEndianAdjustedWord L hm (StringsOffset (getHeader big hm))) in
      if length buf \<le> i then None
      else let MaxLen = (length buf - i) mod 2 ^ 32; Len = strnlen buf i MaxLen in
        if Len = MaxLen \<and> peek buf (i + (Len - 1)) \<noteq> CHR 0x00 then None
        else Some (slice buf i (i + Len)))"

section \<open>Lookup\<close>

datatype lookup_outcome = HashMiss | Match string | AssertionFailure

text \<open>The loop has no condition: \<open>None\<close> is a lookup that does not return.\<close>

partial_function (option) probe ::
  "llvm_ops \<Rightarrow> bool \<Rightarrow> header_map \<Rightarrow> string \<Rightarrow> u32 \<Rightarrow> u32 \<Rightarrow> lookup_outcome option" where
  "probe L big hm Filename n Bucket =
     (case getBucket L big hm (Bucket AND (n - 1)) of
        None \<Rightarrow> Some AssertionFailure
      | Some B \<Rightarrow>
          if Key B = HMAP_EmptyBucketKey then Some HashMiss
          else (case getString L big hm (Key B) of
              None \<Rightarrow> probe L big hm Filename n (Bucket + 1)
            | Some key \<Rightarrow>
                if \<not> equals_lower L Filename key then probe L big hm Filename n (Bucket + 1)
                else Some (Match (case (getString L big hm (Prefix B), getString L big hm (Suffix B)) of
                    (Some p, Some s) \<Rightarrow> p @ s | _ \<Rightarrow> []))))"

definition lookupFilename ::
  "llvm_ops \<Rightarrow> bool \<Rightarrow> header_map \<Rightarrow> string \<Rightarrow> lookup_outcome option" where
  "lookupFilename L big hm Filename =
     (let n = getEndianAdjustedWord L hm (NumBuckets (getHeader big hm)) in
      if \<not> isPowerOf2_32 L n then Some AssertionFailure
      else probe L big hm Filename n (HashHMapKey Filename))"

text \<open>\<open>getOptionalFileRef\<close> of the file manager gives the file of a path.\<close>

definition LookupFile ::
  "llvm_ops \<Rightarrow> bool \<Rightarrow> (string \<Rightarrow> 'file option) \<Rightarrow> header_map \<Rightarrow> string \<Rightarrow> 'file option option" where
  "LookupFile L big getOptionalFileRef hm Filename =
     map_option (\<lambda>r. case r of Match Dest \<Rightarrow> if Dest = [] then None else getOptionalFileRef Dest | _ \<Rightarrow> None)
       (lookupFilename L big hm Filename)"

section \<open>Accepted files\<close>

abbreviation bucket_count :: "llvm_ops \<Rightarrow> bool \<Rightarrow> header_map \<Rightarrow> u32" where
  "bucket_count L big hm \<equiv> getEndianAdjustedWord L hm (NumBuckets (getHeader big hm))"

lemma checkHeader_buckets:
  assumes "checkHeader L big buf = Some swap"
  shows "isPowerOf2_32 L (bucket_count L big \<lparr>FileBuffer = buf, NeedsBSwap = swap\<rparr>)"
    "24 + 12 * unat (bucket_count L big \<lparr>FileBuffer = buf, NeedsBSwap = swap\<rparr>) \<le> length buf"
  using assms
  by (auto simp: checkHeader_def Let_def getEndianAdjustedWord_def getHeader_def sizeof_HMapHeader_def
    sizeof_HMapBucket_def split: option.splits if_splits)

lemma unat_power_u32: "k < 32 \<Longrightarrow> unat (2 ^ k :: u32) = 2 ^ k"
proof -
  assume "k < 32"
  then have "(2 :: nat) ^ k < 2 ^ 32" by (intro power_strict_increasing) auto
  then have "unat (of_nat (2 ^ k) :: u32) = 2 ^ k" by (subst unat_of_nat) simp
  then show ?thesis by simp
qed

lemma Create_ok:
  assumes "llvm_ok L" "Create L big FileSize File = Some hm"
  obtains k where "k < 32" "bucket_count L big hm = 2 ^ k" "24 + 12 * 2 ^ k \<le> length (FileBuffer hm)"
proof -
  obtain buf swap where r: "checkHeader L big buf = Some swap" "hm = \<lparr>FileBuffer = buf, NeedsBSwap = swap\<rparr>"
    using assms(2) by (auto simp: Create_def split: option.splits if_splits)
  note b = checkHeader_buckets [OF r(1), folded r(2)]
  from b(1) assms(1) obtain k where k: "k < 32" "bucket_count L big hm = 2 ^ k" by (auto simp: llvm_ok_def)
  have "unat (2 ^ k :: u32) = 2 ^ k" by (rule unat_power_u32 [OF k(1)])
  with b(2) k r(2) show ?thesis by (intro that [of k]) auto
qed

section \<open>The buckets a lookup visits\<close>

definition key_matches :: "llvm_ops \<Rightarrow> bool \<Rightarrow> header_map \<Rightarrow> string \<Rightarrow> HMapBucket \<Rightarrow> bool" where
  "key_matches L big hm Filename B \<longleftrightarrow>
     (case getString L big hm (Key B) of None \<Rightarrow> False | Some key \<Rightarrow> equals_lower L Filename key)"

definition destination :: "llvm_ops \<Rightarrow> bool \<Rightarrow> header_map \<Rightarrow> HMapBucket \<Rightarrow> string" where
  "destination L big hm B = (case (getString L big hm (Prefix B), getString L big hm (Suffix B)) of
     (Some p, Some s) \<Rightarrow> p @ s | _ \<Rightarrow> [])"

text \<open>The lookup ends at a bucket: it is empty, or it has the key.\<close>

definition decisive :: "llvm_ops \<Rightarrow> bool \<Rightarrow> header_map \<Rightarrow> string \<Rightarrow> HMapBucket \<Rightarrow> bool" where
  "decisive L big hm Filename B \<longleftrightarrow> Key B = HMAP_EmptyBucketKey \<or> key_matches L big hm Filename B"

definition outcome :: "llvm_ops \<Rightarrow> bool \<Rightarrow> header_map \<Rightarrow> HMapBucket \<Rightarrow> lookup_outcome" where
  "outcome L big hm B =
     (if Key B = HMAP_EmptyBucketKey then HashMiss else Match (destination L big hm B))"

lemma probe_step:
  assumes "getBucket L big hm (b AND (n - 1)) = Some B"
  shows "probe L big hm Filename n b =
    (if decisive L big hm Filename B then Some (outcome L big hm B) else probe L big hm Filename n (b + 1))"
  by (subst probe.simps)
    (auto simp: assms decisive_def outcome_def key_matches_def destination_def split: option.split)

lemma probe_first:
  assumes "\<And>i. i < j \<Longrightarrow> \<exists>B. getBucket L big hm ((b + of_nat i) AND (n - 1)) = Some B \<and> \<not> decisive L big hm Filename B"
    and "getBucket L big hm ((b + of_nat j) AND (n - 1)) = Some B" "decisive L big hm Filename B"
  shows "probe L big hm Filename n b = Some (outcome L big hm B)"
  using assms
proof (induction j arbitrary: b)
  case 0
  then show ?case by (simp add: probe_step)
next
  case (Suc j)
  obtain B' where "getBucket L big hm (b AND (n - 1)) = Some B'" "\<not> decisive L big hm Filename B'"
    using Suc.prems(1) [of 0] by auto
  then have "probe L big hm Filename n b = probe L big hm Filename n (b + 1)" by (simp add: probe_step)
  moreover have "probe L big hm Filename n (b + 1) = Some (outcome L big hm B)"
  proof (rule Suc.IH)
    show "\<exists>B. getBucket L big hm ((b + 1 + of_nat i) AND (n - 1)) = Some B \<and> \<not> decisive L big hm Filename B"
      if "i < j" for i
      using Suc.prems(1) [of "Suc i"] that by (simp add: add.assoc)
  qed (use Suc.prems(2,3) in \<open>simp_all add: add.assoc\<close>)
  ultimately show ?case by simp
qed

lemma probe_never:
  assumes all: "\<And>b. \<exists>B. getBucket L big hm (b AND (n - 1)) = Some B \<and> \<not> decisive L big hm Filename B"
  shows "probe L big hm Filename n b = None"
proof -
  define always where "always L big hm Filename n \<longleftrightarrow>
    (\<forall>b. \<exists>B. getBucket L big hm (b AND (n - 1)) = Some B \<and> \<not> decisive L big hm Filename B)"
    for L big hm Filename n
  have "\<not> always L big hm Filename n" if "probe L big hm Filename n b = Some r" for r
  proof (rule probe.raw_induct [where P = "\<lambda>L big hm Filename n b r. \<not> always L big hm Filename n", OF _ that])
    fix prb L big hm Filename n b r
    assume IH: "\<And>L big hm Filename n b r. prb L big hm Filename n b = Some r \<Longrightarrow> \<not> always L big hm Filename n"
      and step: "(case getBucket L big hm (b AND (n - 1)) of None \<Rightarrow> Some AssertionFailure
        | Some B \<Rightarrow> if Key B = HMAP_EmptyBucketKey then Some HashMiss
            else case getString L big hm (Key B) of None \<Rightarrow> prb L big hm Filename n (b + 1)
              | Some key \<Rightarrow> if \<not> equals_lower L Filename key then prb L big hm Filename n (b + 1)
                else Some (Match (case (getString L big hm (Prefix B), getString L big hm (Suffix B)) of
                    (Some p, Some s) \<Rightarrow> p @ s | _ \<Rightarrow> []))) = Some r"
    show "\<not> always L big hm Filename n"
    proof
      assume al: "always L big hm Filename n"
      then obtain B where "getBucket L big hm (b AND (n - 1)) = Some B" "\<not> decisive L big hm Filename B"
        unfolding always_def by blast
      with step have "prb L big hm Filename n (b + 1) = Some r"
        by (auto simp: decisive_def key_matches_def split: option.splits if_splits)
      from IH [OF this] al show False by simp
    qed
  qed
  moreover have "always L big hm Filename n" unfolding always_def using all by blast
  ultimately show ?thesis by (cases "probe L big hm Filename n b") auto
qed

lemma mask_index: "k < 32 \<Longrightarrow> unat ((b :: u32) AND (2 ^ k - 1)) = unat b mod 2 ^ k"
  by (simp only: mask_eq_exp_minus_1 [symmetric] take_bit_eq_mask [symmetric] unsigned_take_bit_eq)
    (simp add: take_bit_eq_mod)

lemma unat_index:
  assumes "k < 32"
  shows "unat (((b :: u32) + of_nat j) AND (2 ^ k - 1)) = (unat b + j) mod 2 ^ k"
proof -
  have "(2 :: nat) ^ k dvd 2 ^ 32" using assms by (intro le_imp_power_dvd) simp
  then show ?thesis
    by (simp add: mask_index [OF assms] unat_word_ariths mod_mod_cancel unat_of_nat mod_add_right_eq)
qed

lemma mask_cover:
  assumes "k < 32" "i < 2 ^ k"
  obtains j where "j < 2 ^ k" "((b :: u32) + of_nat j) AND (2 ^ k - 1) = of_nat i"
proof -
  let ?m = "2 ^ k :: nat" and ?h = "unat b mod 2 ^ k"
  define j where "j = (i + (?m - ?h)) mod ?m"
  have hm: "?h < ?m" by simp
  have "(unat b + j) mod ?m = (?h + (i + (?m - ?h))) mod ?m"
    unfolding j_def by (metis mod_add_eq mod_mod_trivial)
  also have "?h + (i + (?m - ?h)) = i + ?m" using hm by linarith
  also have "\<dots> mod ?m = i" using assms(2) by simp
  finally have "unat ((b + of_nat j) AND (2 ^ k - 1)) = i" by (simp add: unat_index [OF assms(1)])
  then have "(b + of_nat j) AND (2 ^ k - 1) = of_nat i" by auto
  moreover have "j < ?m" by (simp add: j_def)
  ultimately show ?thesis using that [of j] by blast
qed

lemma getBucket_accepted:
  assumes "k < 32" "24 + 12 * 2 ^ k \<le> length (FileBuffer hm)"
  shows "\<exists>B. getBucket L big hm (b AND (2 ^ k - 1)) = Some B"
proof -
  have "unat (b AND (2 ^ k - 1)) < 2 ^ k" by (simp add: mask_index [OF assms(1)])
  with assms(2) show ?thesis by (simp add: getBucket_def Let_def sizeof_HMapHeader_def sizeof_HMapBucket_def)
qed

text \<open>The bucket of the \<open>j\<close>-th probe.\<close>

definition visited :: "llvm_ops \<Rightarrow> bool \<Rightarrow> header_map \<Rightarrow> string \<Rightarrow> nat \<Rightarrow> HMapBucket" where
  "visited L big hm Filename j =
     the (getBucket L big hm ((HashHMapKey Filename + of_nat j) AND (bucket_count L big hm - 1)))"

definition nth_bucket :: "llvm_ops \<Rightarrow> bool \<Rightarrow> header_map \<Rightarrow> nat \<Rightarrow> HMapBucket" where
  "nth_bucket L big hm i = the (getBucket L big hm (of_nat i))"

lemma lookup_visits:
  assumes "llvm_ok L" "Create L big FileSize File = Some hm"
  shows "(\<exists>j < unat (bucket_count L big hm). (\<forall>i < j. \<not> decisive L big hm Filename (visited L big hm Filename i)) \<and>
      decisive L big hm Filename (visited L big hm Filename j) \<and>
      lookupFilename L big hm Filename = Some (outcome L big hm (visited L big hm Filename j))) \<or>
    (\<forall>i < unat (bucket_count L big hm). \<not> decisive L big hm Filename (nth_bucket L big hm i)) \<and>
      lookupFilename L big hm Filename = None"
proof -
  obtain k where k: "k < 32" "bucket_count L big hm = 2 ^ k" "24 + 12 * 2 ^ k \<le> length (FileBuffer hm)"
    by (rule Create_ok [OF assms])
  let ?n = "2 ^ k :: u32" and ?h = "HashHMapKey Filename"
  let ?d = "\<lambda>j. decisive L big hm Filename (visited L big hm Filename j)"
  have n: "unat ?n = 2 ^ k" by (rule unat_power_u32 [OF k(1)])
  have "isPowerOf2_32 L ?n" using assms(1) k(1) by (auto simp: llvm_ok_def)
  then have look: "lookupFilename L big hm Filename = probe L big hm Filename ?n ?h"
    by (simp add: lookupFilename_def k(2))
  have bucket: "getBucket L big hm ((?h + of_nat j) AND (?n - 1)) = Some (visited L big hm Filename j)" for j
    using getBucket_accepted [OF k(1,3), of L big "?h + of_nat j"] by (auto simp: visited_def k(2))
  show ?thesis
  proof (cases "\<exists>j < 2 ^ k. ?d j")
    case True
    define j where "j = (LEAST j. ?d j)"
    have j: "?d j" "\<And>i. i < j \<Longrightarrow> \<not> ?d i" "j < 2 ^ k"
      using True LeastI [of ?d] not_less_Least [of _ ?d] Least_le [of ?d] unfolding j_def
      by (blast, blast, meson le_less_trans)
    have "probe L big hm Filename ?n ?h = Some (outcome L big hm (visited L big hm Filename j))"
      using bucket j by (intro probe_first) auto
    then show ?thesis using j look n by (auto simp: k(2))
  next
    case False
    have nd: "\<exists>B. getBucket L big hm (b AND (?n - 1)) = Some B \<and> \<not> decisive L big hm Filename B" for b
    proof -
      have "unat (b AND (?n - 1)) < 2 ^ k" by (simp add: mask_index [OF k(1)])
      then obtain j where "j < 2 ^ k" "(?h + of_nat j) AND (?n - 1) = of_nat (unat (b AND (?n - 1)))"
        by (rule mask_cover [OF k(1), where b = ?h])
      then have "j < 2 ^ k" "(?h + of_nat j) AND (?n - 1) = b AND (?n - 1)" by simp_all
      then show ?thesis using bucket [of j] False by auto
    qed
    have "\<not> decisive L big hm Filename (nth_bucket L big hm i)" if i: "i < 2 ^ k" for i
    proof -
      obtain j where "j < 2 ^ k" "(?h + of_nat j) AND (?n - 1) = of_nat i"
        using i by (rule mask_cover [OF k(1), where b = ?h])
      then show ?thesis using nd [of "?h + of_nat j"] by (auto simp: nth_bucket_def)
    qed
    then show ?thesis using probe_never [OF nd] look n by (simp add: k(2))
  qed
qed

section \<open>Properties\<close>

text \<open>
  C34. A file that is accepted as a header map has a power of two of buckets, and all of them lie within the
  file, so that no bucket a lookup reads is out of bounds and no assertion fails in it.
\<close>

theorem accepted_file_in_bounds:
  assumes "llvm_ok L" "Create L big FileSize File = Some hm"
  shows "(\<exists>k. unat (bucket_count L big hm) = 2 ^ k) \<and>
    (\<forall>i < unat (bucket_count L big hm).
       sizeof_HMapHeader + sizeof_HMapBucket * (i + 1) \<le> length (FileBuffer hm)) \<and>
    lookupFilename L big hm Filename \<noteq> Some AssertionFailure"
proof -
  obtain k where k: "k < 32" "bucket_count L big hm = 2 ^ k" "24 + 12 * 2 ^ k \<le> length (FileBuffer hm)"
    by (rule Create_ok [OF assms])
  have n: "unat (bucket_count L big hm) = 2 ^ k" unfolding k(2) by (rule unat_power_u32 [OF k(1)])
  have "lookupFilename L big hm Filename \<noteq> Some AssertionFailure"
    using lookup_visits [OF assms, of Filename] by (auto simp: outcome_def split: if_splits)
  then show ?thesis using n k(3) by (auto simp: sizeof_HMapHeader_def sizeof_HMapBucket_def)
qed

text \<open>
  C35. A lookup in an accepted file returns exactly when some bucket is empty or has the key.  The check on
  the header does not ask for an empty bucket: in a full table a lookup of a name it
  does not have probes for ever, in spite of the comment "Don't probe infinitely".
\<close>

theorem lookup_returns_iff:
  assumes "llvm_ok L" "Create L big FileSize File = Some hm"
  shows "lookupFilename L big hm Filename \<noteq> None \<longleftrightarrow>
    (\<exists>i < unat (bucket_count L big hm).
       Key (nth_bucket L big hm i) = HMAP_EmptyBucketKey \<or> key_matches L big hm Filename (nth_bucket L big hm i))"
proof -
  obtain k where k: "k < 32" "bucket_count L big hm = 2 ^ k" "24 + 12 * 2 ^ k \<le> length (FileBuffer hm)"
    by (rule Create_ok [OF assms])
  have n: "unat (bucket_count L big hm) = 2 ^ k" unfolding k(2) by (rule unat_power_u32 [OF k(1)])
  have "visited L big hm Filename j = nth_bucket L big hm (unat ((HashHMapKey Filename + of_nat j) AND (2 ^ k - 1)))" for j
    by (simp add: visited_def nth_bucket_def k(2))
  moreover have "unat ((HashHMapKey Filename + of_nat j) AND (2 ^ k - 1)) < 2 ^ k" for j
    by (simp add: mask_index [OF k(1)])
  ultimately have "\<exists>i < 2 ^ k. visited L big hm Filename j = nth_bucket L big hm i" for j by blast
  with lookup_visits [OF assms, of Filename] show ?thesis
    unfolding decisive_def n by (metis option.distinct(1))
qed

text \<open>
  A lookup gives the answer of the first bucket in probe order, from the one the hash names on
  and round the table, that is empty or has the key: a miss, or the prefix and the suffix put together.
\<close>

theorem lookup_first_decisive:
  assumes "llvm_ok L" "Create L big FileSize File = Some hm"
    and "\<And>i. i < j \<Longrightarrow> \<not> decisive L big hm Filename (visited L big hm Filename i)"
    and "decisive L big hm Filename (visited L big hm Filename j)"
  shows "visited L big hm Filename j = nth_bucket L big hm
      ((unat (HashHMapKey Filename) + j) mod unat (bucket_count L big hm)) \<and>
    lookupFilename L big hm Filename = Some (outcome L big hm (visited L big hm Filename j))"
proof -
  obtain k where k: "k < 32" "bucket_count L big hm = 2 ^ k" "24 + 12 * 2 ^ k \<le> length (FileBuffer hm)"
    by (rule Create_ok [OF assms(1,2)])
  have n: "unat (2 ^ k :: u32) = 2 ^ k" by (rule unat_power_u32 [OF k(1)])
  have bucket: "getBucket L big hm ((HashHMapKey Filename + of_nat i) AND (2 ^ k - 1)) = Some (visited L big hm Filename i)" for i
    using getBucket_accepted [OF k(1,3), of L big "HashHMapKey Filename + of_nat i"] by (auto simp: visited_def k(2))
  have "lookupFilename L big hm Filename = probe L big hm Filename (2 ^ k) (HashHMapKey Filename)"
    using assms(1) k(1) by (auto simp: lookupFilename_def k(2) llvm_ok_def Let_def)
  also have "\<dots> = Some (outcome L big hm (visited L big hm Filename j))"
    using bucket assms(3,4) by (intro probe_first) auto
  finally have "lookupFilename L big hm Filename = Some (outcome L big hm (visited L big hm Filename j))" .
  moreover have "(HashHMapKey Filename + of_nat j) AND (2 ^ k - 1) =
      of_nat ((unat (HashHMapKey Filename) + j) mod 2 ^ k)"
    using unat_index [OF k(1), of "HashHMapKey Filename" j] by (metis of_nat_unat ucast_id)
  ultimately show ?thesis by (simp add: visited_def nth_bucket_def k(2) n)
qed

lemma HashHMapKey_lower:
  "map toLowercase s = map toLowercase t \<Longrightarrow> HashHMapKey s = HashHMapKey t"
proof -
  have "HashHMapKey s = foldl (\<lambda>r c. r + char_to_unsigned c * 13) 0 (map toLowercase s)" for s
    by (simp add: HashHMapKey_def foldl_map)
  then show "map toLowercase s = map toLowercase t \<Longrightarrow> HashHMapKey s = HashHMapKey t" by simp
qed

text \<open>The byte order of the host: what a reader of one kind sees, a reader of the other sees swapped.\<close>

lemma read32_swap: "llvm_ok L \<Longrightarrow> read32 True buf i = ByteSwap_32 L (read32 False buf i)"
  by (simp add: read32_def read_bytes_def llvm_ok_def eval_nat_numeral upt_conv_Cons)

lemma read16_swap: "llvm_ok L \<Longrightarrow> read16 True buf i = ByteSwap_16 L (read16 False buf i)"
  by (simp add: read16_def read_bytes_def llvm_ok_def eval_nat_numeral upt_conv_Cons)

lemma read32_unswap: "llvm_ok L \<Longrightarrow> ByteSwap_32 L (ByteSwap_32 L (read32 big buf i)) = read32 big buf i"
  by (cases big) (simp_all add: read32_def read_bytes_def llvm_ok_def eval_nat_numeral upt_conv_Cons)

lemma read16_unswap: "llvm_ok L \<Longrightarrow> ByteSwap_16 L (ByteSwap_16 L (read16 big buf i)) = read16 big buf i"
  by (cases big) (simp_all add: read16_def read_bytes_def llvm_ok_def eval_nat_numeral upt_conv_Cons)

text \<open>The same file as seen by the two kinds of hosts.\<close>

definition other_host :: "header_map \<Rightarrow> header_map" where
  "other_host hm = hm\<lparr>NeedsBSwap := \<not> NeedsBSwap hm\<rparr>"

lemma magic_bytes: "HMAP_HeaderMagicNumber = of_nat (bytes_value [CHR ''h'', CHR ''m'', CHR ''a'', CHR ''p''])"
  by (simp add: HMAP_HeaderMagicNumber_def bytes_value_def)

lemma magic_swap:
  assumes "llvm_ok L"
  shows "ByteSwap_32 L (ByteSwap_32 L HMAP_HeaderMagicNumber) = HMAP_HeaderMagicNumber"
    "ByteSwap_32 L HMAP_HeaderMagicNumber \<noteq> HMAP_HeaderMagicNumber"
    "ByteSwap_16 L (ByteSwap_16 L HMAP_HeaderVersion) = HMAP_HeaderVersion"
proof -
  have v: "HMAP_HeaderVersion = of_nat (bytes_value [CHR 0x00, CHR 0x01])"
    by (simp add: HMAP_HeaderVersion_def bytes_value_def)
  show "ByteSwap_32 L (ByteSwap_32 L HMAP_HeaderMagicNumber) = HMAP_HeaderMagicNumber"
    "ByteSwap_16 L (ByteSwap_16 L HMAP_HeaderVersion) = HMAP_HeaderVersion"
    using assms unfolding magic_bytes v llvm_ok_def by simp_all
  have "ByteSwap_32 L HMAP_HeaderMagicNumber = of_nat (bytes_value [CHR ''p'', CHR ''a'', CHR ''m'', CHR ''h''])"
    using assms unfolding magic_bytes llvm_ok_def by simp
  then show "ByteSwap_32 L HMAP_HeaderMagicNumber \<noteq> HMAP_HeaderMagicNumber"
    unfolding magic_bytes by (simp add: bytes_value_def)
qed

lemma header_other_host:
  assumes "llvm_ok L"
  shows "Magic (header_at True buf) = ByteSwap_32 L (Magic (header_at False buf))"
    "Version (header_at True buf) = ByteSwap_16 L (Version (header_at False buf))"
    "Reserved (header_at True buf) = 0 \<longleftrightarrow> Reserved (header_at False buf) = 0"
    "NumBuckets (header_at True buf) = ByteSwap_32 L (NumBuckets (header_at False buf))"
    "StringsOffset (header_at True buf) = ByteSwap_32 L (StringsOffset (header_at False buf))"
proof -
  have "(of_nat (bytes_value [a, b]) :: u16) = 0 \<longleftrightarrow> bytes_value [a, b] = 0" for a b
  proof -
    have "bytes_value [a, b] < 2 ^ 16"
      using of_char_less [of a] of_char_less [of b] by (simp add: bytes_value_def del: of_char_less)
    then have "unat (of_nat (bytes_value [a, b]) :: u16) = bytes_value [a, b]" by (simp add: unat_of_nat)
    then show ?thesis by (metis unsigned_eq_0_iff)
  qed
  moreover have "bytes_value [a, b] = 0 \<longleftrightarrow> bytes_value [b, a] = 0" for a b
    by (auto simp: bytes_value_def)
  ultimately have "(of_nat (bytes_value [a, b]) :: u16) = 0 \<longleftrightarrow> (of_nat (bytes_value [b, a]) :: u16) = 0" for a b
    by simp
  then show "Reserved (header_at True buf) = 0 \<longleftrightarrow> Reserved (header_at False buf) = 0"
    by (simp add: header_at_def read16_def read_bytes_def eval_nat_numeral upt_conv_Cons)
qed (simp_all add: header_at_def read32_swap [OF assms] read16_swap [OF assms])

lemma checkHeader_other_host:
  assumes L: "llvm_ok L"
  shows "checkHeader L True buf = map_option Not (checkHeader L False buf)"
proof -
  let ?B = "header_at True buf" and ?H = "header_at False buf"
  note h = header_other_host [OF L, of buf] and m = magic_swap [OF L]
  have un: "ByteSwap_32 L (ByteSwap_32 L (Magic ?H)) = Magic ?H" "ByteSwap_16 L (ByteSwap_16 L (Version ?H)) = Version ?H"
    "ByteSwap_32 L (ByteSwap_32 L (NumBuckets ?H)) = NumBuckets ?H"
    by (simp_all add: header_at_def read32_unswap [OF L] read16_unswap [OF L])
  have magic: "Magic ?B = HMAP_HeaderMagicNumber \<longleftrightarrow> Magic ?H = ByteSwap_32 L HMAP_HeaderMagicNumber"
    "Magic ?B = ByteSwap_32 L HMAP_HeaderMagicNumber \<longleftrightarrow> Magic ?H = HMAP_HeaderMagicNumber"
    "Version ?B = HMAP_HeaderVersion \<longleftrightarrow> Version ?H = ByteSwap_16 L HMAP_HeaderVersion"
    "Version ?B = ByteSwap_16 L HMAP_HeaderVersion \<longleftrightarrow> Version ?H = HMAP_HeaderVersion"
    unfolding h using un m by metis+
  have n: "ByteSwap_32 L (NumBuckets ?B) = NumBuckets ?H" "NumBuckets ?B = ByteSwap_32 L (NumBuckets ?H)"
    using h(4) un(3) by simp_all
  show ?thesis
    unfolding checkHeader_def Let_def magic h(3) n(1) using m(2) n(2) un(3) by simp
qed

lemma bucket_other_host:
  assumes L: "llvm_ok L" and s: "NeedsBSwap hm' = (\<not> NeedsBSwap hm)" "FileBuffer hm' = FileBuffer hm"
  shows "bucket_count L True hm' = bucket_count L False hm"
    "getBucket L True hm' = getBucket L False hm" "getString L True hm' = getString L False hm"
proof -
  have adj: "getEndianAdjustedWord L hm' (read32 True buf i) = getEndianAdjustedWord L hm (read32 False buf i)" for buf i
    using read32_unswap [OF L, of False] by (simp add: getEndianAdjustedWord_def s read32_swap [OF L])
  show "bucket_count L True hm' = bucket_count L False hm" by (simp add: getHeader_def header_at_def s adj)
  show "getBucket L True hm' = getBucket L False hm" by (intro ext) (simp add: getBucket_def Let_def s adj)
  show "getString L True hm' = getString L False hm"
    by (intro ext) (simp add: getString_def getHeader_def header_at_def Let_def s adj)
qed

text \<open>A lookup depends on the name only up to case, and not on who reads the file.\<close>

lemma probe_same:
  assumes "getBucket L' big' hm' = getBucket L big hm" "getString L' big' hm' = getString L big hm"
    "\<And>key. equals_lower L' Filename' key = equals_lower L Filename key"
  shows "probe L' big' hm' Filename' n b = probe L big hm Filename n b"
proof -
  have imp: "probe L1 big1 hm1 f1 n b = Some r"
    if run: "probe L2 big2 hm2 f2 n b = Some r"
      and eqs: "getBucket L1 big1 hm1 = getBucket L2 big2 hm2" "getString L1 big1 hm1 = getString L2 big2 hm2"
        "\<And>key. equals_lower L1 f1 key = equals_lower L2 f2 key" for L1 big1 hm1 f1 L2 big2 hm2 f2 r
  proof -
    define same where "same L2 big2 hm2 f2 \<longleftrightarrow> getBucket L1 big1 hm1 = getBucket L2 big2 hm2 \<and>
      getString L1 big1 hm1 = getString L2 big2 hm2 \<and> (\<forall>key. equals_lower L1 f1 key = equals_lower L2 f2 key)"
      for L2 big2 hm2 f2
    have "same L2 big2 hm2 f2 \<longrightarrow> probe L1 big1 hm1 f1 n b = Some r"
    proof (rule probe.raw_induct [where P = "\<lambda>L2 big2 hm2 f2 n b r. same L2 big2 hm2 f2 \<longrightarrow>
        probe L1 big1 hm1 f1 n b = Some r", OF _ run])
      fix prb L2 big2 hm2 f2 n b r
      assume IH: "\<And>L2 big2 hm2 f2 n b r. prb L2 big2 hm2 f2 n b = Some r \<Longrightarrow>
          same L2 big2 hm2 f2 \<longrightarrow> probe L1 big1 hm1 f1 n b = Some r"
        and step: "(case getBucket L2 big2 hm2 (b AND (n - 1)) of None \<Rightarrow> Some AssertionFailure
          | Some B \<Rightarrow> if Key B = HMAP_EmptyBucketKey then Some HashMiss
              else case getString L2 big2 hm2 (Key B) of None \<Rightarrow> prb L2 big2 hm2 f2 n (b + 1)
                | Some key \<Rightarrow> if \<not> equals_lower L2 f2 key then prb L2 big2 hm2 f2 n (b + 1)
                  else Some (Match (case (getString L2 big2 hm2 (Prefix B), getString L2 big2 hm2 (Suffix B)) of
                      (Some p, Some s) \<Rightarrow> p @ s | _ \<Rightarrow> []))) = Some r"
      show "same L2 big2 hm2 f2 \<longrightarrow> probe L1 big1 hm1 f1 n b = Some r"
      proof
        assume sm: "same L2 big2 hm2 f2"
        have IH': "probe L1 big1 hm1 f1 n (b + 1) = Some r" if "prb L2 big2 hm2 f2 n (b + 1) = Some r"
          using IH [OF that] sm by simp
        show "probe L1 big1 hm1 f1 n b = Some r"
        proof (cases "getBucket L2 big2 hm2 (b AND (n - 1))")
          case None
          then show ?thesis using step sm by (subst probe.simps) (simp add: same_def)
        next
          case (Some B)
          have B: "getBucket L1 big1 hm1 (b AND (n - 1)) = Some B" using Some sm by (simp add: same_def)
          have "decisive L1 big1 hm1 f1 B = decisive L2 big2 hm2 f2 B" "outcome L1 big1 hm1 B = outcome L2 big2 hm2 B"
            using sm by (auto simp: same_def decisive_def key_matches_def outcome_def destination_def split: option.split)
          moreover have "if decisive L2 big2 hm2 f2 B then r = outcome L2 big2 hm2 B else prb L2 big2 hm2 f2 n (b + 1) = Some r"
            using step Some by (auto simp: decisive_def key_matches_def outcome_def destination_def split: option.splits if_splits)
          ultimately show ?thesis using IH' by (auto simp: probe_step [OF B])
        qed
      qed
    qed
    then show ?thesis using eqs by (simp add: same_def)
  qed
  show ?thesis
    using imp [of L big hm Filename _ L' big' hm' Filename'] imp [of L' big' hm' Filename' _ L big hm Filename] assms
    by (cases "probe L' big' hm' Filename' n b"; cases "probe L big hm Filename n b") auto
qed

text \<open>
  What a lookup finds does not depend on the byte order of the host that reads the file, nor on the
  case of the name: the two kinds of hosts accept the same files, and two names that differ in
  case only get the same answer (the hash is computed on the lower case).
\<close>

theorem lookup_independent:
  assumes L: "llvm_ok L" and "map toLowercase f = map toLowercase f'"
  shows "map_option (\<lambda>hm. lookupFilename L True hm f) (Create L True FileSize File) =
    map_option (\<lambda>hm. lookupFilename L False hm f') (Create L False FileSize File)"
proof -
  have lookup: "lookupFilename L True hm' f = lookupFilename L False hm f'"
    if hm: "NeedsBSwap hm' = (\<not> NeedsBSwap hm)" "FileBuffer hm' = FileBuffer hm" for hm hm'
  proof -
    have "equals_lower L f key = equals_lower L f' key" for key using assms by (simp add: llvm_ok_def)
    then show ?thesis
      using bucket_other_host [OF L hm] HashHMapKey_lower [OF assms(2)] probe_same [of L True hm' L False hm f f']
      by (simp add: lookupFilename_def Let_def)
  qed
  show ?thesis
  proof (cases File)
    case (Some buf)
    show ?thesis using lookup
      by (cases "checkHeader L False buf") (simp_all add: Create_def Some checkHeader_other_host [OF L])
  qed (simp add: Create_def)
qed

section \<open>A header map\<close>

text \<open>LLVM's helpers by their documentation.\<close>

definition llvm_model :: llvm_ops where
  "llvm_model = \<lparr>ByteSwap_32 = (\<lambda>w. let v = unat w in
       of_nat (v mod 256 * 16777216 + v div 256 mod 256 * 65536 + v div 65536 mod 256 * 256 + v div 16777216)),
     ByteSwap_16 = (\<lambda>w. let v = unat w in of_nat (v mod 256 * 256 + v div 256)),
     isPowerOf2_32 = (\<lambda>n. list_ex (\<lambda>k. n = 2 ^ k) [0..<32]),
     equals_lower = (\<lambda>s t. map toLowercase s = map toLowercase t)\<rparr>"

lemma low_digit: "(y :: nat) < 256 \<Longrightarrow> (x * 256 + y) mod 256 = y" "(y :: nat) < 256 \<Longrightarrow> (x * 256 + y) div 256 = x"
  by simp_all

lemma llvm_model_ok: "llvm_ok llvm_model"
proof -
  have "ByteSwap_32 llvm_model (of_nat (bytes_value [a, b, c, d])) = of_nat (bytes_value [d, c, b, a])" for a b c d
  proof -
    have l: "of_char a < (256 :: nat)" "of_char b < (256 :: nat)" "of_char c < (256 :: nat)" "of_char d < (256 :: nat)" by simp_all
    let ?v = "((of_char a * 256 + of_char b) * 256 + of_char c) * 256 + of_char d :: nat"
    have v: "bytes_value [a, b, c, d] = ?v" by (simp add: bytes_value_def algebra_simps)
    have "?v < 2 ^ 32" using l by (simp del: of_char_less)
    then have u: "unat (of_nat ?v :: u32) = ?v" by (simp only: unat_of_nat) simp
    have "?v mod 256 = of_char d" "?v div 256 mod 256 = of_char c" "?v div 256 div 256 mod 256 = of_char b"
      "?v div 256 div 256 div 256 = of_char a"
      by (simp_all only: low_digit [OF l(4)] low_digit [OF l(3)] low_digit [OF l(2)])
    moreover have "x div 65536 = x div 256 div 256" "x div 16777216 = x div 256 div 256 div 256" for x :: nat
      by (simp_all flip: div_mult2_eq)
    moreover have "ByteSwap_32 llvm_model (of_nat ?v) =
        of_nat (?v mod 256 * 16777216 + ?v div 256 mod 256 * 65536 + ?v div 65536 mod 256 * 256 + ?v div 16777216)"
      by (simp only: llvm_model_def llvm_ops.simps Let_def u)
    ultimately have "ByteSwap_32 llvm_model (of_nat ?v) =
        of_nat (of_char d * 16777216 + of_char c * 65536 + of_char b * 256 + of_char a)"
      by (simp only:)
    then show ?thesis unfolding v by (simp add: bytes_value_def algebra_simps)
  qed
  moreover have "ByteSwap_16 llvm_model (of_nat (bytes_value [a, b])) = of_nat (bytes_value [b, a])" for a b
  proof -
    have l: "of_char a < (256 :: nat)" "of_char b < (256 :: nat)" by simp_all
    let ?v = "of_char a * 256 + of_char b :: nat"
    have v: "bytes_value [a, b] = ?v" by (simp add: bytes_value_def algebra_simps)
    have "?v < 2 ^ 16" using l by (simp del: of_char_less)
    then have u: "unat (of_nat ?v :: u16) = ?v" by (simp only: unat_of_nat) simp
    have "ByteSwap_16 llvm_model (of_nat ?v) = of_nat (?v mod 256 * 256 + ?v div 256)"
      by (simp only: llvm_model_def llvm_ops.simps Let_def u)
    then have "ByteSwap_16 llvm_model (of_nat ?v) = of_nat (of_char b * 256 + of_char a)"
      by (simp only: low_digit [OF l(2)])
    then show ?thesis unfolding v by (simp add: bytes_value_def algebra_simps)
  qed
  ultimately show ?thesis by (auto simp: llvm_ok_def llvm_model_def list_ex_iff)
qed

text \<open>One bucket, with the key \<open>a\<close> and the path \<open>aa\<close>; no bucket is empty.\<close>

definition full_file :: string where
  "full_file = ''pamh'' @ [CHR 0x01, CHR 0x00, CHR 0x00, CHR 0x00, CHR 0x24, CHR 0x00, CHR 0x00, CHR 0x00, CHR 0x01, CHR 0x00, CHR 0x00, CHR 0x00, CHR 0x01, CHR 0x00, CHR 0x00, CHR 0x00, CHR 0x00, CHR 0x00, CHR 0x00, CHR 0x00] @
     [CHR 0x01, CHR 0x00, CHR 0x00, CHR 0x00, CHR 0x01, CHR 0x00, CHR 0x00, CHR 0x00, CHR 0x01, CHR 0x00, CHR 0x00, CHR 0x00, CHR 0x00, CHR ''a'', CHR 0x00]"

abbreviation full_map :: header_map where
  "full_map \<equiv> \<lparr>FileBuffer = full_file, NeedsBSwap = False\<rparr>"

lemma word_places: "[i..<i + 4] = [i, i + 1, i + 2, i + 3]" "[i..<i + 2] = [i, i + 1 :: nat]"
  "[0..<4] = [0, 1, 2, 3 :: nat]" "[0..<2] = [0, 1 :: nat]"
  by (simp_all add: eval_nat_numeral upt_conv_Cons)

lemma full_file_header:
  "header_at False full_file = \<lparr>Magic = HMAP_HeaderMagicNumber, Version = HMAP_HeaderVersion, Reserved = 0,
     StringsOffset = 36, NumEntries = 1, NumBuckets = 1, MaxValueLength = 0\<rparr>"
  by (simp add: header_at_def read32_def read16_def read_bytes_def word_places full_file_def peek_def bytes_value_def
    HMAP_HeaderMagicNumber_def HMAP_HeaderVersion_def)

lemma full_file_accepted: "Create llvm_model False 39 (Some full_file) = Some full_map"
proof -
  have "isPowerOf2_32 llvm_model 1" using llvm_model_ok by (auto simp: llvm_ok_def intro: exI [of _ 0])
  moreover have "length full_file = 39" by (simp add: full_file_def)
  ultimately show ?thesis
    by (simp add: Create_def checkHeader_def full_file_header Let_def sizeof_HMapHeader_def sizeof_HMapBucket_def)
qed

lemma full_file_bucket:
  "getBucket llvm_model False full_map 0 = Some \<lparr>Key = 1, Prefix = 1, Suffix = 1\<rparr>"
  "getString llvm_model False full_map 1 = Some ''a''"
  "bucket_count llvm_model False full_map = 1"
proof -
  have len: "length full_file = 39" by (simp add: full_file_def)
  have "read32 False full_file 24 = 1" "read32 False full_file 28 = 1" "read32 False full_file 32 = 1"
    by (simp_all add: read32_def read_bytes_def word_places)
      (simp_all add: full_file_def peek_def bytes_value_def)
  then show "getBucket llvm_model False full_map 0 = Some \<lparr>Key = 1, Prefix = 1, Suffix = 1\<rparr>"
    by (simp add: getBucket_def getEndianAdjustedWord_def Let_def sizeof_HMapHeader_def sizeof_HMapBucket_def len)
  have "strnlen full_file 37 2 = 1" "slice full_file 37 38 = ''a''"
    by (simp_all add: strnlen_def slice_def full_file_def)
  then show "getString llvm_model False full_map 1 = Some ''a''"
    by (simp add: getString_def getHeader_def full_file_header getEndianAdjustedWord_def Let_def len)
  show "bucket_count llvm_model False full_map = 1"
    by (simp add: getHeader_def full_file_header getEndianAdjustedWord_def)
qed

lemma full_file_key:
  "key_matches llvm_model False full_map f \<lparr>Key = 1, Prefix = 1, Suffix = 1\<rparr> \<longleftrightarrow> map toLowercase f = ''a''"
proof -
  have "map toLowercase ''a'' = ''a''" by code_simp
  moreover have "equals_lower llvm_model s t \<longleftrightarrow> map toLowercase s = map toLowercase t" for s t
    by (simp add: llvm_model_def)
  ultimately show ?thesis by (simp add: key_matches_def full_file_bucket)
qed

theorem accepted_file_in_bounds_witness:
  "unat (bucket_count llvm_model False full_map) = 1 \<and>
   sizeof_HMapHeader + sizeof_HMapBucket * (0 + 1) \<le> length (FileBuffer full_map) \<and>
   lookupFilename llvm_model False full_map ''b'' \<noteq> Some AssertionFailure"
proof -
  have "unat (bucket_count llvm_model False full_map) = 1" by (simp add: full_file_bucket)
  then show ?thesis using accepted_file_in_bounds [OF llvm_model_ok full_file_accepted, of "''b''"] by simp
qed

theorem lookup_returns_iff_witness:
  "Create llvm_model False 39 (Some full_file) = Some full_map \<and>
   lookupFilename llvm_model False full_map ''b'' = None \<and>
   lookupFilename llvm_model False full_map ''A'' \<noteq> None"
proof -
    have n: "unat (bucket_count llvm_model False full_map) = 1" by (simp add: full_file_bucket)
  have nb: "nth_bucket llvm_model False full_map 0 = \<lparr>Key = 1, Prefix = 1, Suffix = 1\<rparr>"
    by (simp add: nth_bucket_def full_file_bucket)
  have "map toLowercase ''b'' \<noteq> ''a''" "map toLowercase ''A'' = ''a''" by code_simp+
  with nb have "Key (nth_bucket llvm_model False full_map 0) \<noteq> HMAP_EmptyBucketKey"
    "\<not> key_matches llvm_model False full_map ''b'' (nth_bucket llvm_model False full_map 0)"
    "key_matches llvm_model False full_map ''A'' (nth_bucket llvm_model False full_map 0)"
    by (simp_all add: full_file_key HMAP_EmptyBucketKey_def)
  then show ?thesis
    using lookup_returns_iff [OF llvm_model_ok full_file_accepted, of "''b''"]
      lookup_returns_iff [OF llvm_model_ok full_file_accepted, of "''A''"] full_file_accepted n by auto
qed

theorem lookup_first_decisive_witness:
  "lookupFilename llvm_model False full_map ''A'' = Some (Match ''aa'')"
proof -
    have "visited llvm_model False full_map ''A'' 0 = \<lparr>Key = 1, Prefix = 1, Suffix = 1\<rparr>"
    by (simp add: visited_def full_file_bucket)
  moreover have "map toLowercase ''A'' = ''a''" by code_simp
  ultimately have d: "decisive llvm_model False full_map ''A'' (visited llvm_model False full_map ''A'' 0)"
    "outcome llvm_model False full_map (visited llvm_model False full_map ''A'' 0) = Match ''aa''"
    by (simp_all add: decisive_def full_file_key outcome_def destination_def full_file_bucket HMAP_EmptyBucketKey_def)
  show ?thesis using lookup_first_decisive [OF llvm_model_ok full_file_accepted _ d(1)] d(2) by simp
qed

theorem lookup_independent_witness:
  "map_option (\<lambda>hm. lookupFilename llvm_model True hm ''Foo.H'') (Create llvm_model True 39 (Some full_file)) =
   map_option (\<lambda>hm. lookupFilename llvm_model False hm ''foo.h'') (Create llvm_model False 39 (Some full_file))"
  by (rule lookup_independent [OF llvm_model_ok]) code_simp

end
