(* ===== verification/Replacements.thy ===== *)
theory Replacements
  imports RewriteBuffer "HOL-Library.Char_ord" "HOL-Library.List_Lexorder"
begin

text \<open>
  Replacements of text (\<open>lib/Tooling/Core/Replacement.cpp\<close>): sets of edits of one file and their
  algebra.  A \<open>std::set<Replacement>\<close> is the list of its elements in the order of
  \<open>operator<\<close>.  Offsets and lengths are natural numbers and shifts are integers: the
  arithmetic is that of the code as long as the sums of offsets and text sizes stay below \<open>2^31\<close>.
\<close>

section \<open>Ranges and replacements\<close>

record Range =
  range_Offset :: nat
  range_Length :: nat

definition overlapsWith :: "Range \<Rightarrow> Range \<Rightarrow> bool" where
  "overlapsWith r RHS \<longleftrightarrow> range_Offset r + range_Length r > range_Offset RHS \<and>
     range_Offset r < range_Offset RHS + range_Length RHS"

definition range_contains :: "Range \<Rightarrow> Range \<Rightarrow> bool" where
  "range_contains r RHS \<longleftrightarrow> range_Offset RHS \<ge> range_Offset r \<and>
     range_Offset RHS + range_Length RHS \<le> range_Offset r + range_Length r"

record Replacement =
  getFilePath :: string
  getOffset :: nat
  getLength :: nat
  getReplacementText :: string

definition mk_range :: "nat \<Rightarrow> nat \<Rightarrow> Range" where
  "mk_range Offset Length = \<lparr>range_Offset = Offset, range_Length = Length\<rparr>"

definition mk_replacement :: "string \<Rightarrow> nat \<Rightarrow> nat \<Rightarrow> string \<Rightarrow> Replacement" where
  "mk_replacement FilePath Offset Length ReplacementText =
     \<lparr>getFilePath = FilePath, getOffset = Offset, getLength = Length, getReplacementText = ReplacementText\<rparr>"

definition isApplicable :: "Replacement \<Rightarrow> bool" where
  "isApplicable R \<longleftrightarrow> getFilePath R \<noteq> []"

definition replacement_less :: "Replacement \<Rightarrow> Replacement \<Rightarrow> bool" where
  "replacement_less LHS RHS =
     (if getOffset LHS \<noteq> getOffset RHS then getOffset LHS < getOffset RHS
      else if getLength LHS \<noteq> getLength RHS then getLength LHS < getLength RHS
      else if getFilePath LHS \<noteq> getFilePath RHS then getFilePath LHS < getFilePath RHS
      else getReplacementText LHS < getReplacementText RHS)"

text \<open>\<open>insert\<close> of the set.\<close>

fun set_insert :: "Replacement \<Rightarrow> Replacement list \<Rightarrow> Replacement list" where
  "set_insert R [] = [R]"
| "set_insert R (x # xs) =
     (if replacement_less x R then x # set_insert R xs
      else if replacement_less R x then R # x # xs
      else x # xs)"

section \<open>Merging\<close>

record MergedReplacement =
  MergeSecond :: bool
  mDelta :: int
  mDeltaFirst :: int
  mFilePath :: string
  mOffset :: nat
  mLength :: nat
  mText :: string

definition Merged_init :: "Replacement \<Rightarrow> bool \<Rightarrow> int \<Rightarrow> MergedReplacement" where
  "Merged_init R mergeSecond D =
     (let grow = int (length (getReplacementText R)) - int (getLength R) in
      \<lparr>MergeSecond = mergeSecond,
       mDelta = D + (if mergeSecond then 0 else grow),
       mDeltaFirst = (if mergeSecond then grow else 0),
       mFilePath = getFilePath R,
       mOffset = nat (int (getOffset R) + (if mergeSecond then 0 else D)),
       mLength = getLength R,
       mText = getReplacementText R\<rparr>)"

definition Merged_merge :: "Replacement \<Rightarrow> MergedReplacement \<Rightarrow> MergedReplacement" where
  "Merged_merge R M =
     (let RText = getReplacementText R; grow = int (length RText) - int (getLength R) in
      if MergeSecond M then
        let REnd = nat (int (getOffset R) + mDelta M + int (getLength R));
            End = mOffset M + length (mText M);
            M = (if REnd > End then M\<lparr>mLength := mLength M + (REnd - End), MergeSecond := False\<rparr> else M);
            Head = take (nat (int (getOffset R) + mDelta M - int (mOffset M))) (mText M);
            Tail = drop (REnd - mOffset M) (mText M)
        in M\<lparr>mText := Head @ RText @ Tail, mDelta := mDelta M + grow\<rparr>
      else
        let End = mOffset M + mLength M;
            Tail = drop (End - getOffset R) RText;
            M = M\<lparr>mText := mText M @ Tail\<rparr>;
            M = (if getOffset R + length RText > End
              then M\<lparr>mLength := getOffset R + getLength R - mOffset M, MergeSecond := True\<rparr>
              else M\<lparr>mLength := nat (int (mLength M) + int (getLength R) - int (length RText))\<rparr>)
        in M\<lparr>mDeltaFirst := mDeltaFirst M + grow\<rparr>)"

definition endsBefore :: "MergedReplacement \<Rightarrow> Replacement \<Rightarrow> bool" where
  "endsBefore M R =
     (if MergeSecond M then int (mOffset M + length (mText M)) < int (getOffset R) + mDelta M
      else mOffset M + mLength M < getOffset R)"

definition asReplacement :: "MergedReplacement \<Rightarrow> Replacement" where
  "asReplacement M = mk_replacement (mFilePath M) (mOffset M) (mLength M) (mText M)"

text \<open>The inner loop: what is left of the two sets and the element merged.\<close>

function merge_inner ::
  "MergedReplacement \<Rightarrow> Replacement list \<Rightarrow> Replacement list \<Rightarrow>
   MergedReplacement \<times> Replacement list \<times> Replacement list" where
  "merge_inner M First Second =
     (if MergeSecond M then
        (case Second of [] \<Rightarrow> (M, First, Second)
         | R # Second' \<Rightarrow> if endsBefore M R then (M, First, Second) else merge_inner (Merged_merge R M) First Second')
      else
        (case First of [] \<Rightarrow> (M, First, Second)
         | R # First' \<Rightarrow> if endsBefore M R then (M, First, Second) else merge_inner (Merged_merge R M) First' Second))"
  by pat_completeness auto
termination by (relation "measure (\<lambda>(_, F, S). length F + length S)") auto

declare merge_inner.simps [simp del]

lemma merge_inner_shorter:
  "merge_inner M F S = (M', F', S') \<Longrightarrow> length F' \<le> length F \<and> length S' \<le> length S"
proof (induction M F S arbitrary: M' F' S' rule: merge_inner.induct)
  case (1 M F S)
  show ?case
    using 1(3)
    by (subst (asm) merge_inner.simps) (auto split: if_splits list.splits dest!: 1(1) 1(2))
qed

function merge_outer ::
  "Replacement list \<Rightarrow> Replacement list \<Rightarrow> int \<Rightarrow> Replacement list \<Rightarrow> Replacement list" where
  "merge_outer First Second D Result =
     (if First = [] \<and> Second = [] then Result
      else
      let NextIsFirst = (Second = [] \<or>
            First \<noteq> [] \<and> int (getOffset (hd First)) < int (getOffset (hd Second)) + D);
          Merged = Merged_init (hd (if NextIsFirst then First else Second)) NextIsFirst D
      in case (if NextIsFirst then merge_inner Merged (tl First) Second else merge_inner Merged First (tl Second)) of
        (Merged, First, Second) \<Rightarrow>
          merge_outer First Second (D - mDeltaFirst Merged) (set_insert (asReplacement Merged) Result))"
  by pat_completeness auto
termination
proof (relation "measure (\<lambda>(F, S, _, _). length F + length S)", goal_cases)
  case (2 F S D Res nf M0 M' y F' S')
  have "length F' + length S' < length F + length S"
  proof (cases nf)
    case True
    then have r: "merge_inner M0 (tl F) S = (M', F', S')" and "F \<noteq> []" using 2 by auto
    then show ?thesis using merge_inner_shorter [OF r] by (cases F) auto
  next
    case False
    then have r: "merge_inner M0 F (tl S) = (M', F', S')" and "S \<noteq> []" using 2 by auto
    then show ?thesis using merge_inner_shorter [OF r] by (cases S) auto
  qed
  then show ?case by simp
qed simp

declare merge_outer.simps [simp del]

definition merge :: "Replacement list \<Rightarrow> Replacement list \<Rightarrow> Replacement list" where
  "merge Replaces ReplacesToMerge =
     (if Replaces = [] \<or> ReplacesToMerge = []
      then (if Replaces = [] then ReplacesToMerge else Replaces)
      else merge_outer Replaces ReplacesToMerge 0 [])"

section \<open>The meaning of a set of replacements\<close>

text \<open>\<open>U\<close> is the text from position \<open>q\<close> on; the replacements are applied from left to right.\<close>

fun apply_at :: "nat \<Rightarrow> Replacement list \<Rightarrow> string \<Rightarrow> string" where
  "apply_at q [] U = U"
| "apply_at q (R # Rs) U = take (getOffset R - q) U @ getReplacementText R @
     apply_at (getOffset R + getLength R) Rs (drop (getOffset R + getLength R - q) U)"

text \<open>Replacements that do not overlap, in order, from \<open>q\<close> up to \<open>L\<close>.\<close>

fun fits :: "nat \<Rightarrow> nat \<Rightarrow> Replacement list \<Rightarrow> bool" where
  "fits q L [] \<longleftrightarrow> True"
| "fits q L (R # Rs) \<longleftrightarrow> q \<le> getOffset R \<and> getOffset R + getLength R \<le> L \<and> fits (getOffset R + getLength R) L Rs"

text \<open>No insertion at \<open>q\<close> comes next.\<close>

definition after :: "nat \<Rightarrow> Replacement list \<Rightarrow> bool" where
  "after q Rs \<longleftrightarrow> (Rs \<noteq> [] \<longrightarrow> getOffset (hd Rs) = q \<longrightarrow> 0 < getLength (hd Rs))"

text \<open>Two insertions are never at the same offset; no insertion is at the end of another replacement.\<close>

fun ordered :: "Replacement list \<Rightarrow> bool" where
  "ordered [] \<longleftrightarrow> True"
| "ordered (R # Rs) \<longleftrightarrow> (getLength R = 0 \<longrightarrow> after (getOffset R) Rs) \<and> ordered Rs"

fun separated :: "Replacement list \<Rightarrow> bool" where
  "separated [] \<longleftrightarrow> True"
| "separated (R # Rs) \<longleftrightarrow> after (getOffset R + getLength R) Rs \<and> separated Rs"

definition starts_from :: "nat \<Rightarrow> Replacement list \<Rightarrow> bool" where
  "starts_from q Rs \<longleftrightarrow> (Rs \<noteq> [] \<longrightarrow> q \<le> getOffset (hd Rs))"

lemma starts_from_simps [simp]: "starts_from q []" "starts_from q (R # Rs) \<longleftrightarrow> q \<le> getOffset R"
  by (simp_all add: starts_from_def)

lemma after_simps [simp]: "after q []" "after q (R # Rs) \<longleftrightarrow> (getOffset R = q \<longrightarrow> 0 < getLength R)"
  by (simp_all add: after_def)

lemma fits_starts: "fits q L Rs \<Longrightarrow> starts_from q Rs"
  by (cases Rs) auto

lemma fits_mono: "fits q L Rs \<Longrightarrow> starts_from q' Rs \<Longrightarrow> fits q' L Rs"
  by (cases Rs) auto

lemma apply_at_prefix:
  assumes "starts_from (q + length X) Rs"
  shows "apply_at q Rs (X @ U) = X @ apply_at (q + length X) Rs U"
  using assms by (cases Rs) (simp_all add: diff_diff_left)

lemma apply_at_drop:
  assumes "starts_from (p + k) Rs" "Rs = [] \<or> k \<le> length U"
  shows "drop k (apply_at p Rs U) = apply_at (p + k) Rs (drop k U)"
proof (cases Rs)
  case (Cons R Rs')
  then have k: "k \<le> length U" using assms(2) by simp
  then have len: "length (take k U) = k" by simp
  have "apply_at p Rs (take k U @ drop k U) = take k U @ apply_at (p + k) Rs (drop k U)"
    using apply_at_prefix [of p "take k U" Rs "drop k U"] assms(1) len by simp
  then have "drop k (apply_at p Rs U) = drop k (take k U @ apply_at (p + k) Rs (drop k U))" by simp
  also have "\<dots> = apply_at (p + k) Rs (drop k U)" using len by simp
  finally show ?thesis .
qed simp

section \<open>The invariant of a merge\<close>

text \<open>
  \<open>T\<close> is the original text, \<open>W\<close> what the merged element and everything after it must give.
  The merged text is \<open>P @ Q\<close>: \<open>P\<close> is final, \<open>Q\<close> is text of the first set that
  the second set may still change.  The first set has been used up to \<open>p0\<close> of the original
  text, the second up to \<open>q\<close> of the text that the first one gives; \<open>E\<close> is the end of the
  element in the original text, which runs ahead of \<open>p0\<close> while the second set is ahead.
\<close>

definition merging ::
  "bool \<Rightarrow> string \<Rightarrow> int \<Rightarrow> bool \<Rightarrow> string \<Rightarrow> MergedReplacement \<Rightarrow> Replacement list \<Rightarrow> Replacement list \<Rightarrow>
   nat \<Rightarrow> nat \<Rightarrow> string \<Rightarrow> string \<Rightarrow> bool" where
  "merging g T D z W M F S p0 q P Q \<longleftrightarrow>
     (let E = mOffset M + mLength M; U = apply_at p0 F (drop p0 T); V = Q @ drop (E - p0) U in
      mText M = P @ Q \<and> (\<not> MergeSecond M \<longrightarrow> Q = []) \<and> (MergeSecond M \<longrightarrow> E = p0) \<and>
      p0 \<le> E \<and> p0 \<le> length T \<and> E - p0 \<le> length U \<and>
      fits p0 (length T) F \<and> starts_from (mOffset M) F \<and> (g \<longrightarrow> ordered F) \<and>
      int q + mDelta M = int (mOffset M + length P) \<and>
      int q + int (length Q) = int E - (D - mDeltaFirst M) \<and>
      fits q (q + length V) S \<and> (g \<longrightarrow> separated S) \<and>
      W = P @ apply_at q S V \<and>
      (g \<longrightarrow> (MergeSecond M \<longrightarrow> mLength M = 0 \<longrightarrow> after p0 F) \<and> (\<not> MergeSecond M \<longrightarrow> after q S)) \<and>
      (z \<longrightarrow> mOffset M < p0 \<or> \<not> MergeSecond M \<and> mOffset M < E \<and> starts_from (Suc (mOffset M)) F))"

lemma merge_step_second:
  assumes inv: "merging g T D z W M F (R # S) p0 q P Q" and M: "MergeSecond M" "\<not> endsBefore M R"
  shows "\<exists>q' P' Q'. merging g T D z W (Merged_merge R M) F S p0 q' P' Q'"
proof -
  define U where "U = apply_at p0 F (drop p0 T)"
  define i where "i = getOffset R - q"
  define n where "n = getLength R"
  define X where "X = getReplacementText R"
  have I: "mText M = P @ Q" "mOffset M + mLength M = p0" "p0 \<le> length T"
    "fits p0 (length T) F" "starts_from (mOffset M) F" "g \<longrightarrow> ordered F"
    "int q + mDelta M = int (mOffset M + length P)"
    "int q + int (length Q) = int p0 - (D - mDeltaFirst M)"
    "q \<le> getOffset R" "getOffset R + n \<le> q + length (Q @ U)" "fits (getOffset R + n) (q + length (Q @ U)) S"
    "g \<longrightarrow> after (getOffset R + n) S" "g \<longrightarrow> separated S" "W = P @ apply_at q (R # S) (Q @ U)"
    "g \<longrightarrow> mLength M = 0 \<longrightarrow> after p0 F" "z \<longrightarrow> mOffset M < p0"
    using inv M(1) unfolding merging_def Let_def U_def n_def by auto
  have off: "getOffset R = q + i" using I(9) by (simp add: i_def)
  have iQ: "i \<le> length Q" using M I(1,7) off by (auto simp: endsBefore_def)
  have inn: "i + n \<le> length (Q @ U)" using I(10) off by simp
  have REnd: "nat (int (getOffset R) + mDelta M + int (getLength R)) = mOffset M + length P + i + n"
    using I(7) off by (simp add: n_def)
  have head: "nat (int (getOffset R) + mDelta M - int (mOffset M)) = length P + i" using I(7) off by simp
  let ?P = "P @ take i Q @ X" and ?Q = "drop (i + n) Q" and ?q = "q + i + n"
  let ?far = "i + n > length Q"
  have M': "mOffset (Merged_merge R M) = mOffset M"
    "mLength (Merged_merge R M) = mLength M + (if ?far then i + n - length Q else 0)"
    "MergeSecond (Merged_merge R M) = (\<not> ?far)" "mText (Merged_merge R M) = ?P @ ?Q"
    "mDelta (Merged_merge R M) = mDelta M + (int (length X) - int n)"
    "mDeltaFirst (Merged_merge R M) = mDeltaFirst M"
    using M(1) I(1) by (simp_all add: Merged_merge_def Let_def REnd head X_def n_def)
  define E where "E = p0 + (if ?far then i + n - length Q else 0)"
  have E: "mOffset (Merged_merge R M) + mLength (Merged_merge R M) = E" using I(2) by (simp add: M' E_def)
  have V: "?Q @ drop (E - p0) U = drop (i + n) (Q @ U)" by (simp add: E_def)
  have "W = ?P @ apply_at ?q S (drop (i + n) (Q @ U))"
    using I(14) off iQ by (simp add: X_def n_def)
  moreover have "fits ?q (?q + length (drop (i + n) (Q @ U))) S"
  proof -
    have e: "?q + length (drop (i + n) (Q @ U)) = q + length (Q @ U)" unfolding length_drop using inn by linarith
    show ?thesis unfolding e using I(11) unfolding off .
  qed
  moreover have "g \<longrightarrow> after ?q S" using I(12) off by simp
  moreover have "E - p0 \<le> length U" using inn by (auto simp: E_def)
  moreover have "int ?q + int (length ?Q) = int E - (D - mDeltaFirst M)"
    using I(8) by (simp add: E_def)
  moreover have "int ?q + (mDelta M + (int (length X) - int n)) = int (mOffset M + length ?P)"
    using I(7) iQ by simp
  moreover have "g \<longrightarrow> mLength (Merged_merge R M) = 0 \<longrightarrow> \<not> ?far \<longrightarrow> after p0 F" using I(15) by (simp add: M')
  ultimately have "merging g T D z W (Merged_merge R M) F S p0 ?q ?P ?Q"
    using I(3-6,13,16) E unfolding merging_def Let_def U_def [symmetric] E V
    by (auto simp: M' E_def)
  then show ?thesis by blast
qed

lemma merge_step_first:
  assumes inv: "merging g T D z W M (R # F) S p0 q P Q" and M: "\<not> MergeSecond M" "\<not> endsBefore M R"
  shows "\<exists>p0' P' Q'. merging g T D z W (Merged_merge R M) F S p0' q P' Q'"
proof -
  define E where "E = mOffset M + mLength M"
  define n where "n = getLength R"
  define X where "X = getReplacementText R"
  define p1 where "p1 = getOffset R + n"
  define U where "U = apply_at p1 F (drop p1 T)"
  have Q: "Q = []" using inv M(1) by (simp add: merging_def Let_def)
  have I: "mText M = P" "Q = []" "p0 \<le> E" "p0 \<le> length T"
    "E - p0 \<le> length (apply_at p0 (R # F) (drop p0 T))"
    "p0 \<le> getOffset R" "p1 \<le> length T" "fits p1 (length T) F" "mOffset M \<le> getOffset R"
    "g \<longrightarrow> n = 0 \<longrightarrow> after (getOffset R) F" "g \<longrightarrow> ordered F"
    "int q + mDelta M = int (mOffset M + length P)"
    "int q = int E - (D - mDeltaFirst M)"
    "fits q (q + length (drop (E - p0) (apply_at p0 (R # F) (drop p0 T)))) S" "g \<longrightarrow> separated S"
    "W = P @ apply_at q S (drop (E - p0) (apply_at p0 (R # F) (drop p0 T)))"
    "g \<longrightarrow> after q S"
    using inv M(1) Q unfolding merging_def Let_def E_def [symmetric] n_def p1_def Q
    by (simp_all del: apply_at.simps length_drop)
  have z: "z \<longrightarrow> mOffset M < p0 \<or> mOffset M < getOffset R"
    using inv unfolding merging_def Let_def
    by (elim conjE) (simp add: Suc_le_eq del: apply_at.simps length_drop, blast)
  have RE: "getOffset R \<le> E" using M by (simp add: endsBefore_def E_def)
  have front: "length (take (getOffset R - p0) (drop p0 T)) = getOffset R - p0"
    using I(6,7) by (simp add: p1_def)
  have U0: "apply_at p0 (R # F) (drop p0 T) = take (getOffset R - p0) (drop p0 T) @ X @ U"
    using I(6) by (simp add: U_def X_def n_def p1_def)
  have V: "drop (E - p0) (apply_at p0 (R # F) (drop p0 T)) = drop (E - getOffset R) (X @ U)"
    unfolding U0 using front RE I(6) by simp
  have len: "E - getOffset R \<le> length (X @ U)"
    using I(5) RE I(6) unfolding U0 length_append front by simp
  let ?Q = "drop (E - getOffset R) X"
  let ?ahead = "getOffset R + length X > E"
  define E' where "E' = (if ?ahead then p1 else nat (int E + int n - int (length X)))"
  have o: "mOffset M \<le> E" by (simp add: E_def)
  have len': "nat (int (mLength M) + int n - int (length X)) = E' - mOffset M" if "\<not> ?ahead"
    using that I(9) by (simp add: E'_def E_def)
  have M': "mOffset (Merged_merge R M) = mOffset M" "mLength (Merged_merge R M) = E' - mOffset M"
    "MergeSecond (Merged_merge R M) = ?ahead" "mText (Merged_merge R M) = P @ ?Q"
    "mDelta (Merged_merge R M) = mDelta M"
    "mDeltaFirst (Merged_merge R M) = mDeltaFirst M + (int (length X) - int n)"
    using M(1) I(1) len'
    by (simp_all add: Merged_merge_def Let_def X_def n_def E_def E'_def p1_def)
  have ge: "p1 \<le> E'" using RE by (auto simp: E'_def p1_def le_nat_iff)
  have oE: "mOffset M + (E' - mOffset M) = E'" using ge I(9) by (simp add: p1_def)
  have V': "?Q @ drop (E' - p1) U = drop (E - getOffset R) (X @ U)"
    using RE by (auto simp: E'_def p1_def intro: arg_cong2 [where f = drop])
  have "E' - p1 \<le> length U"
  proof (cases ?ahead)
    case False
    then have "int E' = int E + int n - int (length X)" by (simp add: E'_def)
    then show ?thesis using len RE by (simp add: p1_def)
  qed (simp add: E'_def)
  moreover have "int q + int (length ?Q) = int E' - (D - (mDeltaFirst M + (int (length X) - int n)))"
    using I(13) RE by (simp add: E'_def p1_def)
  moreover have "starts_from (mOffset M) F" "starts_from (Suc (mOffset M)) F \<or> mOffset M = p1"
    using fits_starts [OF I(8)] I(9) by (auto simp: p1_def starts_from_def)
  moreover have "after p1 F" if "E' - mOffset M = 0" ?ahead g
  proof -
    have "n = 0" using that I(9) by (simp add: E'_def p1_def)
    then show ?thesis using I(10) that(3) by (simp add: p1_def)
  qed
  moreover have "z \<longrightarrow> mOffset M < p1" using I(6) z by (auto simp: p1_def)
  ultimately have "merging g T D z W (Merged_merge R M) F S p1 q P ?Q"
    using I(7,8,11,12,14,15,16,17) ge
    unfolding merging_def Let_def M' oE U_def [symmetric] V' V
    by (auto simp: E'_def)
  then show ?thesis by blast
qed

end
