(* ===== verification/ReplacementMerge.thy ===== *)
theory ReplacementMerge
  imports Replacements
begin

text \<open>Correctness of \<open>Replacements::merge\<close>: the merged set has the effect of the two sets in turn.\<close>

section \<open>The inner loop\<close>

lemma Merged_merge_offset: "mOffset (Merged_merge R M) = mOffset M"
  by (simp add: Merged_merge_def Let_def)

lemma merge_inner_offset: "merge_inner M F S = (M', F', S') \<Longrightarrow> mOffset M' = mOffset M"
proof (induction M F S arbitrary: M' F' S' rule: merge_inner.induct)
  case (1 M F S)
  show ?case
    using 1(3)
    by (subst (asm) merge_inner.simps)
      (auto split: if_splits list.splits dest!: 1(1) 1(2) simp: Merged_merge_offset)
qed

definition merged_all :: "MergedReplacement \<Rightarrow> Replacement list \<Rightarrow> Replacement list \<Rightarrow> bool" where
  "merged_all M F S \<longleftrightarrow>
     (if MergeSecond M then S \<noteq> [] \<longrightarrow> endsBefore M (hd S) else F \<noteq> [] \<longrightarrow> endsBefore M (hd F))"

lemma merge_inner_merging:
  assumes "merge_inner M F S = (M', F', S')" "merging g T D z W M F S p0 q P Q"
  shows "\<exists>p0 q P Q. merging g T D z W M' F' S' p0 q P Q \<and> merged_all M' F' S'"
  using assms
proof (induction M F S arbitrary: p0 q P Q M' F' S' rule: merge_inner.induct)
  case (1 M F S)
  show ?case
  proof (cases "MergeSecond M")
    case True
    show ?thesis
    proof (cases S)
      case Nil
      then have "M' = M" "F' = F" "S' = S" using 1(3) True by (simp_all add: merge_inner.simps)
      then show ?thesis using 1(4) Nil True by (auto simp: merged_all_def)
    next
      case (Cons R S2)
      show ?thesis
      proof (cases "endsBefore M R")
        case True': True
        then have "M' = M" "F' = F" "S' = S" using 1(3) True Cons by (auto simp: merge_inner.simps [of M])
        then show ?thesis using 1(4) Cons True True' by (auto simp: merged_all_def)
      next
        case False
        then have r: "merge_inner (Merged_merge R M) F S2 = (M', F', S')"
          using 1(3) True Cons by (simp add: merge_inner.simps [of M])
        from merge_step_second [OF 1(4) [unfolded Cons] True False] obtain q' P' Q'
          where "merging g T D z W (Merged_merge R M) F S2 p0 q' P' Q'" by blast
        with 1(1) [OF True Cons False r] show ?thesis by blast
      qed
    qed
  next
    case False
    show ?thesis
    proof (cases F)
      case Nil
      then have "M' = M" "F' = F" "S' = S" using 1(3) False by (simp_all add: merge_inner.simps)
      then show ?thesis using 1(4) Nil False by (auto simp: merged_all_def)
    next
      case (Cons R F2)
      show ?thesis
      proof (cases "endsBefore M R")
        case True
        then have "M' = M" "F' = F" "S' = S" using 1(3) False Cons by (auto simp: merge_inner.simps [of M])
        then show ?thesis using 1(4) Cons True False by (auto simp: merged_all_def)
      next
        case F': False
        then have r: "merge_inner (Merged_merge R M) F2 S = (M', F', S')"
          using 1(3) False Cons by (simp add: merge_inner.simps [of M])
        from merge_step_first [OF 1(4) [unfolded Cons] False F'] obtain p0' P' Q'
          where "merging g T D z W (Merged_merge R M) F2 S p0' q P' Q'" by blast
        with 1(2) [OF False Cons F' r] show ?thesis by blast
      qed
    qed
  qed
qed

text \<open>Between two elements: what is left of the two sets, from the same place of both texts.\<close>

definition tight :: "nat \<Rightarrow> nat \<Rightarrow> Replacement list \<Rightarrow> Replacement list \<Rightarrow> bool" where
  "tight p q F S \<longleftrightarrow> after p F \<and> starts_from (Suc q) S \<or> starts_from (Suc p) F \<and> after q S"

definition between :: "bool \<Rightarrow> string \<Rightarrow> int \<Rightarrow> Replacement list \<Rightarrow> Replacement list \<Rightarrow> nat \<Rightarrow> nat \<Rightarrow> bool" where
  "between g T D F S p q \<longleftrightarrow>
     p \<le> length T \<and> int q = int p - D \<and> fits p (length T) F \<and> (g \<longrightarrow> ordered F) \<and>
     fits q (q + length (apply_at p F (drop p T))) S \<and> (g \<longrightarrow> separated S)"

lemma merging_done:
  assumes inv: "merging g T D z W M F S p0 q P Q" and all: "merged_all M F S"
  defines "E \<equiv> mOffset M + mLength M"
  shows "\<exists>q. between g T (D - mDeltaFirst M) F S E q \<and> W = mText M @ apply_at q S (apply_at E F (drop E T)) \<and>
    (z \<longrightarrow> 0 < mLength M) \<and> (g \<longrightarrow> mLength M = 0 \<longrightarrow> tight E q F S)"
proof (cases "MergeSecond M")
  case True
  define U where "U = apply_at p0 F (drop p0 T)"
  have I: "mText M = P @ Q" "E = p0" "p0 \<le> length T" "fits p0 (length T) F" "g \<longrightarrow> ordered F"
    "int q + mDelta M = int (mOffset M + length P)"
    "int q + int (length Q) = int p0 - (D - mDeltaFirst M)"
    "fits q (q + length (Q @ U)) S" "g \<longrightarrow> separated S" "W = P @ apply_at q S (Q @ U)"
    "g \<longrightarrow> mLength M = 0 \<longrightarrow> after p0 F" "z \<longrightarrow> mOffset M < p0"
    using inv True unfolding merging_def Let_def U_def E_def by auto
  have s: "starts_from (Suc (q + length Q)) S"
    using all True I(1,6) by (cases S) (auto simp: merged_all_def endsBefore_def)
  then have s': "starts_from (q + length Q) S" by (cases S) auto
  have "between g T (D - mDeltaFirst M) F S E (q + length Q)"
    using I(3,4,5,7,9) fits_mono [OF I(8) s'] unfolding between_def I(2) U_def [symmetric]
    by (simp add: add.assoc)
  moreover have "W = mText M @ apply_at (q + length Q) S (apply_at E F (drop E T))"
    unfolding I(10) I(1) I(2) U_def [symmetric] using apply_at_prefix [OF s', of U] by simp
  moreover have "z \<longrightarrow> 0 < mLength M" using I(2,12) by (auto simp: E_def)
  moreover have "g \<longrightarrow> mLength M = 0 \<longrightarrow> tight E (q + length Q) F S" using I(2,11) s by (simp add: tight_def)
  ultimately show ?thesis by (intro exI [of _ "q + length Q"] conjI)
next
  case False
  define U where "U = apply_at p0 F (drop p0 T)"
  have I: "mText M = P" "Q = []" "p0 \<le> E" "p0 \<le> length T" "E - p0 \<le> length U"
    "fits p0 (length T) F" "g \<longrightarrow> ordered F" "int q = int E - (D - mDeltaFirst M)"
    "fits q (q + length (drop (E - p0) U)) S" "g \<longrightarrow> separated S" "W = P @ apply_at q S (drop (E - p0) U)"
    "g \<longrightarrow> after q S" "z \<longrightarrow> mOffset M < p0 \<or> mOffset M < E"
    using inv False unfolding merging_def Let_def U_def E_def by (auto simp del: length_drop)
  have s: "starts_from (Suc E) F"
    using all False by (cases F) (auto simp: merged_all_def endsBefore_def E_def)
  then have s': "starts_from E F" by (cases F) auto
  have E: "E \<le> length T" using I(4,5,6) s by (cases F) (auto simp: U_def)
  have "drop (E - p0) U = apply_at E F (drop E T)"
    using apply_at_drop [of p0 "E - p0" F "drop p0 T"] s' I(3) diff_le_mono [OF E, of p0] by (simp add: U_def)
  note I = I [unfolded this]
  have "between g T (D - mDeltaFirst M) F S E q"
    using E I(7-10) fits_mono [OF I(6) s'] unfolding between_def by simp
  moreover have "z \<longrightarrow> 0 < mLength M" using I(3,13) by (auto simp: E_def)
  moreover have "g \<longrightarrow> tight E q F S" using s I(12) by (simp add: tight_def)
  moreover have "W = mText M @ apply_at q S (apply_at E F (drop E T))" using I(1,11) by simp
  ultimately show ?thesis by (intro exI [of _ q] conjI) simp_all
qed

section \<open>The start of an element\<close>

text \<open>One step of the outer loop starts an element, with what it and everything after it must give.\<close>

definition started ::
  "bool \<Rightarrow> string \<Rightarrow> int \<Rightarrow> bool \<Rightarrow> MergedReplacement \<Rightarrow> Replacement list \<Rightarrow> Replacement list \<Rightarrow> nat \<Rightarrow> string \<Rightarrow> bool" where
  "started g T D t M F S p Z \<longleftrightarrow>
     (\<exists>W p0 q P Q. merging g T D (t \<and> mOffset M = p) W M F S p0 q P Q \<and>
        Z = take (mOffset M - p) (drop p T) @ W \<and> p \<le> mOffset M)"

lemma started_first:
  assumes b: "between g T D (R # F) S p q" and t: "t \<longrightarrow> tight p q (R # F) S"
    and next_first: "S = [] \<or> int (getOffset R) < int (getOffset (hd S)) + D"
  shows "started g T D t (Merged_init R True D) F S p (apply_at q S (apply_at p (R # F) (drop p T)))"
proof -
  let ?M = "Merged_init R True D" and ?X = "getReplacementText R" and ?off = "getOffset R"
  define p0 where "p0 = ?off + getLength R"
  define U where "U = apply_at p0 F (drop p0 T)"
  define front where "front = take (?off - p) (drop p T)"
  have B: "p \<le> length T" "int q = int p - D" "p \<le> ?off" "p0 \<le> length T" "fits p0 (length T) F"
    "g \<longrightarrow> getLength R = 0 \<longrightarrow> after ?off F" "g \<longrightarrow> ordered F" "g \<longrightarrow> separated S"
    "fits q (q + length (apply_at p (R # F) (drop p T))) S"
    using b by (auto simp: between_def p0_def)
  have M: "MergeSecond ?M" "mDelta ?M = D" "mDeltaFirst ?M = int (length ?X) - int (getLength R)"
    "mOffset ?M = ?off" "mLength ?M = getLength R" "mText ?M = ?X"
    by (simp_all add: Merged_init_def Let_def)
  have front: "length front = ?off - p" using B(1,3,4) by (simp add: front_def p0_def)
  have V: "apply_at p (R # F) (drop p T) = front @ ?X @ U" using B(3) by (simp add: front_def U_def p0_def)
  define q0 where "q0 = q + (?off - p)"
  have q0: "int q0 = int ?off - D" using B(2,3) by (simp add: q0_def)
  have s: "starts_from (Suc q0) S" using next_first q0 by (cases S) auto
  then have s': "starts_from q0 S" by (cases S) auto
  have Z: "apply_at q S (apply_at p (R # F) (drop p T)) = front @ apply_at q0 S (?X @ U)"
    unfolding V q0_def using apply_at_prefix [of q front S] s' front by (simp add: q0_def)
  have "fits q0 (q0 + length (?X @ U)) S"
    using fits_mono [OF B(9) s'] unfolding V by (simp add: front q0_def add.assoc)
  moreover have "z \<longrightarrow> ?off < p0" if "z = (t \<and> ?off = p)" for z
    using t that s B(3) by (auto simp: tight_def p0_def)
  moreover have "starts_from ?off F"
    using fits_starts [OF B(5)] by (cases F) (auto simp: p0_def)
  moreover have "g \<longrightarrow> getLength R = 0 \<longrightarrow> after p0 F" using B(6) by (simp add: p0_def)
  moreover have "int q0 + int (length ?X) = int p0 - (D - (int (length ?X) - int (getLength R)))"
    using q0 by (simp add: p0_def)
  ultimately have "merging g T D (t \<and> mOffset ?M = p) (apply_at q0 S (?X @ U)) ?M F S p0 q0 [] ?X"
    using M(1) B(4,5,7,8) q0 unfolding merging_def Let_def M(2-6) p0_def [symmetric] U_def [symmetric] by simp
  then show ?thesis unfolding started_def Z front_def using M(4) B(3) by auto
qed

lemma started_second:
  assumes b: "between g T D F (R # S) p q" and t: "t \<longrightarrow> tight p q F (R # S)"
    and next_second: "F = [] \<or> int (getOffset R) + D \<le> int (getOffset (hd F))"
  shows "started g T D t (Merged_init R False D) F S p (apply_at q (R # S) (apply_at p F (drop p T)))"
proof -
  let ?M = "Merged_init R False D" and ?X = "getReplacementText R" and ?n = "getLength R"
  define p0 where "p0 = nat (int (getOffset R) + D)"
  define q1 where "q1 = getOffset R + ?n"
  define U where "U = apply_at p0 F (drop p0 T)"
  define front where "front = take (p0 - p) (drop p T)"
  have B: "p \<le> length T" "int q = int p - D" "fits p (length T) F" "g \<longrightarrow> ordered F"
    "q \<le> getOffset R" "q1 \<le> q + length (apply_at p F (drop p T))"
    "fits q1 (q + length (apply_at p F (drop p T))) S" "g \<longrightarrow> separated S" "g \<longrightarrow> after q1 S"
    using b by (auto simp: between_def q1_def)
  have M: "\<not> MergeSecond ?M" "mDelta ?M = D + int (length ?X) - int ?n" "mDeltaFirst ?M = 0"
    "mOffset ?M = p0" "mLength ?M = ?n" "mText ?M = ?X"
    by (simp_all add: Merged_init_def Let_def p0_def)
  have p0: "int p0 = int (getOffset R) + D" "p \<le> p0" using B(2,5) by (simp_all add: p0_def)
  have F: "starts_from p0 F" using next_second p0(1) by (cases F) auto
  have le: "p0 \<le> length T" using B(3) F B(1,2,6) p0(1) by (cases F) (auto simp: q1_def)
  have front: "length front = p0 - p" using le p0(2) by (simp add: front_def)
  have V: "apply_at p F (drop p T) = front @ U"
  proof -
    have "apply_at p F (front @ drop p0 T) = front @ apply_at (p + length front) F (drop p0 T)"
      by (rule apply_at_prefix) (use F p0(2) front in simp)
    moreover have "front @ drop p0 T = drop p T"
      using append_take_drop_id [of "p0 - p" "drop p T"] p0(2) by (simp add: front_def)
    ultimately show ?thesis using p0(2) front by (simp add: U_def)
  qed
  have off: "getOffset R - q = p0 - p" using p0(1) B(2) by linarith
  have Z: "apply_at q (R # S) (apply_at p F (drop p T)) = front @ ?X @ apply_at q1 S (drop ?n U)"
  proof -
    have d: "q1 - q = length front + ?n" using off front B(5) by (simp add: q1_def)
    show ?thesis unfolding V by (simp add: off front d q1_def [symmetric])
  qed
  have len: "?n \<le> length U" using B(5,6) off unfolding V length_append front q1_def by linarith
  have "fits q1 (q1 + length (drop ?n U)) S"
  proof -
    have "q1 + length (drop ?n U) = q + length (front @ U)"
      using len off B(5) unfolding length_append length_drop front q1_def by linarith
    then show ?thesis using B(7) unfolding V by simp
  qed
  moreover have "z \<longrightarrow> 0 < ?n \<and> starts_from (Suc p0) F" if "z = (t \<and> p0 = p)" for z
    using t that B(2,5,9) p0(1) by (auto simp: tight_def)
  moreover have "int q1 + (D + int (length ?X) - int ?n) = int (p0 + length ?X)"
    "int q1 = int (p0 + ?n) - D"
    using p0(1) by (simp_all add: q1_def)
  ultimately have "merging g T D (t \<and> mOffset ?M = p) (?X @ apply_at q1 S (drop ?n U)) ?M F S p0 q1 ?X []"
    using M(1) B(4,8,9) le len F fits_mono [OF B(3) F]
    unfolding merging_def Let_def M(2-6) U_def [symmetric] by simp
  then show ?thesis unfolding started_def Z M(4) using p0(2) by (auto simp: front_def)
qed

section \<open>The outer loop\<close>

lemma started_finishes:
  assumes st: "started g T D t M F S p Z" and run: "merge_inner M F S = (M', F', S')"
  defines "E \<equiv> mOffset M' + mLength M'"
  shows "\<exists>q. between g T (D - mDeltaFirst M') F' S' E q \<and>
    Z = take (mOffset M' - p) (drop p T) @ mText M' @ apply_at q S' (apply_at E F' (drop E T)) \<and>
    p \<le> mOffset M' \<and> (t \<longrightarrow> mOffset M' = p \<longrightarrow> 0 < mLength M') \<and> (g \<longrightarrow> mLength M' = 0 \<longrightarrow> tight E q F' S')"
proof -
  obtain W p0 q P Q where m: "merging g T D (t \<and> mOffset M = p) W M F S p0 q P Q"
    and Z: "Z = take (mOffset M - p) (drop p T) @ W" "p \<le> mOffset M"
    using st unfolding started_def by blast
  obtain p0' q' P' Q' where "merging g T D (t \<and> mOffset M = p) W M' F' S' p0' q' P' Q'" "merged_all M' F' S'"
    using merge_inner_merging [OF run m] by blast
  from merging_done [OF this, folded E_def] obtain q where
    "between g T (D - mDeltaFirst M') F' S' E q" "W = mText M' @ apply_at q S' (apply_at E F' (drop E T))"
    "t \<and> mOffset M = p \<longrightarrow> 0 < mLength M'" "g \<longrightarrow> mLength M' = 0 \<longrightarrow> tight E q F' S'"
    by (elim exE conjE) (rule that)
  then show ?thesis using Z merge_inner_offset [OF run] by (intro exI [of _ q]) simp
qed

definition merged_set :: "bool \<Rightarrow> string \<Rightarrow> bool \<Rightarrow> nat \<Rightarrow> string \<Rightarrow> Replacement list \<Rightarrow> bool" where
  "merged_set g T t p Z Ms \<longleftrightarrow>
     fits p (length T) Ms \<and> (g \<longrightarrow> ordered Ms) \<and> (t \<longrightarrow> after p Ms) \<and> apply_at p Ms (drop p T) = Z"

lemma merged_set_step:
  assumes "started g T D t M F S p Z" "merge_inner M F S = (M', F', S')"
    and IH: "\<And>q. between g T (D - mDeltaFirst M') F' S' (mOffset M' + mLength M') q \<Longrightarrow>
      g \<longrightarrow> mLength M' = 0 \<longrightarrow> tight (mOffset M' + mLength M') q F' S' \<Longrightarrow>
      \<exists>Ms. X = Y Ms \<and> merged_set g T (g \<and> mLength M' = 0) (mOffset M' + mLength M')
        (apply_at q S' (apply_at (mOffset M' + mLength M') F' (drop (mOffset M' + mLength M') T))) Ms"
  shows "\<exists>Ms. X = Y Ms \<and> merged_set g T t p Z (asReplacement M' # Ms)"
proof -
  let ?E = "mOffset M' + mLength M'"
  obtain q where q: "between g T (D - mDeltaFirst M') F' S' ?E q"
    "Z = take (mOffset M' - p) (drop p T) @ mText M' @ apply_at q S' (apply_at ?E F' (drop ?E T))"
    "p \<le> mOffset M'" "t \<longrightarrow> mOffset M' = p \<longrightarrow> 0 < mLength M'" "g \<longrightarrow> mLength M' = 0 \<longrightarrow> tight ?E q F' S'"
    using started_finishes [OF assms(1,2)] by (elim exE conjE) (rule that)
  have R: "getOffset (asReplacement M') = mOffset M'" "getLength (asReplacement M') = mLength M'"
    "getReplacementText (asReplacement M') = mText M'"
    by (simp_all add: asReplacement_def mk_replacement_def)
  obtain Ms where Ms: "X = Y Ms" "merged_set g T (g \<and> mLength M' = 0) ?E (apply_at q S' (apply_at ?E F' (drop ?E T))) Ms"
    using IH [OF q(1,5)] by blast
  have "?E \<le> length T" using q(1) by (simp add: between_def)
  then have "merged_set g T t p Z (asReplacement M' # Ms)"
    using Ms(2) q(2,3,4) by (auto simp: merged_set_def R)
  with Ms(1) show ?thesis by blast
qed

lemma merge_outer_merges:
  assumes "between g T D F S p q" "t \<longrightarrow> tight p q F S"
  shows "\<exists>Ms. merge_outer F S D Res = foldl (\<lambda>xs R. set_insert R xs) Res Ms \<and>
    merged_set g T t p (apply_at q S (apply_at p F (drop p T))) Ms"
  using assms
proof (induction F S D Res arbitrary: p q t rule: merge_outer.induct)
  case (1 F S D Res)
  show ?case
  proof (cases "F = [] \<and> S = []")
    case True
    then have "merge_outer F S D Res = foldl (\<lambda>xs R. set_insert R xs) Res []" by (simp add: merge_outer.simps)
    moreover have "merged_set g T t p (apply_at q S (apply_at p F (drop p T))) []"
      using True by (simp add: merged_set_def)
    ultimately show ?thesis by blast
  next
    case False
    define nf where "nf \<longleftrightarrow> S = [] \<or> F \<noteq> [] \<and> int (getOffset (hd F)) < int (getOffset (hd S)) + D"
    define M where "M = Merged_init (hd (if nf then F else S)) nf D"
    obtain M' F' S' where r: "(if nf then merge_inner M (tl F) S else merge_inner M F (tl S)) = (M', F', S')"
      by (metis surj_pair)
    have step: "merge_outer F S D Res =
      merge_outer F' S' (D - mDeltaFirst M') (set_insert (asReplacement M') Res)"
      using r False unfolding merge_outer.simps [of F S] nf_def [symmetric] Let_def M_def [symmetric] by auto
    have IH: "\<exists>Ms. merge_outer F' S' (D - mDeltaFirst M') (set_insert (asReplacement M') Res) =
          foldl (\<lambda>xs R. set_insert R xs) (set_insert (asReplacement M') Res) Ms \<and>
        merged_set g T (g \<and> mLength M' = 0) E (apply_at q S' (apply_at E F' (drop E T))) Ms"
      if "between g T (D - mDeltaFirst M') F' S' E q" "g \<longrightarrow> mLength M' = 0 \<longrightarrow> tight E q F' S'" for E q
      by (rule 1(1) [OF False nf_def M_def r [symmetric] refl that(1)]) (use that(2) in blast)
    have st: "\<exists>F0 S0. merge_inner M F0 S0 = (M', F', S') \<and>
        started g T D t M F0 S0 p (apply_at q S (apply_at p F (drop p T)))"
    proof (cases nf)
      case True
      then obtain R F0 where F: "F = R # F0" using False by (cases F) (auto simp: nf_def)
      have "started g T D t M F0 S p (apply_at q S (apply_at p F (drop p T)))"
        using started_first [of g T D R F0 S p q t] 1(2,3) True unfolding F M_def by (auto simp: nf_def F)
      then show ?thesis using r True by (auto simp: F)
    next
      case nf: False
      then obtain R S0 where S: "S = R # S0" using False by (cases S) (auto simp: nf_def)
      have "started g T D t M F S0 p (apply_at q S (apply_at p F (drop p T)))"
        using started_second [of g T D F R S0 p q t] 1(2,3) nf unfolding S M_def by (auto simp: nf_def S)
      then show ?thesis using r nf by (auto simp: S)
    qed
    then obtain F0 S0 where run: "merge_inner M F0 S0 = (M', F', S')"
      and st: "started g T D t M F0 S0 p (apply_at q S (apply_at p F (drop p T)))" by blast
    from merged_set_step [OF st run IH] obtain Ms
      where "merge_outer F' S' (D - mDeltaFirst M') (set_insert (asReplacement M') Res) =
          foldl (\<lambda>xs R. set_insert R xs) (set_insert (asReplacement M') Res) Ms"
        "merged_set g T t p (apply_at q S (apply_at p F (drop p T))) (asReplacement M' # Ms)" by blast
    then show ?thesis unfolding step by (intro exI [of _ "asReplacement M' # Ms"]) simp
  qed
qed

section \<open>The set of the result\<close>

lemma set_insert_last:
  "(\<And>x. x \<in> set xs \<Longrightarrow> replacement_less x R) \<Longrightarrow> set_insert R xs = xs @ [R]"
  by (induction xs) auto

lemma set_insert_all:
  "sorted_wrt replacement_less (xs @ Ms) \<Longrightarrow> foldl (\<lambda>xs R. set_insert R xs) xs Ms = xs @ Ms"
proof (induction Ms arbitrary: xs)
  case (Cons R Ms)
  have "set_insert R xs = xs @ [R]" by (rule set_insert_last) (use Cons(2) in \<open>simp add: sorted_wrt_append\<close>)
  then show ?case using Cons(1) [of "xs @ [R]"] Cons(2) by simp
qed simp

lemma fits_offsets: "fits q L Rs \<Longrightarrow> R \<in> set Rs \<Longrightarrow> q \<le> getOffset R"
proof (induction Rs arbitrary: q)
  case (Cons R' Rs)
  have "R = R' \<or> getOffset R' + getLength R' \<le> getOffset R"
    using Cons(1) [of "getOffset R' + getLength R'"] Cons(2,3) by (cases "R = R'") simp_all
  then show ?case using Cons(2) by auto
qed simp

text \<open>No two elements have the same offset, unless the first of them is an insertion and the second is not.\<close>

lemma legal_sorted: "fits q L Rs \<Longrightarrow> ordered Rs \<Longrightarrow> sorted_wrt replacement_less Rs"
proof (induction Rs arbitrary: q)
  case (Cons R Rs)
  have "replacement_less R R'" if R': "R' \<in> set Rs" for R'
  proof (cases "getOffset R' = getOffset R")
    case True
    obtain R1 Rs' where Rs: "Rs = R1 # Rs'" using R' by (cases Rs) auto
    have le: "getOffset R + getLength R \<le> getOffset R'"
      using fits_offsets [of "getOffset R + getLength R" L Rs R'] Cons(2) R' by simp
    then have z: "getLength R = 0" using True by simp
    then have a: "after (getOffset R) Rs" using Cons(3) by simp
    have "R' = R1"
    proof (rule ccontr)
      assume "R' \<noteq> R1"
      then have "getOffset R1 + getLength R1 \<le> getOffset R'"
        using fits_offsets [of "getOffset R1 + getLength R1" L Rs' R'] Cons(2) R' Rs by simp
      moreover have "getOffset R \<le> getOffset R1" using Cons(2) Rs by simp
      ultimately show False using a True Rs by auto
    qed
    then show ?thesis using a z True Rs by (auto simp: replacement_less_def)
  next
    case False
    then show ?thesis
      using fits_offsets [of "getOffset R + getLength R" L Rs R'] Cons(2) R'
      by (auto simp: replacement_less_def)
  qed
  then show ?case using Cons by auto
qed simp

section \<open>The effect of a merge\<close>

lemma merge_merged:
  assumes "fits 0 (length T) A" "ordered A" "fits 0 (length (apply_at 0 A T)) B" "separated B" "ordered B"
  shows "merged_set True T False 0 (apply_at 0 B (apply_at 0 A T)) (merge A B)"
proof (cases "A = [] \<or> B = []")
  case True
  then show ?thesis using assms by (auto simp: merge_def merged_set_def)
next
  case False
  have "between True T 0 A B 0 0" using assms by (simp add: between_def)
  from merge_outer_merges [OF this, of False "[]"] obtain Ms
    where Ms: "merge_outer A B 0 [] = foldl (\<lambda>xs R. set_insert R xs) [] Ms"
      "merged_set True T False 0 (apply_at 0 B (apply_at 0 A T)) Ms" by auto
  have "sorted_wrt replacement_less Ms" using Ms(2) legal_sorted unfolding merged_set_def by blast
  then have "merge_outer A B 0 [] = Ms" unfolding Ms(1) using set_insert_all [of "[]" Ms] by simp
  then show ?thesis using Ms(2) False by (simp add: merge_def)
qed

end
