(* ===== verification/ReplacementSets.thy ===== *)
theory ReplacementSets
  imports ReplacementMerge
begin

text \<open>
  The operations of \<open>Replacements\<close> over the merge: positions and replacements in changed code, the
  canonical form, order independence, \<open>add\<close>, and ranges of text
  (\<open>lib/Tooling/Core/Replacement.cpp\<close>).  A failed assertion is \<open>None\<close>; an error is
  \<open>Inl\<close> of the kind of the error, the new replacement and the existing one.
\<close>

section \<open>Positions in changed code\<close>

fun shifted_loop :: "Replacement list \<Rightarrow> int \<Rightarrow> nat \<Rightarrow> int" where
  "shifted_loop [] Off Position = int Position + Off"
| "shifted_loop (R # Rs) Off Position =
     (if getOffset R + getLength R \<le> Position
      then shifted_loop Rs (Off + (int (length (getReplacementText R)) - int (getLength R))) Position
      else if getOffset R < Position \<and> getOffset R + length (getReplacementText R) \<le> Position
      then int (getOffset R + length (getReplacementText R)) - (if getReplacementText R \<noteq> [] then 1 else 0) + Off
      else int Position + Off)"

definition getShiftedCodePosition :: "Replacement list \<Rightarrow> nat \<Rightarrow> nat" where
  "getShiftedCodePosition Replaces Position = nat (shifted_loop Replaces 0 Position)"

definition getReplacementInChangedCode :: "Replacement list \<Rightarrow> Replacement \<Rightarrow> Replacement" where
  "getReplacementInChangedCode Replaces R =
     (let NewStart = getShiftedCodePosition Replaces (getOffset R);
          NewEnd = getShiftedCodePosition Replaces (getOffset R + getLength R)
      in mk_replacement (getFilePath R) NewStart (NewEnd - NewStart) (getReplacementText R))"

section \<open>Canonical form and order independence\<close>

definition set_of :: "Replacement list \<Rightarrow> Replacement list" where
  "set_of Rs = foldl (\<lambda>xs R. set_insert R xs) [] Rs"

fun canonical_loop :: "Replacement \<Rightarrow> Replacement list \<Rightarrow> Replacement list option" where
  "canonical_loop Prev [] = Some [Prev]"
| "canonical_loop Prev (R # Rs) =
     (let PrevEnd = getOffset Prev + getLength Prev in
      if PrevEnd < getOffset R then map_option ((#) Prev) (canonical_loop R Rs)
      else if PrevEnd = getOffset R then
        canonical_loop (mk_replacement (getFilePath R) (getOffset Prev) (getLength Prev + getLength R)
          (getReplacementText Prev @ getReplacementText R)) Rs
      else None)"

definition getCanonicalReplacements :: "Replacement list \<Rightarrow> Replacement list option" where
  "getCanonicalReplacements Replaces =
     (case Replaces of [] \<Rightarrow> Some [] | R # Rs \<Rightarrow> map_option set_of (canonical_loop R Rs))"

datatype replacement_error = fail_to_apply | wrong_file_path | overlap_conflict | insert_conflict

type_synonym ReplacementError = "replacement_error \<times> Replacement \<times> Replacement"

definition mergeIfOrderIndependent ::
  "Replacement list \<Rightarrow> Replacement \<Rightarrow> (ReplacementError + Replacement list) option" where
  "mergeIfOrderIndependent Replaces R =
     (let RsShiftedByReplaces = [getReplacementInChangedCode Replaces R];
          ReplacesShiftedByRs = set_of (map (getReplacementInChangedCode [R]) Replaces);
          MergeShiftedRs = merge Replaces RsShiftedByReplaces;
          MergeShiftedReplaces = merge [R] ReplacesShiftedByRs
      in case getCanonicalReplacements MergeShiftedRs of None \<Rightarrow> None
         | Some C \<Rightarrow> (case getCanonicalReplacements MergeShiftedReplaces of None \<Rightarrow> None
             | Some C' \<Rightarrow> Some (if C = C' then Inr MergeShiftedRs else Inl (overlap_conflict, R, hd Replaces))))"

section \<open>Adding a replacement\<close>

definition overlap :: "Replacement \<Rightarrow> Replacement \<Rightarrow> bool" where
  "overlap R1 R2 = overlapsWith (mk_range (getOffset R1) (getLength R1)) (mk_range (getOffset R2) (getLength R2))"

definition UINT_MAX :: nat where
  "UINT_MAX = 2 ^ 32 - 1"

text \<open>\<open>before\<close> holds the elements before the iterator \<open>I\<close>, \<open>rest\<close> those from it on.\<close>

definition add_overlapping ::
  "Replacement \<Rightarrow> Replacement list \<Rightarrow> Replacement list \<Rightarrow> (ReplacementError + Replacement list) option" where
  "add_overlapping R before rest =
     (let OverlapReplaces = rev (takeWhile (overlap R) (rev before));
          kept = rev (dropWhile (overlap R) (rev before))
      in case mergeIfOrderIndependent OverlapReplaces R of
           None \<Rightarrow> None
         | Some (Inl e) \<Rightarrow> Some (Inl e)
         | Some (Inr Merged) \<Rightarrow> Some (Inr (foldl (\<lambda>xs x. set_insert x xs) (kept @ rest) Merged)))"

definition add_checked ::
  "Replacement \<Rightarrow> Replacement list \<Rightarrow> Replacement list \<Rightarrow> (ReplacementError + Replacement list) option" where
  "add_checked R before rest =
     (if rest \<noteq> [] \<and> getOffset R = getOffset (hd rest) then
        (if getLength R \<noteq> 0 then None
         else if getLength (hd rest) = 0 then
           (if getReplacementText R @ getReplacementText (hd rest) \<noteq> getReplacementText (hd rest) @ getReplacementText R
            then Some (Inl (insert_conflict, R, hd rest))
            else Some (Inr (set_insert
              (mk_replacement (getFilePath R) (getOffset R) 0 (getReplacementText R @ getReplacementText (hd rest)))
              (before @ tl rest))))
         else Some (Inr (set_insert R (before @ rest))))
      else if before = [] \<or> \<not> overlap R (last before) then Some (Inr (set_insert R (before @ rest)))
      else add_overlapping R before rest)"

definition add :: "Replacement \<Rightarrow> Replacement list \<Rightarrow> (ReplacementError + Replacement list) option" where
  "add R Replaces =
     (if Replaces \<noteq> [] \<and> getFilePath R \<noteq> getFilePath (hd Replaces)
      then Some (Inl (wrong_file_path, R, hd Replaces))
      else if getOffset R = UINT_MAX then Some (Inr (set_insert R Replaces))
      else
        let AtEnd = mk_replacement (getFilePath R) (getOffset R + getLength R) 0 [];
            before = takeWhile (\<lambda>x. replacement_less x AtEnd) Replaces;
            rest = dropWhile (\<lambda>x. replacement_less x AtEnd) Replaces
        in add_checked R before rest)"

section \<open>Ranges of text\<close>

definition sort_ranges :: "Range list \<Rightarrow> Range list" where
  "sort_ranges Ranges = sort_key (\<lambda>r. range_Offset r) (sort_key (\<lambda>r. range_Length r) Ranges)"

fun combine_loop :: "Range \<Rightarrow> Range list \<Rightarrow> Range list" where
  "combine_loop Last [] = [Last]"
| "combine_loop Last (R # Rs) =
     (if range_Offset Last + range_Length Last < range_Offset R then Last # combine_loop R Rs
      else
        let NewEnd = max (range_Offset Last + range_Length Last) (range_Offset R + range_Length R)
        in combine_loop (mk_range (range_Offset Last) (NewEnd - range_Offset Last)) Rs)"

definition combineAndSortRanges :: "Range list \<Rightarrow> Range list" where
  "combineAndSortRanges Ranges =
     (case sort_ranges Ranges of [] \<Rightarrow> [] | R # Rs \<Rightarrow> combine_loop R Rs)"

fun affected_loop :: "int \<Rightarrow> Replacement list \<Rightarrow> Range list" where
  "affected_loop Shift [] = []"
| "affected_loop Shift (R # Rs) =
     (let Length = length (getReplacementText R)
      in mk_range (nat (int (getOffset R) + Shift)) Length #
         affected_loop (Shift + (int Length - int (getLength R))) Rs)"

definition getAffectedRanges :: "Replacement list \<Rightarrow> Range list" where
  "getAffectedRanges Replaces = combineAndSortRanges (affected_loop 0 Replaces)"

definition fake :: "string \<Rightarrow> Range \<Rightarrow> Replacement" where
  "fake path r = mk_replacement path (range_Offset r) (range_Length r) (replicate (range_Length r) CHR '' '')"

fun add_fakes :: "string \<Rightarrow> Range list \<Rightarrow> Replacement list \<Rightarrow> Replacement list option" where
  "add_fakes path [] FakeReplaces = Some FakeReplaces"
| "add_fakes path (R # Rs) FakeReplaces =
     (case add (fake path R) FakeReplaces of
        Some (Inr FakeReplaces) \<Rightarrow> add_fakes path Rs FakeReplaces
      | _ \<Rightarrow> None)"

definition calculateRangesAfterReplacements :: "Replacement list \<Rightarrow> Range list \<Rightarrow> Range list option" where
  "calculateRangesAfterReplacements Replaces Ranges =
     (let MergedRanges = combineAndSortRanges Ranges in
      if Replaces = [] then Some MergedRanges
      else map_option (\<lambda>FakeReplaces. getAffectedRanges (merge FakeReplaces Replaces))
        (add_fakes (getFilePath (hd Replaces)) MergedRanges []))"

section \<open>Applying replacements to a rewrite buffer\<close>

text \<open>\<open>Replacement::apply\<close> on each of the replacements, from last to first.\<close>

fun apply_each :: "Replacement list \<Rightarrow> rewrite_buffer \<Rightarrow> rewrite_buffer option" where
  "apply_each [] rb = Some rb"
| "apply_each (R # Rs) rb =
     Option.bind (ReplaceText (of_nat (getOffset R)) (of_nat (getLength R)) (getReplacementText R) rb) (apply_each Rs)"

definition applyAllReplacements :: "string \<Rightarrow> Replacement list \<Rightarrow> string option" where
  "applyAllReplacements Code Replaces =
     (if Replaces = [] then Some Code
      else Option.bind (RewriteBuffer_Initialize Code RewriteBuffer_init) (\<lambda>rb.
        Option.bind (apply_each (rev Replaces) rb) RewriteBuffer_write))"

lemma mk_replacement_simps [simp]:
  "getFilePath (mk_replacement f n l t) = f" "getOffset (mk_replacement f n l t) = n"
  "getLength (mk_replacement f n l t) = l" "getReplacementText (mk_replacement f n l t) = t"
  by (simp_all add: mk_replacement_def)

lemma changed_simps [simp]:
  "getFilePath (getReplacementInChangedCode Rs R) = getFilePath R"
  "getOffset (getReplacementInChangedCode Rs R) = getShiftedCodePosition Rs (getOffset R)"
  "getLength (getReplacementInChangedCode Rs R) =
     getShiftedCodePosition Rs (getOffset R + getLength R) - getShiftedCodePosition Rs (getOffset R)"
  "getReplacementText (getReplacementInChangedCode Rs R) = getReplacementText R"
  by (simp_all add: getReplacementInChangedCode_def Let_def)

section \<open>Lists of replacements that do not overlap\<close>

abbreviation repl_end :: "Replacement \<Rightarrow> nat" where
  "repl_end R \<equiv> getOffset R + getLength R"

lemma fits_weaken: "fits q L Rs \<Longrightarrow> q' \<le> q \<Longrightarrow> L \<le> L' \<Longrightarrow> fits q' L' Rs"
  by (induction Rs arbitrary: q q') auto

lemma fits_bounds: "fits q L Rs \<Longrightarrow> R \<in> set Rs \<Longrightarrow> q \<le> getOffset R \<and> repl_end R \<le> L"
proof (induction Rs arbitrary: q)
  case (Cons R' Rs)
  then have "R = R' \<or> repl_end R' \<le> getOffset R \<and> repl_end R \<le> L" by auto
  then show ?case using Cons(2) by auto
qed simp

lemma fits_append:
  "fits q L (A @ B) \<longleftrightarrow> fits q L A \<and> fits (if A = [] then q else repl_end (last A)) L B"
  by (induction A arbitrary: q) auto

lemma fits_upto: "fits q L A \<Longrightarrow> (\<And>R. R \<in> set A \<Longrightarrow> repl_end R \<le> K) \<Longrightarrow> fits q K A"
  by (induction A arbitrary: q) auto

lemma fits_drop: "fits q L (B @ C) \<Longrightarrow> fits q L C"
  by (induction B arbitrary: q) (simp, metis append_Cons fits.simps(2) fits_weaken le_add1 order_refl order_trans)

lemma fits_remove: "fits q L (A @ B @ C) \<Longrightarrow> fits q L (A @ C)"
  by (induction A arbitrary: q) (auto intro: fits_drop)

definition apart :: "Replacement \<Rightarrow> Replacement \<Rightarrow> bool" where
  "apart R R' \<longleftrightarrow> repl_end R \<le> getOffset R' \<or> repl_end R' \<le> getOffset R"

lemma fits_apart: "fits q L (A @ B) \<Longrightarrow> R \<in> set A \<Longrightarrow> R' \<in> set B \<Longrightarrow> repl_end R \<le> getOffset R'"
proof (induction A arbitrary: q)
  case (Cons R1 A)
  show ?case
  proof (cases "R = R1")
    case True
    then show ?thesis using fits_bounds [of "repl_end R1" L "A @ B" R'] Cons(2,4) by simp
  next
    case False
    then show ?thesis using Cons by auto
  qed
qed simp

lemma set_insert_set: "set (set_insert R xs) \<subseteq> insert R (set xs)"
  by (induction xs) auto

lemma set_insert_not_empty: "set_insert R xs \<noteq> []"
  by (cases xs) auto

lemma set_insert_fits:
  "fits q L xs \<Longrightarrow> q \<le> getOffset R \<Longrightarrow> repl_end R \<le> L \<Longrightarrow> (\<And>x. x \<in> set xs \<Longrightarrow> apart x R) \<Longrightarrow>
   fits q L (set_insert R xs)"
proof (induction xs arbitrary: q)
  case (Cons x xs)
  have x: "apart x R" using Cons(5) by simp
  consider "replacement_less x R" | "replacement_less R x" "\<not> replacement_less x R"
    | "\<not> replacement_less x R" "\<not> replacement_less R x" by blast
  then show ?case
  proof cases
    case 1
    then have "repl_end x \<le> getOffset R"
      using x by (auto simp: apart_def replacement_less_def split: if_splits)
    then show ?thesis using Cons 1 by simp
  next
    case 2
    then have "repl_end R \<le> getOffset x"
      using x by (auto simp: apart_def replacement_less_def split: if_splits)
    then show ?thesis using Cons 2 by simp
  next
    case 3
    then show ?thesis using Cons(2) by simp
  qed
qed simp

lemma insert_all_fits:
  "fits q L xs \<Longrightarrow> fits q L Ms \<Longrightarrow> (\<And>x y. x \<in> set xs \<Longrightarrow> y \<in> set Ms \<Longrightarrow> apart x y) \<Longrightarrow>
   fits q L (foldl (\<lambda>xs R. set_insert R xs) xs Ms) \<and>
   set (foldl (\<lambda>xs R. set_insert R xs) xs Ms) \<subseteq> set xs \<union> set Ms"
proof (induction Ms arbitrary: xs)
  case (Cons R Ms)
  have R: "q \<le> getOffset R" "repl_end R \<le> L" using fits_bounds [OF Cons(3), of R] by simp_all
  have f: "fits q L (set_insert R xs)" by (rule set_insert_fits) (use Cons(2,4) R in auto)
  have f': "fits q L Ms" using Cons(3) fits_weaken [of "repl_end R" L Ms q L] R by simp
  have "apart x y" if "x \<in> set (set_insert R xs)" "y \<in> set Ms" for x y
  proof (cases "x = R")
    case True
    then show ?thesis using fits_apart [of q L "[R]" Ms R y] Cons(3) that by (simp add: apart_def)
  next
    case False
    then show ?thesis using that set_insert_set [of R xs] Cons(4) by auto
  qed
  from Cons(1) [OF f f' this] show ?case using set_insert_set [of R xs] by auto
qed simp

section \<open>Bounds of a merge\<close>

lemma merge_outer_fits:
  assumes "p \<le> length T" "fits p (length T) A" "fits p (p + length (apply_at p A (drop p T))) B"
  shows "fits p (length T) (merge_outer A B 0 [])"
proof -
  have "between False T 0 A B p p" using assms by (simp add: between_def)
  from merge_outer_merges [OF this, of False "[]"] obtain Ms
    where Ms: "merge_outer A B 0 [] = foldl (\<lambda>xs R. set_insert R xs) [] Ms"
      "merged_set False T False p (apply_at p B (apply_at p A (drop p T))) Ms" by auto
  show ?thesis unfolding Ms(1) using insert_all_fits [of p "length T" "[]" Ms] Ms(2)
    by (simp add: merged_set_def)
qed

lemma merge_fits:
  assumes "p \<le> length T" "fits p (length T) A" "fits p (p + length (apply_at p A (drop p T))) B"
  shows "fits p (length T) (merge A B)"
  using assms merge_outer_fits [OF assms] by (auto simp: merge_def)

lemma merge_inner_path:
  "merge_inner M F S = (M', F', S') \<Longrightarrow>
   mFilePath M' = mFilePath M \<and> set F' \<subseteq> set F \<and> set S' \<subseteq> set S"
proof (induction M F S arbitrary: M' F' S' rule: merge_inner.induct)
  case (1 M F S)
  have m: "mFilePath (Merged_merge R M) = mFilePath M" for R by (simp add: Merged_merge_def Let_def)
  show ?case
    using 1(3)
    by (subst (asm) merge_inner.simps) (auto split: if_splits list.splits dest!: 1(1) 1(2) simp: m)
qed

definition one_path :: "string \<Rightarrow> Replacement list \<Rightarrow> bool" where
  "one_path path Rs \<longleftrightarrow> (\<forall>R \<in> set Rs. getFilePath R = path)"

lemma one_path_simps [simp]:
  "one_path path []" "one_path path (R # Rs) \<longleftrightarrow> getFilePath R = path \<and> one_path path Rs"
  "one_path path (A @ B) \<longleftrightarrow> one_path path A \<and> one_path path B"
  by (auto simp: one_path_def)

lemma one_path_mono: "one_path path Rs \<Longrightarrow> set Rs' \<subseteq> set Rs \<Longrightarrow> one_path path Rs'"
  by (auto simp: one_path_def)

lemma one_path_insert: "one_path path Rs \<Longrightarrow> getFilePath R = path \<Longrightarrow> one_path path (set_insert R Rs)"
  using set_insert_set [of R Rs] by (auto simp: one_path_def)

lemma merge_outer_path:
  "one_path path F \<Longrightarrow> one_path path S \<Longrightarrow> one_path path Res \<Longrightarrow> one_path path (merge_outer F S D Res)"
proof (induction F S D Res rule: merge_outer.induct)
  case (1 F S D Res)
  show ?case
  proof (cases "F = [] \<and> S = []")
    case True
    then show ?thesis using 1(4) by (simp add: merge_outer.simps)
  next
    case False
    define nf where "nf \<longleftrightarrow> S = [] \<or> F \<noteq> [] \<and> int (getOffset (hd F)) < int (getOffset (hd S)) + D"
    define M where "M = Merged_init (hd (if nf then F else S)) nf D"
    obtain M' F' S' where r: "(if nf then merge_inner M (tl F) S else merge_inner M F (tl S)) = (M', F', S')"
      by (metis surj_pair)
    have step: "merge_outer F S D Res =
      merge_outer F' S' (D - mDeltaFirst M') (set_insert (asReplacement M') Res)"
      using r False unfolding merge_outer.simps [of F S] nf_def [symmetric] Let_def M_def [symmetric] by auto
    have hd: "mFilePath M = path"
      using False 1(2,3) by (cases F; cases S) (auto simp: M_def Merged_init_def Let_def nf_def)
    have sub: "mFilePath M' = mFilePath M \<and> set F' \<subseteq> set F \<and> set S' \<subseteq> set S"
    proof (cases nf)
      case True
      then show ?thesis using merge_inner_path [of M "tl F" S M' F' S'] r by (cases F) auto
    next
      case False
      then show ?thesis using merge_inner_path [of M F "tl S" M' F' S'] r by (cases S) auto
    qed
    have "one_path path (merge_outer F' S' (D - mDeltaFirst M') (set_insert (asReplacement M') Res))"
    proof (rule 1(1) [OF False nf_def M_def r [symmetric] refl])
      show "one_path path F'" "one_path path S'" using sub 1(2,3) one_path_mono by blast+
      show "one_path path (set_insert (asReplacement M') Res)"
        using sub hd by (intro one_path_insert 1(4)) (simp add: asReplacement_def mk_replacement_def)
    qed
    then show ?thesis by (simp add: step)
  qed
qed

lemma merge_path: "one_path path A \<Longrightarrow> one_path path B \<Longrightarrow> one_path path (merge A B)"
  by (simp add: merge_def merge_outer_path)

section \<open>Shifted positions\<close>

definition shifted :: "Replacement list \<Rightarrow> nat \<Rightarrow> int" where
  "shifted Rs = shifted_loop Rs 0"

definition grow :: "Replacement list \<Rightarrow> int" where
  "grow Rs = (\<Sum>R\<leftarrow>Rs. int (length (getReplacementText R)) - int (getLength R))"

lemma shifted_offset: "shifted_loop Rs Off Pos = Off + shifted Rs Pos"
  unfolding shifted_def
proof (induction Rs arbitrary: Off)
  case (Cons R Rs)
  let ?d = "int (length (getReplacementText R)) - int (getLength R)"
  show ?case using Cons [of "Off + ?d"] Cons [of ?d] by simp
qed simp

lemma shifted_simps:
  "shifted [] Pos = int Pos"
  "shifted (R # Rs) Pos =
     (if repl_end R \<le> Pos then int (length (getReplacementText R)) - int (getLength R) + shifted Rs Pos
      else if getOffset R < Pos \<and> getOffset R + length (getReplacementText R) \<le> Pos
      then int (getOffset R + length (getReplacementText R)) - (if getReplacementText R \<noteq> [] then 1 else 0)
      else int Pos)"
  using shifted_offset [of Rs "int (length (getReplacementText R)) - int (getLength R)" Pos]
  by (simp_all add: shifted_def)

lemma shifted_ge: "fits q L Rs \<Longrightarrow> q \<le> Pos \<Longrightarrow> int q \<le> shifted Rs Pos"
proof (induction Rs arbitrary: q)
  case (Cons R Rs)
  then show ?case using Cons(1) [of "repl_end R"] by (cases "getReplacementText R") (auto simp: shifted_simps)
qed (simp add: shifted_simps)

lemma shifted_mono: "fits q L Rs \<Longrightarrow> Pos \<le> Pos' \<Longrightarrow> shifted Rs Pos \<le> shifted Rs Pos'"
proof (induction Rs arbitrary: q)
  case (Cons R Rs)
  have ge: "repl_end R \<le> Pos' \<Longrightarrow> int (repl_end R) \<le> shifted Rs Pos'"
    using shifted_ge [of "repl_end R" L Rs] Cons(2) by simp
  show ?case
    using Cons(1) [of "repl_end R"] Cons(2,3) ge by (cases "getReplacementText R") (auto simp: shifted_simps)
qed (simp add: shifted_simps)

lemma apply_at_length:
  "fits q L Rs \<Longrightarrow> q + length U = L \<Longrightarrow> int (length (apply_at q Rs U)) = int (length U) + grow Rs"
proof (induction Rs arbitrary: q U)
  case (Cons R Rs)
  have "int (length (apply_at (repl_end R) Rs (drop (repl_end R - q) U))) =
      int (length (drop (repl_end R - q) U)) + grow Rs"
    by (rule Cons(1)) (use Cons(2,3) in auto)
  moreover have "getOffset R - q \<le> length U" "repl_end R - q \<le> length U" using Cons(2,3) by auto
  ultimately show ?case using Cons(2,3) by (simp add: grow_def)
qed (simp add: grow_def)

lemma shifted_all: "fits q L Rs \<Longrightarrow> L \<le> Pos \<Longrightarrow> shifted Rs Pos = int Pos + grow Rs"
  by (induction Rs arbitrary: q) (auto simp: shifted_simps grow_def)

lemma shifted_le:
  assumes "fits q L Rs" "Pos \<le> L" "q + length U = L"
  shows "shifted Rs Pos \<le> int q + int (length (apply_at q Rs U))"
  using shifted_mono [OF assms(1,2)] shifted_all [OF assms(1) order_refl] apply_at_length [OF assms(1,3)] assms(3)
  by simp

lemma shifted_position:
  assumes "fits q L Rs" "q \<le> Pos"
  shows "int (getShiftedCodePosition Rs Pos) = shifted Rs Pos"
  using shifted_ge [OF assms] by (simp add: getShiftedCodePosition_def shifted_def)

lemma changed_fits:
  assumes Rs: "fits q L Rs" and R: "q \<le> getOffset R" "repl_end R \<le> L" and U: "q + length U = L"
  shows "fits q (q + length (apply_at q Rs U)) [getReplacementInChangedCode Rs R]"
proof -
  note s = shifted_position [OF Rs R(1)] shifted_position [OF Rs, of "repl_end R"]
  have "int q \<le> shifted Rs (getOffset R)" by (rule shifted_ge [OF Rs R(1)])
  moreover have "shifted Rs (getOffset R) \<le> shifted Rs (repl_end R)" by (rule shifted_mono [OF Rs]) simp
  moreover have "shifted Rs (repl_end R) \<le> int q + int (length (apply_at q Rs U))" by (rule shifted_le [OF Rs R(2) U])
  ultimately show ?thesis using s R(1) by simp
qed

lemma changed_all_fits:
  assumes R: "fits q L [R]" and U: "q + length U = L"
  shows "fits p L Rs \<Longrightarrow> q \<le> p \<Longrightarrow>
    fits (getShiftedCodePosition [R] p) (q + length (apply_at q [R] U)) (map (getReplacementInChangedCode [R]) Rs)"
proof (induction Rs arbitrary: p)
  case (Cons R' Rs)
  let ?s = "getShiftedCodePosition [R]"
  have s: "int (?s Pos) = shifted [R] Pos" if "q \<le> Pos" for Pos by (rule shifted_position [OF R that])
  have m: "?s Pos \<le> ?s Pos'" if "q \<le> Pos" "Pos \<le> Pos'" for Pos Pos'
    using shifted_mono [OF R that(2)] s [of Pos] s [of Pos'] that by simp
  have "?s (repl_end R') \<le> q + length (apply_at q [R] U)"
    using shifted_le [OF R _ U, of "repl_end R'"] s [of "repl_end R'"] Cons(2,3) by simp
  moreover have "fits (?s (repl_end R')) (q + length (apply_at q [R] U)) (map (getReplacementInChangedCode [R]) Rs)"
    by (rule Cons(1)) (use Cons(2,3) in auto)
  moreover have "?s p \<le> ?s (getOffset R')" "?s (getOffset R') \<le> ?s (repl_end R')"
    using Cons(2,3) by (auto intro!: m)
  ultimately show ?case by simp
qed simp

section \<open>Canonical form\<close>

lemma canonical_loop_fits:
  "fits q L (Prev # Rs) \<Longrightarrow> \<exists>C. canonical_loop Prev Rs = Some C \<and> fits q L C"
proof (induction Rs arbitrary: q Prev)
  case (Cons R Rs)
  show ?case
  proof (cases "repl_end Prev < getOffset R")
    case True
    then show ?thesis using Cons(1) [of "repl_end Prev" R] Cons(2) by auto
  next
    case False
    let ?R = "mk_replacement (getFilePath R) (getOffset Prev) (getLength Prev + getLength R)
          (getReplacementText Prev @ getReplacementText R)"
    have eq: "repl_end Prev = getOffset R" using False Cons(2) by simp
    have e: "getOffset Prev + (getLength Prev + getLength R) = repl_end R" using eq by simp
    have "fits q L (?R # Rs)" using Cons(2) by (simp add: e)
    then show ?thesis using Cons(1) [of q ?R] False eq by simp
  qed
qed simp

lemma set_of_fits: "fits q L Rs \<Longrightarrow> fits q L (set_of Rs) \<and> set (set_of Rs) \<subseteq> set Rs"
  using insert_all_fits [of q L "[]" Rs] by (simp add: set_of_def)

lemma canonical_fits: "fits q L Rs \<Longrightarrow> \<exists>C. getCanonicalReplacements Rs = Some C \<and> fits q L C"
  using canonical_loop_fits [of q L "hd Rs" "tl Rs"] set_of_fits
  by (cases Rs) (auto simp: getCanonicalReplacements_def simp del: canonical_loop.simps)

section \<open>The result of \<open>add\<close>\<close>

lemma merge_if_independent_fits:
  assumes A: "fits q L A" "one_path path A" and R: "q \<le> getOffset R" "repl_end R \<le> L" "getFilePath R = path"
  shows "(\<exists>m. mergeIfOrderIndependent A R = Some (Inr m) \<and> fits q L m \<and> one_path path m) \<or>
    mergeIfOrderIndependent A R = Some (Inl (overlap_conflict, R, hd A))"
proof -
  define T :: string where "T = replicate L CHR ''x''"
  have T: "length T = L" "q \<le> length T" using R by (simp_all add: T_def)
  then have U: "q + length (drop q T) = L" by simp
  define m1 where "m1 = merge A [getReplacementInChangedCode A R]"
  define m2 where "m2 = merge [R] (set_of (map (getReplacementInChangedCode [R]) A))"
  have 1: "fits q L m1" unfolding m1_def
    using merge_fits [of q T A "[getReplacementInChangedCode A R]"] T A(1) changed_fits [OF A(1) R(1,2) U] by simp
  have R1: "fits q L [R]" using R by simp
  have "q \<le> getShiftedCodePosition [R] q"
    using shifted_ge [OF R1, of q] shifted_position [OF R1, of q] by simp
  with changed_all_fits [OF R1 U A(1)]
  have "fits q (q + length (apply_at q [R] (drop q T))) (map (getReplacementInChangedCode [R]) A)"
    using fits_weaken by blast
  then have "fits q (q + length (apply_at q [R] (drop q T))) (set_of (map (getReplacementInChangedCode [R]) A))"
    using set_of_fits by blast
  then have 2: "fits q L m2" unfolding m2_def
    using merge_fits [of q T "[R]"] T R1 by simp
  obtain C C' where C: "getCanonicalReplacements m1 = Some C" "getCanonicalReplacements m2 = Some C'"
    using canonical_fits [OF 1] canonical_fits [OF 2] by blast
  have "one_path path m1" unfolding m1_def
    by (rule merge_path [OF A(2)]) (simp add: getReplacementInChangedCode_def mk_replacement_def R(3) Let_def)
  then show ?thesis using 1 C
    unfolding mergeIfOrderIndependent_def Let_def m1_def [symmetric] m2_def [symmetric] by auto
qed

definition legal :: "nat \<Rightarrow> string \<Rightarrow> Replacement list \<Rightarrow> bool" where
  "legal L path Rs \<longleftrightarrow> fits 0 L Rs \<and> one_path path Rs"

lemma legal_insert:
  assumes "legal L path xs" "repl_end R \<le> L" "getFilePath R = path" "\<And>x. x \<in> set xs \<Longrightarrow> apart x R"
  shows "legal L path (set_insert R xs)"
  using set_insert_fits [of 0 L xs R] one_path_insert [of path xs R] assms by (simp add: legal_def)

lemma overlap_iff: "overlap R x \<longleftrightarrow> getOffset x < repl_end R \<and> getOffset R < repl_end x"
  by (simp add: overlap_def overlapsWith_def mk_range_def)

text \<open>Where the iterator stands.\<close>

lemma lower_bound_split:
  assumes "legal L path Rs" "getFilePath R = path"
  defines "AtEnd \<equiv> mk_replacement path (repl_end R) 0 []"
  obtains before rest where
    "takeWhile (\<lambda>x. replacement_less x AtEnd) Rs = before" "dropWhile (\<lambda>x. replacement_less x AtEnd) Rs = rest"
    "Rs = before @ rest" "\<And>x. x \<in> set before \<Longrightarrow> getOffset x < repl_end R"
    "\<And>x. x \<in> set rest \<Longrightarrow> repl_end R \<le> getOffset x"
proof -
  let ?P = "\<lambda>x. replacement_less x AtEnd"
  have lt: "?P x \<longleftrightarrow> getOffset x < repl_end R" if "x \<in> set Rs" for x
    using that assms(1) by (auto simp: AtEnd_def mk_replacement_def replacement_less_def legal_def one_path_def)
  have "getOffset x < repl_end R" if "x \<in> set (takeWhile ?P Rs)" for x
    using that lt set_takeWhileD [OF that] by blast
  moreover have "repl_end R \<le> getOffset x" if x: "x \<in> set (dropWhile ?P Rs)" for x
  proof -
    obtain y ys where ys: "dropWhile ?P Rs = y # ys" using x by (cases "dropWhile ?P Rs") auto
    have "\<not> ?P y" using hd_dropWhile [of ?P Rs] ys by simp
    moreover have "y \<in> set Rs" using set_dropWhileD [of y ?P Rs] ys by simp
    ultimately have y: "repl_end R \<le> getOffset y" using lt by (simp add: not_less)
    show ?thesis
    proof (cases "x = y")
      case False
      have "fits 0 L (takeWhile ?P Rs @ y # ys)" using assms(1) ys takeWhile_dropWhile_id [of ?P Rs] by (simp add: legal_def)
      then have "repl_end y \<le> getOffset x"
        using fits_apart [of 0 L "takeWhile ?P Rs @ [y]" ys y x] False x ys by simp
      then show ?thesis using y by simp
    qed (use y in simp)
  qed
  ultimately show ?thesis by (intro that [OF refl refl]) simp_all
qed

lemma add_overlapping_legal:
  assumes L: "legal L path (before @ rest)" and R: "repl_end R \<le> L" "getFilePath R = path"
    and b: "\<And>x. x \<in> set before \<Longrightarrow> getOffset x < repl_end R"
    and r: "\<And>x. x \<in> set rest \<Longrightarrow> repl_end R \<le> getOffset x"
    and ov: "before \<noteq> []" "overlap R (last before)"
  shows "(\<exists>Rs'. add_overlapping R before rest = Some (Inr Rs') \<and> legal L path Rs') \<or>
    (\<exists>x \<in> set before. overlap R x \<and> add_overlapping R before rest = Some (Inl (overlap_conflict, R, x)))"
proof -
  define A where "A = rev (takeWhile (overlap R) (rev before))"
  define kept where "kept = rev (dropWhile (overlap R) (rev before))"
  define q where "q = (if kept = [] then 0 else repl_end (last kept))"
  define K where "K = (if rest = [] then L else getOffset (hd rest))"
  have before: "before = kept @ A"
    unfolding A_def kept_def by (metis rev_append rev_rev_ident takeWhile_dropWhile_id)
  have A: "A \<noteq> []" "last A = last before"
    using ov by (cases before rule: rev_cases; simp add: A_def)+
  have fA: "fits q L A" "fits 0 L kept" "fits 0 L (kept @ A @ rest)" "one_path path (kept @ A @ rest)"
    using L by (auto simp: legal_def before fits_append q_def)
  have K: "K \<le> L" "repl_end R \<le> K"
    using r R(1) fits_bounds [OF fA(3), of "hd rest"] by (cases rest; simp add: K_def)+
  have rK: "K \<le> getOffset x" if "x \<in> set rest" for x
  proof -
    obtain y ys where y: "rest = y # ys" using \<open>x \<in> set rest\<close> by (cases rest) auto
    have "x = y \<or> repl_end y \<le> getOffset x"
      using fits_apart [of 0 L "kept @ A @ [y]" ys y x] fA(3) that y by auto
    then show ?thesis using y by (auto simp: K_def)
  qed
  have AK: "repl_end x \<le> K" if "x \<in> set A" for x
  proof (cases rest)
    case Nil
    then show ?thesis using fits_bounds [OF fA(1) that] by (simp add: K_def)
  next
    case (Cons y ys)
    then show ?thesis using fits_apart [of 0 L "kept @ A" rest x y] fA(3) that by (simp add: K_def)
  qed
  have keptR: "q \<le> getOffset R"
  proof (cases kept rule: rev_cases)
    case (snoc ks k)
    have "\<not> overlap R k"
      using hd_dropWhile [of "overlap R" "rev before"] snoc by (cases "dropWhile (overlap R) (rev before)") (auto simp: kept_def)
    then show ?thesis using b [of k] before snoc by (auto simp: overlap_iff q_def)
  qed (simp add: q_def)
  have keptq: "repl_end x \<le> q" if "x \<in> set kept" for x
  proof (cases kept rule: rev_cases)
    case (snoc ks k)
    then have "x = k \<or> repl_end x \<le> getOffset k"
      using that fits_apart [of 0 L ks "k # A @ rest" x k] fA(3) by auto
    then show ?thesis using snoc by (auto simp: q_def)
  qed (use that in simp)
  from merge_if_independent_fits [OF fits_upto [OF fA(1) AK] _ keptR K(2) R(2)] fA(4)
  consider m where "mergeIfOrderIndependent A R = Some (Inr m)" "fits q K m" "one_path path m"
    | "mergeIfOrderIndependent A R = Some (Inl (overlap_conflict, R, hd A))" by auto
  then show ?thesis
  proof cases
    case 1
    have "apart x y" if "x \<in> set (kept @ rest)" "y \<in> set m" for x y
    proof (cases "x \<in> set kept")
      case True
      then show ?thesis using keptq [of x] fits_bounds [OF 1(2) that(2)] by (simp add: apart_def)
    next
      case False
      then have "x \<in> set rest" using that(1) by simp
      then show ?thesis using rK [of x] fits_bounds [OF 1(2) that(2)] by (simp add: apart_def)
    qed
    moreover have "fits 0 L (kept @ rest)" by (rule fits_remove [OF fA(3)])
    moreover have "fits 0 L m" using fits_weaken [OF 1(2)] K(1) by simp
    ultimately have "fits 0 L (foldl (\<lambda>xs x. set_insert x xs) (kept @ rest) m) \<and>
        set (foldl (\<lambda>xs x. set_insert x xs) (kept @ rest) m) \<subseteq> set (kept @ rest) \<union> set m"
      by (intro insert_all_fits)
    moreover have "one_path path (foldl (\<lambda>xs x. set_insert x xs) (kept @ rest) m)"
      using calculation 1(3) fA(4) by (auto simp: one_path_def)
    ultimately show ?thesis using 1(1)
      by (simp add: add_overlapping_def Let_def legal_def A_def [symmetric] kept_def [symmetric])
  next
    case 2
    have "overlap R x" if "x \<in> set A" for x using that by (auto simp: A_def dest: set_takeWhileD)
    moreover have "hd A \<in> set A" "hd A \<in> set before" using A(1) by (simp_all add: before)
    moreover note 2
    ultimately show ?thesis by (auto simp: add_overlapping_def Let_def A_def [symmetric])
  qed
qed

lemma add_checked_legal:
  assumes L: "legal L path (before @ rest)" and R: "repl_end R \<le> L" "getFilePath R = path"
    and b: "\<And>x. x \<in> set before \<Longrightarrow> getOffset x < repl_end R"
    and r: "\<And>x. x \<in> set rest \<Longrightarrow> repl_end R \<le> getOffset x"
  shows "(\<exists>Rs'. add_checked R before rest = Some (Inr Rs') \<and> legal L path Rs') \<or>
    (\<exists>x \<in> set before. overlap R x \<and> add_checked R before rest = Some (Inl (overlap_conflict, R, x))) \<or>
    (\<exists>x \<in> set rest. getLength R = 0 \<and> getLength x = 0 \<and> getOffset x = getOffset R \<and>
      getReplacementText R @ getReplacementText x \<noteq> getReplacementText x @ getReplacementText R \<and>
      add_checked R before rest = Some (Inl (insert_conflict, R, x)))"
proof (cases "rest \<noteq> [] \<and> getOffset R = getOffset (hd rest)")
  case True
  then obtain I ys where I: "rest = I # ys" "getOffset I = getOffset R" by (cases rest) auto
  then have z: "getLength R = 0" using r [of I] by simp
  have bI: "repl_end x \<le> getOffset R" if "x \<in> set before" for x
    using fits_apart [of 0 L before rest x I] L that I by (simp add: legal_def)
  have ys: "repl_end I \<le> getOffset x" if "x \<in> set ys" for x
    using fits_apart [of 0 L "before @ [I]" ys I x] L that I by (simp add: legal_def)
  show ?thesis
  proof (cases "getLength I = 0")
    case I0: True
    let ?R = "mk_replacement (getFilePath R) (getOffset R) 0 (getReplacementText R @ getReplacementText I)"
    have "legal L path (set_insert ?R (before @ ys))"
    proof (rule legal_insert)
      show "legal L path (before @ ys)" using L I fits_remove [of 0 L before "[I]" ys] by (simp add: legal_def)
      show "apart x ?R" if "x \<in> set (before @ ys)" for x using that bI ys I(2) I0 by (auto simp: apart_def)
    qed (use R z in simp_all)
    then show ?thesis using I z I0 by (auto simp: add_checked_def)
  next
    case False
    have "legal L path (set_insert R (before @ rest))"
      by (rule legal_insert [OF L R]) (use bI ys I z in \<open>fastforce simp: apart_def\<close>)
    then show ?thesis using I z False by (auto simp: add_checked_def)
  qed
next
  case False
  show ?thesis
  proof (cases "before = [] \<or> \<not> overlap R (last before)")
    case True
    have "repl_end x \<le> getOffset R" if "x \<in> set before" for x
    proof -
      obtain k ks where k: "before = ks @ [k]" using \<open>x \<in> set before\<close> by (cases before rule: rev_cases) auto
      then have "repl_end k \<le> getOffset R" using True b [of k] by (auto simp: overlap_iff)
      moreover have "x = k \<or> repl_end x \<le> getOffset k"
        using fits_apart [of 0 L ks "k # rest" x k] L that k by (auto simp: legal_def)
      ultimately show ?thesis by auto
    qed
    then have "legal L path (set_insert R (before @ rest))"
      by (intro legal_insert [OF L R]) (use r in \<open>auto simp: apart_def\<close>)
    then show ?thesis using True False by (auto simp: add_checked_def)
  next
    case ov: False
    have "add_checked R before rest = add_overlapping R before rest"
      using False ov by (auto simp: add_checked_def)
    then show ?thesis using add_overlapping_legal [OF L R b r] ov by auto
  qed
qed

section \<open>Splitting at a position\<close>

lemma apply_at_split:
  "fits q L A \<Longrightarrow> (\<And>R. R \<in> set A \<Longrightarrow> repl_end R \<le> Pos) \<Longrightarrow> q \<le> Pos \<Longrightarrow> q + length U = L \<Longrightarrow> Pos \<le> L \<Longrightarrow>
   starts_from Pos B \<Longrightarrow>
   apply_at q (A @ B) U = apply_at q A (take (Pos - q) U) @ apply_at Pos B (drop (Pos - q) U)"
proof (induction A arbitrary: q U)
  case Nil
  then show ?case using apply_at_prefix [of q "take (Pos - q) U" B "drop (Pos - q) U"] by simp
next
  case (Cons R A)
  let ?e = "repl_end R"
  have e: "?e \<le> Pos" "q \<le> getOffset R" "?e \<le> L" using Cons(2,3) by auto
  have "apply_at ?e (A @ B) (drop (?e - q) U) =
      apply_at ?e A (take (Pos - ?e) (drop (?e - q) U)) @ apply_at Pos B (drop (Pos - ?e) (drop (?e - q) U))"
    by (rule Cons(1)) (use Cons(2-) e in auto)
  moreover have "take (Pos - ?e) (drop (?e - q) U) = drop (?e - q) (take (Pos - q) U)"
    using e by (simp add: drop_take)
  moreover have "drop (Pos - ?e) (drop (?e - q) U) = drop (Pos - q) U" using e by simp
  moreover have "take (getOffset R - q) (take (Pos - q) U) = take (getOffset R - q) U" using e by (simp add: min_def)
  ultimately show ?case by simp
qed

lemma shifted_append:
  "(\<And>R. R \<in> set A \<Longrightarrow> repl_end R \<le> Pos) \<Longrightarrow> shifted (A @ B) Pos = grow A + shifted B Pos"
  by (induction A) (auto simp: shifted_simps grow_def)

section \<open>The effect of the canonical form\<close>

fun gaps :: "Replacement list \<Rightarrow> bool" where
  "gaps [] \<longleftrightarrow> True"
| "gaps (R # Rs) \<longleftrightarrow> (Rs \<noteq> [] \<longrightarrow> repl_end R < getOffset (hd Rs)) \<and> gaps Rs"

lemma gaps_ordered: "gaps Rs \<Longrightarrow> ordered Rs \<and> separated Rs"
  by (induction Rs) (auto simp: after_def)

lemma canonical_loop_effect:
  "fits q L (Prev # Rs) \<Longrightarrow> canonical_loop Prev Rs = Some C \<Longrightarrow>
   gaps C \<and> C \<noteq> [] \<and> getOffset (hd C) = getOffset Prev \<and> apply_at q C U = apply_at q (Prev # Rs) U"
proof (induction Rs arbitrary: q Prev C U)
  case (Cons R Rs)
  show ?case
  proof (cases "repl_end Prev < getOffset R")
    case True
    then obtain C' where C': "canonical_loop R Rs = Some C'" "C = Prev # C'" using Cons(3) by auto
    have "fits (repl_end Prev) L (R # Rs)" using Cons(2) by simp
    note IH = Cons(1) [OF this C'(1), of "drop (repl_end Prev - q) U"]
    then have "gaps C" using True C'(2) by simp
    moreover have "apply_at q C U = apply_at q (Prev # R # Rs) U"
      using IH unfolding C'(2) apply_at.simps(2) [of q Prev] by simp
    ultimately show ?thesis using C'(2) by simp
  next
    case False
    let ?R = "mk_replacement (getFilePath R) (getOffset Prev) (getLength Prev + getLength R)
          (getReplacementText Prev @ getReplacementText R)"
    have eq: "repl_end Prev = getOffset R" using False Cons(2) by simp
    have e: "getOffset Prev + (getLength Prev + getLength R) = repl_end R" using eq by simp
    have f: "fits q L (?R # Rs)" using Cons(2) by (simp add: e)
    have "canonical_loop ?R Rs = Some C" using Cons(3) False eq by simp
    note IH = Cons(1) [OF f this, of U]
    have "apply_at q (?R # Rs) U = apply_at q (Prev # R # Rs) U"
    proof -
      have "drop (getLength R) (drop (getOffset R - q) U) = drop (repl_end R - q) U"
        using Cons(2) by (simp add: add.commute)
      then show ?thesis using Cons(2) eq by (simp add: e del: drop_drop)
    qed
    then show ?thesis using IH by simp
  qed
qed auto

lemma canonical_effect:
  assumes "fits q L Rs"
  shows "\<exists>C. getCanonicalReplacements Rs = Some C \<and> gaps C \<and> fits q L C \<and> apply_at q C U = apply_at q Rs U"
proof (cases Rs)
  case (Cons R Rs')
  obtain C where C: "canonical_loop R Rs' = Some C" "fits q L C"
    using canonical_loop_fits [of q L R Rs'] assms Cons by auto
  have g: "gaps C" "apply_at q C U = apply_at q Rs U"
    using canonical_loop_effect [OF _ C(1), of q L U] assms Cons by auto
  then have "set_of C = C"
    using set_insert_all [of "[]" C] legal_sorted [OF C(2)] gaps_ordered by (auto simp: set_of_def)
  then show ?thesis using C g Cons by (simp add: getCanonicalReplacements_def)
qed (simp add: getCanonicalReplacements_def)

section \<open>Combined ranges\<close>

abbreviation range_end :: "Range \<Rightarrow> nat" where
  "range_end r \<equiv> range_Offset r + range_Length r"

definition positions :: "Range list \<Rightarrow> nat set" where
  "positions rs = (\<Union>r \<in> set rs. {range_Offset r..<range_end r})"

lemma mk_range_simps [simp]: "range_Offset (mk_range a n) = a" "range_Length (mk_range a n) = n"
  by (simp_all add: mk_range_def)

lemma sort_ranges_sorted: "sorted_wrt (\<lambda>r s. range_Offset r \<le> range_Offset s) (sort_ranges rs)"
  using sorted_sort_key [of range_Offset "sort_key range_Length rs"] by (simp add: sort_ranges_def sorted_map)

lemma sort_ranges_set: "set (sort_ranges rs) = set rs"
  by (simp add: sort_ranges_def)

lemma combine_loop_ranges:
  "sorted_wrt (\<lambda>r s. range_Offset r \<le> range_Offset s) (r # rs) \<Longrightarrow>
   sorted_wrt (\<lambda>r s. range_end r < range_Offset s) (combine_loop r rs) \<and>
   (\<forall>s \<in> set (combine_loop r rs). range_Offset r \<le> range_Offset s) \<and>
   (\<forall>x \<in> set (r # rs). \<exists>s \<in> set (combine_loop r rs). range_contains s x) \<and>
   positions (combine_loop r rs) = positions (r # rs)"
proof (induction rs arbitrary: r)
  case Nil
  then show ?case by (simp add: range_contains_def)
next
  case (Cons y ys)
  show ?case
  proof (cases "range_end r < range_Offset y")
    case True
    have "sorted_wrt (\<lambda>r s. range_Offset r \<le> range_Offset s) (y # ys)" using Cons(2) by simp
    note IH = Cons(1) [OF this]
    have "range_end r < range_Offset s" if "s \<in> set (combine_loop y ys)" for s
      using IH that True by force
    then show ?thesis using IH True Cons(2) by (auto simp: range_contains_def positions_def)
  next
    case False
    define n where "n = max (range_end r) (range_end y)"
    define m where "m = mk_range (range_Offset r) (n - range_Offset r)"
    have m: "range_Offset m = range_Offset r" "range_end m = n" "combine_loop r (y # ys) = combine_loop m ys"
      using False by (simp_all add: m_def n_def Let_def max_def)
    have n: "range_end r \<le> n" "range_end y \<le> n" "range_Offset r \<le> range_Offset y" "range_Offset y \<le> range_end r"
      using False Cons(2) by (simp_all add: n_def)
    have "sorted_wrt (\<lambda>r s. range_Offset r \<le> range_Offset s) (m # ys)" using Cons(2) m by simp
    note IH = Cons(1) [OF this]
    obtain s where s: "s \<in> set (combine_loop m ys)" "range_contains s m" using IH by auto
    then have "range_contains s r" "range_contains s y" using m n by (auto simp: range_contains_def)
    then have c: "\<forall>x \<in> set (r # y # ys). \<exists>s \<in> set (combine_loop m ys). range_contains s x"
      using IH s(1) by auto
    have "{range_Offset m..<range_end m} = {range_Offset r..<range_end r} \<union> {range_Offset y..<range_end y}"
      unfolding m(2) unfolding m(1) using n by (auto simp: n_def)
    then have "positions (m # ys) = positions (r # y # ys)" by (auto simp: positions_def)
    then show ?thesis using IH c unfolding m(3) m(1) by simp
  qed
qed

lemma combined_ranges:
  "sorted_wrt (\<lambda>r s. range_end r < range_Offset s) (combineAndSortRanges rs) \<and>
   (\<forall>x \<in> set rs. \<exists>s \<in> set (combineAndSortRanges rs). range_contains s x) \<and>
   positions (combineAndSortRanges rs) = positions rs"
proof (cases "sort_ranges rs")
  case Nil
  then have "rs = []" using sort_ranges_set [of rs] by simp
  then show ?thesis using Nil by (simp add: combineAndSortRanges_def)
next
  case (Cons y ys)
  note c = combine_loop_ranges [of y ys]
  have "sorted_wrt (\<lambda>r s. range_Offset r \<le> range_Offset s) (y # ys)" using sort_ranges_sorted [of rs] Cons by simp
  note c = combine_loop_ranges [OF this]
  have s: "set (y # ys) = set rs" using sort_ranges_set [of rs] Cons by simp
  then have "positions (y # ys) = positions rs" unfolding positions_def by metis
  then show ?thesis using c unfolding s combineAndSortRanges_def Cons by simp
qed

lemma add_at_end:
  assumes "one_path (getFilePath R) Rs" "\<And>x. x \<in> set Rs \<Longrightarrow> repl_end x < getOffset R"
  shows "add R Rs = Some (Inr (Rs @ [R]))"
proof -
  let ?P = "\<lambda>x. replacement_less x (mk_replacement (getFilePath R) (repl_end R) 0 [])"
  have lt: "replacement_less x R \<and> ?P x" if "x \<in> set Rs" for x
    using assms(2) [OF that] by (auto simp: replacement_less_def)
  then have "takeWhile ?P Rs = Rs" "dropWhile ?P Rs = []" by (simp_all add: takeWhile_eq_all_conv)
  moreover have "set_insert R Rs = Rs @ [R]" using lt by (intro set_insert_last) blast
  moreover have "Rs = [] \<or> getFilePath R = getFilePath (hd Rs)"
    using assms(1) by (cases Rs) auto
  moreover have "Rs = [] \<or> \<not> overlap R (last Rs)"
    using assms(2) [of "last Rs"] by (auto simp: overlap_iff)
  ultimately show ?thesis
    by (auto simp: add_def add_checked_def Let_def simp del: takeWhile_eq_all_conv dropWhile_eq_Nil_conv)
qed

lemma add_fakes_all:
  "sorted_wrt (\<lambda>r s. range_end r < range_Offset s) (ds @ rs) \<Longrightarrow>
   add_fakes path rs (map (fake path) ds) = Some (map (fake path) (ds @ rs))"
proof (induction rs arbitrary: ds)
  case (Cons r rs)
  have "add (fake path r) (map (fake path) ds) = Some (Inr (map (fake path) ds @ [fake path r]))"
    by (rule add_at_end) (use Cons(2) in \<open>auto simp: fake_def one_path_def sorted_wrt_append\<close>)
  then show ?case using Cons(1) [of "ds @ [r]"] Cons(2) by simp
qed simp

lemma calculateRanges_merge:
  "calculateRangesAfterReplacements Replaces Ranges = Some (if Replaces = [] then combineAndSortRanges Ranges
   else getAffectedRanges (merge (map (fake (getFilePath (hd Replaces))) (combineAndSortRanges Ranges)) Replaces))"
  using add_fakes_all [of "[]" "combineAndSortRanges Ranges"] combined_ranges [of Ranges]
  by (simp add: calculateRangesAfterReplacements_def)
section \<open>Applying a set from last to first\<close>

text \<open>The first \<open>k\<close> characters are still those of the original text, at their places; \<open>Z\<close> follows them.\<close>

definition intact :: "string \<Rightarrow> rewrite_buffer \<Rightarrow> nat \<Rightarrow> string \<Rightarrow> bool" where
  "intact T rb k Z \<longleftrightarrow> rope_inv (Buffer rb) \<and> delta_inv (Deltas rb) \<and> k \<le> length T \<and>
     buffer_text rb = take k T @ Z \<and> (\<forall>i \<le> k. mapped rb i True = int i)"

definition texts :: "Replacement list \<Rightarrow> nat" where
  "texts Rs = (\<Sum>R\<leftarrow>Rs. length (getReplacementText R))"

lemma apply_at_le: "length (apply_at q Rs U) \<le> length U + texts Rs"
proof (induction Rs arbitrary: q U)
  case (Cons R Rs)
  let ?d = "drop (repl_end R - q) U"
  have "getOffset R - q \<le> repl_end R - q" by simp
  then have "length (take (getOffset R - q) U) + length ?d \<le> length U"
    unfolding length_take length_drop by linarith
  then show ?case using Cons [of "repl_end R" ?d] by (simp add: texts_def)
qed (simp add: texts_def)

lemma apply_at_not_empty: "fits q L Rs \<Longrightarrow> L - q < length U \<Longrightarrow> q \<le> L \<Longrightarrow> apply_at q Rs U \<noteq> []"
proof (induction Rs arbitrary: q U)
  case (Cons R Rs)
  have "apply_at (repl_end R) Rs (drop (repl_end R - q) U) \<noteq> []"
    by (rule Cons(1)) (use Cons(2-) in auto)
  then show ?case by simp
qed auto

lemma intact_replace:
  assumes i: "intact T rb k Z" and e: "off + n \<le> k" and n: "n < length (buffer_text rb)"
    and len: "length (buffer_text rb) + length s < 2 ^ 31"
  shows "\<exists>rb'. ReplaceText (of_nat off) (of_nat n) s rb = Some rb' \<and>
    intact T rb' off (s @ drop (off + n) (take k T) @ Z)"
proof -
  have I: "rope_inv (Buffer rb)" "delta_inv (Deltas rb)" "k \<le> length T" "buffer_text rb = take k T @ Z"
    "\<And>j. j \<le> k \<Longrightarrow> mapped rb j True = int j" using i by (auto simp: intact_def)
  have b: "k < 2 ^ 31" using len I(3,4) by simp
  have u: "unat (of_nat j :: u32) = j" if "j \<le> k" for j using that b by (simp add: unat_of_nat)
  have p: "getMappedOffset (of_nat off) True rb = Some (of_nat off)"
  proof -
    have "deltas.delta_val (2 * of_nat off + 1) (Deltas rb) = 0"
      using I(5) [of off] e by (simp add: mapped_def edits.place_def)
    then show ?thesis
      using deltas.delta_at_val [OF I(2)] by (simp add: getMappedOffset_def)
  qed
  have le: "off + n \<le> length (rope_text (Buffer rb))" using I(3,4) e by (simp add: buffer_text_def)
  obtain b1 where b1: "RewriteRope_erase off n (Buffer rb) = Some b1"
    using rope.erase_defined [OF I(1) le] by blast
  have inv1: "rope_inv b1" and t1: "rope_text b1 = take off (buffer_text rb) @ drop (off + n) (buffer_text rb)"
    using rope.erase_inv [OF I(1) le _ b1] rope.erase_text [OF I(1) le b1] n by (simp_all add: buffer_text_def)
  have le1: "off \<le> length (rope_text b1)" using t1 e I(3,4) by simp
  obtain b' where b': "RewriteRope_insert off s b1 = Some b'"
    using rope.insert_defined [OF inv1 le1] by blast
  have t': "rope_text b' = take off (buffer_text rb) @ s @ drop (off + n) (buffer_text rb)"
    using rope.insert_text [OF inv1 le1 b'] t1 e I(3,4) by simp
  have "\<exists>m'. if n \<noteq> length s then AddDelta (2 * of_nat off + 1) (int (length s) - int n) (Deltas rb) = Some m'
      else m' = Deltas rb"
    using deltas.add_defined [OF I(2), of "int (length s) - int n"] by (cases "n = length s") auto
  then obtain m' where m': "if n \<noteq> length s
      then AddDelta (2 * of_nat off + 1) (int (length s) - int n) (Deltas rb) = Some m'
      else m' = Deltas rb" ..
  have inv': "delta_inv m'" using m' deltas.add_inv [OF I(2)] I(2) by (auto split: if_splits)
  have pl: "edits.place m' j True = int j" if "j \<le> off" for j
  proof -
    have "\<not> (2 * (of_nat off :: u32) + 1 < 2 * of_nat j + (if True then 1 else 0))"
      using key_less(2) [of "of_nat off" "of_nat j" True] u [of off] u [of j] that e b by simp
    then have "deltas.delta_val (2 * of_nat j + 1) m' = deltas.delta_val (2 * of_nat j + 1) (Deltas rb)"
      using m' deltas.delta_val_add [OF I(2)] by (auto split: if_splits)
    then show ?thesis using I(5) [of j] that e by (simp add: mapped_def edits.place_def)
  qed
  define rb' where "rb' = rb\<lparr>Buffer := b', Deltas := m'\<rparr>"
  have "uint (of_nat n :: u32) = int n" using u [of n] e by (metis uint_nat add_leD2)
  then have "ReplaceText (of_nat off) (of_nat n) s rb = Some rb'"
    using p b1 b' m' u [of off] u [of n] e b len to_int_small [of "int (length s) - int n"]
    by (auto simp: ReplaceText_def with_buffer_def AddReplaceDelta_def rb'_def split: if_splits)
  moreover have "intact T rb' off (s @ drop (off + n) (take k T) @ Z)"
    using rope.insert_inv [OF inv1 le1 b'] inv' pl t' e I(3,4)
    by (simp add: intact_def rb'_def buffer_text_def mapped_def min_def)
  ultimately show ?thesis by blast
qed

lemma apply_each_text:
  assumes rb: "intact T rb (length T) []" and L: "L < length T"
  shows "fits q L Rs \<Longrightarrow> q \<le> L \<Longrightarrow> length T + texts Rs < 2 ^ 31 \<Longrightarrow>
    \<exists>rb' k Z. apply_each (rev Rs) rb = Some rb' \<and> intact T rb' k Z \<and> q \<le> k \<and>
      drop q (take k T) @ Z = apply_at q Rs (drop q T)"
proof (induction Rs arbitrary: q)
  case Nil
  then show ?case using rb L by (intro exI [of _ rb] exI [of _ "length T"] exI [of _ "[]"]) simp
next
  case (Cons R Rs)
  let ?e = "repl_end R" and ?s = "getReplacementText R"
  have e: "q \<le> getOffset R" "?e \<le> L" "fits ?e L Rs" "length T + texts Rs + length ?s < 2 ^ 31"
    using Cons(2-) by (simp_all add: texts_def)
  have "length T + texts Rs < 2 ^ 31" using e(4) by linarith
  from Cons(1) [OF e(3,2) this] obtain rb1 k Z where 1: "apply_each (rev Rs) rb = Some rb1"
    "intact T rb1 k Z" "?e \<le> k" "drop ?e (take k T) @ Z = apply_at ?e Rs (drop ?e T)" by blast
  have t: "buffer_text rb1 = take k T @ Z" "k \<le> length T" using 1(2) by (simp_all add: intact_def)
  then have split: "buffer_text rb1 = take ?e T @ apply_at ?e Rs (drop ?e T)"
    using 1(3) append_take_drop_id [of ?e "take k T"] unfolding 1(4) [symmetric] by (simp add: min_def)
  have "apply_at ?e Rs (drop ?e T) \<noteq> []" by (rule apply_at_not_empty [OF e(3)]) (use e L in auto)
  then have n: "getLength R < length (buffer_text rb1)" unfolding split using e(2) L
    by (cases "apply_at ?e Rs (drop ?e T)") auto
  have "length (apply_at ?e Rs (drop ?e T)) \<le> length T - ?e + texts Rs"
    using apply_at_le [of ?e Rs "drop ?e T"] by simp
  then have len: "length (buffer_text rb1) + length ?s < 2 ^ 31"
    using e(2,4) L unfolding split by simp
  obtain rb' where 2: "ReplaceText (of_nat (getOffset R)) (of_nat (getLength R)) ?s rb1 = Some rb'"
    "intact T rb' (getOffset R) (?s @ drop ?e (take k T) @ Z)"
    using intact_replace [OF 1(2,3) n len] by blast
  have app: "apply_each (xs @ [R]) rb = Option.bind (apply_each xs rb) (\<lambda>rb1.
      ReplaceText (of_nat (getOffset R)) (of_nat (getLength R)) ?s rb1)" for xs rb
  proof (induction xs arbitrary: rb)
    case Nil
    show ?case by (cases "ReplaceText (of_nat (getOffset R)) (of_nat (getLength R)) ?s rb") simp_all
  next
    case (Cons x xs)
    then show ?case
      by (cases "ReplaceText (of_nat (getOffset x)) (of_nat (getLength x)) (getReplacementText x) rb") simp_all
  qed
  have "drop q (take (getOffset R) T) @ ?s @ drop ?e (take k T) @ Z = apply_at q (R # Rs) (drop q T)"
    using e(1) unfolding 1(4) by (simp add: drop_take)
  then show ?case using 1(1) 2 e(1)
    by (intro exI [of _ rb'] exI [of _ "getOffset R"] exI [of _ "?s @ drop ?e (take k T) @ Z"]) (simp add: app)
qed

lemma Initialize_intact:
  assumes "length T < 2 ^ 31"
  shows "\<exists>rb. RewriteBuffer_Initialize T RewriteBuffer_init = Some rb \<and> intact T rb (length T) []"
proof -
  obtain rb where rb: "RewriteBuffer_Initialize T RewriteBuffer_init = Some rb" "buffer_text rb = T"
    "buffer_tracks T rb {..length T} {..<length T}" using Initialize_tracks [OF assms] by blast
  have "Deltas rb = DeltaTree_init"
    using rb(1) by (auto simp: RewriteBuffer_Initialize_def RewriteBuffer_init_def)
  then have "mapped rb i True = int i" for i
    using deltas.delta_val_empty by (simp add: mapped_def edits.place_def)
  then show ?thesis using rb buffer_tracksD(1,2) [OF rb(3)] by (simp add: intact_def)
qed

section \<open>Properties\<close>

text \<open>Evaluation of the operations on concrete sets.\<close>

lemma char_less: "(c :: char) < d \<longleftrightarrow> (of_char c :: nat) < of_char d"
  by (simp add: less_char_def)

lemmas merge_eval = merge_def merge_outer.simps merge_inner.simps Merged_init_def Merged_merge_def
  endsBefore_def asReplacement_def Let_def mk_replacement_def replacement_less_def char_less

lemmas add_eval = add_def add_checked_def add_overlapping_def mergeIfOrderIndependent_def overlap_def
  overlapsWith_def UINT_MAX_def mk_range_def getCanonicalReplacements_def set_of_def
  getShiftedCodePosition_def getReplacementInChangedCode_def

text \<open>
  C37. \<open>merge\<close>: merging a set with one that refers to the code it gives (and that has no
  insertion at the very end of another of its replacements) has the effect of applying the first set
  and then the second, and is again a set of replacements that do not overlap.
\<close>

theorem merge_composes:
  assumes "fits 0 (length T) A" "ordered A"
    and "fits 0 (length (apply_at 0 A T)) B" "ordered B" "separated B"
  shows "apply_at 0 (merge A B) T = apply_at 0 B (apply_at 0 A T) \<and>
    fits 0 (length T) (merge A B) \<and> ordered (merge A B)"
  using merge_merged [OF assms(1-3,5,4)] by (simp add: merged_set_def)

definition sample_first :: "Replacement list" where
  "sample_first = [mk_replacement ''f'' 0 0 ''ab'', mk_replacement ''f'' 3 1 ''xyz'']"

definition sample_second :: "Replacement list" where
  "sample_second = [mk_replacement ''f'' 1 2 ''q'', mk_replacement ''f'' 6 1 '''']"

theorem merge_composes_witness:
  "apply_at 0 (merge sample_first sample_second) ''hello'' = ''aqelxzo'' \<and>
   fits 0 5 (merge sample_first sample_second)"
proof -
  have 1: "fits 0 5 sample_first" "ordered sample_first" "fits 0 9 sample_second" "ordered sample_second"
      "separated sample_second" "apply_at 0 sample_first ''hello'' = ''abhelxyzo''"
    and 2: "apply_at 0 sample_second ''abhelxyzo'' = ''aqelxzo''"
    by (simp_all add: sample_first_def sample_second_def)
  have n: "length ''hello'' = 5" "length ''abhelxyzo'' = 9" by simp_all
  show ?thesis using merge_composes [of "''hello''" sample_first sample_second, unfolded 1(6) n] 1 2 by simp
qed

text \<open>
  The restriction on the second set is needed.  An insertion at the end of a replacement, which
  \<open>add\<close> accepts, is a legal set, but \<open>merge\<close> puts its text in front of the text
  of that replacement when the first set inserts what is replaced: both have the same offset and length in
  the original text, and the order of their texts decides.
\<close>

theorem merge_swaps_insertion:
  "let A = [mk_replacement ''f'' 0 0 ''ab''];
       B = [mk_replacement ''f'' 0 2 ''z'', mk_replacement ''f'' 2 0 ''y''] in
   add (mk_replacement ''f'' 2 0 ''y'') [mk_replacement ''f'' 0 2 ''z''] = Some (Inr B) \<and>
   apply_at 0 B (apply_at 0 A ''hello'') = ''zyhello'' \<and>
   merge A B = [mk_replacement ''f'' 0 0 ''y'', mk_replacement ''f'' 0 0 ''z''] \<and>
   apply_at 0 (merge A B) ''hello'' = ''yzhello''"
  by (simp add: merge_eval add_eval)

text \<open>
  C38. \<open>add\<close> never fails an assertion, keeps a set of replacements of one file sorted
  and free of overlaps within the file, and reports an error only for another file, an insertion that does
  not commute with one at the same place, or a replacement it overlaps.
\<close>

theorem add_keeps_legal:
  assumes L: "legal L path Rs" "L < UINT_MAX" and R: "repl_end R \<le> L"
  shows "(\<exists>Rs'. add R Rs = Some (Inr Rs') \<and> legal L (getFilePath R) Rs') \<or>
    (\<exists>err x. add R Rs = Some (Inl (err, R, x)) \<and> x \<in> set Rs \<and>
      (err = wrong_file_path \<and> getFilePath R \<noteq> getFilePath x \<or>
       err = insert_conflict \<and> getLength R = 0 \<and> getLength x = 0 \<and> getOffset x = getOffset R \<and>
         getReplacementText R @ getReplacementText x \<noteq> getReplacementText x @ getReplacementText R \<or>
       err = overlap_conflict \<and> overlap R x))"
proof (cases "Rs \<noteq> [] \<and> getFilePath R \<noteq> getFilePath (hd Rs)")
  case True
  then show ?thesis by (auto simp: add_def)
next
  case False
  then have L': "legal L (getFilePath R) Rs" using L(1) by (cases Rs) (auto simp: legal_def)
  obtain before rest where s:
    "takeWhile (\<lambda>x. replacement_less x (mk_replacement (getFilePath R) (repl_end R) 0 [])) Rs = before"
    "dropWhile (\<lambda>x. replacement_less x (mk_replacement (getFilePath R) (repl_end R) 0 [])) Rs = rest"
    "Rs = before @ rest" "\<And>x. x \<in> set before \<Longrightarrow> getOffset x < repl_end R"
    "\<And>x. x \<in> set rest \<Longrightarrow> repl_end R \<le> getOffset x"
    by (rule lower_bound_split [OF L' refl]) blast
  have "add R Rs = add_checked R before rest"
    using False s(1,2) R L(2) by (auto simp: add_def Let_def)
  then show ?thesis using add_checked_legal [OF L' [unfolded s(3)] R refl s(4,5)] s(3) by auto
qed

theorem add_keeps_legal_witness:
  "\<exists>Rs'. add (mk_replacement ''f'' 2 2 ''x'') sample_first = Some (Inl (overlap_conflict,
     mk_replacement ''f'' 2 2 ''x'', mk_replacement ''f'' 3 1 ''xyz'')) \<and>
   add (mk_replacement ''f'' 1 2 ''x'') sample_first = Some (Inr Rs') \<and> legal 5 ''f'' Rs'"
proof -
  have L: "legal 5 ''f'' sample_first" by (simp add: legal_def sample_first_def)
  have e: "add (mk_replacement ''f'' 2 2 ''x'') sample_first = Some (Inl (overlap_conflict,
     mk_replacement ''f'' 2 2 ''x'', mk_replacement ''f'' 3 1 ''xyz''))"
    by (simp add: sample_first_def add_eval merge_eval)
  obtain Rs' where Rs': "add (mk_replacement ''f'' 1 2 ''x'') sample_first = Some (Inr Rs')"
    by (simp add: sample_first_def add_eval merge_eval)
  then have "legal 5 ''f'' Rs'"
    using add_keeps_legal [OF L, of "mk_replacement ''f'' 1 2 ''x''"] by (simp add: UINT_MAX_def)
  with e Rs' show ?thesis by blast
qed

text \<open>
  C39. \<open>getShiftedCodePosition\<close> finds the place of a position in the changed code: after the
  replacements that end at or before it (what follows it there is the rest of the file with the remaining
  replacements); a position inside a replacement keeps its distance from the start of the new text
  as far as that text reaches.
\<close>

theorem getShiftedCodePosition_place:
  assumes fits: "fits 0 (length T) (A @ B)" "Pos \<le> length T"
    and A: "\<And>R. R \<in> set A \<Longrightarrow> repl_end R \<le> Pos" and B: "B \<noteq> [] \<Longrightarrow> Pos < repl_end (hd B)"
  shows "(starts_from Pos B \<longrightarrow>
      getShiftedCodePosition (A @ B) Pos = length (apply_at 0 A (take Pos T)) \<and>
      drop (getShiftedCodePosition (A @ B) Pos) (apply_at 0 (A @ B) T) = apply_at Pos B (drop Pos T)) \<and>
    (\<not> starts_from Pos B \<longrightarrow> getShiftedCodePosition (A @ B) Pos =
      length (apply_at 0 A (take (getOffset (hd B)) T)) +
      min (Pos - getOffset (hd B)) (length (getReplacementText (hd B)) - 1))"
proof -
  have s: "int (getShiftedCodePosition (A @ B) Pos) = grow A + shifted B Pos"
    using shifted_position [OF fits(1), of Pos] shifted_append [OF A] by simp
  have fA: "fits 0 (length T) A" using fits(1) by (simp add: fits_append)
  have len: "int (length (apply_at 0 A (take k T))) = int k + grow A"
    if "\<And>R. R \<in> set A \<Longrightarrow> repl_end R \<le> k" "k \<le> length T" for k
    using apply_at_length [OF fits_upto [OF fA that(1)], of "take k T"] that(2) by simp
  have here: "shifted B Pos = int Pos" if "starts_from Pos B"
    using that B by (cases B) (auto simp: shifted_simps)
  show ?thesis
  proof (cases "starts_from Pos B")
    case True
    have p: "getShiftedCodePosition (A @ B) Pos = length (apply_at 0 A (take Pos T))"
      using s here [OF True] len [OF A fits(2)] by simp
    have "apply_at 0 (A @ B) T = apply_at 0 A (take Pos T) @ apply_at Pos B (drop Pos T)"
      using apply_at_split [OF fA A, of T B] fits(2) True by simp
    then show ?thesis using p True by simp
  next
    case False
    then obtain R Bs where R: "B = R # Bs" "getOffset R < Pos" "Pos < repl_end R"
      using B by (cases B) auto
    have "repl_end x \<le> getOffset R" if "x \<in> set A" for x
      using fits_apart [OF fits(1) that, of R] R(1) by simp
    moreover have "getOffset R \<le> length T" using R(2) fits(2) by simp
    ultimately have len': "int (length (apply_at 0 A (take (getOffset R) T))) = int (getOffset R) + grow A"
      by (rule len)
    have "shifted B Pos = int (getOffset R) + int (min (Pos - getOffset R) (length (getReplacementText R) - 1))"
      using R(2,3) by (cases "getReplacementText R") (auto simp: R(1) shifted_simps min_def)
    then have "int (getShiftedCodePosition (A @ B) Pos) = int (length (apply_at 0 A (take (getOffset R) T)) +
        min (Pos - getOffset R) (length (getReplacementText R) - 1))"
      using s len' by simp
    then have "getShiftedCodePosition (A @ B) Pos = length (apply_at 0 A (take (getOffset R) T)) +
        min (Pos - getOffset R) (length (getReplacementText R) - 1)"
      by (simp only: of_nat_eq_iff)
    then show ?thesis using False R(1) by simp
  qed
qed

theorem getShiftedCodePosition_place_witness:
  "getShiftedCodePosition sample_first 4 = 8 \<and>
   drop 8 (apply_at 0 sample_first ''hello'') = ''o'' \<and> getShiftedCodePosition sample_first 2 = 4"
proof -
  let ?A = "[mk_replacement ''f'' 0 0 ''ab'']" and ?R = "mk_replacement ''f'' 3 1 ''xyz''"
  have n: "length ''hello'' = 5" by simp
  have 1: "starts_from 4 []" "fits 0 5 ((?A @ [?R]) @ [])" "sample_first = (?A @ [?R]) @ []" by (simp_all add: sample_first_def)
  have "\<And>R. R \<in> set (?A @ [?R]) \<Longrightarrow> repl_end R \<le> 4" by auto
  from getShiftedCodePosition_place [of "''hello''" _ "[]", unfolded n, OF 1(2) _ this] 1(1)
  have "getShiftedCodePosition sample_first 4 = 8 \<and> drop 8 (apply_at 0 sample_first ''hello'') = ''o''"
    unfolding sample_first_def by simp
  moreover have 2: "fits 0 5 (?A @ [?R])" "sample_first = ?A @ [?R]" "starts_from 2 [?R]"
    by (simp_all add: sample_first_def)
  have "\<And>R. R \<in> set ?A \<Longrightarrow> repl_end R \<le> 2" by auto
  from getShiftedCodePosition_place [of "''hello''" ?A "[?R]", unfolded n, OF 2(1) _ this] 2
  have "getShiftedCodePosition sample_first 2 = length (apply_at 0 ?A (take 2 ''hello''))" by simp
  moreover have "length (apply_at 0 ?A (take 2 ''hello'')) = 4" by simp
  ultimately show ?thesis by simp
qed

text \<open>
  The canonical form exists for every set without overlaps, has the same effect, and no two of its
  replacements touch.
\<close>

theorem getCanonicalReplacements_equivalent:
  assumes "fits 0 (length T) Rs"
  shows "\<exists>C. getCanonicalReplacements Rs = Some C \<and> apply_at 0 C T = apply_at 0 Rs T \<and>
    gaps C \<and> fits 0 (length T) C"
  using canonical_effect [OF assms, of T] by blast

theorem getCanonicalReplacements_equivalent_witness:
  "\<exists>C. getCanonicalReplacements [mk_replacement ''f'' 0 2 ''x'', mk_replacement ''f'' 2 1 ''''] = Some C \<and>
    apply_at 0 C ''hello'' = ''xlo'' \<and> gaps C"
  using getCanonicalReplacements_equivalent [of "''hello''" "[mk_replacement ''f'' 0 2 ''x'', mk_replacement ''f'' 2 1 '''']"]
  by auto

text \<open>
  \<open>combineAndSortRanges\<close> gives sorted ranges with gaps between them that cover the same
  positions and each of the given ranges, empty ones included; with it, the fake replacements of
  \<open>calculateRangesAfterReplacements\<close> never conflict.
\<close>

theorem combineAndSortRanges_correct:
  "sorted_wrt (\<lambda>r s. range_end r < range_Offset s) (combineAndSortRanges rs) \<and>
   (\<forall>x \<in> set rs. \<exists>s \<in> set (combineAndSortRanges rs). range_contains s x) \<and>
   positions (combineAndSortRanges rs) = positions rs \<and>
   calculateRangesAfterReplacements Replaces rs \<noteq> None"
  using combined_ranges [of rs] calculateRanges_merge [of Replaces rs] by simp

theorem combineAndSortRanges_correct_witness:
  "positions (combineAndSortRanges [mk_range 4 2, mk_range 1 3]) = {1..<6}"
  using combineAndSortRanges_correct [of "[mk_range 4 2, mk_range 1 3]" "[]"]
  by (auto simp: positions_def)

text \<open>
  C40. \<open>applyAllReplacements\<close>, which rewrites a \<open>RewriteBuffer\<close> of the code from the
  last replacement to the first, succeeds and outputs the text the replacements mean, for a set without
  overlaps that leaves the last character of the code alone (code that grows to \<open>2^31\<close> characters
  apart).
\<close>

theorem applyAllReplacements_applies:
  assumes fits: "fits 0 L Rs" "L < length Code" and len: "length Code + texts Rs < 2 ^ 31"
  shows "applyAllReplacements Code Rs = Some (apply_at 0 Rs Code)"
proof (cases "Rs = []")
  case False
  have "length Code < 2 ^ 31" using len by simp
  then obtain rb where rb: "RewriteBuffer_Initialize Code RewriteBuffer_init = Some rb"
    "intact Code rb (length Code) []" using Initialize_intact by blast
  obtain rb' k Z where rb': "apply_each (rev Rs) rb = Some rb'" "intact Code rb' k Z"
    "drop 0 (take k Code) @ Z = apply_at 0 Rs (drop 0 Code)"
    using apply_each_text [OF rb(2) fits(2,1) _ len] by blast
  have "RewriteBuffer_write rb' = Some (buffer_text rb')"
    using rb'(2) write_rope by (simp add: intact_def RewriteBuffer_write_def buffer_text_def)
  then show ?thesis using False rb rb' by (simp add: applyAllReplacements_def intact_def)
qed (simp add: applyAllReplacements_def)

theorem applyAllReplacements_applies_witness:
  "applyAllReplacements ''hello'' sample_first = Some ''abhelxyzo''"
  using applyAllReplacements_applies [of 4 sample_first "''hello''"]
  by (simp add: sample_first_def texts_def)

end
