(* ===== verification/ConditionalRecord.thy ===== *)
theory ConditionalRecord
  imports Prelude
begin

text \<open>
  The record of conditional directives (\<open>lib/Lex/PPConditionalDirectiveRecord.cpp\<close>).  A
  \<open>SourceLocation\<close> is a value of \<open>'loc option\<close>, the invalid one is \<open>None\<close>; the order of the
  translation unit and the test for system headers are those of the source manager, which
  is a parameter.
\<close>

section \<open>State\<close>

record 'loc source_manager =
  isBeforeInTranslationUnit :: "'loc \<Rightarrow> 'loc \<Rightarrow> bool"
  isInSystemHeader :: "'loc \<Rightarrow> bool"

text \<open>What the source manager promises: the order of locations is strict and linear.\<close>

definition source_order :: "'loc source_manager \<Rightarrow> bool" where
  "source_order SM \<longleftrightarrow>
     (\<forall>a. \<not> isBeforeInTranslationUnit SM a a) \<and>
     (\<forall>a b c. isBeforeInTranslationUnit SM a b \<longrightarrow> isBeforeInTranslationUnit SM b c \<longrightarrow> isBeforeInTranslationUnit SM a c) \<and>
     (\<forall>a b. a = b \<or> isBeforeInTranslationUnit SM a b \<or> isBeforeInTranslationUnit SM b a)"

text \<open>The top of the stack is the last element.\<close>

record 'loc cond_record =
  CondDirectiveStack :: "'loc option list"
  CondDirectiveLocs :: "('loc \<times> 'loc option) list"

definition getLoc :: "'loc \<times> 'loc option \<Rightarrow> 'loc" where "getLoc d = fst d"
definition getRegionLoc :: "'loc \<times> 'loc option \<Rightarrow> 'loc option" where "getRegionLoc d = snd d"

definition cond_record_init :: "'loc cond_record" where
  "cond_record_init = \<lparr>CondDirectiveStack = [None], CondDirectiveLocs = []\<rparr>"

section \<open>Directives\<close>

text \<open>\<open>None\<close> where the assertion fails.\<close>

definition addCondDirectiveLoc ::
  "'loc source_manager \<Rightarrow> 'loc \<times> 'loc option \<Rightarrow> 'loc cond_record \<Rightarrow> 'loc cond_record option" where
  "addCondDirectiveLoc SM DirLoc R =
     (if isInSystemHeader SM (getLoc DirLoc) then Some R
      else if \<not> (CondDirectiveLocs R = [] \<or>
          isBeforeInTranslationUnit SM (getLoc (last (CondDirectiveLocs R))) (getLoc DirLoc)) then None
      else Some (R\<lparr>CondDirectiveLocs := CondDirectiveLocs R @ [DirLoc]\<rparr>))"

datatype directive = If | Ifdef | Ifndef | Elif | Else | Endif

definition push_region :: "'loc \<Rightarrow> 'loc cond_record \<Rightarrow> 'loc cond_record" where
  "push_region Loc R = R\<lparr>CondDirectiveStack := CondDirectiveStack R @ [Some Loc]\<rparr>"

definition replace_region :: "'loc \<Rightarrow> 'loc cond_record \<Rightarrow> 'loc cond_record" where
  "replace_region Loc R = R\<lparr>CondDirectiveStack := butlast (CondDirectiveStack R) @ [Some Loc]\<rparr>"

definition pop_region :: "'loc cond_record \<Rightarrow> 'loc cond_record" where
  "pop_region R = R\<lparr>CondDirectiveStack := butlast (CondDirectiveStack R)\<rparr>"

text \<open>The callbacks; \<open>None\<close> also where \<open>back()\<close> is called on an empty stack.\<close>

definition cond_callback ::
  "'loc source_manager \<Rightarrow> directive \<Rightarrow> 'loc \<Rightarrow> 'loc cond_record \<Rightarrow> 'loc cond_record option" where
  "cond_callback SM d Loc R =
     (if CondDirectiveStack R = [] then None
      else case addCondDirectiveLoc SM (Loc, last (CondDirectiveStack R)) R of
        None \<Rightarrow> None
      | Some R \<Rightarrow> Some (case d of
            If \<Rightarrow> push_region Loc R
          | Ifdef \<Rightarrow> push_region Loc R
          | Ifndef \<Rightarrow> push_region Loc R
          | Elif \<Rightarrow> replace_region Loc R
          | Else \<Rightarrow> replace_region Loc R
          | Endif \<Rightarrow> pop_region R))"

fun run_directives ::
  "'loc source_manager \<Rightarrow> (directive \<times> 'loc) list \<Rightarrow> 'loc cond_record \<Rightarrow> 'loc cond_record option" where
  "run_directives SM [] R = Some R"
| "run_directives SM ((d, Loc) # ds) R =
     (case cond_callback SM d Loc R of None \<Rightarrow> None | Some R \<Rightarrow> run_directives SM ds R)"

section \<open>Queries\<close>

text \<open>\<open>llvm::lower_bound\<close> and \<open>std::upper_bound\<close> with the comparison \<open>Comp\<close>, as indices.\<close>

definition lower_bound :: "'loc source_manager \<Rightarrow> ('loc \<times> 'loc option) list \<Rightarrow> 'loc \<Rightarrow> nat" where
  "lower_bound SM ds Loc = length (takeWhile (\<lambda>d. isBeforeInTranslationUnit SM (getLoc d) Loc) ds)"

definition upper_bound :: "'loc source_manager \<Rightarrow> nat \<Rightarrow> ('loc \<times> 'loc option) list \<Rightarrow> 'loc \<Rightarrow> nat" where
  "upper_bound SM low ds Loc =
     low + length (takeWhile (\<lambda>d. \<not> isBeforeInTranslationUnit SM Loc (getLoc d)) (drop low ds))"

definition rangeIntersectsConditionalDirective ::
  "'loc source_manager \<Rightarrow> 'loc cond_record \<Rightarrow> 'loc option \<times> 'loc option \<Rightarrow> bool" where
  "rangeIntersectsConditionalDirective SM R Rng =
     (case Rng of
        (Some Begin, Some End) \<Rightarrow>
          let ds = CondDirectiveLocs R; low = lower_bound SM ds Begin in
          if low = length ds then False
          else if isBeforeInTranslationUnit SM End (getLoc (ds ! low)) then False
          else let upp = upper_bound SM low ds End;
                   uppRegion = (if upp \<noteq> length ds then getRegionLoc (ds ! upp) else None)
               in getRegionLoc (ds ! low) \<noteq> uppRegion
      | _ \<Rightarrow> False)"

text \<open>\<open>None\<close> where the assertion fails.\<close>

definition findConditionalDirectiveRegionLoc ::
  "'loc source_manager \<Rightarrow> 'loc cond_record \<Rightarrow> 'loc option \<Rightarrow> 'loc option option" where
  "findConditionalDirectiveRegionLoc SM R L =
     (case L of None \<Rightarrow> Some None
      | Some Loc \<Rightarrow>
        let ds = CondDirectiveLocs R in
        if ds = [] then Some None
        else if isBeforeInTranslationUnit SM (getLoc (last ds)) Loc then Some (last (CondDirectiveStack R))
        else let low = lower_bound SM ds Loc
             in if low = length ds then None else Some (getRegionLoc (ds ! low)))"

definition areInDifferentConditionalDirectiveRegion ::
  "'loc source_manager \<Rightarrow> 'loc cond_record \<Rightarrow> 'loc option \<Rightarrow> 'loc option \<Rightarrow> bool" where
  "areInDifferentConditionalDirectiveRegion SM R LHS RHS \<longleftrightarrow>
     findConditionalDirectiveRegionLoc SM R LHS \<noteq> findConditionalDirectiveRegionLoc SM R RHS"

section \<open>The recorded regions\<close>

text \<open>The nesting of regions, by itself: what the stack of the record is after a list of directives.\<close>

fun region_step :: "directive \<times> 'loc \<Rightarrow> 'loc option list \<Rightarrow> 'loc option list" where
  "region_step (If, Loc) S = S @ [Some Loc]"
| "region_step (Ifdef, Loc) S = S @ [Some Loc]"
| "region_step (Ifndef, Loc) S = S @ [Some Loc]"
| "region_step (Elif, Loc) S = butlast S @ [Some Loc]"
| "region_step (Else, Loc) S = butlast S @ [Some Loc]"
| "region_step (Endif, Loc) S = butlast S"

definition regions :: "(directive \<times> 'loc) list \<Rightarrow> 'loc option list" where
  "regions ds = foldl (\<lambda>S d. region_step d S) [None] ds"

definition region_of :: "(directive \<times> 'loc) list \<Rightarrow> 'loc option" where
  "region_of ds = last (regions ds)"

lemma regions_snoc: "regions (ds @ [d]) = region_step d (regions ds)"
  by (simp add: regions_def)

text \<open>A list of directives of one file, in source order, each \<open>#endif\<close> with its \<open>#if\<close>.\<close>

definition in_source_order :: "'loc source_manager \<Rightarrow> (directive \<times> 'loc) list \<Rightarrow> bool" where
  "in_source_order SM ds \<longleftrightarrow> sorted_wrt (\<lambda>a b. isBeforeInTranslationUnit SM (snd a) (snd b)) ds \<and>
     (\<forall>d \<in> set ds. \<not> isInSystemHeader SM (snd d)) \<and> (\<forall>n \<le> length ds. regions (take n ds) \<noteq> [])"

definition recorded :: "(directive \<times> 'loc) list \<Rightarrow> ('loc \<times> 'loc option) list" where
  "recorded ds = map (\<lambda>i. (snd (ds ! i), region_of (take i ds))) [0..<length ds]"

lemma recorded_snoc: "recorded (ds @ [d]) = recorded ds @ [(snd d, region_of ds)]"
  by (simp add: recorded_def nth_append)

lemma length_recorded [simp]: "length (recorded ds) = length ds"
  by (simp add: recorded_def)

lemma nth_recorded: "i < length ds \<Longrightarrow> recorded ds ! i = (snd (ds ! i), region_of (take i ds))"
  by (simp add: recorded_def)

lemma run_directives_snoc:
  "run_directives SM (ds @ [(d, Loc)]) R =
     (case run_directives SM ds R of None \<Rightarrow> None | Some R \<Rightarrow> cond_callback SM d Loc R)"
  by (induction SM ds R rule: run_directives.induct) (auto split: option.splits)

lemma run_directives_recorded:
  "in_source_order SM ds \<Longrightarrow> run_directives SM ds cond_record_init =
     Some \<lparr>CondDirectiveStack = regions ds, CondDirectiveLocs = recorded ds\<rparr>"
proof (induction ds rule: rev_induct)
  case Nil
  then show ?case by (simp add: cond_record_init_def regions_def recorded_def)
next
  case (snoc x ds)
  obtain d l where x: "x = (d, l)" by (cases x)
  have tops: "regions (take n ds) \<noteq> []" if "n \<le> length ds" for n
  proof -
    have "regions (take n (ds @ [x])) \<noteq> []" using snoc.prems that by (simp add: in_source_order_def del: take_append)
    then show ?thesis using that by simp
  qed
  have pre: "in_source_order SM ds"
    using snoc.prems tops by (simp add: in_source_order_def sorted_wrt_append)
  have ne: "regions ds \<noteq> []" using tops [of "length ds"] by simp
  have ns: "\<not> isInSystemHeader SM l" using snoc.prems x by (auto simp: in_source_order_def)
  have before: "ds \<noteq> [] \<Longrightarrow> isBeforeInTranslationUnit SM (getLoc (last (recorded ds))) l"
    using snoc.prems x
    by (cases ds rule: rev_cases) (auto simp: in_source_order_def sorted_wrt_append recorded_snoc getLoc_def)
  have "recorded ds = [] \<longleftrightarrow> ds = []" by (metis length_0_conv length_recorded)
  then have add: "addCondDirectiveLoc SM (l, region_of ds) \<lparr>CondDirectiveStack = regions ds, CondDirectiveLocs = recorded ds\<rparr> =
      Some \<lparr>CondDirectiveStack = regions ds, CondDirectiveLocs = recorded ds @ [(l, region_of ds)]\<rparr>"
    using ns before by (auto simp: addCondDirectiveLoc_def getLoc_def)
  show ?case
    using snoc.IH [OF pre] ne add
    by (cases d) (simp_all add: x run_directives_snoc cond_callback_def region_of_def push_region_def
      replace_region_def pop_region_def regions_snoc recorded_snoc)
qed

section \<open>Properties\<close>

definition before_loc :: "'loc source_manager \<Rightarrow> 'loc \<Rightarrow> (directive \<times> 'loc) list \<Rightarrow> (directive \<times> 'loc) list" where
  "before_loc SM L ds = takeWhile (\<lambda>d. isBeforeInTranslationUnit SM (snd d) L) ds"

definition upto_loc :: "'loc source_manager \<Rightarrow> 'loc \<Rightarrow> (directive \<times> 'loc) list \<Rightarrow> (directive \<times> 'loc) list" where
  "upto_loc SM L ds = takeWhile (\<lambda>d. \<not> isBeforeInTranslationUnit SM L (snd d)) ds"

lemma takeWhile_recorded:
  "length (takeWhile (\<lambda>d. P (getLoc d)) (recorded ds)) = length (takeWhile (\<lambda>d. P (snd d)) ds)"
proof -
  have m: "map getLoc (recorded ds) = map snd ds"
    by (rule nth_equalityI) (simp_all add: nth_recorded getLoc_def)
  have "length (takeWhile (\<lambda>d. P (getLoc d)) (recorded ds)) = length (takeWhile P (map getLoc (recorded ds)))"
    by (simp add: takeWhile_map comp_def)
  also have "\<dots> = length (takeWhile (\<lambda>d. P (snd d)) ds)" unfolding m by (simp add: takeWhile_map comp_def)
  finally show ?thesis .
qed

lemma lower_bound_recorded: "lower_bound SM (recorded ds) L = length (before_loc SM L ds)"
  unfolding lower_bound_def before_loc_def by (rule takeWhile_recorded)

lemma before_loc_take: "before_loc SM L ds = take (length (before_loc SM L ds)) ds"
  "upto_loc SM L ds = take (length (upto_loc SM L ds)) ds"
  unfolding before_loc_def upto_loc_def by (rule takeWhile_eq_take)+

text \<open>
  A location is found in the region that the directives in front of it open: the answer is
  the top of the stack after replaying them, the invalid location outside of all conditionals.
\<close>

theorem region_found:
  assumes "source_order SM" "in_source_order SM ds"
    and "run_directives SM ds cond_record_init = Some R"
  shows "findConditionalDirectiveRegionLoc SM R (Some L) = Some (region_of (before_loc SM L ds))"
proof -
  have R: "R = \<lparr>CondDirectiveStack = regions ds, CondDirectiveLocs = recorded ds\<rparr>"
    using run_directives_recorded [OF assms(2)] assms(3) by simp
  let ?n = "length (before_loc SM L ds)"
  have le: "?n \<le> length ds" by (simp add: before_loc_def length_takeWhile_le)
  show ?thesis
  proof (cases "?n = length ds")
    case True
    then have all: "before_loc SM L ds = ds" using before_loc_take(1) [of SM L ds] by simp
    show ?thesis
    proof (cases ds rule: rev_cases)
      case Nil
      then show ?thesis by (simp add: findConditionalDirectiveRegionLoc_def R recorded_def before_loc_def region_of_def regions_def)
    next
      case (snoc ds' d)
      have "d \<in> set (before_loc SM L ds)" using all snoc by simp
      then have "isBeforeInTranslationUnit SM (snd d) L" unfolding before_loc_def by (auto dest: set_takeWhileD)
      then show ?thesis using all snoc
        by (simp add: findConditionalDirectiveRegionLoc_def R recorded_snoc getLoc_def region_of_def)
    qed
  next
    case False
    with le have lt: "?n < length ds" by simp
    then have "\<not> isBeforeInTranslationUnit SM (snd (ds ! ?n)) L"
      using nth_length_takeWhile [of "\<lambda>d. isBeforeInTranslationUnit SM (snd d) L" ds] by (simp add: before_loc_def)
    have "\<not> isBeforeInTranslationUnit SM (getLoc (last (recorded ds))) L"
    proof
      assume b: "isBeforeInTranslationUnit SM (getLoc (last (recorded ds))) L"
      have l: "getLoc (last (recorded ds)) = snd (ds ! (length ds - 1))"
        using lt by (subst last_conv_nth) (auto simp: nth_recorded getLoc_def simp flip: length_0_conv)
      have "ds ! ?n = ds ! (length ds - 1) \<or> isBeforeInTranslationUnit SM (snd (ds ! ?n)) (snd (ds ! (length ds - 1)))"
        using assms(2) lt by (cases "?n = length ds - 1") (auto simp: in_source_order_def sorted_wrt_iff_nth_less)
      with b l \<open>\<not> isBeforeInTranslationUnit SM (snd (ds ! ?n)) L\<close> assms(1) show False
        unfolding source_order_def by metis
    qed
    moreover have "recorded ds \<noteq> []" using lt by (auto simp flip: length_0_conv)
    ultimately show ?thesis using lt before_loc_take(1) [of SM L ds]
      by (simp add: findConditionalDirectiveRegionLoc_def R lower_bound_recorded Let_def nth_recorded getRegionLoc_def)
  qed
qed

lemma upper_bound_recorded:
  assumes "source_order SM" "\<not> isBeforeInTranslationUnit SM E B"
  shows "upper_bound SM (length (before_loc SM B ds)) (recorded ds) E = length (upto_loc SM E ds)"
proof -
  let ?n = "length (before_loc SM B ds)" and ?P = "\<lambda>l. \<not> isBeforeInTranslationUnit SM E l"
  have "?P (snd d)" if "d \<in> set (before_loc SM B ds)" for d
  proof -
    have "isBeforeInTranslationUnit SM (snd d) B" using that unfolding before_loc_def by (auto dest: set_takeWhileD)
    then show ?thesis using assms unfolding source_order_def by blast
  qed
  then have front: "takeWhile (\<lambda>d. ?P (snd d)) (before_loc SM B ds @ rest) =
      before_loc SM B ds @ takeWhile (\<lambda>d. ?P (snd d)) rest" for rest
    by (rule takeWhile_append2)
  have "before_loc SM B ds @ drop ?n ds = ds"
    by (metis append_take_drop_id before_loc_take(1))
  then have "length (upto_loc SM E ds) = ?n + length (takeWhile (\<lambda>d. ?P (snd d)) (drop ?n ds))"
    using front [of "drop ?n ds"] by (metis length_append upto_loc_def)
  also have "takeWhile (\<lambda>d. ?P (snd d)) (drop ?n ds) = takeWhile ((\<lambda>l. ?P l) \<circ> snd) (drop ?n ds)" by (simp add: comp_def)
  also have "length \<dots> = length (takeWhile ?P (map snd (drop ?n ds)))" by (simp add: takeWhile_map)
  also have "map snd (drop ?n ds) = map getLoc (drop ?n (recorded ds))"
    by (rule nth_equalityI) (simp_all add: nth_recorded getLoc_def)
  also have "length (takeWhile ?P (map getLoc (drop ?n (recorded ds)))) =
      length (takeWhile (\<lambda>d. ?P (getLoc d)) (drop ?n (recorded ds)))" by (simp add: takeWhile_map comp_def)
  finally show ?thesis by (simp add: upper_bound_def)
qed

lemma rangeIntersects_recorded:
  assumes "source_order SM" "in_source_order SM ds"
    and "run_directives SM ds cond_record_init = Some R"
    and "\<not> isBeforeInTranslationUnit SM E B"
  shows "rangeIntersectsConditionalDirective SM R (Some B, Some E) \<longleftrightarrow>
    before_loc SM B ds \<noteq> upto_loc SM E ds \<and>
    region_of (before_loc SM B ds) \<noteq> (if upto_loc SM E ds \<noteq> ds then region_of (upto_loc SM E ds) else None)"
proof -
  have R: "R = \<lparr>CondDirectiveStack = regions ds, CondDirectiveLocs = recorded ds\<rparr>"
    using run_directives_recorded [OF assms(2)] assms(3) by simp
  let ?n = "length (before_loc SM B ds)" and ?u = "length (upto_loc SM E ds)"
  note up = upper_bound_recorded [OF assms(1,4), of ds]
  have le: "?n \<le> length ds" "?u \<le> length ds" by (simp_all add: before_loc_def upto_loc_def length_takeWhile_le)
  have nu: "?n \<le> ?u" using up by (simp add: upper_bound_def)
  have t: "before_loc SM B ds = take ?n ds" "upto_loc SM E ds = take ?u ds" by (rule before_loc_take)+
  have same: "upto_loc SM E ds = before_loc SM B ds" if "?u \<le> ?n" using t nu that by (metis le_antisym)
  have whole: "upto_loc SM E ds \<noteq> ds \<longleftrightarrow> ?u \<noteq> length ds" using t(2) by (metis order_refl take_all)
  show ?thesis
  proof (cases "?n = length ds")
    case True
    then show ?thesis using same le(2)
      by (simp add: rangeIntersectsConditionalDirective_def R lower_bound_recorded Let_def)
  next
    case False
    with le have lt: "?n < length ds" by simp
    show ?thesis
    proof (cases "isBeforeInTranslationUnit SM E (snd (ds ! ?n))")
      case True
      have "?u \<le> ?n"
      proof (rule ccontr)
        assume "\<not> ?u \<le> ?n"
        then have "ds ! ?n \<in> set (upto_loc SM E ds)" using t(2) le(2) by (metis in_set_conv_nth linorder_not_less nth_take)
        then show False using True unfolding upto_loc_def by (auto dest: set_takeWhileD)
      qed
      then show ?thesis using True lt same
        by (simp add: rangeIntersectsConditionalDirective_def R lower_bound_recorded Let_def nth_recorded getLoc_def)
    next
      case inside: False
      have "?n \<noteq> ?u"
      proof
        assume eq: "?n = ?u"
        then have "isBeforeInTranslationUnit SM E (snd (ds ! ?u))"
          using lt nth_length_takeWhile [of "\<lambda>d. \<not> isBeforeInTranslationUnit SM E (snd d)" ds] by (simp add: upto_loc_def)
        with eq inside show False by simp
      qed
      then have ne: "before_loc SM B ds \<noteq> upto_loc SM E ds" by metis
      have low: "getRegionLoc (recorded ds ! ?n) = region_of (before_loc SM B ds)"
        using lt t(1) by (simp add: nth_recorded getRegionLoc_def)
      have upp: "getRegionLoc (recorded ds ! ?u) = region_of (upto_loc SM E ds)" if "?u \<noteq> length ds"
        using that t(2) le(2) by (simp add: nth_recorded getRegionLoc_def)
      have "rangeIntersectsConditionalDirective SM R (Some B, Some E) =
          (getRegionLoc (recorded ds ! ?n) \<noteq> (if ?u \<noteq> length ds then getRegionLoc (recorded ds ! ?u) else None))"
        using lt inside
        by (simp add: rangeIntersectsConditionalDirective_def R lower_bound_recorded Let_def nth_recorded getLoc_def up)
      then show ?thesis using ne low upp whole by auto
    qed
  qed
qed

text \<open>
  C36. When every conditional is closed, a range is said to intersect a directive exactly when it starts
  and ends in different regions; a block that lies in the range as a whole does not count.
\<close>

theorem intersects_iff_regions_differ:
  assumes "source_order SM" "in_source_order SM ds"
    and "run_directives SM ds cond_record_init = Some R" "CondDirectiveStack R = [None]"
    and "\<not> isBeforeInTranslationUnit SM E B"
  shows "rangeIntersectsConditionalDirective SM R (Some B, Some E) \<longleftrightarrow>
    region_of (before_loc SM B ds) \<noteq> region_of (upto_loc SM E ds)"
proof -
  have "region_of ds = None"
    using run_directives_recorded [OF assms(2)] assms(3,4) by (simp add: region_of_def)
  then show ?thesis using rangeIntersects_recorded [OF assms(1,2,3,5)] by (cases "upto_loc SM E ds = ds") auto
qed

text \<open>
  While a conditional is still open, a range that ends after the last directive and
  has one in it is compared with the outermost region, not with the open one: whenever it starts inside a conditional it is said
  to intersect a directive, even if it has complete blocks only.
\<close>

theorem open_region_intersects:
  assumes "source_order SM" "in_source_order SM ds"
    and "run_directives SM ds cond_record_init = Some R"
    and "\<not> isBeforeInTranslationUnit SM E B"
    and "upto_loc SM E ds = ds" "before_loc SM B ds \<noteq> ds" "region_of (before_loc SM B ds) = region_of ds"
  shows "rangeIntersectsConditionalDirective SM R (Some B, Some E) \<longleftrightarrow> last (CondDirectiveStack R) \<noteq> None"
proof -
  have "R = \<lparr>CondDirectiveStack = regions ds, CondDirectiveLocs = recorded ds\<rparr>"
    using run_directives_recorded [OF assms(2)] assms(3) by simp
  then show ?thesis using rangeIntersects_recorded [OF assms(1,2,3,4)] assms(5,6,7) by (simp add: region_of_def)
qed

section \<open>Examples\<close>

definition nat_source :: "nat source_manager" where
  "nat_source = \<lparr>isBeforeInTranslationUnit = (<), isInSystemHeader = (\<lambda>_. False)\<rparr>"

lemma nat_source_order: "source_order nat_source"
  by (auto simp: source_order_def nat_source_def)

definition closed_file :: "(directive \<times> nat) list" where
  "closed_file = [(If, 10), (Ifdef, 20), (Endif, 30), (Else, 40), (Endif, 50)]"

definition open_file :: "(directive \<times> nat) list" where
  "open_file = [(If, 10), (Ifndef, 20), (Endif, 30)]"

lemma files_in_order: "in_source_order nat_source closed_file" "in_source_order nat_source open_file"
proof -
  show "in_source_order nat_source closed_file" "in_source_order nat_source open_file"
    by (auto simp: in_source_order_def nat_source_def closed_file_def open_file_def regions_def le_Suc_eq)
qed

definition record_of :: "(directive \<times> nat) list \<Rightarrow> nat cond_record" where
  "record_of ds = \<lparr>CondDirectiveStack = regions ds, CondDirectiveLocs = recorded ds\<rparr>"

lemma record_runs:
  "run_directives nat_source closed_file cond_record_init = Some (record_of closed_file)"
  "run_directives nat_source open_file cond_record_init = Some (record_of open_file)"
  using files_in_order by (simp_all add: run_directives_recorded record_of_def)

theorem region_found_witness:
  "findConditionalDirectiveRegionLoc nat_source (record_of closed_file) (Some 35) = Some (Some 10)"
  using region_found [OF nat_source_order files_in_order(1) record_runs(1), of 35]
  by (simp add: before_loc_def closed_file_def nat_source_def region_of_def regions_def)

theorem intersects_iff_regions_differ_witness:
  "\<not> rangeIntersectsConditionalDirective nat_source (record_of closed_file) (Some 15, Some 35) \<and>
   rangeIntersectsConditionalDirective nat_source (record_of closed_file) (Some 35, Some 45)"
proof -
  have "CondDirectiveStack (record_of closed_file) = [None]" by (simp add: record_of_def closed_file_def regions_def)
  note iff = intersects_iff_regions_differ [OF nat_source_order files_in_order(1) record_runs(1) this]
  show ?thesis using iff [of 35 15] iff [of 45 35]
    by (simp add: before_loc_def upto_loc_def closed_file_def nat_source_def region_of_def regions_def)
qed

theorem open_region_intersects_witness:
  "rangeIntersectsConditionalDirective nat_source (record_of open_file) (Some 15, Some 35) \<and>
   region_of (before_loc nat_source 15 open_file) = region_of (upto_loc nat_source 35 open_file)"
proof -
  have a: "\<not> isBeforeInTranslationUnit nat_source 35 15" by (simp add: nat_source_def)
  have b: "upto_loc nat_source 35 open_file = open_file" "before_loc nat_source 15 open_file \<noteq> open_file"
    "region_of (before_loc nat_source 15 open_file) = region_of open_file"
    by (simp_all add: before_loc_def upto_loc_def open_file_def nat_source_def region_of_def regions_def)
  have "last (CondDirectiveStack (record_of open_file)) = Some 10"
    by (simp add: record_of_def open_file_def regions_def)
  with open_region_intersects [OF nat_source_order files_in_order(2) record_runs(2) a b] b show ?thesis by simp
qed

end
