(* ===== verification/EditedSource.thy ===== *)
theory EditedSource
  imports CharInfo ConditionalRecord "HOL-Library.AList"
begin

text \<open>
  The edits of a program (\<open>lib/Edit/EditedSource.cpp\<close>, \<open>EditedSource.h\<close>, \<open>FileOffset.h\<close>).  A \<open>std::map\<close>
  is the list of its entries in the order of the keys, an iterator the entries from its position on.  Locations are the
  words of \<open>SourceLocation.h\<close>, the source manager and the lexer are parameters.  An operation gives \<open>None\<close> where an
  assertion fails or a loop does not end.
\<close>

unbundle bit_operations_syntax

section \<open>Offsets in files\<close>

datatype FileOffset = FileOffset (FID: int) (Offs: u32)

definition getWithOffset :: "FileOffset \<Rightarrow> u32 \<Rightarrow> FileOffset" where
  "getWithOffset L n = FileOffset (FID L) (Offs L + n)"

instantiation FileOffset :: linorder
begin

definition less_FileOffset :: "FileOffset \<Rightarrow> FileOffset \<Rightarrow> bool" where
  "less_FileOffset L R \<longleftrightarrow> FID L < FID R \<or> FID L = FID R \<and> Offs L < Offs R"

definition less_eq_FileOffset :: "FileOffset \<Rightarrow> FileOffset \<Rightarrow> bool" where
  "less_eq_FileOffset L R \<longleftrightarrow> \<not> R < L"

instance
  by standard (auto simp: less_FileOffset_def less_eq_FileOffset_def intro: FileOffset.expand)

end

section \<open>Locations\<close>

type_synonym SourceLocation = u32

definition MacroIDBit :: u32 where "MacroIDBit = push_bit 31 1"

definition isFileID :: "SourceLocation \<Rightarrow> bool" where "isFileID L \<longleftrightarrow> L AND MacroIDBit = 0"
definition isMacroID :: "SourceLocation \<Rightarrow> bool" where "isMacroID L \<longleftrightarrow> L AND MacroIDBit \<noteq> 0"
definition isInvalid :: "SourceLocation \<Rightarrow> bool" where "isInvalid L \<longleftrightarrow> L = 0"

definition getLocWithOffset :: "SourceLocation \<Rightarrow> u32 \<Rightarrow> SourceLocation option" where
  "getLocWithOffset L n =
     (if ((L AND NOT MacroIDBit) + n) AND MacroIDBit = 0 then Some (L + n) else None)"

record CharSourceRange =
  getBegin :: SourceLocation
  getEnd :: SourceLocation
  isTokenRange :: bool

definition isInvalidRange :: "CharSourceRange \<Rightarrow> bool" where
  "isInvalidRange R \<longleftrightarrow> isInvalid (getBegin R) \<or> isInvalid (getEnd R)"

text \<open>What the edits use of the source manager, the lexer and the language options.\<close>

record edit_sources = "SourceLocation source_manager" +
  getBufferData :: "int \<Rightarrow> string option"
  getLocForStartOfFile :: "int \<Rightarrow> SourceLocation"
  getDecomposedLoc :: "SourceLocation \<Rightarrow> int \<times> u32"
  getFileIDSize :: "int \<Rightarrow> u32"
  isMacroArgExpansion :: "SourceLocation \<Rightarrow> bool"
  isMacroBodyExpansion :: "SourceLocation \<Rightarrow> bool"
  getImmediateExpansionBegin :: "SourceLocation \<Rightarrow> SourceLocation"
  getSpellingLoc :: "SourceLocation \<Rightarrow> SourceLocation"
  getTopMacroCallerLoc :: "SourceLocation \<Rightarrow> SourceLocation"
  Lexer_getSpelling :: "SourceLocation \<Rightarrow> string"
  Lexer_getSourceText :: "SourceLocation \<times> SourceLocation \<Rightarrow> string option"
  Lexer_GetBeginningOfToken :: "SourceLocation \<Rightarrow> SourceLocation"
  Lexer_MeasureTokenLength :: "SourceLocation \<Rightarrow> u32"
  Lexer_getLocForEndOfToken :: "SourceLocation \<Rightarrow> SourceLocation"
  Lexer_makeFileCharRange :: "CharSourceRange \<Rightarrow> CharSourceRange"
  Lexer_isAtStartOfMacroExpansion :: "SourceLocation \<Rightarrow> SourceLocation option"
  Lexer_isAtEndOfMacroExpansion :: "SourceLocation \<Rightarrow> SourceLocation option"
  DollarIdents :: bool

section \<open>State\<close>

record FileEdit =
  Text :: string
  RemoveLen :: u32

definition FileEdit0 :: FileEdit where "FileEdit0 = \<lparr>Text = '''', RemoveLen = 0\<rparr>"

type_synonym FileEdits = "(FileOffset \<times> FileEdit) list"

text \<open>An identifier stands for its entry in the identifier table.\<close>

record MacroArgUse =
  Identifier :: "string option"
  ImmediateExpansionLoc :: SourceLocation
  UseLoc :: SourceLocation

record edited_source =
  Edits :: FileEdits
  ExpansionToArgMap :: "(u32 \<times> MacroArgUse list) list"
  CurrCommitMacroArgExps :: "(SourceLocation \<times> MacroArgUse) list"

definition edited_source_init :: edited_source where
  "edited_source_init = \<lparr>Edits = [], ExpansionToArgMap = [], CurrCommitMacroArgExps = []\<rparr>"

text \<open>\<open>std::map::insert\<close>: an entry of the key stays as it is.\<close>

fun map_insert :: "'k::linorder \<Rightarrow> 'v \<Rightarrow> ('k \<times> 'v) list \<Rightarrow> ('k \<times> 'v) list" where
  "map_insert k v [] = [(k, v)]"
| "map_insert k v ((k', v') # es) =
     (if k < k' then (k, v) # (k', v') # es
      else if k = k' then (k', v') # es
      else (k', v') # map_insert k v es)"

text \<open>The end of the range of an entry, and the position of \<open>upper_bound\<close>.\<close>

definition edit_end :: "FileOffset \<times> FileEdit \<Rightarrow> FileOffset" where
  "edit_end e = getWithOffset (fst e) (RemoveLen (snd e))"

definition edits_upper_bound :: "FileOffset \<Rightarrow> FileEdits \<Rightarrow> nat" where
  "edits_upper_bound k es = length (takeWhile (\<lambda>e. fst e \<le> k) es)"

definition getActionForOffset :: "FileOffset \<Rightarrow> FileEdits \<Rightarrow> (FileOffset \<times> FileEdit) option" where
  "getActionForOffset k es =
     (let n = edits_upper_bound k es in
      if n = 0 then None
      else let e = es ! (n - 1) in
           if fst e \<le> k \<and> k < edit_end e then Some e else None)"

section \<open>Uses of macro arguments\<close>

partial_function (option) topExpansion :: "edit_sources \<Rightarrow> SourceLocation \<Rightarrow> SourceLocation option" where
  "topExpansion SM L =
     (if isMacroBodyExpansion SM L then topExpansion SM (getImmediateExpansionBegin SM L) else Some L)"

definition deconstructMacroArgLoc ::
  "edit_sources \<Rightarrow> SourceLocation \<Rightarrow> (SourceLocation \<times> MacroArgUse) option" where
  "deconstructMacroArgLoc SM Loc =
     (if \<not> isMacroArgExpansion SM Loc then None
      else let DefArgLoc = getImmediateExpansionBegin SM Loc;
               Immediate = getImmediateExpansionBegin SM DefArgLoc;
               ArgName = Lexer_getSpelling SM (getSpellingLoc SM DefArgLoc)
           in case topExpansion SM Immediate of
                None \<Rightarrow> None
              | Some ExpansionLoc \<Rightarrow>
                  Some (ExpansionLoc,
                    if ArgName \<noteq> '''' then
                      \<lparr>Identifier = Some ArgName, ImmediateExpansionLoc = Immediate,
                       UseLoc = getSpellingLoc SM DefArgLoc\<rparr>
                    else \<lparr>Identifier = None, ImmediateExpansionLoc = 0, UseLoc = 0\<rparr>))"

text \<open>A use that conflicts with one that an earlier commit wrote.\<close>

definition conflicting_use :: "MacroArgUse \<Rightarrow> MacroArgUse \<Rightarrow> bool" where
  "conflicting_use ArgUse U \<longleftrightarrow> Identifier ArgUse = Identifier U \<and>
     (ImmediateExpansionLoc ArgUse, UseLoc ArgUse) \<noteq> (ImmediateExpansionLoc U, UseLoc U)"

definition canInsertInOffset ::
  "edit_sources \<Rightarrow> edited_source \<Rightarrow> SourceLocation \<Rightarrow> FileOffset \<Rightarrow> bool option" where
  "canInsertInOffset SM ES OrigLoc k =
     (if (case getActionForOffset k (Edits ES) of None \<Rightarrow> False | Some FA \<Rightarrow> fst FA \<noteq> k) then Some False
      else if isMacroArgExpansion SM OrigLoc then
        (case deconstructMacroArgLoc SM OrigLoc of
           None \<Rightarrow> None
         | Some (ExpLoc, ArgUse) \<Rightarrow>
             (case map_of (ExpansionToArgMap ES) ExpLoc of
                None \<Rightarrow> Some True
              | Some Uses \<Rightarrow> Some (\<not> list_ex (conflicting_use ArgUse) Uses)))
      else Some True)"

text \<open>\<open>finishedCommit\<close>: the uses of this commit are recorded.\<close>

definition record_use ::
  "SourceLocation \<times> MacroArgUse \<Rightarrow> (u32 \<times> MacroArgUse list) list \<Rightarrow> (u32 \<times> MacroArgUse list) list" where
  "record_use ExpArg M =
     (let Uses = (case map_of M (fst ExpArg) of None \<Rightarrow> [] | Some Uses \<Rightarrow> Uses) in
      AList.update (fst ExpArg) (if snd ExpArg \<notin> set Uses then Uses @ [snd ExpArg] else Uses) M)"

definition finishedCommit :: "edited_source \<Rightarrow> edited_source" where
  "finishedCommit ES = ES\<lparr>ExpansionToArgMap := fold record_use (CurrCommitMacroArgExps ES) (ExpansionToArgMap ES),
                          CurrCommitMacroArgExps := []\<rparr>"

section \<open>Inserting\<close>

definition note_use :: "SourceLocation \<times> MacroArgUse \<Rightarrow> edited_source \<Rightarrow> edited_source" where
  "note_use ExpArg ES =
     (if Identifier (snd ExpArg) \<noteq> None
      then ES\<lparr>CurrCommitMacroArgExps := CurrCommitMacroArgExps ES @ [ExpArg]\<rparr> else ES)"

definition insert_text :: "string \<Rightarrow> bool \<Rightarrow> FileEdit \<Rightarrow> FileEdit" where
  "insert_text txt beforePrevious FA =
     (if Text FA = '''' then FA\<lparr>Text := txt\<rparr>
      else if beforePrevious then FA\<lparr>Text := txt @ Text FA\<rparr>
      else FA\<lparr>Text := Text FA @ txt\<rparr>)"

definition insert_at_offset :: "FileOffset \<Rightarrow> string \<Rightarrow> bool \<Rightarrow> edited_source \<Rightarrow> edited_source" where
  "insert_at_offset k txt beforePrevious ES =
     ES\<lparr>Edits := AList.map_entry k (insert_text txt beforePrevious) (map_insert k FileEdit0 (Edits ES))\<rparr>"

definition commitInsert ::
  "edit_sources \<Rightarrow> SourceLocation \<Rightarrow> FileOffset \<Rightarrow> string \<Rightarrow> bool \<Rightarrow> edited_source \<Rightarrow>
   (bool \<times> edited_source) option" where
  "commitInsert SM OrigLoc k txt beforePrevious ES =
     (case canInsertInOffset SM ES OrigLoc k of
        None \<Rightarrow> None
      | Some False \<Rightarrow> Some (False, ES)
      | Some True \<Rightarrow>
          if txt = '''' then Some (True, ES)
          else if isMacroArgExpansion SM OrigLoc then
            (case deconstructMacroArgLoc SM OrigLoc of
               None \<Rightarrow> None
             | Some ExpArg \<Rightarrow> Some (True, insert_at_offset k txt beforePrevious (note_use ExpArg ES)))
          else Some (True, insert_at_offset k txt beforePrevious ES))"

text \<open>The outer option is the assertions, the inner one the flag \<open>Invalid\<close>.\<close>

definition getSourceText ::
  "edit_sources \<Rightarrow> FileOffset \<Rightarrow> FileOffset \<Rightarrow> string option option" where
  "getSourceText SM BeginOffs EndOffs =
     (if FID BeginOffs \<noteq> FID EndOffs \<or> \<not> BeginOffs \<le> EndOffs then None
      else case getLocWithOffset (getLocForStartOfFile SM (FID BeginOffs)) (Offs BeginOffs) of
             None \<Rightarrow> None
           | Some BLoc \<Rightarrow>
               if \<not> isFileID BLoc then None
               else case getLocWithOffset BLoc (Offs EndOffs - Offs BeginOffs) of
                      None \<Rightarrow> None
                    | Some ELoc \<Rightarrow> Some (Lexer_getSourceText SM (BLoc, ELoc)))"

text \<open>The two loops of \<open>commitInsertFromRange\<close>.\<close>

fun range_start :: "FileOffset \<Rightarrow> FileEdits \<Rightarrow> FileOffset \<times> FileEdits" where
  "range_start BeginOffs [] = (BeginOffs, [])"
| "range_start BeginOffs (e # I) =
     (if BeginOffs = fst e then (BeginOffs, e # I)
      else if BeginOffs < edit_end e then
        (if fst e < BeginOffs then (edit_end e, I) else (BeginOffs, e # I))
      else range_start BeginOffs I)"

fun range_text ::
  "edit_sources \<Rightarrow> FileOffset \<Rightarrow> string \<Rightarrow> FileOffset \<Rightarrow> FileEdits \<Rightarrow> (string \<times> FileOffset) option option" where
  "range_text SM EndOffs StrVec BeginOffs [] = Some (Some (StrVec, BeginOffs))"
| "range_text SM EndOffs StrVec BeginOffs (e # I) =
     (if \<not> fst e < EndOffs then Some (Some (StrVec, BeginOffs))
      else if BeginOffs < fst e then
        (case getSourceText SM BeginOffs (fst e) of
           None \<Rightarrow> None
         | Some None \<Rightarrow> Some None
         | Some (Some txt) \<Rightarrow> range_text SM EndOffs (StrVec @ txt @ Text (snd e)) (edit_end e) I)
      else range_text SM EndOffs (StrVec @ Text (snd e)) (edit_end e) I)"

definition range_tail ::
  "edit_sources \<Rightarrow> FileOffset \<Rightarrow> string \<times> FileOffset \<Rightarrow> string option option" where
  "range_tail SM EndOffs r =
     (if snd r < EndOffs then map_option (map_option (\<lambda>txt. fst r @ txt)) (getSourceText SM (snd r) EndOffs)
      else Some (Some (fst r)))"

definition collect_range ::
  "edit_sources \<Rightarrow> FileEdits \<Rightarrow> FileOffset \<Rightarrow> u32 \<Rightarrow> string option option" where
  "collect_range SM es InsertFromRangeOffs Len =
     (let EndOffs = getWithOffset InsertFromRangeOffs Len;
          (BeginOffs, I) = range_start InsertFromRangeOffs (drop (edits_upper_bound InsertFromRangeOffs es - 1) es)
      in case range_text SM EndOffs '''' BeginOffs I of
           None \<Rightarrow> None
         | Some None \<Rightarrow> Some None
         | Some (Some r) \<Rightarrow> range_tail SM EndOffs r)"

definition commitInsertFromRange ::
  "edit_sources \<Rightarrow> SourceLocation \<Rightarrow> FileOffset \<Rightarrow> FileOffset \<Rightarrow> u32 \<Rightarrow> bool \<Rightarrow> edited_source \<Rightarrow>
   (bool \<times> edited_source) option" where
  "commitInsertFromRange SM OrigLoc k InsertFromRangeOffs Len beforePrevious ES =
     (if Len = 0 then Some (True, ES)
      else case collect_range SM (Edits ES) InsertFromRangeOffs Len of
             None \<Rightarrow> None
           | Some None \<Rightarrow> Some (False, ES)
           | Some (Some StrVec) \<Rightarrow> commitInsert SM OrigLoc k StrVec beforePrevious ES)"

section \<open>Removing\<close>

text \<open>The loop that takes the following edits into the removal at \<open>Top\<close>; \<open>M\<close> is the map.\<close>

fun absorb_edits :: "FileOffset \<Rightarrow> FileOffset \<Rightarrow> FileEdits \<Rightarrow> FileEdits \<Rightarrow> FileEdits" where
  "absorb_edits Top TopEnd [] M = M"
| "absorb_edits Top TopEnd (e # I) M =
     (if TopEnd \<le> fst e then M
      else if edit_end e \<le> TopEnd then absorb_edits Top TopEnd I (AList.delete (fst e) M)
      else if fst e < TopEnd then
        AList.delete (fst e)
          (AList.map_entry Top
            (\<lambda>FA. FA\<lparr>RemoveLen := RemoveLen FA + (Offs (edit_end e) - Offs TopEnd)\<rparr>) M)
      else M)"

definition commitRemove :: "FileOffset \<Rightarrow> u32 \<Rightarrow> FileEdits \<Rightarrow> FileEdits" where
  "commitRemove BeginOffs Len es =
     (if Len = 0 then es
      else let EndOffs = getWithOffset BeginOffs Len in
        case dropWhile (\<lambda>e. \<not> BeginOffs < edit_end e) (drop (edits_upper_bound BeginOffs es - 1) es) of
          [] \<Rightarrow> AList.map_entry BeginOffs (\<lambda>FA. FA\<lparr>RemoveLen := Len\<rparr>) (map_insert BeginOffs FileEdit0 es)
        | e # I \<Rightarrow>
            if BeginOffs < fst e then
              absorb_edits BeginOffs EndOffs (e # I)
                (AList.map_entry BeginOffs (\<lambda>FA. FA\<lparr>RemoveLen := Len\<rparr>) (map_insert BeginOffs FileEdit0 es))
            else if EndOffs \<le> edit_end e then es
            else absorb_edits (fst e) EndOffs I
                   (AList.map_entry (fst e)
                     (\<lambda>FA. FA\<lparr>RemoveLen := RemoveLen FA + (Offs EndOffs - Offs (edit_end e)),
                             Text := (if fst e = BeginOffs then '''' else Text FA)\<rparr>) es))"

section \<open>Committing\<close>

text \<open>The edits of a \<open>Commit\<close>.\<close>

datatype commit_edit =
    Act_Insert (OrigLoc: SourceLocation) (edit_offset: FileOffset) string bool
  | Act_InsertFromRange (OrigLoc: SourceLocation) (edit_offset: FileOffset) FileOffset u32 bool
  | Act_Remove (OrigLoc: SourceLocation) (edit_offset: FileOffset) u32

definition commit_action :: "edit_sources \<Rightarrow> commit_edit \<Rightarrow> edited_source \<Rightarrow> edited_source option" where
  "commit_action SM a ES =
     (case a of
        Act_Insert L k txt before \<Rightarrow> map_option snd (commitInsert SM L k txt before ES)
      | Act_InsertFromRange L k r n before \<Rightarrow> map_option snd (commitInsertFromRange SM L k r n before ES)
      | Act_Remove L k n \<Rightarrow> Some (ES\<lparr>Edits := commitRemove k n (Edits ES)\<rparr>))"

fun commit_actions :: "edit_sources \<Rightarrow> commit_edit list \<Rightarrow> edited_source \<Rightarrow> edited_source option" where
  "commit_actions SM [] ES = Some ES"
| "commit_actions SM (a # as) ES =
     (case commit_action SM a ES of None \<Rightarrow> None | Some ES \<Rightarrow> commit_actions SM as ES)"

definition commit ::
  "edit_sources \<Rightarrow> bool \<times> commit_edit list \<Rightarrow> edited_source \<Rightarrow> (bool \<times> edited_source) option" where
  "commit SM c ES =
     (if \<not> fst c then Some (False, ES)
      else map_option (\<lambda>ES. (True, finishedCommit ES)) (commit_actions SM (snd c) ES))"

definition clearRewrites :: "edited_source \<Rightarrow> edited_source" where
  "clearRewrites ES = ES\<lparr>Edits := []\<rparr>"

section \<open>Applying the rewrites\<close>

definition canBeJoined :: "edit_sources \<Rightarrow> char \<Rightarrow> char \<Rightarrow> bool" where
  "canBeJoined SM left right \<longleftrightarrow>
     \<not> (isIdentifierBody left (DollarIdents SM) \<and> isIdentifierBody right (DollarIdents SM))"

definition canRemoveWhitespace :: "edit_sources \<Rightarrow> char \<Rightarrow> char \<Rightarrow> char \<Rightarrow> bool" where
  "canRemoveWhitespace SM left beforeWSpace right \<longleftrightarrow>
     (if \<not> canBeJoined SM left right then False
      else if isWhitespace left \<or> isWhitespace right then True
      else if canBeJoined SM beforeWSpace right then False
      else True)"

text \<open>The length and the text of the removal; a buffer ends with a null character.\<close>

definition adjustRemoval ::
  "edit_sources \<Rightarrow> SourceLocation \<Rightarrow> FileOffset \<Rightarrow> u32 \<Rightarrow> string \<Rightarrow> (u32 \<times> string) option" where
  "adjustRemoval SM Loc k n txt =
     (if n = 0 \<or> txt \<noteq> '''' then None
      else if Lexer_GetBeginningOfToken SM Loc \<noteq> Loc then Some (n, txt)
      else case getBufferData SM (FID k) of
        None \<Rightarrow> Some (n, txt)
      | Some buffer \<Rightarrow>
          let begin = unat (Offs k); e = unat (Offs k + n) in
          if e = length buffer then Some (n, txt)
          else if \<not> (begin < length buffer \<and> e < length buffer) then None
          else if begin = 0 then Some (if buffer ! e = CHR '' '' then n + 1 else n, txt)
          else if buffer ! e = CHR '' '' then
            Some (if canRemoveWhitespace SM (buffer ! (begin - 1)) (buffer ! (e - 1)) ((buffer @ [CHR 0x00]) ! (e + 1))
                  then n + 1 else n, txt)
          else Some (n, if \<not> canBeJoined SM (buffer ! (begin - 1)) (buffer ! e) then '' '' else txt))"

text \<open>The calls of the receiver, with their locations.\<close>

datatype receiver_call =
    call_insert SourceLocation string
  | call_replace SourceLocation SourceLocation string
  | call_remove SourceLocation SourceLocation

definition receive :: "SourceLocation \<Rightarrow> string \<Rightarrow> u32 \<Rightarrow> receiver_call option" where
  "receive Loc txt n =
     (case getLocWithOffset Loc n of
        None \<Rightarrow> None
      | Some EndLoc \<Rightarrow>
          if txt = '''' then (if n = 0 then None else Some (call_remove Loc EndLoc))
          else if n \<noteq> 0 then Some (call_replace Loc EndLoc txt)
          else Some (call_insert Loc txt))"

definition applyRewrite ::
  "edit_sources \<Rightarrow> bool \<Rightarrow> string \<Rightarrow> FileOffset \<Rightarrow> u32 \<Rightarrow> receiver_call option" where
  "applyRewrite SM shouldAdjustRemovals txt k n =
     (if FID k = 0 then None
      else case getLocWithOffset (getLocForStartOfFile SM (FID k)) (Offs k) of
        None \<Rightarrow> None
      | Some Loc \<Rightarrow>
          if \<not> isFileID Loc then None
          else if txt = '''' \<and> shouldAdjustRemovals then
            (case adjustRemoval SM Loc k n txt of
               None \<Rightarrow> None
             | Some (n, txt) \<Rightarrow> receive Loc txt n)
          else receive Loc txt n)"

text \<open>The loop, with the pending rewrite; \<open>CurEnd\<close> does not move when an edit is joined to it.\<close>

fun apply_edits ::
  "edit_sources \<Rightarrow> bool \<Rightarrow> FileOffset \<Rightarrow> FileOffset \<Rightarrow> string \<Rightarrow> u32 \<Rightarrow> FileEdits \<Rightarrow> receiver_call list option" where
  "apply_edits SM adj CurOffs CurEnd StrVec CurLen [] =
     map_option (\<lambda>c. [c]) (applyRewrite SM adj StrVec CurOffs CurLen)"
| "apply_edits SM adj CurOffs CurEnd StrVec CurLen (e # I) =
     (if fst e < CurEnd then None
      else if fst e = CurEnd then
        apply_edits SM adj CurOffs CurEnd (StrVec @ Text (snd e)) (CurLen + RemoveLen (snd e)) I
      else case applyRewrite SM adj StrVec CurOffs CurLen of
             None \<Rightarrow> None
           | Some c \<Rightarrow> map_option (\<lambda>cs. c # cs)
               (apply_edits SM adj (fst e) (edit_end e) (Text (snd e)) (RemoveLen (snd e)) I))"

definition applyRewrites :: "edit_sources \<Rightarrow> bool \<Rightarrow> edited_source \<Rightarrow> receiver_call list option" where
  "applyRewrites SM adj ES =
     (case Edits ES of
        [] \<Rightarrow> Some []
      | e # I \<Rightarrow> apply_edits SM adj (fst e) (edit_end e) (Text (snd e)) (RemoveLen (snd e)) I)"

end
