(* ===== verification/EditedState.thy ===== *)
theory EditedState
  imports EditedSource
begin

text \<open>
  What the edits stand for: the text inserted at an offset, the offsets that are removed, and those inside of a removed
  range, where nothing can be inserted.  The operations are proved against this view, with the order and the
  bounds of the entries as the invariant.
\<close>

section \<open>The view\<close>

definition text_at :: "FileEdits \<Rightarrow> FileOffset \<Rightarrow> string" where
  "text_at es k = concat (map (\<lambda>e. if fst e = k then Text (snd e) else '''') es)"

definition removed :: "FileEdits \<Rightarrow> FileOffset \<Rightarrow> bool" where
  "removed es k \<longleftrightarrow> list_ex (\<lambda>e. fst e \<le> k \<and> k < edit_end e) es"

definition inside :: "FileEdits \<Rightarrow> FileOffset \<Rightarrow> bool" where
  "inside es k \<longleftrightarrow> list_ex (\<lambda>e. fst e < k \<and> k < edit_end e) es"

named_theorems edit_view "the view of the edits, entry by entry"

lemma text_at_view [edit_view]:
  "text_at [] k = ''''"
  "text_at (e # es) k = (if fst e = k then Text (snd e) else '''') @ text_at es k"
  "text_at (xs @ ys) k = text_at xs k @ text_at ys k"
  by (simp_all add: text_at_def)

lemma removed_view [edit_view]:
  "removed [] k \<longleftrightarrow> False"
  "removed (e # es) k \<longleftrightarrow> fst e \<le> k \<and> k < edit_end e \<or> removed es k"
  "removed (xs @ ys) k \<longleftrightarrow> removed xs k \<or> removed ys k"
  by (simp_all add: removed_def)

lemma inside_view [edit_view]:
  "inside [] k \<longleftrightarrow> False"
  "inside (e # es) k \<longleftrightarrow> fst e < k \<and> k < edit_end e \<or> inside es k"
  "inside (xs @ ys) k \<longleftrightarrow> inside xs k \<or> inside ys k"
  by (simp_all add: inside_def)

lemma text_at_none: "(\<And>e. e \<in> set es \<Longrightarrow> fst e \<noteq> k) \<Longrightarrow> text_at es k = ''''"
  by (induction es) (auto simp: edit_view)

lemma removed_iff: "removed es k \<longleftrightarrow> (\<exists>e \<in> set es. fst e \<le> k \<and> k < edit_end e)"
  by (auto simp: removed_def list_ex_iff)

lemma inside_iff: "inside es k \<longleftrightarrow> (\<exists>e \<in> set es. fst e < k \<and> k < edit_end e)"
  by (auto simp: inside_def list_ex_iff)

section \<open>The invariant\<close>

definition valid_file :: "edit_sources \<Rightarrow> int \<Rightarrow> bool" where
  "valid_file SM f \<longleftrightarrow> f \<noteq> 0 \<and> getLocForStartOfFile SM f \<noteq> 0"

definition range_in_file :: "edit_sources \<Rightarrow> FileOffset \<Rightarrow> u32 \<Rightarrow> bool" where
  "range_in_file SM k n \<longleftrightarrow> valid_file SM (FID k) \<and> unat (Offs k) + unat n \<le> unat (getFileIDSize SM (FID k))"

definition edit_ok :: "edit_sources \<Rightarrow> FileOffset \<times> FileEdit \<Rightarrow> bool" where
  "edit_ok SM e \<longleftrightarrow> range_in_file SM (fst e) (RemoveLen (snd e)) \<and> (Text (snd e) \<noteq> '''' \<or> RemoveLen (snd e) \<noteq> 0)"

definition edit_before :: "FileOffset \<times> FileEdit \<Rightarrow> FileOffset \<times> FileEdit \<Rightarrow> bool" where
  "edit_before a b \<longleftrightarrow> fst a < fst b \<and> edit_end a \<le> fst b"

definition edits_ok :: "edit_sources \<Rightarrow> FileEdits \<Rightarrow> bool" where
  "edits_ok SM es \<longleftrightarrow> sorted_wrt edit_before es \<and> list_all (edit_ok SM) es"

lemma FileOffset_less: "FileOffset f a < FileOffset g b \<longleftrightarrow> f < g \<or> f = g \<and> a < b"
  by (simp add: less_FileOffset_def)

lemma FileOffset_le: "FileOffset f a \<le> FileOffset g b \<longleftrightarrow> f < g \<or> f = g \<and> a \<le> b"
  by (auto simp: less_eq_FileOffset_def less_FileOffset_def)

lemma FileOffset_eqI: "FID a = FID b \<Longrightarrow> Offs a = Offs b \<Longrightarrow> a = b"
  by (rule FileOffset.expand) simp

lemma between_file: "a \<le> k \<Longrightarrow> k \<le> b \<Longrightarrow> FID a = FID b \<Longrightarrow> FID k = FID a" for a k b :: FileOffset
  by (auto simp: less_eq_FileOffset_def less_FileOffset_def)

lemma getWithOffset_sel [simp]:
  "FID (getWithOffset k n) = FID k" "Offs (getWithOffset k n) = Offs k + n"
  by (simp_all add: getWithOffset_def)

lemma edit_end_file [simp]: "FID (edit_end e) = FID (fst e)"
  by (simp add: edit_end_def)

lemma u32_bound: "unat w < 4294967296" for w :: u32
  by (rule order_less_le_trans [OF unsigned_less]) simp

lemma unat_in_range:
  "range_in_file SM k n \<Longrightarrow> unat (Offs k + n) = unat (Offs k) + unat n"
  using u32_bound [of "getFileIDSize SM (FID k)"]
  by (simp add: range_in_file_def unat_word_ariths(1))

lemma range_end_le: "range_in_file SM k n \<Longrightarrow> k \<le> getWithOffset k n"
  using unat_in_range [of SM k n]
  by (cases k) (simp add: getWithOffset_def FileOffset_le word_le_nat_alt)

lemma range_end_less: "range_in_file SM k n \<Longrightarrow> n \<noteq> 0 \<Longrightarrow> k < getWithOffset k n"
  using unat_in_range [of SM k n]
  by (cases k) (simp add: getWithOffset_def FileOffset_less word_less_nat_alt unat_gt_0)

lemma range_start_in_file: "range_in_file SM k n \<Longrightarrow> range_in_file SM k 0"
  by (simp add: range_in_file_def)

lemma range_end_in_file: "range_in_file SM k n \<Longrightarrow> range_in_file SM (getWithOffset k n) 0"
  using unat_in_range [of SM k n] by (simp add: range_in_file_def)

text \<open>A range by its ends.\<close>

lemma range_of_ends:
  assumes "range_in_file SM a 0" "range_in_file SM b 0" "a \<le> b" "FID a = FID b"
  shows "range_in_file SM a (Offs b - Offs a)" "getWithOffset a (Offs b - Offs a) = b"
proof -
  have "Offs a \<le> Offs b" using assms(3,4) by (cases a; cases b) (auto simp: FileOffset_le)
  then have "unat (Offs b - Offs a) = unat (Offs b) - unat (Offs a)" "unat (Offs a) \<le> unat (Offs b)"
    by (simp_all add: unat_sub word_le_nat_alt)
  then show "range_in_file SM a (Offs b - Offs a)" using assms(1,2,4) by (simp add: range_in_file_def)
  show "getWithOffset a (Offs b - Offs a) = b" using assms(4) by (cases a; cases b) (simp add: getWithOffset_def)
qed

lemma edit_ok_range: "edit_ok SM e \<Longrightarrow> range_in_file SM (fst e) (RemoveLen (snd e))"
  by (simp add: edit_ok_def)

lemma edit_end_le: "edit_ok SM e \<Longrightarrow> fst e \<le> edit_end e"
  unfolding edit_end_def by (rule range_end_le) (rule edit_ok_range)

lemma edit_end_in_file: "edit_ok SM e \<Longrightarrow> range_in_file SM (edit_end e) 0"
  unfolding edit_end_def by (rule range_end_in_file) (rule edit_ok_range)

lemma edits_ok_Nil [simp]: "edits_ok SM []"
  by (simp add: edits_ok_def)

lemma edits_ok_Cons:
  "edits_ok SM (e # es) \<longleftrightarrow> edit_ok SM e \<and> edits_ok SM es \<and> list_all (edit_before e) es"
  by (auto simp: edits_ok_def list_all_iff)

lemma edits_ok_append:
  "edits_ok SM (xs @ ys) \<longleftrightarrow> edits_ok SM xs \<and> edits_ok SM ys \<and> list_all (\<lambda>a. list_all (edit_before a) ys) xs"
  by (auto simp: edits_ok_def list_all_iff sorted_wrt_append)

lemma edits_ok_middle:
  "edits_ok SM (xs @ e # ys) \<longleftrightarrow> edits_ok SM (xs @ ys) \<and> edit_ok SM e \<and>
     (\<forall>a \<in> set xs. edit_before a e) \<and> (\<forall>b \<in> set ys. edit_before e b)"
  by (auto simp: edits_ok_append edits_ok_Cons list_all_iff)

lemma edits_ok_in: "edits_ok SM es \<Longrightarrow> e \<in> set es \<Longrightarrow> edit_ok SM e"
  by (simp add: edits_ok_def list_all_iff)

lemma edits_ok_distinct: "edits_ok SM es \<Longrightarrow> distinct (map fst es)"
  by (induction es) (auto simp: edits_ok_Cons list_all_iff edit_before_def)

section \<open>Positions in the map\<close>

lemma edits_upper_bound_split:
  assumes "edits_ok SM es"
  obtains A B where "es = A @ B" "length A = edits_upper_bound k es"
    "\<And>e. e \<in> set A \<Longrightarrow> fst e \<le> k" "\<And>e. e \<in> set B \<Longrightarrow> k < fst e"
proof
  let ?P = "\<lambda>e :: FileOffset \<times> FileEdit. fst e \<le> k"
  show es: "es = takeWhile ?P es @ dropWhile ?P es" by simp
  show "length (takeWhile ?P es) = edits_upper_bound k es" by (simp add: edits_upper_bound_def)
  show "fst e \<le> k" if "e \<in> set (takeWhile ?P es)" for e using that by (auto dest: set_takeWhileD)
  show "k < fst e" if "e \<in> set (dropWhile ?P es)" for e
  proof (cases "dropWhile ?P es")
    case Nil
    show ?thesis using that unfolding Nil by simp
  next
    case (Cons a B)
    then have "k < fst a" by (metis hd_dropWhile list.distinct(1) list.sel(1) not_le)
    moreover have "edits_ok SM (a # B)" using assms es Cons by (metis edits_ok_append)
    ultimately show ?thesis
      using that Cons by (auto simp: edits_ok_Cons list_all_iff edit_before_def)
  qed
qed

lemma getActionForOffset_inside:
  assumes "edits_ok SM es"
  shows "(case getActionForOffset k es of None \<Rightarrow> False | Some FA \<Rightarrow> fst FA \<noteq> k) \<longleftrightarrow> inside es k"
proof -
  obtain A B where es: "es = A @ B" and n: "length A = edits_upper_bound k es"
    and A: "\<And>e. e \<in> set A \<Longrightarrow> fst e \<le> k" and B: "\<And>e. e \<in> set B \<Longrightarrow> k < fst e"
    using edits_upper_bound_split [OF assms] by blast
  have B': "\<not> inside B k" using B by (fastforce simp: inside_iff)
  show ?thesis
  proof (cases A rule: rev_cases)
    case Nil
    then show ?thesis using n es B' by (simp add: getActionForOffset_def)
  next
    case (snoc A' a)
    have "\<not> inside A' k"
      using assms A [of a] es snoc
      by (fastforce simp: inside_iff edits_ok_append edits_ok_Cons list_all_iff edit_before_def)
    then show ?thesis using n es B' snoc A [of a]
      by (auto simp: getActionForOffset_def edit_view nth_append Let_def)
  qed
qed

lemma map_insert_append: "(\<And>e. e \<in> set xs \<Longrightarrow> fst e < k) \<Longrightarrow> map_insert k v (xs @ ys) = xs @ map_insert k v ys"
proof (induction xs)
  case (Cons e xs)
  then have "fst e < k" by simp
  then show ?case using Cons by (cases e) auto
qed simp

lemma map_entry_middle:
  "k \<notin> fst ` set xs \<Longrightarrow> AList.map_entry k f (xs @ (k, v) # ys) = xs @ (k, f v) # ys"
  by (induction xs) auto

lemma map_insert_split:
  assumes "edits_ok SM es"
  obtains xs FA ys where "map_insert k FileEdit0 es = xs @ (k, FA) # ys"
    "\<And>e. e \<in> set xs \<Longrightarrow> fst e < k" "\<And>e. e \<in> set ys \<Longrightarrow> k < fst e"
    "es = xs @ ys \<and> FA = FileEdit0 \<or> es = xs @ (k, FA) # ys"
proof -
  obtain A B where es: "es = A @ B"
    and A: "\<And>e. e \<in> set A \<Longrightarrow> fst e \<le> k" and B: "\<And>e. e \<in> set B \<Longrightarrow> k < fst e"
    using edits_upper_bound_split [OF assms] by blast
  show ?thesis
  proof (cases "\<exists>A' FA. A = A' @ [(k, FA)]")
    case True
    then obtain A' FA where A': "A = A' @ [(k, FA)]" by blast
    have "\<And>e. e \<in> set A' \<Longrightarrow> fst e < k"
      using assms es A' by (fastforce simp: edits_ok_append edits_ok_Cons list_all_iff edit_before_def)
    then show ?thesis using that [of A' FA B] B by (simp add: es A' map_insert_append)
  next
    case False
    have lt: "fst e < k" if "e \<in> set A" for e
    proof (cases A rule: rev_cases)
      case Nil
      then show ?thesis using that by simp
    next
      case (snoc A' a)
      then have "fst a \<noteq> k" using False by (metis prod.collapse)
      then show ?thesis
        using that A [of a] assms es snoc
        by (fastforce simp: edits_ok_append edits_ok_Cons list_all_iff edit_before_def)
    qed
    have "map_insert k FileEdit0 B = (k, FileEdit0) # B"
    proof (cases B)
      case (Cons b B')
      then show ?thesis using B [of b] by (cases b) simp
    qed simp
    then show ?thesis using that [of A FileEdit0 B] lt B es by (simp add: map_insert_append)
  qed
qed

lemma map_entry_insert:
  assumes "edits_ok SM es"
  obtains xs FA ys where "AList.map_entry k f (map_insert k FileEdit0 es) = xs @ (k, f FA) # ys"
    "\<And>e. e \<in> set xs \<Longrightarrow> fst e < k" "\<And>e. e \<in> set ys \<Longrightarrow> k < fst e"
    "es = xs @ ys \<and> FA = FileEdit0 \<or> es = xs @ (k, FA) # ys"
proof -
  obtain xs FA ys where m: "map_insert k FileEdit0 es = xs @ (k, FA) # ys"
    and l: "\<And>e. e \<in> set xs \<Longrightarrow> fst e < k" "\<And>e. e \<in> set ys \<Longrightarrow> k < fst e"
      "es = xs @ ys \<and> FA = FileEdit0 \<or> es = xs @ (k, FA) # ys"
    using map_insert_split [OF assms] by blast
  have "k \<notin> fst ` set xs" using l(1) by fastforce
  then show ?thesis using that [of xs FA ys] m l by (simp add: map_entry_middle)
qed

section \<open>Inserting\<close>

definition insert_at_view :: "FileOffset \<Rightarrow> string \<Rightarrow> bool \<Rightarrow> FileEdits \<Rightarrow> FileOffset \<Rightarrow> string" where
  "insert_at_view k txt before es p =
     (if p = k then (if before then txt @ text_at es p else text_at es p @ txt) else text_at es p)"

lemma insert_text_view [simp]:
  "Text (insert_text txt before FA) = (if before then txt @ Text FA else Text FA @ txt)"
  "RemoveLen (insert_text txt before FA) = RemoveLen FA"
  by (simp_all add: insert_text_def)

lemma insert_at_offset_ok:
  assumes ok: "edits_ok SM (Edits ES)" and k: "range_in_file SM k 0" "\<not> inside (Edits ES) k" and nonempty: "txt \<noteq> ''''"
  shows "edits_ok SM (Edits (insert_at_offset k txt before ES))" (is ?ok)
    and "removed (Edits (insert_at_offset k txt before ES)) = removed (Edits ES)" (is ?rem)
    and "inside (Edits (insert_at_offset k txt before ES)) = inside (Edits ES)" (is ?ins)
    and "text_at (Edits (insert_at_offset k txt before ES)) = insert_at_view k txt before (Edits ES)" (is ?view)
proof -
  obtain xs FA ys where m: "AList.map_entry k (insert_text txt before) (map_insert k FileEdit0 (Edits ES)) =
      xs @ (k, insert_text txt before FA) # ys"
    and l: "\<And>e. e \<in> set xs \<Longrightarrow> fst e < k" "\<And>e. e \<in> set ys \<Longrightarrow> k < fst e"
    and es: "Edits ES = xs @ ys \<and> FA = FileEdit0 \<or> Edits ES = xs @ (k, FA) # ys"
    using map_entry_insert [OF ok, of k "insert_text txt before"] by blast
  have m: "Edits (insert_at_offset k txt before ES) = xs @ (k, insert_text txt before FA) # ys"
    by (simp add: insert_at_offset_def m)
  have e: "edit_end (k, insert_text txt before FA) = edit_end (k, FA)" by (simp add: edit_end_def)
  have e0: "FA = FileEdit0 \<Longrightarrow> edit_end (k, FA) = k" by (simp add: edit_end_def FileEdit0_def getWithOffset_def)
  have "\<And>e. e \<in> set xs \<Longrightarrow> edit_end e \<le> k"
  proof -
    fix e assume "e \<in> set xs"
    then have "e \<in> set (Edits ES)" "fst e < k" using es l(1) by auto
    then show "edit_end e \<le> k" using k(2) by (auto simp: inside_iff)
  qed
  moreover have "edit_ok SM (k, insert_text txt before FA)"
    using es ok k(1) nonempty by (auto simp: edit_ok_def edits_ok_append edits_ok_Cons FileEdit0_def)
  moreover have "\<And>e. e \<in> set ys \<Longrightarrow> edit_end (k, FA) \<le> fst e"
    using es l(2) e0 ok by (fastforce simp: edits_ok_append edits_ok_Cons list_all_iff edit_before_def)
  moreover have "edits_ok SM (xs @ ys)" using es ok by (auto simp: edits_ok_middle)
  ultimately show ?ok
    unfolding m edits_ok_middle edit_before_def e using l by simp
  show ?rem using es e0 e by (force simp: m edit_view fun_eq_iff)
  show ?ins using es e0 e by (force simp: m edit_view fun_eq_iff)
  have none: "text_at xs k = ''''" "text_at ys k = ''''"
    using l by (auto intro!: text_at_none)
  show ?view
    using es none by (auto simp: m edit_view fun_eq_iff insert_at_view_def FileEdit0_def)
qed

section \<open>Removing\<close>

lemma text_at_inside: "edits_ok SM es \<Longrightarrow> inside es k \<Longrightarrow> text_at es k = ''''"
proof -
  assume ok: "edits_ok SM es" and "inside es k"
  then obtain e where e: "e \<in> set es" "fst e < k" "k < edit_end e" by (auto simp: inside_iff)
  then obtain xs ys where es: "es = xs @ e # ys" by (meson split_list)
  have "fst a \<noteq> k" if "a \<in> set es" for a
    using that ok e unfolding es edits_ok_middle edit_before_def by auto
  then show ?thesis by (rule text_at_none)
qed

text \<open>The loop by itself: by how much the removal grows, and the edits that remain.\<close>

fun absorbed :: "FileOffset \<Rightarrow> FileEdits \<Rightarrow> u32 \<times> FileEdits" where
  "absorbed TopEnd [] = (0, [])"
| "absorbed TopEnd (e # I) =
     (if TopEnd \<le> fst e then (0, e # I)
      else if edit_end e \<le> TopEnd then absorbed TopEnd I
      else (Offs (edit_end e) - Offs TopEnd, I))"

lemma delete_append: "k \<notin> fst ` set X \<Longrightarrow> AList.delete k (X @ Y) = X @ AList.delete k Y"
  by (induction X) auto

lemma delete_middle:
  assumes "distinct (map fst (X @ t # e # I))"
  shows "AList.delete (fst e) (X @ t # e # I) = X @ t # I"
proof -
  have "fst e \<notin> fst ` set X" "fst t \<noteq> fst e" "fst e \<notin> fst ` set I" using assms by auto
  then show ?thesis by (simp add: delete_append delete_idem)
qed

lemma absorb_edits_absorbed:
  "distinct (map fst (X @ (T, FA) # I)) \<Longrightarrow> absorb_edits T TopEnd I (X @ (T, FA) # I) =
     X @ (T, FA\<lparr>RemoveLen := RemoveLen FA + fst (absorbed TopEnd I)\<rparr>) # snd (absorbed TopEnd I)"
proof (induction I)
  case (Cons e I)
  have T: "T \<notin> fst ` set X" using Cons.prems by auto
  have del: "AList.delete (fst e) (X @ (T, F) # e # I) = X @ (T, F) # I" for F
    using Cons.prems delete_middle [of X "(T, F)" e I] by simp
  show ?case using Cons by (simp add: map_entry_middle [OF T] del not_less)
qed simp

lemma absorbed_split:
  assumes "edits_ok SM I" "range_in_file SM TopEnd 0"
  obtains A where "I = A @ snd (absorbed TopEnd I)" "\<And>a. a \<in> set A \<Longrightarrow> fst a < TopEnd"
    "\<And>a. a \<in> set A \<Longrightarrow> edit_end a \<le> getWithOffset TopEnd (fst (absorbed TopEnd I))"
    "getWithOffset TopEnd (fst (absorbed TopEnd I)) = TopEnd \<or>
     (\<exists>a \<in> set A. edit_end a = getWithOffset TopEnd (fst (absorbed TopEnd I)) \<and> TopEnd < edit_end a)"
    "\<And>c. c \<in> set (snd (absorbed TopEnd I)) \<Longrightarrow> getWithOffset TopEnd (fst (absorbed TopEnd I)) \<le> fst c"
  using assms
proof (induction I arbitrary: thesis)
  case Nil
  show ?case by (rule Nil.prems(1) [of "[]"]) (auto simp: getWithOffset_def)
next
  case (Cons e I)
  have e: "edit_ok SM e" "edits_ok SM I" and eI: "\<And>c. c \<in> set I \<Longrightarrow> edit_before e c"
    using Cons.prems(2) by (auto simp: edits_ok_Cons list_all_iff)
  consider "TopEnd \<le> fst e" | "fst e < TopEnd" "edit_end e \<le> TopEnd" | "fst e < TopEnd" "TopEnd < edit_end e"
    by fastforce
  then show ?case
  proof cases
    case 1
    have "TopEnd \<le> fst c" if "c \<in> set I" for c
    proof -
      have "fst e < fst c" using eI [OF that] by (simp add: edit_before_def)
      then show ?thesis using 1 by order
    qed
    then show ?thesis using 1 by (intro Cons.prems(1) [of "[]"]) (auto simp: getWithOffset_def)
  next
    case 2
    obtain A where A: "I = A @ snd (absorbed TopEnd I)" "\<And>a. a \<in> set A \<Longrightarrow> fst a < TopEnd"
      "\<And>a. a \<in> set A \<Longrightarrow> edit_end a \<le> getWithOffset TopEnd (fst (absorbed TopEnd I))"
      "getWithOffset TopEnd (fst (absorbed TopEnd I)) = TopEnd \<or>
       (\<exists>a \<in> set A. edit_end a = getWithOffset TopEnd (fst (absorbed TopEnd I)) \<and> TopEnd < edit_end a)"
      "\<And>c. c \<in> set (snd (absorbed TopEnd I)) \<Longrightarrow> getWithOffset TopEnd (fst (absorbed TopEnd I)) \<le> fst c"
      using Cons.IH e(2) Cons.prems(3) by blast
    have "TopEnd \<le> getWithOffset TopEnd (fst (absorbed TopEnd I))" using A(4) by auto
    then show ?thesis using 2 A by (intro Cons.prems(1) [of "e # A"]) auto
  next
    case 3
    have "FID TopEnd = FID (fst e)" using between_file [of "fst e" TopEnd "edit_end e"] 3 by simp
    then have "getWithOffset TopEnd (Offs (edit_end e) - Offs TopEnd) = edit_end e"
      by (intro FileOffset_eqI) simp_all
    then show ?thesis using 3 eI by (intro Cons.prems(1) [of "[e]"]) (auto simp: edit_before_def)
  qed
qed

lemma absorb_edits_view:
  assumes X: "edits_ok SM X" "\<And>a. a \<in> set X \<Longrightarrow> fst a < T \<and> edit_end a \<le> T"
    and I: "edits_ok SM I" "\<And>c. c \<in> set I \<Longrightarrow> T < fst c"
    and FA: "range_in_file SM T (RemoveLen FA)" "RemoveLen FA \<noteq> 0"
  defines "R \<equiv> absorb_edits T (getWithOffset T (RemoveLen FA)) I (X @ (T, FA) # I)"
  shows "edits_ok SM R" (is ?ok)
    and "\<And>k. removed R k \<longleftrightarrow> removed X k \<or> T \<le> k \<and> k < getWithOffset T (RemoveLen FA) \<or> removed I k"
    and "\<And>k. inside R k \<longleftrightarrow> inside X k \<or> T < k \<and> k < getWithOffset T (RemoveLen FA) \<or> inside I k"
    and "\<And>k. text_at R k = text_at X k @ (if k = T then Text FA else '''') @ (if inside R k then '''' else text_at I k)"
proof -
  let ?E = "getWithOffset T (RemoveLen FA)" and ?d = "fst (absorbed (getWithOffset T (RemoveLen FA)) I)"
  define C where "C = snd (absorbed ?E I)"
  define E' where "E' = getWithOffset ?E ?d"
  have TE: "T < ?E" and E: "range_in_file SM ?E 0"
    using FA by (auto intro: range_end_less range_end_in_file)
  obtain A where A: "I = A @ C" "\<And>a. a \<in> set A \<Longrightarrow> fst a < ?E" "\<And>a. a \<in> set A \<Longrightarrow> edit_end a \<le> E'"
      "E' = ?E \<or> (\<exists>a \<in> set A. edit_end a = E' \<and> ?E < edit_end a)" "\<And>c. c \<in> set C \<Longrightarrow> E' \<le> fst c"
    by (rule absorbed_split [OF I(1) E, folded C_def E'_def]) (assumption | rule that)+
  have EE': "?E \<le> E'" using A(4) by auto
  have "distinct (map fst (X @ (T, FA) # I))"
  proof -
    have "fst a \<noteq> fst c" if "a \<in> set X" "c \<in> set I" for a c using X(2) [OF that(1)] I(2) [OF that(2)] by auto
    then have "fst ` set X \<inter> fst ` set I = {}" by blast
    moreover have "T \<notin> fst ` set X" using X(2) by (metis image_iff less_irrefl)
    moreover have "T \<notin> fst ` set I" using I(2) by (metis image_iff less_irrefl)
    ultimately show ?thesis using edits_ok_distinct [OF X(1)] edits_ok_distinct [OF I(1)] by simp
  qed
  from absorb_edits_absorbed [OF this, of ?E]
  have R: "R = X @ (T, FA\<lparr>RemoveLen := RemoveLen FA + ?d\<rparr>) # C" by (simp add: R_def C_def)
  have top: "edit_end (T, FA\<lparr>RemoveLen := RemoveLen FA + ?d\<rparr>) = E'"
    by (simp add: edit_end_def E'_def getWithOffset_def ac_simps)
  have E'ok: "range_in_file SM E' 0"
    using A(4) E edit_end_in_file edits_ok_in [OF I(1)] A(1) by (metis Un_iff set_append)
  have "range_in_file SM T (Offs E' - Offs T)"
    using range_of_ends(1) [OF range_start_in_file [OF FA(1)] E'ok] TE EE' by (simp add: E'_def)
  moreover have "Offs E' - Offs T = RemoveLen FA + ?d" by (simp add: E'_def)
  moreover have "T < E'" using TE EE' by simp
  ultimately have top_ok: "edit_ok SM (T, FA\<lparr>RemoveLen := RemoveLen FA + ?d\<rparr>)"
    using top by (auto simp: edit_ok_def edit_end_def getWithOffset_def)
  have "fst a < fst c \<and> edit_end a \<le> fst c" if "a \<in> set X" "c \<in> set I" for a c
    using X(2) [OF that(1)] I(2) [OF that(2)] by auto
  then have "edits_ok SM (X @ C)"
    using X I A(1) by (auto simp: edits_ok_append list_all_iff edit_before_def)
  then show ok: ?ok
    unfolding R edits_ok_middle edit_before_def top using top_ok X(2) A(1,5) I(2) by auto
  show "removed R k \<longleftrightarrow> removed X k \<or> T \<le> k \<and> k < ?E \<or> removed I k" for k
  proof -
    have "removed A k \<Longrightarrow> T \<le> k \<and> k < E'" using A(1,3) I(2) by (fastforce simp: removed_iff)
    moreover have "T \<le> k \<and> k < E' \<Longrightarrow> k < ?E \<or> removed A k"
      using A(2,4) by (fastforce simp: removed_iff)
    moreover have "removed R k \<longleftrightarrow> removed X k \<or> (T \<le> k \<and> k < E') \<or> removed C k" by (simp add: R edit_view top)
    moreover have "removed I k \<longleftrightarrow> removed A k \<or> removed C k" using A(1) by (simp add: edit_view)
    ultimately show ?thesis using EE' by auto
  qed
  show ins: "inside R k \<longleftrightarrow> inside X k \<or> T < k \<and> k < ?E \<or> inside I k" for k
  proof -
    have "inside A k \<Longrightarrow> T < k \<and> k < E'" using A(1,3) I(2) by (fastforce simp: inside_iff)
    moreover have "T < k \<and> k < E' \<Longrightarrow> k < ?E \<or> inside A k"
      using A(2,4) by (fastforce simp: inside_iff)
    moreover have "inside R k \<longleftrightarrow> inside X k \<or> (T < k \<and> k < E') \<or> inside C k" by (simp add: R edit_view top)
    moreover have "inside I k \<longleftrightarrow> inside A k \<or> inside C k" using A(1) by (simp add: edit_view)
    ultimately show ?thesis using EE' by auto
  qed
  show "text_at R k = text_at X k @ (if k = T then Text FA else '''') @ (if inside R k then '''' else text_at I k)" for k
  proof (cases "inside R k")
    case True
    have "text_at R k = ''''" by (rule text_at_inside [OF ok True])
    moreover have "text_at R k = text_at X k @ (if k = T then Text FA else '''') @ text_at C k"
      by (auto simp: R edit_view)
    ultimately show ?thesis using True by simp
  next
    case False
    have "text_at A k = ''''"
    proof (rule text_at_none)
      fix a assume "a \<in> set A"
      then have "T < fst a" "fst a < ?E" using A(1,2) I(2) by auto
      then show "fst a \<noteq> k" using False ins [of k] by auto
    qed
    moreover have "text_at I k = text_at A k @ text_at C k" using A(1) by (simp add: edit_view)
    ultimately show ?thesis using False by (auto simp: R edit_view)
  qed
qed

text \<open>The text at the start of the removal goes when the removal grows a shorter one that starts there.\<close>

definition replaces_at :: "FileEdits \<Rightarrow> FileOffset \<Rightarrow> FileOffset \<Rightarrow> bool" where
  "replaces_at es b e \<longleftrightarrow> list_ex (\<lambda>a. fst a = b \<and> b < edit_end a \<and> edit_end a < e) es"

definition remove_view :: "FileEdits \<Rightarrow> FileOffset \<Rightarrow> FileOffset \<Rightarrow> FileEdits \<Rightarrow> bool" where
  "remove_view es b e R \<longleftrightarrow>
     (\<forall>k. removed R k \<longleftrightarrow> removed es k \<or> b \<le> k \<and> k < e) \<and>
     (\<forall>k. inside R k \<longleftrightarrow> inside es k \<or> b < k \<and> k < e) \<and>
     (\<forall>k. text_at R k = (if inside R k \<or> k = b \<and> replaces_at es b e then '''' else text_at es k))"

lemma remove_viewI:
  assumes "\<And>k. removed R k \<longleftrightarrow> removed es k \<or> b \<le> k \<and> k < e"
    and "\<And>k. inside R k \<longleftrightarrow> inside es k \<or> b < k \<and> k < e"
    and "\<And>k. text_at R k = (if inside R k \<or> k = b \<and> replaces_at es b e then '''' else text_at es k)"
  shows "remove_view es b e R"
  using assms unfolding remove_view_def by blast

text \<open>The entries of a map around a range that covers \<open>b\<close>.\<close>

lemma dropWhile_dropped: "(\<And>x. x \<in> set (take n xs) \<Longrightarrow> P x) \<Longrightarrow> dropWhile P (drop n xs) = dropWhile P xs"
proof (induction n arbitrary: xs)
  case (Suc n)
  then show ?case by (cases xs) auto
qed simp

lemma remove_position:
  assumes ok: "edits_ok SM es"
  shows "dropWhile (\<lambda>e. \<not> b < edit_end e) (drop (edits_upper_bound b es - 1) es) = dropWhile (\<lambda>e. \<not> b < edit_end e) es"
proof (rule dropWhile_dropped)
  fix e assume e: "e \<in> set (take (edits_upper_bound b es - 1) es)"
  obtain A B where es: "es = A @ B" and n: "length A = edits_upper_bound b es"
    and A: "\<And>e. e \<in> set A \<Longrightarrow> fst e \<le> b"
    using edits_upper_bound_split [OF ok] by blast
  show "\<not> b < edit_end e"
  proof (cases A rule: rev_cases)
    case Nil
    then show ?thesis using e n by simp
  next
    case (snoc A' a)
    then have "e \<in> set A'" using e n es by simp
    then have "edit_before e a" using ok unfolding es snoc by (auto simp: edits_ok_append list_all_iff)
    then show ?thesis using A [of a] snoc by (auto simp: edit_before_def)
  qed
qed

lemma remove_split:
  assumes ok: "edits_ok SM es"
  obtains xs where "es = xs @ dropWhile (\<lambda>e. \<not> b < edit_end e) es" "\<And>a. a \<in> set xs \<Longrightarrow> edit_end a \<le> b"
proof
  show "es = takeWhile (\<lambda>e. \<not> b < edit_end e) es @ dropWhile (\<lambda>e. \<not> b < edit_end e) es" by simp
  show "edit_end a \<le> b" if "a \<in> set (takeWhile (\<lambda>e. \<not> b < edit_end e) es)" for a
    using set_takeWhileD [OF that] by (simp add: not_less)
qed

lemma remove_fresh:
  assumes ok: "edits_ok SM es" and r: "range_in_file SM b n" "n \<noteq> 0"
    and es: "es = xs @ I" and xs: "\<And>a. a \<in> set xs \<Longrightarrow> edit_end a \<le> b" and I: "\<And>a. a \<in> set I \<Longrightarrow> b < fst a"
  defines "R \<equiv> absorb_edits b (getWithOffset b n) I
    (AList.map_entry b (\<lambda>FA. FA\<lparr>RemoveLen := n\<rparr>) (map_insert b FileEdit0 es))"
  shows "edits_ok SM R" and "remove_view es b (getWithOffset b n) R"
proof -
  obtain X FA Y where m: "AList.map_entry b (\<lambda>FA. FA\<lparr>RemoveLen := n\<rparr>) (map_insert b FileEdit0 es) =
      X @ (b, FA\<lparr>RemoveLen := n\<rparr>) # Y"
    and l: "\<And>e. e \<in> set X \<Longrightarrow> fst e < b" "\<And>e. e \<in> set Y \<Longrightarrow> b < fst e"
    and es': "es = X @ Y \<and> FA = FileEdit0 \<or> es = X @ (b, FA) # Y"
    using map_entry_insert [OF ok, of b "\<lambda>FA. FA\<lparr>RemoveLen := n\<rparr>"] by blast
  have le: "edit_ok SM a" "fst a \<le> edit_end a" if "a \<in> set es" for a
    using edits_ok_in [OF ok that] edit_end_le by auto
  have "filter (\<lambda>a. b < fst a) xs = []"
  proof -
    have "fst a \<le> b" if "a \<in> set xs" for a using xs [OF that] le(2) [of a] that es by auto
    then show ?thesis by (auto simp: filter_empty_conv not_less)
  qed
  then have I_eq: "I = filter (\<lambda>a. b < fst a) es" using I es by (simp add: filter_id_conv)
  have "filter (\<lambda>a. b < fst a) X = []" using l(1) by (force simp: filter_empty_conv)
  moreover have "filter (\<lambda>a. b < fst a) Y = Y" using l(2) by (simp add: filter_id_conv)
  ultimately have "Y = filter (\<lambda>a. b < fst a) es" using es' by auto
  then have Y: "Y = I" using I_eq by simp
  have bFA: "RemoveLen FA = 0"
  proof (cases "es = X @ (b, FA) # Y")
    case True
    then have "(b, FA) \<in> set (xs @ I)" using es by simp
    moreover have "(b, FA) \<notin> set I" using I [of "(b, FA)"] by auto
    ultimately have mem: "(b, FA) \<in> set xs" by simp
    then have "edit_end (b, FA) \<le> b" by (rule xs)
    moreover have "edit_ok SM (b, FA)" using mem le es by auto
    ultimately show ?thesis
      using range_end_less [of SM b "RemoveLen FA"] by (cases "RemoveLen FA = 0") (auto simp: edit_ok_def edit_end_def)
  next
    case False
    then show ?thesis using es' by (simp add: FileEdit0_def)
  qed
  have e: "edit_end (b, FA) = b" using bFA by (simp add: edit_end_def getWithOffset_def)
  have X: "fst a < b \<and> edit_end a \<le> b" if "a \<in> set X" for a
  proof -
    have "a \<in> set es" using that es' by auto
    then have "a \<in> set xs \<or> a \<in> set I" using es by auto
    then show ?thesis using l(1) [OF that] xs [of a] I [of a] by auto
  qed
  have "edits_ok SM X" using ok es' by (auto simp: edits_ok_append)
  moreover have "edits_ok SM I" using ok unfolding es edits_ok_append by simp
  ultimately have oks: "edits_ok SM X" "edits_ok SM I" by simp_all
  have R: "R = absorb_edits b (getWithOffset b n) I (X @ (b, FA\<lparr>RemoveLen := n\<rparr>) # I)"
    unfolding R_def m Y ..
  have parts: "removed es k \<longleftrightarrow> removed X k \<or> removed I k" "inside es k \<longleftrightarrow> inside X k \<or> inside I k"
    "text_at es k = text_at X k @ (if k = b then Text FA else '''') @ text_at I k" for k
    using es' e by (auto simp: Y edit_view FileEdit0_def)
  have r': "range_in_file SM b (RemoveLen (FA\<lparr>RemoveLen := n\<rparr>))" "RemoveLen (FA\<lparr>RemoveLen := n\<rparr>) \<noteq> 0"
    using r by simp_all
  note view = absorb_edits_view [OF oks(1) X oks(2) I r', simplified, folded R]
  show ok_R: "edits_ok SM R" by (rule view(1))
  have none: "\<not> replaces_at es b (getWithOffset b n)"
  proof -
    have "a = (b, FA)" if "a \<in> set es" "fst a = b" for a
      using that es' l(1) [of a] l(2) [of a] by auto
    then show ?thesis using e by (auto simp: replaces_at_def list_ex_iff)
  qed
  show "remove_view es b (getWithOffset b n) R"
  proof (rule remove_viewI)
    show "text_at R k = (if inside R k \<or> k = b \<and> replaces_at es b (getWithOffset b n) then '''' else text_at es k)" for k
      using view(4) [of k] none text_at_inside [OF ok_R, of k] by (simp add: parts(3))
  qed (auto simp: view(2,3) parts)
qed

lemma covering_entry:
  assumes ok: "edits_ok SM es" and f: "f \<in> set es" "fst f \<le> b" "b < edit_end f" and a: "a \<in> set es" "fst a = b"
  shows "a = f"
proof (rule ccontr)
  assume "a \<noteq> f"
  obtain xs ys where es: "es = xs @ f # ys" using f(1) by (meson split_list)
  then have "edit_before a f \<or> edit_before f a" using ok a(1) \<open>a \<noteq> f\<close> by (auto simp: edits_ok_middle)
  then show False using f(2,3) a(2) by (auto simp: edit_before_def)
qed

lemma remove_covered:
  assumes ok: "edits_ok SM es" and f: "f \<in> set es" "fst f \<le> b" "b < edit_end f" and e: "e \<le> edit_end f"
  shows "remove_view es b e es"
proof (rule remove_viewI)
  show "removed es k \<longleftrightarrow> removed es k \<or> b \<le> k \<and> k < e" for k
    using f e by (force simp: removed_iff)
  show "inside es k \<longleftrightarrow> inside es k \<or> b < k \<and> k < e" for k
    using f e by (force simp: inside_iff)
  have "\<not> replaces_at es b e"
    using covering_entry [OF ok f] e by (auto simp: replaces_at_def list_ex_iff)
  then show "text_at es k = (if inside es k \<or> k = b \<and> replaces_at es b e then '''' else text_at es k)" for k
    using text_at_inside [OF ok] by simp
qed

lemma remove_grown:
  assumes ok: "edits_ok SM es" and r: "range_in_file SM b n" "n \<noteq> 0"
    and es: "es = xs @ f # I" and f: "fst f \<le> b" "b < edit_end f" "edit_end f < getWithOffset b n"
  defines "R \<equiv> absorb_edits (fst f) (getWithOffset b n) I
    (AList.map_entry (fst f)
      (\<lambda>FA. FA\<lparr>RemoveLen := RemoveLen FA + (Offs (getWithOffset b n) - Offs (edit_end f)),
              Text := (if fst f = b then '''' else Text FA)\<rparr>) es)"
  shows "edits_ok SM R" and "remove_view es b (getWithOffset b n) R"
proof -
  let ?e = "getWithOffset b n" and ?T = "fst f"
  define FA where "FA = (snd f)\<lparr>RemoveLen := RemoveLen (snd f) + (Offs ?e - Offs (edit_end f)),
              Text := (if fst f = b then '''' else Text (snd f))\<rparr>"
  have fid_eq: "FID ?T = FID b" using between_file [of ?T b "edit_end f"] f by simp
  have fok: "edit_ok SM f" using ok es by (simp add: edits_ok_middle)
  have len: "RemoveLen FA = Offs ?e - Offs ?T" by (simp add: FA_def edit_end_def)
  have Te: "?T < ?e" using f by order
  have T0: "range_in_file SM ?T 0" using edit_ok_range [OF fok] by (rule range_start_in_file)
  have ends: "range_in_file SM ?T (RemoveLen FA)" "getWithOffset ?T (RemoveLen FA) = ?e"
    using range_of_ends [OF T0 range_end_in_file [OF r(1)]] Te fid_eq unfolding len by simp_all
  have nz: "RemoveLen FA \<noteq> 0"
  proof
    assume "RemoveLen FA = 0"
    then have "getWithOffset ?T (RemoveLen FA) = ?T" by (simp add: getWithOffset_def)
    then show False using ends(2) Te by simp
  qed
  have parts_ok: "edits_ok SM xs" "edits_ok SM I" using ok es by (auto simp: edits_ok_append edits_ok_Cons)
  have X: "a \<in> set xs \<Longrightarrow> fst a < ?T \<and> edit_end a \<le> ?T" for a
    using ok es by (simp add: edits_ok_middle edit_before_def)
  have I: "c \<in> set I \<Longrightarrow> ?T < fst c" "c \<in> set I \<Longrightarrow> edit_end f \<le> fst c" for c
    using ok es by (simp_all add: edits_ok_middle edit_before_def)
  have "?T \<notin> fst ` set xs" using X by (metis image_iff less_irrefl)
  then have "AList.map_entry ?T
      (\<lambda>FA. FA\<lparr>RemoveLen := RemoveLen FA + (Offs ?e - Offs (edit_end f)),
              Text := (if fst f = b then '''' else Text FA)\<rparr>) es = xs @ (?T, FA) # I"
    using map_entry_middle [of ?T xs _ "snd f" I] by (simp add: es FA_def)
  then have R: "R = absorb_edits ?T ?e I (xs @ (?T, FA) # I)" by (simp add: R_def)
  note view = absorb_edits_view [OF parts_ok(1) X parts_ok(2) I(1) ends(1) nz, unfolded ends(2), folded R]
  show ok_R: "edits_ok SM R" by (rule view(1))
  have parts: "removed es k \<longleftrightarrow> removed xs k \<or> (?T \<le> k \<and> k < edit_end f) \<or> removed I k"
    "inside es k \<longleftrightarrow> inside xs k \<or> (?T < k \<and> k < edit_end f) \<or> inside I k"
    "text_at es k = text_at xs k @ (if k = ?T then Text (snd f) else '''') @ text_at I k" for k
    by (auto simp: es edit_view)
  show "remove_view es b ?e R"
  proof (rule remove_viewI)
    show "removed R k \<longleftrightarrow> removed es k \<or> b \<le> k \<and> k < ?e" for k
      using f by (auto simp: view(2) parts)
    show "inside R k \<longleftrightarrow> inside es k \<or> b < k \<and> k < ?e" for k
      using f by (auto simp: view(3) parts)
    have rep: "replaces_at es b ?e \<longleftrightarrow> ?T = b"
      using covering_entry [OF ok _ f(1,2)] es f by (auto simp: replaces_at_def list_ex_iff)
    have none: "text_at xs ?T = ''''" "text_at I ?T = ''''"
      using X I(1) by (force intro!: text_at_none)+
    show "text_at R k = (if inside R k \<or> k = b \<and> replaces_at es b ?e then '''' else text_at es k)" for k
      using view(4) [of k] text_at_inside [OF ok_R, of k] rep none
      by (auto simp: parts(3) FA_def)
  qed
qed

lemma commitRemove_ok:
  assumes ok: "edits_ok SM es" and r: "range_in_file SM b n" "n \<noteq> 0"
  shows "edits_ok SM (commitRemove b n es)" and "remove_view es b (getWithOffset b n) (commitRemove b n es)"
proof -
  let ?I = "dropWhile (\<lambda>e. \<not> b < edit_end e) es" and ?e = "getWithOffset b n"
  obtain xs where es: "es = xs @ ?I" and xs: "\<And>a. a \<in> set xs \<Longrightarrow> edit_end a \<le> b"
    by (rule remove_split [OF ok]) (assumption | rule that)+
  note fresh = remove_fresh [OF ok r es, OF xs]
  have "edits_ok SM (commitRemove b n es) \<and> remove_view es b ?e (commitRemove b n es)"
  proof (cases ?I)
    case Nil
    then show ?thesis
      using fresh r(2) unfolding commitRemove_def remove_position [OF ok] Nil Let_def by simp
  next
    case (Cons f I)
    have f: "b < edit_end f" using Cons by (metis hd_dropWhile list.distinct(1) list.sel(1))
    have mem: "f \<in> set es" by (subst es) (simp add: Cons)
    have after: "b < fst c" if "b < fst f" "c \<in> set ?I" for c
    proof -
      have "edits_ok SM ?I" using ok es by (metis edits_ok_append)
      then show ?thesis using that unfolding Cons by (auto simp: edits_ok_Cons list_all_iff edit_before_def)
    qed
    consider "b < fst f" | "fst f \<le> b" "?e \<le> edit_end f" | "fst f \<le> b" "edit_end f < ?e" by fastforce
    then show ?thesis
    proof cases
      case 1
      then show ?thesis
        using fresh [OF _ after [OF 1]] r(2) unfolding commitRemove_def remove_position [OF ok] Cons Let_def by simp
    next
      case 2
      have "\<not> b < fst f" using 2(1) by simp
      then have "commitRemove b n es = es"
        using r(2) 2(2) unfolding commitRemove_def remove_position [OF ok] Cons Let_def by simp
      then show ?thesis using remove_covered [OF ok mem 2(1) f 2(2)] ok by simp
    next
      case 3
      have "\<not> b < fst f" "\<not> ?e \<le> edit_end f" using 3 by simp_all
      then show ?thesis
        using remove_grown [OF ok r es [unfolded Cons] 3(1) f 3(2)] r(2)
        unfolding commitRemove_def remove_position [OF ok] Cons Let_def by simp
    qed
  qed
  then show "edits_ok SM (commitRemove b n es)" "remove_view es b ?e (commitRemove b n es)" by simp_all
qed

section \<open>Removals as ranges\<close>

text \<open>What a client of the edits relies on when it removes ranges: the positions that are removed and those that are shut
  grow by the range.\<close>

locale range_store =
  fixes ok :: "'s \<Rightarrow> bool" and in_range :: "'k::linorder \<Rightarrow> 'n \<Rightarrow> bool" and stop :: "'k \<Rightarrow> 'n \<Rightarrow> 'k"
    and gone :: "'s \<Rightarrow> 'k \<Rightarrow> bool" and shut :: "'s \<Rightarrow> 'k \<Rightarrow> bool" and remove :: "'k \<Rightarrow> 'n \<Rightarrow> 's \<Rightarrow> 's"
  assumes remove_ok: "ok s \<Longrightarrow> in_range k n \<Longrightarrow> ok (remove k n s)"
    and gone_remove: "ok s \<Longrightarrow> in_range k n \<Longrightarrow> gone (remove k n s) p \<longleftrightarrow> gone s p \<or> k \<le> p \<and> p < stop k n"
    and shut_remove: "ok s \<Longrightarrow> in_range k n \<Longrightarrow> shut (remove k n s) p \<longleftrightarrow> shut s p \<or> k < p \<and> p < stop k n"
begin

lemma remove_all:
  assumes "ok s" and "\<And>k n. (k, n) \<in> set rs \<Longrightarrow> in_range k n"
  shows "ok (fold (\<lambda>(k, n). remove k n) rs s)"
    and "gone (fold (\<lambda>(k, n). remove k n) rs s) p \<longleftrightarrow> gone s p \<or> (\<exists>(k, n) \<in> set rs. k \<le> p \<and> p < stop k n)"
    and "shut (fold (\<lambda>(k, n). remove k n) rs s) p \<longleftrightarrow> shut s p \<or> (\<exists>(k, n) \<in> set rs. k < p \<and> p < stop k n)"
proof -
  have "ok (fold (\<lambda>(k, n). remove k n) rs s) \<and>
      (gone (fold (\<lambda>(k, n). remove k n) rs s) p \<longleftrightarrow> gone s p \<or> (\<exists>(k, n) \<in> set rs. k \<le> p \<and> p < stop k n)) \<and>
      (shut (fold (\<lambda>(k, n). remove k n) rs s) p \<longleftrightarrow> shut s p \<or> (\<exists>(k, n) \<in> set rs. k < p \<and> p < stop k n))"
    using assms
  proof (induction rs arbitrary: s)
    case (Cons r rs)
    obtain k n where r: "r = (k, n)" by (cases r)
    have kn: "in_range k n" using Cons.prems(2) r by simp
    show ?case
      using Cons.IH [OF remove_ok [OF Cons.prems(1) kn]] Cons.prems(2)
      by (auto simp: r gone_remove [OF Cons.prems(1) kn] shut_remove [OF Cons.prems(1) kn])
  qed simp
  then show "ok (fold (\<lambda>(k, n). remove k n) rs s)"
    "gone (fold (\<lambda>(k, n). remove k n) rs s) p \<longleftrightarrow> gone s p \<or> (\<exists>(k, n) \<in> set rs. k \<le> p \<and> p < stop k n)"
    "shut (fold (\<lambda>(k, n). remove k n) rs s) p \<longleftrightarrow> shut s p \<or> (\<exists>(k, n) \<in> set rs. k < p \<and> p < stop k n)"
    by blast+
qed

text \<open>The order of two removals does not matter for what they remove.\<close>

lemma remove_commute:
  assumes "ok s" "in_range k n" "in_range l m"
  shows "gone (remove k n (remove l m s)) p \<longleftrightarrow> gone (remove l m (remove k n s)) p"
  using assms remove_ok by (auto simp: gone_remove)

end

lemma getWithOffset_0 [simp]: "getWithOffset k 0 = k"
  by (simp add: getWithOffset_def)

lemma commitRemove_0 [simp]: "commitRemove k 0 es = es"
  by (simp add: commitRemove_def)

lemma commitRemove_range:
  assumes "edits_ok SM es" and "range_in_file SM k n"
  shows "edits_ok SM (commitRemove k n es)"
    and "removed (commitRemove k n es) p \<longleftrightarrow> removed es p \<or> k \<le> p \<and> p < getWithOffset k n"
    and "inside (commitRemove k n es) p \<longleftrightarrow> inside es p \<or> k < p \<and> p < getWithOffset k n"
  using commitRemove_ok [OF assms] assms(1) by (cases "n = 0"; auto simp: remove_view_def)+

interpretation ranges: range_store "edits_ok SM" "range_in_file SM" getWithOffset removed inside commitRemove for SM
  by unfold_locales (auto simp: commitRemove_range)

end
