(* ===== verification/EditedTexts.thy ===== *)
theory EditedTexts
  imports EditedState
begin

text \<open>
  The text that the edits of a file define, and what inserting from a range, committing and applying the rewrites do to it.
\<close>

section \<open>The sources\<close>

text \<open>What the source manager and the lexer promise: the locations of different files are apart, each location of a
  file is found again, a buffer has the size of its file, the text of a range of a file is that part of its
  buffer, and expansions are nested.\<close>

definition expansions_nested :: "edit_sources \<Rightarrow> bool" where
  "expansions_nested SM \<longleftrightarrow>
     (\<exists>depth :: SourceLocation \<Rightarrow> nat. \<forall>L. isMacroBodyExpansion SM L \<longrightarrow> depth (getImmediateExpansionBegin SM L) < depth L)"

definition sources_ok :: "edit_sources \<Rightarrow> bool" where
  "sources_ok SM \<longleftrightarrow> expansions_nested SM \<and>
     (\<forall>f. valid_file SM f \<longrightarrow>
        unat (getLocForStartOfFile SM f) + unat (getFileIDSize SM f) < 2 ^ 31 \<and>
        (\<forall>n \<le> getFileIDSize SM f. getDecomposedLoc SM (getLocForStartOfFile SM f + n) = (f, n)) \<and>
        (\<forall>buf. getBufferData SM f = Some buf \<longrightarrow> length buf = unat (getFileIDSize SM f)) \<and>
        (\<forall>a b. a \<le> b \<longrightarrow> b \<le> getFileIDSize SM f \<longrightarrow>
           Lexer_getSourceText SM (getLocForStartOfFile SM f + a, getLocForStartOfFile SM f + b) =
             map_option (\<lambda>buf. take (unat b - unat a) (drop (unat a) buf)) (getBufferData SM f)))"

lemma bit_MacroIDBit: "bit MacroIDBit n \<longleftrightarrow> n = 31"
proof -
  have "bit MacroIDBit n \<longleftrightarrow> 31 \<le> n \<and> n < 32 \<and> bit (1 :: u32) (n - 31)"
    unfolding MacroIDBit_def bit_push_bit_iff by simp
  then show ?thesis by (auto simp: bit_1_iff)
qed

lemma isFileID_iff: "isFileID L \<longleftrightarrow> unat L < 2 ^ 31"
proof -
  have "isFileID L \<longleftrightarrow> \<not> bit L 31"
    by (auto simp: isFileID_def bit_eq_iff [of "L AND MacroIDBit" 0] bit_and_iff bit_MacroIDBit dest: spec [of _ 31])
  also have "\<dots> \<longleftrightarrow> unat L < 2 ^ 31"
  proof -
    have "bit L 31 \<longleftrightarrow> odd (unat L div 2 ^ 31)" 
    proof -
      have "bit (unat L) 31 \<longleftrightarrow> bit L 31" by (simp add: bit_unsigned_iff)
      then show ?thesis by (simp add: bit_iff_odd [of "unat L"])
    qed
    moreover have "unat L div 2 ^ 31 < 2" using u32_bound [of L] by (simp add: less_mult_imp_div_less)
    ultimately show ?thesis by (cases "unat L div 2 ^ 31 = 0") (auto simp: div_eq_0_iff less_2_cases_iff)
  qed
  finally show ?thesis .
qed

lemma getLocWithOffset_file:
  assumes "unat L + unat n < 2 ^ 31"
  shows "getLocWithOffset L n = Some (L + n)" and "unat (L + n) = unat L + unat n" and "isFileID (L + n)"
proof -
  show sum: "unat (L + n) = unat L + unat n" using assms by (simp add: unat_word_ariths(1))
  show f: "isFileID (L + n)" using assms by (simp add: isFileID_iff sum)
  have "isFileID L" using assms by (simp add: isFileID_iff)
  then have "L AND NOT MacroIDBit = L"
    by (auto simp: isFileID_def bit_eq_iff bit_and_iff bit_not_iff bit_MacroIDBit)
  then show "getLocWithOffset L n = Some (L + n)" using f by (simp add: getLocWithOffset_def isFileID_def)
qed

lemma file_location:
  assumes sm: "sources_ok SM" and r: "range_in_file SM k n"
  defines "L \<equiv> getLocForStartOfFile SM (FID k) + Offs k"
  shows "getLocWithOffset (getLocForStartOfFile SM (FID k)) (Offs k) = Some L" and "isFileID L"
    and "getLocWithOffset L n = Some (L + n)" and "getDecomposedLoc SM L = (FID k, Offs k)"
    and "L + n = getLocForStartOfFile SM (FID k) + (Offs k + n)"
    and "unat (L + n) = unat L + unat n"
proof -
  let ?S = "getLocForStartOfFile SM (FID k)" and ?z = "getFileIDSize SM (FID k)"
  have le: "unat (Offs k) + unat n \<le> unat ?z" and v: "valid_file SM (FID k)" using r by (simp_all add: range_in_file_def)
  have bound: "unat ?S + unat ?z < 2 ^ 31" using sm v by (simp add: sources_ok_def)
  note L = getLocWithOffset_file [of ?S "Offs k"]
  show "getLocWithOffset ?S (Offs k) = Some L" "isFileID L" using L bound le by (simp_all add: L_def)
  have "unat L = unat ?S + unat (Offs k)" using L bound le by (simp add: L_def)
  then have "unat L + unat n < 2 ^ 31" using bound le by simp
  then show "getLocWithOffset L n = Some (L + n)" "unat (L + n) = unat L + unat n" by (rule getLocWithOffset_file)+
  show "L + n = ?S + (Offs k + n)" by (simp add: L_def)
  have "Offs k \<le> ?z" using le by (simp add: word_le_nat_alt)
  then show "getDecomposedLoc SM L = (FID k, Offs k)" using sm v by (simp add: sources_ok_def L_def)
qed

lemma getSourceText_ok:
  assumes sm: "sources_ok SM" and a: "range_in_file SM a 0" and b: "range_in_file SM b 0"
    and ab: "a \<le> b" "FID a = FID b"
  shows "getSourceText SM a b = Some (map_option
    (\<lambda>buf. take (unat (Offs b) - unat (Offs a)) (drop (unat (Offs a)) buf)) (getBufferData SM (FID a)))"
proof -
  note r = range_of_ends [OF a b ab]
  note loc = file_location [OF sm r(1)]
  have le: "Offs a \<le> Offs b" using ab by (cases a; cases b) (auto simp: FileOffset_le)
  have z: "Offs b \<le> getFileIDSize SM (FID a)" and v: "valid_file SM (FID a)"
    using b ab(2) by (simp_all add: range_in_file_def word_le_nat_alt)
  have "Lexer_getSourceText SM (getLocForStartOfFile SM (FID a) + Offs a, getLocForStartOfFile SM (FID a) + Offs b) =
    map_option (\<lambda>buf. take (unat (Offs b) - unat (Offs a)) (drop (unat (Offs a)) buf)) (getBufferData SM (FID a))"
    using sm v le z by (simp add: sources_ok_def)
  then show ?thesis using loc(1,2,3,5) ab by (simp add: getSourceText_def)
qed

section \<open>The edited text\<close>

text \<open>The text of the positions from \<open>a\<close> to \<open>b\<close> of a file with the characters \<open>buf\<close>: the insertion at each position,
  then its character unless it is removed.\<close>

definition edited_text :: "FileEdits \<Rightarrow> int \<Rightarrow> string \<Rightarrow> nat \<Rightarrow> nat \<Rightarrow> string" where
  "edited_text es f buf a b =
     concat (map (\<lambda>p. text_at es (FileOffset f (of_nat p)) @
       (if removed es (FileOffset f (of_nat p)) then '''' else take 1 (drop p buf))) [a..<b])"

lemma edited_text_empty [simp]: "b \<le> a \<Longrightarrow> edited_text es f buf a b = ''''"
  by (simp add: edited_text_def)

lemma edited_text_append:
  "a \<le> m \<Longrightarrow> m \<le> b \<Longrightarrow> edited_text es f buf a b = edited_text es f buf a m @ edited_text es f buf m b"
proof -
  assume "a \<le> m" "m \<le> b"
  then have "[a..<b] = [a..<m] @ [m..<b]" by (metis le_Suc_ex upt_add_eq_append)
  then show ?thesis by (simp add: edited_text_def)
qed

lemma edited_text_cong:
  "(\<And>p. a \<le> p \<Longrightarrow> p < b \<Longrightarrow> text_at es (FileOffset f (of_nat p)) = text_at es' (FileOffset f (of_nat p)) \<and>
      removed es (FileOffset f (of_nat p)) = removed es' (FileOffset f (of_nat p))) \<Longrightarrow>
   edited_text es f buf a b = edited_text es' f buf a b"
  unfolding edited_text_def by (intro arg_cong [where f = concat] map_cong) auto

lemma concat_chars: "concat (map (\<lambda>p. take 1 (drop p buf)) [a..<b]) = take (b - a) (drop a buf)"
proof (induction b)
  case (Suc b)
  show ?case
  proof (cases "a \<le> b")
    case True
    then have "Suc b - a = (b - a) + 1" "a + (b - a) = b" by simp_all
    then show ?thesis using Suc True by (simp only: take_add) (simp add: add.commute)
  qed simp
qed simp

lemma edited_text_plain:
  assumes "\<And>p. a \<le> p \<Longrightarrow> p < b \<Longrightarrow> text_at es (FileOffset f (of_nat p)) = '''' \<and> \<not> removed es (FileOffset f (of_nat p))"
  shows "edited_text es f buf a b = take (b - a) (drop a buf)"
proof -
  have "edited_text es f buf a b = concat (map (\<lambda>p. take 1 (drop p buf)) [a..<b])"
    unfolding edited_text_def using assms by (intro arg_cong [where f = concat] map_cong) auto
  then show ?thesis by (simp only: concat_chars)
qed

lemma edited_text_gone:
  assumes "\<And>p. a \<le> p \<Longrightarrow> p < b \<Longrightarrow> text_at es (FileOffset f (of_nat p)) = '''' \<and> removed es (FileOffset f (of_nat p))"
  shows "edited_text es f buf a b = ''''"
  unfolding edited_text_def using assms by (auto simp: concat_eq_Nil_conv)

text \<open>Positions of a file, as numbers.\<close>

lemma position_order:
  assumes "FID k = f" "p < 4294967296"
  shows "FileOffset f (of_nat p) < k \<longleftrightarrow> p < unat (Offs k)" and "k < FileOffset f (of_nat p) \<longleftrightarrow> unat (Offs k) < p"
    and "k \<le> FileOffset f (of_nat p) \<longleftrightarrow> unat (Offs k) \<le> p" and "FileOffset f (of_nat p) \<le> k \<longleftrightarrow> p \<le> unat (Offs k)"
    and "FileOffset f (of_nat p) = k \<longleftrightarrow> p = unat (Offs k)"
proof -
  have p: "unat (of_nat p :: u32) = p" using assms(2) by (simp add: unat_of_nat)
  show "FileOffset f (of_nat p) < k \<longleftrightarrow> p < unat (Offs k)" "k < FileOffset f (of_nat p) \<longleftrightarrow> unat (Offs k) < p"
    "k \<le> FileOffset f (of_nat p) \<longleftrightarrow> unat (Offs k) \<le> p" "FileOffset f (of_nat p) \<le> k \<longleftrightarrow> p \<le> unat (Offs k)"
    using assms(1) by (cases k; simp add: FileOffset_less FileOffset_le word_less_nat_alt word_le_nat_alt p)+
  show "FileOffset f (of_nat p) = k \<longleftrightarrow> p = unat (Offs k)"
    using assms(1) p by (cases k) (auto simp: word_unat_eq_iff)
qed

lemma offset_order:
  assumes "FID a = FID b"
  shows "a < b \<longleftrightarrow> unat (Offs a) < unat (Offs b)" and "a \<le> b \<longleftrightarrow> unat (Offs a) \<le> unat (Offs b)"
  using assms by (cases a; cases b; simp add: FileOffset_less FileOffset_le word_less_nat_alt word_le_nat_alt)+

text \<open>One entry of the edits: its text, then what follows its range.\<close>

lemma entry_text:
  assumes "a < b" "a \<le> m" and t: "\<And>p. a \<le> p \<Longrightarrow> p < max m (Suc a) \<Longrightarrow> t p = '''' " and r: "\<And>p. a \<le> p \<Longrightarrow> p < m \<Longrightarrow> \<not> r p"
  shows "concat (map (\<lambda>p. ((if p = a then s else '''') @ t p) @ (if a \<le> p \<and> p < m \<or> r p then '''' else src p)) [a..<b]) =
    s @ concat (map (\<lambda>p. t p @ (if r p then '''' else src p)) [m..<b])" (is "?l = s @ ?r")
proof -
  let ?g = "\<lambda>p. t p @ (if a \<le> p \<and> p < m \<or> r p then '''' else src p)"
  have "[a..<b] = a # [Suc a..<b]" using assms(1) by (simp add: upt_conv_Cons)
  then have "?l = s @ concat (map ?g [a..<b])" by (auto intro!: arg_cong [where f = concat] map_cong)
  moreover have "concat (map ?g [a..<b]) = ?r"
  proof (cases "m \<le> b")
    case True
    then have "[a..<b] = [a..<m] @ [m..<b]" using assms(2) by (metis le_Suc_ex upt_add_eq_append)
    moreover have "concat (map ?g [a..<m]) = ''''" using t by (auto simp: concat_eq_Nil_conv)
    moreover have "map ?g [m..<b] = map (\<lambda>p. t p @ (if r p then '''' else src p)) [m..<b]" by auto
    ultimately show ?thesis by (simp only: map_append concat_append append_Nil)
  next
    case False
    then have "concat (map ?g [a..<b]) = ''''" using t by (auto simp: concat_eq_Nil_conv)
    then show ?thesis using False by simp
  qed
  ultimately show ?thesis by simp
qed

lemma edited_text_entry:
  assumes ok: "edits_ok SM (e # I)" and f: "FID (fst e) = f" and ab: "a = unat (Offs (fst e))" "a < b" "b < 4294967296"
  shows "edited_text (e # I) f buf a b = Text (snd e) @ edited_text I f buf (unat (Offs (edit_end e))) b"
proof -
  let ?pos = "\<lambda>p. FileOffset f (of_nat p)"
  let ?m = "unat (Offs (edit_end e))"
  have e: "edit_ok SM e" "edits_ok SM I" and I: "\<And>c. c \<in> set I \<Longrightarrow> fst e < fst c \<and> edit_end e \<le> fst c"
    using ok by (auto simp: edits_ok_Cons list_all_iff edit_before_def)
  have am: "a \<le> ?m" using edit_end_le [OF e(1)] offset_order(2) [of "fst e" "edit_end e"] ab(1) by simp
  have small: "p < 4294967296" if "p < max ?m (Suc a)" for p
    using that u32_bound [of "Offs (edit_end e)"] ab by auto
  have ord: "?pos p < fst c" if "p < max ?m (Suc a)" "c \<in> set I" for p c
  proof -
    have "?pos p < edit_end e \<or> ?pos p \<le> fst e"
      using that(1) position_order(1) [of "edit_end e" f p] position_order(4) [of "fst e" f p]
        small [OF that(1)] f ab(1) by auto
    then show ?thesis using I [OF that(2)] by auto
  qed
  have ord_end: "?pos p < edit_end c \<and> ?pos p < fst c" if "p < max ?m (Suc a)" "c \<in> set I" for p c
    using ord [OF that] edit_end_le edits_ok_in [OF e(2) that(2)] by (meson less_le_trans)
  have t: "text_at I (?pos p) = ''''" if "p < max ?m (Suc a)" for p
    by (rule text_at_none) (use ord [OF that] less_irrefl in metis)
  have r: "\<not> removed I (?pos p)" if "p < ?m" for p
    using ord [of p] that by (auto simp: removed_iff not_le)
  have "edited_text (e # I) f buf a b =
      concat (map (\<lambda>p. ((if p = a then Text (snd e) else '''') @ text_at I (?pos p)) @
        (if a \<le> p \<and> p < ?m \<or> removed I (?pos p) then '''' else take 1 (drop p buf))) [a..<b])"
    unfolding edited_text_def
  proof (intro arg_cong [where f = concat] map_cong refl)
    fix p assume "p \<in> set [a..<b]"
    then have p: "p < 4294967296" using ab by simp
    have "fst e = ?pos p \<longleftrightarrow> p = a" using position_order(5) [OF f p] ab(1) by auto
    then show "text_at (e # I) (?pos p) @ (if removed (e # I) (?pos p) then '''' else take 1 (drop p buf)) =
      ((if p = a then Text (snd e) else '''') @ text_at I (?pos p)) @
        (if a \<le> p \<and> p < ?m \<or> removed I (?pos p) then '''' else take 1 (drop p buf))"
      using position_order(3) [OF f p] position_order(1) [of "edit_end e" f, OF _ p] f ab(1) by (simp add: edit_view)
  qed
  also have "\<dots> = Text (snd e) @ edited_text I f buf ?m b"
    unfolding edited_text_def by (rule entry_text [OF ab(2) am]) (use t r in auto)
  finally show ?thesis .
qed

section \<open>Text of a range\<close>

text \<open>A text that was read, if there is a buffer to read from.\<close>

definition reads :: "edit_sources \<Rightarrow> int \<Rightarrow> string option option \<Rightarrow> (string \<Rightarrow> string) \<Rightarrow> bool" where
  "reads SM f r t \<longleftrightarrow> (\<exists>x. r = Some x \<and> (\<forall>buf. getBufferData SM f = Some buf \<longrightarrow> x = Some (t buf)))"

lemma text_before_edits:
  assumes ok: "edits_ok SM I" and I: "\<And>c. c \<in> set I \<Longrightarrow> e \<le> fst c" and f: "FID e = f"
    and b: "b \<le> unat (Offs e)"
  shows "edited_text I f buf a b = take (b - a) (drop a buf)"
proof (rule edited_text_plain)
  fix p assume p: "a \<le> p" "p < b"
  then have "p < 4294967296" using b u32_bound [of "Offs e"] by simp
  then have lt: "FileOffset f (of_nat p) < e" using position_order(1) [OF f, of p] p b by simp
  have after: "FileOffset f (of_nat p) < fst c" if "c \<in> set I" for c using lt I [OF that] by order
  then have "text_at I (FileOffset f (of_nat p)) = ''''"
    by (intro text_at_none) (metis less_irrefl)
  moreover have "\<not> removed I (FileOffset f (of_nat p))" using after by (auto simp: removed_iff not_le)
  ultimately show "text_at I (FileOffset f (of_nat p)) = '''' \<and> \<not> removed I (FileOffset f (of_nat p))" ..
qed

lemma getSourceText_reads:
  assumes sm: "sources_ok SM" and a: "range_in_file SM a 0" and b: "range_in_file SM b 0"
    and ab: "a \<le> b" "FID a = f" "FID b = f"
    and ok: "edits_ok SM I" and I: "\<And>c. c \<in> set I \<Longrightarrow> b \<le> fst c"
  shows "reads SM f (getSourceText SM a b) (\<lambda>buf. edited_text I f buf (unat (Offs a)) (unat (Offs b)))"
proof -
  have "FID a = FID b" using ab by simp
  note get = getSourceText_ok [OF sm a b ab(1) this]
  have "edited_text I f buf (unat (Offs a)) (unat (Offs b)) =
      take (unat (Offs b) - unat (Offs a)) (drop (unat (Offs a)) buf)" for buf
    using text_before_edits [OF ok I ab(3)] by simp
  then show ?thesis using get ab by (auto simp: reads_def)
qed

lemma range_tail_reads:
  assumes sm: "sources_ok SM" and b: "range_in_file SM b 0" and e: "range_in_file SM e 0"
    and be: "FID b = f" "FID e = f"
    and ok: "edits_ok SM I" and I: "\<And>c. c \<in> set I \<Longrightarrow> e \<le> fst c"
  shows "reads SM f (range_tail SM e (Str, b)) (\<lambda>buf. Str @ edited_text I f buf (unat (Offs b)) (unat (Offs e)))"
proof (cases "b < e")
  case True
  obtain z where "getSourceText SM b e = Some z"
    "\<And>buf. getBufferData SM f = Some buf \<Longrightarrow> z = Some (edited_text I f buf (unat (Offs b)) (unat (Offs e)))"
    using getSourceText_reads [OF sm b e less_imp_le [OF True] be ok I] by (auto simp: reads_def)
  then show ?thesis using True by (simp add: range_tail_def reads_def)
next
  case False
  then have "unat (Offs e) \<le> unat (Offs b)" using offset_order(1) [of b e] be by simp
  then show ?thesis using False by (simp add: range_tail_def reads_def)
qed

lemma range_text_reads:
  assumes sm: "sources_ok SM" and e: "range_in_file SM e 0" "FID e = f"
    and "edits_ok SM I" "range_in_file SM b 0" "FID b = f" "\<And>c. c \<in> set I \<Longrightarrow> b \<le> fst c"
  shows "reads SM f (case range_text SM e Str b I of None \<Rightarrow> None | Some None \<Rightarrow> Some None | Some (Some r) \<Rightarrow> range_tail SM e r)
    (\<lambda>buf. Str @ edited_text I f buf (unat (Offs b)) (unat (Offs e)))"
  using assms(4-7)
proof (induction I arbitrary: Str b)
  case Nil
  show ?case using range_tail_reads [OF sm Nil(2) e(1) Nil(3) e(2), of "[]"] by simp
next
  case (Cons c I)
  have c: "edit_ok SM c" and I: "edits_ok SM I" and cI: "\<And>d. d \<in> set I \<Longrightarrow> edit_before c d"
    using Cons.prems(1) by (auto simp: edits_ok_Cons list_all_iff)
  have bc: "b \<le> fst c" using Cons.prems(4) by simp
  show ?case
  proof (cases "fst c < e")
    case False
    have "e \<le> fst d" if "d \<in> set (c # I)" for d
      using that False cI [of d] by (auto simp: edit_before_def)
    then show ?thesis
      using range_tail_reads [OF sm Cons.prems(2) e(1) Cons.prems(3) e(2) Cons.prems(1)] False by simp
  next
    case True
    have f: "FID (fst c) = f" using between_file [of b "fst c" e] bc True Cons.prems(3) e(2) by simp
    have c0: "range_in_file SM (fst c) 0" using edit_ok_range [OF c] by (rule range_start_in_file)
    have IH: "reads SM f (case range_text SM e S (edit_end c) I of None \<Rightarrow> None | Some None \<Rightarrow> Some None | Some (Some r) \<Rightarrow> range_tail SM e r)
        (\<lambda>buf. S @ edited_text I f buf (unat (Offs (edit_end c))) (unat (Offs e)))" for S
      using Cons.IH [OF I edit_end_in_file [OF c]] f cI by (simp add: edit_before_def)
    have ords: "unat (Offs b) \<le> unat (Offs (fst c))" "unat (Offs (fst c)) < unat (Offs e)"
      using offset_order(2) [of b "fst c"] offset_order(1) [of "fst c" e] bc True f e(2) Cons.prems(3) by simp_all
    have split: "edited_text (c # I) f buf (unat (Offs b)) (unat (Offs e)) =
        edited_text (c # I) f buf (unat (Offs b)) (unat (Offs (fst c))) @ Text (snd c) @
        edited_text I f buf (unat (Offs (edit_end c))) (unat (Offs e))" for buf
      using edited_text_append [OF ords(1) less_imp_le [OF ords(2)]]
        edited_text_entry [OF Cons.prems(1) f refl ords(2) u32_bound] by simp
    have cI': "fst c \<le> fst d" if "d \<in> set (c # I)" for d
      using that cI [of d] by (auto simp: edit_before_def)
    have head: "reads SM f (getSourceText SM b (fst c)) (\<lambda>buf. edited_text (c # I) f buf (unat (Offs b)) (unat (Offs (fst c))))"
      by (rule getSourceText_reads [OF sm Cons.prems(2) c0 bc Cons.prems(3) f Cons.prems(1) cI'])
    show ?thesis
    proof (cases "b < fst c")
      case True
      obtain z where z: "getSourceText SM b (fst c) = Some z"
        "\<And>buf. getBufferData SM f = Some buf \<Longrightarrow> z = Some (edited_text (c # I) f buf (unat (Offs b)) (unat (Offs (fst c))))"
        using head by (auto simp: reads_def)
      show ?thesis
      proof (cases z)
        case None
        then show ?thesis
          using z True \<open>fst c < e\<close> by (cases "getBufferData SM f") (auto simp: reads_def)
      next
        case (Some t)
        then show ?thesis
          using z True \<open>fst c < e\<close> IH [of "Str @ t @ Text (snd c)"] by (auto simp: reads_def split)
      qed
    next
      case False
      then have "unat (Offs b) = unat (Offs (fst c))" using bc by auto
      then show ?thesis using False IH [of "Str @ Text (snd c)"] \<open>fst c < e\<close>
          edited_text_entry [OF Cons.prems(1) f refl ords(2) u32_bound] by (simp add: reads_def)
    qed
  qed
qed

lemma range_start_dropWhile:
  "range_start b es = (case dropWhile (\<lambda>e. b \<noteq> fst e \<and> \<not> b < edit_end e) es of
     [] \<Rightarrow> (b, [])
   | e # I \<Rightarrow> if fst e < b then (edit_end e, I) else (b, e # I))"
  by (induction es) auto

lemma range_start_ok:
  assumes ok: "edits_ok SM es" and b: "range_in_file SM b 0"
    and start: "range_start b (drop (edits_upper_bound b es - 1) es) = (b', I)"
  shows "edits_ok SM I" "range_in_file SM b' 0" "FID b' = FID b" "\<And>c. c \<in> set I \<Longrightarrow> b' \<le> fst c" "b \<le> b'"
    and "\<And>k. b \<le> k \<Longrightarrow> k < b' \<Longrightarrow> text_at es k = '''' \<and> removed es k"
    and "\<And>k. b' \<le> k \<Longrightarrow> text_at es k = text_at I k \<and> removed es k = removed I k"
proof -
  let ?P = "\<lambda>e. b \<noteq> fst e \<and> \<not> b < edit_end e" and ?I = "dropWhile (\<lambda>e. b \<noteq> fst e \<and> \<not> b < edit_end e) es"
  have pre: "?P e" if e: "e \<in> set (take (edits_upper_bound b es - 1) es)" for e
  proof -
    obtain A B where es: "es = A @ B" and n: "length A = edits_upper_bound b es" and A: "\<And>e. e \<in> set A \<Longrightarrow> fst e \<le> b"
      using edits_upper_bound_split [OF ok] by blast
    show ?thesis
    proof (cases A rule: rev_cases)
      case Nil
      then show ?thesis using e n by simp
    next
      case (snoc A' a)
      then have "e \<in> set A'" using e n es by simp
      then have "edit_before e a" using ok unfolding es snoc by (auto simp: edits_ok_append list_all_iff)
      then show ?thesis using A [of a] snoc by (auto simp: edit_before_def)
    qed
  qed
  then have start: "(case ?I of [] \<Rightarrow> (b, []) | e # I \<Rightarrow> if fst e < b then (edit_end e, I) else (b, e # I)) = (b', I)"
    using start unfolding range_start_dropWhile by (subst (asm) dropWhile_dropped) auto
  define xs where "xs = takeWhile ?P es"
  have es: "es = xs @ ?I" by (simp add: xs_def)
  have xs: "edit_end a \<le> b \<and> fst a < b" if "a \<in> set xs" for a
  proof -
    have "b \<noteq> fst a" "edit_end a \<le> b" using set_takeWhileD [of a ?P es] that by (auto simp: xs_def)
    moreover have "fst a \<le> edit_end a" using edit_end_le edits_ok_in [OF ok] es that by (metis Un_iff set_append)
    ultimately show ?thesis by auto
  qed
  have gone: "text_at xs k = ''''" "\<not> removed xs k" if "b \<le> k" for k
  proof -
    have "fst a \<noteq> k \<and> \<not> k < edit_end a" if "a \<in> set xs" for a using xs [OF that] \<open>b \<le> k\<close> by auto
    then show "text_at xs k = ''''" "\<not> removed xs k"
      using text_at_none [of xs k] by (auto simp: removed_iff)
  qed
  have "edits_ok SM (xs @ ?I)" using ok by (simp add: xs_def)
  then have okI: "edits_ok SM ?I" by (simp add: edits_ok_append)
  have at: "text_at es k = text_at ?I k \<and> removed es k = removed ?I k" if "b \<le> k" for k
  proof -
    have "text_at es k = text_at xs k @ text_at ?I k" by (subst es) (rule text_at_view(3))
    moreover have "removed es k \<longleftrightarrow> removed xs k \<or> removed ?I k" by (subst es) (rule removed_view(3))
    ultimately show ?thesis using gone [OF that] by simp
  qed
  have "edits_ok SM I \<and> range_in_file SM b' 0 \<and> FID b' = FID b \<and> (\<forall>c \<in> set I. b' \<le> fst c) \<and> b \<le> b' \<and>
    (\<forall>k. b \<le> k \<longrightarrow> k < b' \<longrightarrow> text_at es k = [] \<and> removed es k) \<and>
    (\<forall>k. b' \<le> k \<longrightarrow> text_at es k = text_at I k \<and> removed es k = removed I k)"
  proof (cases ?I)
    case Nil
    show ?thesis using start b at unfolding Nil by auto
  next
    case (Cons e J)
    have e: "edit_ok SM e" "edits_ok SM J" and J: "\<And>c. c \<in> set J \<Longrightarrow> fst e < fst c \<and> edit_end e \<le> fst c"
      using okI unfolding Cons by (auto simp: edits_ok_Cons list_all_iff edit_before_def)
    have nP: "\<not> ?P e" using hd_dropWhile [of ?P es] unfolding Cons by simp
    show ?thesis
    proof (cases "fst e < b")
      case True
      then have b': "b' = edit_end e" "I = J" and be: "b < edit_end e" using start nP unfolding Cons by auto
      have "FID b = FID (fst e)" using between_file [of "fst e" b "edit_end e"] True be by simp
      moreover have "text_at es k = [] \<and> removed es k" if "b \<le> k" "k < edit_end e" for k
      proof -
        have "e \<in> set es" by (subst es) (simp add: Cons)
        moreover have "fst e < k" using True that(1) by order
        ultimately have "inside es k" "removed es k" using that(2) unfolding inside_iff removed_iff by (blast dest: less_imp_le)+
        then show ?thesis using text_at_inside [OF ok] by simp
      qed
      moreover have "text_at es k = text_at J k \<and> removed es k = removed J k" if "edit_end e \<le> k" for k
        using at [of k] that be True by (auto simp: Cons edit_view)
      ultimately show ?thesis using b' be e(2) edit_end_in_file [OF e(1)] J by auto
    next
      case False
      then have eqs: "b' = b" "I = ?I" using start unfolding Cons by auto
      have after: "b \<le> fst c" if "c \<in> set ?I" for c using that False J [of c] unfolding Cons by auto
      have "text_at es k = text_at I k \<and> removed es k = removed I k" if "b \<le> k" for k
        unfolding eqs(2) by (rule at [OF that])
      then show ?thesis using b okI after unfolding eqs(1) eqs(2) [symmetric] by auto
    qed
  qed
  then show "edits_ok SM I" "range_in_file SM b' 0" "FID b' = FID b" "\<And>c. c \<in> set I \<Longrightarrow> b' \<le> fst c" "b \<le> b'"
    "\<And>k. b \<le> k \<Longrightarrow> k < b' \<Longrightarrow> text_at es k = [] \<and> removed es k"
    "\<And>k. b' \<le> k \<Longrightarrow> text_at es k = text_at I k \<and> removed es k = removed I k"
    by blast+
qed

lemma collect_range_reads:
  assumes sm: "sources_ok SM" and ok: "edits_ok SM es" and r: "range_in_file SM b n"
  shows "reads SM (FID b) (collect_range SM es b n)
    (\<lambda>buf. edited_text es (FID b) buf (unat (Offs b)) (unat (Offs b + n)))"
proof -
  let ?e = "getWithOffset b n" and ?f = "FID b"
  obtain b' I where start: "range_start b (drop (edits_upper_bound b es - 1) es) = (b', I)" by fastforce
  note I = range_start_ok [OF ok range_start_in_file [OF r] start]
  have e: "range_in_file SM ?e 0" "FID ?e = ?f" using range_end_in_file [OF r] by simp_all
  have "edited_text es ?f buf (unat (Offs b)) (unat (Offs ?e)) =
      edited_text I ?f buf (unat (Offs b')) (unat (Offs ?e))" for buf
  proof -
    let ?pos = "\<lambda>p. FileOffset ?f (of_nat p)"
    have bb': "unat (Offs b) \<le> unat (Offs b')" using offset_order(2) [of b b'] I(3,5) by simp
    have small: "p < 4294967296" if "p < unat (Offs ?e) \<or> p < unat (Offs b')" for p
      using that u32_bound [of "Offs ?e"] u32_bound [of "Offs b'"] by auto
    have gone: "text_at es (?pos p) = [] \<and> removed es (?pos p)" if "unat (Offs b) \<le> p" "p < unat (Offs b')" for p
      using I(6) position_order(1,3) [OF _ small, of _ ?f p] I(3) that by blast
    have rest: "text_at es (?pos p) = text_at I (?pos p) \<and> removed es (?pos p) = removed I (?pos p)"
      if "unat (Offs b') \<le> p" "p < unat (Offs ?e)" for p
      using I(7) position_order(3) [OF I(3) small, of p] that by blast
    show ?thesis
    proof (cases "unat (Offs b') \<le> unat (Offs ?e)")
      case True
      have "edited_text es ?f buf (unat (Offs b)) (unat (Offs b')) = []" by (rule edited_text_gone) (use gone in auto)
      moreover have "edited_text es ?f buf (unat (Offs b')) (unat (Offs ?e)) =
          edited_text I ?f buf (unat (Offs b')) (unat (Offs ?e))" by (rule edited_text_cong) (use rest in auto)
      ultimately show ?thesis using edited_text_append [OF bb' True, of es ?f buf] by simp
    next
      case False
      have "edited_text es ?f buf (unat (Offs b)) (unat (Offs ?e)) = []"
        by (rule edited_text_gone) (use gone False in auto)
      then show ?thesis using False by simp
    qed
  qed
  then show ?thesis
    using range_text_reads [OF sm e I(1,2,3,4), of "[]"] by (simp add: collect_range_def start [unfolded One_nat_def] Let_def)
qed

section \<open>Commits\<close>

lemma topExpansion_returns:
  assumes "expansions_nested SM"
  shows "\<exists>L'. topExpansion SM L = Some L'"
proof -
  obtain depth :: "SourceLocation \<Rightarrow> nat"
    where depth: "\<And>L. isMacroBodyExpansion SM L \<Longrightarrow> depth (getImmediateExpansionBegin SM L) < depth L"
    using assms unfolding expansions_nested_def by blast
  show ?thesis
  proof (induction "depth L" arbitrary: L rule: less_induct)
    case less
    show ?case
    proof (cases "isMacroBodyExpansion SM L")
      case True
      then show ?thesis using less [OF depth [OF True]] by (simp add: topExpansion.simps [of SM L])
    qed (simp add: topExpansion.simps [of SM L])
  qed
qed

lemma deconstructMacroArgLoc_returns:
  "expansions_nested SM \<Longrightarrow> isMacroArgExpansion SM L \<Longrightarrow> \<exists>r. deconstructMacroArgLoc SM L = Some r"
  using topExpansion_returns [of SM "getImmediateExpansionBegin SM (getImmediateExpansionBegin SM L)"]
  by (auto simp: deconstructMacroArgLoc_def Let_def)

text \<open>A position inside of a removed range is refused; if no use of a macro argument stands against it, any other is accepted.\<close>

lemma canInsertInOffset_returns:
  assumes nest: "expansions_nested SM" and ok: "edits_ok SM (Edits ES)"
  shows "\<exists>r. canInsertInOffset SM ES L k = Some r \<and> (inside (Edits ES) k \<longrightarrow> \<not> r) \<and>
    (\<not> isMacroArgExpansion SM L \<longrightarrow> r = (\<not> inside (Edits ES) k))"
  using getActionForOffset_inside [OF ok, of k] deconstructMacroArgLoc_returns [OF nest, of L]
  by (auto simp: canInsertInOffset_def split: option.splits prod.splits)

definition commit_edit_ok :: "edit_sources \<Rightarrow> commit_edit \<Rightarrow> bool" where
  "commit_edit_ok SM a \<longleftrightarrow> (case a of
     Act_Insert L k txt before \<Rightarrow> range_in_file SM k 0
   | Act_InsertFromRange L k r n before \<Rightarrow> range_in_file SM k 0 \<and> range_in_file SM r n
   | Act_Remove L k n \<Rightarrow> range_in_file SM k n)"

text \<open>What an insertion does.\<close>

definition inserted :: "FileOffset \<Rightarrow> string \<Rightarrow> bool \<Rightarrow> edited_source \<Rightarrow> edited_source \<Rightarrow> bool" where
  "inserted k txt before ES ES' \<longleftrightarrow>
     removed (Edits ES') = removed (Edits ES) \<and> inside (Edits ES') = inside (Edits ES) \<and>
     text_at (Edits ES') = insert_at_view k txt before (Edits ES)"

lemma inserted_empty: "inserted k '''' before ES ES"
  by (auto simp: inserted_def insert_at_view_def)

lemma note_use_Edits [simp]: "Edits (note_use u ES) = Edits ES"
  by (simp add: note_use_def)

lemma commitInsert_returns:
  assumes nest: "expansions_nested SM" and ok: "edits_ok SM (Edits ES)" and k: "range_in_file SM k 0"
  obtains r ES' where "commitInsert SM L k txt before ES = Some (r, ES')" "edits_ok SM (Edits ES')"
    "canInsertInOffset SM ES L k = Some r" "if r then inserted k txt before ES ES' else ES' = ES"
proof -
  obtain r where r: "canInsertInOffset SM ES L k = Some r" "inside (Edits ES) k \<Longrightarrow> \<not> r"
    using canInsertInOffset_returns [OF nest ok, of L k] by blast
  show ?thesis
  proof (cases "r \<and> txt \<noteq> ''''")
    case False
    then have "commitInsert SM L k txt before ES = Some (r, ES)"
      using r(1) by (auto simp: commitInsert_def split: bool.splits)
    moreover have "if r then inserted k txt before ES ES else ES = ES" using False inserted_empty by auto
    ultimately show ?thesis using that [of r ES] ok r(1) by simp
  next
    case True
    obtain U where U: "commitInsert SM L k txt before ES = Some (True, insert_at_offset k txt before U)" "Edits U = Edits ES"
    proof (cases "isMacroArgExpansion SM L")
      case arg: True
      then obtain u where "deconstructMacroArgLoc SM L = Some u" using deconstructMacroArgLoc_returns [OF nest] by blast
      then show ?thesis using that [of "note_use u ES"] arg True r(1) by (simp add: commitInsert_def)
    next
      case False
      then show ?thesis using that [of ES] True r(1) by (simp add: commitInsert_def)
    qed
    note view = insert_at_offset_ok [of SM U k "txt" before, unfolded U(2), OF ok k _ conjunct2 [OF True]]
    have "\<not> inside (Edits ES) k" using True r(2) by blast
    note view = view [OF this]
    have "inserted k txt before ES (insert_at_offset k txt before U)" using view by (simp add: inserted_def insert_at_view_def)
    then show ?thesis using that [OF U(1) view(1)] True r(1) by simp
  qed
qed

lemma commitInsertFromRange_returns:
  assumes sm: "sources_ok SM" and ok: "edits_ok SM (Edits ES)" and k: "range_in_file SM k 0" and rng: "range_in_file SM r n"
  obtains b ES' where "commitInsertFromRange SM L k r n before ES = Some (b, ES')" "edits_ok SM (Edits ES')"
    "b \<or> ES' = ES"
proof -
  have nest: "expansions_nested SM" using sm by (simp add: sources_ok_def)
  obtain x where x: "collect_range SM (Edits ES) r n = Some x"
    using collect_range_reads [OF sm ok rng] by (auto simp: reads_def)
  consider "n = 0" | "n \<noteq> 0" "x = None" | t where "n \<noteq> 0" "x = Some t" by fastforce
  then show ?thesis
  proof cases
    case 1
    then show ?thesis using that [of True ES] ok by (simp add: commitInsertFromRange_def)
  next
    case 2
    then show ?thesis using that [of False ES] ok x by (simp add: commitInsertFromRange_def)
  next
    case 3
    obtain b ES' where c: "commitInsert SM L k t before ES = Some (b, ES')" "edits_ok SM (Edits ES')"
      "if b then inserted k t before ES ES' else ES' = ES"
      by (rule commitInsert_returns [OF nest ok k]) (assumption | rule that)+
    have "b \<or> ES' = ES" using c(3) by (auto split: if_splits)
    then show ?thesis using that [of b ES'] c 3 x by (simp add: commitInsertFromRange_def)
  qed
qed

lemma commit_action_returns:
  assumes sm: "sources_ok SM" and ok: "edits_ok SM (Edits ES)" and a: "commit_edit_ok SM a"
  obtains ES' where "commit_action SM a ES = Some ES'" "edits_ok SM (Edits ES')"
proof (cases a)
  case (Act_Insert L k t before)
  have nest: "expansions_nested SM" using sm by (simp add: sources_ok_def)
  have k: "range_in_file SM k 0" using a Act_Insert by (simp add: commit_edit_ok_def)
  show ?thesis
    by (rule commitInsert_returns [OF nest ok k, of L t before]) (use that Act_Insert in \<open>simp add: commit_action_def\<close>)
next
  case (Act_InsertFromRange L k r n before)
  have k: "range_in_file SM k 0" "range_in_file SM r n" using a Act_InsertFromRange by (simp_all add: commit_edit_ok_def)
  show ?thesis
    by (rule commitInsertFromRange_returns [OF sm ok k, of L before])
      (use that Act_InsertFromRange in \<open>simp add: commit_action_def\<close>)
next
  case (Act_Remove L k n)
  then have "range_in_file SM k n" using a by (simp add: commit_edit_ok_def)
  then have "edits_ok SM (commitRemove k n (Edits ES))" by (rule ranges.remove_ok [OF ok])
  then show ?thesis using that [of "ES\<lparr>Edits := commitRemove k n (Edits ES)\<rparr>"] Act_Remove by (simp add: commit_action_def)
qed

lemma commit_actions_returns:
  "sources_ok SM \<Longrightarrow> edits_ok SM (Edits ES) \<Longrightarrow> list_all (commit_edit_ok SM) as \<Longrightarrow>
   \<exists>ES'. commit_actions SM as ES = Some ES' \<and> edits_ok SM (Edits ES')"
proof (induction "as" arbitrary: ES)
  case (Cons a "as")
  have a: "commit_edit_ok SM a" using Cons.prems by simp
  show ?case
    by (rule commit_action_returns [OF Cons.prems(1,2) a]) (use Cons in simp)
qed simp

end
