(* ===== verification/EditedRewrites.thy ===== *)
theory EditedRewrites
  imports EditedTexts
begin

text \<open>
  Applying the edits: the calls of the receiver, what they do to a file, and the correctness of commits and
  rewrites.
\<close>

section \<open>The receiver\<close>

text \<open>A receiver that carries the calls out on the text of a file; the calls come in the order of the text, so the last
  one is carried out first.\<close>

definition splice_text :: "nat \<Rightarrow> nat \<Rightarrow> string \<Rightarrow> string \<Rightarrow> string" where
  "splice_text a n txt buf = take a buf @ txt @ drop (a + n) buf"

definition carry_out :: "edit_sources \<Rightarrow> int \<Rightarrow> receiver_call \<Rightarrow> string \<Rightarrow> string" where
  "carry_out SM f c buf =
     (let at = (\<lambda>L E txt. let (fid, a) = getDecomposedLoc SM L in
         if fid = f then splice_text (unat a) (unat (E - L)) txt buf else buf) in
      case c of
        call_insert L txt \<Rightarrow> at L L txt
      | call_replace L E txt \<Rightarrow> at L E txt
      | call_remove L E \<Rightarrow> at L E '''')"

definition rewritten :: "edit_sources \<Rightarrow> int \<Rightarrow> receiver_call list \<Rightarrow> string \<Rightarrow> string" where
  "rewritten SM f calls buf = foldr (carry_out SM f) calls buf"

lemma carry_out_at:
  assumes "getDecomposedLoc SM L = (fid, a)"
  shows "carry_out SM f (call_insert L txt) buf = (if fid = f then splice_text (unat a) 0 txt buf else buf)"
    and "carry_out SM f (call_replace L (L + n) txt) buf = (if fid = f then splice_text (unat a) (unat n) txt buf else buf)"
    and "carry_out SM f (call_remove L (L + n)) buf = (if fid = f then splice_text (unat a) (unat n) '''' buf else buf)"
  using assms by (simp_all add: carry_out_def Let_def)

section \<open>Adjusted removals\<close>

text \<open>The length and the text of an adjusted removal.\<close>

definition adjusted :: "edit_sources \<Rightarrow> FileOffset \<Rightarrow> u32 \<Rightarrow> u32 \<Rightarrow> string \<Rightarrow> bool" where
  "adjusted SM k n n' txt \<longleftrightarrow> n' = n \<or> n' = n + 1 \<and> txt = '''' \<and> range_in_file SM k (n + 1)"

lemma one_more_in_range:
  assumes "range_in_file SM k n" "unat (Offs k) + unat n < unat (getFileIDSize SM (FID k))"
  shows "range_in_file SM k (n + 1)" and "n + 1 \<noteq> 0"
proof -
  have sum: "unat (n + 1) = unat n + 1"
    using assms(2) u32_bound [of "getFileIDSize SM (FID k)"] by (simp add: unat_word_ariths(1))
  then show "range_in_file SM k (n + 1)" using assms by (simp add: range_in_file_def)
  show "n + 1 \<noteq> 0"
  proof
    assume "n + 1 = 0"
    then show False using sum by simp
  qed
qed

lemma adjustRemoval_returns:
  assumes sm: "sources_ok SM" and r: "range_in_file SM k n" and n: "n \<noteq> 0"
  obtains n' t where "adjustRemoval SM L k n '''' = Some (n', t)" "adjusted SM k n n' t" "n' \<noteq> 0"
proof (cases "Lexer_GetBeginningOfToken SM L \<noteq> L \<or> getBufferData SM (FID k) = None")
  case True
  then show ?thesis using that [of n "''''"] n by (auto simp: adjustRemoval_def adjusted_def)
next
  case False
  then obtain buf where buf: "getBufferData SM (FID k) = Some buf" by auto
  have len: "length buf = unat (getFileIDSize SM (FID k))"
    using sm r buf by (simp add: sources_ok_def range_in_file_def)
  have e: "unat (Offs k + n) = unat (Offs k) + unat n" by (rule unat_in_range [OF r])
  have le: "unat (Offs k) + unat n \<le> length buf" "0 < unat n"
    using r n by (simp_all add: range_in_file_def len unat_gt_0)
  show ?thesis
  proof (cases "unat (Offs k + n) = length buf")
    case True
    then show ?thesis using that [of n "''''"] n False buf by (auto simp: adjustRemoval_def adjusted_def)
  next
    case inner: False
    then have lt: "unat (Offs k) + unat n < length buf" using le e by simp
    note r1 = one_more_in_range [OF r lt [unfolded len]]
    have "\<exists>n' t. adjustRemoval SM L k n '''' = Some (n', t) \<and> (n' = n \<or> n' = n + 1 \<and> t = '''')"
      using False buf n inner lt e by (auto simp: adjustRemoval_def Let_def)
    then show ?thesis using that r1 n by (auto simp: adjusted_def)
  qed
qed

lemma receive_returns:
  assumes sm: "sources_ok SM" and r: "range_in_file SM k n" and ne: "t \<noteq> '''' \<or> n \<noteq> 0"
  shows "\<exists>c. receive (getLocForStartOfFile SM (FID k) + Offs k) t n = Some c"
  using file_location(3) [OF sm r] ne by (simp add: receive_def)

lemma applyRewrite_returns:
  assumes sm: "sources_ok SM" and e: "edit_ok SM (k, FA)"
  shows "\<exists>c. applyRewrite SM adj (Text FA) k (RemoveLen FA) = Some c"
proof -
  have r: "range_in_file SM k (RemoveLen FA)" and ne: "Text FA \<noteq> '''' \<or> RemoveLen FA \<noteq> 0"
    using e by (simp_all add: edit_ok_def)
  let ?L = "getLocForStartOfFile SM (FID k) + Offs k"
  note loc = file_location [OF sm r]
  have v: "FID k \<noteq> 0" using r by (simp add: range_in_file_def valid_file_def)
  show ?thesis
  proof (cases "Text FA = '''' \<and> adj")
    case True
    then obtain n' t where t: "adjustRemoval SM ?L k (RemoveLen FA) '''' = Some (n', t)"
      "adjusted SM k (RemoveLen FA) n' t" "n' \<noteq> 0"
      using adjustRemoval_returns [OF sm r] ne by blast
    have "range_in_file SM k n'" using t(2) r by (auto simp: adjusted_def)
    then show ?thesis
      using receive_returns [OF sm, of k n' t] t True loc(1,2) v by (simp add: applyRewrite_def)
  next
    case False
    then show ?thesis using receive_returns [OF sm r ne] loc(1,2) v by (auto simp: applyRewrite_def)
  qed
qed

lemma applyRewrite_plain:
  assumes sm: "sources_ok SM" and e: "edit_ok SM (k, FA)"
  obtains c where "applyRewrite SM False (Text FA) k (RemoveLen FA) = Some c"
    "\<And>f buf. carry_out SM f c buf =
       (if FID k = f then splice_text (unat (Offs k)) (unat (RemoveLen FA)) (Text FA) buf else buf)"
proof -
  have r: "range_in_file SM k (RemoveLen FA)" and ne: "Text FA \<noteq> '''' \<or> RemoveLen FA \<noteq> 0"
    using e by (simp_all add: edit_ok_def)
  define L where "L = getLocForStartOfFile SM (FID k) + Offs k"
  note loc = file_location [OF sm r, folded L_def]
  have v: "FID k \<noteq> 0" using r by (simp add: range_in_file_def valid_file_def)
  have app: "applyRewrite SM False (Text FA) k (RemoveLen FA) = receive L (Text FA) (RemoveLen FA)"
    using loc(1,2) v by (simp add: applyRewrite_def)
  show ?thesis
  proof (cases "Text FA = ''''")
    case True
    show ?thesis
      by (rule that [of "call_remove L (L + RemoveLen FA)"])
        (use True ne app loc(3) carry_out_at [OF loc(4)] in \<open>simp_all add: receive_def\<close>)
  next
    case False
    show ?thesis
      by (rule that [of "if RemoveLen FA = 0 then call_insert L (Text FA)
            else call_replace L (L + RemoveLen FA) (Text FA)"])
        (use False loc(3) carry_out_at [OF loc(4)] in \<open>simp_all add: app receive_def\<close>)
  qed
qed

section \<open>The text of a file under its edits\<close>

definition file_text :: "FileEdits \<Rightarrow> int \<Rightarrow> string \<Rightarrow> string" where
  "file_text es f buf = edited_text es f buf 0 (Suc (length buf))"

lemma file_text_Nil: "file_text [] f buf = buf"
proof -
  have "edited_text [] f buf 0 (Suc (length buf)) = take (Suc (length buf) - 0) (drop 0 buf)"
    by (rule edited_text_plain) (simp add: edit_view)
  then show ?thesis by (simp add: file_text_def)
qed

lemma file_text_other:
  assumes "FID (fst e) \<noteq> f"
  shows "file_text (e # es) f buf = file_text es f buf"
proof -
  let ?k = "\<lambda>p. FileOffset f (of_nat p)"
  have "fst e \<noteq> ?k p" "\<not> (fst e \<le> ?k p \<and> ?k p < edit_end e)" for p
    using assms between_file [of "fst e" "?k p" "edit_end e"] less_imp_le [of "?k p" "edit_end e"] by auto
  then have "text_at (e # es) (?k p) = text_at es (?k p) \<and> removed (e # es) (?k p) = removed es (?k p)" for p
    unfolding edit_view by auto
  then show ?thesis unfolding file_text_def by (intro edited_text_cong)
qed

text \<open>The first entry and those after it, in the file of the entry.\<close>

lemma file_text_entry:
  assumes ok: "edits_ok SM (e # es)" and f: "FID (fst e) = f"
    and buf: "length buf < 4294967295" "unat (Offs (edit_end e)) \<le> length buf"
  shows "file_text (e # es) f buf = splice_text (unat (Offs (fst e))) (unat (RemoveLen (snd e))) (Text (snd e)) (file_text es f buf)"
    and "file_text (e # es) f buf = take (unat (Offs (fst e))) buf @ Text (snd e) @
      edited_text es f buf (unat (Offs (edit_end e))) (Suc (length buf))"
proof -
  let ?a = "unat (Offs (fst e))" and ?m = "unat (Offs (edit_end e))" and ?N = "Suc (length buf)"
  have e: "edit_ok SM e" and es: "edits_ok SM es" and after: "\<And>c. c \<in> set es \<Longrightarrow> edit_before e c"
    using ok by (auto simp: edits_ok_Cons list_all_iff)
  have m: "?m = ?a + unat (RemoveLen (snd e))" using unat_in_range [OF edit_ok_range [OF e]] by (simp add: edit_end_def)
  have le: "fst e \<le> fst c" if "c \<in> set (e # es)" for c using after [of c] that by (auto simp: edit_before_def)
  have "edited_text (e # es) f buf 0 ?a = take (?a - 0) (drop 0 buf)"
    by (rule text_before_edits [OF ok le f]) simp_all
  moreover have "edited_text (e # es) f buf 0 ?N = edited_text (e # es) f buf 0 ?a @ edited_text (e # es) f buf ?a ?N"
    using m buf(2) by (intro edited_text_append) simp_all
  moreover have "edited_text (e # es) f buf ?a ?N = Text (snd e) @ edited_text es f buf ?m ?N"
    using m buf by (intro edited_text_entry [OF ok f refl]) simp_all
  ultimately show split: "file_text (e # es) f buf = take ?a buf @ Text (snd e) @ edited_text es f buf ?m ?N"
    by (simp add: file_text_def)
  have "edited_text es f buf 0 ?m = take (?m - 0) (drop 0 buf)"
    by (rule text_before_edits [where e = "edit_end e", OF es]) (use after f in \<open>auto simp: edit_before_def\<close>)
  moreover have "file_text es f buf = edited_text es f buf 0 ?m @ edited_text es f buf ?m ?N"
    unfolding file_text_def using buf(2) by (intro edited_text_append) simp_all
  ultimately have "file_text es f buf = take ?m buf @ edited_text es f buf ?m ?N" by simp
  then show "file_text (e # es) f buf = splice_text ?a (unat (RemoveLen (snd e))) (Text (snd e)) (file_text es f buf)"
    using buf(2) m by (simp add: split splice_text_def min_def)
qed

text \<open>The buffer of a file of the sources.\<close>

definition buffer_of :: "edit_sources \<Rightarrow> int \<Rightarrow> string \<Rightarrow> bool" where
  "buffer_of SM f buf \<longleftrightarrow> valid_file SM f \<and> getBufferData SM f = Some buf"

lemma buffer_bounds:
  assumes "sources_ok SM" "buffer_of SM f buf"
  shows "length buf < 4294967295" and "range_in_file SM k 0 \<Longrightarrow> FID k = f \<Longrightarrow> unat (Offs k) \<le> length buf"
  using assms by (auto simp: sources_ok_def buffer_of_def range_in_file_def)

text \<open>Two entries that touch, joined into one.\<close>

definition join_edits :: "FileEdit \<Rightarrow> FileEdit \<Rightarrow> FileEdit" where
  "join_edits FA FB = \<lparr>Text = Text FA @ Text FB, RemoveLen = RemoveLen FA + RemoveLen FB\<rparr>"

lemma join_edits_ok:
  assumes sm: "sources_ok SM" and ok: "edits_ok SM ((k, FA) # c # I)" and touch: "fst c = edit_end (k, FA)"
  shows "edit_end (k, join_edits FA (snd c)) = edit_end c"
    and "edits_ok SM ((k, join_edits FA (snd c)) # I)"
    and "buffer_of SM f buf \<Longrightarrow> file_text ((k, join_edits FA (snd c)) # I) f buf = file_text ((k, FA) # c # I) f buf"
proof -
  let ?j = "(k, join_edits FA (snd c))"
  have kFA: "edit_ok SM (k, FA)" and c: "edit_ok SM c" and I: "edits_ok SM I"
    and order: "k < fst c" "\<And>d. d \<in> set I \<Longrightarrow> k < fst d \<and> edit_end c \<le> fst d"
    using ok by (auto simp: edits_ok_Cons list_all_iff edit_before_def)
  show j_end: "edit_end ?j = edit_end c"
    using touch by (simp add: edit_end_def join_edits_def getWithOffset_def ac_simps)
  have fid: "FID k = FID (edit_end c)" using touch by (simp add: edit_end_def)
  have "k \<le> edit_end c" using order(1) edit_end_le [OF c] by order
  then have "range_in_file SM k (Offs (edit_end c) - Offs k)"
    using range_of_ends(1) [OF range_start_in_file [OF edit_ok_range [OF kFA], simplified] edit_end_in_file [OF c]] fid by simp
  moreover have "Offs (edit_end c) - Offs k = RemoveLen (join_edits FA (snd c))"
    using j_end by (simp add: edit_end_def getWithOffset_def) (metis add_diff_cancel_left')
  moreover have "Text FA \<noteq> '''' \<or> RemoveLen (join_edits FA (snd c)) \<noteq> 0"
  proof (rule ccontr)
    assume "\<not> ?thesis"
    then have "edit_end ?j = k" by (simp add: edit_end_def getWithOffset_def)
    then show False using j_end order(1) edit_end_le [OF c] by auto
  qed
  ultimately have "edit_ok SM ?j" by (auto simp: edit_ok_def join_edits_def)
  then show "edits_ok SM (?j # I)"
    using I order(2) j_end by (auto simp: edits_ok_Cons list_all_iff edit_before_def)
  then show "file_text (?j # I) f buf = file_text ((k, FA) # c # I) f buf" if buf: "buffer_of SM f buf"
  proof (cases "FID k = f")
    case True
    note small = buffer_bounds(1) [OF sm buf] and le = buffer_bounds(2) [OF sm buf edit_end_in_file]
    have fc: "FID (fst c) = f" using touch True by simp
    have lt: "unat (Offs (fst c)) < Suc (length buf)" using le [OF kFA] touch True by simp
    have "file_text ((k, FA) # c # I) f buf =
        take (unat (Offs k)) buf @ Text FA @ edited_text (c # I) f buf (unat (Offs (fst c))) (Suc (length buf))"
      using file_text_entry(2) [OF ok _ small le [OF kFA]] True touch by simp
    also have "edited_text (c # I) f buf (unat (Offs (fst c))) (Suc (length buf)) =
        Text (snd c) @ edited_text I f buf (unat (Offs (edit_end c))) (Suc (length buf))"
      using ok small by (intro edited_text_entry [where SM = SM, OF _ fc refl lt]) (simp_all add: edits_ok_Cons)
    finally show ?thesis
      using file_text_entry(2) [OF \<open>edits_ok SM (?j # I)\<close> _ small] True j_end le [OF c] fid
      by (simp add: join_edits_def)
  next
    case False
    then show ?thesis using touch by (simp add: file_text_other)
  qed
qed

lemma apply_edits_ok:
  assumes sm: "sources_ok SM"
  shows "edits_ok SM ((k, FA) # I) \<Longrightarrow> e \<le> edit_end (k, FA) \<Longrightarrow> e = edit_end (k, FA) \<or> (\<forall>c \<in> set I. e < fst c) \<Longrightarrow>
    \<exists>calls. apply_edits SM False k e (Text FA) (RemoveLen FA) I = Some calls \<and>
      (\<forall>f buf. buffer_of SM f buf \<longrightarrow> rewritten SM f calls buf = file_text ((k, FA) # I) f buf)"
proof (induction I arbitrary: k e FA)
  case Nil
  have kFA: "edit_ok SM (k, FA)" using Nil by (simp add: edits_ok_Cons)
  obtain c where c: "applyRewrite SM False (Text FA) k (RemoveLen FA) = Some c"
    "\<And>f buf. carry_out SM f c buf =
       (if FID k = f then splice_text (unat (Offs k)) (unat (RemoveLen FA)) (Text FA) buf else buf)"
    by (rule applyRewrite_plain [OF sm kFA]) (assumption | rule that)+
  have "rewritten SM f [c] buf = file_text [(k, FA)] f buf" if "buffer_of SM f buf" for f buf
    using file_text_entry(1) [OF Nil(1) _ buffer_bounds(1) [OF sm that] buffer_bounds(2) [OF sm that edit_end_in_file [OF kFA]]]
    by (simp add: rewritten_def c(2) file_text_Nil file_text_other)
  then show ?case using c(1) by simp
next
  case (Cons c I)
  have kFA: "edit_ok SM (k, FA)" and cI: "edits_ok SM (c # I)" and kc: "edit_before (k, FA) c"
    and after: "\<And>d. d \<in> set I \<Longrightarrow> edit_before c d"
    using Cons.prems(1) by (auto simp: edits_ok_Cons list_all_iff)
  have ec: "e \<le> fst c" using Cons.prems(2) kc by (auto simp: edit_before_def)
  show ?case
  proof (cases "fst c = e")
    case True
    then have touch: "fst c = edit_end (k, FA)" using Cons.prems(3) by auto
    note join = join_edits_ok [OF sm Cons.prems(1) touch]
    have "e \<le> edit_end (k, join_edits FA (snd c))"
      unfolding join(1) using True edit_end_le [of SM c] cI by (simp add: edits_ok_Cons)
    moreover have "\<forall>d \<in> set I. e < fst d" using after True by (auto simp: edit_before_def)
    ultimately obtain calls where "apply_edits SM False k e (Text (join_edits FA (snd c))) (RemoveLen (join_edits FA (snd c))) I = Some calls"
      "\<forall>f buf. buffer_of SM f buf \<longrightarrow> rewritten SM f calls buf = file_text ((k, join_edits FA (snd c)) # I) f buf"
      using Cons.IH [OF join(2)] by blast
    then show ?thesis using True join(3) by (simp add: join_edits_def)
  next
    case False
    then have lt: "\<not> fst c < e" using ec by auto
    obtain calls where calls: "apply_edits SM False (fst c) (edit_end c) (Text (snd c)) (RemoveLen (snd c)) I = Some calls"
      "\<And>f buf. buffer_of SM f buf \<Longrightarrow> rewritten SM f calls buf = file_text (c # I) f buf"
      using Cons.IH [of "fst c" "snd c" "edit_end c"] cI by auto
    obtain x where x: "applyRewrite SM False (Text FA) k (RemoveLen FA) = Some x"
      "\<And>f buf. carry_out SM f x buf =
         (if FID k = f then splice_text (unat (Offs k)) (unat (RemoveLen FA)) (Text FA) buf else buf)"
      by (rule applyRewrite_plain [OF sm kFA]) (assumption | rule that)+
    have "rewritten SM f (x # calls) buf = file_text ((k, FA) # c # I) f buf" if "buffer_of SM f buf" for f buf
      using file_text_entry(1) [OF Cons.prems(1) _ buffer_bounds(1) [OF sm that]
          buffer_bounds(2) [OF sm that edit_end_in_file [OF kFA]]] calls(2) [OF that]
      by (simp add: rewritten_def x(2) file_text_other)
    then show ?thesis using calls(1) x(1) lt False by simp
  qed
qed

text \<open>With adjusted removals the calls are made as well: no assertion fails.\<close>

lemma apply_edits_returns:
  assumes sm: "sources_ok SM"
  shows "edits_ok SM ((k, FA) # I) \<Longrightarrow> e \<le> edit_end (k, FA) \<Longrightarrow> e = edit_end (k, FA) \<or> (\<forall>c \<in> set I. e < fst c) \<Longrightarrow>
    \<exists>calls. apply_edits SM adj k e (Text FA) (RemoveLen FA) I = Some calls"
proof (induction I arbitrary: k e FA)
  case Nil
  then show ?case using applyRewrite_returns [OF sm, of k FA] by (auto simp: edits_ok_Cons)
next
  case (Cons c I)
  have kFA: "edit_ok SM (k, FA)" and cI: "edits_ok SM (c # I)" and kc: "edit_before (k, FA) c"
    and after: "\<And>d. d \<in> set I \<Longrightarrow> edit_before c d"
    using Cons.prems(1) by (auto simp: edits_ok_Cons list_all_iff)
  have ec: "e \<le> fst c" using Cons.prems(2) kc by (auto simp: edit_before_def)
  show ?case
  proof (cases "fst c = e")
    case True
    then have touch: "fst c = edit_end (k, FA)" using Cons.prems(3) by auto
    note join = join_edits_ok [OF sm Cons.prems(1) touch]
    have "e \<le> edit_end (k, join_edits FA (snd c))"
      unfolding join(1) using True edit_end_le [of SM c] cI by (simp add: edits_ok_Cons)
    moreover have "\<forall>d \<in> set I. e < fst d" using after True by (auto simp: edit_before_def)
    ultimately show ?thesis using Cons.IH [OF join(2), of e] True by (simp add: join_edits_def)
  next
    case False
    then have lt: "\<not> fst c < e" using ec by auto
    have "\<exists>calls. apply_edits SM adj (fst c) (edit_end c) (Text (snd c)) (RemoveLen (snd c)) I = Some calls"
      using Cons.IH [of "fst c" "snd c" "edit_end c"] cI by auto
    then show ?thesis using applyRewrite_returns [OF sm kFA, of adj] lt False by auto
  qed
qed

section \<open>Histories\<close>

text \<open>The states of an \<open>EditedSource\<close>: commits of edits within the files, and the removal of all edits.\<close>

inductive edit_history :: "edit_sources \<Rightarrow> edited_source \<Rightarrow> bool" for SM where
  started: "edit_history SM edited_source_init"
| committed: "edit_history SM ES \<Longrightarrow> list_all (commit_edit_ok SM) (snd c) \<Longrightarrow> commit SM c ES = Some (r, ES') \<Longrightarrow>
    edit_history SM ES'"
| cleared: "edit_history SM ES \<Longrightarrow> edit_history SM (clearRewrites ES)"

lemma commit_returns:
  assumes "sources_ok SM" "edits_ok SM (Edits ES)" "list_all (commit_edit_ok SM) (snd c)"
  shows "\<exists>r ES'. commit SM c ES = Some (r, ES') \<and> edits_ok SM (Edits ES')"
  using commit_actions_returns [OF assms] assms(2) by (auto simp: commit_def finishedCommit_def)

lemma edit_history_ok:
  assumes sm: "sources_ok SM"
  shows "edit_history SM ES \<Longrightarrow> edits_ok SM (Edits ES)"
proof (induction rule: edit_history.induct)
  case (committed ES c r ES')
  then show ?case using commit_returns [OF sm committed.IH committed.hyps(2)] by auto
qed (simp_all add: edited_source_init_def clearRewrites_def)

lemma applyRewrites_entry:
  assumes "Edits ES = e # I"
  shows "applyRewrites SM adj ES = apply_edits SM adj (fst e) (edit_end e) (Text (snd e)) (RemoveLen (snd e)) I"
  using assms by (simp add: applyRewrites_def)

section \<open>A source manager of one file\<close>

definition sample_sources :: "string \<Rightarrow> edit_sources" where
  "sample_sources buf =
     \<lparr>isBeforeInTranslationUnit = (<), isInSystemHeader = (\<lambda>_. False),
      getBufferData = (\<lambda>f. if f = 1 then Some buf else None),
      getLocForStartOfFile = (\<lambda>f. if f = 1 then 1 else 0),
      getDecomposedLoc = (\<lambda>L. if 1 \<le> unat L \<and> unat L \<le> Suc (length buf) then (1, L - 1) else (0, 0)),
      getFileIDSize = (\<lambda>f. if f = 1 then of_nat (length buf) else 0),
      isMacroArgExpansion = (\<lambda>L. L AND MacroIDBit \<noteq> 0), isMacroBodyExpansion = (\<lambda>_. False),
      getImmediateExpansionBegin = (\<lambda>_. 1), getSpellingLoc = id, getTopMacroCallerLoc = id,
      Lexer_getSpelling = (\<lambda>_. ''x''),
      Lexer_getSourceText = (\<lambda>(a, b). Some (take (unat (b - a)) (drop (unat (a - 1)) buf))),
      Lexer_GetBeginningOfToken = id, Lexer_MeasureTokenLength = (\<lambda>_. 1), Lexer_getLocForEndOfToken = (\<lambda>L. L + 1),
      Lexer_makeFileCharRange = (\<lambda>R. let e = (if isTokenRange R then getEnd R + 1 else getEnd R) in
        if getBegin R = 0 \<or> e < getBegin R \<or> Suc (length buf) < unat e
        then \<lparr>getBegin = 0, getEnd = 0, isTokenRange = False\<rparr>
        else \<lparr>getBegin = getBegin R, getEnd = e, isTokenRange = False\<rparr>),
      Lexer_isAtStartOfMacroExpansion = Some, Lexer_isAtEndOfMacroExpansion = Some, DollarIdents = False\<rparr>"

lemma sample_sources_sel:
  "getBufferData (sample_sources buf) f = (if f = 1 then Some buf else None)"
  "getLocForStartOfFile (sample_sources buf) f = (if f = 1 then 1 else 0)"
  "getDecomposedLoc (sample_sources buf) L = (if 1 \<le> unat L \<and> unat L \<le> Suc (length buf) then (1, L - 1) else (0, 0))"
  "getFileIDSize (sample_sources buf) f = (if f = 1 then of_nat (length buf) else 0)"
  "isMacroArgExpansion (sample_sources buf) L \<longleftrightarrow> L AND MacroIDBit \<noteq> 0"
  "isMacroBodyExpansion (sample_sources buf) L \<longleftrightarrow> False"
  "Lexer_getSourceText (sample_sources buf) (a, b) = Some (take (unat (b - a)) (drop (unat (a - 1)) buf))"
  "Lexer_GetBeginningOfToken (sample_sources buf) L = L"
  "DollarIdents (sample_sources buf) \<longleftrightarrow> False"
  "isInSystemHeader (sample_sources buf) L \<longleftrightarrow> False"
  "getTopMacroCallerLoc (sample_sources buf) L = L"
  "Lexer_makeFileCharRange (sample_sources buf) R = (let e = (if isTokenRange R then getEnd R + 1 else getEnd R) in
     if getBegin R = 0 \<or> e < getBegin R \<or> Suc (length buf) < unat e
     then \<lparr>getBegin = 0, getEnd = 0, isTokenRange = False\<rparr>
     else \<lparr>getBegin = getBegin R, getEnd = e, isTokenRange = False\<rparr>)"
  by (simp_all add: sample_sources_def)

lemma sample_sources_ok:
  assumes "length buf < 2147483647"
  shows "sources_ok (sample_sources buf)"
proof -
  have z: "unat (of_nat (length buf) :: u32) = length buf" using assms by (simp add: unat_of_nat)
  have "unat (b - a) = unat b - unat a" if "a \<le> b" for a b :: u32 using that by (simp add: unat_sub word_le_nat_alt)
  moreover have "unat (1 + n) = Suc (unat n)" if "unat n \<le> length buf" for n :: u32
    using assms that by (simp add: unat_word_ariths(1))
  ultimately show ?thesis
    using assms z by (simp add: sources_ok_def sample_sources_sel valid_file_def expansions_nested_def word_le_nat_alt)
qed

lemma sample_file: "valid_file (sample_sources buf) f \<longleftrightarrow> f = 1"
  by (simp add: valid_file_def sample_sources_sel)

lemma sample_buffer: "buffer_of (sample_sources buf) 1 buf"
  by (simp add: buffer_of_def sample_file sample_sources_sel)

lemma sample_range:
  "length buf < 4294967296 \<Longrightarrow>
   range_in_file (sample_sources buf) (FileOffset f k) n \<longleftrightarrow> f = 1 \<and> unat k + unat n \<le> length buf"
  by (auto simp: range_in_file_def sample_file sample_sources_sel unat_of_nat)

section \<open>Properties\<close>

text \<open>
  A commit of edits that lie within their files always returns, whatever was committed or cleared before: no
  assertion of \<open>getSourceText\<close> fails and the walk up the macro expansions ends.  The edits that result are in order,
  their ranges do not overlap and stay within the files.
\<close>

theorem commit_keeps_edits:
  assumes "sources_ok SM" and "edit_history SM ES" and "list_all (commit_edit_ok SM) (snd c)"
  shows "\<exists>r ES'. commit SM c ES = Some (r, ES') \<and> edits_ok SM (Edits ES')"
  using commit_returns assms edit_history_ok by blast

lemma sample_commit_ok:
  "list_all (commit_edit_ok (sample_sources ''abcde f''))
     [Act_Remove 1 (FileOffset 1 0) 2, Act_InsertFromRange 1 (FileOffset 1 4) (FileOffset 1 1) 4 False]"
  by (simp add: commit_edit_ok_def sample_range)

theorem commit_keeps_edits_witness:
  "\<exists>r ES'. commit (sample_sources ''abcde f'')
     (True, [Act_Remove 1 (FileOffset 1 0) 2, Act_InsertFromRange 1 (FileOffset 1 4) (FileOffset 1 1) 4 False])
     edited_source_init = Some (r, ES') \<and> edits_ok (sample_sources ''abcde f'') (Edits ES')"
  by (rule commit_keeps_edits [OF sample_sources_ok started]) (simp, unfold snd_conv, rule sample_commit_ok)

text \<open>
  C12. Removing a range removes exactly its positions besides those removed before, and shuts exactly its inner
  positions for insertions.  The texts inserted inside go, and so does the text at its start if a shorter removal
  that starts there grows; every other text stays.
\<close>

theorem commitRemove_removes:
  assumes "edits_ok SM es" and "range_in_file SM b n" and "n \<noteq> 0"
  shows "remove_view es b (getWithOffset b n) (commitRemove b n es)"
  using commitRemove_ok(2) assms by blast

definition sample_edits :: FileEdits where
  "sample_edits = [(FileOffset 1 1, \<lparr>Text = ''u'', RemoveLen = 2\<rparr>), (FileOffset 1 4, \<lparr>Text = ''v'', RemoveLen = 0\<rparr>),
     (FileOffset 1 5, \<lparr>Text = '''', RemoveLen = 2\<rparr>)]"

lemmas sample_simps = sample_range edit_view edit_end_def getWithOffset_def FileOffset_less FileOffset_le
  word_le_nat_alt word_less_nat_alt

lemma sample_edits_ok: "edits_ok (sample_sources ''abcde f'') sample_edits"
  by (simp add: sample_edits_def edits_ok_Cons edit_ok_def edit_before_def sample_simps)

lemma sample_removal:
  "commitRemove (FileOffset 1 1) 5 sample_edits = [(FileOffset 1 1, \<lparr>Text = '''', RemoveLen = 6\<rparr>)]"
  by (simp add: commitRemove_def sample_edits_def edits_upper_bound_def sample_simps)

theorem commitRemove_removes_witness:
  "remove_view sample_edits (FileOffset 1 1) (FileOffset 1 6) [(FileOffset 1 1, \<lparr>Text = '''', RemoveLen = 6\<rparr>)]"
  using commitRemove_removes [OF sample_edits_ok, of "FileOffset 1 1" 5]
  by (simp add: sample_range sample_removal getWithOffset_def)

text \<open>
  Inserting from a range inserts the text of the range as the edits have it so far: the insertions in it, without
  what is removed, also where the range starts or ends inside of a removal.
\<close>

theorem commitInsertFromRange_inserts:
  assumes "sources_ok SM" and "edits_ok SM (Edits ES)" and "buffer_of SM (FID r) buf"
    and "range_in_file SM r n" and "n \<noteq> 0" and "range_in_file SM k 0"
    and "\<not> isMacroArgExpansion SM L" and "\<not> inside (Edits ES) k"
  shows "\<exists>ES'. commitInsertFromRange SM L k r n before ES = Some (True, ES') \<and>
    inserted k (edited_text (Edits ES) (FID r) buf (unat (Offs r)) (unat (Offs r + n))) before ES ES'"
proof -
  have nest: "expansions_nested SM" using assms(1) by (simp add: sources_ok_def)
  let ?t = "edited_text (Edits ES) (FID r) buf (unat (Offs r)) (unat (Offs r + n))"
  have collect: "collect_range SM (Edits ES) r n = Some (Some ?t)"
    using collect_range_reads [OF assms(1,2,4)] assms(3) by (auto simp: reads_def buffer_of_def)
  obtain b ES' where c: "commitInsert SM L k ?t before ES = Some (b, ES')" "canInsertInOffset SM ES L k = Some b"
    "if b then inserted k ?t before ES ES' else ES' = ES"
    by (rule commitInsert_returns [OF nest assms(2,6)]) (assumption | rule that)+
  have "b" using canInsertInOffset_returns [OF nest assms(2), of L k] c(2) assms(7,8) by auto
  then show ?thesis using c collect assms(5) by (simp add: commitInsertFromRange_def)
qed

theorem commitInsertFromRange_inserts_witness:
  "\<exists>ES'. commitInsertFromRange (sample_sources ''abcde f'') 1 (FileOffset 1 0) (FileOffset 1 2) 4 False
     (edited_source_init\<lparr>Edits := sample_edits\<rparr>) = Some (True, ES') \<and>
   inserted (FileOffset 1 0) ''dve'' False (edited_source_init\<lparr>Edits := sample_edits\<rparr>) ES'"
proof -
  have "edited_text sample_edits 1 ''abcde f'' 2 6 = ''dve''"
    by (simp add: edited_text_def sample_edits_def upt_rec sample_simps)
  moreover have "\<not> inside sample_edits (FileOffset 1 0)"
    by (simp add: sample_edits_def sample_simps)
  moreover have "1 AND MacroIDBit = 0" by (simp add: MacroIDBit_def)
  ultimately show ?thesis
    using commitInsertFromRange_inserts [OF sample_sources_ok, of "''abcde f''"
        "edited_source_init\<lparr>Edits := sample_edits\<rparr>" "FileOffset 1 2" "''abcde f''" 4 "FileOffset 1 0" 1 False]
    by (simp add: sample_edits_ok sample_buffer sample_range sample_sources_sel)
qed


lemma sample_history:
  "edit_history (sample_sources ''abcde f'') (edited_source_init\<lparr>Edits := [(FileOffset 1 3, \<lparr>Text = '''', RemoveLen = 2\<rparr>)]\<rparr>)"
proof -
  have "commit (sample_sources ''abcde f'') (True, [Act_Remove 1 (FileOffset 1 3) 2]) edited_source_init =
      Some (True, edited_source_init\<lparr>Edits := [(FileOffset 1 3, \<lparr>Text = '''', RemoveLen = 2\<rparr>)]\<rparr>)"
    by (simp add: commit_def commit_action_def commitRemove_def edited_source_init_def edits_upper_bound_def
        FileEdit0_def finishedCommit_def)
  from committed [OF started _ this] show ?thesis by (simp add: commit_edit_ok_def sample_range)
qed


text \<open>
  C14. With adjusted removals the rewrites are applied as well: none of the assertions of \<open>adjustRemoval\<close> and \<open>applyRewrite\<close>
  fails in a state that commits lead to.
\<close>

theorem applyRewrites_returns:
  assumes "sources_ok SM" and "edit_history SM ES"
  shows "\<exists>calls. applyRewrites SM adj ES = Some calls"
proof (cases "Edits ES")
  case Nil
  then show ?thesis by (simp add: applyRewrites_def)
next
  case (Cons e I)
  have "edits_ok SM ((fst e, snd e) # I)" using edit_history_ok [OF assms] Cons by simp
  from apply_edits_returns [OF assms(1) this, of "edit_end e" adj] show ?thesis
    by (simp add: applyRewrites_entry [of ES e I, OF Cons])
qed

theorem applyRewrites_returns_witness:
  "\<exists>calls. applyRewrites (sample_sources ''abcde f'') True
     (edited_source_init\<lparr>Edits := [(FileOffset 1 3, \<lparr>Text = '''', RemoveLen = 2\<rparr>)]\<rparr>) = Some calls"
  by (rule applyRewrites_returns [OF sample_sources_ok sample_history]) simp

lemma not_identifier_body: "\<not> isIdentifierBody CHR '' '' d" "\<not> isIdentifierBody CHR 0x00 d"
  by (simp_all add: char_iffs)

text \<open>
  C15. An adjusted removal that starts a token never joins two characters of identifiers: after it, the character
  before the range and the one after it can be adjacent, or a space is put in.  What it removes besides is at most one
  space.
\<close>

theorem adjustRemoval_keeps_tokens:
  assumes "adjustRemoval SM L k n '''' = Some (n', txt)"
    and "Lexer_GetBeginningOfToken SM L = L" and "getBufferData SM (FID k) = Some buf" and "0 < Offs k"
    and "unat (Offs k + n) = unat (Offs k) + unat n" and "unat (Offs k) + unat n \<le> length buf" and "length buf < 2 ^ 32"
  shows "(canBeJoined SM (buf ! (unat (Offs k) - 1)) ((buf @ [CHR 0x00]) ! (unat (Offs k) + unat n')) \<or> txt = '' '') \<and>
    (n' = n \<or> n' = n + 1 \<and> buf ! (unat (Offs k) + unat n) = CHR '' '')"
proof -
  let ?b = "unat (Offs k)" and ?e = "unat (Offs k) + unat n"
  have nonzero: "n \<noteq> 0" "?b \<noteq> 0" using assms(1,4) by (auto simp: adjustRemoval_def unat_eq_0 split: if_splits)
  have joined: "canBeJoined SM c CHR '' ''" "canBeJoined SM c CHR 0x00" for c
    by (simp_all add: canBeJoined_def not_identifier_body)
  show ?thesis
  proof (cases "?e = length buf")
    case True
    then have "n' = n" "(buf @ [CHR 0x00]) ! ?e = CHR 0x00"
      using assms(1,2,3,5) nonzero by (auto simp: adjustRemoval_def)
    then show ?thesis using joined by simp
  next
    case False
    then have lt: "?e < length buf" using assms(6) by simp
    have at_end: "(buf @ [CHR 0x00]) ! ?e = buf ! ?e" using lt by (simp add: nth_append)
    have plus: "unat (n + 1) = unat n + 1" using lt assms(7) by (simp add: unat_word_ariths(1))
    have "adjustRemoval SM L k n '''' = (if buf ! ?e = CHR '' '' then
        Some (if canRemoveWhitespace SM (buf ! (?b - 1)) (buf ! (?e - 1)) ((buf @ [CHR 0x00]) ! (?e + 1)) then n + 1 else n, '''')
      else Some (n, if \<not> canBeJoined SM (buf ! (?b - 1)) (buf ! ?e) then '' '' else ''''))"
      using assms(2,3,5) nonzero False lt by (simp add: adjustRemoval_def Let_def)
    note run = this [unfolded assms(1)]
    show ?thesis
    proof (cases "buf ! ?e = CHR '' ''")
      case True
      show ?thesis
      proof (cases "canRemoveWhitespace SM (buf ! (?b - 1)) (buf ! (?e - 1)) ((buf @ [CHR 0x00]) ! (?e + 1))")
        case remove: True
        then have "canBeJoined SM (buf ! (?b - 1)) ((buf @ [CHR 0x00]) ! (?e + 1))"
          by (simp add: canRemoveWhitespace_def split: if_splits)
        then show ?thesis using run remove True plus by (simp add: add.assoc)
      next
        case False
        then show ?thesis using run True at_end joined by simp
      qed
    next
      case False
      then show ?thesis using run at_end by (auto split: if_splits)
    qed
  qed
qed

theorem adjustRemoval_keeps_tokens_witness:
  "adjustRemoval (sample_sources ''ab+cd'') 3 (FileOffset 1 2) 1 '''' = Some (1, '' '') \<and>
   (canBeJoined (sample_sources ''ab+cd'') CHR ''b'' CHR ''c'' \<or> '' '' = '' '')"
proof -
  have run: "adjustRemoval (sample_sources ''ab+cd'') 3 (FileOffset 1 2) 1 '''' = Some (1, '' '')"
  proof -
    have "isIdentifierBody CHR ''b'' False \<and> isIdentifierBody CHR ''c'' False" by (simp add: char_iffs)
    then show ?thesis by (simp add: adjustRemoval_def sample_sources_sel Let_def canBeJoined_def)
  qed
  show ?thesis
    using run adjustRemoval_keeps_tokens [OF run, of "''ab+cd''"] by (simp add: sample_sources_sel)
qed

lemma record_use_mem:
  "\<exists>Us. map_of (record_use (x, u) M) x = Some Us \<and> u \<in> set Us"
  "map_of M y = Some Us \<Longrightarrow> v \<in> set Us \<Longrightarrow> \<exists>Us'. map_of (record_use (x, u) M) y = Some Us' \<and> v \<in> set Us'"
  by (auto simp: record_use_def Let_def update_conv split: option.splits)

lemma fold_record_use_keeps:
  "map_of M y = Some Us \<Longrightarrow> v \<in> set Us \<Longrightarrow> \<exists>Us'. map_of (fold record_use es M) y = Some Us' \<and> v \<in> set Us'"
proof (induction es arbitrary: M Us)
  case (Cons e es)
  obtain x u where "e = (x, u)" by (cases e)
  then show ?case using record_use_mem(2) [OF Cons.prems, of x u] Cons.IH by auto
qed simp

lemma fold_record_use_mem:
  "(x, u) \<in> set es \<Longrightarrow> \<exists>Us. map_of (fold record_use es M) x = Some Us \<and> u \<in> set Us"
proof (induction es arbitrary: M)
  case (Cons e es)
  show ?case
  proof (cases "e = (x, u)")
    case True
    obtain Us where "map_of (record_use (x, u) M) x = Some Us" "u \<in> set Us" using record_use_mem(1) by blast
    then show ?thesis using fold_record_use_keeps [of _ x Us u es] True by simp
  next
    case False
    then show ?thesis using Cons by simp
  qed
qed simp

text \<open>
  After a commit that inserted text at a location of a macro argument, no insertion is accepted at the location of another use
  of that argument in the same expansion.
\<close>

theorem macro_argument_protected:
  assumes "commitInsert SM L k txt before ES = Some (True, ES')" and "txt \<noteq> ''''" and "isMacroArgExpansion SM L"
    and "deconstructMacroArgLoc SM L = Some (ExpLoc, U)" and "Identifier U \<noteq> None"
    and "isMacroArgExpansion SM L'" and "deconstructMacroArgLoc SM L' = Some (ExpLoc, U')" and "conflicting_use U' U"
  shows "canInsertInOffset SM (finishedCommit ES') L' k' = Some False"
proof -
  have "(ExpLoc, U) \<in> set (CurrCommitMacroArgExps ES')"
    using assms(1-5) by (auto simp: commitInsert_def insert_at_offset_def note_use_def split: option.splits bool.splits)
  then obtain Us where "map_of (ExpansionToArgMap (finishedCommit ES')) ExpLoc = Some Us" "U \<in> set Us"
    using fold_record_use_mem [of ExpLoc U "CurrCommitMacroArgExps ES'"] by (auto simp: finishedCommit_def)
  then show ?thesis using assms(6-8) by (auto simp: canInsertInOffset_def list_ex_iff)
qed

text \<open>The two uses of \<open>x\<close> in an expansion of \<open>#define MAC(x) ((x)+(x))\<close>.\<close>

definition macro_sources :: edit_sources where
  "macro_sources = (sample_sources ''MAC(a);'')\<lparr>isMacroArgExpansion := (\<lambda>L. L \<in> {100, 200}),
     getImmediateExpansionBegin := (\<lambda>L. if L = 100 then 3 else if L = 200 then 4 else 1)\<rparr>"

lemma macro_sources_uses:
  "isMacroArgExpansion macro_sources 100" "isMacroArgExpansion macro_sources 200"
  "deconstructMacroArgLoc macro_sources 100 =
     Some (1, \<lparr>Identifier = Some ''x'', ImmediateExpansionLoc = 1, UseLoc = 3\<rparr>)"
  "deconstructMacroArgLoc macro_sources 200 =
     Some (1, \<lparr>Identifier = Some ''x'', ImmediateExpansionLoc = 1, UseLoc = 4\<rparr>)"
  by (simp_all add: macro_sources_def sample_sources_def deconstructMacroArgLoc_def topExpansion.simps)

lemma macro_commit:
  "commitInsert macro_sources 100 (FileOffset 1 4) ''b'' False edited_source_init =
     Some (True, insert_at_offset (FileOffset 1 4) ''b'' False
       (note_use (1, \<lparr>Identifier = Some ''x'', ImmediateExpansionLoc = 1, UseLoc = 3\<rparr>) edited_source_init))"
  by (simp add: commitInsert_def canInsertInOffset_def getActionForOffset_def edits_upper_bound_def
      edited_source_init_def macro_sources_uses)

theorem macro_argument_protected_witness:
  "canInsertInOffset macro_sources (finishedCommit (insert_at_offset (FileOffset 1 4) ''b'' False
     (note_use (1, \<lparr>Identifier = Some ''x'', ImmediateExpansionLoc = 1, UseLoc = 3\<rparr>) edited_source_init)))
     200 (FileOffset 1 4) = Some False"
  by (rule macro_argument_protected [OF macro_commit _ macro_sources_uses(1,3) _ macro_sources_uses(2,4)])
    (simp_all add: conflicting_use_def)

definition touching_edits :: FileEdits where
  "touching_edits = [(FileOffset 1 0, \<lparr>Text = '''', RemoveLen = 2\<rparr>), (FileOffset 1 2, \<lparr>Text = '''', RemoveLen = 3\<rparr>),
     (FileOffset 1 5, \<lparr>Text = ''u'', RemoveLen = 0\<rparr>)]"


end
