(* ===== verification/EditCommit.thy ===== *)
theory EditCommit
  imports EditedRewrites
begin

text \<open>
  A unit of edits (\<open>lib/Edit/Commit.cpp\<close>, \<open>Commit.h\<close>): the operations check the locations, against the record of conditional
  directives and against the editor the commit is for, and cache edits for \<open>EditedSource\<close>.  An operation gives
  \<open>None\<close> where an assertion fails.
\<close>

section \<open>State\<close>

record edit_commit =
  IsCommitable :: bool
  CachedEdits :: "commit_edit list"

text \<open>What a commit refers to: the sources, the record of conditional directives and the editor, if there are any.\<close>

record commit_target =
  SourceMgr :: edit_sources
  PPRec :: "SourceLocation cond_record option"
  Editor :: "edited_source option"

definition commit_init :: edit_commit where
  "commit_init = \<lparr>IsCommitable = True, CachedEdits = []\<rparr>"

text \<open>The record of conditional directives has the invalid location as \<open>None\<close>.\<close>

definition valid_loc :: "SourceLocation \<Rightarrow> SourceLocation option" where
  "valid_loc L = (if isInvalid L then None else Some L)"

abbreviation locations :: "edit_sources \<Rightarrow> SourceLocation source_manager" where
  "locations SM \<equiv> source_manager.truncate SM"

section \<open>Caching edits\<close>

definition addInsert :: "SourceLocation \<Rightarrow> FileOffset \<Rightarrow> string \<Rightarrow> bool \<Rightarrow> edit_commit \<Rightarrow> edit_commit" where
  "addInsert L k txt before C =
     (if txt = '''' then C else C\<lparr>CachedEdits := CachedEdits C @ [Act_Insert L k txt before]\<rparr>)"

definition addInsertFromRange ::
  "SourceLocation \<Rightarrow> FileOffset \<Rightarrow> FileOffset \<Rightarrow> u32 \<Rightarrow> bool \<Rightarrow> edit_commit \<Rightarrow> edit_commit" where
  "addInsertFromRange L k RangeOffs RangeLen before C =
     (if RangeLen = 0 then C
      else C\<lparr>CachedEdits := CachedEdits C @ [Act_InsertFromRange L k RangeOffs RangeLen before]\<rparr>)"

definition addRemove :: "SourceLocation \<Rightarrow> FileOffset \<Rightarrow> u32 \<Rightarrow> edit_commit \<Rightarrow> edit_commit" where
  "addRemove L k Len C =
     (if Len = 0 then C else C\<lparr>CachedEdits := CachedEdits C @ [Act_Remove L k Len]\<rparr>)"

text \<open>A refused operation.\<close>

definition refuse :: "edit_commit \<Rightarrow> bool \<times> edit_commit" where
  "refuse C = (False, C\<lparr>IsCommitable := False\<rparr>)"

section \<open>Checks\<close>

definition removes_inside :: "FileOffset \<Rightarrow> commit_edit \<Rightarrow> bool" where
  "removes_inside k a \<longleftrightarrow> (case a of
     Act_Remove L b n \<Rightarrow> FID b = FID k \<and> b < k \<and> k < getWithOffset b n
   | _ \<Rightarrow> False)"

definition Commit_canInsertInOffset ::
  "commit_target \<Rightarrow> edit_commit \<Rightarrow> SourceLocation \<Rightarrow> FileOffset \<Rightarrow> bool option" where
  "Commit_canInsertInOffset T C loc k =
     (if list_ex (removes_inside k) (CachedEdits C) then Some False
      else case Editor T of
             None \<Rightarrow> Some True
           | Some ES \<Rightarrow> canInsertInOffset (SourceMgr T) ES loc k)"

text \<open>The last steps of \<open>canInsert\<close> and \<open>canInsertAfterToken\<close>; the inner option is the answer, with the offset.\<close>

definition can_insert_at :: "commit_target \<Rightarrow> edit_commit \<Rightarrow> SourceLocation \<Rightarrow> FileOffset option option" where
  "can_insert_at T C loc =
     (let (fid, a) = getDecomposedLoc (SourceMgr T) loc in
      if fid = 0 then Some None
      else case Commit_canInsertInOffset T C loc (FileOffset fid a) of
             None \<Rightarrow> None
           | Some ok \<Rightarrow> Some (if ok then Some (FileOffset fid a) else None))"

text \<open>The location of the file for a location in a macro: that of its expansion, where \<open>at_edge\<close> tells if the location
  is at its start (or its end).\<close>

definition macro_edge ::
  "edit_sources \<Rightarrow> (SourceLocation \<Rightarrow> SourceLocation option) \<Rightarrow> SourceLocation \<Rightarrow> SourceLocation option" where
  "macro_edge SM at_edge loc =
     (let loc = (if isMacroID loc then (case at_edge loc of None \<Rightarrow> loc | Some L \<Rightarrow> L) else loc);
          loc = getTopMacroCallerLoc SM loc
      in if isMacroID loc then at_edge loc else Some loc)"

definition canInsert :: "commit_target \<Rightarrow> edit_commit \<Rightarrow> SourceLocation \<Rightarrow> FileOffset option option" where
  "canInsert T C loc =
     (if isInvalid loc then Some None
      else case macro_edge (SourceMgr T) (Lexer_isAtStartOfMacroExpansion (SourceMgr T)) loc of
             None \<Rightarrow> Some None
           | Some loc \<Rightarrow>
               if isInSystemHeader (SourceMgr T) loc then Some None
               else can_insert_at T C loc)"

text \<open>With the location after the token, \<open>AfterLoc\<close>.\<close>

definition canInsertAfterToken ::
  "commit_target \<Rightarrow> edit_commit \<Rightarrow> SourceLocation \<Rightarrow> (FileOffset \<times> SourceLocation) option option" where
  "canInsertAfterToken T C loc =
     (if isInvalid loc then Some None
      else let SM = SourceMgr T;
               tokLen = Lexer_MeasureTokenLength SM (getSpellingLoc SM loc)
           in case getLocWithOffset loc tokLen of
                None \<Rightarrow> None
              | Some AfterLoc \<Rightarrow>
                  (case macro_edge SM (Lexer_isAtEndOfMacroExpansion SM) loc of
                     None \<Rightarrow> Some None
                   | Some loc \<Rightarrow>
                       if isInSystemHeader SM loc then Some None
                       else let loc = Lexer_getLocForEndOfToken SM loc in
                            if isInvalid loc then Some None
                            else map_option (map_option (\<lambda>k. (k, AfterLoc))) (can_insert_at T C loc)))"

definition canRemoveRange :: "commit_target \<Rightarrow> CharSourceRange \<Rightarrow> (FileOffset \<times> u32) option" where
  "canRemoveRange T Rng =
     (let SM = SourceMgr T; Rng = Lexer_makeFileCharRange SM Rng in
      if isInvalidRange Rng then None
      else if isMacroID (getBegin Rng) \<or> isMacroID (getEnd Rng) then None
      else if isInSystemHeader SM (getBegin Rng) \<or> isInSystemHeader SM (getEnd Rng) then None
      else if (case PPRec T of None \<Rightarrow> False
               | Some R \<Rightarrow> rangeIntersectsConditionalDirective (locations SM) R
                             (valid_loc (getBegin Rng), valid_loc (getEnd Rng))) then None
      else let (bf, b) = getDecomposedLoc SM (getBegin Rng); (ef, e) = getDecomposedLoc SM (getEnd Rng) in
           if bf \<noteq> ef \<or> e < b then None
           else Some (FileOffset bf b, e - b))"

text \<open>\<open>text\<close> is at the location in the file.\<close>

definition canReplaceText ::
  "commit_target \<Rightarrow> edit_commit \<Rightarrow> SourceLocation \<Rightarrow> string \<Rightarrow> (FileOffset \<times> u32) option option" where
  "canReplaceText T C loc txt =
     (if txt = '''' then None
      else case canInsert T C loc of
             None \<Rightarrow> None
           | Some None \<Rightarrow> Some None
           | Some (Some k) \<Rightarrow>
               (case getBufferData (SourceMgr T) (FID k) of
                  None \<Rightarrow> Some None
                | Some buf \<Rightarrow>
                    Some (if take (length txt) (drop (unat (Offs k)) buf) = txt
                          then Some (k, of_nat (length txt)) else None)))"

section \<open>Operations\<close>

text \<open>The offset of an insertion and the location it is recorded with.\<close>

definition insert_place ::
  "commit_target \<Rightarrow> edit_commit \<Rightarrow> SourceLocation \<Rightarrow> bool \<Rightarrow> (FileOffset \<times> SourceLocation) option option" where
  "insert_place T C loc afterToken =
     (if afterToken then canInsertAfterToken T C loc
      else map_option (map_option (\<lambda>k. (k, loc))) (canInsert T C loc))"

definition Commit_insert ::
  "commit_target \<Rightarrow> SourceLocation \<Rightarrow> string \<Rightarrow> bool \<Rightarrow> bool \<Rightarrow> edit_commit \<Rightarrow> (bool \<times> edit_commit) option" where
  "Commit_insert T loc txt afterToken before C =
     (if txt = '''' then Some (True, C)
      else case insert_place T C loc afterToken of
             None \<Rightarrow> None
           | Some None \<Rightarrow> Some (refuse C)
           | Some (Some (k, loc)) \<Rightarrow> Some (True, addInsert loc k txt before C))"

definition Commit_insertFromRange ::
  "commit_target \<Rightarrow> SourceLocation \<Rightarrow> CharSourceRange \<Rightarrow> bool \<Rightarrow> bool \<Rightarrow> edit_commit \<Rightarrow>
   (bool \<times> edit_commit) option" where
  "Commit_insertFromRange T loc Rng afterToken before C =
     (case canRemoveRange T Rng of
        None \<Rightarrow> Some (refuse C)
      | Some (RangeOffs, RangeLen) \<Rightarrow>
          (case insert_place T C loc afterToken of
             None \<Rightarrow> None
           | Some None \<Rightarrow> Some (refuse C)
           | Some (Some (k, loc)) \<Rightarrow>
               if (case PPRec T of None \<Rightarrow> False
                   | Some R \<Rightarrow> areInDifferentConditionalDirectiveRegion (locations (SourceMgr T)) R
                                 (valid_loc loc) (valid_loc (getBegin Rng)))
               then Some (refuse C)
               else Some (True, addInsertFromRange loc k RangeOffs RangeLen before C)))"

definition Commit_remove ::
  "commit_target \<Rightarrow> CharSourceRange \<Rightarrow> edit_commit \<Rightarrow> (bool \<times> edit_commit) option" where
  "Commit_remove T Rng C =
     (case canRemoveRange T Rng of
        None \<Rightarrow> Some (refuse C)
      | Some (k, Len) \<Rightarrow> Some (True, addRemove (getBegin Rng) k Len C))"

definition Commit_insertWrap ::
  "commit_target \<Rightarrow> string \<Rightarrow> CharSourceRange \<Rightarrow> string \<Rightarrow> edit_commit \<Rightarrow> (bool \<times> edit_commit) option" where
  "Commit_insertWrap T before Rng after C =
     (case Commit_insert T (getBegin Rng) before False True C of
        None \<Rightarrow> None
      | Some (commitableBefore, C) \<Rightarrow>
          (case Commit_insert T (getEnd Rng) after (isTokenRange Rng) False C of
             None \<Rightarrow> None
           | Some (commitableAfter, C) \<Rightarrow> Some (commitableBefore \<and> commitableAfter, C)))"

definition Commit_replace ::
  "commit_target \<Rightarrow> CharSourceRange \<Rightarrow> string \<Rightarrow> edit_commit \<Rightarrow> (bool \<times> edit_commit) option" where
  "Commit_replace T Rng txt C =
     (if txt = '''' then Commit_remove T Rng C
      else case canInsert T C (getBegin Rng) of
             None \<Rightarrow> None
           | Some None \<Rightarrow> Some (refuse C)
           | Some (Some _) \<Rightarrow>
               (case canRemoveRange T Rng of
                  None \<Rightarrow> Some (refuse C)
                | Some (k, Len) \<Rightarrow>
                    Some (True, addInsert (getBegin Rng) k txt False (addRemove (getBegin Rng) k Len C))))"

definition Commit_replaceWithInner ::
  "commit_target \<Rightarrow> CharSourceRange \<Rightarrow> CharSourceRange \<Rightarrow> edit_commit \<Rightarrow> (bool \<times> edit_commit) option" where
  "Commit_replaceWithInner T Rng replacementRange C =
     (case canRemoveRange T Rng of
        None \<Rightarrow> Some (refuse C)
      | Some (OuterBegin, OuterLen) \<Rightarrow>
          (case canRemoveRange T replacementRange of
             None \<Rightarrow> Some (refuse C)
           | Some (InnerBegin, InnerLen) \<Rightarrow>
               let OuterEnd = getWithOffset OuterBegin OuterLen; InnerEnd = getWithOffset InnerBegin InnerLen in
               if FID OuterBegin \<noteq> FID InnerBegin \<or> InnerBegin < OuterBegin \<or> OuterEnd < InnerBegin \<or> OuterEnd < InnerEnd
               then Some (refuse C)
               else Some (True,
                 addRemove (getEnd replacementRange) InnerEnd (Offs OuterEnd - Offs InnerEnd)
                   (addRemove (getBegin Rng) OuterBegin (Offs InnerBegin - Offs OuterBegin) C))))"

definition Commit_replaceText ::
  "commit_target \<Rightarrow> SourceLocation \<Rightarrow> string \<Rightarrow> string \<Rightarrow> edit_commit \<Rightarrow> (bool \<times> edit_commit) option" where
  "Commit_replaceText T loc txt replacementText C =
     (if txt = '''' \<or> replacementText = '''' then Some (True, C)
      else case canReplaceText T C loc replacementText of
             None \<Rightarrow> None
           | Some None \<Rightarrow> Some (refuse C)
           | Some (Some (k, Len)) \<Rightarrow> Some (True, addInsert loc k txt False (addRemove loc k Len C)))"

section \<open>Histories of a commit\<close>

datatype commit_op =
    Op_insert SourceLocation string bool bool
  | Op_insertFromRange SourceLocation CharSourceRange bool bool
  | Op_remove CharSourceRange
  | Op_insertWrap string CharSourceRange string
  | Op_replace CharSourceRange string
  | Op_replaceWithInner CharSourceRange CharSourceRange
  | Op_replaceText SourceLocation string string

fun run_op :: "commit_target \<Rightarrow> commit_op \<Rightarrow> edit_commit \<Rightarrow> (bool \<times> edit_commit) option" where
  "run_op T (Op_insert L t after before) C = Commit_insert T L t after before C"
| "run_op T (Op_insertFromRange L R after before) C = Commit_insertFromRange T L R after before C"
| "run_op T (Op_remove R) C = Commit_remove T R C"
| "run_op T (Op_insertWrap t R u) C = Commit_insertWrap T t R u C"
| "run_op T (Op_replace R t) C = Commit_replace T R t C"
| "run_op T (Op_replaceWithInner R S) C = Commit_replaceWithInner T R S C"
| "run_op T (Op_replaceText L t u) C = Commit_replaceText T L t u C"

fun run_ops :: "commit_target \<Rightarrow> commit_op list \<Rightarrow> edit_commit \<Rightarrow> edit_commit option" where
  "run_ops T [] C = Some C"
| "run_ops T (p # ps) C = (case run_op T p C of None \<Rightarrow> None | Some r \<Rightarrow> run_ops T ps (snd r))"

text \<open>What a commit relies on besides: a location with a file is within that file, a range of a file has one, and a
  location in a file stands for itself.\<close>

definition commit_sources_ok :: "edit_sources \<Rightarrow> bool" where
  "commit_sources_ok SM \<longleftrightarrow> sources_ok SM \<and>
     (\<forall>L f a. getDecomposedLoc SM L = (f, a) \<longrightarrow> f \<noteq> 0 \<longrightarrow> range_in_file SM (FileOffset f a) 0) \<and>
     (\<forall>R. \<not> isInvalidRange (Lexer_makeFileCharRange SM R) \<longrightarrow>
        fst (getDecomposedLoc SM (getBegin (Lexer_makeFileCharRange SM R))) \<noteq> 0 \<and>
        (isFileID (getBegin R) \<longrightarrow> getBegin (Lexer_makeFileCharRange SM R) = getBegin R)) \<and>
     (\<forall>L. isFileID L \<longrightarrow> getTopMacroCallerLoc SM L = L \<and> \<not> isMacroArgExpansion SM L)"

section \<open>Checked places\<close>

text \<open>An insertion at \<open>k\<close> can be cached.\<close>

definition insertable :: "commit_target \<Rightarrow> edit_commit \<Rightarrow> FileOffset \<Rightarrow> bool" where
  "insertable T C k \<longleftrightarrow> \<not> list_ex (removes_inside k) (CachedEdits C) \<and>
     (\<forall>ES. Editor T = Some ES \<longrightarrow> (\<exists>L. canInsertInOffset (SourceMgr T) ES L k = Some True))"

lemma isMacroID_iff: "isMacroID L \<longleftrightarrow> \<not> isFileID L"
  by (simp add: isMacroID_def isFileID_def)

lemma can_insert_at_ok:
  assumes "commit_sources_ok (SourceMgr T)" and "can_insert_at T C loc = Some (Some k)"
  shows "range_in_file (SourceMgr T) k 0" and "insertable T C k" and "getDecomposedLoc (SourceMgr T) loc = (FID k, Offs k)"
  using assms by (auto simp: can_insert_at_def commit_sources_ok_def insertable_def Commit_canInsertInOffset_def
      split: prod.splits if_splits option.splits)

lemma canInsert_ok:
  assumes sm: "commit_sources_ok (SourceMgr T)" and k: "canInsert T C loc = Some (Some k)"
  shows "range_in_file (SourceMgr T) k 0" and "insertable T C k"
    and "isFileID loc \<Longrightarrow> getDecomposedLoc (SourceMgr T) loc = (FID k, Offs k)"
proof -
  obtain L where L: "macro_edge (SourceMgr T) (Lexer_isAtStartOfMacroExpansion (SourceMgr T)) loc = Some L"
    "can_insert_at T C L = Some (Some k)"
    using k by (auto simp: canInsert_def split: if_splits option.splits)
  show "range_in_file (SourceMgr T) k 0" "insertable T C k" using can_insert_at_ok [OF sm L(2)] by simp_all
  show "getDecomposedLoc (SourceMgr T) loc = (FID k, Offs k)" if "isFileID loc"
  proof -
    have "L = loc" using L(1) that sm by (simp add: macro_edge_def isMacroID_iff commit_sources_ok_def)
    then show ?thesis using can_insert_at_ok(3) [OF sm L(2)] by simp
  qed
qed

lemma insert_place_ok:
  assumes sm: "commit_sources_ok (SourceMgr T)" and k: "insert_place T C loc afterToken = Some (Some (k, L))"
  shows "range_in_file (SourceMgr T) k 0" and "insertable T C k" and "isFileID loc \<Longrightarrow> isFileID L"
proof -
  have "\<exists>l. can_insert_at T C l = Some (Some k) \<or> canInsert T C l = Some (Some k)"
    using k by (auto simp: insert_place_def canInsertAfterToken_def Let_def split: if_splits option.splits)
  then show "range_in_file (SourceMgr T) k 0" "insertable T C k"
    using can_insert_at_ok(1,2) [OF sm] canInsert_ok(1,2) [OF sm] by blast+
  show "isFileID L" if "isFileID loc"
  proof -
    have "L = loc \<or> (\<exists>n. getLocWithOffset loc n = Some L)"
      using k by (auto simp: insert_place_def canInsertAfterToken_def Let_def split: if_splits option.splits)
    moreover have "loc AND NOT MacroIDBit = loc"
      using that by (auto simp: isFileID_def bit_eq_iff bit_and_iff bit_not_iff bit_MacroIDBit)
    ultimately show ?thesis using that by (auto simp: getLocWithOffset_def isFileID_def split: if_splits)
  qed
qed

lemma canRemoveRange_ok:
  assumes sm: "commit_sources_ok (SourceMgr T)" and k: "canRemoveRange T R = Some (k, n)"
  shows "range_in_file (SourceMgr T) k n"
    and "isFileID (getBegin R) \<Longrightarrow> getDecomposedLoc (SourceMgr T) (getBegin R) = (FID k, Offs k)"
proof -
  let ?SM = "SourceMgr T" and ?R = "Lexer_makeFileCharRange (SourceMgr T) R"
  obtain e where valid: "\<not> isInvalidRange ?R" and b: "getDecomposedLoc ?SM (getBegin ?R) = (FID k, Offs k)"
    and e: "getDecomposedLoc ?SM (getEnd ?R) = (FID k, e)" "Offs k \<le> e" "n = e - Offs k"
    using k by (auto simp: canRemoveRange_def Let_def not_less split: if_splits prod.splits)
  have f: "FID k \<noteq> 0" using sm valid b by (fastforce simp: commit_sources_ok_def)
  have dec: "range_in_file ?SM (FileOffset f a) 0" if "getDecomposedLoc ?SM L = (f, a)" "f \<noteq> 0" for L f a
    using sm that by (auto simp: commit_sources_ok_def)
  have "range_in_file ?SM k 0" "range_in_file ?SM (FileOffset (FID k) e) 0" using dec b e(1) f by fastforce+
  moreover have "k \<le> FileOffset (FID k) e" using e(2) by (cases k) (simp add: FileOffset_le)
  ultimately show "range_in_file ?SM k n" using range_of_ends(1) [of ?SM k "FileOffset (FID k) e"] e(3) by simp
  show "getDecomposedLoc ?SM (getBegin R) = (FID k, Offs k)" if "isFileID (getBegin R)"
    using sm valid b that by (auto simp: commit_sources_ok_def)
qed

lemma canReplaceText_ok:
  assumes sm: "commit_sources_ok (SourceMgr T)" and k: "canReplaceText T C loc txt = Some (Some (k, n))"
  shows "range_in_file (SourceMgr T) k n" and "insertable T C k"
proof -
  obtain buf where c: "canInsert T C loc = Some (Some k)" and buf: "getBufferData (SourceMgr T) (FID k) = Some buf"
    and t: "take (length txt) (drop (unat (Offs k)) buf) = txt" and n: "n = of_nat (length txt)" and ne: "txt \<noteq> ''''"
    using k by (auto simp: canReplaceText_def split: if_splits option.splits)
  note c' = canInsert_ok [OF sm c]
  show "insertable T C k" by (rule c'(2))
  have len: "length buf = unat (getFileIDSize (SourceMgr T) (FID k))"
    using sm buf c'(1) by (simp add: commit_sources_ok_def sources_ok_def range_in_file_def)
  have "length txt = min (length txt) (length buf - unat (Offs k))" using t by (metis length_drop length_take min.commute)
  then have "length txt \<le> length buf - unat (Offs k)" by linarith
  moreover have "0 < length txt" using ne by blast
  ultimately have le: "unat (Offs k) + length txt \<le> length buf" by linarith
  then have "unat n = length txt"
    using n len u32_bound [of "getFileIDSize (SourceMgr T) (FID k)"] by (simp add: unat_of_nat)
  then show "range_in_file (SourceMgr T) k n" using c'(1) le len by (simp add: range_in_file_def)
qed

section \<open>Invariant of the operations\<close>

text \<open>An edit of a list with the edits before it: an insertion is at a place that neither the editor nor an earlier
  removal has shut.\<close>

definition edit_accepted :: "commit_target \<Rightarrow> commit_edit list \<Rightarrow> commit_edit \<Rightarrow> bool" where
  "edit_accepted T pre a \<longleftrightarrow> (case a of Act_Remove L b n \<Rightarrow> True
     | _ \<Rightarrow> insertable T \<lparr>IsCommitable = True, CachedEdits = pre\<rparr> (edit_offset a))"

fun edits_accepted :: "commit_target \<Rightarrow> commit_edit list \<Rightarrow> commit_edit list \<Rightarrow> bool" where
  "edits_accepted T pre [] \<longleftrightarrow> True"
| "edits_accepted T pre (a # as) \<longleftrightarrow> edit_accepted T pre a \<and> isFileID (OrigLoc a) \<and> edits_accepted T (pre @ [a]) as"

lemma edits_accepted_append:
  "edits_accepted T pre (as @ bs) \<longleftrightarrow> edits_accepted T pre as \<and> edits_accepted T (pre @ as) bs"
  by (induction "as" arbitrary: pre) auto

text \<open>The second part is for operations at locations in files.\<close>

definition commit_ok :: "commit_target \<Rightarrow> bool \<Rightarrow> edit_commit \<Rightarrow> bool" where
  "commit_ok T in_files C \<longleftrightarrow> list_all (commit_edit_ok (SourceMgr T)) (CachedEdits C) \<and>
     (in_files \<longrightarrow> edits_accepted T [] (CachedEdits C))"

definition op_in_files :: "commit_op \<Rightarrow> bool" where
  "op_in_files p \<longleftrightarrow> (case p of
     Op_insert L t after before \<Rightarrow> isFileID L
   | Op_insertFromRange L R after before \<Rightarrow> isFileID L
   | Op_remove R \<Rightarrow> isFileID (getBegin R)
   | Op_insertWrap t R u \<Rightarrow> isFileID (getBegin R) \<and> isFileID (getEnd R)
   | Op_replace R t \<Rightarrow> isFileID (getBegin R)
   | Op_replaceWithInner R S \<Rightarrow> isFileID (getBegin R) \<and> isFileID (getEnd S)
   | Op_replaceText L t u \<Rightarrow> isFileID L)"

lemma commit_ok_snoc:
  "commit_ok T w (C\<lparr>CachedEdits := CachedEdits C @ [a]\<rparr>) \<longleftrightarrow> commit_ok T w C \<and> commit_edit_ok (SourceMgr T) a \<and>
     (w \<longrightarrow> edit_accepted T (CachedEdits C) a \<and> isFileID (OrigLoc a))"
  by (auto simp: commit_ok_def edits_accepted_append)

lemma insertable_cached: "insertable T \<lparr>IsCommitable = b, CachedEdits = CachedEdits C\<rparr> k \<longleftrightarrow> insertable T C k"
  by (simp add: insertable_def)

lemma addInsert_ok:
  "commit_ok T w C \<Longrightarrow> range_in_file (SourceMgr T) k 0 \<Longrightarrow> (w \<Longrightarrow> insertable T C k \<and> isFileID L) \<Longrightarrow>
   commit_ok T w (addInsert L k txt before C)"
  by (auto simp: addInsert_def commit_ok_snoc commit_edit_ok_def edit_accepted_def insertable_cached)

lemma addInsertFromRange_ok:
  "commit_ok T w C \<Longrightarrow> range_in_file (SourceMgr T) k 0 \<Longrightarrow> range_in_file (SourceMgr T) r n \<Longrightarrow>
   (w \<Longrightarrow> insertable T C k \<and> isFileID L) \<Longrightarrow> commit_ok T w (addInsertFromRange L k r n before C)"
  by (auto simp: addInsertFromRange_def commit_ok_snoc commit_edit_ok_def edit_accepted_def insertable_cached)

lemma addRemove_ok:
  "commit_ok T w C \<Longrightarrow> range_in_file (SourceMgr T) k n \<Longrightarrow> (w \<Longrightarrow> isFileID L) \<Longrightarrow> commit_ok T w (addRemove L k n C)"
  by (auto simp: addRemove_def commit_ok_snoc commit_edit_ok_def edit_accepted_def)

lemma addRemove_insertable: "insertable T C k \<Longrightarrow> insertable T (addRemove L k n C) k"
  by (auto simp: insertable_def addRemove_def removes_inside_def)

lemma refuse_ok: "commit_ok T w C \<Longrightarrow> commit_ok T w (snd (refuse C))"
  by (simp add: refuse_def commit_ok_def)

lemma Commit_insert_ok:
  assumes sm: "commit_sources_ok (SourceMgr T)" and C: "commit_ok T w C" and L: "w \<Longrightarrow> isFileID L"
    and run: "Commit_insert T L t after before C = Some r"
  shows "commit_ok T w (snd r)"
proof -
  consider "snd r = C" | "r = refuse C"
    | k l where "insert_place T C L after = Some (Some (k, l))" "snd r = addInsert l k t before C"
    using run by (auto simp: Commit_insert_def split: if_splits option.splits)
  then show ?thesis
  proof cases
    case 3
    note place = insert_place_ok [OF sm 3(1)]
    show ?thesis unfolding 3(2) using place L by (intro addInsert_ok [OF C]) auto
  qed (simp_all add: C refuse_ok)
qed

lemma run_op_ok:
  assumes sm: "commit_sources_ok (SourceMgr T)" and C: "commit_ok T w C" and p: "w \<Longrightarrow> op_in_files p"
    and run: "run_op T p C = Some r"
  shows "commit_ok T w (snd r)"
proof (cases p)
  case (Op_insert L t after before)
  then have run': "Commit_insert T L t after before C = Some r" using run by simp
  show ?thesis by (rule Commit_insert_ok [OF sm C _ run']) (use p Op_insert in \<open>simp add: op_in_files_def\<close>)
next
  case (Op_insertFromRange L R after before)
  consider "r = refuse C"
    | k l b n where "canRemoveRange T R = Some (b, n)" "insert_place T C L after = Some (Some (k, l))"
      "snd r = addInsertFromRange l k b n before C"
    using run Op_insertFromRange
    by (auto simp: Commit_insertFromRange_def split: if_splits option.splits prod.splits)
  then show ?thesis
  proof cases
    case 2
    note place = insert_place_ok [OF sm 2(2)]
    show ?thesis unfolding 2(3)
      using place p Op_insertFromRange canRemoveRange_ok(1) [OF sm 2(1)]
      by (intro addInsertFromRange_ok [OF C]) (auto simp: op_in_files_def)
  qed (simp add: C refuse_ok)
next
  case (Op_remove R)
  then show ?thesis
    using run p C refuse_ok canRemoveRange_ok(1) [OF sm, of R]
    by (auto simp: Commit_remove_def op_in_files_def intro!: addRemove_ok split: option.splits)
next
  case (Op_insertWrap t R u)
  obtain r1 r2 where 1: "Commit_insert T (getBegin R) t False True C = Some r1"
    and 2: "Commit_insert T (getEnd R) u (isTokenRange R) False (snd r1) = Some r2" "snd r = snd r2"
    using run Op_insertWrap by (auto simp: Commit_insertWrap_def split: option.splits prod.splits)
  have ids: "w \<Longrightarrow> isFileID (getBegin R)" "w \<Longrightarrow> isFileID (getEnd R)" using p Op_insertWrap by (auto simp: op_in_files_def)
  show ?thesis unfolding 2(2) by (rule Commit_insert_ok [OF sm Commit_insert_ok [OF sm C ids(1) 1] ids(2) 2(1)])
next
  case (Op_replace R t)
  have ids: "w \<Longrightarrow> isFileID (getBegin R)" using p Op_replace by (auto simp: op_in_files_def)
  consider "Commit_remove T R C = Some r" | "r = refuse C"
    | l k n where "canInsert T C (getBegin R) = Some (Some l)" "canRemoveRange T R = Some (k, n)"
      "snd r = addInsert (getBegin R) k t False (addRemove (getBegin R) k n C)"
  proof (cases "t = ''''")
    case True
    then show ?thesis using that(1) run Op_replace by (simp add: Commit_replace_def)
  next
    case False
    obtain x where x: "canInsert T C (getBegin R) = Some x" using run Op_replace False
      by (cases "canInsert T C (getBegin R)") (simp_all add: Commit_replace_def)
    show ?thesis
    proof (cases "x = None \<or> canRemoveRange T R = None")
      case True
      then show ?thesis using that(2) run Op_replace False x by (cases x) (auto simp: Commit_replace_def)
    next
      case other: False
      then obtain l k n where "x = Some l" "canRemoveRange T R = Some (k, n)" by auto
      then show ?thesis using that(3) run Op_replace False x by (auto simp: Commit_replace_def)
    qed
  qed
  then show ?thesis
  proof cases
    case 1
    then show ?thesis
      using ids C refuse_ok canRemoveRange_ok(1) [OF sm, of R]
      by (auto simp: Commit_remove_def intro!: addRemove_ok split: option.splits)
  next
    case 3
    note rm = canRemoveRange_ok [OF sm 3(2)] and ins = canInsert_ok [OF sm 3(1)]
    have "w \<Longrightarrow> insertable T C k"
    proof -
      assume w
      then have "l = k" using rm(2) ins(3) ids by (intro FileOffset_eqI) simp_all
      then show ?thesis using ins(2) by simp
    qed
    then show ?thesis unfolding 3(3)
      using ids rm(1) range_start_in_file [OF rm(1)]
      by (intro addInsert_ok addRemove_ok [OF C]) (auto intro: addRemove_insertable)
  qed (simp add: C refuse_ok)
next
  case (Op_replaceWithInner R S)
  have ids: "w \<Longrightarrow> isFileID (getBegin R)" "w \<Longrightarrow> isFileID (getEnd S)"
    using p Op_replaceWithInner by (auto simp: op_in_files_def)
  consider "r = refuse C"
    | ob ol ib il where "canRemoveRange T R = Some (ob, ol)" "canRemoveRange T S = Some (ib, il)"
      "FID ob = FID ib" "ob \<le> ib" "getWithOffset ib il \<le> getWithOffset ob ol"
      "snd r = addRemove (getEnd S) (getWithOffset ib il) (Offs (getWithOffset ob ol) - Offs (getWithOffset ib il))
        (addRemove (getBegin R) ob (Offs ib - Offs ob) C)"
    using run Op_replaceWithInner
    by (auto simp: Commit_replaceWithInner_def Let_def not_less split: if_splits option.splits prod.splits)
  then show ?thesis
  proof cases
    case 2
    note outer = canRemoveRange_ok(1) [OF sm 2(1)] and inner = canRemoveRange_ok(1) [OF sm 2(2)]
    note ends = range_end_in_file [OF outer] range_end_in_file [OF inner]
    have "range_in_file (SourceMgr T) ob (Offs ib - Offs ob)"
      using range_of_ends(1) [OF range_start_in_file [OF outer] range_start_in_file [OF inner]] 2 by simp
    moreover have "range_in_file (SourceMgr T) (getWithOffset ib il) (Offs (getWithOffset ob ol) - Offs (getWithOffset ib il))"
      using range_of_ends(1) [OF ends(2,1)] 2 by simp
    ultimately show ?thesis unfolding 2(6) using ids by (intro addRemove_ok C) auto
  qed (simp add: C refuse_ok)
next
  case (Op_replaceText L t u)
  have ids: "w \<Longrightarrow> isFileID L" using p Op_replaceText by (auto simp: op_in_files_def)
  consider "snd r = C" | "r = refuse C"
    | k n where "canReplaceText T C L u = Some (Some (k, n))" "snd r = addInsert L k t False (addRemove L k n C)"
    using run Op_replaceText by (auto simp: Commit_replaceText_def split: if_splits option.splits)
  then show ?thesis
  proof cases
    case 3
    note c = canReplaceText_ok [OF sm 3(1)]
    show ?thesis unfolding 3(2)
      using ids c range_start_in_file [OF c(1)]
      by (intro addInsert_ok addRemove_ok [OF C]) (auto intro: addRemove_insertable)
  qed (simp_all add: C refuse_ok)
qed

lemma run_ops_ok:
  "commit_sources_ok (SourceMgr T) \<Longrightarrow> commit_ok T w C \<Longrightarrow> (w \<Longrightarrow> list_all op_in_files ps) \<Longrightarrow>
   run_ops T ps C = Some C' \<Longrightarrow> commit_ok T w C'"
proof (induction ps arbitrary: C)
  case (Cons p ps)
  then obtain r where r: "run_op T p C = Some r" "run_ops T ps (snd r) = Some C'" by (auto split: option.splits)
  have "commit_ok T w (snd r)" using Cons.prems(3) by (intro run_op_ok [OF Cons.prems(1,2) _ r(1)]) simp
  then show ?case using Cons.IH [OF Cons.prems(1) _ _ r(2)] Cons.prems(3) by simp
qed simp

lemma commit_init_ok: "commit_ok T w commit_init"
  by (simp add: commit_ok_def commit_init_def)

section \<open>Committing the cached edits\<close>

text \<open>All insertions of a list of edits are carried out.\<close>

fun all_applied :: "edit_sources \<Rightarrow> commit_edit list \<Rightarrow> edited_source \<Rightarrow> bool" where
  "all_applied SM [] ES \<longleftrightarrow> True"
| "all_applied SM (a # as) ES \<longleftrightarrow>
     (case a of
        Act_Insert L k t before \<Rightarrow>
          (case commitInsert SM L k t before ES of Some (True, ES) \<Rightarrow> all_applied SM as ES | _ \<Rightarrow> False)
      | Act_InsertFromRange L k r n before \<Rightarrow>
          (case commitInsertFromRange SM L k r n before ES of Some (True, ES) \<Rightarrow> all_applied SM as ES | _ \<Rightarrow> False)
      | Act_Remove L k n \<Rightarrow> all_applied SM as (ES\<lparr>Edits := commitRemove k n (Edits ES)\<rparr>))"

definition buffers_readable :: "edit_sources \<Rightarrow> bool" where
  "buffers_readable SM \<longleftrightarrow> (\<forall>f. valid_file SM f \<longrightarrow> getBufferData SM f \<noteq> None)"

lemma removes_inside_Act_Remove: "removes_inside k (Act_Remove L b n) \<longleftrightarrow> b < k \<and> k < getWithOffset b n"
  using between_file [of b k "getWithOffset b n"] by (auto simp: removes_inside_def)

lemma accepted_not_inside:
  assumes nest: "expansions_nested SM" and ES: "edits_ok SM (Edits ES)"
    and T: "SourceMgr T = SM" "Editor T = Some ES" and k: "insertable T \<lparr>IsCommitable = True, CachedEdits = pre\<rparr> k"
  shows "\<not> (inside (Edits ES) k \<or> list_ex (removes_inside k) pre)"
proof -
  obtain L where "canInsertInOffset SM ES L k = Some True" using k T by (auto simp: insertable_def)
  then show ?thesis using canInsertInOffset_returns [OF nest ES, of L k] k by (auto simp: insertable_def)
qed

lemma commitInsert_accepted:
  assumes nest: "expansions_nested SM" and ok: "edits_ok SM (Edits ES)" and k: "range_in_file SM k 0"
    and L: "\<not> isMacroArgExpansion SM L" and "\<not> inside (Edits ES) k"
  obtains ES' where "commitInsert SM L k txt before ES = Some (True, ES')" "edits_ok SM (Edits ES')"
    "inside (Edits ES') = inside (Edits ES)"
proof -
  obtain r ES' where c: "commitInsert SM L k txt before ES = Some (r, ES')" "edits_ok SM (Edits ES')"
    "canInsertInOffset SM ES L k = Some r" "if r then inserted k txt before ES ES' else ES' = ES"
    by (rule commitInsert_returns [OF nest ok k]) (assumption | rule that)+
  have "r" using canInsertInOffset_returns [OF nest ok, of L k] c(3) assms(4,5) by auto
  then show ?thesis using that [of ES'] c by (simp add: inserted_def)
qed

lemma commitInsertFromRange_accepted:
  assumes sm: "sources_ok SM" and rd: "buffers_readable SM" and ok: "edits_ok SM (Edits ES)"
    and k: "range_in_file SM k 0" "range_in_file SM r n"
    and L: "\<not> isMacroArgExpansion SM L" and ins: "\<not> inside (Edits ES) k"
  obtains ES' where "commitInsertFromRange SM L k r n before ES = Some (True, ES')" "edits_ok SM (Edits ES')"
    "inside (Edits ES') = inside (Edits ES)"
proof (cases "n = 0")
  case True
  then show ?thesis using that [of ES] ok by (simp add: commitInsertFromRange_def)
next
  case False
  have nest: "expansions_nested SM" using sm by (simp add: sources_ok_def)
  obtain buf where "getBufferData SM (FID r) = Some buf" using rd k(2) by (auto simp: buffers_readable_def range_in_file_def)
  then obtain t where t: "collect_range SM (Edits ES) r n = Some (Some t)"
    using collect_range_reads [OF sm ok k(2)] by (auto simp: reads_def)
  obtain ES' where c: "commitInsert SM L k t before ES = Some (True, ES')" "edits_ok SM (Edits ES')"
    "inside (Edits ES') = inside (Edits ES)"
    by (rule commitInsert_accepted [OF nest ok k(1) L ins]) (assumption | rule that)+
  then show ?thesis using that [of ES'] t False by (simp add: commitInsertFromRange_def)
qed

lemma accepted_applied:
  assumes sm: "sources_ok SM" and rd: "buffers_readable SM" and ES0: "edits_ok SM (Edits ES0)"
    and T: "SourceMgr T = SM" "Editor T = Some ES0" and files: "\<And>L. isFileID L \<Longrightarrow> \<not> isMacroArgExpansion SM L"
  shows "edits_accepted T pre as \<Longrightarrow> list_all (commit_edit_ok SM) as \<Longrightarrow> edits_ok SM (Edits ES) \<Longrightarrow>
    (\<And>k. inside (Edits ES) k \<longleftrightarrow> inside (Edits ES0) k \<or> list_ex (removes_inside k) pre) \<Longrightarrow> all_applied SM as ES"
proof (induction "as" arbitrary: pre ES)
  case (Cons a "as")
  have nest: "expansions_nested SM" using sm by (simp add: sources_ok_def)
  have a: "edit_accepted T pre a" "isFileID (OrigLoc a)" "edits_accepted T (pre @ [a]) as" "commit_edit_ok SM a"
    "list_all (commit_edit_ok SM) as" using Cons.prems by simp_all
  have L: "\<not> isMacroArgExpansion SM (OrigLoc a)" by (rule files [OF a(2)])
  have free: "\<not> inside (Edits ES) (edit_offset a)" if "\<And>L k n. a \<noteq> Act_Remove L k n"
  proof -
    have "insertable T \<lparr>IsCommitable = True, CachedEdits = pre\<rparr> (edit_offset a)"
      using a(1) that by (cases a) (auto simp: edit_accepted_def)
    then show ?thesis using accepted_not_inside [OF nest ES0 T] Cons.prems(4) by blast
  qed
  show ?case
  proof (cases a)
    case (Act_Insert L k t before)
    have k: "range_in_file SM k 0" using a(4) Act_Insert by (simp add: commit_edit_ok_def)
    obtain ES' where c: "commitInsert SM L k t before ES = Some (True, ES')" "edits_ok SM (Edits ES')"
      "inside (Edits ES') = inside (Edits ES)"
      by (rule commitInsert_accepted [OF nest Cons.prems(3) k, of L t before]) (use L free Act_Insert that in auto)
    have "all_applied SM as ES'"
      using Cons.prems(4) Act_Insert
      by (intro Cons.IH [OF a(3,5) c(2)]) (simp add: c(3) removes_inside_def)
    then show ?thesis using c(1) Act_Insert by simp
  next
    case (Act_InsertFromRange L k r n before)
    have k: "range_in_file SM k 0" "range_in_file SM r n" using a(4) Act_InsertFromRange by (simp_all add: commit_edit_ok_def)
    obtain ES' where c: "commitInsertFromRange SM L k r n before ES = Some (True, ES')" "edits_ok SM (Edits ES')"
      "inside (Edits ES') = inside (Edits ES)"
      by (rule commitInsertFromRange_accepted [OF sm rd Cons.prems(3) k, of L before])
        (use L free Act_InsertFromRange that in auto)
    have "all_applied SM as ES'"
      using Cons.prems(4) Act_InsertFromRange
      by (intro Cons.IH [OF a(3,5) c(2)]) (simp add: c(3) removes_inside_def)
    then show ?thesis using c(1) Act_InsertFromRange by simp
  next
    case (Act_Remove L k n)
    have k: "range_in_file SM k n" using a(4) Act_Remove by (simp add: commit_edit_ok_def)
    let ?es = "commitRemove k n (Edits ES)"
    have "all_applied SM as (ES\<lparr>Edits := ?es\<rparr>)"
      using Cons.prems(4) Act_Remove ranges.remove_ok [OF Cons.prems(3) k] ranges.shut_remove [OF Cons.prems(3) k]
      by (intro Cons.IH [OF a(3,5)]) (auto simp: removes_inside_Act_Remove)
    then show ?thesis using Act_Remove by simp
  qed
qed simp

section \<open>Properties\<close>


lemma sample_commit_sources:
  assumes "length buf < 2147483647"
  shows "commit_sources_ok (sample_sources buf)"
proof -
  have within: "range_in_file (sample_sources buf) (FileOffset 1 (L - 1)) 0"
    if "1 \<le> unat L" "unat L \<le> Suc (length buf)" for L
  proof -
    have "unat (L - 1) = unat L - 1" using that(1) by (simp add: unat_sub word_le_nat_alt)
    then show ?thesis using assms that by (simp add: sample_range)
  qed
  have size: "0 < unat L" if "L \<noteq> 0" for L :: u32 using that by (simp add: unat_gt_0)
  have "1 \<le> unat L \<and> unat L \<le> Suc (length buf)" if "L \<noteq> 0" "\<not> e < L" "\<not> Suc (length buf) < unat e" for L e :: u32
    using that size [OF that(1)] by (simp add: word_less_nat_alt)
  then show ?thesis
    using sample_sources_ok [OF assms] within
    by (auto simp: commit_sources_ok_def sample_sources_def isInvalidRange_def isInvalid_def isFileID_def Let_def
        split: if_splits)
qed

definition sample_target :: "edited_source \<Rightarrow> commit_target" where
  "sample_target ES = \<lparr>SourceMgr = sample_sources ''abcde f'', PPRec = None, Editor = Some ES\<rparr>"

definition sample_ops :: "commit_op list" where
  "sample_ops = [Op_remove \<lparr>getBegin = 2, getEnd = 4, isTokenRange = False\<rparr>, Op_insert 5 ''u'' False False,
     Op_insert 2 ''v'' False True]"

lemma isMacroID_sample: "\<not> isMacroID 2" "\<not> isMacroID 4" "\<not> isMacroID 5" "\<not> isMacroID 1" "\<not> isMacroID 6"
  by (simp_all add: isMacroID_def MacroIDBit_def)

lemma sample_target_sel:
  "SourceMgr (sample_target ES) = sample_sources ''abcde f''" "PPRec (sample_target ES) = None"
  "Editor (sample_target ES) = Some ES"
  by (simp_all add: sample_target_def)

lemma sample_can_insert:
  "\<not> isMacroID L \<Longrightarrow> canInsertInOffset (sample_sources ''abcde f'') edited_source_init L k = Some True"
  by (simp add: canInsertInOffset_def getActionForOffset_def edits_upper_bound_def edited_source_init_def
      sample_sources_sel isMacroID_def)

lemmas sample_op_simps = sample_target_sel sample_sources_sel sample_can_insert isMacroID_sample isInvalidRange_def isInvalid_def
  Commit_canInsertInOffset_def can_insert_at_def canInsert_def macro_edge_def insert_place_def Commit_insert_def
  removes_inside_def getWithOffset_def FileOffset_less addInsert_def addRemove_def

lemma sample_ops_run:
  "run_ops (sample_target edited_source_init) sample_ops commit_init =
     Some \<lparr>IsCommitable = True, CachedEdits = [Act_Remove 2 (FileOffset 1 1) 2, Act_Insert 5 (FileOffset 1 4) ''u'' False,
       Act_Insert 2 (FileOffset 1 1) ''v'' True]\<rparr>"
proof -
  let ?T = "sample_target edited_source_init" and ?R = "\<lparr>getBegin = 2, getEnd = 4, isTokenRange = False\<rparr>"
  let ?C1 = "\<lparr>IsCommitable = True, CachedEdits = [Act_Remove 2 (FileOffset 1 1) 2]\<rparr>"
  let ?C2 = "\<lparr>IsCommitable = True, CachedEdits = [Act_Remove 2 (FileOffset 1 1) 2, Act_Insert 5 (FileOffset 1 4) ''u'' False]\<rparr>"
  have "canRemoveRange ?T ?R = Some (FileOffset 1 1, 2)" by (simp add: canRemoveRange_def sample_op_simps)
  then have 1: "run_op ?T (Op_remove ?R) commit_init = Some (True, ?C1)"
    by (simp add: Commit_remove_def addRemove_def commit_init_def)
  have 2: "run_op ?T (Op_insert 5 ''u'' False False) ?C1 = Some (True, ?C2)" by (simp add: sample_op_simps)
  have 3: "run_op ?T (Op_insert 2 ''v'' False True) ?C2 = Some (True, ?C2\<lparr>CachedEdits := CachedEdits ?C2 @ [Act_Insert 2 (FileOffset 1 1) ''v'' True]\<rparr>)"
    by (simp add: sample_op_simps)
  show ?thesis unfolding sample_ops_def run_ops.simps 1 option.case snd_conv 2 3 by simp
qed





lemma sample_ranges:
  "canRemoveRange (sample_target ES) \<lparr>getBegin = 1, getEnd = 6, isTokenRange = False\<rparr> = Some (FileOffset 1 0, 5)"
  "canRemoveRange (sample_target ES) \<lparr>getBegin = 2, getEnd = 4, isTokenRange = False\<rparr> = Some (FileOffset 1 1, 2)"
  by (simp_all add: canRemoveRange_def sample_op_simps)

lemma sample_replaceWithInner:
  "Commit_replaceWithInner (sample_target ES) \<lparr>getBegin = 1, getEnd = 6, isTokenRange = False\<rparr>
     \<lparr>getBegin = 2, getEnd = 4, isTokenRange = False\<rparr> commit_init =
   Some (True, \<lparr>IsCommitable = True, CachedEdits = [Act_Remove 1 (FileOffset 1 0) 1, Act_Remove 4 (FileOffset 1 3) 2]\<rparr>)"
  by (simp add: Commit_replaceWithInner_def sample_ranges sample_op_simps commit_init_def)


definition use_loc :: "u32 \<Rightarrow> SourceLocation" where "use_loc n = 2147483648 + n"

definition two_uses :: edit_sources where
  "two_uses = (sample_sources ''MAC(a+d);'')
     \<lparr>getTopMacroCallerLoc := (\<lambda>L. if L = use_loc 10 \<or> L = use_loc 20 then 5 else if L = use_loc 22 then 7 else L),
      getImmediateExpansionBegin := (\<lambda>L. if L = use_loc 10 then use_loc 1 else if L = use_loc 22 then use_loc 2 else 1),
      getSpellingLoc := (\<lambda>L. if L = use_loc 1 then 31 else if L = use_loc 2 then 35 else L),
      Lexer_makeFileCharRange := (\<lambda>R. if R = \<lparr>getBegin = use_loc 22, getEnd = use_loc 22, isTokenRange = True\<rparr>
        then \<lparr>getBegin = 7, getEnd = 8, isTokenRange = False\<rparr> else R),
      Lexer_isAtStartOfMacroExpansion := (\<lambda>_. None)\<rparr>"

definition two_uses_target :: "edited_source \<Rightarrow> commit_target" where
  "two_uses_target ES = \<lparr>SourceMgr = two_uses, PPRec = None, Editor = Some ES\<rparr>"

definition first_use :: edited_source where
  "first_use = \<lparr>Edits = [(FileOffset 1 4, \<lparr>Text = ''b'', RemoveLen = 0\<rparr>)],
     ExpansionToArgMap = [(1, [\<lparr>Identifier = Some ''x'', ImmediateExpansionLoc = 1, UseLoc = 31\<rparr>])],
     CurrCommitMacroArgExps = []\<rparr>"

lemma two_uses_sel:
  "isMacroArgExpansion two_uses L \<longleftrightarrow> isMacroID L" "isMacroBodyExpansion two_uses L \<longleftrightarrow> False"
  "getTopMacroCallerLoc two_uses L = (if L = use_loc 10 \<or> L = use_loc 20 then 5 else if L = use_loc 22 then 7 else L)"
  "getImmediateExpansionBegin two_uses L = (if L = use_loc 10 then use_loc 1 else if L = use_loc 22 then use_loc 2 else 1)"
  "getSpellingLoc two_uses L = (if L = use_loc 1 then 31 else if L = use_loc 2 then 35 else L)"
  "Lexer_getSpelling two_uses L = ''x''" "Lexer_isAtStartOfMacroExpansion two_uses L = None"
  "isInSystemHeader two_uses L \<longleftrightarrow> False"
  "getDecomposedLoc two_uses L = (if 1 \<le> unat L \<and> unat L \<le> 10 then (1, L - 1) else (0, 0))"
  "Lexer_makeFileCharRange two_uses \<lparr>getBegin = use_loc 22, getEnd = use_loc 22, isTokenRange = True\<rparr> =
     \<lparr>getBegin = 7, getEnd = 8, isTokenRange = False\<rparr>"
  by (simp_all add: two_uses_def sample_sources_def isMacroID_def)

lemma use_loc_macro: "isMacroID (use_loc 10)" "isMacroID (use_loc 22)" "\<not> isMacroID 5" "\<not> isMacroID 7" "\<not> isMacroID 8"
  "use_loc 10 \<noteq> use_loc 22" "use_loc 1 \<noteq> use_loc 2" "use_loc 10 \<noteq> 0" "use_loc 22 \<noteq> 0"
  by (simp_all add: use_loc_def isMacroID_def MacroIDBit_def)

lemma use_loc_other: "use_loc m = use_loc n \<longleftrightarrow> m = n"
  by (simp add: use_loc_def)

lemma two_uses_args:
  "deconstructMacroArgLoc two_uses (use_loc 10) = Some (1, \<lparr>Identifier = Some ''x'', ImmediateExpansionLoc = 1, UseLoc = 31\<rparr>)"
  "deconstructMacroArgLoc two_uses (use_loc 22) = Some (1, \<lparr>Identifier = Some ''x'', ImmediateExpansionLoc = 1, UseLoc = 35\<rparr>)"
  by (simp_all add: deconstructMacroArgLoc_def two_uses_sel use_loc_macro use_loc_other topExpansion.simps)

lemma two_uses_target_sel:
  "SourceMgr (two_uses_target ES) = two_uses" "PPRec (two_uses_target ES) = None" "Editor (two_uses_target ES) = Some ES"
  by (simp_all add: two_uses_target_def)

lemma second_use_range:
  "canRemoveRange (two_uses_target ES) \<lparr>getBegin = use_loc 22, getEnd = use_loc 22, isTokenRange = True\<rparr> =
     Some (FileOffset 1 6, 1)"
  by (simp add: canRemoveRange_def two_uses_target_sel two_uses_sel use_loc_macro isInvalidRange_def isInvalid_def)

lemma second_use_insert: "canInsert (two_uses_target first_use) commit_init (use_loc 22) = Some (Some (FileOffset 1 6))"
  by (simp add: canInsert_def two_uses_target_sel two_uses_sel use_loc_macro use_loc_other isInvalid_def macro_edge_def
      can_insert_at_def Commit_canInsertInOffset_def canInsertInOffset_def getActionForOffset_def edits_upper_bound_def
      commit_init_def first_use_def edit_end_def getWithOffset_def FileOffset_less FileOffset_le word_le_nat_alt)

text \<open>
  C16. The checks of \<open>Commit\<close> are made with the location in the file, so they do not see that a macro argument was
  written through another use of it.  With \<open>#define MAC(x) ((x)+(x))\<close> and \<open>MAC(a+d)\<close>, after an insertion through the
  first use a replacement of \<open>d\<close> through the second one is taken as committable; the editor carries its removal out,
  refuses its insertion, and \<open>commit\<close> returns true: \<open>d\<close> is lost.
\<close>

theorem second_use_loses_text:
  "run_ops (two_uses_target edited_source_init) [Op_insert (use_loc 10) ''b'' False False] commit_init =
     Some \<lparr>IsCommitable = True, CachedEdits = [Act_Insert (use_loc 10) (FileOffset 1 4) ''b'' False]\<rparr> \<and>
   commit two_uses (True, [Act_Insert (use_loc 10) (FileOffset 1 4) ''b'' False]) edited_source_init = Some (True, first_use) \<and>
   run_op (two_uses_target first_use)
       (Op_replace \<lparr>getBegin = use_loc 22, getEnd = use_loc 22, isTokenRange = True\<rparr> ''e'') commit_init =
     Some (True, \<lparr>IsCommitable = True,
       CachedEdits = [Act_Remove (use_loc 22) (FileOffset 1 6) 1, Act_Insert (use_loc 22) (FileOffset 1 6) ''e'' False]\<rparr>) \<and>
   commit two_uses (True, [Act_Remove (use_loc 22) (FileOffset 1 6) 1, Act_Insert (use_loc 22) (FileOffset 1 6) ''e'' False]) first_use =
     Some (True, first_use\<lparr>Edits := [(FileOffset 1 4, \<lparr>Text = ''b'', RemoveLen = 0\<rparr>), (FileOffset 1 6, \<lparr>Text = '''', RemoveLen = 1\<rparr>)]\<rparr>) \<and>
   file_text [(FileOffset 1 4, \<lparr>Text = ''b'', RemoveLen = 0\<rparr>), (FileOffset 1 6, \<lparr>Text = '''', RemoveLen = 1\<rparr>)] 1 ''MAC(a+d);'' =
     ''MAC(ba+);''"
proof (intro conjI)
  note checks = two_uses_target_sel two_uses_sel use_loc_macro isInvalid_def isInvalidRange_def canInsert_def macro_edge_def
    can_insert_at_def Commit_canInsertInOffset_def canInsertInOffset_def getActionForOffset_def edits_upper_bound_def commit_init_def
  show "run_ops (two_uses_target edited_source_init) [Op_insert (use_loc 10) ''b'' False False] commit_init =
     Some \<lparr>IsCommitable = True, CachedEdits = [Act_Insert (use_loc 10) (FileOffset 1 4) ''b'' False]\<rparr>"
    by (simp add: checks Commit_insert_def insert_place_def addInsert_def edited_source_init_def)
  show "commit two_uses (True, [Act_Insert (use_loc 10) (FileOffset 1 4) ''b'' False]) edited_source_init = Some (True, first_use)"
    by (simp add: commit_def commit_action_def commitInsert_def checks two_uses_args edited_source_init_def insert_at_offset_def
        note_use_def finishedCommit_def record_use_def first_use_def FileEdit0_def insert_text_def)
  show "run_op (two_uses_target first_use)
       (Op_replace \<lparr>getBegin = use_loc 22, getEnd = use_loc 22, isTokenRange = True\<rparr> ''e'') commit_init =
     Some (True, \<lparr>IsCommitable = True,
       CachedEdits = [Act_Remove (use_loc 22) (FileOffset 1 6) 1, Act_Insert (use_loc 22) (FileOffset 1 6) ''e'' False]\<rparr>)"
    by (simp add: Commit_replace_def second_use_insert [unfolded commit_init_def] second_use_range addRemove_def addInsert_def commit_init_def)
  show "commit two_uses (True, [Act_Remove (use_loc 22) (FileOffset 1 6) 1, Act_Insert (use_loc 22) (FileOffset 1 6) ''e'' False]) first_use =
     Some (True, first_use\<lparr>Edits := [(FileOffset 1 4, \<lparr>Text = ''b'', RemoveLen = 0\<rparr>), (FileOffset 1 6, \<lparr>Text = '''', RemoveLen = 1\<rparr>)]\<rparr>)"
    by (simp add: commit_def commit_action_def commitRemove_def commitInsert_def checks two_uses_args first_use_def edit_end_def
        getWithOffset_def FileOffset_less FileOffset_le FileEdit0_def conflicting_use_def finishedCommit_def)
  show "file_text [(FileOffset 1 4, \<lparr>Text = ''b'', RemoveLen = 0\<rparr>), (FileOffset 1 6, \<lparr>Text = '''', RemoveLen = 1\<rparr>)] 1 ''MAC(a+d);'' =
     ''MAC(ba+);''"
    by (simp add: file_text_def edited_text_def upt_rec sample_simps)
qed

text \<open>\<open>replaceText\<close> looks for its third argument and puts the second one in its place.\<close>

theorem replaceText_roles:
  assumes "Commit_replaceText T L t u commit_init = Some (True, C)" and "t \<noteq> ''''" and "u \<noteq> ''''"
  shows "\<exists>k buf. getBufferData (SourceMgr T) (FID k) = Some buf \<and> take (length u) (drop (unat (Offs k)) buf) = u \<and>
    CachedEdits (addInsert L k t False (addRemove L k (of_nat (length u)) commit_init)) = CachedEdits C"
  using assms by (auto simp: Commit_replaceText_def canReplaceText_def refuse_def split: option.splits if_splits)

end
