(* ===== verification/UnicodeText.thy ===== *)
theory UnicodeText
  imports CharEscapes
begin

text \<open>
  Code points and the conversions of LLVM (\<open>ConvertUTF8toUTF32\<close>, \<open>ConvertUTF8toWide\<close>) that character and
  string literals go through.  The conversions are parameters; here is what is documented of them, with an instance.
\<close>

section \<open>Code points as bytes and as units\<close>

definition scalar :: "u32 \<Rightarrow> bool" where
  "scalar v \<longleftrightarrow> unat v \<le> 0x10FFFF \<and> unat v \<notin> {0xD800..0xDFFF}"

definition utf8_text :: "u32 \<Rightarrow> string" where
  "utf8_text v = map (\<lambda>b. char_of (unat b)) (utf8_bytes (bytesToWrite v) v [])"

definition utf8_string :: "u32 list \<Rightarrow> string" where
  "utf8_string vs = concat (map utf8_text vs)"

text \<open>The units of the width \<open>w\<close> in bytes, one word each.\<close>

fun units_of :: "code_units \<Rightarrow> u32 list" where
  "units_of (Units8 bs) = map ucast bs"
| "units_of (Units16 us) = map ucast us"
| "units_of (Units32 vs) = vs"

definition wide_units :: "nat \<Rightarrow> u32 \<Rightarrow> u32 list" where
  "wide_units w v = units_of (encode_ucn w v)"

definition wide_string :: "nat \<Rightarrow> u32 list \<Rightarrow> u32 list" where
  "wide_string w vs = concat (map (wide_units w) vs)"

lemma text_simps [simp]:
  "utf8_string [] = []" "utf8_string (v # vs) = utf8_text v @ utf8_string vs"
  "utf8_string (us @ vs) = utf8_string us @ utf8_string vs"
  "wide_string w [] = []" "wide_string w (v # vs) = wide_units w v @ wide_string w vs"
  "wide_string w (us @ vs) = wide_string w us @ wide_string w vs"
  by (simp_all add: utf8_string_def wide_string_def)

lemma byte_char [simp]: "of_char (char_of (unat (b :: u8))) = unat b"
  using unsigned_less [of b, where 'a = nat] by simp

lemma utf8_text_bytes: "map of_char (utf8_text v) = map unat (utf8_bytes (bytesToWrite v) v [])"
  by (simp add: utf8_text_def del: of_char_of)

text \<open>The bytes of a code point, by its size.\<close>

lemma scalar_bytes:
  assumes "scalar v"
  obtains (1) "unat v < 0x80" "map of_char (utf8_text v) = [unat v]"
  | (2) "0x80 \<le> unat v" "unat v < 0x800" "map of_char (utf8_text v) = [0xC0 + unat v div 64, 128 + unat v mod 64]"
  | (3) "0x800 \<le> unat v" "unat v < 0x10000" "map of_char (utf8_text v) =
      [0xE0 + unat v div 64 div 64, 128 + unat v div 64 mod 64, 128 + unat v mod 64]"
  | (4) "0x10000 \<le> unat v" "unat v < 0x110000" "map of_char (utf8_text v) =
      [0xF0 + unat v div 64 div 64 div 64, 128 + unat v div 64 div 64 mod 64,
       128 + unat v div 64 mod 64, 128 + unat v mod 64]"
proof -
  note m = utf8_text_bytes [of v]
  have top: "unat v < 0x110000" using assms by (simp add: scalar_def)
  have lt: "v < 0x80 \<longleftrightarrow> unat v < 0x80" "v < 0x800 \<longleftrightarrow> unat v < 0x800" "v < 0x10000 \<longleftrightarrow> unat v < 0x10000"
    by (simp_all add: word_less_nat_alt)
  consider "unat v < 0x80" | "0x80 \<le> unat v" "unat v < 0x800" | "0x800 \<le> unat v" "unat v < 0x10000" | "0x10000 \<le> unat v"
    by linarith
  then show ?thesis
  proof cases
    case 1
    then show ?thesis using that(1) utf8_bytes_value(1) [OF 1] m by (simp add: bytesToWrite_def lt)
  next
    case 2
    then show ?thesis using that(2) utf8_bytes_value(2) [OF 2(2)] m by (simp add: bytesToWrite_def lt)
  next
    case 3
    then show ?thesis using that(3) utf8_bytes_value(3) [OF 3(2)] m by (simp add: bytesToWrite_def lt)
  next
    case 4
    then have "unat v < 0x200000" using top by simp
    from utf8_bytes_value(4) [OF this] 4 m top show ?thesis by (intro that(4)) (simp_all add: bytesToWrite_def lt)
  qed
qed

lemma utf8_text_length: "scalar v \<Longrightarrow> length (utf8_text v) \<in> {1..4}"
  by (erule scalar_bytes) (auto dest!: arg_cong [where f = length])

lemma utf8_text_not_Nil [simp]: "scalar v \<Longrightarrow> utf8_text v \<noteq> []"
  using utf8_text_length [of v] by auto

lemma utf8_text_decode: "scalar v \<Longrightarrow> utf8_decode (map of_char (utf8_text v)) = Some (unat v)"
proof -
  assume s: "scalar v"
  show ?thesis using utf8_text_bytes [of v] encode_ucn_ok(1) [of v 1] s by (simp add: scalar_def encode_ucn_def)
qed

text \<open>A byte below 128 is a code point of its own, and no part of another.\<close>

lemma utf8_text_low: "unat v < 0x80 \<Longrightarrow> utf8_text v = [char_of (unat v)]"
proof -
  assume v: "unat v < 0x80"
  then have "scalar v" by (simp add: scalar_def)
  then have "map of_char (utf8_text v) = [unat v]" using v by (cases rule: scalar_bytes) auto
  then obtain c where "utf8_text v = [c]" "of_char c = unat v" by auto
  then show ?thesis by (metis char_of_char)
qed

lemma utf8_text_high:
  assumes "scalar v" "0x80 \<le> unat v"
  shows "\<forall>c \<in> set (utf8_text v). 0x80 \<le> (of_char c :: nat)"
proof -
  have "\<forall>b \<in> set (map of_char (utf8_text v)). 0x80 \<le> (b :: nat)"
    using assms(1) by (cases rule: scalar_bytes) (use assms(2) in auto)
  then show ?thesis by auto
qed

lemma utf8_text_char:
  assumes "scalar v" "c \<in> set (utf8_text v)" "of_char c < (0x80 :: nat)"
  shows "unat v = of_char c" "utf8_text v = [c]"
proof -
  have lt: "unat v < 0x80" using utf8_text_high [OF assms(1)] assms(2,3) by (force simp: not_less)
  then have t: "utf8_text v = [char_of (unat v)]" by (rule utf8_text_low)
  with assms(2) show "utf8_text v = [c]" by simp
  with t have "c = char_of (unat v)" by simp
  then show "unat v = of_char c" using lt by simp
qed

text \<open>The decoders of \<open>CharEscapes\<close> are strict: what they accept is the encoding of a code point.\<close>

lemma utf8_decode_scalar:
  assumes "utf8_decode bs = Some n"
  shows "n \<le> 0x10FFFF \<and> n \<notin> {0xD800..0xDFFF}"
  using assms
  by (cases bs rule: utf8_decode.cases) (auto simp: Let_def continuation_def split: if_splits)

definition utf8_numbers :: "nat \<Rightarrow> nat list" where
  "utf8_numbers n = (if n < 0x80 then [n] else if n < 0x800 then [0xC0 + n div 64, 128 + n mod 64]
     else if n < 0x10000 then [0xE0 + n div 64 div 64, 128 + n div 64 mod 64, 128 + n mod 64]
     else [0xF0 + n div 64 div 64 div 64, 128 + n div 64 div 64 mod 64, 128 + n div 64 mod 64, 128 + n mod 64])"

lemma utf8_text_numbers: "scalar v \<Longrightarrow> map of_char (utf8_text v) = utf8_numbers (unat v)"
  by (erule scalar_bytes) (simp_all add: utf8_numbers_def)

lemma continuation_offset:
  assumes "continuation b"
  obtains b' where "b = 128 + b'" "b' < 64"
  using assms that [of "b - 128"] by (auto simp: continuation_def)

lemma six_bits: "y < 64 \<Longrightarrow> (x * 64 + y) div 64 = x" "y < 64 \<Longrightarrow> (x * 64 + y) mod 64 = (y :: nat)"
  by simp_all

lemma utf8_decode_numbers:
  assumes d: "utf8_decode bs = Some n"
  shows "bs = utf8_numbers n"
proof (cases bs rule: utf8_decode.cases)
  case (1 a)
  with d show ?thesis by (simp add: utf8_numbers_def split: if_splits)
next
  case (2 a b)
  with d have r: "0xC0 \<le> a" "a < 0xE0" "continuation b" "0x80 \<le> (a - 0xC0) * 64 + (b - 0x80)"
    and n: "n = (a - 0xC0) * 64 + (b - 0x80)" by (auto simp: Let_def split: if_splits)
  obtain a' where a: "a = 0xC0 + a'" using le_Suc_ex [OF r(1)] by blast
  obtain b' where b: "b = 128 + b'" "b' < 64" using r(3) by (rule continuation_offset)
  have "n = a' * 64 + b'" "a' < 32" "0x80 \<le> n" using n a b r by simp_all
  with 2 a b show ?thesis by (simp add: utf8_numbers_def)
next
  case (3 a b c)
  with d have r: "0xE0 \<le> a" "a < 0xF0" "continuation b" "continuation c"
    "0x800 \<le> (a - 0xE0) * 4096 + (b - 0x80) * 64 + (c - 0x80)"
    and n: "n = (a - 0xE0) * 4096 + (b - 0x80) * 64 + (c - 0x80)" by (auto simp: Let_def split: if_splits)
  obtain a' where a: "a = 0xE0 + a'" using le_Suc_ex [OF r(1)] by blast
  obtain b' where b: "b = 128 + b'" "b' < 64" using r(3) by (rule continuation_offset)
  obtain c' where c: "c = 128 + c'" "c' < 64" using r(4) by (rule continuation_offset)
  have n': "n = (a' * 64 + b') * 64 + c'" "a' < 16" "0x800 \<le> n" using n a b c r by simp_all
  have q: "n div 64 = a' * 64 + b'" "n mod 64 = c'" unfolding n'(1) using six_bits [OF c(2)] by blast+
  have "n < 0x10000" using n' b c by simp
  with q 3 a b c n' show ?thesis by (simp add: utf8_numbers_def)
next
  case (4 a b c e)
  with d have r: "0xF0 \<le> a" "continuation b" "continuation c" "continuation e"
    "0x10000 \<le> (a - 0xF0) * 262144 + (b - 0x80) * 4096 + (c - 0x80) * 64 + (e - 0x80)"
    and n: "n = (a - 0xF0) * 262144 + (b - 0x80) * 4096 + (c - 0x80) * 64 + (e - 0x80)"
    by (auto simp: Let_def split: if_splits)
  obtain a' where a: "a = 0xF0 + a'" using le_Suc_ex [OF r(1)] by blast
  obtain b' where b: "b = 128 + b'" "b' < 64" using r(2) by (rule continuation_offset)
  obtain c' where c: "c = 128 + c'" "c' < 64" using r(3) by (rule continuation_offset)
  obtain e' where e: "e = 128 + e'" "e' < 64" using r(4) by (rule continuation_offset)
  have n': "n = ((a' * 64 + b') * 64 + c') * 64 + e'" "0x10000 \<le> n" using n a b c e r by simp_all
  have q: "n div 64 = (a' * 64 + b') * 64 + c'" "n mod 64 = e'" unfolding n'(1) using six_bits [OF e(2)] by blast+
  have "n div 64 div 64 = a' * 64 + b'" "n div 64 mod 64 = c'" unfolding q(1) using six_bits [OF c(2)] by blast+
  with q 4 a b c e n' show ?thesis by (simp add: utf8_numbers_def)
qed (use d in simp_all)

lemma utf8_decode_canonical:
  assumes d: "utf8_decode (map of_char s) = Some n"
  shows "scalar (of_nat n) \<and> unat (of_nat n :: u32) = n \<and> s = utf8_text (of_nat n)"
proof -
  from utf8_decode_scalar [OF d] have u: "unat (of_nat n :: u32) = n" by (simp add: unat_of_nat)
  with utf8_decode_scalar [OF d] have sc: "scalar (of_nat n)" by (simp add: scalar_def)
  have "map of_char s = (map of_char (utf8_text (of_nat n)) :: nat list)"
    using utf8_decode_numbers [OF d] utf8_text_numbers [OF sc] u by simp
  then have "s = utf8_text (of_nat n)"
    using inj_of_char [where 'a = nat] by (simp add: inj_map_eq_map)
  with sc u show ?thesis by blast
qed

section \<open>The conversions\<close>

text \<open>
  \<open>ConvertUTF8toUTF32\<close> with room for so many code points: whether all was converted, and what was written.
  \<open>ConvertUTF8toWide\<close>: the units of the width, or the place of the first sequence that is not UTF-8.
\<close>

type_synonym to_utf32 = "string \<Rightarrow> nat \<Rightarrow> bool \<times> u32 list"
type_synonym to_wide = "nat \<Rightarrow> string \<Rightarrow> nat + u32 list"

definition to_utf32_ok :: "to_utf32 \<Rightarrow> bool" where
  "to_utf32_ok conv \<longleftrightarrow>
     (\<forall>vs room. list_all scalar vs \<and> length vs \<le> room \<longrightarrow> conv (utf8_string vs) room = (True, vs)) \<and>
     (\<forall>s room vs. conv s room = (True, vs) \<longrightarrow> list_all scalar vs \<and> s = utf8_string vs) \<and>
     (\<forall>s room. length (snd (conv s room)) \<le> min room (length s))"

definition to_wide_ok :: "to_wide \<Rightarrow> bool" where
  "to_wide_ok conv \<longleftrightarrow>
     (\<forall>w \<in> {1, 2, 4}.
       (\<forall>vs. list_all scalar vs \<longrightarrow> conv w (utf8_string vs) = Inr (wide_string w vs)) \<and>
       (\<forall>s us. conv w s = Inr us \<longrightarrow> (\<exists>vs. list_all scalar vs \<and> s = utf8_string vs \<and> us = wide_string w vs)) \<and>
       (\<forall>s e. conv w s = Inl e \<longrightarrow> e < length s))"

text \<open>An instance: read code points until there is none.\<close>

definition lead_length :: "char \<Rightarrow> nat" where
  "lead_length c = (let b = of_char c :: nat in
     if b < 0x80 then 1 else if b < 0xE0 then 2 else if b < 0xF0 then 3 else 4)"

function utf8_read :: "string \<Rightarrow> u32 list \<times> string" where
  "utf8_read s = (if s = [] then ([], [])
     else case utf8_decode (map of_char (take (lead_length (hd s)) s)) of
       None \<Rightarrow> ([], s)
     | Some n \<Rightarrow> case utf8_read (drop (lead_length (hd s)) s) of (vs, rest) \<Rightarrow> (of_nat n # vs, rest))"
  by pat_completeness auto
termination by (relation "measure length") (auto simp: lead_length_def Let_def)

declare utf8_read.simps [simp del]

lemma utf8_read_Nil [simp]: "utf8_read [] = ([], [])"
  by (simp add: utf8_read.simps)

lemma lead_length_text: "scalar v \<Longrightarrow> lead_length (hd (utf8_text v)) = length (utf8_text v)"
proof -
  assume s: "scalar v"
  then have ne: "utf8_text v \<noteq> []" by simp
  have hd: "of_char (hd (utf8_text v)) = hd (map of_char (utf8_text v) :: nat list)"
    using ne by (simp add: hd_map)
  have len: "length (utf8_text v) = length (map of_char (utf8_text v) :: nat list)" by simp
  show ?thesis unfolding lead_length_def Let_def hd len
    using s by (cases rule: scalar_bytes) (simp_all add: less_mult_imp_div_less)
qed

lemma utf8_read_text: "list_all scalar vs \<Longrightarrow> utf8_read (utf8_string vs) = (vs, [])"
proof (induction vs)
  case (Cons v vs)
  then have v: "scalar v" by simp
  then have ne: "utf8_text v \<noteq> []" by simp
  have "lead_length (hd (utf8_string (v # vs))) = length (utf8_text v)"
    using lead_length_text [OF v] ne by simp
  with Cons ne show ?case
    by (subst utf8_read.simps) (simp add: utf8_text_decode [OF v])
qed simp

lemma utf8_read_split: "utf8_read s = (vs, rest) \<Longrightarrow> list_all scalar vs \<and> s = utf8_string vs @ rest"
proof (induction s arbitrary: vs rest rule: utf8_read.induct)
  case (1 s)
  show ?case
  proof (cases "s = []")
    case True
    with 1 show ?thesis by simp
  next
    case False
    let ?n = "lead_length (hd s)"
    show ?thesis
    proof (cases "utf8_decode (map of_char (take ?n s))")
      case None
      with 1(2) False show ?thesis by (simp add: utf8_read.simps [of s])
    next
      case (Some k)
      obtain us r where r: "utf8_read (drop ?n s) = (us, r)" by fastforce
      from 1(1) [OF False Some r] have IH: "list_all scalar us" "drop ?n s = utf8_string us @ r" by auto
      from 1(2) False Some r have "vs = of_nat k # us" "rest = r" by (simp_all add: utf8_read.simps [of s])
      with utf8_decode_canonical [OF Some] IH show ?thesis
        using append_take_drop_id [of ?n s] by simp
    qed
  qed
qed

lemma utf8_string_length: "list_all scalar vs \<Longrightarrow> length vs \<le> length (utf8_string vs)"
proof (induction vs)
  case (Cons v vs)
  then show ?case using utf8_text_length [of v] by auto
qed simp

definition to_utf32_model :: to_utf32 where
  "to_utf32_model s room = (case utf8_read s of (vs, rest) \<Rightarrow>
     if length vs \<le> room then (rest = [], vs) else (False, take room vs))"

definition to_wide_model :: to_wide where
  "to_wide_model w s = (case utf8_read s of (vs, rest) \<Rightarrow>
     if rest = [] then Inr (wide_string w vs) else Inl (length s - length rest))"

lemma to_utf32_model_ok: "to_utf32_ok to_utf32_model"
  unfolding to_utf32_ok_def
proof (intro conjI allI impI; (elim conjE)?)
  fix vs :: "u32 list" and room
  assume "list_all scalar vs" "length vs \<le> room"
  then show "to_utf32_model (utf8_string vs) room = (True, vs)"
    by (simp add: to_utf32_model_def utf8_read_text)
next
  fix s room vs
  assume c: "to_utf32_model s room = (True, vs)"
  obtain us rest where r: "utf8_read s = (us, rest)" by fastforce
  with c have "us = vs" "rest = []" by (auto simp: to_utf32_model_def split: if_splits)
  with utf8_read_split [OF r] show "list_all scalar vs" "s = utf8_string vs" by simp_all
next
  fix s room
  obtain us rest where r: "utf8_read s = (us, rest)" by fastforce
  have "length us \<le> length s"
    using utf8_read_split [OF r] utf8_string_length [of us] by auto
  then show "length (snd (to_utf32_model s room)) \<le> min room (length s)"
    by (simp add: to_utf32_model_def r min_def)
qed

lemma to_wide_model_ok: "to_wide_ok to_wide_model"
  unfolding to_wide_ok_def
proof (intro ballI conjI allI impI)
  fix w :: nat and vs :: "u32 list"
  assume "list_all scalar vs"
  then show "to_wide_model w (utf8_string vs) = Inr (wide_string w vs)"
    by (simp add: to_wide_model_def utf8_read_text)
next
  fix w s us
  assume c: "to_wide_model w s = Inr us"
  obtain vs rest where r: "utf8_read s = (vs, rest)" by fastforce
  with c have "rest = []" "us = wide_string w vs" by (auto simp: to_wide_model_def split: if_splits)
  with utf8_read_split [OF r] show "\<exists>vs. list_all scalar vs \<and> s = utf8_string vs \<and> us = wide_string w vs" by auto
next
  fix w s e
  assume c: "to_wide_model w s = Inl e"
  obtain vs rest where r: "utf8_read s = (vs, rest)" by fastforce
  with c have "rest \<noteq> []" "e = length s - length rest" by (auto simp: to_wide_model_def split: if_splits)
  with utf8_read_split [OF r] show "e < length s" by auto
qed

text \<open>A code point has no more units than bytes.\<close>

lemma wide_units_length:
  assumes "scalar v" "w \<in> {1, 2, 4}"
  shows "0 < length (wide_units w v)" "length (wide_units w v) \<le> length (utf8_text v)"
proof -
  have t: "1 \<le> length (utf8_text v)" "length (utf8_text v) \<le> 4" using utf8_text_length [OF assms(1)] by auto
  consider (1) "w = 1" | (2) "w = 2" | (4) "w = 4" using assms(2) by blast
  then have "0 < length (wide_units w v) \<and> length (wide_units w v) \<le> length (utf8_text v)"
  proof cases
    case 1
    have "length (wide_units 1 v) = length (utf8_text v)"
      by (simp add: wide_units_def encode_ucn_def utf8_text_def)
    with 1 t show ?thesis by auto
  next
    case 2
    show ?thesis
    proof (cases "v \<le> 0xFFFF")
      case True
      then have "length (wide_units 2 v) = 1" by (simp add: wide_units_def encode_ucn_def)
      with 2 t show ?thesis by simp
    next
      case False
      then have "0x10000 \<le> unat v" by (simp add: word_le_nat_alt)
      with assms(1) have "length (map of_char (utf8_text v) :: nat list) = 4" by (cases rule: scalar_bytes) simp_all
      moreover have "length (wide_units 2 v) = 2" using False by (simp add: wide_units_def encode_ucn_def Let_def)
      ultimately show ?thesis using 2 by simp
    qed
  next
    case 4
    have "length (wide_units 4 v) = 1" by (simp add: wide_units_def encode_ucn_def)
    with 4 t show ?thesis by simp
  qed
  then show "0 < length (wide_units w v)" "length (wide_units w v) \<le> length (utf8_text v)" by simp_all
qed

lemma wide_string_length:
  assumes "w \<in> {1, 2, 4}"
  shows "list_all scalar vs \<Longrightarrow> length (wide_string w vs) \<le> length (utf8_string vs)"
proof (induction vs)
  case (Cons v vs)
  then have "length (wide_units w v) \<le> length (utf8_text v)" using wide_units_length(2) [OF _ assms] by simp
  with Cons show ?case by simp
qed simp

end
