(* ===== verification/LiteralElements.thy ===== *)
theory LiteralElements
  imports UnicodeText
begin

text \<open>
  The elements of character and string literals, as the grammar in the comments of
  \<open>lib/Lex/LiteralSupport.cpp\<close> has them, with their spelling and their value, and what the functions for
  escapes do at the spelling of one.
\<close>

section \<open>Kinds of literals and the target\<close>

datatype literal_kind =
    char_constant | wide_char_constant | utf8_char_constant | utf16_char_constant | utf32_char_constant
  | string_literal | wide_string_literal | utf8_string_literal | utf16_string_literal | utf32_string_literal
  | other_token

record target_info =
  CharWidth :: nat
  WCharWidth :: nat
  Char16Width :: nat
  Char32Width :: nat
  IntWidth :: nat

text \<open>\<open>None\<close> is \<open>llvm_unreachable\<close>.\<close>

definition getCharWidth :: "literal_kind \<Rightarrow> target_info \<Rightarrow> nat option" where
  "getCharWidth kind Target = (case kind of
       char_constant \<Rightarrow> Some (CharWidth Target) | string_literal \<Rightarrow> Some (CharWidth Target)
     | utf8_char_constant \<Rightarrow> Some (CharWidth Target) | utf8_string_literal \<Rightarrow> Some (CharWidth Target)
     | wide_char_constant \<Rightarrow> Some (WCharWidth Target) | wide_string_literal \<Rightarrow> Some (WCharWidth Target)
     | utf16_char_constant \<Rightarrow> Some (Char16Width Target) | utf16_string_literal \<Rightarrow> Some (Char16Width Target)
     | utf32_char_constant \<Rightarrow> Some (Char32Width Target) | utf32_string_literal \<Rightarrow> Some (Char32Width Target)
     | other_token \<Rightarrow> None)"

text \<open>What the parsers of literals are given: the functions of LLVM, the language and the target.\<close>

record literal_env =
  hex_digit :: "char \<Rightarrow> u32"
  code_point_text :: "u32 \<Rightarrow> string option"
  utf8_to_utf32 :: to_utf32
  utf8_to_wide :: to_wide
  utf8_num_bytes :: "char \<Rightarrow> nat"
  lang :: lang_options
  char_is_signed :: bool
  pascal_strings :: bool
  target :: target_info

definition literal_env_ok :: "literal_env \<Rightarrow> bool" where
  "literal_env_ok env \<longleftrightarrow> hexDigitValue_ok (hex_digit env) \<and> to_utf32_ok (utf8_to_utf32 env) \<and>
     to_wide_ok (utf8_to_wide env) \<and> (\<forall>c. 0 < utf8_num_bytes env c)"

definition literal_target_ok :: "target_info \<Rightarrow> bool" where
  "literal_target_ok t \<longleftrightarrow> CharWidth t = 8 \<and> WCharWidth t \<in> {8, 16, 32} \<and> Char16Width t = 16 \<and> Char32Width t = 32 \<and>
     IntWidth t \<in> {16, 32, 64}"

lemma getCharWidth_ok:
  "literal_target_ok t \<Longrightarrow> kind \<noteq> other_token \<Longrightarrow> \<exists>w. getCharWidth kind t = Some w \<and> w \<in> {8, 16, 32}"
  by (cases kind) (auto simp: getCharWidth_def literal_target_ok_def)

text \<open>Where the last quote of a token ends, found from its end; what follows is its suffix.\<close>

definition after_last :: "char \<Rightarrow> string \<Rightarrow> nat" where
  "after_last q s = length s - length (takeWhile (\<lambda>c. c \<noteq> q) (rev s))"

lemma after_last_append: "q \<notin> set suffix \<Longrightarrow> after_last q (s @ q # suffix) = Suc (length s)"
proof -
  assume q: "q \<notin> set suffix"
  have "takeWhile (\<lambda>c. c \<noteq> q) (rev suffix @ q # rev s) = rev suffix @ takeWhile (\<lambda>c. c \<noteq> q) (q # rev s)"
    using q by (intro takeWhile_append2) auto
  then show ?thesis by (simp add: after_last_def)
qed

lemma after_last_le: "after_last q s \<le> length s"
  by (simp add: after_last_def)

lemma after_last_quote: "q \<in> set s \<Longrightarrow> \<exists>pre suffix. s = pre @ q # suffix \<and> q \<notin> set suffix \<and> after_last q s = Suc (length pre)"
  using split_list_last [of q s] after_last_append by metis

section \<open>Elements\<close>

datatype element =
    Source u32
  | Simple char
  | Octal string
  | Hex string
  | Ucn char string

fun spelling :: "element \<Rightarrow> string" where
  "spelling (Source v) = utf8_text v"
| "spelling (Simple c) = [CHR 0x5C, c]"
| "spelling (Octal ds) = CHR 0x5C # ds"
| "spelling (Hex ds) = CHR 0x5C # CHR ''x'' # ds"
| "spelling (Ucn k ds) = CHR 0x5C # k # ds"

definition spellings :: "element list \<Rightarrow> string" where
  "spellings es = concat (map spelling es)"

definition simple_value :: "char \<Rightarrow> nat" where
  "simple_value c = (case map_of [(CHR ''a'', 7), (CHR ''b'', 8), (CHR ''e'', 27), (CHR ''E'', 27), (CHR ''f'', 12),
     (CHR ''n'', 10), (CHR ''r'', 13), (CHR ''t'', 9), (CHR ''v'', 11)] c of Some v \<Rightarrow> v | None \<Rightarrow> of_char c)"

text \<open>Numeric escapes are cut to the width of a character.\<close>

fun element_value :: "nat \<Rightarrow> element \<Rightarrow> nat" where
  "element_value w (Source v) = unat v"
| "element_value w (Simple c) = simple_value c"
| "element_value w (Octal ds) = digits_value 8 0 ds mod 2 ^ w"
| "element_value w (Hex ds) = digits_value 16 0 ds mod 2 ^ w"
| "element_value w (Ucn k ds) = digits_value 16 0 ds"

text \<open>A numeric escape ends where no digit follows; \<open>after\<close> is the next character of the literal.\<close>

definition next_char :: "string \<Rightarrow> char option" where
  "next_char s = (case s of [] \<Rightarrow> None | c # _ \<Rightarrow> Some c)"

definition basic_ucn :: "nat \<Rightarrow> bool" where
  "basic_ucn n \<longleftrightarrow> n < 0xA0 \<and> n \<notin> {0x24, 0x40, 0x60}"

fun element_ok :: "lang_options \<Rightarrow> char option \<Rightarrow> element \<Rightarrow> bool" where
  "element_ok lo after (Source v) \<longleftrightarrow> scalar v \<and> unat v \<noteq> 0x5C"
| "element_ok lo after (Simple c) \<longleftrightarrow> of_char c < (128 :: nat) \<and> \<not> octal_digit c \<and> c \<notin> {CHR ''x'', CHR ''u'', CHR ''U''}"
| "element_ok lo after (Octal ds) \<longleftrightarrow> ds \<noteq> [] \<and> length ds \<le> 3 \<and> list_all octal_digit ds \<and>
     (length ds = 3 \<or> (\<forall>c. after = Some c \<longrightarrow> \<not> octal_digit c))"
| "element_ok lo after (Hex ds) \<longleftrightarrow> ds \<noteq> [] \<and> list_all isHexDigit ds \<and> (\<forall>c. after = Some c \<longrightarrow> \<not> isHexDigit c)"
| "element_ok lo after (Ucn k ds) \<longleftrightarrow> (k, length ds) \<in> {(CHR ''u'', 4), (CHR ''U'', 8)} \<and> list_all isHexDigit ds \<and>
     scalar (of_nat (digits_value 16 0 ds)) \<and> digits_value 16 0 ds < 2 ^ 32 \<and> (CPlusPlus11 lo \<or> \<not> basic_ucn (digits_value 16 0 ds))"

fun elements_ok :: "lang_options \<Rightarrow> element list \<Rightarrow> bool" where
  "elements_ok lo [] \<longleftrightarrow> True"
| "elements_ok lo (e # es) \<longleftrightarrow> element_ok lo (next_char (spellings es)) e \<and> elements_ok lo es"

fun is_source :: "element \<Rightarrow> bool" where
  "is_source (Source v) \<longleftrightarrow> True"
| "is_source e \<longleftrightarrow> False"

fun is_ucn :: "element \<Rightarrow> bool" where
  "is_ucn (Ucn k ds) \<longleftrightarrow> True"
| "is_ucn e \<longleftrightarrow> False"

lemma spellings_simps [simp]:
  "spellings [] = []" "spellings (e # es) = spelling e @ spellings es" "spellings (xs @ ys) = spellings xs @ spellings ys"
  by (simp_all add: spellings_def)

lemma next_char_simps [simp]: "next_char [] = None" "next_char (c # s) = Some c"
  by (simp_all add: next_char_def)

section \<open>Reading an element\<close>

lemma peek_append: "peek (pre @ s) (length pre + k) = peek s k"
  by (simp add: peek_def nth_append)

lemma peek_append0: "peek (pre @ s) (length pre) = peek s 0"
  using peek_append [of pre s 0] by simp

lemma slice_append_mid: "slice (pre @ s @ rest) (length pre) (length pre + length s) = s"
  by (simp add: slice_def)

lemma scan_while_run:
  assumes "list_all test ds" "\<forall>c. next_char rest = Some c \<longrightarrow> \<not> test c"
  shows "scan_while test (pre @ ds @ rest) (length pre) = length pre + length ds"
  using assms(1)
proof (induction ds arbitrary: pre)
  case Nil
  have "\<not> (length pre < length (pre @ rest) \<and> test (peek (pre @ rest) (length pre)))"
    using assms(2) by (cases rest) (auto simp: peek_append0 peek_def)
  then show ?case using scan_while_skip [of "length pre" "pre @ rest" test] by simp
next
  case (Cons c ds)
  have "scan_while test (pre @ (c # ds) @ rest) (length pre) = scan_while test (pre @ (c # ds) @ rest) (Suc (length pre))"
    using Cons.prems by (intro scan_while_Suc) (simp_all add: peek_append0, simp add: peek_def)
  also have "\<dots> = scan_while test ((pre @ [c]) @ ds @ rest) (length (pre @ [c]))" by simp
  also have "\<dots> = length (pre @ [c]) + length ds" using Cons by (intro Cons.IH) simp
  finally show ?case by simp
qed

lemma scan_while_at_least:
  assumes "list_all test ds"
  shows "length pre + length ds \<le> scan_while test (pre @ ds @ rest) (length pre)"
  using assms
proof (induction ds arbitrary: pre)
  case Nil
  show ?case by (simp add: scan_while_ge)
next
  case (Cons c ds)
  have "scan_while test (pre @ (c # ds) @ rest) (length pre) = scan_while test (pre @ (c # ds) @ rest) (Suc (length pre))"
    using Cons.prems by (intro scan_while_Suc) (simp_all add: peek_append0, simp add: peek_def)
  also have "\<dots> = scan_while test ((pre @ [c]) @ ds @ rest) (length (pre @ [c]))" by simp
  finally show ?case using Cons.IH [of "pre @ [c]"] Cons.prems by simp
qed

text \<open>An escape that is not a universal character name.\<close>

lemma escape_element:
  assumes h: "hexDigitValue_ok h" and e: "element_ok lo (next_char rest) e" "\<not> is_source e" "\<not> is_ucn e"
    and w: "8 \<le> w" "w \<le> 32"
  shows "\<exists>ds'. ProcessCharEscape h (pre @ spelling e @ rest) (length pre) err w ds =
    \<lparr>Result = of_nat (element_value w e), Pos = length pre + length (spelling e), HadError = err, EscDiags = ds'\<rparr>"
proof (cases e)
  case (Simple c)
  let ?buf = "pre @ spelling e @ rest"
  have c: "peek ?buf (Suc (length pre)) = c"
    using peek_append [of pre "spelling e @ rest" 1] Simple by (simp add: peek_def)
  have "char_to_unsigned c = of_nat (of_char c)" using e(1) Simple
    by (simp add: char_to_unsigned_def) (metis of_int_of_nat_eq of_nat_of_char of_nat_less_iff of_nat_numeral)
  then show ?thesis using e(1) Simple c
    by (simp add: ProcessCharEscape_def Let_def simple_value_def)
next
  case (Octal ds')
  let ?buf = "pre @ spelling e @ rest" and ?p = "length pre"
  have b: "?buf = (pre @ [CHR 0x5C]) @ ds' @ rest" using Octal by simp
  from e(1) Octal have o: "ds' \<noteq> []" "length ds' \<le> 3" "list_all octal_digit ds'" by auto
  then have first: "octal_digit (peek ?buf (?p + 1))" "?p + 1 < length ?buf"
    unfolding b using peek_append0 [of "pre @ [CHR 0x5C]" "ds' @ rest"]
    by (cases ds'; simp add: peek_def)+
  have m: "min (?p + 4) (scan_while octal_digit ?buf (?p + 1)) = ?p + 1 + length ds'"
  proof (cases "length ds' = 3")
    case True
    then show ?thesis using scan_while_at_least [OF o(3), of "pre @ [CHR 0x5C]" rest] unfolding b by simp
  next
    case False
    then have "\<forall>c. next_char rest = Some c \<longrightarrow> \<not> octal_digit c" using e(1) Octal by auto
    from scan_while_run [OF o(3) this, of "pre @ [CHR 0x5C]"] o(2) False show ?thesis unfolding b by simp
  qed
  have s: "slice ?buf (?p + 1) (?p + 1 + length ds') = ds'"
    using slice_append_mid [of "pre @ [CHR 0x5C]" ds' rest] unfolding b by simp
  show ?thesis
    using octal_escape_value [of ?buf ?p w h err ds, OF first] w Octal unfolding m Let_def s by auto
next
  case (Hex ds')
  let ?buf = "pre @ spelling e @ rest" and ?p = "length pre"
  have b: "?buf = (pre @ [CHR 0x5C, CHR ''x'']) @ ds' @ rest" using Hex by simp
  from e(1) Hex have o: "ds' \<noteq> []" "list_all isHexDigit ds'" "\<forall>c. next_char rest = Some c \<longrightarrow> \<not> isHexDigit c" by auto
  have x: "peek ?buf (?p + 1) = CHR ''x''"
    using peek_append [of pre "spelling e @ rest" 1] Hex by (simp add: peek_def)
  have first: "isHexDigit (peek ?buf (?p + 2))" "?p + 2 < length ?buf"
    unfolding b using peek_append0 [of "pre @ [CHR 0x5C, CHR ''x'']" "ds' @ rest"] o(1,2)
    by (cases ds'; simp add: peek_def)+
  have m: "scan_while isHexDigit ?buf (?p + 2) = ?p + 2 + length ds'"
    using scan_while_run [OF o(2,3), of "pre @ [CHR 0x5C, CHR ''x'']"] unfolding b by simp
  have s: "slice ?buf (?p + 2) (?p + 2 + length ds') = ds'"
    using slice_append_mid [of "pre @ [CHR 0x5C, CHR ''x'']" ds' rest] unfolding b by simp
  show ?thesis
    using hex_escape_value [OF h x first(2,1), of w err ds] w Hex unfolding m Let_def s by auto
qed (use e in auto)

text \<open>A universal character name.\<close>

lemma ucn_element:
  assumes h: "hexDigitValue_ok h" and e: "element_ok lo after (Ucn k ns)"
  shows "\<exists>ds'. ProcessUCNEscape h lo (pre @ spelling (Ucn k ns) @ rest) (length pre) True ds =
    (Some (of_nat (digits_value 16 0 ns)), length pre + length (spelling (Ucn k ns)), ds')"
proof -
  let ?buf = "pre @ spelling (Ucn k ns) @ rest" and ?p = "length pre" and ?V = "digits_value 16 0 ns"
  have b: "?buf = (pre @ [CHR 0x5C, k]) @ ns @ rest" by simp
  from e have k: "(k, length ns) \<in> {(CHR ''u'', 4), (CHR ''U'', 8)}" and ns: "list_all isHexDigit ns"
    and V: "scalar (of_nat ?V)" "?V < 2 ^ 32" "CPlusPlus11 lo \<or> \<not> basic_ucn ?V" by auto
  have ne: "ns \<noteq> []" using k by auto
  have pk: "peek ?buf (Suc ?p) = k" using peek_append [of pre "spelling (Ucn k ns) @ rest" 1] by (simp add: peek_def)
  have first: "isHexDigit (peek ?buf (Suc (Suc ?p)))" "Suc (Suc ?p) < length ?buf"
    unfolding b using peek_append0 [of "pre @ [CHR 0x5C, k]" "ns @ rest"] ns ne
    by (cases ns; simp add: peek_def)+
  let ?n = "if k = CHR ''u'' then 4 else 8 :: nat"
  have n: "?n = length ns" using k by auto
  have m: "min (?p + 2 + length ns) (scan_while isHexDigit ?buf (?p + 2)) = ?p + 2 + length ns"
    using scan_while_at_least [OF ns, of "pre @ [CHR 0x5C, k]" rest] unfolding b by simp
  have s: "slice ?buf (?p + 2) (?p + 2 + length ns) = ns"
    using slice_append_mid [of "pre @ [CHR 0x5C, k]" ns rest] unfolding b by simp
  have loop: "ucn_loop h ?buf (Suc (Suc ?p)) 0 ?n = (?p + 2 + length ns, of_nat ?V, 0)"
    using ucn_loop_value [OF h, of "?p + 2" ?buf 0 "length ns"] first(2) unfolding n Let_def m s by simp
  have u: "unat (of_nat ?V :: u32) = ?V" using V(2) by (simp add: unat_of_nat)
  have good: "\<not> (0xD800 \<le> (of_nat ?V :: u32) \<and> (of_nat ?V :: u32) \<le> 0xDFFF)" "\<not> (of_nat ?V :: u32) > 0x10FFFF"
    using V(1) u by (auto simp: scalar_def word_le_nat_alt word_less_nat_alt)
  have basic: "((of_nat ?V :: u32) < 0xA0 \<and> (of_nat ?V :: u32) \<noteq> 0x24 \<and> (of_nat ?V :: u32) \<noteq> 0x40 \<and>
      (of_nat ?V :: u32) \<noteq> 0x60) = basic_ucn ?V"
    using u by (auto simp: basic_ucn_def word_less_nat_alt word_unat_eq_iff)
  have len: "length pre + length (spelling (Ucn k ns)) = ?p + 2 + length ns" by simp
  show ?thesis
    unfolding ProcessUCNEscape_def Let_def len
    using first pk loop good basic V(3) n by (auto simp del: spelling.simps)
qed

section \<open>Progress\<close>

text \<open>Escapes go forward by two characters at least, and stay in the literal.\<close>

lemma ucn_loop_bounds:
  "p \<le> length buf \<Longrightarrow> p \<le> fst (ucn_loop h buf p v n) \<and> fst (ucn_loop h buf p v n) \<le> length buf"
  by (induction h buf p v n rule: ucn_loop.induct)
    (subst (1 2) ucn_loop.simps, auto simp: Let_def Suc_le_eq intro: less_imp_le dest: Suc_leD)

lemma ProcessUCNEscape_bounds:
  assumes "Suc p < length buf"
  shows "p + 2 \<le> fst (snd (ProcessUCNEscape h lo buf p b ds)) \<and> fst (snd (ProcessUCNEscape h lo buf p b ds)) \<le> length buf"
proof -
  obtain q v n where q: "ucn_loop h buf (p + 2) 0 (if peek buf (p + 1) = CHR ''u'' then 4 else 8) = (q, v, n)"
    by (rule prod_cases3)
  have "p + 2 \<le> q \<and> q \<le> length buf"
    using ucn_loop_bounds [of "p + 2" buf h 0 "if peek buf (p + 1) = CHR ''u'' then 4 else 8"] assms q by simp
  with assms q show ?thesis by (auto simp: ProcessUCNEscape_def Let_def)
qed

lemma hex_escape_loop_bounds:
  "p \<le> length buf \<Longrightarrow> p \<le> fst (hex_escape_loop h buf p v b) \<and> fst (hex_escape_loop h buf p v b) \<le> length buf"
  by (induction h buf p v b rule: hex_escape_loop.induct)
    (subst (1 2) hex_escape_loop.simps, auto simp: Let_def Suc_le_eq intro: less_imp_le dest: Suc_leD)

lemma octal_escape_loop_bounds:
  "p < length buf \<Longrightarrow> p < fst (octal_escape_loop buf p v n) \<and> fst (octal_escape_loop buf p v n) \<le> length buf"
  by (induction buf p v n rule: octal_escape_loop.induct)
    (subst (1 2) octal_escape_loop.simps, auto simp: Let_def Suc_le_eq intro: less_imp_le dest: Suc_lessD)

lemma ProcessCharEscape_bounds:
  assumes "Suc p < length buf"
  shows "p + 2 \<le> Pos (ProcessCharEscape h buf p err w ds) \<and> Pos (ProcessCharEscape h buf p err w ds) \<le> length buf"
proof -
  obtain q v b where q: "hex_escape_loop h buf (Suc (Suc p)) 0 False = (q, v, b)" by (rule prod_cases3)
  obtain q' v' where q': "octal_escape_loop buf (Suc p) 0 0 = (q', v')" by fastforce
  have "Suc (Suc p) \<le> q \<and> q \<le> length buf" "Suc p < q' \<and> q' \<le> length buf"
    using hex_escape_loop_bounds [of "Suc (Suc p)" buf h 0 False] octal_escape_loop_bounds [of "Suc p" buf 0 0] assms q q'
    by simp_all
  with assms q q' show ?thesis by (simp add: ProcessCharEscape_def Let_def)
qed

section \<open>Closed escapes\<close>

text \<open>The lexer's rule for the body of a literal: a backslash takes the next character with it.\<close>

fun escapes_closed :: "string \<Rightarrow> bool" where
  "escapes_closed [] \<longleftrightarrow> True"
| "escapes_closed (c # s) \<longleftrightarrow> (if c = CHR 0x5C then s \<noteq> [] \<and> escapes_closed (tl s) else escapes_closed s)"

lemma escapes_closed_plain: "CHR 0x5C \<notin> set xs \<Longrightarrow> escapes_closed (xs @ ys) = escapes_closed ys"
  by (induction xs) auto

lemma drop_peek: "p < length buf \<Longrightarrow> drop p buf = peek buf p # drop (Suc p) buf"
  by (simp add: peek_def Cons_nth_drop_Suc)

lemma escape_has_char:
  "escapes_closed (drop p buf) \<Longrightarrow> p < length buf \<Longrightarrow> peek buf p = CHR 0x5C \<Longrightarrow> Suc p < length buf"
  by (simp add: drop_peek)

lemma drop_slice: "i \<le> j \<Longrightarrow> j \<le> length buf \<Longrightarrow> drop i buf = slice buf i j @ drop j buf"
  using append_take_drop_id [of "j - i" "drop i buf"] by (simp add: slice_def)

lemma slice_without:
  "j \<le> length buf \<Longrightarrow> (\<And>k. i \<le> k \<Longrightarrow> k < j \<Longrightarrow> peek buf k \<noteq> q) \<Longrightarrow> q \<notin> set (slice buf i j)"
  using slice_all [of j buf i "\<lambda>c. c \<noteq> q"] by blast

lemma escapes_closed_span:
  assumes "escapes_closed (drop i buf)" "i \<le> j" "j \<le> length buf" "\<And>k. i \<le> k \<Longrightarrow> k < j \<Longrightarrow> peek buf k \<noteq> CHR 0x5C"
  shows "escapes_closed (drop j buf)"
  using assms(1) unfolding drop_slice [OF assms(2,3)] by (simp add: escapes_closed_plain slice_without assms)

lemma escapes_closed_escape:
  assumes "escapes_closed (drop p buf)" "p < length buf" "peek buf p = CHR 0x5C" "p + 2 \<le> q" "q \<le> length buf"
    and "\<And>k. p + 2 \<le> k \<Longrightarrow> k < q \<Longrightarrow> peek buf k \<noteq> CHR 0x5C"
  shows "escapes_closed (drop q buf)"
proof (rule escapes_closed_span)
  have "Suc p < length buf" by (rule escape_has_char [OF assms(1-3)])
  with assms(1-3) show "escapes_closed (drop (p + 2) buf)" by (simp add: drop_peek)
qed (use assms in auto)

lemma hex_no_backslash: "isHexDigit c \<Longrightarrow> c \<noteq> CHR 0x5C"
  by (auto simp: char_iffs)

lemma ProcessUCNEscape_span:
  assumes h: "hexDigitValue_ok h" and k: "p + 2 \<le> k" "k < fst (snd (ProcessUCNEscape h lo buf p b ds))"
  shows "peek buf k \<noteq> CHR 0x5C"
proof -
  define m where "m = (if peek buf (Suc p) = CHR ''u'' then 4 else 8 :: nat)"
  obtain q v n where q: "ucn_loop h buf (p + 2) 0 m = (q, v, n)" by (rule prod_cases3)
  have le: "p + 2 < length buf" and kq: "k < q"
    using k q by (auto simp: ProcessUCNEscape_def Let_def m_def [symmetric] split: if_splits)
  from ucn_loop_value [OF h less_imp_le [OF le], of 0 m]
  have "fst (ucn_loop h buf (p + 2) (of_nat 0) m) = min (p + 2 + m) (scan_while isHexDigit buf (p + 2))"
    by (simp only: Let_def fst_conv)
  with q have "q = min (p + 2 + m) (scan_while isHexDigit buf (p + 2))" by simp
  then have "isHexDigit (peek buf k)" using kq k(1) scan_while_all [of "p + 2" k isHexDigit buf] by simp
  then show ?thesis by (rule hex_no_backslash)
qed

lemma ProcessCharEscape_span:
  assumes h: "hexDigitValue_ok h" and p: "Suc p < length buf"
    and k: "p + 2 \<le> k" "k < Pos (ProcessCharEscape h buf p err w ds)"
  shows "peek buf k \<noteq> CHR 0x5C"
proof -
  obtain q v b where q: "hex_escape_loop h buf (Suc (Suc p)) 0 False = (q, v, b)" by (rule prod_cases3)
  obtain q' v' where q': "octal_escape_loop buf (Suc p) 0 0 = (q', v')" by fastforce
  have place: "Q (Suc (Suc p)) \<Longrightarrow> Q q \<Longrightarrow> (octal_digit (peek buf (Suc p)) \<Longrightarrow> Q q') \<Longrightarrow>
      Q (Pos (ProcessCharEscape h buf p err w ds))" for Q
    using q q' by (simp add: ProcessCharEscape_def Let_def)
  have "k < q \<or> k < q' \<and> octal_digit (peek buf (Suc p))"
    using place [of "\<lambda>P. k < P \<longrightarrow> k < q \<or> k < q' \<and> octal_digit (peek buf (Suc p))"] k by simp
  then show ?thesis
  proof
    assume kq: "k < q"
    have "p + 2 \<le> length buf" using p by simp
    from hex_escape_loop_value [OF h this, of 0]
    have "fst (hex_escape_loop h buf (p + 2) (of_nat 0) (2 ^ 32 \<le> (0 :: nat))) = scan_while isHexDigit buf (p + 2)"
      by (simp only: Let_def fst_conv)
    with q have "q = scan_while isHexDigit buf (p + 2)" by simp
    then have "isHexDigit (peek buf k)" using kq k(1) scan_while_all [of "p + 2" k isHexDigit buf] by simp
    then show ?thesis by (rule hex_no_backslash)
  next
    assume kq: "k < q' \<and> octal_digit (peek buf (Suc p))"
    from octal_escape_loop_value [OF _ p conjunct2 [OF kq], of 0 0]
    have "fst (octal_escape_loop buf (Suc p) (of_nat 0) 0) = min (Suc p + (3 - 0)) (scan_while octal_digit buf (Suc p))"
      by (simp only: Let_def fst_conv zero_less_numeral)
    with q' have "q' \<le> scan_while octal_digit buf (Suc p)" by simp
    then have "octal_digit (peek buf k)" using kq k(1) scan_while_all [of "Suc p" k octal_digit buf] by simp
    then show ?thesis by (auto simp: octal_digit_def)
  qed
qed

section \<open>Runs of source characters\<close>

lemma spellings_sources [simp]: "spellings (map Source vs) = utf8_string vs"
  by (induction vs) simp_all

lemma utf8_string_no_backslash:
  "list_all (\<lambda>v. scalar v \<and> unat v \<noteq> 0x5C) vs \<Longrightarrow> list_all (\<lambda>c. c \<noteq> CHR 0x5C) (utf8_string vs)"
proof (induction vs)
  case (Cons v vs)
  have "CHR 0x5C \<notin> set (utf8_text v)"
  proof
    assume "CHR 0x5C \<in> set (utf8_text v)"
    with Cons.prems show False using utf8_text_char(1) [of v "CHR 0x5C"] by simp
  qed
  with Cons show ?case by (auto simp: list_all_iff)
qed simp

lemma escape_spelling: "\<not> is_source e \<Longrightarrow> \<exists>s. spelling e = CHR 0x5C # s"
  by (cases e) auto

text \<open>A literal is a run of source characters, or begins with an escape.\<close>

lemma elements_split:
  obtains vs rest where "es = map Source vs @ rest" "\<forall>e es'. rest = e # es' \<longrightarrow> \<not> is_source e"
proof (induction es arbitrary: thesis)
  case Nil
  then show ?case by (metis append_Nil list.distinct(1) list.simps(8))
next
  case (Cons e es)
  show ?case
  proof (cases "is_source e")
    case True
    then obtain v where "e = Source v" by (cases e) auto
    moreover obtain vs rest where "es = map Source vs @ rest" "\<forall>e es'. rest = e # es' \<longrightarrow> \<not> is_source e"
      by (rule Cons.IH)
    ultimately show ?thesis by (intro Cons.prems [of "v # vs" rest]) auto
  next
    case False
    then show ?thesis by (intro Cons.prems [of "[]" "e # es"]) auto
  qed
qed

lemma next_char_escape:
  assumes "\<forall>e es'. es = e # es' \<longrightarrow> \<not> is_source e"
  shows "\<forall>c. next_char (spellings es) = Some c \<longrightarrow> c = CHR 0x5C"
  using assms escape_spelling by (cases es) force+

lemma elements_ok_append: "elements_ok lo (xs @ ys) \<Longrightarrow> elements_ok lo ys"
  by (induction xs) auto

lemma elements_ok_sources:
  "elements_ok lo (map Source vs @ rest) \<Longrightarrow> list_all (\<lambda>v. scalar v \<and> unat v \<noteq> 0x5C) vs"
  by (induction vs) auto

lemma source_run:
  assumes ok: "elements_ok lo (map Source vs @ es)" and esc: "\<forall>e es'. es = e # es' \<longrightarrow> \<not> is_source e"
    and ne: "vs \<noteq> []" and buf_def: "buf = pre @ spellings (map Source vs @ es)"
  shows "peek buf (length pre) \<noteq> CHR 0x5C"
    and "scan_while (\<lambda>c. c \<noteq> CHR 0x5C) buf (Suc (length pre)) = length pre + length (utf8_string vs)"
    and "slice buf (length pre) (length pre + length (utf8_string vs)) = utf8_string vs"
    and "list_all scalar vs" "length pre < length buf"
proof -
  have s: "list_all (\<lambda>c. c \<noteq> CHR 0x5C) (utf8_string vs)"
    by (rule utf8_string_no_backslash [OF elements_ok_sources [OF ok]])
  show sc: "list_all scalar vs" using elements_ok_sources [OF ok] by (auto simp: list_all_iff)
  have "length vs \<le> length (utf8_string vs)" by (rule utf8_string_length [OF sc])
  with ne obtain c cs where c: "utf8_string vs = c # cs" by (cases "utf8_string vs") auto
  have b: "buf = pre @ utf8_string vs @ spellings es" by (simp add: buf_def)
  show p: "peek buf (length pre) \<noteq> CHR 0x5C" using s c by (simp add: b peek_append0) (simp add: peek_def)
  have "\<forall>x. next_char (spellings es) = Some x \<longrightarrow> \<not> (\<lambda>c. c \<noteq> CHR 0x5C) x"
    using next_char_escape [OF esc] by auto
  from scan_while_run [OF s this, of pre]
  have run: "scan_while (\<lambda>c. c \<noteq> CHR 0x5C) buf (length pre) = length pre + length (utf8_string vs)" by (simp add: b)
  show lt: "length pre < length buf" using c by (simp add: b)
  show "scan_while (\<lambda>c. c \<noteq> CHR 0x5C) buf (Suc (length pre)) = length pre + length (utf8_string vs)"
    using run scan_while_Suc [of "length pre" buf "\<lambda>c. c \<noteq> CHR 0x5C", OF lt p] by simp
  show "slice buf (length pre) (length pre + length (utf8_string vs)) = utf8_string vs"
    by (simp add: b slice_append_mid)
qed

end
