(* ===== verification/FixedPointLiteral.thy ===== *)
theory FixedPointLiteral
  imports NumericLiteral
begin

text \<open>
  The values of floating and fixed-point literals (\<open>GetFloatValue\<close>, \<open>GetFixedPointValue\<close> of
  \<open>lib/Lex/LiteralSupport.cpp\<close>).  \<open>llvm::APFloat\<close> and what a fixed-point value needs of \<open>llvm::APInt\<close> are
  parameters; \<open>StoreVal\<close> is an argument for the width that the code reads from it.
\<close>

section \<open>Floating literals\<close>

text \<open>The characters before the suffix, without separators; \<open>None\<close> where the conversion fails and so the assertion.\<close>

definition GetFloatValue :: "(string \<Rightarrow> 'f option) \<Rightarrow> string \<Rightarrow> num_parser \<Rightarrow> 'f option" where
  "GetFloatValue convertFromString buf np =
     (let n = min (SuffixBegin np) (length buf); Str = take n buf;
          Str = (if CHR 0x27 \<in> set Str then filter (\<lambda>c. \<not> isDigitSeparator c) Str else Str)
      in convertFromString Str)"

section \<open>Fixed-point literals\<close>

record 'a fixed_ops =
  apint_mul_word :: "'a \<Rightarrow> u64 \<Rightarrow> 'a"
  apint_add_word :: "'a \<Rightarrow> u64 \<Rightarrow> 'a"
  apint_udiv_word :: "'a \<Rightarrow> u64 \<Rightarrow> 'a"
  apint_shl :: "'a \<Rightarrow> nat \<Rightarrow> 'a"
  isNullValue :: "'a \<Rightarrow> bool"
  apint_ugt :: "'a \<Rightarrow> 'a \<Rightarrow> bool"
  apint_zext :: "'a \<Rightarrow> nat \<Rightarrow> 'a"
  apint_trunc :: "'a \<Rightarrow> nat \<Rightarrow> 'a"
  getMaxValue :: "nat \<Rightarrow> 'a"
  apint_of_string :: "nat \<Rightarrow> string \<Rightarrow> nat \<Rightarrow> 'a option"

definition IsExponentPart :: "char \<Rightarrow> bool" where
  "IsExponentPart c \<longleftrightarrow> c \<in> {CHR ''p'', CHR ''P'', CHR ''e'', CHR ''E''}"

text \<open>
  The scan of the exponent: where it begins, its sign, its value, and whether it has too many
  digits.  \<open>None\<close> is a scan past the token, \<open>llvm_unreachable\<close>, or an assertion of the conversion.
\<close>

definition fixed_exponent ::
  "'a apint_ops \<Rightarrow> 'a fixed_ops \<Rightarrow> string \<Rightarrow> num_parser \<Rightarrow> (nat \<times> bool \<times> u64 \<times> bool) option" where
  "fixed_exponent A F buf np =
     (let ExponentBegin = scan_while (\<lambda>c. \<not> IsExponentPart c) buf (DigitsBegin np) in
      if \<not> ExponentBegin < length buf then None
      else let Ptr = Suc ExponentBegin;
               NegativeExponent = (peek buf Ptr = CHR ''-'');
               Ptr = (if NegativeExponent then Suc Ptr else Ptr);
               NumExpDigits = SuffixBegin np - Ptr
      in case alwaysFitsInto64Bits (radix np) NumExpDigits of
          None \<Rightarrow> None
        | Some False \<Rightarrow> Some (ExponentBegin, NegativeExponent, 0, True)
        | Some True \<Rightarrow>
            (case apint_of_string F 64 (slice buf Ptr (SuffixBegin np)) 10 of
              None \<Rightarrow> None
            | Some ExpInt \<Rightarrow> Some (ExponentBegin, NegativeExponent, getZExtValue A ExpInt, False)))"

text \<open>The loop over the digits: the value and \<open>FractBaseShift\<close>.\<close>

fun fixed_loop :: "'a fixed_ops \<Rightarrow> (char \<Rightarrow> u32) \<Rightarrow> nat \<Rightarrow> string \<Rightarrow> 'a \<Rightarrow> bool \<Rightarrow> u64 \<Rightarrow> ('a \<times> u64) option" where
  "fixed_loop F hexDigitValue r [] Val FoundDecimal FractBaseShift = Some (Val, FractBaseShift)"
| "fixed_loop F hexDigitValue r (c # cs) Val FoundDecimal FractBaseShift =
     (if c = CHR ''.'' then fixed_loop F hexDigitValue r cs Val True FractBaseShift
      else let C = hexDigitValue c in
      if \<not> unat C < r then None
      else fixed_loop F hexDigitValue r cs (apint_add_word F (apint_mul_word F Val (of_nat r)) (ucast C))
        FoundDecimal (if FoundDecimal then FractBaseShift - 1 else FractBaseShift))"

text \<open>\<open>for (i = BaseShift; i < 0 && !Val.isNullValue(); ++i) Val = Val.udiv(Base)\<close>\<close>

fun divide_loop :: "'a fixed_ops \<Rightarrow> u64 \<Rightarrow> nat \<Rightarrow> 'a \<Rightarrow> 'a" where
  "divide_loop F Base 0 Val = Val"
| "divide_loop F Base (Suc n) Val =
     (if isNullValue F Val then Val else divide_loop F Base n (apint_udiv_word F Val Base))"

definition base_shift :: "'a fixed_ops \<Rightarrow> u64 \<Rightarrow> u64 \<Rightarrow> 'a \<Rightarrow> 'a" where
  "base_shift F Base BaseShift Val =
     (if 0 < sint BaseShift then ((\<lambda>Val. apint_mul_word F Val Base) ^^ nat (sint BaseShift)) Val
      else divide_loop F Base (nat (- sint BaseShift)) Val)"

definition store_value :: "'a apint_ops \<Rightarrow> 'a fixed_ops \<Rightarrow> 'a \<Rightarrow> 'a \<Rightarrow> 'a \<times> bool" where
  "store_value A F Val StoreVal =
     (let w = getBitWidth A StoreVal; MaxVal = getMaxValue F w in
      if getBitWidth A Val > w
      then (apint_trunc F Val w, apint_ugt F Val (apint_zext F MaxVal (getBitWidth A Val)))
      else if getBitWidth A Val < w
      then (apint_zext F Val w, apint_ugt F (apint_zext F Val (getBitWidth A MaxVal)) MaxVal)
      else (Val, False))"

text \<open>
  \<open>unsigned\<close> and 64-bit quantities are words.  The two asserts of \<open>APInt\<close>, a width that is not 0 and a
  shift within the width, are written out.
\<close>

definition GetFixedPointValue ::
  "'a apint_ops \<Rightarrow> 'a fixed_ops \<Rightarrow> (char \<Rightarrow> u32) \<Rightarrow> string \<Rightarrow> num_parser \<Rightarrow> 'a \<Rightarrow> u32 \<Rightarrow> ('a \<times> bool) option" where
  "GetFixedPointValue A F hexDigitValue buf np StoreVal Scale =
     (if radix np \<noteq> 16 \<and> radix np \<noteq> 10 then None
      else
      let NumDigits = (of_nat (SuffixBegin np - DigitsBegin np) - of_bool (saw_period np) :: u32) in
      case (if saw_exponent np then fixed_exponent A F buf np else Some (SuffixBegin np, False, 0, False)) of
        None \<Rightarrow> None
      | Some (End, NegativeExponent, Exponent, ExpOverflowOccurred) \<Rightarrow>
        let BaseShift = (if NegativeExponent then - Exponent else Exponent);
            NumBitsNeeded = (if radix np = 10 then 4 * (ucast NumDigits + Exponent) + ucast Scale
              else ucast (4 * NumDigits) + Exponent + ucast Scale);
            ExpOverflowOccurred = (ExpOverflowOccurred \<or> NumBitsNeeded > 0xFFFFFFFF);
            Width = unat (ucast NumBitsNeeded :: u32)
        in if Width = 0 then None
        else case fixed_loop F hexDigitValue (radix np) (slice buf (DigitsBegin np) End) (APInt A Width 0) False 0 of
          None \<Rightarrow> None
        | Some (Val, FractBaseShift) \<Rightarrow>
          let FractBaseShift = (if radix np = 16 then FractBaseShift * 4 else FractBaseShift);
              BaseShift = BaseShift + FractBaseShift
          in if \<not> unat Scale \<le> Width then None
          else let Val = apint_shl F Val (unat Scale);
                   Base = (if radix np = 16 then 2 else 10);
                   Val = base_shift F Base BaseShift Val;
                   (StoreVal, IntOverflowOccurred) = store_value A F Val StoreVal
          in Some (StoreVal, IntOverflowOccurred \<or> ExpOverflowOccurred))"

section \<open>What LLVM documents\<close>

definition decimal_text :: "string \<Rightarrow> bool" where
  "decimal_text s \<longleftrightarrow> s \<noteq> [] \<and> list_all isDigit s"

definition fixed_ops_ok :: "'a apint_ops \<Rightarrow> 'a fixed_ops \<Rightarrow> ('a \<Rightarrow> nat) \<Rightarrow> bool" where
  "fixed_ops_ok A F val \<longleftrightarrow>
     (\<forall>a n. getBitWidth A (apint_mul_word F a n) = getBitWidth A a \<and>
        val (apint_mul_word F a n) = val a * unat n mod 2 ^ getBitWidth A a) \<and>
     (\<forall>a n. getBitWidth A (apint_add_word F a n) = getBitWidth A a \<and>
        val (apint_add_word F a n) = (val a + unat n) mod 2 ^ getBitWidth A a) \<and>
     (\<forall>a n. n \<noteq> 0 \<longrightarrow> getBitWidth A (apint_udiv_word F a n) = getBitWidth A a \<and>
        val (apint_udiv_word F a n) = val a div unat n) \<and>
     (\<forall>a k. k \<le> getBitWidth A a \<longrightarrow> getBitWidth A (apint_shl F a k) = getBitWidth A a \<and>
        val (apint_shl F a k) = val a * 2 ^ k mod 2 ^ getBitWidth A a) \<and>
     (\<forall>a. isNullValue F a = (val a = 0)) \<and>
     (\<forall>a b. getBitWidth A a = getBitWidth A b \<longrightarrow> apint_ugt F a b = (val b < val a)) \<and>
     (\<forall>a w. getBitWidth A a < w \<longrightarrow> getBitWidth A (apint_zext F a w) = w \<and> val (apint_zext F a w) = val a) \<and>
     (\<forall>a w. 0 < w \<and> w < getBitWidth A a \<longrightarrow>
        getBitWidth A (apint_trunc F a w) = w \<and> val (apint_trunc F a w) = val a mod 2 ^ w) \<and>
     (\<forall>w. 0 < w \<longrightarrow> getBitWidth A (getMaxValue F w) = w \<and> val (getMaxValue F w) = 2 ^ w - 1) \<and>
     (\<forall>s. decimal_text s \<and> length s \<le> 20 \<longrightarrow>
        (\<exists>n. apint_of_string F 64 s 10 = Some n \<and> getBitWidth A n = 64 \<and> val n = digits_value 10 0 s mod 2 ^ 64) \<and>
        (\<exists>n. apint_of_string F 64 (CHR ''+'' # s) 10 = Some n \<and> getBitWidth A n = 64 \<and>
           val n = digits_value 10 0 s mod 2 ^ 64)) \<and>
     (\<forall>w s. \<not> list_all isDigit s \<and> hd s \<notin> {CHR ''+'', CHR ''-''} \<longrightarrow> apint_of_string F w s 10 = None)"

text \<open>\<open>APInt\<close> as a width and a number, as in \<open>apint_model\<close>.\<close>

definition fixed_model :: "(nat \<times> nat) fixed_ops" where
  "fixed_model = \<lparr>apint_mul_word = (\<lambda>a n. (fst a, apint_val a * unat n)),
     apint_add_word = (\<lambda>a n. (fst a, apint_val a + unat n)),
     apint_udiv_word = (\<lambda>a n. (fst a, apint_val a div unat n)),
     apint_shl = (\<lambda>a k. (fst a, apint_val a * 2 ^ k)),
     isNullValue = (\<lambda>a. apint_val a = 0),
     apint_ugt = (\<lambda>a b. apint_val b < apint_val a),
     apint_zext = (\<lambda>a w. (w, apint_val a)), apint_trunc = (\<lambda>a w. (w, apint_val a)),
     getMaxValue = (\<lambda>w. (w, 2 ^ w - 1)),
     apint_of_string = (\<lambda>w s r. let ds = (if s \<noteq> [] \<and> hd s = CHR ''+'' then tl s else s)
       in if decimal_text ds then Some (w, digits_value 10 0 ds) else None)\<rparr>"

lemma apint_val_below: "v < 2 ^ w \<Longrightarrow> apint_val (w, v) = v"
  by (simp add: apint_val_def)

lemma fixed_model_ok: "fixed_ops_ok apint_model fixed_model apint_val"
proof -
  have div: "x mod 2 ^ w div y mod 2 ^ w = x mod 2 ^ w div y" for x y w :: nat
    by (intro mod_less le_less_trans [OF div_le_dividend]) simp
  have ext: "x mod 2 ^ w mod 2 ^ v = x mod 2 ^ w" if "w < v" for x w v :: nat
    using that by (intro mod_less less_le_trans [OF mod_less_divisor]) (simp_all add: power_increasing)
  have cut: "x mod 2 ^ w mod 2 ^ v = x mod 2 ^ v" if "v < w" for x w v :: nat
    using that by (intro mod_mod_cancel le_imp_power_dvd) simp
  have sign: "\<not> isDigit (CHR ''+'')" by (simp add: char_iffs)
  show ?thesis
    unfolding fixed_ops_ok_def
    by (intro conjI; simp add: fixed_model_def apint_model_def apint_val_def div ext Let_def decimal_text_def)
       (use sign in \<open>force simp: list_all_iff neq_Nil_conv\<close>)
qed

lemma fixed_laws:
  assumes "fixed_ops_ok A F val"
  shows "getBitWidth A (apint_mul_word F a n) = getBitWidth A a"
    "val (apint_mul_word F a n) = val a * unat n mod 2 ^ getBitWidth A a"
    "getBitWidth A (apint_add_word F a n) = getBitWidth A a"
    "val (apint_add_word F a n) = (val a + unat n) mod 2 ^ getBitWidth A a"
    "n \<noteq> 0 \<Longrightarrow> getBitWidth A (apint_udiv_word F a n) = getBitWidth A a"
    "n \<noteq> 0 \<Longrightarrow> val (apint_udiv_word F a n) = val a div unat n"
    "k \<le> getBitWidth A a \<Longrightarrow> getBitWidth A (apint_shl F a k) = getBitWidth A a"
    "k \<le> getBitWidth A a \<Longrightarrow> val (apint_shl F a k) = val a * 2 ^ k mod 2 ^ getBitWidth A a"
    "isNullValue F a = (val a = 0)"
  using assms by (simp_all add: fixed_ops_ok_def)

lemma fixed_laws_string:
  assumes "fixed_ops_ok A F val" "decimal_text s" "length s \<le> 20" "sg \<in> {[], ''+''}"
  obtains n where "apint_of_string F 64 (sg @ s) 10 = Some n" "getBitWidth A n = 64"
    "val n = digits_value 10 0 s mod 2 ^ 64"
proof -
  have "\<exists>n. apint_of_string F 64 s 10 = Some n \<and> getBitWidth A n = 64 \<and> val n = digits_value 10 0 s mod 2 ^ 64"
    and "\<exists>n. apint_of_string F 64 (CHR ''+'' # s) 10 = Some n \<and> getBitWidth A n = 64 \<and>
           val n = digits_value 10 0 s mod 2 ^ 64"
    using assms(1-3) unfolding fixed_ops_ok_def by blast+
  then show ?thesis using assms(4) that by auto
qed

section \<open>The digits\<close>

lemma unat_hex_digit: "hexDigitValue_ok h \<Longrightarrow> isHexDigit c \<Longrightarrow> unat (h c) = hex_value c"
  by (rule unat_hexDigitValue)

definition real_digit :: "nat \<Rightarrow> char \<Rightarrow> bool" where
  "real_digit r c \<longleftrightarrow> isHexDigit c \<and> hex_value c < r"

lemma real_digit_no_point: "real_digit r c \<Longrightarrow> c \<noteq> CHR ''.''"
  by (auto simp: real_digit_def char_iffs)

lemma digits_below:
  "\<forall>c \<in> set cs. real_digit r c \<Longrightarrow> 0 < r \<Longrightarrow> digits_value r v cs < (v + 1) * r ^ length cs"
  by (intro digits_value_less) (auto simp: real_digit_def)

lemma fixed_loop_digits:
  assumes h: "hexDigitValue_ok h" and F: "fixed_ops_ok A F val" and r: "r \<in> {10, 16}"
  shows "\<forall>c \<in> set cs. real_digit r c \<Longrightarrow> (val Val + 1) * r ^ length cs \<le> 2 ^ getBitWidth A Val \<Longrightarrow>
    \<exists>V. fixed_loop F h r (cs @ rest) Val fd sh =
        fixed_loop F h r rest V fd (if fd then sh - of_nat (length cs) else sh) \<and>
      getBitWidth A V = getBitWidth A Val \<and> val V = digits_value r (val Val) cs"
proof (induction cs arbitrary: Val sh)
  case (Cons c cs)
  let ?w = "getBitWidth A Val" and ?d = "hex_value c"
  let ?M = "apint_mul_word F Val (of_nat r)"
  let ?V = "apint_add_word F ?M (ucast (h c))"
  have c: "isHexDigit c" "?d < r" "c \<noteq> CHR ''.''"
    using Cons.prems(1) real_digit_no_point by (auto simp: real_digit_def)
  have u: "unat (h c) = ?d" by (rule unat_hex_digit [OF h c(1)])
  have uc: "unat (ucast (h c) :: u64) = ?d"
    using u c(2) r by (simp add: unsigned_ucast_eq take_bit_eq_mod) (auto intro!: mod_less)
  have ur: "unat (of_nat r :: u64) = r" using r by auto
  have pos: "0 < r" using r by auto
  have step: "(val Val * r + ?d + 1) * r ^ length cs \<le> 2 ^ ?w"
  proof -
    have "(val Val * r + ?d + 1) * r ^ length cs \<le> (val Val * r + r) * r ^ length cs"
      using c(2) by (intro mult_right_mono) auto
    also have "\<dots> = (val Val + 1) * r ^ length (c # cs)" by (simp add: algebra_simps)
    also have "\<dots> \<le> 2 ^ ?w" by (rule Cons.prems(2))
    finally show ?thesis .
  qed
  have "1 \<le> r ^ length cs" using pos by simp
  then have "(val Val * r + ?d + 1) * 1 \<le> (val Val * r + ?d + 1) * r ^ length cs" by (intro mult_left_mono) auto
  from order_trans [OF this step] have small: "val Val * r + ?d < 2 ^ ?w" by simp
  have M: "getBitWidth A ?M = ?w" "val ?M = val Val * r"
    using small ur by (simp_all add: fixed_laws [OF F])
  have V: "getBitWidth A ?V = ?w" "val ?V = r * val Val + ?d"
    using M small uc by (simp_all add: fixed_laws [OF F] mult.commute)
  have "(val ?V + 1) * r ^ length cs \<le> 2 ^ getBitWidth A ?V"
    using step V by (simp add: mult.commute)
  from Cons.IH [OF _ this, of "if fd then sh - 1 else sh"] Cons.prems(1)
  obtain W where W: "fixed_loop F h r (cs @ rest) ?V fd (if fd then sh - 1 else sh) =
      fixed_loop F h r rest W fd (if fd then (if fd then sh - 1 else sh) - of_nat (length cs) else (if fd then sh - 1 else sh))"
    "getBitWidth A W = getBitWidth A ?V" "val W = digits_value r (val ?V) cs" by auto
  have "fixed_loop F h r ((c # cs) @ rest) Val fd sh =
      fixed_loop F h r (cs @ rest) ?V fd (if fd then sh - 1 else sh)"
    using c u by (simp add: Let_def)
  with W V show ?case by (intro exI [of _ W]) (simp add: algebra_simps)
next
  case Nil
  show ?case by (intro exI [of _ Val]) simp
qed

section \<open>The shift by the exponent\<close>

lemma multiply_power:
  assumes F: "fixed_ops_ok A F val"
  shows "val Val * unat b ^ n < 2 ^ getBitWidth A Val \<Longrightarrow> 0 < unat b \<Longrightarrow>
    getBitWidth A (((\<lambda>Val. apint_mul_word F Val b) ^^ n) Val) = getBitWidth A Val \<and>
    val (((\<lambda>Val. apint_mul_word F Val b) ^^ n) Val) = val Val * unat b ^ n"
proof (induction n)
  case (Suc n)
  have "val Val * unat b ^ n \<le> val Val * unat b ^ Suc n" using Suc.prems(2) by simp
  with Suc have "getBitWidth A (((\<lambda>Val. apint_mul_word F Val b) ^^ n) Val) = getBitWidth A Val"
    "val (((\<lambda>Val. apint_mul_word F Val b) ^^ n) Val) = val Val * unat b ^ n" by linarith+
  with Suc.prems show ?case by (simp add: fixed_laws [OF F] ac_simps)
qed simp

lemma divide_power:
  assumes F: "fixed_ops_ok A F val" and b: "b \<noteq> 0"
  shows "getBitWidth A (divide_loop F b n Val) = getBitWidth A Val \<and>
    val (divide_loop F b n Val) = val Val div unat b ^ n"
proof (induction n arbitrary: Val)
  case (Suc n)
  show ?case
  proof (cases "val Val = 0")
    case True
    then show ?thesis by (simp add: fixed_laws [OF F])
  next
    case False
    then have "\<not> isNullValue F Val" by (simp add: fixed_laws [OF F])
    moreover have "getBitWidth A (apint_udiv_word F Val b) = getBitWidth A Val"
      "val (apint_udiv_word F Val b) = val Val div unat b"
      using b by (simp_all add: fixed_laws [OF F])
    ultimately show ?thesis using Suc [of "apint_udiv_word F Val b"] by (simp add: div_mult2_eq)
  qed
qed simp

text \<open>The value of a number moved by \<open>k\<close> places of the base, rounded down.\<close>

definition moved :: "nat \<Rightarrow> int \<Rightarrow> nat \<Rightarrow> nat" where
  "moved b k v = (if 0 \<le> k then v * b ^ nat k else v div b ^ nat (- k))"

lemma base_shift_value:
  assumes F: "fixed_ops_ok A F val" and b: "b \<noteq> 0"
    and fits: "val Val * unat b ^ nat (sint k) < 2 ^ getBitWidth A Val"
  shows "getBitWidth A (base_shift F b k Val) = getBitWidth A Val \<and>
    val (base_shift F b k Val) = moved (unat b) (sint k) (val Val)"
proof (cases "0 < sint k")
  case True
  have "0 < unat b" using b by (simp add: unat_gt_0)
  from multiply_power [OF F fits this] True show ?thesis by (simp add: base_shift_def moved_def)
next
  case False
  with divide_power [OF F b, of "nat (- sint k)" Val] show ?thesis
    by (auto simp: base_shift_def moved_def)
qed

lemma store_value_exact:
  assumes A: "APInt_ok A val" and F: "fixed_ops_ok A F val" and w: "0 < getBitWidth A StoreVal"
    and s: "store_value A F Val StoreVal = (V, ov)"
  shows "getBitWidth A V = getBitWidth A StoreVal \<and> val V = val Val mod 2 ^ getBitWidth A StoreVal \<and>
    ov = (2 ^ getBitWidth A StoreVal \<le> val Val)"
proof -
  let ?w = "getBitWidth A StoreVal" and ?v = "getBitWidth A Val"
  have below: "val Val < 2 ^ ?v" using A by (simp add: APInt_ok_def)
  have M: "getBitWidth A (getMaxValue F ?w) = ?w" "val (getMaxValue F ?w) = 2 ^ ?w - 1"
    using F w by (simp_all add: fixed_ops_ok_def)
  have top: "2 ^ ?w - 1 < n \<longleftrightarrow> 2 ^ ?w \<le> n" for n :: nat
    using zero_less_power [of "2 :: nat" ?w] by linarith
  consider "?w < ?v" | "?v < ?w" | "?v = ?w" by linarith
  then show ?thesis
  proof cases
    case 1
    then have "getBitWidth A (apint_zext F (getMaxValue F ?w) ?v) = ?v"
      "val (apint_zext F (getMaxValue F ?w) ?v) = 2 ^ ?w - 1"
      "getBitWidth A (apint_trunc F Val ?w) = ?w" "val (apint_trunc F Val ?w) = val Val mod 2 ^ ?w"
      using F M w by (simp_all add: fixed_ops_ok_def)
    moreover from this have "apint_ugt F Val (apint_zext F (getMaxValue F ?w) ?v) = (2 ^ ?w - 1 < val Val)"
      using F by (simp add: fixed_ops_ok_def)
    ultimately show ?thesis using s 1 unfolding top by (auto simp: store_value_def Let_def)
  next
    case 2
    then have "(2 :: nat) ^ ?v \<le> 2 ^ ?w" by (intro power_increasing) auto
    with below have lt: "val Val < 2 ^ ?w" by linarith
    have Z: "getBitWidth A (apint_zext F Val ?w) = ?w" "val (apint_zext F Val ?w) = val Val"
      using F 2 by (simp_all add: fixed_ops_ok_def)
    then have "apint_ugt F (apint_zext F Val ?w) (getMaxValue F ?w) = (2 ^ ?w - 1 < val Val)"
      using F M by (simp add: fixed_ops_ok_def)
    with Z M s 2 lt show ?thesis unfolding top by (auto simp: store_value_def Let_def)
  next
    case 3
    with s below show ?thesis by (auto simp: store_value_def Let_def)
  qed
qed

section \<open>The parts of a fixed-point literal\<close>

text \<open>The digits, the digits after a point if there is one, and the exponent: its letter, sign and digits.\<close>

definition fraction_digits :: "string option \<Rightarrow> string" where
  "fraction_digits fs = (case fs of None \<Rightarrow> [] | Some ds \<Rightarrow> ds)"

definition significand_text :: "string \<Rightarrow> string option \<Rightarrow> string" where
  "significand_text ds fs = ds @ (case fs of None \<Rightarrow> [] | Some fds \<Rightarrow> CHR ''.'' # fds)"

definition fixed_text :: "string \<Rightarrow> string option \<Rightarrow> (char \<times> string \<times> string) option \<Rightarrow> string" where
  "fixed_text ds fs ex = significand_text ds fs @ (case ex of None \<Rightarrow> [] | Some (e, sg, xs) \<Rightarrow> e # sg @ xs)"

definition significand_ok :: "nat \<Rightarrow> string \<Rightarrow> string option \<Rightarrow> bool" where
  "significand_ok r ds fs \<longleftrightarrow> ds @ fraction_digits fs \<noteq> [] \<and>
     (\<forall>c \<in> set (ds @ fraction_digits fs). real_digit r c \<and> \<not> IsExponentPart c)"

definition exponent_ok :: "(char \<times> string \<times> string) option \<Rightarrow> bool" where
  "exponent_ok ex \<longleftrightarrow> (case ex of None \<Rightarrow> True
     | Some (e, sg, xs) \<Rightarrow> IsExponentPart e \<and> sg \<in> {[], ''+'', ''-''} \<and> decimal_text xs \<and> length xs \<le> 15)"

definition exponent_size :: "(char \<times> string \<times> string) option \<Rightarrow> nat" where
  "exponent_size ex = (case ex of None \<Rightarrow> 0 | Some (e, sg, xs) \<Rightarrow> digits_value 10 0 xs)"

definition exponent_negative :: "(char \<times> string \<times> string) option \<Rightarrow> bool" where
  "exponent_negative ex \<longleftrightarrow> (case ex of None \<Rightarrow> False | Some (e, sg, xs) \<Rightarrow> sg = ''-'')"

text \<open>
  The value the literal stands for, in units of \<open>2\<^sup>-\<^sup>S\<close>, rounded down: the digits, moved by the exponent and the
  digits after the point.  The exponent of a hexadecimal literal is one of 2.
\<close>

definition exponent_base :: "nat \<Rightarrow> nat" where
  "exponent_base r = (if r = 16 then 2 else 10)"

definition literal_shift :: "nat \<Rightarrow> string option \<Rightarrow> (char \<times> string \<times> string) option \<Rightarrow> int" where
  "literal_shift r fs ex = (if exponent_negative ex then - int (exponent_size ex) else int (exponent_size ex)) -
     int ((if r = 16 then 4 else 1) * length (fraction_digits fs))"

definition literal_value ::
  "nat \<Rightarrow> nat \<Rightarrow> string \<Rightarrow> string option \<Rightarrow> (char \<times> string \<times> string) option \<Rightarrow> nat" where
  "literal_value r S ds fs ex =
     moved (exponent_base r) (literal_shift r fs ex) (digits_value r 0 (ds @ fraction_digits fs) * 2 ^ S)"

lemma scan_while_to:
  assumes "i \<le> j" "j < length buf" "\<And>k. i \<le> k \<Longrightarrow> k < j \<Longrightarrow> test (peek buf k)" "\<not> test (peek buf j)"
  shows "scan_while test buf i = j"
proof -
  let ?e = "scan_while test buf i"
  have "\<not> ?e < j"
  proof
    assume lt: "?e < j"
    then have "\<not> test (peek buf ?e)" using assms(2) by (intro scan_while_stop) simp
    with assms(3) [of ?e] lt scan_while_ge show False by blast
  qed
  moreover have "\<not> j < ?e" using scan_while_all [of i j test buf] assms(1,4) by blast
  ultimately show ?thesis by simp
qed

lemma slice_parts:
  assumes "slice buf d s = xs @ ys" "d \<le> s" "s \<le> length buf"
  shows "slice buf d (d + length xs) = xs" "slice buf (d + length xs) s = ys" "d + length xs \<le> s"
    "\<And>k. k < length xs \<Longrightarrow> peek buf (d + k) = xs ! k"
proof -
  have "length (xs @ ys) = s - d" using assms by (metis length_slice)
  then show le: "d + length xs \<le> s" using assms(2) by simp
  have "slice buf d (d + length xs) @ slice buf (d + length xs) s = xs @ ys"
    using slice_append [of d "d + length xs" s buf] le assms(1) by simp
  moreover have "length (slice buf d (d + length xs)) = length xs" using le assms(3) by simp
  ultimately have "slice buf d (d + length xs) = xs \<and> slice buf (d + length xs) s = ys"
    using append_eq_append_conv by blast
  then show sl: "slice buf d (d + length xs) = xs" "slice buf (d + length xs) s = ys" by simp_all
  show "peek buf (d + k) = xs ! k" if "k < length xs" for k
    using nth_slice [of d k "d + length xs" buf] that sl(1) le assms(3) by simp
qed

lemma digits_value_small: "decimal_text xs \<Longrightarrow> length xs \<le> 15 \<Longrightarrow> digits_value 10 0 xs < 10 ^ 15"
proof -
  assume xs: "decimal_text xs" "length xs \<le> 15"
  have "hex_value c < 10" if "isDigit c" for c using that by (auto simp: hex_value_def isDigit_iff)
  then have "digits_value 10 0 xs < (0 + 1) * 10 ^ length xs"
    using xs by (intro digits_value_less) (auto simp: decimal_text_def list_all_iff)
  also have "\<dots> \<le> 10 ^ 15" using power_increasing [OF xs(2), of "10 :: nat"] by simp
  finally show ?thesis .
qed

lemma exponent_size_small: "exponent_ok ex \<Longrightarrow> exponent_size ex < 10 ^ 15"
  using digits_value_small by (auto simp: exponent_ok_def exponent_size_def split: option.splits)

lemma significand_no_exponent:
  "significand_ok r ds fs \<Longrightarrow> \<forall>c \<in> set (significand_text ds fs). \<not> IsExponentPart c"
  by (auto simp: significand_ok_def significand_text_def fraction_digits_def IsExponentPart_def split: option.splits)

section \<open>The exponent\<close>

lemma fits_64_bits: "r \<in> {10, 16} \<Longrightarrow> n \<le> 16 \<Longrightarrow> alwaysFitsInto64Bits r n = Some True"
  by (auto simp: alwaysFitsInto64Bits_def)

lemma fixed_exponent_value:
  assumes A: "APInt_ok A val" and F: "fixed_ops_ok A F val" and r: "radix np \<in> {10, 16}"
    and sig: "\<forall>c \<in> set sig. \<not> IsExponentPart c" and ex: "exponent_ok (Some (e, sg, xs))"
    and sl: "slice buf (DigitsBegin np) (SuffixBegin np) = sig @ e # sg @ xs"
    and le: "DigitsBegin np \<le> SuffixBegin np" "SuffixBegin np \<le> length buf"
  shows "fixed_exponent A F buf np =
    Some (DigitsBegin np + length sig, sg = ''-'', of_nat (digits_value 10 0 xs), False)"
proof -
  let ?d = "DigitsBegin np" and ?s = "SuffixBegin np" and ?E = "digits_value 10 0 xs"
  let ?p = "?d + length sig" and ?q = "if sg = ''-'' then ''-'' else []"
  let ?t = "if sg = ''-'' then xs else sg @ xs"
  from ex have e: "IsExponentPart e" and sg: "sg \<in> {[], ''+'', ''-''}"
    and xs: "decimal_text xs" "length xs \<le> 15" by (auto simp: exponent_ok_def)
  have E: "?E < 10 ^ 15" by (rule digits_value_small [OF xs])
  note s1 = slice_parts [OF sl le]
  have pe: "peek buf ?p = e"
    using slice_parts(4) [of buf ?d ?s "sig @ [e]" "sg @ xs" "length sig"] sl le by (simp add: nth_append)
  have len: "?s = ?p + Suc (length sg + length xs)"
    using arg_cong [OF sl, of length] le by simp
  have lt: "?p < length buf" using len le by simp
  have scan: "scan_while (\<lambda>c. \<not> IsExponentPart c) buf ?d = ?p"
  proof (rule scan_while_to)
    show "\<not> IsExponentPart (peek buf k)" if k: "?d \<le> k" "k < ?p" for k
    proof -
      have "peek buf (?d + (k - ?d)) = sig ! (k - ?d)" using k by (intro s1(4)) auto
      then show ?thesis using k sig by simp
    qed
  qed (use lt e pe in auto)
  have split: "sig @ e # sg @ xs = (sig @ e # ?q) @ ?t" using sg by auto
  note s2 = slice_parts [OF sl [unfolded split] le]
  have q: "?d + length (sig @ e # ?q) = (if sg = ''-'' then Suc (Suc ?p) else Suc ?p)" by simp
  have minus: "(peek buf (Suc ?p) = CHR ''-'') = (sg = ''-'')"
  proof -
    obtain x xs' where x: "xs = x # xs'" "isDigit x" using xs(1) by (cases xs) (auto simp: decimal_text_def)
    have "peek buf (Suc ?p) = (sg @ xs) ! 0"
      using slice_parts(4) [of buf ?d ?s "sig @ e # sg @ xs" "[]" "Suc (length sig)"] sl le x by (simp add: nth_append)
    moreover have "x \<noteq> CHR ''-''" using x(2) by (auto simp: char_iffs)
    ultimately show ?thesis using sg x(1) by auto
  qed
  have t: "\<exists>n. apint_of_string F 64 ?t 10 = Some n \<and> getZExtValue A n = of_nat ?E"
  proof -
    obtain n where n: "apint_of_string F 64 ?t 10 = Some n" "getBitWidth A n = 64" "val n = ?E mod 2 ^ 64"
    proof (cases "sg = ''-''")
      case True
      then show ?thesis
        using fixed_laws_string [OF F xs(1), of "[]"] xs(2) that by auto
    next
      case False
      then show ?thesis
        using fixed_laws_string [OF F xs(1), of sg] xs(2) sg that by auto
    qed
    then have u: "unat (getZExtValue A n) = ?E" using A E by (simp add: APInt_ok_def)
    have "getZExtValue A n = of_nat (unat (getZExtValue A n))" by simp
    then have "getZExtValue A n = of_nat ?E" unfolding u .
    with n show ?thesis by blast
  qed
  have fits: "alwaysFitsInto64Bits (radix np) (?s - (?d + length (sig @ e # ?q))) = Some True"
    using len xs(2) sg by (intro fits_64_bits [OF r]) auto
  from t s2(2) fits show ?thesis
    unfolding fixed_exponent_def Let_def scan minus q [symmetric] using lt by auto
qed

section \<open>The value\<close>

lemma sint_of_int_small: "- (2 ^ 63) \<le> K \<Longrightarrow> K < 2 ^ 63 \<Longrightarrow> sint (word_of_int K :: u64) = K"
  by (simp add: signed_of_int signed_take_bit_int_eq_self)

definition bits_needed :: "nat \<Rightarrow> nat \<Rightarrow> nat \<Rightarrow> nat \<Rightarrow> nat" where
  "bits_needed r n E S = (if r = 10 then 4 * (n + E) + S else 4 * n + E + S)"

lemma bits_needed_enough:
  assumes r: "r \<in> {10, 16}" and v: "v < r ^ n" and n: "n \<le> N" and E: "k \<le> E"
  shows "v * 2 ^ S * exponent_base r ^ k < 2 ^ bits_needed r N E S"
proof -
  let ?b = "exponent_base r"
  let ?m = "if r = 10 then 4 else 1"
  have r16: "r ^ n \<le> 2 ^ (4 * n)" using r power_mono [of r 16 n] by (auto simp: power_mult)
  have b16: "?b ^ k \<le> 2 ^ (?m * k)"
    using r power_mono [of ?b 16 k] by (auto simp: exponent_base_def power_mult)
  have "v * 2 ^ S * ?b ^ k < r ^ n * 2 ^ S * ?b ^ k" using v r by (auto simp: exponent_base_def)
  also have "\<dots> \<le> 2 ^ (4 * n) * 2 ^ S * 2 ^ (?m * k)"
    by (intro mult_mono r16 b16) simp_all
  also have "\<dots> = 2 ^ (4 * n + S + ?m * k)" by (simp add: power_add)
  also have "\<dots> \<le> 2 ^ bits_needed r N E S"
    using n E by (intro power_increasing) (auto simp: bits_needed_def)
  finally show ?thesis .
qed

text \<open>The digits of the significand, read into \<open>w\<close> bits.\<close>

lemma significand_value:
  assumes h: "hexDigitValue_ok h" and A: "APInt_ok A val" and F: "fixed_ops_ok A F val" and r: "r \<in> {10, 16}"
    and ok: "significand_ok r ds fs" and w: "4 * length (ds @ fraction_digits fs) \<le> w"
  shows "\<exists>V. fixed_loop F h r (significand_text ds fs) (APInt A w 0) False 0 =
      Some (V, - of_nat (length (fraction_digits fs))) \<and> getBitWidth A V = w \<and>
      val V = digits_value r 0 (ds @ fraction_digits fs)"
proof -
  let ?F = "fraction_digits fs"
  have dig: "\<forall>c \<in> set ds. real_digit r c" "\<forall>c \<in> set ?F. real_digit r c"
    using ok by (auto simp: significand_ok_def)
  have Z: "getBitWidth A (APInt A w 0) = w" "val (APInt A w 0) = 0" using A by (simp_all add: APInt_ok_def)
  have r16: "r ^ n \<le> 2 ^ w" if "4 * n \<le> w" for n
  proof -
    have "r ^ n \<le> 2 ^ (4 * n)" using r power_mono [of r 16 n] by (auto simp: power_mult)
    also have "(2 :: nat) ^ (4 * n) \<le> 2 ^ w" using that by (intro power_increasing) auto
    finally show ?thesis .
  qed
  have "(val (APInt A w 0) + 1) * r ^ length ds \<le> 2 ^ getBitWidth A (APInt A w 0)"
    using r16 [of "length ds"] w Z by simp
  note loop = fixed_loop_digits [OF h F r dig(1) this]
  show ?thesis
  proof (cases fs)
    case None
    with loop [of "[]" False 0] Z show ?thesis
      by (auto simp: significand_text_def fraction_digits_def)
  next
    case (Some fds)
    then have f: "?F = fds" by (simp add: fraction_digits_def)
    from loop [of "CHR ''.'' # fds" False 0] obtain U where U:
      "fixed_loop F h r (ds @ CHR ''.'' # fds) (APInt A w 0) False 0 = fixed_loop F h r fds U True 0"
      "getBitWidth A U = w" "val U = digits_value r 0 ds" using Z by auto
    have "(val U + 1) * r ^ length fds \<le> 2 ^ getBitWidth A U"
    proof -
      have "val U + 1 \<le> r ^ length ds" using digits_below [OF dig(1), of 0] r U(3) by auto
      then have "(val U + 1) * r ^ length fds \<le> r ^ length ds * r ^ length fds" by (rule mult_right_mono) simp
      also have "\<dots> \<le> 2 ^ w" using r16 [of "length (ds @ fds)"] w f by (simp add: power_add)
      finally show ?thesis using U(2) by simp
    qed
    from fixed_loop_digits [where cs = fds and rest = "[]" and fd = True and sh = 0, OF h F r _ this] dig(2) f
    obtain V where "fixed_loop F h r fds U True 0 = Some (V, - of_nat (length fds))"
      "getBitWidth A V = w" "val V = digits_value r (val U) fds" using U(2) by auto
    with U Some f show ?thesis by (simp add: significand_text_def)
  qed
qed

text \<open>The words of the computation, without wrapping.\<close>

lemma shift_word:
  assumes "E < 10 ^ 15" "n < 2 ^ 32"
  shows "sint ((if neg then - of_nat E else of_nat E) + (if r = (16 :: nat) then - of_nat n * 4 else - of_nat n) :: u64) =
    (if neg then - int E else int E) - int ((if r = 16 then 4 else 1) * n)"
proof -
  let ?K = "(if neg then - int E else int E) - int ((if r = 16 then 4 else 1) * n)"
  have "(if neg then - of_nat E else of_nat E) + (if r = 16 then - of_nat n * 4 else - of_nat n) = (word_of_int ?K :: u64)"
    by simp
  moreover have "sint (word_of_int ?K :: u64) = ?K"
    using assms by (intro sint_of_int_small) auto
  ultimately show ?thesis by (simp only:)
qed

lemma bits_word:
  assumes r: "r \<in> {10, 16 :: nat}" and b: "bits_needed r N E S < 2 ^ 32" and S: "S = unat (Scale :: u32)"
  shows "(if r = 10 then 4 * (ucast (of_nat N :: u32) + of_nat E) + ucast Scale
      else ucast (4 * of_nat N :: u32) + of_nat E + ucast Scale) = (of_nat (bits_needed r N E S) :: u64)"
proof -
  have N: "4 * N < 2 ^ 32" using b by (simp add: bits_needed_def split: if_splits)
  have u: "(ucast (of_nat n :: u32) :: u64) = of_nat n" if "n < 2 ^ 32" for n
  proof -
    have "unat (of_nat n :: u32) = n" "unat (of_nat n :: u64) = n" using that by (simp_all add: unat_of_nat)
    then have "unat (ucast (of_nat n :: u32) :: u64) = unat (of_nat n :: u64)"
      using that by (simp add: unsigned_ucast_eq take_bit_eq_mod)
    then show ?thesis by (simp only: word_unat_eq_iff)
  qed
  have "(4 * of_nat N :: u32) = of_nat (4 * N)" by simp
  moreover have "(ucast Scale :: u64) = of_nat S" using u [of S] S by simp
  ultimately show ?thesis using u [of N] u [OF N] N r by (auto simp: bits_needed_def)
qed

lemma significand_length:
  "length (significand_text ds fs) = length (ds @ fraction_digits fs) + of_bool (fs \<noteq> None)"
  by (simp add: significand_text_def fraction_digits_def split: option.splits)


section \<open>Instances\<close>

definition fixed_point_options :: lang_options where
  "fixed_point_options = \<lparr>CPlusPlus = False, CPlusPlus11 = False, CPlusPlus14 = False, CPlusPlus17 = False,
     CPlusPlus20 = False, C99 = True, FixedPoint = True, Half = False, MicrosoftExt = False, CUDA = False,
     HexFloats = True\<rparr>"

definition parsed_decimal :: num_parser where
  "parsed_decimal = initial_parser\<lparr>cur := 8, radix := 10, DigitsBegin := 0, SuffixBegin := 7, saw_period := True,
     saw_exponent := True, saw_fixed_point_suffix := True, isAccum := True\<rparr>"

lemma parsed_decimal:
  "NumericLiteralParser fixed_point_options False hexDigitValue_model (\<lambda>_. None) ''12.5e-1k'' = Some parsed_decimal"
  by code_simp


section \<open>The digit \<open>e\<close>\<close>

definition parsed_hex :: num_parser where
  "parsed_hex = initial_parser\<lparr>cur := 9, radix := 16, DigitsBegin := 2, SuffixBegin := 8, saw_period := True,
     saw_exponent := True, saw_fixed_point_suffix := True, isFract := True\<rparr>"

lemma parsed_hex:
  "NumericLiteralParser fixed_point_options False hexDigitValue_model (\<lambda>_. None) ''0x0e.8p1r'' = Some parsed_hex"
  by code_simp



end
