(* ===== verification/CharLiteral.thy ===== *)
theory CharLiteral
  imports LiteralElements FixedPointLiteral
begin

text \<open>
  Character literals (\<open>CharLiteralParser\<close> of \<open>lib/Lex/LiteralSupport.cpp\<close>).  A token is the string of its
  spelling.  \<open>codepoint_buffer\<close> is the list of what has been written so far, with its size.  \<open>None\<close> is a failed
  assertion, \<open>llvm_unreachable\<close>, a write past the buffer or a read past the closing quote.
\<close>

section \<open>The loop over the characters\<close>

datatype char_diag =
    char_escape_diag nat escape_diag
  | err_bad_character_encoding
  | warn_bad_character_encoding
  | err_character_too_large
  | warn_extraneous_char_constant
  | ext_four_char_character_literal
  | ext_multichar_character_literal
  | err_multichar_utf_character_literal
  | warn_char_constant_too_large

definition escape_diags_of :: "escape_diags \<Rightarrow> char_diag list" where
  "escape_diags_of ds = (case ds of None \<Rightarrow> [] | Some ds \<Rightarrow> map (\<lambda>(p, d). char_escape_diag p d) ds)"

definition largest_character_for_kind :: "target_info \<Rightarrow> literal_kind \<Rightarrow> u32" where
  "largest_character_for_kind t Kind = (case Kind of
       wide_char_constant \<Rightarrow> drop_bit (32 - WCharWidth t) 0xFFFFFFFF
     | utf8_char_constant \<Rightarrow> 0x7F
     | utf16_char_constant \<Rightarrow> 0xFFFF
     | utf32_char_constant \<Rightarrow> 0x10FFFF
     | _ \<Rightarrow> 0x7F)"

type_synonym char_state = "u32 list \<times> bool \<times> char_diag list"

text \<open>A span without escapes: where it ends, and the state after it.\<close>

definition char_span :: "literal_env \<Rightarrow> literal_kind \<Rightarrow> nat \<Rightarrow> string \<Rightarrow> nat \<Rightarrow> char_state \<Rightarrow> (nat \<times> char_state) option" where
  "char_span env Kind Size buf P st = (case st of (out, err, diags) \<Rightarrow>
     let E = scan_while (\<lambda>c. c \<noteq> CHR 0x5C) buf (Suc P); start = slice buf P E;
         (ok, us) = utf8_to_utf32 env start (Size - length out)
     in if ok then
          let large = filter (\<lambda>u. u > largest_character_for_kind (target env) Kind) us
          in Some (E, out @ us, err \<or> large \<noteq> [], diags @ map (\<lambda>_. err_character_too_large) large)
        else if Kind = char_constant then
          (if length out + length start \<le> Size
           then Some (E, out @ map of_char start, err, diags @ [warn_bad_character_encoding]) else None)
        else Some (E, out @ us, True, diags @ [err_bad_character_encoding]))"

text \<open>The value that a name in error leaves in the buffer, which was 0.\<close>

definition UcnVal_left :: "literal_env \<Rightarrow> string \<Rightarrow> nat \<Rightarrow> u32" where
  "UcnVal_left env buf P =
     (if \<not> P + 2 < length buf \<or> \<not> isHexDigit (peek buf (P + 2)) then 0
      else fst (snd (ucn_loop (hex_digit env) buf (P + 2) 0 (if peek buf (P + 1) = CHR ''u'' then 4 else 8))))"

definition char_ucn :: "literal_env \<Rightarrow> literal_kind \<Rightarrow> string \<Rightarrow> nat \<Rightarrow> char_state \<Rightarrow> nat \<times> char_state" where
  "char_ucn env Kind buf P st = (case st of (out, err, diags) \<Rightarrow>
     case ProcessUCNEscape (hex_digit env) (lang env) buf P True (Some []) of
       (None, P', ds) \<Rightarrow> (P', out @ [UcnVal_left env buf P], True, diags @ escape_diags_of ds)
     | (Some v, P', ds) \<Rightarrow>
         (if v > largest_character_for_kind (target env) Kind
          then (P', out @ [v], True, diags @ escape_diags_of ds @ [err_character_too_large])
          else (P', out @ [v], err, diags @ escape_diags_of ds)))"

definition char_escape :: "literal_env \<Rightarrow> nat \<Rightarrow> string \<Rightarrow> nat \<Rightarrow> char_state \<Rightarrow> nat \<times> char_state" where
  "char_escape env w buf P st = (case st of (out, err, diags) \<Rightarrow>
     let r = ProcessCharEscape (hex_digit env) buf P err w (Some [])
     in (Pos r, out @ [Result r], HadError r, diags @ escape_diags_of (EscDiags r)))"

lemma char_span_progress: "char_span env Kind Size buf P st = Some (E, st') \<Longrightarrow> P < E"
  using scan_while_ge [of "Suc P" "\<lambda>c. c \<noteq> CHR 0x5C" buf]
  by (auto simp: char_span_def Let_def split: prod.splits if_splits)

lemma char_ucn_progress:
  assumes "Suc P < length buf"
  shows "P + 2 \<le> fst (char_ucn env Kind buf P st)" "fst (char_ucn env Kind buf P st) \<le> length buf"
proof -
  have "fst (char_ucn env Kind buf P st) = fst (snd (ProcessUCNEscape (hex_digit env) (lang env) buf P True (Some [])))"
    by (auto simp: char_ucn_def split: prod.splits option.splits)
  with ProcessUCNEscape_bounds [OF assms]
  show "P + 2 \<le> fst (char_ucn env Kind buf P st)" "fst (char_ucn env Kind buf P st) \<le> length buf" by simp_all
qed

lemma char_escape_progress:
  assumes "Suc P < length buf"
  shows "P + 2 \<le> fst (char_escape env w buf P st)" "fst (char_escape env w buf P st) \<le> length buf"
  using ProcessCharEscape_bounds [OF assms] by (simp_all add: char_escape_def Let_def split: prod.splits)

function char_loop :: "literal_env \<Rightarrow> literal_kind \<Rightarrow> nat \<Rightarrow> string \<Rightarrow> nat \<Rightarrow> char_state \<Rightarrow> char_state option" where
  "char_loop env Kind Size buf P st =
     (if \<not> P < length buf then Some st
      else if peek buf P \<noteq> CHR 0x5C then
        (case char_span env Kind Size buf P st of
          None \<Rightarrow> None
        | Some (P', st') \<Rightarrow> char_loop env Kind Size buf P' st')
      else if \<not> Suc P < length buf \<or> \<not> length (fst st) < Size then None
      else if peek buf (Suc P) \<in> {CHR ''u'', CHR ''U''} then
        (case char_ucn env Kind buf P st of (P', st') \<Rightarrow> char_loop env Kind Size buf P' st')
      else
        (case getCharWidth Kind (target env) of
          None \<Rightarrow> None
        | Some w \<Rightarrow> (case char_escape env w buf P st of (P', st') \<Rightarrow> char_loop env Kind Size buf P' st')))"
  by pat_completeness auto
termination
proof (relation "measure (\<lambda>(_, _, _, buf, P, _). length buf - P)", goal_cases)
  case (2 env Kind Size buf P st p P' st')
  then have "P < P'" "P < length buf" using char_span_progress [of env Kind Size buf P st P' st'] by simp_all
  then show ?case by simp
next
  case (3 env Kind Size buf P st P' st')
  from 3 have "fst (char_ucn env Kind buf P st) = P'" by (metis fst_conv)
  with 3(1-3) char_ucn_progress(1) [of P buf env Kind st] have "P < P'" "P < length buf" by simp_all
  then show ?case by simp
next
  case (4 env Kind Size buf P st w P' st')
  from 4 have "fst (char_escape env w buf P st) = P'" by (metis fst_conv)
  with 4(1-3) char_escape_progress(1) [of P buf env w st] have "P < P'" "P < length buf" by simp_all
  then show ?case by simp
qed simp

declare char_loop.simps [simp del]

section \<open>The constructor\<close>

record char_parser =
  CharValue :: u64
  CharKind :: literal_kind
  IsMultiChar :: bool
  CharHadError :: bool
  CharUDSuffix :: string
  CharUDSuffixOffset :: nat
  CharDiags :: "char_diag list"

text \<open>The loop that concatenates the characters: the value, and whether there was no room to shift.\<close>

fun concat_loop :: "'a fixed_ops \<Rightarrow> ('a \<Rightarrow> nat) \<Rightarrow> u32 list \<Rightarrow> 'a \<Rightarrow> bool \<Rightarrow> 'a \<times> bool" where
  "concat_loop F countLeadingZeros [] LitVal multi_char_too_long = (LitVal, multi_char_too_long)"
| "concat_loop F countLeadingZeros (u # us) LitVal multi_char_too_long =
     concat_loop F countLeadingZeros us
       (apint_add_word F (apint_shl F LitVal 8) (ucast (u AND 0xFF)))
       (multi_char_too_long \<or> countLeadingZeros LitVal < 8)"

definition multi_char_diag :: "literal_kind \<Rightarrow> nat \<Rightarrow> char_diag" where
  "multi_char_diag Kind NumCharsSoFar =
     (if Kind = wide_char_constant then warn_extraneous_char_constant
      else if Kind = char_constant \<and> NumCharsSoFar = 4 then ext_four_char_character_literal
      else if Kind = char_constant then ext_multichar_character_literal
      else err_multichar_utf_character_literal)"

text \<open>From the code points to the value; \<open>APInt\<close> needs a width that is not 0.\<close>

definition char_result ::
  "'a apint_ops \<Rightarrow> 'a fixed_ops \<Rightarrow> ('a \<Rightarrow> nat) \<Rightarrow> literal_env \<Rightarrow> literal_kind \<Rightarrow> char_state \<Rightarrow> (u64 \<times> bool \<times> bool \<times> char_diag list) option" where
  "char_result A F countLeadingZeros env Kind st = (case st of (codepoints, err, diags) \<Rightarrow>
     let NumCharsSoFar = length codepoints; IsMulti = NumCharsSoFar > 1;
         diags = (if IsMulti then diags @ [multi_char_diag Kind NumCharsSoFar] else diags)
     in if IntWidth (target env) = 0 then None
     else
     let LitVal = APInt A (IntWidth (target env)) 0;
         (LitVal, too_long) =
           (if Kind = char_constant \<and> IsMulti
            then concat_loop F countLeadingZeros codepoints (apint_assign A LitVal 0) False
            else if NumCharsSoFar > 0 then (apint_assign A LitVal (ucast (last codepoints)), False)
            else (LitVal, False));
         diags = (if \<not> err \<and> too_long then diags @ [warn_char_constant_too_large] else diags);
         V = getZExtValue A LitVal;
         V = (if Kind = char_constant \<and> NumCharsSoFar = 1 \<and> V AND 128 \<noteq> 0 \<and> char_is_signed env
              then scast (ucast V :: u8) else V)
     in Some (V, IsMulti, err, diags))"

definition CharLiteralParser ::
  "'a apint_ops \<Rightarrow> 'a fixed_ops \<Rightarrow> ('a \<Rightarrow> nat) \<Rightarrow> literal_env \<Rightarrow> literal_kind \<Rightarrow> string \<Rightarrow> char_parser option" where
  "CharLiteralParser A F countLeadingZeros env kind tok =
     (let begin = (if kind \<noteq> char_constant then 1 else 0) + (if kind = utf8_char_constant then 1 else 0) in
      if peek tok begin \<noteq> CHR 0x27 then None
      else
      let begin = Suc begin; e = after_last (CHR 0x27) tok in
      case (if e < length tok then expandUCNs (hex_digit env) (code_point_text env) [] (drop e tok) else Some []) of
        None \<Rightarrow> None
      | Some suffix \<Rightarrow>
        let UDSuffixOffset = (if e < length tok then e else 0); t = target env in
        if e = begin \<or> CharWidth t \<noteq> 8 \<or> \<not> (IntWidth t \<le> 64 \<and> IntWidth t mod 8 = 0) \<or> \<not> WCharWidth t \<le> 64 then None
        else
        let e = e - 1; Size = e - begin in
        if Size = 0 then None
        else
          (case char_loop env kind Size (take e tok) begin ([], False, []) of
            None \<Rightarrow> None
          | Some st \<Rightarrow> map_option (\<lambda>(V, IsMulti, err, diags).
              \<lparr>CharValue = V, CharKind = kind, IsMultiChar = IsMulti, CharHadError = err, CharUDSuffix = suffix,
               CharUDSuffixOffset = UDSuffixOffset, CharDiags = diags\<rparr>) (char_result A F countLeadingZeros env kind st)))"

section \<open>Every token the lexer forms is parsed\<close>

lemma char_span_room:
  assumes env: "literal_env_ok env" and P: "P < length buf" and room: "length out + (length buf - P) \<le> Size"
  shows "\<exists>E out' err' diags'. char_span env Kind Size buf P (out, err, diags) = Some (E, out', err', diags') \<and>
    P < E \<and> E \<le> length buf \<and> E = scan_while (\<lambda>c. c \<noteq> CHR 0x5C) buf (Suc P) \<and> length out' \<le> length out + (E - P)"
proof -
  let ?E = "scan_while (\<lambda>c. c \<noteq> CHR 0x5C) buf (Suc P)"
  obtain ok us where c: "utf8_to_utf32 env (slice buf P ?E) (Size - length out) = (ok, us)" by fastforce
  have E: "P < ?E" "?E \<le> length buf"
    using scan_while_ge [of "Suc P" "\<lambda>c. c \<noteq> CHR 0x5C" buf] scan_while_le [of "Suc P" buf "\<lambda>c. c \<noteq> CHR 0x5C"] P
    by simp_all
  have "\<forall>s room. length (snd (utf8_to_utf32 env s room)) \<le> min room (length s)"
    using env by (simp add: literal_env_ok_def to_utf32_ok_def)
  then have us: "length us \<le> ?E - P" using c E by (metis length_slice min.boundedE snd_conv)
  have "length (slice buf P ?E) = ?E - P" using E by simp
  then have "\<exists>out' err' diags'. char_span env Kind Size buf P (out, err, diags) = Some (?E, out', err', diags') \<and>
      length out' \<le> length out + (?E - P)"
    using c us E room by (cases ok; cases "Kind = char_constant") (auto simp: char_span_def Let_def)
  with E show ?thesis by blast
qed

lemma char_loop_returns:
  assumes env: "literal_env_ok env" and t: "literal_target_ok (target env)" and K: "Kind \<noteq> other_token"
  shows "P \<le> length buf \<Longrightarrow> escapes_closed (drop P buf) \<Longrightarrow> length (fst st) + (length buf - P) \<le> Size \<Longrightarrow>
    \<exists>out err diags. char_loop env Kind Size buf P st = Some (out, err, diags) \<and> length out \<le> Size"
proof (induction "length buf - P" arbitrary: P st rule: less_induct)
  case less
  obtain out err diags where st: "st = (out, err, diags)" by (rule prod_cases3)
  have h: "hexDigitValue_ok (hex_digit env)" using env by (simp add: literal_env_ok_def)
  show ?case
  proof (cases "P < length buf")
    case False
    then show ?thesis using less.prems st by (subst char_loop.simps) simp
  next
    case lt: True
    show ?thesis
    proof (cases "peek buf P = CHR 0x5C")
      case False
      obtain E out' err' diags' where span: "char_span env Kind Size buf P st = Some (E, out', err', diags')"
        "P < E" "E \<le> length buf" "E = scan_while (\<lambda>c. c \<noteq> CHR 0x5C) buf (Suc P)" "length out' \<le> length out + (E - P)"
        using char_span_room [OF env lt, of out Size Kind err diags] less.prems(3) unfolding st fst_conv by blast
      have "peek buf k \<noteq> CHR 0x5C" if "P \<le> k" "k < E" for k
        using that False scan_while_all [of "Suc P" k "\<lambda>c. c \<noteq> CHR 0x5C" buf] span(4) by (cases "k = P") auto
      then have "escapes_closed (drop E buf)"
        using span(2,3) by (intro escapes_closed_span [OF less.prems(2)]) auto
      with less.hyps [of E "(out', err', diags')"] span lt less.prems(3) st
      have "\<exists>out err diags. char_loop env Kind Size buf E (out', err', diags') = Some (out, err, diags) \<and> length out \<le> Size"
        by auto
      with span(1) False lt show ?thesis by (subst char_loop.simps) simp
    next
      case True
      have esc: "Suc P < length buf" by (rule escape_has_char [OF less.prems(2) lt True])
      have room: "length out < Size" using less.prems(3) lt st by simp
      have go: ?thesis
        if step: "char_loop env Kind Size buf P st = char_loop env Kind Size buf P' (out @ [v], err', diags')"
          and P': "P + 2 \<le> P'" "P' \<le> length buf" and no: "\<And>k. P + 2 \<le> k \<Longrightarrow> k < P' \<Longrightarrow> peek buf k \<noteq> CHR 0x5C"
        for P' v err' diags'
      proof -
        have "escapes_closed (drop P' buf)"
          by (rule escapes_closed_escape [OF less.prems(2) lt True P' no])
        with less.hyps [of P' "(out @ [v], err', diags')"] P' lt less.prems(3) st step show ?thesis by auto
      qed
      show ?thesis
      proof (cases "peek buf (Suc P) \<in> {CHR ''u'', CHR ''U''}")
        case u: True
        obtain v P' ds where r: "ProcessUCNEscape (hex_digit env) (lang env) buf P True (Some []) = (v, P', ds)"
          by (rule prod_cases3)
        obtain x err' diags' where c: "char_ucn env Kind buf P st = (P', out @ [x], err', diags')"
          using r st by (cases v; cases "the v > largest_character_for_kind (target env) Kind") (auto simp: char_ucn_def)
        show ?thesis
        proof (rule go)
          show "char_loop env Kind Size buf P st = char_loop env Kind Size buf P' (out @ [x], err', diags')"
            using u c esc room True st by (subst char_loop.simps) simp
          show "P + 2 \<le> P'" "P' \<le> length buf" using ProcessUCNEscape_bounds [OF esc] r by (metis fst_conv snd_conv)+
          show "peek buf k \<noteq> CHR 0x5C" if "P + 2 \<le> k" "k < P'" for k
            using that r by (intro ProcessUCNEscape_span [OF h, of P k "lang env" buf True "Some []"]) simp_all
        qed
      next
        case u: False
        obtain w where w: "getCharWidth Kind (target env) = Some w" using getCharWidth_ok [OF t K] by blast
        let ?r = "ProcessCharEscape (hex_digit env) buf P err w (Some [])"
        show ?thesis
        proof (rule go)
          show "char_loop env Kind Size buf P st = char_loop env Kind Size buf (Pos ?r)
              (out @ [Result ?r], HadError ?r, diags @ escape_diags_of (EscDiags ?r))"
            using u w esc room True st by (subst char_loop.simps) (simp add: char_escape_def Let_def)
          show "P + 2 \<le> Pos ?r" "Pos ?r \<le> length buf" using ProcessCharEscape_bounds [OF esc] by blast+
          show "peek buf k \<noteq> CHR 0x5C" if "P + 2 \<le> k" "k < Pos ?r" for k
            by (rule ProcessCharEscape_span [OF h esc that])
        qed
      qed
    qed
  qed
qed

section \<open>The code points of a literal\<close>

definition char_fits :: "target_info \<Rightarrow> literal_kind \<Rightarrow> element \<Rightarrow> bool" where
  "char_fits t Kind e \<longleftrightarrow> (is_source e \<or> is_ucn e \<longrightarrow> element_value 8 e \<le> unat (largest_character_for_kind t Kind))"

text \<open>The diagnostics of the parser itself, without those of the escapes.\<close>

fun of_escape :: "char_diag \<Rightarrow> bool" where
  "of_escape (char_escape_diag p d) \<longleftrightarrow> True"
| "of_escape d \<longleftrightarrow> False"

definition parser_diags :: "char_diag list \<Rightarrow> char_diag list" where
  "parser_diags ds = filter (\<lambda>d. \<not> of_escape d) ds"

lemma parser_diags_simps [simp]:
  "parser_diags [] = []" "parser_diags (xs @ ys) = parser_diags xs @ parser_diags ys"
  "parser_diags (escape_diags_of ds) = []"
  by (auto simp: parser_diags_def escape_diags_of_def filter_empty_conv split: option.splits)

lemma second_char:
  assumes "element_ok lo after e" "\<not> is_source e"
  shows "(peek (pre @ spelling e @ rest) (Suc (length pre)) \<in> {CHR ''u'', CHR ''U''}) = is_ucn e"
    "peek (pre @ spelling e @ rest) (length pre) = CHR 0x5C"
    "Suc (length pre) < length (pre @ spelling e @ rest)"
proof -
  have p: "peek (pre @ spelling e @ rest) (Suc (length pre)) = peek (spelling e @ rest) 1"
    using peek_append [of pre "spelling e @ rest" 1] by simp
  have "(peek (spelling e @ rest) 1 \<in> {CHR ''u'', CHR ''U''}) = is_ucn e \<and> 1 < length (spelling e @ rest)"
  proof (cases e)
    case (Octal ds)
    then obtain c cs where "ds = c # cs" "octal_digit c" using assms(1) by (cases ds) auto
    moreover from this have "c \<noteq> CHR ''u''" "c \<noteq> CHR ''U''" by (auto simp: octal_digit_def)
    ultimately show ?thesis using Octal by (simp add: peek_def)
  qed (use assms in \<open>auto simp: peek_def\<close>)
  then show "(peek (pre @ spelling e @ rest) (Suc (length pre)) \<in> {CHR ''u'', CHR ''U''}) = is_ucn e"
    "Suc (length pre) < length (pre @ spelling e @ rest)" unfolding p by auto
  show "peek (pre @ spelling e @ rest) (length pre) = CHR 0x5C"
    using escape_spelling [OF assms(2)] peek_append0 [of pre "spelling e @ rest"] by (auto simp: peek_def)
qed

lemma char_loop_elements:
  assumes env: "literal_env_ok env" and w: "getCharWidth Kind (target env) = Some w" "8 \<le> w" "w \<le> 32"
  shows "elements_ok (lang env) es \<Longrightarrow> \<forall>e \<in> set es. char_fits (target env) Kind e \<Longrightarrow>
    length out + length es \<le> Size \<Longrightarrow>
    \<exists>diags'. char_loop env Kind Size (pre @ spellings es) (length pre) (out, err, diags) =
      Some (out @ map (\<lambda>e. of_nat (element_value w e)) es, err, diags @ diags') \<and> parser_diags diags' = []"
proof (induction "length es" arbitrary: es pre out diags rule: less_induct)
  case less
  have h: "hexDigitValue_ok (hex_digit env)" and conv: "to_utf32_ok (utf8_to_utf32 env)"
    using env by (simp_all add: literal_env_ok_def)
  obtain vs rest where es: "es = map Source vs @ rest" and esc: "\<forall>e es'. rest = e # es' \<longrightarrow> \<not> is_source e"
    by (rule elements_split)
  show ?case
  proof (cases "vs = []")
    case False
    let ?buf = "pre @ spellings es" and ?pre = "pre @ utf8_string vs" and ?f = "\<lambda>e. of_nat (element_value w e) :: u32"
    note run = source_run [where pre = pre, OF less.prems(1) [unfolded es] esc False refl, folded es]
    have "list_all scalar vs \<and> length vs \<le> Size - length out \<longrightarrow>
        utf8_to_utf32 env (utf8_string vs) (Size - length out) = (True, vs)"
      using conv by (simp add: to_utf32_ok_def)
    then have c: "utf8_to_utf32 env (utf8_string vs) (Size - length out) = (True, vs)"
      using run(4) less.prems(3) es by auto
    have "\<not> v > largest_character_for_kind (target env) Kind" if "v \<in> set vs" for v
    proof -
      have "char_fits (target env) Kind (Source v)" using less.prems(2) es that by simp
      then show ?thesis by (simp add: char_fits_def word_less_nat_alt not_less)
    qed
    then have "filter (\<lambda>u. u > largest_character_for_kind (target env) Kind) vs = []" by (simp add: filter_empty_conv)
    with run c have span: "char_span env Kind Size ?buf (length pre) (out, err, diags) =
        Some (length ?pre, out @ vs, err, diags)"
      by (simp add: char_span_def)
    have b: "?buf = ?pre @ spellings rest" by (simp add: es)
    have m: "map ?f (map Source vs) = vs" by (simp add: comp_def)
    obtain diags' where "char_loop env Kind Size (?pre @ spellings rest) (length ?pre) (out @ vs, err, diags) =
        Some ((out @ vs) @ map ?f rest, err, diags @ diags')" "parser_diags diags' = []"
      using less.hyps [of rest "out @ vs" ?pre diags] less.prems elements_ok_append [OF less.prems(1) [unfolded es]] False es
      by auto
    with run span show ?thesis
      by (subst char_loop.simps) (simp add: b [symmetric] es m del: map_map)
  next
    case True
    then have r: "es = rest" using es by simp
    show ?thesis
    proof (cases rest)
      case Nil
      then show ?thesis using r by (subst char_loop.simps) simp
    next
      case (Cons e es')
      then have ne: "\<not> is_source e" using esc by blast
      from less.prems(1) Cons r have ok: "element_ok (lang env) (next_char (spellings es')) e" "elements_ok (lang env) es'" by auto
      let ?buf = "pre @ spelling e @ spellings es'" and ?pre = "pre @ spelling e"
      note sc = second_char [OF ok(1) ne, of pre "spellings es'"]
      let ?v = "of_nat (element_value w e) :: u32"
      have room: "length out < Size" "spelling e \<noteq> []"
        using less.prems(3) r Cons escape_spelling [OF ne] by auto
      have "\<exists>ds. char_loop env Kind Size ?buf (length pre) (out, err, diags) =
          char_loop env Kind Size ?buf (length ?pre) (out @ [?v], err, diags @ ds) \<and> parser_diags ds = []"
      proof (cases "is_ucn e")
        case True
        then obtain k ns where e: "e = Ucn k ns" by (cases e) auto
        obtain ds where u: "ProcessUCNEscape (hex_digit env) (lang env) ?buf (length pre) True (Some []) =
            (Some ?v, length ?pre, ds)"
          using ucn_element [OF h ok(1) [unfolded e], of pre "spellings es'" "Some []"] e by auto
        have "unat ?v = element_value w e" using ok(1) e by (simp add: unat_of_nat)
        then have "\<not> ?v > largest_character_for_kind (target env) Kind"
          using less.prems(2) r Cons e by (auto simp: char_fits_def word_less_nat_alt not_less)
        with u have "char_ucn env Kind ?buf (length pre) (out, err, diags) =
            (length ?pre, out @ [?v], err, diags @ escape_diags_of ds)" by (simp add: char_ucn_def)
        with sc True room show ?thesis
          by (intro exI [of _ "escape_diags_of ds"]) (subst char_loop.simps, simp)
      next
        case False
        obtain ds where u: "ProcessCharEscape (hex_digit env) ?buf (length pre) err w (Some []) =
            \<lparr>Result = ?v, Pos = length ?pre, HadError = err, EscDiags = ds\<rparr>"
          using escape_element [OF h ok(1) ne False w(2,3), of pre err "Some []"] by auto
        then have "char_escape env w ?buf (length pre) (out, err, diags) =
            (length ?pre, out @ [?v], err, diags @ escape_diags_of ds)" by (simp add: char_escape_def Let_def)
        with sc False room w(1) show ?thesis
          by (intro exI [of _ "escape_diags_of ds"]) (subst char_loop.simps, simp)
      qed
      then obtain ds where step: "char_loop env Kind Size ?buf (length pre) (out, err, diags) =
          char_loop env Kind Size ?buf (length ?pre) (out @ [?v], err, diags @ ds)" "parser_diags ds = []" by blast
      obtain ds' where "char_loop env Kind Size (?pre @ spellings es') (length ?pre) (out @ [?v], err, diags @ ds) =
          Some ((out @ [?v]) @ map (\<lambda>e. of_nat (element_value w e)) es', err, (diags @ ds) @ ds')" "parser_diags ds' = []"
        using less.hyps [of es' "out @ [?v]" ?pre "diags @ ds"] less.prems ok(2) r Cons by auto
      with step r Cons show ?thesis by (intro exI [of _ "ds @ ds'"]) simp
    qed
  qed
qed

section \<open>The value\<close>

text \<open>What LLVM documents of \<open>countLeadingZeros\<close>, and an instance.\<close>

definition leading_zeros_ok :: "'a apint_ops \<Rightarrow> ('a \<Rightarrow> nat) \<Rightarrow> ('a \<Rightarrow> nat) \<Rightarrow> bool" where
  "leading_zeros_ok A countLeadingZeros val \<longleftrightarrow>
     (\<forall>a k. k \<le> getBitWidth A a \<longrightarrow> (k \<le> countLeadingZeros a) = (val a < 2 ^ (getBitWidth A a - k)))"

fun bit_length :: "nat \<Rightarrow> nat" where
  "bit_length n = (if n = 0 then 0 else Suc (bit_length (n div 2)))"

declare bit_length.simps [simp del]

lemma bit_length_le: "bit_length n \<le> m \<longleftrightarrow> n < 2 ^ m"
proof (induction m arbitrary: n)
  case 0
  show ?case by (subst bit_length.simps) simp
next
  case (Suc m)
  have "n div 2 < 2 ^ m \<longleftrightarrow> n < 2 ^ Suc m" by auto
  then show ?case using Suc [of "n div 2"] by (subst bit_length.simps) simp
qed

definition clz_model :: "nat \<times> nat \<Rightarrow> nat" where
  "clz_model a = fst a - bit_length (apint_val a)"

lemma clz_model_ok: "leading_zeros_ok apint_model clz_model apint_val"
  unfolding leading_zeros_ok_def
proof (intro allI impI)
  fix a :: "nat \<times> nat" and k
  assume k: "k \<le> getBitWidth apint_model a"
  have w: "getBitWidth apint_model a = fst a" by (simp add: apint_model_def)
  have "bit_length (apint_val a) \<le> fst a" unfolding bit_length_le by (simp add: apint_val_def)
  then have "(k \<le> clz_model a) = (bit_length (apint_val a) \<le> fst a - k)" using k w by (auto simp: clz_model_def)
  then show "(k \<le> clz_model a) = (apint_val a < 2 ^ (getBitWidth apint_model a - k))" by (simp add: bit_length_le w)
qed

definition chars_value :: "nat \<Rightarrow> nat list \<Rightarrow> nat" where
  "chars_value v cs = foldl (\<lambda>v c. 256 * v + c) v cs"

lemma chars_value_simps [simp]: "chars_value v [] = v" "chars_value v (c # cs) = chars_value (256 * v + c) cs"
  by (simp_all add: chars_value_def)

lemma room_to_shift:
  assumes "8 \<le> w" "V < 2 ^ w" "c < 256"
  shows "2 ^ (w - 8) \<le> V \<longleftrightarrow> 2 ^ w \<le> 256 * V + (c :: nat)"
proof -
  have "w - 8 + 8 = w" using assms(1) by simp
  then have "(2 :: nat) ^ w = 2 ^ (w - 8) * 2 ^ 8" using power_add [of "2 :: nat" "w - 8" 8] by (simp only:)
  then have "(2 :: nat) ^ w = 256 * 2 ^ (w - 8)" by simp
  with assms(3) show ?thesis by linarith
qed

lemma low_byte: "unat (ucast ((u :: u32) AND 0xFF) :: u64) = unat u mod 256"
proof -
  have "(0xFF :: u32) = mask 8" by (simp add: mask_eq_exp_minus_1)
  then have "unat (u AND 0xFF) = unat u mod 256"
    by (simp only: take_bit_eq_mask [symmetric] unsigned_take_bit_eq) (simp add: take_bit_eq_mod)
  moreover have "unat u mod 256 < 2 ^ 64" by (rule less_trans [OF mod_less_divisor]) simp_all
  ultimately show ?thesis by (simp add: unsigned_ucast_eq take_bit_eq_mod)
qed

lemma concat_loop_value:
  assumes A: "APInt_ok A val" and F: "fixed_ops_ok A F val" and z: "leading_zeros_ok A clz val"
    and w: "8 \<le> w"
  shows "getBitWidth A L = w \<Longrightarrow> val L = V mod 2 ^ w \<Longrightarrow> t = (2 ^ w \<le> V) \<Longrightarrow>
    concat_loop F clz us L t = (L', t') \<Longrightarrow>
    getBitWidth A L' = w \<and> val L' = chars_value V (map (\<lambda>u. unat u mod 256) us) mod 2 ^ w \<and>
    t' = (2 ^ w \<le> chars_value V (map (\<lambda>u. unat u mod 256) us))"
proof (induction us arbitrary: L V t)
  case (Cons u us)
  let ?c = "unat u mod 256" and ?S = "apint_shl F L 8" and ?b = "ucast (u AND 0xFF) :: u64"
  have "(8 \<le> clz L) = (val L < 2 ^ (w - 8))" using z w Cons.prems(1) by (simp add: leading_zeros_ok_def)
  then have clz: "(clz L < 8) = (2 ^ (w - 8) \<le> V mod 2 ^ w)" using Cons.prems(2) by auto
  have c: "?c < 256" by simp
  have flag: "(t \<or> clz L < 8) = (2 ^ w \<le> 256 * V + ?c)"
  proof (cases "V < 2 ^ w")
    case True
    then show ?thesis using room_to_shift [OF w True c] clz Cons.prems(3) by simp
  next
    case False
    then show ?thesis using Cons.prems(3) by simp
  qed
  have S: "getBitWidth A ?S = w" "val ?S = (V mod 2 ^ w) * 256 mod 2 ^ w"
    using w Cons.prems(1,2) fixed_laws(7,8) [OF F, of 8 L] by simp_all
  have "val (apint_add_word F ?S ?b) = (256 * V + ?c) mod 2 ^ w"
    using S low_byte [of u] by (simp add: fixed_laws [OF F] mod_simps mult.commute)
  moreover have "getBitWidth A (apint_add_word F ?S ?b) = w" using S(1) by (simp add: fixed_laws [OF F])
  ultimately show ?case
    using Cons.IH [of "apint_add_word F ?S ?b" "256 * V + ?c" "t \<or> clz L < 8"] flag Cons.prems(4) by simp
qed simp

text \<open>A single byte, and its extension as a signed character.\<close>

lemma byte_sign: "c < 256 \<Longrightarrow> ((of_nat c :: u64) AND 128 \<noteq> 0) = (128 \<le> c)"
proof -
  assume c: "c < 256"
  have "((of_nat c :: u64) AND 2 ^ 7 = 0) = (\<not> bit (of_nat c :: u64) 7)" by (rule and_exp_eq_0_iff_not_bit)
  moreover have "bit (of_nat c :: u64) 7 = odd (c div 128)" by (simp add: bit_of_nat_iff) (simp add: bit_iff_odd)
  moreover have "c div 128 = (if 128 \<le> c then 1 else 0)" using c by auto
  ultimately show ?thesis by simp
qed

lemma byte_extend: "128 \<le> c \<Longrightarrow> c < 256 \<Longrightarrow> (scast (ucast (of_nat c :: u64) :: u8) :: u64) = word_of_int (int c - 256)"
proof -
  assume c: "128 \<le> c" "c < 256"
  let ?w = "ucast (of_nat c :: u64) :: u8"
  have "?w = of_nat c" using c by (simp add: unsigned_of_nat take_bit_nat_eq_self)
  also have "of_nat c = (word_of_int (int c) :: u8)" by simp
  also have "word_of_int (int c) = (word_of_int (int c - 256) :: u8)" by simp
  finally have "sint ?w = int c - 256" using c by (simp add: signed_of_int signed_take_bit_int_eq_self del: of_int_diff)
  moreover have "(scast ?w :: u64) = word_of_int (sint ?w)" by (rule of_int_sint [symmetric])
  ultimately show ?thesis by (simp only:)
qed

text \<open>
  The value by the language: a single narrow character is converted from the type \<open>char\<close>, several are the digits of a
  number in base 256, other literals have the value of their last character; all in the width of \<open>int\<close>.
\<close>

definition char_value :: "literal_kind \<Rightarrow> bool \<Rightarrow> nat \<Rightarrow> nat list \<Rightarrow> int" where
  "char_value Kind signed_char W vs =
     (if Kind = char_constant then
        (if length vs = 1
         then (if signed_char \<and> 128 \<le> hd vs then int (hd vs) - 256 else int (hd vs))
         else int (chars_value 0 vs mod 2 ^ W))
      else int (last vs mod 2 ^ W))"

definition char_diags :: "literal_kind \<Rightarrow> nat \<Rightarrow> nat list \<Rightarrow> char_diag list" where
  "char_diags Kind W vs = (if 1 < length vs then [multi_char_diag Kind (length vs)] else []) @
     (if Kind = char_constant \<and> 2 ^ W \<le> chars_value 0 vs then [warn_char_constant_too_large] else [])"

lemma char_result_value:
  assumes A: "APInt_ok A val" and F: "fixed_ops_ok A F val" and z: "leading_zeros_ok A clz val"
    and t: "literal_target_ok (target env)" and us: "us \<noteq> []" and small: "Kind = char_constant \<Longrightarrow> \<forall>u \<in> set us. unat u < 256"
  shows "\<exists>diags'. char_result A F clz env Kind (us, False, diags) =
      Some (word_of_int (char_value Kind (char_is_signed env) (IntWidth (target env)) (map unat us)), 1 < length us,
        False, diags @ diags') \<and>
      diags' = char_diags Kind (IntWidth (target env)) (map unat us)"
proof -
  let ?W = "IntWidth (target env)" and ?vs = "map unat us"
  have W: "8 \<le> ?W" "?W \<le> 64" using t by (auto simp: literal_target_ok_def)
  let ?Z = "APInt A ?W 0"
  have Z: "getBitWidth A (apint_assign A ?Z n) = ?W" "val (apint_assign A ?Z n) = unat n mod 2 ^ ?W" for n
    using A by (simp_all add: APInt_ok_def)
  have zext: "getZExtValue A a = of_nat (val a)" if "getBitWidth A a = ?W" for a
  proof -
    have "val a < 2 ^ getBitWidth A a" using A unfolding APInt_ok_def by blast
    then have "val a < 2 ^ ?W" unfolding that .
    also have "\<dots> \<le> 2 ^ 64" using W(2) by (intro power_increasing) auto
    finally have u: "unat (getZExtValue A a) = val a" using A by (simp add: APInt_ok_def)
    have "getZExtValue A a = of_nat (unat (getZExtValue A a))" by simp
    then show ?thesis unfolding u .
  qed
  have uc: "unat (ucast (u :: u32) :: u64) = unat u" for u
    using unsigned_less [of u, where 'a = nat] by (simp add: unsigned_ucast_eq take_bit_eq_mod)
  show ?thesis
  proof (cases "Kind = char_constant \<and> 1 < length us")
    case True
    obtain L t' where L: "concat_loop F clz us (apint_assign A ?Z 0) False = (L, t')" by fastforce
    have m: "map (\<lambda>u. unat u mod 256) us = ?vs" using small True by simp
    from concat_loop_value [OF A F z W(1) Z(1) _ _ L, of 0] Z(2) [of 0] m
    have "getBitWidth A L = ?W" "val L = chars_value 0 ?vs mod 2 ^ ?W" "t' = (2 ^ ?W \<le> chars_value 0 ?vs)" by simp_all
    with True L W zext [of L] show ?thesis
      by (auto simp: char_result_def Let_def char_value_def char_diags_def)
  next
    case False
    let ?L = "apint_assign A ?Z (ucast (last us))"
    have L: "getZExtValue A ?L = of_nat (unat (last us) mod 2 ^ ?W)" using zext [OF Z(1)] Z(2) uc by simp
    show ?thesis
    proof (cases "Kind = char_constant")
      case True
      with False us obtain u where u: "us = [u]" by (cases us) auto
      have c: "unat u < 256" using small [OF True] u by simp
      have "(2 :: nat) ^ 8 \<le> 2 ^ ?W" using W(1) by (rule power_increasing) simp
      with c have lt: "unat u < 2 ^ ?W" by simp
      have value1: "getZExtValue A ?L = of_nat (unat u)" using L u lt by simp
      show ?thesis
        unfolding char_result_def char_value_def char_diags_def Let_def
        using True W u lt value1 byte_sign [OF c] byte_extend [OF _ c] by (simp add: word_of_int_eq_iff del: of_nat_unat)
    next
      case other: False
      with us L W show ?thesis
        by (auto simp: char_result_def Let_def char_value_def char_diags_def last_map)
    qed
  qed
qed

section \<open>Tokens\<close>

definition char_prefix :: "literal_kind \<Rightarrow> string option" where
  "char_prefix Kind = (case Kind of
       char_constant \<Rightarrow> Some [] | wide_char_constant \<Rightarrow> Some ''L'' | utf8_char_constant \<Rightarrow> Some ''u8''
     | utf16_char_constant \<Rightarrow> Some ''u'' | utf32_char_constant \<Rightarrow> Some ''U'' | _ \<Rightarrow> None)"

text \<open>A character literal as the lexer forms it: prefix, quote, body, quote, suffix.\<close>

definition char_token :: "string \<Rightarrow> string \<Rightarrow> string \<Rightarrow> string" where
  "char_token prefix body suffix = prefix @ CHR 0x27 # body @ CHR 0x27 # suffix"

lemma char_prefix_length:
  "char_prefix Kind = Some prefix \<Longrightarrow>
   length prefix = (if Kind \<noteq> char_constant then 1 else 0) + (if Kind = utf8_char_constant then 1 else 0) \<and> Kind \<noteq> other_token"
  by (cases Kind) (auto simp: char_prefix_def)

lemma CharLiteralParser_token:
  assumes t: "literal_target_ok (target env)" and K: "char_prefix Kind = Some prefix" and body: "body \<noteq> []"
    and suffix: "CHR 0x27 \<notin> set suffix" "expandUCNs (hex_digit env) (code_point_text env) [] suffix = Some expanded"
    and loop: "char_loop env Kind (length body) ((prefix @ [CHR 0x27]) @ body) (length (prefix @ [CHR 0x27])) ([], False, []) = Some st"
  shows "CharLiteralParser A F clz env Kind (char_token prefix body suffix) =
    map_option (\<lambda>(V, IsMulti, err, diags).
      \<lparr>CharValue = V, CharKind = Kind, IsMultiChar = IsMulti, CharHadError = err, CharUDSuffix = expanded,
       CharUDSuffixOffset = (if suffix = [] then 0 else length prefix + length body + 2), CharDiags = diags\<rparr>)
      (char_result A F clz env Kind st)"
proof -
  let ?tok = "char_token prefix body suffix" and ?b = "length prefix"
  have tok: "?tok = (prefix @ CHR 0x27 # body) @ CHR 0x27 # suffix" by (simp add: char_token_def)
  have e: "after_last (CHR 0x27) ?tok = ?b + length body + 2"
    using after_last_append [OF suffix(1), of "prefix @ CHR 0x27 # body"] unfolding tok by simp
  have quote: "peek ?tok ?b = CHR 0x27" by (simp add: char_token_def peek_append0) (simp add: peek_def)
  have len: "(?b + length body + 2 < length ?tok) = (suffix \<noteq> [])" by (simp add: char_token_def)
  have bg: "(if Kind \<noteq> char_constant then 1 else 0) + (if Kind = utf8_char_constant then 1 else 0) = ?b"
    using char_prefix_length [OF K] by simp
  have sfx: "(if suffix \<noteq> [] then expandUCNs (hex_digit env) (code_point_text env) [] (drop (?b + length body + 2) ?tok)
      else Some []) = Some expanded" using suffix(2) by (auto simp: char_token_def)
  have body': "take (?b + length body + 2 - 1) ?tok = (prefix @ [CHR 0x27]) @ body" by (simp add: char_token_def)
  have size: "?b + length body + 2 - 1 - Suc ?b = length body" by simp
  have loop': "char_loop env Kind (length body) ((prefix @ [CHR 0x27]) @ body) (Suc ?b) ([], False, []) = Some st"
    using loop by simp
  have ne: "length body \<noteq> 0" using body by simp
  have ok: "\<not> (?b + length body + 2 = Suc ?b \<or> CharWidth (target env) \<noteq> 8 \<or> \<not> (IntWidth (target env) \<le> 64 \<and>
      IntWidth (target env) mod 8 = 0) \<or> \<not> WCharWidth (target env) \<le> 64)"
    using t by (auto simp: literal_target_ok_def)
  show ?thesis
    unfolding CharLiteralParser_def Let_def bg quote e len sfx body' size
    by (simp only: ok ne loop' if_False option.case simp_thms) (cases suffix; simp)
qed

lemma spelling_not_Nil: "element_ok lo after e \<Longrightarrow> spelling e \<noteq> []"
  by (cases e) auto

lemma spellings_length: "elements_ok lo es \<Longrightarrow> length es \<le> length (spellings es)"
proof (induction es)
  case (Cons e es)
  then have "spelling e \<noteq> []" by (auto dest: spelling_not_Nil)
  then have "1 \<le> length (spelling e)" by (cases "spelling e") auto
  with Cons show ?case by simp
qed simp

lemma simple_value_small: "of_char c < (128 :: nat) \<Longrightarrow> simple_value c < 128"
  by (auto simp: simple_value_def split: option.splits dest!: map_of_SomeD)

lemma narrow_value:
  assumes "element_ok lo after e" "char_fits t char_constant e"
  shows "element_value 8 e < 256"
proof (cases e)
  case (Simple c)
  then show ?thesis using assms(1) simple_value_small [of c] by simp
qed (use assms in \<open>simp_all add: char_fits_def largest_character_for_kind_def\<close>)

lemma elements_ok_each: "elements_ok lo es \<Longrightarrow> e \<in> set es \<Longrightarrow> \<exists>after. element_ok lo after e"
  by (induction es) auto

lemma element_value_word:
  assumes "element_ok lo after e" "w \<in> {8, 16, 32}"
  shows "unat (of_nat (element_value w e) :: u32) = element_value w e"
proof -
  have le: "(2 :: nat) ^ w \<le> 2 ^ 32" using assms(2) by auto
  have "element_value w e < 2 ^ 32"
  proof (cases e)
    case (Source v)
    then show ?thesis using assms(1) by (simp add: scalar_def)
  next
    case (Simple c)
    then show ?thesis using assms(1) simple_value_small [of c] by simp
  next
    case (Octal ds)
    then show ?thesis using less_le_trans [OF mod_less_divisor le] by simp
  next
    case (Hex ds)
    then show ?thesis using less_le_trans [OF mod_less_divisor le] by simp
  next
    case (Ucn k ds)
    then show ?thesis using assms(1) by simp
  qed
  then show ?thesis by (simp add: unat_of_nat)
qed


definition literal_target :: target_info where
  "literal_target = \<lparr>CharWidth = 8, WCharWidth = 32, Char16Width = 16, Char32Width = 32, IntWidth = 32\<rparr>"

definition sample_env :: literal_env where
  "sample_env = \<lparr>hex_digit = hexDigitValue_model, code_point_text = (\<lambda>_. None), utf8_to_utf32 = to_utf32_model,
     utf8_to_wide = to_wide_model, utf8_num_bytes = lead_length, lang = sample_options, char_is_signed = True, pascal_strings = False,
     target = literal_target\<rparr>"

lemma sample_env_ok: "literal_env_ok sample_env" "literal_target_ok (target sample_env)"
  by (simp_all add: literal_env_ok_def sample_env_def hexDigitValue_model_ok to_utf32_model_ok to_wide_model_ok
      literal_target_ok_def literal_target_def lead_length_def Let_def)


text \<open>
  C25. No character literal that the lexer forms makes the parser fail an assertion, write past its buffer of code points
  or read past the closing quote, whatever its bytes are as UTF-8 and whatever its escapes: it always has a value.
\<close>

theorem CharLiteralParser_returns:
  assumes env: "literal_env_ok env" "literal_target_ok (target env)"
    and K: "char_prefix Kind = Some prefix" and body: "body \<noteq> []" "escapes_closed body"
    and suffix: "CHR 0x27 \<notin> set suffix" "expandUCNs (hex_digit env) (code_point_text env) [] suffix = Some expanded"
  shows "\<exists>r. CharLiteralParser A F clz env Kind (char_token prefix body suffix) = Some r \<and> CharKind r = Kind"
proof -
  have "Kind \<noteq> other_token" using K by (auto simp: char_prefix_def)
  from char_loop_returns [OF env this, of "length (prefix @ [CHR 0x27])" "(prefix @ [CHR 0x27]) @ body" "([], False, [])" "length body"]
    body(2)
  obtain out err diags where loop: "char_loop env Kind (length body) ((prefix @ [CHR 0x27]) @ body)
      (length (prefix @ [CHR 0x27])) ([], False, []) = Some (out, err, diags)" by auto
  have "IntWidth (target env) \<noteq> 0" using env(2) by (auto simp: literal_target_ok_def)
  then have "char_result A F clz env Kind (out, err, diags) \<noteq> None"
    by (auto simp: char_result_def Let_def split: prod.splits)
  then obtain V m e ds where "char_result A F clz env Kind (out, err, diags) = Some (V, m, e, ds)" by auto
  with CharLiteralParser_token [where A = A and F = F and clz = clz, OF env(2) K body(1) suffix loop] show ?thesis by simp
qed

theorem CharLiteralParser_returns_witness:
  "\<exists>r. CharLiteralParser apint_model fixed_model clz_model sample_env utf8_char_constant
     (char_token ''u8'' [CHR 0xC3, CHR 0x5C, CHR 0x27, CHR 0xA9] []) = Some r \<and> CharKind r = utf8_char_constant"
  by (rule CharLiteralParser_returns [OF sample_env_ok]) (simp_all add: char_prefix_def)

end
