(* ===== verification/StringLiteral.thy ===== *)
theory StringLiteral
  imports CharLiteral
begin

text \<open>
  String literals (\<open>StringLiteralParser\<close> of \<open>lib/Lex/LiteralSupport.cpp\<close> and \<open>LiteralSupport.h\<close>).  A token has what the
  lexer says of it: kind, length, spelling (none, when the lexer calls it invalid).  The result is the list of the units
  written so far, of \<open>CharByteWidth\<close> bytes each; \<open>ResultPtr\<close> is behind the last of them.  \<open>None\<close> is a failed assertion,
  \<open>llvm_unreachable\<close>, a write past the buffer, a read past the token, or a loop that does not end.
\<close>

section \<open>Tokens, diagnostics and the state\<close>

record literal_token =
  TokKind :: literal_kind
  TokLength :: nat
  TokSpelling :: "string option"
  TokHasUCN :: bool

datatype string_diag =
    string_escape_diag nat nat escape_diag
  | err_lexing_string "nat option"
  | err_unsupported_string_concat nat
  | err_string_concat_mixed_suffix nat
  | bad_string_encoding bool nat "(nat \<times> nat) list"
  | err_pascal_string_too_long
  | ext_string_too_long nat nat nat

record string_parser =
  MaxTokenLength :: nat
  SizeBound :: nat
  CharByteWidth :: nat
  StringKind :: literal_kind
  ResultUnits :: "u32 list"
  StringUDSuffix :: string
  StringUDSuffixToken :: nat
  StringUDSuffixOffset :: nat
  StringHadError :: bool
  Pascal :: bool
  StringDiags :: "string_diag list option"

definition Report_string :: "string_diag \<Rightarrow> string_parser \<Rightarrow> string_parser" where
  "Report_string d st = st\<lparr>StringDiags := map_option (\<lambda>ds. ds @ [d]) (StringDiags st)\<rparr>"

definition DiagnoseLexingError :: "nat option \<Rightarrow> string_parser \<Rightarrow> string_parser" where
  "DiagnoseLexingError Loc st = Report_string (err_lexing_string Loc) (st\<lparr>StringHadError := True\<rparr>)"

definition GetStringLength :: "string_parser \<Rightarrow> nat" where
  "GetStringLength st = CharByteWidth st * length (ResultUnits st)"

definition GetNumStringChars :: "string_parser \<Rightarrow> nat" where
  "GetNumStringChars st = GetStringLength st div CharByteWidth st"

text \<open>Writing at \<open>ResultPtr\<close>, in the buffer of \<open>SizeBound\<close> bytes.\<close>

definition emit :: "u32 list \<Rightarrow> string_parser \<Rightarrow> string_parser option" where
  "emit us st = (let out = ResultUnits st @ us in
     if CharByteWidth st * length out \<le> SizeBound st then Some (st\<lparr>ResultUnits := out\<rparr>) else None)"

section \<open>Copying a span\<close>

text \<open>Where the text goes on after bytes that are not UTF-8.\<close>

definition resyncUTF8 :: "(char \<Rightarrow> nat) \<Rightarrow> string \<Rightarrow> nat \<Rightarrow> nat" where
  "resyncUTF8 getNumBytesForUTF8 s Err =
     (if Err = length s then Err
      else let End = Err + min (getNumBytesForUTF8 (peek s Err)) (length s - Err)
      in scan_while (\<lambda>c. of_char c AND 0xC0 = (0x80 :: nat)) (take End s) (Suc Err))"

text \<open>The places of bad encoding that the diagnostic marks; the text from \<open>Next\<close> on is decoded again and again.\<close>

function bad_ranges :: "literal_env \<Rightarrow> nat \<Rightarrow> string \<Rightarrow> nat \<Rightarrow> (nat \<times> nat) list option" where
  "bad_ranges env w s Next =
     (case utf8_to_wide env w (drop Next s) of
       Inr us \<Rightarrow> Some []
     | Inl e \<Rightarrow>
         let ErrorPtr = Next + e; NextStart = resyncUTF8 (utf8_num_bytes env) s ErrorPtr in
         if \<not> (Next < NextStart \<and> NextStart \<le> length s) then None
         else map_option (\<lambda>rs. (ErrorPtr, NextStart) # rs) (bad_ranges env w s NextStart))"
  by pat_completeness auto
termination by (relation "measure (\<lambda>(_, _, s, Next). length s - Next)") auto

declare bad_ranges.simps [simp del]

text \<open>
  \<open>Fragment\<close> begins at \<open>at\<close> in token \<open>i\<close>.  The conversion asks for room for one unit more than the bytes of the fragment.  The
  flag is the result, that the encoding is an error.
\<close>

definition CopyStringFragment :: "literal_env \<Rightarrow> nat \<Rightarrow> nat \<Rightarrow> string \<Rightarrow> string_parser \<Rightarrow> (string_parser \<times> bool) option" where
  "CopyStringFragment env i at Fragment st =
     (let w = CharByteWidth st in
      if \<not> w * (length (ResultUnits st) + length Fragment + 1) \<le> SizeBound st then None
      else case utf8_to_wide env w Fragment of
        Inr us \<Rightarrow> map_option (\<lambda>st. (st, False)) (emit us st)
      | Inl e \<Rightarrow>
          let NoErrorOnBadEncoding = (StringKind st = string_literal) in
          case (if NoErrorOnBadEncoding then emit (map of_char Fragment) st else Some st) of
            None \<Rightarrow> None
          | Some st \<Rightarrow>
            if StringDiags st = None then Some (st, \<not> NoErrorOnBadEncoding)
            else case bad_ranges env w Fragment 0 of
              None \<Rightarrow> None
            | Some rs \<Rightarrow>
                Some (Report_string (bad_string_encoding NoErrorOnBadEncoding i (map (\<lambda>(a, b). (at + a, at + b)) rs)) st,
                  \<not> NoErrorOnBadEncoding))"

definition copy_fragment :: "literal_env \<Rightarrow> nat \<Rightarrow> nat \<Rightarrow> string \<Rightarrow> string_parser \<Rightarrow> string_parser option" where
  "copy_fragment env i at Fragment st = (case CopyStringFragment env i at Fragment st of
     None \<Rightarrow> None
   | Some (st, err) \<Rightarrow> Some (if err then st\<lparr>StringHadError := True\<rparr> else st))"

section \<open>The body of an ordinary literal\<close>

definition add_escape_diags :: "nat \<Rightarrow> escape_diags \<Rightarrow> string_parser \<Rightarrow> string_parser" where
  "add_escape_diags i ds st = (case ds of None \<Rightarrow> st
     | Some ds \<Rightarrow> st\<lparr>StringDiags := map_option (\<lambda>old. old @ map (\<lambda>(p, d). string_escape_diag i p d) ds) (StringDiags st)\<rparr>)"

definition engine :: "string_parser \<Rightarrow> escape_diags" where
  "engine st = map_option (\<lambda>_. []) (StringDiags st)"

definition string_ucn :: "literal_env \<Rightarrow> nat \<Rightarrow> string \<Rightarrow> nat \<Rightarrow> string_parser \<Rightarrow> (nat \<times> string_parser) option" where
  "string_ucn env i buf P st =
     (case EncodeUCNEscape (hex_digit env) (lang env) buf P (CharByteWidth st) (StringHadError st) (engine st) of
       (units, P', err, ds) \<Rightarrow>
         let st = add_escape_diags i ds (st\<lparr>StringHadError := err\<rparr>)
         in case units of None \<Rightarrow> Some (P', st) | Some us \<Rightarrow> map_option (Pair P') (emit (units_of us) st))"

text \<open>A character escape; \<open>None\<close> for a width that is not 1, 2 or 4.\<close>

definition truncate_unit :: "nat \<Rightarrow> u32 \<Rightarrow> u32 option" where
  "truncate_unit w ResultChar = (if w = 4 then Some ResultChar else if w = 2 then Some (ResultChar AND 0xFFFF)
     else if w = 1 then Some (ResultChar AND 0xFF) else None)"

definition string_escape :: "literal_env \<Rightarrow> nat \<Rightarrow> string \<Rightarrow> nat \<Rightarrow> string_parser \<Rightarrow> (nat \<times> string_parser) option" where
  "string_escape env i buf P st =
     (let r = ProcessCharEscape (hex_digit env) buf P (StringHadError st) (CharByteWidth st * 8) (engine st);
          st = add_escape_diags i (EscDiags r) (st\<lparr>StringHadError := HadError r\<rparr>)
      in case truncate_unit (CharByteWidth st) (Result r) of
        None \<Rightarrow> None
      | Some u \<Rightarrow> map_option (Pair (Pos r)) (emit [u] st))"

lemma string_ucn_progress:
  assumes "Suc P < length buf" "string_ucn env i buf P st = Some (P', st')"
  shows "P + 2 \<le> P' \<and> P' \<le> length buf"
proof -
  obtain v Q ds where r: "ProcessUCNEscape (hex_digit env) (lang env) buf P True (engine st) = (v, Q, ds)"
    by (rule prod_cases3)
  with assms(2) have "P' = Q"
    by (cases v) (auto simp: string_ucn_def EncodeUCNEscape_def Let_def)
  with r ProcessUCNEscape_bounds [OF assms(1), of "hex_digit env" "lang env" True "engine st"] show ?thesis by simp
qed

lemma string_escape_progress:
  assumes "Suc P < length buf" "string_escape env i buf P st = Some (P', st')"
  shows "P + 2 \<le> P' \<and> P' \<le> length buf"
  using assms(2) ProcessCharEscape_bounds [OF assms(1)]
  by (auto simp: string_escape_def Let_def split: option.splits)

function cooked_loop :: "literal_env \<Rightarrow> nat \<Rightarrow> string \<Rightarrow> nat \<Rightarrow> string_parser \<Rightarrow> string_parser option" where
  "cooked_loop env i buf P st =
     (if \<not> P < length buf then Some st
      else if peek buf P \<noteq> CHR 0x5C then
        (let E = scan_while (\<lambda>c. c \<noteq> CHR 0x5C) buf (Suc P) in
         case copy_fragment env i P (slice buf P E) st of
           None \<Rightarrow> None
         | Some st \<Rightarrow> cooked_loop env i buf E st)
      else if \<not> Suc P < length buf then None
      else
        (case (if peek buf (Suc P) \<in> {CHR ''u'', CHR ''U''} then string_ucn env i buf P st else string_escape env i buf P st) of
          None \<Rightarrow> None
        | Some (P', st) \<Rightarrow> cooked_loop env i buf P' st))"
  by pat_completeness auto
termination
proof (relation "measure (\<lambda>(_, _, buf, P, _). length buf - P)", goal_cases)
  case (2 env i buf P st E st')
  then have "P < E" "P < length buf" using scan_while_ge [of "Suc P" "\<lambda>c. c \<noteq> CHR 0x5C" buf] by simp_all
  then show ?case by simp
next
  case (3 env i buf P st p P' st')
  then have "P + 2 \<le> P' \<and> P' \<le> length buf"
    using string_ucn_progress [of P buf env i st P' st'] string_escape_progress [of P buf env i st P' st']
    by (auto split: if_splits)
  then have "length buf - P' < length buf - P" by linarith
  then show ?case by simp
qed simp

declare cooked_loop.simps [simp del]

section \<open>Raw literals\<close>

text \<open>The place of the first \<open>\r\n\<close>, the length when there is none.\<close>

fun find_crlf :: "string \<Rightarrow> nat" where
  "find_crlf [] = 0"
| "find_crlf (c # s) = (if c = CHR 0x0D \<and> next_char s = Some (CHR 0x0A) then 0 else Suc (find_crlf s))"

lemma find_crlf_le: "find_crlf s \<le> length s"
  by (induction s) auto

function raw_loop :: "literal_env \<Rightarrow> nat \<Rightarrow> nat \<Rightarrow> string \<Rightarrow> string_parser \<Rightarrow> string_parser option" where
  "raw_loop env i at RemainingTokenSpan st =
     (if RemainingTokenSpan = [] then Some st
      else let CRLFPos = find_crlf RemainingTokenSpan;
               BeforeCRLF = take CRLFPos RemainingTokenSpan; AfterCRLF = drop CRLFPos RemainingTokenSpan
      in case copy_fragment env i at BeforeCRLF st of
          None \<Rightarrow> None
        | Some st \<Rightarrow> raw_loop env i (at + CRLFPos + 1) (drop 1 AfterCRLF) st)"
  by pat_completeness auto
termination by (relation "measure (\<lambda>(_, _, _, s, _). length s)") auto

declare raw_loop.simps [simp del]

section \<open>One token\<close>

text \<open>The suffix after the last quote, which ends at \<open>e\<close>.\<close>

definition string_suffix :: "literal_env \<Rightarrow> nat \<Rightarrow> literal_token \<Rightarrow> string \<Rightarrow> nat \<Rightarrow> string_parser \<Rightarrow> string_parser option" where
  "string_suffix env i tok buf e st =
     (if \<not> e < length buf then Some st
      else let UDSuffix = drop e buf in
      case (if TokHasUCN tok then expandUCNs (hex_digit env) (code_point_text env) [] UDSuffix else Some UDSuffix) of
        None \<Rightarrow> None
      | Some expanded \<Rightarrow>
        if StringUDSuffix st = []
        then Some (st\<lparr>StringUDSuffix := expanded, StringUDSuffixToken := i, StringUDSuffixOffset := e\<rparr>)
        else if StringUDSuffix st \<noteq> expanded
        then Some ((Report_string (err_string_concat_mixed_suffix i) st)\<lparr>StringHadError := True\<rparr>)
        else Some st)"

definition skip_encoding_prefix :: "string \<Rightarrow> nat" where
  "skip_encoding_prefix buf =
     (if peek buf 0 \<in> {CHR ''L'', CHR ''u'', CHR ''U''} then (if peek buf 1 = CHR ''8'' then 2 else 1) else 0)"

definition skip_pascal :: "literal_env \<Rightarrow> nat \<Rightarrow> string \<Rightarrow> nat \<Rightarrow> string_parser \<Rightarrow> nat \<times> string_parser" where
  "skip_pascal env i buf P st =
     (if pascal_strings env \<and> Suc P \<noteq> length buf \<and> peek buf P = CHR 0x5C \<and> peek buf (Suc P) = CHR ''p''
      then if i = 0 then (Suc P, st\<lparr>Pascal := True\<rparr>) else if Pascal st then (P + 2, st) else (P, st)
      else (P, st))"

text \<open>The flag says that the loop over the tokens goes on.\<close>

definition string_token :: "literal_env \<Rightarrow> nat \<Rightarrow> literal_token \<Rightarrow> string_parser \<Rightarrow> (string_parser \<times> bool) option" where
  "string_token env i tok st =
     (case TokSpelling tok of
       None \<Rightarrow> Some (DiagnoseLexingError (Some i) st, False)
     | Some buf \<Rightarrow>
       let e = after_last (CHR 0x22) buf in
       if e = 0 then None
       else
       case string_suffix env i tok buf e st of
         None \<Rightarrow> None
       | Some st \<Rightarrow>
         let e = e - 1; P = skip_encoding_prefix buf in
         if peek buf P = CHR ''R'' then
           (let Prefix = P + 2; Q = scan_while (\<lambda>c. c \<noteq> CHR ''('') buf Prefix in
            if \<not> Q < length buf then None
            else let Q = Suc Q in
            if \<not> (Q - Prefix \<le> e \<and> Q \<le> e - (Q - Prefix)) then None
            else map_option (\<lambda>st. (st, True)) (raw_loop env i Q (slice buf Q (e - (Q - Prefix))) st))
         else if peek buf P \<noteq> CHR 0x22 then Some (DiagnoseLexingError (Some i) st, False)
         else if \<not> Suc P \<le> e then None
         else
           (case skip_pascal env i (take e buf) (Suc P) st of
             (P, st) \<Rightarrow> map_option (\<lambda>st. (st, True)) (cooked_loop env i (take e buf) P st)))"

fun string_tokens :: "literal_env \<Rightarrow> nat \<Rightarrow> literal_token list \<Rightarrow> string_parser \<Rightarrow> (string_parser \<times> bool) option" where
  "string_tokens env i [] st = Some (st, True)"
| "string_tokens env i (tok # toks) st =
     (case string_token env i tok st of
       None \<Rightarrow> None
     | Some (st, False) \<Rightarrow> Some (st, False)
     | Some (st, True) \<Rightarrow> string_tokens env (Suc i) toks st)"

section \<open>The constructor\<close>

text \<open>The first pass over the tokens after the first: sizes and kind.\<close>

fun scan_tokens :: "nat \<Rightarrow> literal_token list \<Rightarrow> string_parser \<Rightarrow> string_parser \<times> bool" where
  "scan_tokens i [] st = (st, True)"
| "scan_tokens i (tok # toks) st =
     (if TokLength tok < 2 then (DiagnoseLexingError (Some i) st, False)
      else let st = st\<lparr>SizeBound := SizeBound st + (TokLength tok - 2),
                 MaxTokenLength := max (MaxTokenLength st) (TokLength tok)\<rparr>;
               st = (if TokKind tok \<noteq> StringKind st \<and> TokKind tok \<noteq> string_literal
                 then if StringKind st = string_literal then st\<lparr>StringKind := TokKind tok\<rparr>
                   else (Report_string (err_unsupported_string_concat i) st)\<lparr>StringHadError := True\<rparr>
                 else st)
      in scan_tokens (Suc i) toks st)"

definition initial_string :: "bool \<Rightarrow> string_parser" where
  "initial_string HasDiags = \<lparr>MaxTokenLength = 0, SizeBound = 0, CharByteWidth = 0, StringKind = other_token,
     ResultUnits = [], StringUDSuffix = [], StringUDSuffixToken = 0, StringUDSuffixOffset = 0, StringHadError = False,
     Pascal = False, StringDiags = (if HasDiags then Some [] else None)\<rparr>"

text \<open>What is done after the last token: the length byte of a Pascal string, and the limits on the length.\<close>

definition MaxChars :: "lang_options \<Rightarrow> nat" where
  "MaxChars lo = (if CPlusPlus lo then 65536 else if C99 lo then 4095 else 509)"

definition finish_string :: "literal_env \<Rightarrow> string_parser \<Rightarrow> string_parser option" where
  "finish_string env st =
     (if Pascal st then
        (case truncate_unit (CharByteWidth st) (of_nat (GetNumStringChars st) - 1) of
          None \<Rightarrow> None
        | Some u \<Rightarrow>
          let st = st\<lparr>ResultUnits := (ResultUnits st)[0 := u]\<rparr>
          in if GetStringLength st > 256
             then Some ((Report_string err_pascal_string_too_long st)\<lparr>StringHadError := True\<rparr>)
             else Some st)
      else if GetNumStringChars st > MaxChars (lang env)
      then Some (Report_string (ext_string_too_long (GetNumStringChars st) (MaxChars (lang env))
        (if CPlusPlus (lang env) then 2 else if C99 (lang env) then 1 else 0)) st)
      else Some st)"

definition StringLiteralParser :: "literal_env \<Rightarrow> bool \<Rightarrow> literal_token list \<Rightarrow> string_parser option" where
  "StringLiteralParser env HasDiags StringToks =
     (case StringToks of
       [] \<Rightarrow> Some (DiagnoseLexingError None (initial_string HasDiags))
     | tok # toks \<Rightarrow>
       if TokLength tok < 2 then Some (DiagnoseLexingError None (initial_string HasDiags))
       else
       case scan_tokens 1 toks ((initial_string HasDiags)\<lparr>MaxTokenLength := TokLength tok,
           SizeBound := TokLength tok - 2, StringKind := TokKind tok\<rparr>) of
         (st, False) \<Rightarrow> Some st
       | (st, True) \<Rightarrow>
         (case getCharWidth (StringKind st) (target env) of
           None \<Rightarrow> None
         | Some Width \<Rightarrow>
           if Width mod 8 \<noteq> 0 then None
           else let w = Width div 8;
                    st = st\<lparr>CharByteWidth := w, SizeBound := Suc (SizeBound st) * w\<rparr>
           in case string_tokens env 0 StringToks st of
               None \<Rightarrow> None
             | Some (st, False) \<Rightarrow> Some st
             | Some (st, True) \<Rightarrow> finish_string env st))"

section \<open>The place of a byte\<close>

text \<open>
  \<open>getOffsetOfStringByte\<close>, for a literal of bytes; the diagnostics it may repeat are not recorded.  \<open>w\<close> is the width of the
  parser's characters, which escapes are cut to.
\<close>

lemma MeasureUCNEscape_progress:
  assumes "Suc P < length buf"
  shows "P + 2 \<le> fst (snd (MeasureUCNEscape h lo buf P 1 err))"
  using ProcessUCNEscape_bounds [OF assms, of h lo True None]
  by (auto simp: MeasureUCNEscape_def split: prod.splits option.splits)

function offset_loop :: "literal_env \<Rightarrow> nat \<Rightarrow> string \<Rightarrow> nat \<Rightarrow> nat \<Rightarrow> nat option" where
  "offset_loop env w buf SpellingPtr ByteNo =
     (if ByteNo = 0 then Some SpellingPtr
      else if \<not> SpellingPtr < length buf then None
      else if peek buf SpellingPtr \<noteq> CHR 0x5C then offset_loop env w buf (Suc SpellingPtr) (ByteNo - 1)
      else if \<not> Suc SpellingPtr < length buf then None
      else if peek buf (Suc SpellingPtr) \<in> {CHR ''u'', CHR ''U''} then
        (case MeasureUCNEscape (hex_digit env) (lang env) buf SpellingPtr 1 False of
          (Len, P', err) \<Rightarrow>
            if Len > ByteNo then Some SpellingPtr
            else if err then None
            else offset_loop env w buf P' (ByteNo - Len))
      else let r = ProcessCharEscape (hex_digit env) buf SpellingPtr False (w * 8) None in
        if HadError r then None else offset_loop env w buf (Pos r) (ByteNo - 1))"
  by pat_completeness auto
termination
proof (relation "measure (\<lambda>(_, _, buf, P, _). length buf - P)", goal_cases)
  case (3 env w buf P ByteNo Len q P' err)
  then have "fst (snd (MeasureUCNEscape (hex_digit env) (lang env) buf P 1 False)) = P'" by (metis fst_conv snd_conv)
  with 3(4) MeasureUCNEscape_progress [of P buf "hex_digit env" "lang env" False] have "P + 2 \<le> P'" "P < length buf" by simp_all
  then show ?case by simp
next
  case (4 env w buf P ByteNo r)
  with ProcessCharEscape_bounds [of P buf "hex_digit env" False "w * 8" None] show ?case by auto
qed auto

declare offset_loop.simps [simp del]

definition getOffsetOfStringByte :: "literal_env \<Rightarrow> nat \<Rightarrow> literal_token \<Rightarrow> nat \<Rightarrow> nat option" where
  "getOffsetOfStringByte env w tok ByteNo =
     (case TokSpelling tok of
       None \<Rightarrow> Some 0
     | Some buf \<Rightarrow>
       let P = (if peek buf 0 = CHR ''u'' \<and> peek buf 1 = CHR ''8'' then 2 else 0) in
       if peek buf P \<in> {CHR ''L'', CHR ''u'', CHR ''U''} then None
       else if peek buf P = CHR ''R'' then
         (if peek buf (Suc P) \<noteq> CHR 0x22 then None
          else let Q = scan_while (\<lambda>c. c \<noteq> CHR ''('') buf (P + 2) in
          if \<not> Q < length buf then None else Some (Suc Q + ByteNo))
       else if peek buf P \<noteq> CHR 0x22 then None
       else offset_loop env w buf (Suc P) ByteNo)"

definition string_isValidUDSuffix :: "lang_options \<Rightarrow> string \<Rightarrow> bool" where
  "string_isValidUDSuffix LangOpts Suffix \<longleftrightarrow> isValidUDSuffix LangOpts Suffix \<or> Suffix = ''sv''"

section \<open>Room in the buffer\<close>

text \<open>There is room for \<open>n\<close> units and the one that conversions ask for beyond.\<close>

definition room :: "string_parser \<Rightarrow> nat \<Rightarrow> bool" where
  "room st n \<longleftrightarrow> CharByteWidth st \<in> {1, 2, 4} \<and> CharByteWidth st * (length (ResultUnits st) + n + 1) \<le> SizeBound st"

definition same_frame :: "string_parser \<Rightarrow> string_parser \<Rightarrow> bool" where
  "same_frame st st' \<longleftrightarrow> SizeBound st' = SizeBound st \<and> CharByteWidth st' = CharByteWidth st \<and> StringKind st' = StringKind st"

lemma same_frame_refl [simp]: "same_frame st st"
  by (simp add: same_frame_def)

lemma same_frame_trans: "same_frame a b \<Longrightarrow> same_frame b c \<Longrightarrow> same_frame a c"
  by (simp add: same_frame_def)

lemma room_mono: "room st n \<Longrightarrow> m \<le> n \<Longrightarrow> room st m"
proof -
  assume r: "room st n" "m \<le> n"
  then have "CharByteWidth st * (length (ResultUnits st) + m + 1) \<le> CharByteWidth st * (length (ResultUnits st) + n + 1)"
    by (intro mult_left_mono) auto
  with r(1) show ?thesis unfolding room_def by (blast intro: order_trans)
qed

lemma report_frame [simp]:
  "ResultUnits (Report_string d st) = ResultUnits st" "same_frame st (Report_string d st)"
  "room (Report_string d st) n = room st n" "StringDiags (Report_string d st) = None \<longleftrightarrow> StringDiags st = None"
  "StringHadError (Report_string d st) = StringHadError st" "StringUDSuffix (Report_string d st) = StringUDSuffix st"
  "Pascal (Report_string d st) = Pascal st"
  by (simp_all add: Report_string_def same_frame_def room_def)

lemma add_escape_diags_frame [simp]:
  "ResultUnits (add_escape_diags i ds st) = ResultUnits st" "CharByteWidth (add_escape_diags i ds st) = CharByteWidth st"
  "SizeBound (add_escape_diags i ds st) = SizeBound st" "StringKind (add_escape_diags i ds st) = StringKind st"
  "StringHadError (add_escape_diags i ds st) = StringHadError st" "StringUDSuffix (add_escape_diags i ds st) = StringUDSuffix st"
  "Pascal (add_escape_diags i ds st) = Pascal st"
  by (simp_all add: add_escape_diags_def split: option.splits)

lemma emit_room:
  assumes "room st (n + m)" "length us \<le> n"
  shows "\<exists>st'. emit us st = Some st' \<and> st' = st\<lparr>ResultUnits := ResultUnits st @ us\<rparr> \<and> room st' m \<and> same_frame st st'"
proof -
  have "room st (length us + m)" using assms by (intro room_mono [OF assms(1)]) simp
  then have r: "CharByteWidth st * (length (ResultUnits st) + length us + m + 1) \<le> SizeBound st"
    and w: "CharByteWidth st \<in> {1, 2, 4}" by (simp_all add: room_def add.assoc)
  have "CharByteWidth st * (length (ResultUnits st) + length us) \<le> CharByteWidth st * (length (ResultUnits st) + length us + m + 1)"
    by (intro mult_left_mono) auto
  with r w show ?thesis by (auto simp: emit_def Let_def room_def same_frame_def)
qed

lemma resyncUTF8_bounds:
  assumes "\<And>c. 0 < nb c" "e < length s"
  shows "e < resyncUTF8 nb s e \<and> resyncUTF8 nb s e \<le> length s"
proof -
  let ?End = "e + min (nb (peek s e)) (length s - e)"
  have End: "Suc e \<le> length (take ?End s)" "length (take ?End s) \<le> length s"
    using assms(1) [of "peek s e"] assms(2) by simp_all
  let ?t = "\<lambda>c. of_char c AND 0xC0 = (0x80 :: nat)"
  have "Suc e \<le> scan_while ?t (take ?End s) (Suc e)" by (rule scan_while_ge)
  moreover have "scan_while ?t (take ?End s) (Suc e) \<le> length (take ?End s)" by (rule scan_while_le [OF End(1)])
  ultimately show ?thesis using assms(2) End(2) by (auto simp: resyncUTF8_def Let_def)
qed

lemma bad_ranges_ends:
  assumes env: "literal_env_ok env" and w: "w \<in> {1, 2, 4}"
  shows "n \<le> length s \<Longrightarrow> bad_ranges env w s n \<noteq> None"
proof (induction "length s - n" arbitrary: n rule: less_induct)
  case less
  show ?case
  proof (cases "utf8_to_wide env w (drop n s)")
    case (Inr us)
    then show ?thesis by (subst bad_ranges.simps) simp
  next
    case (Inl e)
    have "e < length (drop n s)"
      using env w Inl unfolding literal_env_ok_def to_wide_ok_def by blast
    then have e: "n + e < length s" by simp
    let ?N = "resyncUTF8 (utf8_num_bytes env) s (n + e)"
    have N: "n + e < ?N" "?N \<le> length s"
      using resyncUTF8_bounds [OF _ e] env by (auto simp: literal_env_ok_def)
    have "bad_ranges env w s ?N \<noteq> None" using less.hyps [of ?N] N e by simp
    with Inl N show ?thesis by (subst bad_ranges.simps) (simp add: Let_def)
  qed
qed

lemma wide_conversion_length:
  assumes "literal_env_ok env" "w \<in> {1, 2, 4}" "utf8_to_wide env w s = Inr us"
  shows "length us \<le> length s"
proof -
  have "\<exists>vs. list_all scalar vs \<and> s = utf8_string vs \<and> us = wide_string w vs"
    using assms unfolding literal_env_ok_def to_wide_ok_def by blast
  then show ?thesis using wide_string_length [OF assms(2)] by blast
qed

lemma copy_fragment_room:
  assumes env: "literal_env_ok env" and r: "room st (length Fragment + m)"
  shows "\<exists>st'. copy_fragment env i at Fragment st = Some st' \<and> room st' m \<and> same_frame st st'"
proof -
  have w: "CharByteWidth st \<in> {1, 2, 4}" using r by (simp add: room_def)
  have fits: "CharByteWidth st * (length (ResultUnits st) + length Fragment + 1) \<le> SizeBound st"
    using room_mono [OF r, of "length Fragment"] by (simp add: room_def)
  show ?thesis
  proof (cases "utf8_to_wide env (CharByteWidth st) Fragment")
    case (Inr us)
    obtain st' where "emit us st = Some st'" "room st' m" "same_frame st st'"
      using emit_room [OF r wide_conversion_length [OF env w Inr]] by blast
    with Inr fits show ?thesis by (auto simp: copy_fragment_def CopyStringFragment_def Let_def)
  next
    case (Inl e)
    let ?ascii = "StringKind st = string_literal"
    obtain st' where st': "(if ?ascii then emit (map of_char Fragment) st else Some st) = Some st'"
      "room st' m" "same_frame st st'"
    proof (cases ?ascii)
      case True
      then show ?thesis using emit_room [OF r, of "map of_char Fragment"] that by auto
    next
      case False
      then show ?thesis using room_mono [OF r, of m] that by auto
    qed
    obtain rs where "bad_ranges env (CharByteWidth st) Fragment 0 = Some rs"
      using bad_ranges_ends [OF env w, of 0 Fragment] by auto
    then have "\<exists>st''. CopyStringFragment env i at Fragment st = Some (st'', \<not> ?ascii) \<and> room st'' m \<and> same_frame st st''"
      using Inl fits st' unfolding CopyStringFragment_def Let_def
      by (cases "StringDiags st' = None") (auto intro: same_frame_trans)
    then show ?thesis by (auto simp: copy_fragment_def room_def same_frame_def)
  qed
qed

section \<open>Every token the lexer forms is copied\<close>

lemma string_ucn_room:
  assumes h: "hexDigitValue_ok (hex_digit env)" and P: "Suc P < length buf" and r: "room st (length buf - P + m)"
  shows "\<exists>P' st'. string_ucn env i buf P st = Some (P', st') \<and> P + 2 \<le> P' \<and> P' \<le> length buf \<and>
    P' = fst (snd (ProcessUCNEscape (hex_digit env) (lang env) buf P True (engine st))) \<and>
    room st' (length buf - P' + m) \<and> same_frame st st'"
proof -
  let ?w = "CharByteWidth st"
  have w: "?w \<in> {1, 2, 4}" using r by (simp add: room_def)
  obtain v P' ds where u: "ProcessUCNEscape (hex_digit env) (lang env) buf P True (engine st) = (v, P', ds)" by (rule prod_cases3)
  have P': "P + 2 \<le> P'" "P' \<le> length buf" using ProcessUCNEscape_bounds [OF P, of "hex_digit env" "lang env" True "engine st"] u by auto
  let ?st = "\<lambda>err. add_escape_diags i ds (st\<lparr>StringHadError := err\<rparr>)"
  have frame: "same_frame st (?st err)" for err by (simp add: same_frame_def)
  show ?thesis
  proof (cases v)
    case None
    have "room (?st True) (length buf - P' + m)"
      using room_mono [OF r, of "length buf - P' + m"] P' by (simp add: room_def)
    with None u P' frame show ?thesis by (auto simp: string_ucn_def EncodeUCNEscape_def)
  next
    case (Some x)
    have ok: "P' = P + 2 + (if peek buf (P + 1) = CHR ''u'' then 4 else 8)" "scalar x"
      using ProcessUCNEscape_ok [OF h u [unfolded Some]] by (simp_all add: scalar_def)
    have "length (wide_units ?w x) \<le> 4"
      using wide_units_length(2) [OF ok(2) w] utf8_text_length [OF ok(2)] by auto
    moreover have "length buf - P + m = (P' - P) + (length buf - P' + m)" "4 \<le> P' - P" using P' ok(1) by auto
    moreover have "room (?st (StringHadError st)) (length buf - P + m)" using r by (simp add: room_def)
    ultimately obtain st' where "emit (wide_units ?w x) (?st (StringHadError st)) = Some st'"
      "room st' (length buf - P' + m)" "same_frame (?st (StringHadError st)) st'"
      using emit_room [of "?st (StringHadError st)" "P' - P" "length buf - P' + m" "wide_units ?w x"] by auto
    with Some u P' frame [of "StringHadError st"] show ?thesis
      by (auto simp: string_ucn_def EncodeUCNEscape_def wide_units_def intro: same_frame_trans)
  qed
qed

lemma string_escape_room:
  assumes P: "Suc P < length buf" and r: "room st (length buf - P + m)"
  shows "\<exists>P' st'. string_escape env i buf P st = Some (P', st') \<and> P + 2 \<le> P' \<and> P' \<le> length buf \<and>
    P' = Pos (ProcessCharEscape (hex_digit env) buf P (StringHadError st) (CharByteWidth st * 8) (engine st)) \<and>
    room st' (length buf - P' + m) \<and> same_frame st st'"
proof -
  let ?w = "CharByteWidth st"
  let ?r = "ProcessCharEscape (hex_digit env) buf P (StringHadError st) (?w * 8) (engine st)"
  let ?st = "add_escape_diags i (EscDiags ?r) (st\<lparr>StringHadError := HadError ?r\<rparr>)"
  have P': "P + 2 \<le> Pos ?r" "Pos ?r \<le> length buf" using ProcessCharEscape_bounds [OF P] by blast+
  have "?w \<in> {1, 2, 4}" using r by (simp add: room_def)
  then obtain u where u: "truncate_unit ?w (Result ?r) = Some u" by (auto simp: truncate_unit_def)
  have eq: "length buf - P + m = (Pos ?r - P) + (length buf - Pos ?r + m)" and "1 \<le> Pos ?r - P" using P' by linarith+
  have "room ?st (length buf - P + m)" using r by (simp add: room_def)
  then have "room ?st ((Pos ?r - P) + (length buf - Pos ?r + m))" by (simp only: eq)
  moreover have "length [u] \<le> Pos ?r - P" using \<open>1 \<le> Pos ?r - P\<close> by simp
  ultimately obtain st' where st': "emit [u] ?st = Some st'" "room st' (length buf - Pos ?r + m)" "same_frame ?st st'"
    using emit_room by blast
  have "same_frame st ?st" by (simp add: same_frame_def)
  then have "same_frame st st'" using st'(3) by (rule same_frame_trans)
  moreover have "string_escape env i buf P st = Some (Pos ?r, st')"
    using u st'(1) by (simp add: string_escape_def Let_def)
  ultimately show ?thesis using P' st'(2) by blast
qed

lemma cooked_loop_room:
  assumes env: "literal_env_ok env"
  shows "P \<le> length buf \<Longrightarrow> escapes_closed (drop P buf) \<Longrightarrow> room st (length buf - P + m) \<Longrightarrow>
    \<exists>st'. cooked_loop env i buf P st = Some st' \<and> room st' m \<and> same_frame st st'"
proof (induction "length buf - P" arbitrary: P st rule: less_induct)
  case less
  have h: "hexDigitValue_ok (hex_digit env)" using env by (simp add: literal_env_ok_def)
  show ?case
  proof (cases "P < length buf")
    case False
    with less.prems show ?thesis by (subst cooked_loop.simps) simp
  next
    case lt: True
    show ?thesis
    proof (cases "peek buf P = CHR 0x5C")
      case False
      let ?E = "scan_while (\<lambda>c. c \<noteq> CHR 0x5C) buf (Suc P)"
      have E: "P < ?E" "?E \<le> length buf"
        using scan_while_ge [of "Suc P" "\<lambda>c. c \<noteq> CHR 0x5C" buf] scan_while_le [of "Suc P" buf "\<lambda>c. c \<noteq> CHR 0x5C"] lt
        by simp_all
      have "peek buf k \<noteq> CHR 0x5C" if "P \<le> k" "k < ?E" for k
        using that False scan_while_all [of "Suc P" k "\<lambda>c. c \<noteq> CHR 0x5C" buf] by (cases "k = P") auto
      then have closed: "escapes_closed (drop ?E buf)" using E by (intro escapes_closed_span [OF less.prems(2)]) auto
      have "length buf - P + m = length (slice buf P ?E) + (length buf - ?E + m)" using E by simp
      with less.prems(3) have "room st (length (slice buf P ?E) + (length buf - ?E + m))" by (simp only:)
      from copy_fragment_room [OF env this] obtain st' where st': "copy_fragment env i P (slice buf P ?E) st = Some st'"
        "room st' (length buf - ?E + m)" "same_frame st st'" by blast
      have "length buf - ?E < length buf - P" using E by linarith
      from less.hyps [OF this E(2) closed st'(2)] obtain st'' where
        "cooked_loop env i buf ?E st' = Some st''" "room st'' m" "same_frame st' st''" by blast
      with st' False lt show ?thesis
        by (subst cooked_loop.simps) (auto simp: Let_def intro: same_frame_trans)
    next
      case True
      have esc: "Suc P < length buf" by (rule escape_has_char [OF less.prems(2) lt True])
      have "\<exists>P' st'. (if peek buf (Suc P) \<in> {CHR ''u'', CHR ''U''} then string_ucn env i buf P st
            else string_escape env i buf P st) = Some (P', st') \<and> P + 2 \<le> P' \<and> P' \<le> length buf \<and>
          (\<forall>k. P + 2 \<le> k \<longrightarrow> k < P' \<longrightarrow> peek buf k \<noteq> CHR 0x5C) \<and> room st' (length buf - P' + m) \<and> same_frame st st'"
      proof (cases "peek buf (Suc P) \<in> {CHR ''u'', CHR ''U''}")
        case True
        then show ?thesis
          using string_ucn_room [OF h esc less.prems(3), of i] ProcessUCNEscape_span [OF h, of P _ "lang env" buf True "engine st"]
          by simp metis
      next
        case False
        then show ?thesis
          using string_escape_room [OF esc less.prems(3), of env i]
            ProcessCharEscape_span [OF h esc, of _ "StringHadError st" "CharByteWidth st * 8" "engine st"]
          by simp metis
      qed
      then obtain P' st' where step: "(if peek buf (Suc P) \<in> {CHR ''u'', CHR ''U''} then string_ucn env i buf P st
            else string_escape env i buf P st) = Some (P', st')" and P': "P + 2 \<le> P'" "P' \<le> length buf"
          and no: "\<And>k. P + 2 \<le> k \<Longrightarrow> k < P' \<Longrightarrow> peek buf k \<noteq> CHR 0x5C"
          and st': "room st' (length buf - P' + m)" "same_frame st st'" by blast
      have closed: "escapes_closed (drop P' buf)" by (rule escapes_closed_escape [OF less.prems(2) lt True P' no])
      have "length buf - P' < length buf - P" using P' by linarith
      from less.hyps [OF this P'(2) closed st'(1)] obtain st'' where
        "cooked_loop env i buf P' st' = Some st''" "room st'' m" "same_frame st' st''" by blast
      with st'(2) show ?thesis
        using True esc lt step by (subst cooked_loop.simps) (auto intro: same_frame_trans)
    qed
  qed
qed

lemma raw_loop_room:
  assumes env: "literal_env_ok env"
  shows "room st (length span + m) \<Longrightarrow> \<exists>st'. raw_loop env i at span st = Some st' \<and> room st' m \<and> same_frame st st'"
proof (induction "length span" arbitrary: span at st rule: less_induct)
  case less
  show ?case
  proof (cases "span = []")
    case True
    with less.prems show ?thesis by (subst raw_loop.simps) simp
  next
    case False
    let ?k = "find_crlf span"
    let ?rest = "drop 1 (drop ?k span)"
    have "length (take ?k span) + (length span - ?k + m) = length span + m" using find_crlf_le [of span] by simp
    with less.prems have "room st (length (take ?k span) + (length span - ?k + m))" by (simp only:)
    from copy_fragment_room [OF env this] obtain st' where st': "copy_fragment env i at (take ?k span) st = Some st'"
      "room st' (length span - ?k + m)" "same_frame st st'" by blast
    have "room st' (length ?rest + m)" by (rule room_mono [OF st'(2)]) simp
    have "length ?rest < length span" using False by (cases span) auto
    from less.hyps [OF this \<open>room st' (length ?rest + m)\<close>, of "at + ?k + 1"] obtain st'' where
      "raw_loop env i (at + ?k + 1) ?rest st' = Some st''" "room st'' m" "same_frame st' st''" by blast
    with st' False show ?thesis
      by (subst raw_loop.simps) (auto simp: Let_def intro: same_frame_trans)
  qed
qed

section \<open>Tokens\<close>

text \<open>The forms the lexer gives string literals: prefix, body and suffix; raw literals with their delimiter.\<close>

datatype string_form = Ordinary string string string | RawForm string string string string

fun form_text :: "string_form \<Rightarrow> string" where
  "form_text (Ordinary prefix body suffix) = prefix @ CHR 0x22 # body @ CHR 0x22 # suffix"
| "form_text (RawForm prefix delim body suffix) =
     prefix @ CHR ''R'' # CHR 0x22 # delim @ CHR ''('' # body @ CHR '')'' # delim @ CHR 0x22 # suffix"

fun form_suffix :: "string_form \<Rightarrow> string" where
  "form_suffix (Ordinary prefix body suffix) = suffix"
| "form_suffix (RawForm prefix delim body suffix) = suffix"

definition encoding_prefixes :: "string list" where
  "encoding_prefixes = [[], ''L'', ''u'', ''U'', ''u8'']"

fun form_ok :: "string_form \<Rightarrow> bool" where
  "form_ok (Ordinary prefix body suffix) \<longleftrightarrow>
     prefix \<in> set encoding_prefixes \<and> escapes_closed body \<and> CHR 0x22 \<notin> set suffix"
| "form_ok (RawForm prefix delim body suffix) \<longleftrightarrow>
     prefix \<in> set encoding_prefixes \<and> CHR ''('' \<notin> set delim \<and> CHR 0x22 \<notin> set suffix"

definition is_string_kind :: "literal_kind \<Rightarrow> bool" where
  "is_string_kind k \<longleftrightarrow> k \<in> {string_literal, wide_string_literal, utf8_string_literal, utf16_string_literal, utf32_string_literal}"

definition string_token_ok :: "literal_env \<Rightarrow> literal_token \<Rightarrow> bool" where
  "string_token_ok env tok \<longleftrightarrow> is_string_kind (TokKind tok) \<and>
     (TokSpelling tok = None \<or>
      (\<exists>f. TokSpelling tok = Some (form_text f) \<and> form_ok f \<and> length (form_text f) \<le> TokLength tok \<and>
         (TokHasUCN tok \<longrightarrow> expandUCNs (hex_digit env) (code_point_text env) [] (form_suffix f) \<noteq> None)))"

lemma prefix_skipped:
  assumes "prefix \<in> set encoding_prefixes" "c \<in> {CHR 0x22, CHR ''R''}"
  shows "skip_encoding_prefix (prefix @ c # s) = length prefix"
  using assms by (auto simp: encoding_prefixes_def skip_encoding_prefix_def peek_def)

lemma string_suffix_room:
  assumes buf: "buf = front @ CHR 0x22 # suffix"
    and ucn: "TokHasUCN tok \<longrightarrow> expandUCNs (hex_digit env) (code_point_text env) [] suffix \<noteq> None" and r: "room st n"
  shows "\<exists>st'. string_suffix env i tok buf (Suc (length front)) st = Some st' \<and> room st' n \<and> same_frame st st'"
proof -
  obtain expanded where e: "(if TokHasUCN tok then expandUCNs (hex_digit env) (code_point_text env) [] suffix else Some suffix) = Some expanded"
    using ucn by (cases "TokHasUCN tok") auto
  have d: "drop (Suc (length front)) buf = suffix" by (simp add: buf)
  show ?thesis
    using r unfolding string_suffix_def d Let_def e by (auto simp: room_def same_frame_def Report_string_def)
qed

lemma skip_pascal_room:
  assumes "escapes_closed (drop P buf)" "P \<le> length buf" "room st n"
  obtains P' st' where "skip_pascal env i buf P st = (P', st')" "P \<le> P'" "P' \<le> length buf" "escapes_closed (drop P' buf)"
    "room st' n" "same_frame st st'"
proof (cases "pascal_strings env \<and> Suc P \<noteq> length buf \<and> peek buf P = CHR 0x5C \<and> peek buf (Suc P) = CHR ''p''")
  case False
  then show ?thesis using that [of P st] assms by (auto simp: skip_pascal_def)
next
  case True
  have lt: "P < length buf" using True by (auto simp: peek_def split: if_splits)
  have "Suc P < length buf" using True by (auto simp: peek_def split: if_splits)
  then have c: "escapes_closed (drop (Suc P) buf)" "escapes_closed (drop (P + 2) buf)"
    using assms(1) True by (simp_all add: drop_peek)
  have r: "room (st\<lparr>Pascal := True\<rparr>) n" using assms(3) by (simp add: room_def)
  consider "i = 0" | "i \<noteq> 0" "Pascal st" | "i \<noteq> 0" "\<not> Pascal st" by blast
  then show ?thesis
  proof cases
    case 1
    then show ?thesis using True c lt r that [of "Suc P" "st\<lparr>Pascal := True\<rparr>"] by (simp add: skip_pascal_def same_frame_def)
  next
    case 2
    then show ?thesis using True c \<open>Suc P < length buf\<close> assms(3) that [of "P + 2" st] by (simp add: skip_pascal_def)
  next
    case 3
    then show ?thesis using True assms that [of P st] by (simp add: skip_pascal_def)
  qed
qed

text \<open>What is left of \<open>string_token\<close> on a token of either form.\<close>

lemma string_token_ordinary:
  assumes tok: "TokSpelling tok = Some (form_text (Ordinary prefix body suffix))"
    and ok: "prefix \<in> set encoding_prefixes" "CHR 0x22 \<notin> set suffix"
    and st1: "string_suffix env i tok (form_text (Ordinary prefix body suffix)) (Suc (length (prefix @ CHR 0x22 # body))) st = Some st1"
  shows "string_token env i tok st =
    (case skip_pascal env i (prefix @ CHR 0x22 # body) (Suc (length prefix)) st1 of
      (P, st) \<Rightarrow> map_option (\<lambda>st. (st, True)) (cooked_loop env i (prefix @ CHR 0x22 # body) P st))"
proof -
  let ?buf = "form_text (Ordinary prefix body suffix)" and ?front = "prefix @ CHR 0x22 # body"
  have buf: "?buf = ?front @ CHR 0x22 # suffix" by simp
  have e: "after_last (CHR 0x22) ?buf = Suc (length ?front)" unfolding buf by (rule after_last_append [OF ok(2)])
  have P: "skip_encoding_prefix ?buf = length prefix" "peek ?buf (length prefix) = CHR 0x22"
    using prefix_skipped [OF ok(1), of "CHR 0x22"] by (simp_all add: peek_append0) (simp add: peek_def)
  have b: "take (Suc (length ?front) - 1) ?buf = ?front" unfolding buf by simp
  have "Suc (length ?front) \<noteq> 0" "CHR 0x22 \<noteq> CHR ''R''" "Suc (length prefix) \<le> Suc (length ?front) - 1" by simp_all
  then show ?thesis
    unfolding string_token_def tok option.case Let_def e st1 P b by (simp only: if_False not_True_eq_False simp_thms)
qed

lemma string_token_raw:
  assumes tok: "TokSpelling tok = Some (form_text (RawForm prefix delim body suffix))"
    and ok: "prefix \<in> set encoding_prefixes" "CHR ''('' \<notin> set delim" "CHR 0x22 \<notin> set suffix"
    and front: "front = prefix @ CHR ''R'' # CHR 0x22 # delim @ CHR ''('' # body @ CHR '')'' # delim"
    and st1: "string_suffix env i tok (form_text (RawForm prefix delim body suffix)) (Suc (length front)) st = Some st1"
  shows "string_token env i tok st = map_option (\<lambda>st. (st, True)) (raw_loop env i (length prefix + 3 + length delim) body st1)"
proof -
  let ?buf = "form_text (RawForm prefix delim body suffix)"
  have buf: "?buf = front @ CHR 0x22 # suffix" by (simp add: front)
  have e: "after_last (CHR 0x22) ?buf = Suc (length front)" unfolding buf by (rule after_last_append [OF ok(3)])
  have P: "skip_encoding_prefix ?buf = length prefix" "peek ?buf (length prefix) = CHR ''R''"
    using prefix_skipped [OF ok(1), of "CHR ''R''"] by (simp_all add: peek_append0) (simp add: peek_def)
  let ?pre = "prefix @ [CHR ''R'', CHR 0x22]"
  have "list_all (\<lambda>c. c \<noteq> CHR ''('') delim" using ok(2) by (auto simp: list_all_iff)
  from scan_while_run [OF this, of "CHR ''('' # body @ CHR '')'' # delim @ CHR 0x22 # suffix" ?pre]
  have Q: "scan_while (\<lambda>c. c \<noteq> CHR ''('') ?buf (length prefix + 2) = length prefix + 2 + length delim" by simp
  have span: "slice ?buf (length prefix + 3 + length delim) (length prefix + 3 + length delim + length body) = body"
    using slice_append_mid [of "?pre @ delim @ [CHR ''('']" body "CHR '')'' # delim @ CHR 0x22 # suffix"]
    by (simp add: eval_nat_numeral)
  have "length prefix + 2 + length delim < length ?buf" by simp
  then show ?thesis
    using e P Q span st1 tok unfolding front
    by (simp add: string_token_def Let_def eval_nat_numeral ac_simps del: form_text.simps)
qed

lemma string_token_room:
  assumes env: "literal_env_ok env" and tok: "string_token_ok env tok" and r: "room st (TokLength tok - 2 + m)"
  shows "\<exists>st' go. string_token env i tok st = Some (st', go) \<and> room st' m \<and> same_frame st st'"
proof (cases "TokSpelling tok")
  case None
  have "room st m" by (rule room_mono [OF r]) simp
  with None show ?thesis by (auto simp: string_token_def DiagnoseLexingError_def room_def same_frame_def Report_string_def)
next
  case (Some buf)
  obtain f where f: "buf = form_text f" "form_ok f" "length (form_text f) \<le> TokLength tok"
    and ucn: "TokHasUCN tok \<longrightarrow> expandUCNs (hex_digit env) (code_point_text env) [] (form_suffix f) \<noteq> None"
    using tok Some unfolding string_token_ok_def by auto
  show ?thesis
  proof (cases f)
    case (Ordinary prefix body suffix)
    have ok: "prefix \<in> set encoding_prefixes" "escapes_closed body" "CHR 0x22 \<notin> set suffix" using f(2) Ordinary by auto
    let ?body = "prefix @ CHR 0x22 # body"
    have buf: "form_text f = ?body @ CHR 0x22 # suffix" using Ordinary by simp
    have "TokHasUCN tok \<longrightarrow> expandUCNs (hex_digit env) (code_point_text env) [] suffix \<noteq> None" using ucn Ordinary by simp
    from string_suffix_room [OF buf this r, of i] obtain st1 where
      st1: "string_suffix env i tok (form_text f) (Suc (length ?body)) st = Some st1"
        "room st1 (TokLength tok - 2 + m)" "same_frame st st1" by blast
    have closed: "escapes_closed (drop (Suc (length prefix)) ?body)" "Suc (length prefix) \<le> length ?body"
      using ok(2) by simp_all
    obtain P' st2 where st2: "skip_pascal env i ?body (Suc (length prefix)) st1 = (P', st2)" "Suc (length prefix) \<le> P'"
      "P' \<le> length ?body" "escapes_closed (drop P' ?body)" "room st2 (TokLength tok - 2 + m)" "same_frame st1 st2"
      using skip_pascal_room [OF closed st1(2), of env i] by blast
    have "length ?body - P' + m \<le> TokLength tok - 2 + m" using st2(2) f(3) by (simp add: buf)
    from cooked_loop_room [OF env st2(3,4) room_mono [OF st2(5) this]] obtain st3 where
      st3: "cooked_loop env i ?body P' st2 = Some st3" "room st3 m" "same_frame st2 st3" by blast
    have "string_token env i tok st = Some (st3, True)"
      using string_token_ordinary [OF Some [unfolded f(1) Ordinary] ok(1,3) st1(1) [unfolded Ordinary]] st2(1) st3(1) by simp
    with st3 st1(3) st2(6) show ?thesis by (blast intro: same_frame_trans)
  next
    case (RawForm prefix delim body suffix)
    have ok: "prefix \<in> set encoding_prefixes" "CHR ''('' \<notin> set delim" "CHR 0x22 \<notin> set suffix" using f(2) RawForm by auto
    let ?front = "prefix @ CHR ''R'' # CHR 0x22 # delim @ CHR ''('' # body @ CHR '')'' # delim"
    have buf: "form_text f = ?front @ CHR 0x22 # suffix" using RawForm by simp
    have "TokHasUCN tok \<longrightarrow> expandUCNs (hex_digit env) (code_point_text env) [] suffix \<noteq> None" using ucn RawForm by simp
    from string_suffix_room [OF buf this r, of i] obtain st1 where
      st1: "string_suffix env i tok (form_text f) (Suc (length ?front)) st = Some st1"
        "room st1 (TokLength tok - 2 + m)" "same_frame st st1" by blast
    have "length body + m \<le> TokLength tok - 2 + m" using f(3) by (simp add: buf)
    from raw_loop_room [OF env room_mono [OF st1(2) this]] obtain st2 where
      st2: "raw_loop env i (length prefix + 3 + length delim) body st1 = Some st2" "room st2 m" "same_frame st1 st2" by blast
    have "string_token env i tok st = Some (st2, True)"
      using string_token_raw [OF Some [unfolded f(1) RawForm] ok refl st1(1) [unfolded RawForm]] st2(1) by simp
    with st1(3) st2 show ?thesis by (blast intro: same_frame_trans)
  qed
qed

lemma string_tokens_room:
  assumes env: "literal_env_ok env"
  shows "\<forall>tok \<in> set toks. string_token_ok env tok \<Longrightarrow> room st (sum_list (map (\<lambda>t. TokLength t - 2) toks)) \<Longrightarrow>
    \<exists>st' go. string_tokens env i toks st = Some (st', go) \<and> room st' 0 \<and> same_frame st st'"
proof (induction toks arbitrary: i st)
  case (Cons tok toks)
  have tok: "string_token_ok env tok" using Cons.prems(1) by simp
  have "room st (TokLength tok - 2 + sum_list (map (\<lambda>t. TokLength t - 2) toks))" using Cons.prems(2) by simp
  from string_token_room [OF env tok this, of i] obtain st1 go where st1: "string_token env i tok st = Some (st1, go)"
    "room st1 (sum_list (map (\<lambda>t. TokLength t - 2) toks))" "same_frame st st1" by blast
  show ?case
  proof (cases go)
    case False
    have "room st1 0" by (rule room_mono [OF st1(2)]) simp
    with st1 False show ?thesis by auto
  next
    case True
    have "\<forall>tok \<in> set toks. string_token_ok env tok" using Cons.prems(1) by simp
    from Cons.IH [OF this st1(2), of "Suc i"] obtain st2 go2 where
      "string_tokens env (Suc i) toks st1 = Some (st2, go2)" "room st2 0" "same_frame st1 st2" by blast
    with st1 True show ?thesis by (auto intro: same_frame_trans)
  qed
qed auto

lemma scan_tokens_frame:
  "\<forall>tok \<in> set toks. is_string_kind (TokKind tok) \<Longrightarrow> is_string_kind (StringKind st) \<Longrightarrow>
   \<exists>st' go. scan_tokens i toks st = (st', go) \<and> ResultUnits st' = ResultUnits st \<and> is_string_kind (StringKind st') \<and>
     CharByteWidth st' = CharByteWidth st \<and>
     (go \<longrightarrow> SizeBound st' = SizeBound st + sum_list (map (\<lambda>t. TokLength t - 2) toks))"
proof (induction toks arbitrary: i st)
  case (Cons tok toks)
  show ?case
  proof (cases "TokLength tok < 2")
    case True
    then show ?thesis using Cons.prems by (auto simp: DiagnoseLexingError_def Report_string_def)
  next
    case False
    let ?st = "st\<lparr>SizeBound := SizeBound st + (TokLength tok - 2), MaxTokenLength := max (MaxTokenLength st) (TokLength tok)\<rparr>"
    define st1 where "st1 = (if TokKind tok \<noteq> StringKind ?st \<and> TokKind tok \<noteq> string_literal
      then if StringKind ?st = string_literal then ?st\<lparr>StringKind := TokKind tok\<rparr>
        else (Report_string (err_unsupported_string_concat i) ?st)\<lparr>StringHadError := True\<rparr>
      else ?st)"
    have k: "is_string_kind (TokKind tok)" "\<forall>tok \<in> set toks. is_string_kind (TokKind tok)" using Cons.prems(1) by auto
    have "is_string_kind (StringKind st1)" "SizeBound st1 = SizeBound st + (TokLength tok - 2)"
      "ResultUnits st1 = ResultUnits st" "CharByteWidth st1 = CharByteWidth st"
      using k(1) Cons.prems(2) by (simp_all add: st1_def Report_string_def)
    moreover have "scan_tokens i (tok # toks) st = scan_tokens (Suc i) toks st1"
      using False by (simp add: st1_def Let_def)
    ultimately show ?thesis using Cons.IH [OF k(2), of st1 "Suc i"] by (auto simp: add.assoc)
  qed
qed auto


lemma sample_token:
  "form_ok f \<Longrightarrow> is_string_kind k \<Longrightarrow> length (form_text f) \<le> n \<Longrightarrow>
   string_token_ok env \<lparr>TokKind = k, TokLength = n, TokSpelling = Some (form_text f), TokHasUCN = False\<rparr>"
  by (auto simp: string_token_ok_def)


end
