(* ===== verification/StringContents.thy ===== *)
theory StringContents
  imports StringLiteral
begin

text \<open>
  What string literals contain (\<open>StringLiteralParser\<close>, modelled in \<open>StringLiteral\<close>): the units of their elements, raw text
  with its line ends, concatenation, and the place of a byte in the spelling.
\<close>

section \<open>Pieces of a string\<close>

datatype content = Cooked "element list" | RawText string "u32 list"

record string_piece =
  PieceKind :: literal_kind
  PieceContent :: content
  PieceSuffix :: string

definition string_prefix :: "literal_kind \<Rightarrow> string" where
  "string_prefix k = (case k of wide_string_literal \<Rightarrow> ''L'' | utf8_string_literal \<Rightarrow> ''u8''
     | utf16_string_literal \<Rightarrow> ''u'' | utf32_string_literal \<Rightarrow> ''U'' | _ \<Rightarrow> [])"

definition piece_form :: "string_piece \<Rightarrow> string_form" where
  "piece_form p = (case PieceContent p of
       Cooked es \<Rightarrow> Ordinary (string_prefix (PieceKind p)) (spellings es) (PieceSuffix p)
     | RawText d vs \<Rightarrow> RawForm (string_prefix (PieceKind p)) d (utf8_string vs) (PieceSuffix p))"

definition string_piece_ok :: "lang_options \<Rightarrow> string_piece \<Rightarrow> bool" where
  "string_piece_ok lo p \<longleftrightarrow> is_string_kind (PieceKind p) \<and> CHR 0x22 \<notin> set (PieceSuffix p) \<and>
     (case PieceContent p of Cooked es \<Rightarrow> elements_ok lo es | RawText d vs \<Rightarrow> CHR ''('' \<notin> set d \<and> list_all scalar vs)"

text \<open>The token of a piece.  Its length may be larger than that of its spelling, when lines were spliced.\<close>

definition token_of :: "string_piece \<Rightarrow> literal_token \<Rightarrow> bool" where
  "token_of p tok \<longleftrightarrow> TokKind tok = PieceKind p \<and> TokSpelling tok = Some (form_text (piece_form p)) \<and>
     \<not> TokHasUCN tok \<and> length (form_text (piece_form p)) \<le> TokLength tok"

text \<open>The units: code points are encoded, escapes are single units, and line ends of raw text are \<open>\n\<close>.\<close>

definition element_units :: "nat \<Rightarrow> element \<Rightarrow> u32 list" where
  "element_units w e = (if is_source e \<or> is_ucn e then wide_units w (of_nat (element_value 8 e))
     else [of_nat (element_value (8 * w) e)])"

definition elements_units :: "nat \<Rightarrow> element list \<Rightarrow> u32 list" where
  "elements_units w es = concat (map (element_units w) es)"

fun drop_crlf :: "u32 list \<Rightarrow> u32 list" where
  "drop_crlf (a # b # vs) = (if a = 0x0D \<and> b = 0x0A then drop_crlf (b # vs) else a # drop_crlf (b # vs))"
| "drop_crlf vs = vs"

definition piece_units :: "nat \<Rightarrow> string_piece \<Rightarrow> u32 list" where
  "piece_units w p = (case PieceContent p of Cooked es \<Rightarrow> elements_units w es | RawText d vs \<Rightarrow> wide_string w (drop_crlf vs))"

lemma elements_units_simps [simp]:
  "elements_units w [] = []" "elements_units w (e # es) = element_units w e @ elements_units w es"
  "elements_units w (xs @ ys) = elements_units w xs @ elements_units w ys"
  "elements_units w (map Source vs) = wide_string w vs"
  by (simp_all add: elements_units_def element_units_def wide_string_def comp_def)

section \<open>States that only grow\<close>

definition grows_by :: "string_parser \<Rightarrow> u32 list \<Rightarrow> string_parser \<Rightarrow> bool" where
  "grows_by st us st' \<longleftrightarrow> ResultUnits st' = ResultUnits st @ us \<and> same_frame st st' \<and>
     StringHadError st' = StringHadError st \<and> StringUDSuffix st' = StringUDSuffix st \<and> Pascal st' = Pascal st"

lemma grows_by_trans: "grows_by a us b \<Longrightarrow> grows_by b vs c \<Longrightarrow> grows_by a (us @ vs) c"
  by (auto simp: grows_by_def same_frame_def)

lemma grows_by_refl [simp]: "grows_by st [] st"
  by (simp add: grows_by_def)

lemma grows_by_width: "grows_by st us st' \<Longrightarrow> CharByteWidth st' = CharByteWidth st"
  by (simp add: grows_by_def same_frame_def)

lemma emit_extends: "emit us st = Some st' \<Longrightarrow> grows_by st us st'"
  by (auto simp: emit_def Let_def grows_by_def same_frame_def split: if_splits)

lemma copy_fragment_text:
  assumes env: "literal_env_ok env" and r: "room st (length (utf8_string vs) + m)" and vs: "list_all scalar vs"
  shows "\<exists>st'. copy_fragment env i at (utf8_string vs) st = Some st' \<and> room st' m \<and>
    grows_by st (wide_string (CharByteWidth st) vs) st'"
proof -
  obtain st' where st': "copy_fragment env i at (utf8_string vs) st = Some st'" "room st' m"
    using copy_fragment_room [OF env r] by blast
  have "CharByteWidth st \<in> {1, 2, 4}" using r by (simp add: room_def)
  then have conv: "utf8_to_wide env (CharByteWidth st) (utf8_string vs) = Inr (wide_string (CharByteWidth st) vs)"
    using env vs unfolding literal_env_ok_def to_wide_ok_def by blast
  have "emit (wide_string (CharByteWidth st) vs) st = Some st'"
    using st'(1) conv by (auto simp: copy_fragment_def CopyStringFragment_def Let_def split: if_splits option.splits)
  with st' emit_extends show ?thesis by blast
qed

lemma units_cut:
  assumes "w \<in> {1, 2, 4 :: nat}" "n < 2 ^ (8 * w)"
  shows "truncate_unit w (of_nat n) = Some (of_nat n)"
proof -
  have m: "(0xFF :: u32) = mask 8" "(0xFFFF :: u32) = mask 16" by (simp_all add: mask_eq_exp_minus_1)
  have "take_bit (8 * w) (of_nat n :: u32) = of_nat n"
    using assms(2) by (simp add: take_bit_of_nat take_bit_nat_eq_self)
  with assms(1) show ?thesis
    by (auto simp: truncate_unit_def m take_bit_eq_mask [symmetric])
qed

lemma escape_value_fits:
  assumes "element_ok lo after e" "\<not> is_source e" "\<not> is_ucn e" "w \<in> {1, 2, 4}"
  shows "element_value (8 * w) e < 2 ^ (8 * w)"
proof (cases e)
  case (Simple c)
  then have "simple_value c < 128" using assms(1) simple_value_small by simp
  also have "(128 :: nat) \<le> 2 ^ (8 * w)" using assms(4) by auto
  finally show ?thesis using Simple by simp
qed (use assms in simp_all)

section \<open>The body of an ordinary literal\<close>

text \<open>An escape or a name: where it ends, and what it adds.\<close>

lemma escape_step:
  assumes env: "literal_env_ok env" and ok: "element_ok (lang env) (next_char rest) e" "\<not> is_source e"
    and buf: "buf = pre @ spelling e @ rest" and r: "room st (length (spelling e @ rest) + m)"
  shows "\<exists>st'. (if peek buf (Suc (length pre)) \<in> {CHR ''u'', CHR ''U''} then string_ucn env i buf (length pre) st
      else string_escape env i buf (length pre) st) = Some (length (pre @ spelling e), st') \<and>
    room st' (length rest + m) \<and> grows_by st (element_units (CharByteWidth st) e) st'"
proof -
  let ?P = "length pre" and ?P' = "length (pre @ spelling e)" and ?w = "CharByteWidth st"
  have h: "hexDigitValue_ok (hex_digit env)" using env by (simp add: literal_env_ok_def)
  have w: "?w \<in> {1, 2, 4}" using r by (simp add: room_def)
  note sc = second_char [OF ok, of pre rest, folded buf]
  have r': "room st (length buf - ?P + m)" using r by (simp add: buf)
  have rest: "length buf - ?P' = length rest" by (simp add: buf)
  show ?thesis
  proof (cases "is_ucn e")
    case True
    then obtain k ns where e: "e = Ucn k ns" by (cases e) auto
    obtain ds where u: "ProcessUCNEscape (hex_digit env) (lang env) buf ?P True (engine st) =
        (Some (of_nat (digits_value 16 0 ns)), ?P', ds)"
      using ucn_element [OF h ok(1) [unfolded e], of pre rest "engine st"] unfolding buf e by auto
    obtain P' st' where st': "string_ucn env i buf ?P st = Some (P', st')" "room st' (length buf - P' + m)" "P' = ?P'"
      using string_ucn_room [OF h sc(3) r', of i] u by auto
    have "emit (wide_units ?w (of_nat (digits_value 16 0 ns)))
        (add_escape_diags i ds (st\<lparr>StringHadError := StringHadError st\<rparr>)) = Some st'"
      using st'(1) u by (auto simp: string_ucn_def EncodeUCNEscape_def wide_units_def)
    from emit_extends [OF this] have "grows_by st (element_units ?w e) st'"
      by (simp add: grows_by_def same_frame_def element_units_def e)
    with st' sc(1) True rest show ?thesis by auto
  next
    case False
    have w8: "8 \<le> ?w * 8" "?w * 8 \<le> 32" using w by auto
    obtain ds where u: "ProcessCharEscape (hex_digit env) buf ?P (StringHadError st) (?w * 8) (engine st) =
        \<lparr>Result = of_nat (element_value (?w * 8) e), Pos = ?P', HadError = StringHadError st, EscDiags = ds\<rparr>"
      using escape_element [OF h ok False w8, of pre "StringHadError st" "engine st"] unfolding buf by auto
    obtain P' st' where st': "string_escape env i buf ?P st = Some (P', st')" "room st' (length buf - P' + m)" "P' = ?P'"
      using string_escape_room [OF sc(3) r', of env i] u by auto
    have cut: "truncate_unit ?w (of_nat (element_value (?w * 8) e)) = Some (of_nat (element_value (8 * ?w) e))"
      using units_cut [OF w escape_value_fits [OF ok False w]] by (simp add: mult.commute)
    have "emit [of_nat (element_value (8 * ?w) e)]
        (add_escape_diags i ds (st\<lparr>StringHadError := StringHadError st\<rparr>)) = Some st'"
      using st'(1) u cut by (auto simp: string_escape_def Let_def)
    from emit_extends [OF this] have "grows_by st (element_units ?w e) st'"
      using False ok(2) by (simp add: grows_by_def same_frame_def element_units_def)
    with st' sc(1) False rest show ?thesis by auto
  qed
qed

lemma cooked_loop_elements:
  assumes env: "literal_env_ok env"
  shows "elements_ok (lang env) es \<Longrightarrow> room st (length (spellings es) + m) \<Longrightarrow>
    \<exists>st'. cooked_loop env i (pre @ spellings es) (length pre) st = Some st' \<and> room st' m \<and>
      grows_by st (elements_units (CharByteWidth st) es) st'"
proof (induction "length es" arbitrary: es pre st rule: less_induct)
  case less
  obtain vs rest where es: "es = map Source vs @ rest" and esc: "\<forall>e es'. rest = e # es' \<longrightarrow> \<not> is_source e"
    by (rule elements_split)
  show ?case
  proof (cases "vs = []")
    case False
    let ?buf = "pre @ spellings es" and ?pre = "pre @ utf8_string vs"
    note run = source_run [where pre = pre, OF less.prems(1) [unfolded es] esc False refl, folded es]
    have "room st (length (utf8_string vs) + (length (spellings rest) + m))" using less.prems(2) by (simp add: es add.assoc)
    from copy_fragment_text [OF env this run(4), of i "length pre"] obtain st1 where
      st1: "copy_fragment env i (length pre) (utf8_string vs) st = Some st1" "room st1 (length (spellings rest) + m)"
        "grows_by st (wide_string (CharByteWidth st) vs) st1" by blast
    have "length rest < length es" using False es by simp
    from less.hyps [OF this elements_ok_append [OF less.prems(1) [unfolded es]] st1(2), of ?pre] obtain st2 where
      st2: "cooked_loop env i (?pre @ spellings rest) (length ?pre) st1 = Some st2" "room st2 m"
        "grows_by st1 (elements_units (CharByteWidth st1) rest) st2" by blast
    have b: "?pre @ spellings rest = ?buf" by (simp add: es)
    have "cooked_loop env i ?buf (length pre) st = Some st2"
      using run st1(1) st2(1) unfolding b by (subst cooked_loop.simps) simp
    moreover have "grows_by st (elements_units (CharByteWidth st) es) st2"
      using grows_by_trans [OF st1(3) st2(3)] grows_by_width [OF st1(3)] by (simp add: es)
    ultimately show ?thesis using st2(2) by blast
  next
    case True
    then have r: "es = rest" using es by simp
    show ?thesis
    proof (cases rest)
      case Nil
      then show ?thesis using r less.prems by (subst cooked_loop.simps) simp
    next
      case (Cons e es')
      then have ne: "\<not> is_source e" using esc by blast
      from less.prems(1) Cons r have ok: "element_ok (lang env) (next_char (spellings es')) e" "elements_ok (lang env) es'" by auto
      let ?buf = "pre @ spelling e @ spellings es'" and ?pre = "pre @ spelling e"
      have rm: "room st (length (spelling e @ spellings es') + m)" using less.prems(2) Cons r by simp
      from escape_step [OF env ok(1) ne refl rm, of pre i] obtain st1 where
        st1: "(if peek ?buf (Suc (length pre)) \<in> {CHR ''u'', CHR ''U''} then string_ucn env i ?buf (length pre) st
            else string_escape env i ?buf (length pre) st) = Some (length ?pre, st1)"
          "room st1 (length (spellings es') + m)" "grows_by st (element_units (CharByteWidth st) e) st1" by blast
      have "length es' < length es" using Cons r by simp
      from less.hyps [OF this ok(2) st1(2), of ?pre] obtain st2 where
        st2: "cooked_loop env i (?pre @ spellings es') (length ?pre) st1 = Some st2" "room st2 m"
          "grows_by st1 (elements_units (CharByteWidth st1) es') st2" by blast
      note sc = second_char [OF ok(1) ne, of pre "spellings es'"]
      have "cooked_loop env i ?buf (length pre) st = Some st2"
        using st1(1) st2(1) sc(2,3) spelling_not_Nil [OF ok(1)] by (subst cooked_loop.simps) simp
      moreover have "grows_by st (elements_units (CharByteWidth st) es) st2"
        using grows_by_trans [OF st1(3) st2(3)] grows_by_width [OF st1(3)] by (simp add: r Cons)
      ultimately show ?thesis using st2(2) r Cons by auto
    qed
  qed
qed

section \<open>Raw text\<close>

lemma find_crlf_append: "CHR 0x0D \<notin> set xs \<Longrightarrow> find_crlf (xs @ ys) = length xs + find_crlf ys"
  by (induction xs) auto

lemma utf8_text_has:
  assumes "scalar v" "c \<in> {CHR 0x0D, CHR 0x0A}" "c \<in> set (utf8_text v)"
  shows "v = of_nat (of_char c)" "utf8_text v = [c]"
proof -
  have "of_char c < (0x80 :: nat)" using assms(2) by auto
  from utf8_text_char [OF assms(1,3) this] have u: "unat v = of_char c" "utf8_text v = [c]" by simp_all
  have "v = of_nat (unat v)" by simp
  then show "v = of_nat (of_char c)" unfolding u(1) .
  show "utf8_text v = [c]" by (rule u(2))
qed

lemma line_ends: "utf8_text 0x0A = [CHR 0x0A]" "utf8_text 0x0D = [CHR 0x0D]"
  by code_simp+

lemma next_newline:
  assumes "list_all scalar vs"
  shows "(next_char (utf8_string vs) = Some (CHR 0x0A)) = (\<exists>vs'. vs = 0x0A # vs')"
proof (cases vs)
  case (Cons v vs')
  with assms have v: "scalar v" by simp
  then obtain c cs where c: "utf8_text v = c # cs" by (cases "utf8_text v") auto
  show ?thesis
  proof
    assume "next_char (utf8_string vs) = Some (CHR 0x0A)"
    with Cons c have "CHR 0x0A \<in> set (utf8_text v)" by simp
    from utf8_text_has(1) [OF v _ this] Cons show "\<exists>vs'. vs = 0x0A # vs'" by simp
  next
    assume "\<exists>vs'. vs = 0x0A # vs'"
    with Cons have "v = 0x0A" by simp
    then show "next_char (utf8_string vs) = Some (CHR 0x0A)" using Cons line_ends by simp
  qed
qed simp

text \<open>A text is without \<open>\r\n\<close>, or splits in front of the first.\<close>

lemma crlf_split:
  "list_all scalar vs \<Longrightarrow>
   find_crlf (utf8_string vs) = length (utf8_string vs) \<and> drop_crlf vs = vs \<or>
   (\<exists>as bs. vs = as @ 0x0D # 0x0A # bs \<and> find_crlf (utf8_string vs) = length (utf8_string as) \<and>
      drop_crlf vs = as @ drop_crlf (0x0A # bs))"
proof (induction vs)
  case (Cons v vs)
  then have v: "scalar v" "list_all scalar vs" by simp_all
  note r = line_ends(2)
  show ?case
  proof (cases "v = 0x0D \<and> (\<exists>bs. vs = 0x0A # bs)")
    case True
    then obtain bs where "v = 0x0D" "vs = 0x0A # bs" by blast
    moreover from this have "next_char (utf8_string vs) = Some (CHR 0x0A)" using next_newline [OF v(2)] by blast
    ultimately have "v # vs = [] @ 0x0D # 0x0A # bs" "find_crlf (utf8_string (v # vs)) = 0"
      "drop_crlf (v # vs) = [] @ drop_crlf (0x0A # bs)" using r by simp_all
    then show ?thesis by (metis list.size(3) text_simps(1))
  next
    case False
    have drop: "drop_crlf (v # vs) = v # drop_crlf vs" using False by (cases vs) auto
    have find: "find_crlf (utf8_string (v # vs)) = length (utf8_text v) + find_crlf (utf8_string vs)"
    proof (cases "CHR 0x0D \<in> set (utf8_text v)")
      case True
      from utf8_text_has [OF v(1) _ this] have "v = 0x0D" "utf8_text v = [CHR 0x0D]" by simp_all
      with False next_newline [OF v(2)] show ?thesis by auto
    next
      case False
      then show ?thesis by (simp add: find_crlf_append)
    qed
    from Cons.IH [OF v(2)] show ?thesis
    proof
      assume "find_crlf (utf8_string vs) = length (utf8_string vs) \<and> drop_crlf vs = vs"
      with drop find show ?thesis by simp
    next
      assume "\<exists>as bs. vs = as @ 0x0D # 0x0A # bs \<and> find_crlf (utf8_string vs) = length (utf8_string as) \<and>
        drop_crlf vs = as @ drop_crlf (0x0A # bs)"
      then obtain as bs where "vs = as @ 0x0D # 0x0A # bs" "find_crlf (utf8_string vs) = length (utf8_string as)"
        "drop_crlf vs = as @ drop_crlf (0x0A # bs)" by blast
      with drop find have "v # vs = (v # as) @ 0x0D # 0x0A # bs \<and> find_crlf (utf8_string (v # vs)) = length (utf8_string (v # as)) \<and>
        drop_crlf (v # vs) = (v # as) @ drop_crlf (0x0A # bs)" by simp
      then show ?thesis by blast
    qed
  qed
qed simp

lemma raw_loop_text:
  assumes env: "literal_env_ok env"
  shows "list_all scalar vs \<Longrightarrow> room st (length (utf8_string vs) + m) \<Longrightarrow>
    \<exists>st'. raw_loop env i at (utf8_string vs) st = Some st' \<and> room st' m \<and>
      grows_by st (wide_string (CharByteWidth st) (drop_crlf vs)) st'"
proof (induction "length vs" arbitrary: vs at st rule: less_induct)
  case less
  show ?case
  proof (cases "vs = []")
    case True
    with less.prems show ?thesis by (subst raw_loop.simps) simp
  next
    case False
    have "length vs \<le> length (utf8_string vs)" by (rule utf8_string_length [OF less.prems(1)])
    with False have ne: "utf8_string vs \<noteq> []" by (cases "utf8_string vs") auto
    from crlf_split [OF less.prems(1)] show ?thesis
    proof
      assume no: "find_crlf (utf8_string vs) = length (utf8_string vs) \<and> drop_crlf vs = vs"
      from copy_fragment_text [OF env less.prems(2,1), of i at] obtain st' where
        "copy_fragment env i at (utf8_string vs) st = Some st'" "room st' m" "grows_by st (wide_string (CharByteWidth st) vs) st'" by blast
      with no ne show ?thesis by (subst raw_loop.simps) (simp add: Let_def raw_loop.simps [where RemainingTokenSpan = "[]"])
    next
      assume "\<exists>as bs. vs = as @ 0x0D # 0x0A # bs \<and> find_crlf (utf8_string vs) = length (utf8_string as) \<and>
        drop_crlf vs = as @ drop_crlf (0x0A # bs)"
      then obtain as bs where vs: "vs = as @ 0x0D # 0x0A # bs" and f: "find_crlf (utf8_string vs) = length (utf8_string as)"
        and d: "drop_crlf vs = as @ drop_crlf (0x0A # bs)" by blast
      have sc: "list_all scalar as" "list_all scalar (0x0A # bs)" using less.prems(1) vs by auto
      note r = line_ends(2)
      have u: "utf8_string vs = utf8_string as @ CHR 0x0D # utf8_string (0x0A # bs)" by (simp add: vs r)
      have "room st (length (utf8_string as) + (length (utf8_string (0x0A # bs)) + m))"
        by (rule room_mono [OF less.prems(2)]) (simp add: u)
      from copy_fragment_text [OF env this sc(1), of i at] obtain st1 where
        st1: "copy_fragment env i at (utf8_string as) st = Some st1" "room st1 (length (utf8_string (0x0A # bs)) + m)"
          "grows_by st (wide_string (CharByteWidth st) as) st1" by blast
      have "length (0x0A # bs) < length vs" by (simp add: vs)
      from less.hyps [OF this sc(2) st1(2), of "at + length (utf8_string as) + 1"] obtain st2 where
        st2: "raw_loop env i (at + length (utf8_string as) + 1) (utf8_string (0x0A # bs)) st1 = Some st2" "room st2 m"
          "grows_by st1 (wide_string (CharByteWidth st1) (drop_crlf (0x0A # bs))) st2" by blast
      have "raw_loop env i at (utf8_string vs) st = Some st2"
        using ne f st1(1) st2(1) by (subst raw_loop.simps) (simp add: Let_def u del: text_simps)
      moreover have "grows_by st (wide_string (CharByteWidth st) (drop_crlf vs)) st2"
        using grows_by_trans [OF st1(3) st2(3)] grows_by_width [OF st1(3)] by (simp add: d del: drop_crlf.simps text_simps(5))
      ultimately show ?thesis using st2(2) by blast
    qed
  qed
qed

section \<open>One token\<close>

text \<open>The suffix a literal has so far: none, or the one all its tokens share.\<close>

definition merge_suffix :: "string \<Rightarrow> string \<Rightarrow> string" where
  "merge_suffix old new = (if new = [] then old else new)"

lemma string_suffix_same:
  assumes "\<not> TokHasUCN tok" "buf = front @ CHR 0x22 # suffix" "suffix \<in> {[], S}" "StringUDSuffix st \<in> {[], S}"
  shows "\<exists>st'. string_suffix env i tok buf (Suc (length front)) st = Some st' \<and>
    ResultUnits st' = ResultUnits st \<and> same_frame st st' \<and> StringHadError st' = StringHadError st \<and> Pascal st' = Pascal st \<and>
    StringUDSuffix st' = merge_suffix (StringUDSuffix st) suffix"
  using assms by (auto simp: string_suffix_def Let_def same_frame_def merge_suffix_def)

lemma string_token_piece:
  assumes env: "literal_env_ok env" "\<not> pascal_strings env" and p: "string_piece_ok (lang env) p" "token_of p tok"
    and suffix: "PieceSuffix p \<in> {[], S}" "StringUDSuffix st \<in> {[], S}" and r: "room st (TokLength tok - 2 + m)"
  shows "\<exists>st'. string_token env i tok st = Some (st', True) \<and> room st' m \<and> same_frame st st' \<and>
    ResultUnits st' = ResultUnits st @ piece_units (CharByteWidth st) p \<and> StringHadError st' = StringHadError st \<and>
    Pascal st' = Pascal st \<and> StringUDSuffix st' = merge_suffix (StringUDSuffix st) (PieceSuffix p)"
proof -
  let ?pre = "string_prefix (PieceKind p)" and ?suf = "PieceSuffix p" and ?buf = "form_text (piece_form p)"
  have prefix: "?pre \<in> set encoding_prefixes"
    by (auto simp: string_prefix_def encoding_prefixes_def split: literal_kind.splits)
  have q: "CHR 0x22 \<notin> set ?suf" and noucn: "\<not> TokHasUCN tok" and tok: "TokSpelling tok = Some ?buf"
    and len: "length ?buf \<le> TokLength tok" using p by (auto simp: string_piece_ok_def token_of_def)
  have go: ?thesis
    if front: "?buf = front @ CHR 0x22 # ?suf"
      and rest: "\<And>st1. string_suffix env i tok ?buf (Suc (length front)) st = Some st1 \<Longrightarrow> room st1 (TokLength tok - 2 + m) \<Longrightarrow>
        \<exists>st2. string_token env i tok st = Some (st2, True) \<and> room st2 m \<and> grows_by st1 (piece_units (CharByteWidth st1) p) st2"
    for front
  proof -
    from string_suffix_same [OF noucn front suffix, of env i] obtain st1 where
      st1: "string_suffix env i tok ?buf (Suc (length front)) st = Some st1" "ResultUnits st1 = ResultUnits st" "same_frame st st1"
        "StringHadError st1 = StringHadError st" "Pascal st1 = Pascal st"
        "StringUDSuffix st1 = merge_suffix (StringUDSuffix st) ?suf" by blast
    have "room st1 (TokLength tok - 2 + m)" using r st1(2,3) by (simp add: room_def same_frame_def)
    from rest [OF st1(1) this] obtain st2 where "string_token env i tok st = Some (st2, True)" "room st2 m"
      "grows_by st1 (piece_units (CharByteWidth st1) p) st2" by blast
    with st1 show ?thesis by (auto simp: grows_by_def same_frame_def)
  qed
  show ?thesis
  proof (cases "PieceContent p")
    case (Cooked es)
    let ?body = "?pre @ CHR 0x22 # spellings es"
    have f: "piece_form p = Ordinary ?pre (spellings es) ?suf" by (simp add: piece_form_def Cooked)
    have es: "elements_ok (lang env) es" using p(1) Cooked by (simp add: string_piece_ok_def)
    show ?thesis
    proof (rule go [of ?body])
      show "?buf = ?body @ CHR 0x22 # ?suf" by (simp add: f)
    next
      fix st1
      assume st1: "string_suffix env i tok ?buf (Suc (length ?body)) st = Some st1" "room st1 (TokLength tok - 2 + m)"
      have b: "?body = (?pre @ [CHR 0x22]) @ spellings es" by simp
      have "room st1 (length (spellings es) + m)" by (rule room_mono [OF st1(2)]) (use len in \<open>simp add: f\<close>)
      from cooked_loop_elements [OF env(1) es this, of i "?pre @ [CHR 0x22]"] obtain st2 where
        st2: "cooked_loop env i ?body (Suc (length ?pre)) st1 = Some st2" "room st2 m"
          "grows_by st1 (elements_units (CharByteWidth st1) es) st2" by auto
      have "skip_pascal env i ?body (Suc (length ?pre)) st1 = (Suc (length ?pre), st1)"
        using env(2) by (simp add: skip_pascal_def)
      with string_token_ordinary [OF tok [unfolded f] prefix q st1(1) [unfolded f]] st2
      show "\<exists>st2. string_token env i tok st = Some (st2, True) \<and> room st2 m \<and> grows_by st1 (piece_units (CharByteWidth st1) p) st2"
        by (simp add: piece_units_def Cooked)
    qed
  next
    case (RawText d vs)
    let ?front = "?pre @ CHR ''R'' # CHR 0x22 # d @ CHR ''('' # utf8_string vs @ CHR '')'' # d"
    have f: "piece_form p = RawForm ?pre d (utf8_string vs) ?suf" by (simp add: piece_form_def RawText)
    have d: "CHR ''('' \<notin> set d" "list_all scalar vs" using p(1) RawText by (simp_all add: string_piece_ok_def)
    show ?thesis
    proof (rule go [of ?front])
      show "?buf = ?front @ CHR 0x22 # ?suf" by (simp add: f)
    next
      fix st1
      assume st1: "string_suffix env i tok ?buf (Suc (length ?front)) st = Some st1" "room st1 (TokLength tok - 2 + m)"
      have "room st1 (length (utf8_string vs) + m)" by (rule room_mono [OF st1(2)]) (use len in \<open>simp add: f\<close>)
      from raw_loop_text [OF env(1) d(2) this, of i "length ?pre + 3 + length d"] obtain st2 where
        st2: "raw_loop env i (length ?pre + 3 + length d) (utf8_string vs) st1 = Some st2" "room st2 m"
          "grows_by st1 (wide_string (CharByteWidth st1) (drop_crlf vs)) st2" by blast
      with string_token_raw [OF tok [unfolded f] prefix d(1) q refl st1(1) [unfolded f]]
      show "\<exists>st2. string_token env i tok st = Some (st2, True) \<and> room st2 m \<and> grows_by st1 (piece_units (CharByteWidth st1) p) st2"
        by (simp add: piece_units_def RawText)
    qed
  qed
qed

section \<open>All tokens\<close>

lemma string_tokens_pieces:
  assumes env: "literal_env_ok env" "\<not> pascal_strings env"
  shows "list_all2 token_of ps toks \<Longrightarrow> \<forall>p \<in> set ps. string_piece_ok (lang env) p \<and> PieceSuffix p \<in> {[], S} \<Longrightarrow>
    StringUDSuffix st \<in> {[], S} \<Longrightarrow> room st (sum_list (map (\<lambda>t. TokLength t - 2) toks)) \<Longrightarrow>
    \<exists>st'. string_tokens env i toks st = Some (st', True) \<and> same_frame st st' \<and>
      ResultUnits st' = ResultUnits st @ concat (map (piece_units (CharByteWidth st)) ps) \<and>
      StringHadError st' = StringHadError st \<and> Pascal st' = Pascal st \<and>
      StringUDSuffix st' = fold (\<lambda>p old. merge_suffix old (PieceSuffix p)) ps (StringUDSuffix st)"
proof (induction ps toks arbitrary: i st rule: list_all2_induct)
  case (Cons p ps tok toks)
  have p: "string_piece_ok (lang env) p" "PieceSuffix p \<in> {[], S}" "\<forall>p \<in> set ps. string_piece_ok (lang env) p \<and> PieceSuffix p \<in> {[], S}"
    using Cons.prems(1) by simp_all
  have "room st (TokLength tok - 2 + sum_list (map (\<lambda>t. TokLength t - 2) toks))" using Cons.prems(3) by simp
  from string_token_piece [OF env p(1) Cons.hyps(1) p(2) Cons.prems(2) this, of i] obtain st1 where
    st1: "string_token env i tok st = Some (st1, True)" "room st1 (sum_list (map (\<lambda>t. TokLength t - 2) toks))" "same_frame st st1"
      "ResultUnits st1 = ResultUnits st @ piece_units (CharByteWidth st) p" "StringHadError st1 = StringHadError st"
      "Pascal st1 = Pascal st" "StringUDSuffix st1 = merge_suffix (StringUDSuffix st) (PieceSuffix p)" by blast
  have "StringUDSuffix st1 \<in> {[], S}" using st1(7) p(2) Cons.prems(2) by (auto simp: merge_suffix_def)
  from Cons.IH [OF p(3) this st1(2), of "Suc i"] obtain st2 where
    st2: "string_tokens env (Suc i) toks st1 = Some (st2, True)" "same_frame st1 st2"
      "ResultUnits st2 = ResultUnits st1 @ concat (map (piece_units (CharByteWidth st1)) ps)"
      "StringHadError st2 = StringHadError st1" "Pascal st2 = Pascal st1"
      "StringUDSuffix st2 = fold (\<lambda>p old. merge_suffix old (PieceSuffix p)) ps (StringUDSuffix st1)" by blast
  have "CharByteWidth st1 = CharByteWidth st" using st1(3) by (simp add: same_frame_def)
  with st1 st2 show ?case by (auto intro: same_frame_trans)
qed simp

text \<open>The kind of a concatenation: that of the pieces with a prefix, if there are any.\<close>

definition common_kind :: "string_piece list \<Rightarrow> literal_kind" where
  "common_kind ps = (case filter (\<lambda>k. k \<noteq> string_literal) (map PieceKind ps) of [] \<Rightarrow> string_literal | k # _ \<Rightarrow> k)"

lemma scan_tokens_kinds:
  "list_all2 token_of ps toks \<Longrightarrow> \<forall>p \<in> set ps. PieceKind p \<in> {string_literal, K} \<Longrightarrow> StringKind st \<in> {string_literal, K} \<Longrightarrow>
   \<exists>st'. scan_tokens i toks st = (st', True) \<and>
     StringKind st' = (if StringKind st = string_literal \<and> (\<forall>p \<in> set ps. PieceKind p = string_literal) then string_literal else K) \<and>
     SizeBound st' = SizeBound st + sum_list (map (\<lambda>t. TokLength t - 2) toks) \<and>
     ResultUnits st' = ResultUnits st \<and> StringHadError st' = StringHadError st \<and> Pascal st' = Pascal st \<and>
     StringUDSuffix st' = StringUDSuffix st"
proof (induction ps toks arbitrary: i st rule: list_all2_induct)
  case (Cons p ps tok toks)
  have len: "\<not> TokLength tok < 2"
    using Cons.hyps(1) by (cases "piece_form p") (auto simp: token_of_def)
  have k: "TokKind tok = PieceKind p" using Cons.hyps(1) by (simp add: token_of_def)
  let ?st = "st\<lparr>SizeBound := SizeBound st + (TokLength tok - 2), MaxTokenLength := max (MaxTokenLength st) (TokLength tok)\<rparr>"
  define st1 where "st1 = (if TokKind tok \<noteq> StringKind ?st \<and> TokKind tok \<noteq> string_literal
    then if StringKind ?st = string_literal then ?st\<lparr>StringKind := TokKind tok\<rparr>
      else (Report_string (err_unsupported_string_concat i) ?st)\<lparr>StringHadError := True\<rparr>
    else ?st)"
  have run: "scan_tokens i (tok # toks) st = scan_tokens (Suc i) toks st1" using len by (simp add: st1_def Let_def)
  have st1: "StringKind st1 = (if StringKind st = string_literal \<and> PieceKind p = string_literal then string_literal else K)"
    "SizeBound st1 = SizeBound st + (TokLength tok - 2)" "ResultUnits st1 = ResultUnits st" "StringHadError st1 = StringHadError st"
    "Pascal st1 = Pascal st" "StringUDSuffix st1 = StringUDSuffix st"
    using Cons.prems k by (auto simp: st1_def)
  from Cons.IH [of st1 "Suc i"] Cons.prems(1) st1 show ?case unfolding run by (auto simp: add.assoc split: if_splits)
qed auto

lemma common_kind_all: "\<forall>p \<in> set ps. PieceKind p = string_literal \<Longrightarrow> common_kind ps = string_literal"
  by (induction ps) (simp_all add: common_kind_def)

lemma fold_merge_suffix:
  "\<forall>p \<in> set ps. PieceSuffix p \<in> {[], S} \<Longrightarrow> old \<in> {[], S} \<Longrightarrow>
   fold (\<lambda>p old. merge_suffix old (PieceSuffix p)) ps old = (if \<forall>p \<in> set ps. PieceSuffix p = [] then old else S)"
  by (induction ps arbitrary: old) (auto simp: merge_suffix_def)


definition sample_pieces :: "string_piece list" where
  "sample_pieces =
     [\<lparr>PieceKind = utf16_string_literal, PieceContent = Cooked [Source 0xE9, Hex ''41'', Ucn (CHR ''U'') ''0001F600''], PieceSuffix = ''_s''\<rparr>,
      \<lparr>PieceKind = string_literal, PieceContent = RawText ''d'' [0x61, 0x0D, 0x0A, 0x62], PieceSuffix = []\<rparr>]"

definition token_for :: "string_piece \<Rightarrow> literal_token" where
  "token_for p = \<lparr>TokKind = PieceKind p, TokLength = length (form_text (piece_form p)),
     TokSpelling = Some (form_text (piece_form p)), TokHasUCN = False\<rparr>"

lemma token_for: "list_all2 token_of ps (map token_for ps)"
  by (simp add: list_all2_map2 list.rel_refl token_of_def token_for_def)


section \<open>The place of a byte\<close>

lemma closing_quote_follows:
  assumes "element_ok lo (next_char s) e"
  shows "element_ok lo (next_char (s @ CHR 0x22 # t)) e"
proof -
  have q: "\<not> isHexDigit (CHR 0x22)" "\<not> octal_digit (CHR 0x22)" by (simp_all add: char_iffs octal_digit_def)
  show ?thesis
  proof (cases s)
    case Nil
    then show ?thesis using assms q by (cases e) auto
  qed (use assms in simp)
qed

lemma offset_loop_bytes:
  "list_all (\<lambda>c. c \<noteq> CHR 0x5C) bs \<Longrightarrow>
   offset_loop env w (pre @ bs @ rest) (length pre) (length bs + k) = offset_loop env w (pre @ bs @ rest) (length (pre @ bs)) k"
proof (induction bs arbitrary: pre)
  case (Cons c bs)
  have "peek (pre @ c # bs @ rest) (length pre) = c" by (simp add: peek_append0) (simp add: peek_def)
  with Cons.prems have "offset_loop env w (pre @ (c # bs) @ rest) (length pre) (length (c # bs) + k) =
      offset_loop env w (pre @ (c # bs) @ rest) (Suc (length pre)) (length bs + k)"
    by (subst offset_loop.simps) simp
  also have "\<dots> = offset_loop env w ((pre @ [c]) @ bs @ rest) (length (pre @ [c])) (length bs + k)" by simp
  also have "\<dots> = offset_loop env w ((pre @ [c]) @ bs @ rest) (length ((pre @ [c]) @ bs)) k"
    using Cons by (intro Cons.IH) simp
  finally show ?case by simp
qed simp

lemma offset_loop_stop: "offset_loop env w buf P 0 = Some P"
  by (subst offset_loop.simps) simp

text \<open>A name, at the width of a byte: how many bytes it stands for.\<close>

lemma measure_element:
  assumes env: "literal_env_ok env" and e: "element_ok (lang env) (next_char rest) (Ucn k ns)"
  shows "MeasureUCNEscape (hex_digit env) (lang env) (pre @ spelling (Ucn k ns) @ rest) (length pre) 1 False =
    (length (element_units 1 (Ucn k ns)), length (pre @ spelling (Ucn k ns)), False)"
proof -
  have h: "hexDigitValue_ok (hex_digit env)" using env by (simp add: literal_env_ok_def)
  let ?v = "of_nat (digits_value 16 0 ns) :: u32"
  have sc: "scalar ?v" using e by simp
  have "units_length (encode_ucn 1 ?v) = bytesToWrite ?v"
    using encode_ucn_ok(2) [of ?v 1] sc by (simp add: scalar_def)
  then have n: "length (element_units 1 (Ucn k ns)) = bytesToWrite ?v"
    by (simp add: element_units_def wide_units_def encode_ucn_def)
  obtain ds where "ProcessUCNEscape (hex_digit env) (lang env) (pre @ spelling (Ucn k ns) @ rest) (length pre) True None =
      (Some ?v, length (pre @ spelling (Ucn k ns)), ds)"
    using ucn_element [OF h e, of pre rest None] by auto
  then show ?thesis unfolding n by (simp add: MeasureUCNEscape_def bytesToWrite_def)
qed

text \<open>The loop steps over an element when there are bytes enough, and stops in it otherwise.\<close>

lemma offset_loop_element:
  assumes env: "literal_env_ok env" and e: "element_ok (lang env) (next_char rest) e"
  shows "offset_loop env 1 (pre @ spelling e @ rest) (length pre) (length (element_units 1 e) + k) =
      offset_loop env 1 (pre @ spelling e @ rest) (length (pre @ spelling e)) k" (is ?step)
    and "k < length (element_units 1 e) \<Longrightarrow> offset_loop env 1 (pre @ spelling e @ rest) (length pre) k =
      Some (length pre + (if is_source e then k else 0))" (is "_ \<Longrightarrow> ?stop")
proof -
  have h: "hexDigitValue_ok (hex_digit env)" using env by (simp add: literal_env_ok_def)
  let ?buf = "pre @ spelling e @ rest"
  have "?step \<and> (k < length (element_units 1 e) \<longrightarrow> ?stop)"
  proof (cases "is_source e")
    case True
    then obtain v where v: "e = Source v" by (cases e) auto
    have plain: "list_all (\<lambda>c. c \<noteq> CHR 0x5C) (utf8_text v)"
      using utf8_string_no_backslash [of "[v]"] e v by simp
    have len: "length (element_units 1 e) = length (utf8_text v)"
      by (simp add: element_units_def v wide_units_def encode_ucn_def utf8_text_def)
    have ?step using offset_loop_bytes [OF plain, of env 1 pre rest k] unfolding len by (simp add: v)
    moreover have ?stop if k: "k < length (element_units 1 e)"
    proof -
      have "utf8_text v = take k (utf8_text v) @ drop k (utf8_text v)" by simp
      moreover have "list_all (\<lambda>c. c \<noteq> CHR 0x5C) (take k (utf8_text v))" using plain by (auto simp: list_all_iff dest: in_set_takeD)
      from offset_loop_bytes [OF this, of env 1 pre "drop k (utf8_text v) @ rest" 0]
      show ?thesis using k unfolding len by (simp add: v offset_loop_stop flip: append_assoc)
    qed
    ultimately show ?thesis by blast
  next
    case False
    note sc = second_char [OF e False, of pre rest]
    show ?thesis
    proof (cases "is_ucn e")
      case True
      then obtain c ns where u: "e = Ucn c ns" by (cases e) auto
      note m = measure_element [OF env e [unfolded u], of pre, folded u]
      have "0 < length (element_units 1 e)"
        using wide_units_length(1) [of "of_nat (digits_value 16 0 ns)" 1] e by (simp add: u element_units_def)
      with m sc True False spelling_not_Nil [OF e] show ?thesis
        by (auto simp: offset_loop.simps [of env "Suc 0" ?buf "length pre"])
    next
      case no: False
      obtain ds where "ProcessCharEscape (hex_digit env) ?buf (length pre) False (1 * 8) None =
          \<lparr>Result = of_nat (element_value (1 * 8) e), Pos = length (pre @ spelling e), HadError = False, EscDiags = ds\<rparr>"
        using escape_element [OF h e False no, of 8 pre False None] by auto
      moreover have "length (element_units 1 e) = 1" using False no by (simp add: element_units_def)
      ultimately show ?thesis using sc False no spelling_not_Nil [OF e]
        by (auto simp: offset_loop.simps [of env "Suc 0" ?buf "length pre"] Let_def)
    qed
  qed
  then show ?step "k < length (element_units 1 e) \<Longrightarrow> ?stop" by blast+
qed

lemma offset_loop_elements:
  assumes env: "literal_env_ok env"
  shows "elements_ok (lang env) (xs @ ys) \<Longrightarrow> quote_tail = CHR 0x22 # t \<Longrightarrow>
    offset_loop env 1 (pre @ spellings (xs @ ys) @ quote_tail) (length pre) (length (elements_units 1 xs) + k) =
    offset_loop env 1 (pre @ spellings (xs @ ys) @ quote_tail) (length (pre @ spellings xs)) k"
proof (induction xs arbitrary: pre)
  case (Cons x xs)
  have ok: "element_ok (lang env) (next_char (spellings (xs @ ys) @ quote_tail)) x" "elements_ok (lang env) (xs @ ys)"
    using closing_quote_follows [of "lang env" "spellings (xs @ ys)" x t] Cons.prems by simp_all
  from offset_loop_element(1) [OF env ok(1), of pre "length (elements_units 1 xs) + k"]
  have "offset_loop env 1 (pre @ spellings ((x # xs) @ ys) @ quote_tail) (length pre) (length (elements_units 1 (x # xs)) + k) =
      offset_loop env 1 ((pre @ spelling x) @ spellings (xs @ ys) @ quote_tail) (length (pre @ spelling x)) (length (elements_units 1 xs) + k)"
    by (simp add: add.assoc)
  also have "\<dots> = offset_loop env 1 ((pre @ spelling x) @ spellings (xs @ ys) @ quote_tail) (length ((pre @ spelling x) @ spellings xs)) k"
    by (rule Cons.IH [OF ok(2) Cons.prems(2)])
  finally show ?case by simp
qed simp

lemma getOffsetOfStringByte_ordinary:
  assumes "TokSpelling tok = Some ((string_prefix k @ [CHR 0x22]) @ body)" "k \<in> {string_literal, utf8_string_literal}"
  shows "getOffsetOfStringByte env w tok n =
    offset_loop env w ((string_prefix k @ [CHR 0x22]) @ body) (length (string_prefix k @ [CHR 0x22])) n"
proof -
  from assms(2) consider "string_prefix k = []" | "string_prefix k = ''u8''" by (auto simp: string_prefix_def)
  then show ?thesis using assms(1) by cases (simp_all add: getOffsetOfStringByte_def peek_def eval_nat_numeral)
qed

text \<open>
  C28. \<open>getOffsetOfStringByte\<close> finds where a byte of an ordinary literal comes from: for byte \<open>n\<close> of the string, the place in the
  spelling of the element that made it, whatever escapes, names and multibyte characters are before it; within a
  multibyte source character it is the place of that very byte.
\<close>

theorem getOffsetOfStringByte_place:
  assumes env: "literal_env_ok env" and p: "token_of p tok" "PieceKind p \<in> {string_literal, utf8_string_literal}"
    and es: "PieceContent p = Cooked (xs @ e # ys)" "elements_ok (lang env) (xs @ e # ys)"
    and n: "length (elements_units 1 xs) \<le> n" "n < length (elements_units 1 (xs @ [e]))"
  shows "piece_units 1 p ! n = element_units 1 e ! (n - length (elements_units 1 xs)) \<and>
    getOffsetOfStringByte env 1 tok n = Some (length (string_prefix (PieceKind p)) + 1 + length (spellings xs) +
      (if is_source e then n - length (elements_units 1 xs) else 0))"
proof -
  let ?pre = "string_prefix (PieceKind p) @ [CHR 0x22]" and ?k = "n - length (elements_units 1 xs)"
  let ?t = "CHR 0x22 # PieceSuffix p"
  have buf: "TokSpelling tok = Some (?pre @ spellings (xs @ e # ys) @ ?t)"
    using p(1) by (simp add: token_of_def piece_form_def es(1))
  have k: "n = length (elements_units 1 xs) + ?k" "?k < length (element_units 1 e)" using n by auto
  have ok: "element_ok (lang env) (next_char (spellings ys @ ?t)) e"
    using closing_quote_follows [of "lang env" "spellings ys" e "PieceSuffix p"] elements_ok_append [OF es(2)] by simp
  have "offset_loop env 1 (?pre @ spellings (xs @ e # ys) @ ?t) (length ?pre) n =
      offset_loop env 1 (?pre @ spellings (xs @ e # ys) @ ?t) (length (?pre @ spellings xs)) ?k"
    by (rule offset_loop_elements [OF env es(2) refl, of ?pre "PieceSuffix p" ?k, folded k(1)])
  also have "\<dots> = offset_loop env 1 ((?pre @ spellings xs) @ spelling e @ spellings ys @ ?t) (length (?pre @ spellings xs)) ?k" by simp
  also have "\<dots> = Some (length (?pre @ spellings xs) + (if is_source e then ?k else 0))"
    by (rule offset_loop_element(2) [OF env ok k(2)])
  finally have loop: "offset_loop env 1 (?pre @ spellings (xs @ e # ys) @ ?t) (length ?pre) n =
    Some (length (?pre @ spellings xs) + (if is_source e then ?k else 0))" .
  note getOffsetOfStringByte_ordinary [OF buf p(2), of env 1 n]
  moreover have "piece_units 1 p ! n = element_units 1 e ! ?k"
    using k n by (simp add: piece_units_def es(1) nth_append)
  ultimately show ?thesis using loop by simp
qed

theorem getOffsetOfStringByte_place_witness:
  "getOffsetOfStringByte sample_env 1 (token_for \<lparr>PieceKind = utf8_string_literal,
     PieceContent = Cooked [Source 0xE9, Ucn (CHR ''u'') ''20AC'', Simple (CHR ''n'')], PieceSuffix = []\<rparr>) 5 = Some 11"
proof -
  let ?p = "\<lparr>PieceKind = utf8_string_literal, PieceContent = Cooked ([Source 0xE9, Ucn (CHR ''u'') ''20AC''] @ Simple (CHR ''n'') # []),
    PieceSuffix = []\<rparr>"
  have v: "digits_value 16 0 ''20AC'' = 0x20AC" by (simp add: hex_value_def char_iffs)
  have tok: "token_of ?p (token_for ?p)" by (simp add: token_of_def token_for_def)
  have ok: "elements_ok (lang sample_env) ([Source 0xE9, Ucn (CHR ''u'') ''20AC''] @ Simple (CHR ''n'') # [])"
    using v by (simp add: scalar_def char_iffs sample_env_def sample_options_def octal_digit_def del: digits_value_simps)
  have units: "wide_units 1 0xE9 = [0xC3, 0xA9]" "wide_units 1 0x20AC = [0xE2, 0x82, 0xAC]" "utf8_text 0xE9 = [CHR 0xC3, CHR 0xA9]"
    by code_simp+
  have len: "length (elements_units 1 [Source 0xE9, Ucn (CHR ''u'') ''20AC'']) = 5" "length (element_units 1 (Simple (CHR ''n''))) = 1"
    using units v by (simp_all add: element_units_def del: digits_value_simps)
  have "length (spellings [Source 0xE9, Ucn (CHR ''u'') ''20AC'']) = 8" using units by simp
  with getOffsetOfStringByte_place [OF sample_env_ok(1) tok _ _ ok, of 5] len
  show ?thesis by (simp add: string_prefix_def)
qed

text \<open>
  In a raw literal it is wrong after a line end \<open>\r\n\<close>, which the string has as one byte: the place of byte 2 of
  \<open>R"(a\r\nb)"\<close>, the letter \<open>b\<close>, is given as that of the \<open>\n\<close> before it.
\<close>

theorem raw_offset_ignores_crlf:
  "let tok = token_for \<lparr>PieceKind = string_literal, PieceContent = RawText [] [0x61, 0x0D, 0x0A, 0x62], PieceSuffix = []\<rparr> in
     map_option ResultUnits (StringLiteralParser sample_env True [tok]) = Some [0x61, 0x0A, 0x62] \<and>
     getOffsetOfStringByte sample_env 1 tok 2 = Some 5 \<and>
     map_option (\<lambda>s. (s ! 5, s ! 6)) (TokSpelling tok) = Some (CHR 0x0A, CHR ''b'')"
proof -
  let ?p = "\<lparr>PieceKind = string_literal, PieceContent = RawText [] [0x61, 0x0D, 0x0A, 0x62], PieceSuffix = []\<rparr>"
  have bytes: "utf8_text 0x61 = ''a''" "utf8_text 0x0D = [CHR 0x0D]" "utf8_text 0x0A = [CHR 0x0A]" "utf8_text 0x62 = ''b''"
    and units: "wide_units (Suc 0) 0x61 = [0x61]" "wide_units (Suc 0) 0x0A = [0x0A]" "wide_units (Suc 0) 0x62 = [0x62]"
    by code_simp+
  have buf: "form_text (piece_form ?p) = ''R'' @ CHR 0x22 # ''(a'' @ [CHR 0x0D, CHR 0x0A] @ ''b)'' @ [CHR 0x22]"
    by (simp add: piece_form_def string_prefix_def bytes)
  have ok: "string_piece_ok (lang sample_env) ?p" by (simp add: string_piece_ok_def is_string_kind_def scalar_def)
  define st where "st = (initial_string True)\<lparr>MaxTokenLength := 9, SizeBound := 8, StringKind := string_literal, CharByteWidth := 1\<rparr>"
  have tok: "list_all2 token_of [?p] [token_for ?p]" using token_for [of "[?p]"] by simp
  have t: "TokLength (token_for ?p) = 9" "TokKind (token_for ?p) = string_literal" "TokSpelling (token_for ?p) = Some (form_text (piece_form ?p))"
    by (simp_all add: token_for_def buf)
  have st: "StringUDSuffix st \<in> {[], []}" "room st (sum_list (map (\<lambda>t. TokLength t - 2) [token_for ?p]))"
      "CharByteWidth st = Suc 0" "ResultUnits st = []" "\<not> Pascal st"
    by (simp_all add: st_def room_def initial_string_def t(1))
  have np: "\<not> pascal_strings sample_env" by (simp add: sample_env_def)
  have "\<forall>p \<in> set [?p]. string_piece_ok (lang sample_env) p \<and> PieceSuffix p \<in> {[], []}" using ok by simp
  from string_tokens_pieces [OF sample_env_ok(1) np tok this st(1,2), of 0] obtain st' where
    st': "string_tokens sample_env 0 [token_for ?p] st = Some (st', True)" "same_frame st st'"
    "ResultUnits st' = ResultUnits st @ concat (map (piece_units (CharByteWidth st)) [?p])" "Pascal st' = Pascal st"
    by blast
  have w: "getCharWidth string_literal (target sample_env) = Some 8"
    by (simp add: getCharWidth_def sample_env_def literal_target_def)
  have r: "ResultUnits st' = [0x61, 0x0A, 0x62]" using st'(3) units unfolding st(3,4) by (simp add: piece_units_def)
  have "StringLiteralParser sample_env True [token_for ?p] = finish_string sample_env st'"
    using st'(1) w by (simp add: StringLiteralParser_def st_def initial_string_def t(1,2))
  moreover have "map_option ResultUnits (finish_string sample_env st') = Some [0x61, 0x0A, 0x62]"
    using st'(4) st(5) r by (simp add: finish_string_def Report_string_def)
  moreover have "getOffsetOfStringByte sample_env 1 (token_for ?p) 2 = Some 5"
    by (simp add: getOffsetOfStringByte_def t(3) buf peek_def scan_while.simps [of _ _ "Suc (Suc 0)"] Let_def)
  ultimately show ?thesis by (simp add: t(3) buf)
qed

end
