(* ===== verification/Spec2Isabelle.thy ===== *)
theory Spec2Isabelle
  imports RewriteBuffer Minimizer PPGrammar HeaderMap ReplacementSets EditCommit StringContents
begin

text \<open>
  Latino-LLVM is a front end in the manner of Clang: a preprocessor and a parser over source files, a syntax
  tree, semantic analysis, code generation through LLVM, and the tools that rewrite sources.  This development
  models the parts whose logic stands by itself, in the order of the layers of the program: texts and their edits
  (\<open>lib/Rewrite\<close>, \<open>lib/Tooling/Core\<close>, \<open>lib/Edit\<close>), characters, literals and conditions of the lexer and the preprocessor
  (\<open>lib/Basic/CharInfo.cpp\<close>, \<open>lib/Lex\<close>), the files and records they consult (header maps, the record of
  conditional directives).  Each definition follows the function of the same name; the words of the program's
  integers are words where they wrap, and naturals or integers where the code asserts or assumes that they do not.
\<close>

section \<open>Parts and theories\<close>

text \<open>
  \<^item> Texts and their edits.  \<open>DeltaTree\<close> (\<open>DeltaTree.cpp\<close>) is the B-tree that maps an original offset to the
    change of size before it; a tree is a \<open>delta_node\<close>, nodes hold at most 15 deltas and the totals of their subtrees.
    \<open>RewriteRope\<close> (\<open>RewriteRope.cpp\<close>, \<open>RewriteRope.h\<close>) is the B+ tree of pieces of shared buffers that
    holds the text; the heap of buffers is explicit, since insertions append to a buffer that other pieces share.
    \<open>RewriteBuffer\<close> (\<open>Rewriter.cpp\<close>, \<open>RewriteBuffer.h\<close>) pairs the two: \<open>InsertText\<close>,
    \<open>RemoveText\<close> and \<open>ReplaceText\<close> take offsets of the original text.  \<open>RewriteInterfaces\<close> has what the pair
    relies on as the locales \<open>delta_map\<close> and \<open>text_buffer\<close>, which the two trees interpret; the locale
    \<open>edited_buffer\<close> extends them with what the buffer keeps of both and is interpreted on the buffer.

  \<^item> Sets of replacements.  \<open>Replacements\<close> (\<open>Replacement.cpp\<close>, \<open>Replacement.h\<close>) has ranges, replacements,
    their order and the merge of two sets, \<open>ReplacementMerge\<close> proves the merge, \<open>ReplacementSets\<close> has \<open>add\<close>,
    the canonical form, shifted positions, affected ranges and the application to a rewrite buffer.  A \<open>std::set\<close> is
    the sorted list of its elements.

  \<^item> Commits of edits.  \<open>EditedSource\<close> (\<open>EditedSource.cpp\<close>, \<open>FileOffset.h\<close>) is the map from offsets in files to a text
    and a length to remove, with what commits and the application of the rewrites do to it; a \<open>std::map\<close> is the
    sorted list of its entries, an iterator the entries from its position on.  \<open>EditedState\<close> has the
    view of the map (texts, removed positions, positions shut for insertions) and the locale \<open>range_store\<close> of what
    its clients rely on, interpreted on the map; \<open>EditedTexts\<close> has the text that the edits of a file define, and
    \<open>EditedRewrites\<close> the calls of the receiver.  \<open>EditCommit\<close> (\<open>Commit.cpp\<close>) checks operations at source
    locations against the editor and the record of \<open>ConditionalRecord\<close>, and caches the edits for the editor.

  \<^item> Characters and scanning.  \<open>CharInfo\<close> (\<open>CharInfo.cpp\<close>, \<open>CharInfo.h\<close>) is the table of character
    classes; \<open>Scanner\<close> has pointers into a buffer as indices.  \<open>Minimizer\<close>
    (\<open>DependencyDirectivesSourceMinimizer.cpp\<close>) reduces a file to the lines a scan for dependencies reads.

  \<^item> Literals.  \<open>CharEscapes\<close> (\<open>LiteralSupport.cpp\<close>) has escapes and universal character names,
    \<open>NumericLiteral\<close> (the same file) the parser of numbers and their integer value, \<open>FixedPointLiteral\<close> the
    floating and fixed-point values.  \<open>UnicodeText\<close> has code points as bytes and as units, and what is documented of
    the conversions of LLVM; \<open>LiteralElements\<close> the elements that character and string literals are made of, with spelling
    and value.  \<open>CharLiteral\<close> is \<open>CharLiteralParser\<close>, \<open>StringLiteral\<close> is \<open>StringLiteralParser\<close>: a token is the string
    of its spelling, the output buffer the list of what is written to it, with its size.  \<open>StringContents\<close> proves what strings
    contain.

  \<^item> Conditions.  \<open>PPExpressions\<close> (\<open>PPExpressions.cpp\<close>) is the evaluator of \<open>#if\<close>: \<open>EvaluateValue\<close> and
    the loop of \<open>EvaluateDirectiveSubExpr\<close> call each other, their bodies \<open>value_body\<close> and \<open>loop_body\<close> take the
    calls as arguments.  Numbers go through \<open>NumericLiteral\<close>.  \<open>PPArithmetic\<close> proves the operators against the
    integers, \<open>PPEvaluation\<close> that the evaluation returns, \<open>PPInvariants\<close> that it fails no assertion,
    \<open>PPGrammar\<close> that it follows the grammar.

  \<^item> Tables.  \<open>HeaderMap\<close> (\<open>HeaderMap.cpp\<close>, \<open>HeaderMapTypes.h\<close>) reads a hash table out of the bytes of a file;
    \<open>ConditionalRecord\<close> (\<open>PPConditionalDirectiveRecord.cpp\<close>) records the conditional directives of a
    translation unit and answers in which region a location is.

  \<open>Prelude\<close> has the names of the machine types, the collections of rewrite rules and the facts on lists that
  the others share.
\<close>

section \<open>How the code is written down\<close>

text \<open>
  A function that can fail an assertion, or reach \<open>llvm_unreachable\<close>, gives an option: \<open>None\<close> is the failure.  An error
  that the code returns is a value (\<open>Inl\<close> of a sum, or a constructor); diagnostics are a list in the state.  Loops are
  functions with a measure.  Where the code may not return, or its recursion hangs on a lexer that is a
  parameter, there is fuel, and a theorem says how much is enough: the blanks of a line for \<open>blank_line_size\<close>, the
  number of buckets for \<open>probe\<close> (a lookup that has not ended by then never ends), the number of tokens of the line plus one
  for \<open>EvaluateDirectiveExpression\<close>; more fuel does not change the result.  \<open>topExpansion\<close> climbs out of macro expansions
  without a bound of its own, so it is a partial function; that it comes to an end is derived from the nesting of expansions.

  What is not part of the repository, or is a part that is not modelled, is a parameter, with what is documented of it as a predicate: \<open>APInt_ok\<close> and
  \<open>APSInt_ok\<close> for the integers of LLVM, \<open>hexDigitValue_ok\<close> for its digits, \<open>llvm_ok\<close> for byte swapping and comparison,
  \<open>source_order\<close> for the order of source locations, \<open>sources_ok\<close> and \<open>commit_sources_ok\<close> for the source manager
  and the ranges of the lexer, \<open>finite_line\<close> for a lexer that comes to the end of
  the directive, \<open>fixed_ops_ok\<close> and \<open>leading_zeros_ok\<close> for the integers behind fixed-point and character values,
  \<open>literal_env_ok\<close> for the conversions of text (\<open>to_utf32_ok\<close>, \<open>to_wide_ok\<close>).  Each is shown to hold of a concrete
  instance (\<open>apint_model\<close>, \<open>apsint_model\<close>, \<open>fixed_model\<close>, \<open>clz_model\<close>, \<open>sample_env\<close>, \<open>line_pp\<close>, \<open>sample_sources\<close> and so on),
  on which the theorems are tried out.
\<close>

section \<open>What is shown\<close>

text \<open>
  \<^item> \<open>DeltaTree\<close>: insertion keeps the tree sorted, of equal depth and with correct totals, and refines the addition of a delta
    to a map; after any history of edits a query gives the sum of the deltas before its index.

  \<^item> \<open>RewriteRope\<close>: insertion and erasure are splicing and cutting of the text, whatever is split or shared; erasing the
    whole text of a tree of several levels leaves a root without children (a bug).  The iterator reads the text in order.

  \<^item> \<open>RewriteBuffer\<close>: while a buffer tracks a file, each original character that is still there is at its mapped
    offset, and the three edits change exactly the characters they name and keep that tracking.

  \<^item> \<open>Replacements\<close>: the merge of two sets has the effect of the one after the other; \<open>add\<close> keeps a set sorted and without
    overlaps; the canonical form has the same effect; positions and ranges of the changed code are the places they stand for;
    applying a set through the rewrite buffer gives the text that the set defines.

  \<^item> Commits: whatever operations a commit is made of, committing it returns and keeps the edits in order and apart, so that
    no assertion fails when they are applied; carrying out the calls gives the text that the edits define; removal is the
    union of ranges; text inserted from a range is the text as edited; a commit at locations in files is carried out
    in full; an adjusted removal does not join identifiers.  Two bugs: three touching edits give overlapping calls, and a
    replacement through a second use of a macro argument loses its text.

  \<^item> \<open>Minimizer\<close>: every step makes progress, no read is outside the buffer, tokens are in order; what is kept and dropped.

  \<^item> Literals: values and ranges of escapes, encodings of code points, the value and the overflow flag of integer literals, the
    fast path against the slow one, no failing assertion.  Fixed-point values are exact, rounded towards zero, with the
    overflow reported; character literals have the value of the language, strings the units of their elements across
    concatenation, raw text and suffixes; whatever the bytes of a token, no write is past the buffers and the parsers return; the
    place of a byte in the spelling.  Two bugs: a hex digit \<open>e\<close> is taken for an exponent, and places in raw literals ignore the
    line ends \<open>\r\n\<close> that are shortened.

  \<^item> Conditions: the evaluation returns and restores the flags; precedence climbing computes the value, the diagnostics, the
    errors and the tracker of the expression tree that the tokens are printed from; operators give exact integers in the type
    of the result and warn of overflow exactly when it happens; the macro reported for an include guard is one, and
    exactly the negated \<open>defined\<close> forms report one.

  \<^item> Tables: a file that is accepted as a header map is read within its bounds; a lookup gives the first match in
    probe order, does not depend on the byte order of the host or on case, and ends exactly when some bucket is empty or has
    the key.  Locations are found in the region that the directives before them open.
\<close>

section \<open>Not modelled\<close>

text \<open>
  Of the modelled parts: reference counts, destructors and debugging output; source ranges and the texts of
  diagnostics; callbacks and code completion; how the lexer spells a token; construction of replacements from source locations and their grouping by file.

  Of the program: the lexer and the preprocessor as a whole (file changes, macro expansion, includes, modules), the syntax tree,
  the parser and the semantic analysis, code generation, the static analyzer, the driver, formatting, serialization and the
  tools.  They work on a state that spans the program (source manager, identifier tables, the tree), and their
  specification is the language standard; none of their functions means something by itself in the way the modelled
  ones do.  Headers for compiled programs and unit tests are data for the program, not part of it.
\<close>

end
